(* ===== verification/Prelude.thy ===== *)
theory Prelude
  imports Main "HOL-Library.Word" "HOL-Library.AList" "HOL-Library.Sublist"
begin

text \<open>
  Shared material of the development: the machine types, Rust's \<open>Result\<close> and its
  \<open>?\<close> operator, a state monad with errors for the operations that write through a
  lock, the host (wall clock and ULID generator) whose answers the code reads, and the
  string and vector operations of the standard library that the sources use.

  Conventions. \<open>String\<close> and \<open>&str\<close> are \<open>string\<close>, one \<open>char\<close> per UTF-8 byte.
  \<open>usize\<close> is \<open>nat\<close> where it counts or indexes a vector in memory, and a word where the
  code converts it. A \<open>HashMap\<close> that is only looked up is a map \<open>'k \<rightharpoonup> 'v\<close>; one that is
  iterated is an association list with distinct keys, whose order stands for the
  unspecified iteration order. \<open>f64\<close> and \<open>f32\<close> values are their IEEE 754 bit patterns.
\<close>

section \<open>Machine types\<close>

type_synonym u8 = "8 word"
type_synonym u16 = "16 word"
type_synonym u32 = "32 word"
type_synonym u64 = "64 word"
type_synonym i32 = "32 word"
type_synonym i64 = "64 word"
type_synonym f32 = "32 word"
type_synonym f64 = "64 word"
type_synonym ulid = "128 word"
type_synonym instant = int
type_synonym metadata = "string \<rightharpoonup> string"

section \<open>Collections of facts\<close>

named_theorems result_simps \<open>evaluation of \<open>Result\<close> and of the error monad\<close>
named_theorems storage_simps \<open>what a lookup returns after a storage operation\<close>
named_theorems frame_simps \<open>fields an operation leaves alone\<close>

section \<open>\<open>Result\<close> and the \<open>?\<close> operator\<close>

type_synonym ('e, 'a) result = "'e + 'a"

definition rbind :: "('e, 'a) result \<Rightarrow> ('a \<Rightarrow> ('e, 'b) result) \<Rightarrow> ('e, 'b) result" where
  "rbind r f = (case r of Inl e \<Rightarrow> Inl e | Inr a \<Rightarrow> f a)"

lemma rbind_simps [simp, result_simps]:
  "rbind (Inl e) f = Inl e" "rbind (Inr a) f = f a"
  by (simp_all add: rbind_def)

lemma rbind_Inr_iff: "rbind r f = Inr b \<longleftrightarrow> (\<exists>a. r = Inr a \<and> f a = Inr b)"
  by (cases r) simp_all

lemma rbind_Inl_iff: "rbind r f = Inl e \<longleftrightarrow> r = Inl e \<or> (\<exists>a. r = Inr a \<and> f a = Inl e)"
  by (cases r) simp_all

definition ok_or :: "'e \<Rightarrow> 'a option \<Rightarrow> ('e, 'a) result" where
  "ok_or e x = (case x of None \<Rightarrow> Inl e | Some a \<Rightarrow> Inr a)"

lemma ok_or_simps [simp, result_simps]: "ok_or e None = Inl e" "ok_or e (Some a) = Inr a"
  by (simp_all add: ok_or_def)

lemma ok_or_Inr_iff: "ok_or e x = Inr a \<longleftrightarrow> x = Some a"
  by (cases x) simp_all

definition map_err :: "('e \<Rightarrow> 'f) \<Rightarrow> ('e, 'a) result \<Rightarrow> ('f, 'a) result" where
  "map_err f r = (case r of Inl e \<Rightarrow> Inl (f e) | Inr a \<Rightarrow> Inr a)"

lemma map_err_simps [simp, result_simps]:
  "map_err f (Inl e) = Inl (f e)" "map_err f (Inr a) = Inr a"
  by (simp_all add: map_err_def)

lemma map_err_Inr_iff: "map_err f r = Inr a \<longleftrightarrow> r = Inr a"
  by (cases r) simp_all

definition is_ok :: "('e, 'a) result \<Rightarrow> bool" where
  "is_ok r = (case r of Inl _ \<Rightarrow> False | Inr _ \<Rightarrow> True)"

lemma is_ok_simps [simp, result_simps]: "\<not> is_ok (Inl e)" "is_ok (Inr a)"
  by (simp_all add: is_ok_def)

definition result_ok :: "('e, 'a) result \<Rightarrow> 'a option" where
  "result_ok r = (case r of Inl _ \<Rightarrow> None | Inr a \<Rightarrow> Some a)"

lemma result_ok_simps [simp, result_simps]:
  "result_ok (Inl e) = None" "result_ok (Inr a) = Some a"
  by (simp_all add: result_ok_def)

section \<open>Operations with state and errors\<close>

text \<open>
  An operation on a component's state returns its \<open>Result\<close> and the state it leaves; the
  state written before an error stays written, as in the code.
\<close>

type_synonym ('s, 'e, 'a) op = "'s \<Rightarrow> ('e, 'a) result \<times> 's"

definition st_ok :: "'a \<Rightarrow> ('s, 'e, 'a) op" where
  "st_ok a s = (Inr a, s)"

definition st_err :: "'e \<Rightarrow> ('s, 'e, 'a) op" where
  "st_err e s = (Inl e, s)"

definition st_bind :: "('s, 'e, 'a) op \<Rightarrow> ('a \<Rightarrow> ('s, 'e, 'b) op) \<Rightarrow> ('s, 'e, 'b) op" where
  "st_bind m f s = (case m s of (Inl e, s') \<Rightarrow> (Inl e, s') | (Inr a, s') \<Rightarrow> f a s')"

definition st_lift :: "('e, 'a) result \<Rightarrow> ('s, 'e, 'a) op" where
  "st_lift r s = (r, s)"

definition st_gets :: "('s \<Rightarrow> ('e, 'a) result) \<Rightarrow> ('s, 'e, 'a) op" where
  "st_gets f s = (f s, s)"

lemma st_simps [simp, result_simps]:
  "st_ok a s = (Inr a, s)" "st_err e s = (Inl e, s)" "st_lift r s = (r, s)"
  "st_gets g s = (g s, s)"
  by (simp_all add: st_ok_def st_err_def st_lift_def st_gets_def)

lemma st_bind_Inl [result_simps]: "m s = (Inl e, s') \<Longrightarrow> st_bind m f s = (Inl e, s')"
  by (simp add: st_bind_def)

lemma st_bind_Inr [result_simps]: "m s = (Inr a, s') \<Longrightarrow> st_bind m f s = f a s'"
  by (simp add: st_bind_def)

lemma st_bind_ok [simp]: "st_bind (st_ok a) f = f a"
  by (rule ext) (simp add: st_bind_def)

lemma st_bind_err [simp]: "st_bind (st_err e) f = st_err e"
  by (rule ext) (simp add: st_bind_def)

lemma st_bind_eq_Inr:
  "st_bind m f s = (Inr b, t) \<longleftrightarrow> (\<exists>a s'. m s = (Inr a, s') \<and> f a s' = (Inr b, t))"
  by (auto simp: st_bind_def split: prod.splits sum.splits)

lemma st_bind_preserves:
  assumes "\<And>s. P s \<Longrightarrow> P (snd (m s))" and "\<And>a s. P s \<Longrightarrow> P (snd (f a s))" and "P s"
  shows "P (snd (st_bind m f s))"
  using assms(1) [OF assms(3)] assms(2)
  by (auto simp: st_bind_def split: prod.splits sum.splits)


text \<open>A sequence of calls: the answers in order and the state they leave.\<close>

fun run_outputs :: "('o \<Rightarrow> 's \<Rightarrow> 'r \<times> 's) \<Rightarrow> 'o list \<Rightarrow> 's \<Rightarrow> 'r list \<times> 's" where
  "run_outputs step [] s = ([], s)"
| "run_outputs step (x # xs) s =
     (let (r, s') = step x s; (rs, s'') = run_outputs step xs s' in (r # rs, s''))"

lemma run_outputs_length [simp]: "length (fst (run_outputs step xs s)) = length xs"
  by (induction xs arbitrary: s) (simp_all add: split_beta)

lemma run_outputs_invariant:
  assumes "P s" and "\<And>x s. P s \<Longrightarrow> P (snd (step x s))"
  shows "P (snd (run_outputs step xs s))"
  using assms by (induction xs arbitrary: s) (simp_all add: split_beta)

lemma run_outputs_append:
  "run_outputs step (xs @ ys) s =
     (let (rs, s') = run_outputs step xs s; (rs', s'') = run_outputs step ys s' in (rs @ rs', s''))"
  by (induction xs arbitrary: s) (simp_all add: split_beta)

section \<open>The host: wall clock and identifier generator\<close>

text \<open>
  \<open>OffsetDateTime::now_utc()\<close>, \<open>SystemTime::now()\<close> and \<open>Ulid::new()\<close> read the outside
  world. A host is the stream of answers they give and the number of questions asked so far;
  nothing is assumed of the answers (the clock may step back, identifiers may repeat) except
  where a lemma says so.
\<close>

record host =
  clock :: "nat \<Rightarrow> instant"
  millis :: "nat \<Rightarrow> 128 word"
  ulids :: "nat \<Rightarrow> ulid"
  calls :: nat

definition now_utc :: "host \<Rightarrow> instant \<times> host" where
  "now_utc h = (clock h (calls h), h\<lparr>calls := Suc (calls h)\<rparr>)"

definition now_millis :: "host \<Rightarrow> i64 \<times> host" where
  "now_millis h = (ucast (millis h (calls h)), h\<lparr>calls := Suc (calls h)\<rparr>)"

definition ulid_new :: "host \<Rightarrow> ulid \<times> host" where
  "ulid_new h = (ulids h (calls h), h\<lparr>calls := Suc (calls h)\<rparr>)"

section \<open>Strings\<close>

definition strip_prefix :: "'a list \<Rightarrow> 'a list \<Rightarrow> 'a list option" where
  "strip_prefix p s = (if take (length p) s = p then Some (drop (length p) s) else None)"

lemma strip_prefix_append [simp]: "strip_prefix p (p @ s) = Some s"
  by (simp add: strip_prefix_def)

lemma strip_prefix_Some_iff: "strip_prefix p s = Some r \<longleftrightarrow> s = p @ r"
  by (auto simp: strip_prefix_def) (metis append_take_drop_id)

lemma strip_prefix_None_iff: "strip_prefix p s = None \<longleftrightarrow> \<not> prefix p s"
  by (auto simp: strip_prefix_def prefix_def) (metis append_take_drop_id)

definition strip_suffix :: "'a list \<Rightarrow> 'a list \<Rightarrow> 'a list option" where
  "strip_suffix p s = map_option rev (strip_prefix (rev p) (rev s))"

lemma strip_suffix_Some_iff: "strip_suffix p s = Some r \<longleftrightarrow> s = r @ p"
  unfolding strip_suffix_def map_option_eq_Some strip_prefix_Some_iff
  by (auto simp: rev_swap)

lemma strip_suffix_append [simp]: "strip_suffix p (s @ p) = Some s"
  by (simp add: strip_suffix_Some_iff)

lemma strip_suffix_None_iff: "strip_suffix p s = None \<longleftrightarrow> \<not> suffix p s"
  by (simp add: strip_suffix_def strip_prefix_None_iff suffix_to_prefix)

definition unwrap_or :: "'a \<Rightarrow> 'a option \<Rightarrow> 'a" where
  "unwrap_or d x = (case x of None \<Rightarrow> d | Some a \<Rightarrow> a)"

lemma unwrap_or_simps [simp]: "unwrap_or d None = d" "unwrap_or d (Some a) = a"
  by (simp_all add: unwrap_or_def)

text \<open>\<open>str::split(c)\<close> for one character: never empty, keeps empty components.\<close>

fun split_on :: "'a \<Rightarrow> 'a list \<Rightarrow> 'a list list" where
  "split_on c [] = [[]]"
| "split_on c (x # xs) =
     (if x = c then [] # split_on c xs
      else (case split_on c xs of [] \<Rightarrow> [[x]] | y # ys \<Rightarrow> (x # y) # ys))"

lemma split_on_ne [simp]: "split_on c xs \<noteq> []"
  by (cases xs) (auto split: list.splits)

lemma split_on_no_sep: "c \<notin> set xs \<Longrightarrow> split_on c xs = [xs]"
  by (induction xs) auto

lemma split_on_append: "c \<notin> set xs \<Longrightarrow> split_on c (xs @ c # ys) = xs # split_on c ys"
  by (induction xs) auto

lemma hd_split_on: "hd (split_on c xs) = takeWhile (\<lambda>x. x \<noteq> c) xs"
  by (induction xs) (auto split: list.splits)

lemma length_split_on: "length (split_on c xs) = Suc (count_list xs c)"
  by (induction xs) (auto split: list.splits)

lemma split_on_single_iff: "length (split_on c xs) = Suc 0 \<longleftrightarrow> c \<notin> set xs"
  by (simp add: length_split_on count_list_0_iff)

text \<open>\<open>str::rfind(c)\<close>: the position of the last occurrence.\<close>

fun rfind :: "'a \<Rightarrow> 'a list \<Rightarrow> nat option" where
  "rfind c [] = None"
| "rfind c (x # xs) =
     (case rfind c xs of Some i \<Rightarrow> Some (Suc i) | None \<Rightarrow> if x = c then Some 0 else None)"

lemma rfind_None_iff: "rfind c xs = None \<longleftrightarrow> c \<notin> set xs"
  by (induction xs) (auto split: option.splits)

lemma rfind_append: "c \<notin> set ys \<Longrightarrow> rfind c (xs @ c # ys) = Some (length xs)"
  by (induction xs) (auto simp: rfind_None_iff split: option.splits)

lemma rfind_SomeD: "rfind c xs = Some i \<Longrightarrow> i < length xs \<and> xs ! i = c"
  by (induction xs arbitrary: i) (auto split: option.splits if_splits)

text \<open>Decimal printing of integers, as \<open>to_string\<close> and \<open>format!\<close> do.\<close>

fun show_nat :: "nat \<Rightarrow> string" where
  "show_nat n =
     (if n < 10 then [char_of (48 + n)] else show_nat (n div 10) @ [char_of (48 + n mod 10)])"

declare show_nat.simps [simp del]

definition show_int :: "int \<Rightarrow> string" where
  "show_int i = (if i < 0 then CHR ''-'' # show_nat (nat (- i)) else show_nat (nat i))"

section \<open>Counters\<close>

lemma unat_inc: "(s :: 'a::len word) \<noteq> - 1 \<Longrightarrow> unat (s + 1) = Suc (unat s)"
  using unatSuc [of s] by (metis add.commute add_eq_0_iff)

lemma word_inc_less: "(s :: 'a::len word) \<noteq> - 1 \<Longrightarrow> x \<le> s \<Longrightarrow> x < s + 1"
  by (simp add: word_less_nat_alt word_le_nat_alt unat_inc)

section \<open>Vectors\<close>

definition swap_at :: "nat \<Rightarrow> nat \<Rightarrow> 'a list \<Rightarrow> 'a list" where
  "swap_at i j xs = xs[i := xs ! j, j := xs ! i]"

lemma length_swap_at [simp]: "length (swap_at i j xs) = length xs"
  by (simp add: swap_at_def)

lemma set_swap_at: "i < length xs \<Longrightarrow> j < length xs \<Longrightarrow> set (swap_at i j xs) = set xs"
  by (simp add: swap_at_def)

lemma nth_swap_at:
  "i < length xs \<Longrightarrow> j < length xs \<Longrightarrow> k < length xs \<Longrightarrow>
   swap_at i j xs ! k = (if k = i then xs ! j else if k = j then xs ! i else xs ! k)"
  by (auto simp: swap_at_def nth_list_update)

text \<open>
  Indexing a vector out of range panics: \<open>None\<close> is the panic. \<open>positions\<close> lists the
  indices whose elements satisfy a predicate, in order.
\<close>

definition nth_opt :: "'a list \<Rightarrow> nat \<Rightarrow> 'a option" where
  "nth_opt xs i = (if i < length xs then Some (xs ! i) else None)"

definition fetch_all :: "'a list \<Rightarrow> nat list \<Rightarrow> 'a list option" where
  "fetch_all xs ixs = those (map (nth_opt xs) ixs)"

definition positions :: "('a \<Rightarrow> bool) \<Rightarrow> 'a list \<Rightarrow> nat list" where
  "positions P xs = filter (\<lambda>i. P (xs ! i)) [0..<length xs]"

lemma positions_Nil [simp]: "positions P [] = []"
  by (simp add: positions_def)

lemma positions_snoc:
  "positions P (xs @ [x]) = positions P xs @ (if P x then [length xs] else [])"
  by (auto simp: positions_def nth_append intro!: filter_cong)

lemma positions_less: "i \<in> set (positions P xs) \<Longrightarrow> i < length xs"
  by (auto simp: positions_def)

lemma map_nth_positions: "map ((!) xs) (positions P xs) = filter P xs"
proof (induction xs rule: rev_induct)
  case Nil
  then show ?case by simp
next
  case (snoc x xs)
  have "map ((!) (xs @ [x])) (positions P xs) = map ((!) xs) (positions P xs)"
    by (auto simp: nth_append dest: positions_less)
  with snoc show ?case by (simp add: positions_snoc)
qed

lemma length_positions: "length (positions P xs) = length (filter P xs)"
  by (metis length_map map_nth_positions)

lemma those_map_Some [simp]: "those (map (\<lambda>x. Some (f x)) xs) = Some (map f xs)"
  by (induction xs) simp_all

lemma fetch_all_in_range:
  assumes "\<And>i. i \<in> set ixs \<Longrightarrow> i < length xs"
  shows "fetch_all xs ixs = Some (map ((!) xs) ixs)"
  using assms by (induction ixs) (simp_all add: fetch_all_def nth_opt_def)

lemma fetch_all_positions: "fetch_all xs (positions P xs) = Some (filter P xs)"
  by (simp add: fetch_all_in_range positions_less map_nth_positions)

text \<open>
  \<open>Iterator::max_by_key\<close>: the last of the elements whose key is greatest.
\<close>

definition max_by_key :: "('a \<Rightarrow> 'k::linorder) \<Rightarrow> 'a list \<Rightarrow> 'a option" where
  "max_by_key f xs =
     fold (\<lambda>x best. case best of None \<Rightarrow> Some x
                    | Some b \<Rightarrow> Some (if f b \<le> f x then x else b)) xs None"

lemma max_by_key_snoc:
  "max_by_key f (xs @ [x]) =
     (case max_by_key f xs of None \<Rightarrow> Some x | Some b \<Rightarrow> Some (if f b \<le> f x then x else b))"
  by (simp add: max_by_key_def)

lemma max_by_key_None_iff [simp]: "max_by_key f xs = None \<longleftrightarrow> xs = []"
  by (induction xs rule: rev_induct)
    (simp_all add: max_by_key_snoc split: option.splits, simp add: max_by_key_def)

lemma max_by_key_Some:
  "max_by_key f xs = Some m \<Longrightarrow> m \<in> set xs \<and> (\<forall>x\<in>set xs. f x \<le> f m)"
proof (induction xs arbitrary: m rule: rev_induct)
  case Nil
  then show ?case by (simp add: max_by_key_def)
next
  case (snoc x xs)
  show ?case
  proof (cases "max_by_key f xs")
    case None
    with snoc.prems show ?thesis by (simp add: max_by_key_snoc)
  next
    case (Some b)
    with snoc show ?thesis by (fastforce simp: max_by_key_snoc split: if_splits)
  qed
qed

section \<open>Association lists\<close>

lemma set_update_subset: "set (AList.update k v al) \<subseteq> insert (k, v) (set al)"
  by (induction al) auto

lemma set_delete_subset: "set (AList.delete k al) \<subseteq> set al - {x. fst x = k}"
  by (auto simp: AList.delete_eq)

lemma map_of_update [simp, storage_simps]: "map_of (AList.update k v al) = (map_of al)(k \<mapsto> v)"
  by (rule update_conv')

lemma map_of_delete [simp, storage_simps]: "map_of (AList.delete k al) = (map_of al)(k := None)"
  by (rule delete_conv')

lemma keys_update: "fst ` set (AList.update k v al) = insert k (fst ` set al)"
  by (simp add: dom_update)

end
