(* ===== verification/Event_Store.thy ===== *)
theory Event_Store
  imports Prelude
begin

text \<open>
  \<^verbatim>\<open>src/crates/core/src/event_store.rs\<close>: the append-only event log with optimistic
  version checks (envelopes, the typed system events, the in-memory store and its two
  indices), the snapshot store, and replay of an aggregate from its events.

  \<open>serde_json::Value\<close> is the type parameter \<open>'j\<close>; the serialisation of an event into it
  is an argument. The contract the \<open>EventStore\<close> trait documents is the locale
  \<open>event_log\<close>, interpreted on the in-memory store.
\<close>

section \<open>Envelopes\<close>

record 'j event_envelope =
  ee_id :: ulid
  ee_aggregate_id :: string
  ee_aggregate_type :: string
  ee_event_type :: string
  ee_version :: u64
  ee_data :: 'j
  ee_metadata :: metadata
  ee_timestamp :: instant

definition envelope_new ::
  "host \<Rightarrow> string \<Rightarrow> string \<Rightarrow> string \<Rightarrow> u64 \<Rightarrow> 'j \<Rightarrow> 'j event_envelope \<times> host" where
  "envelope_new h agg_id agg_type evt_type version data =
     (let (uid, h1) = ulid_new h; (now, h2) = now_utc h1
      in (\<lparr>ee_id = uid, ee_aggregate_id = agg_id, ee_aggregate_type = agg_type,
           ee_event_type = evt_type, ee_version = version, ee_data = data,
           ee_metadata = Map.empty, ee_timestamp = now\<rparr>, h2))"

definition with_metadata ::
  "string \<Rightarrow> string \<Rightarrow> 'j event_envelope \<Rightarrow> 'j event_envelope" where
  "with_metadata key v e = e\<lparr>ee_metadata := (ee_metadata e)(key \<mapsto> v)\<rparr>"

section \<open>System events\<close>

text \<open>The fields are positional, in the order of the source, named in the margin.\<close>

datatype 'j system_event =
    EntityCreated string string string metadata instant \<comment> \<open>id, kind, name, attributes, first_seen\<close>
  | EntityUpdated string "string option" "string option" "metadata option" \<comment> \<open>id, kind, name, attributes\<close>
  | EntityDeleted string \<comment> \<open>id\<close>
  | ObservationRecorded string string "u8 list" "string option" string instant \<comment> \<open>id, kind, data, content_type, source, observed_at\<close>
  | ArtifactStored string string string "string option" u64 string string \<comment> \<open>id, session_id, kind, content_type, byte_count, sha256, storage_path\<close>
  | ArtifactDeleted string \<comment> \<open>id\<close>
  | EvidenceExtracted string string string "'j" f64 \<comment> \<open>id, artifact_id, kind, value, confidence\<close>
  | RelationshipEstablished string string string string string string \<comment> \<open>id, kind, source_type, source_id, target_type, target_id\<close>
  | RelationshipDeleted string \<comment> \<open>id\<close>
  | KnowledgeProduced string string "'j" f64 "string list" \<comment> \<open>id, kind, content, confidence, source_ids\<close>
  | FindingCreated string string string string string string f64 "string list" \<comment> \<open>id, investigation_id, kind, title, description, severity, confidence, source_ids\<close>
  | FindingUpdated string "string option" "string option" "string option" "f64 option" \<comment> \<open>id, title, description, severity, confidence\<close>
  | DecisionMade string "string list" string string string string \<comment> \<open>id, finding_ids, kind, rationale, actor, status\<close>
  | DecisionExecuted string \<comment> \<open>id\<close>
  | ServiceRegistered string string string string string "string option" \<comment> \<open>id, name, kind, locator, status, version\<close>
  | ServiceUpdated string "string option" "string option" "string option" \<comment> \<open>id, name, status, version\<close>
  | ServiceDeleted string \<comment> \<open>id\<close>
  | InvestigationOpened string string string string "string list" \<comment> \<open>id, title, description, owner, tags\<close>
  | InvestigationClosed string \<comment> \<open>id\<close>
  | InvestigationArchived string \<comment> \<open>id\<close>
  | TimelineEntryAdded string string instant string string string \<comment> \<open>id, investigation_id, timestamp, kind, source_id, summary\<close>
  | AgentStarted string string string string \<comment> \<open>id, name, kind, version\<close>
  | AgentStopped string string \<comment> \<open>id, reason\<close>
  | AgentHeartbeat string string instant \<comment> \<open>id, status, timestamp\<close>
  | MonitoringChangeDetected string string string string "'j option" "'j" instant \<comment> \<open>id, watcher_kind, subject, change_type, previous_state, current_state, detected_at\<close>

fun se_aggregate_type :: "'j system_event \<Rightarrow> string" where
  "se_aggregate_type (EntityCreated _ _ _ _ _) = ''Entity''"
| "se_aggregate_type (EntityUpdated _ _ _ _) = ''Entity''"
| "se_aggregate_type (EntityDeleted _) = ''Entity''"
| "se_aggregate_type (ObservationRecorded _ _ _ _ _ _) = ''Observation''"
| "se_aggregate_type (ArtifactStored _ _ _ _ _ _ _) = ''Artifact''"
| "se_aggregate_type (ArtifactDeleted _) = ''Artifact''"
| "se_aggregate_type (EvidenceExtracted _ _ _ _ _) = ''Evidence''"
| "se_aggregate_type (RelationshipEstablished _ _ _ _ _ _) = ''Relationship''"
| "se_aggregate_type (RelationshipDeleted _) = ''Relationship''"
| "se_aggregate_type (KnowledgeProduced _ _ _ _ _) = ''Knowledge''"
| "se_aggregate_type (FindingCreated _ _ _ _ _ _ _ _) = ''Finding''"
| "se_aggregate_type (FindingUpdated _ _ _ _ _) = ''Finding''"
| "se_aggregate_type (DecisionMade _ _ _ _ _ _) = ''Decision''"
| "se_aggregate_type (DecisionExecuted _) = ''Decision''"
| "se_aggregate_type (ServiceRegistered _ _ _ _ _ _) = ''Service''"
| "se_aggregate_type (ServiceUpdated _ _ _ _) = ''Service''"
| "se_aggregate_type (ServiceDeleted _) = ''Service''"
| "se_aggregate_type (InvestigationOpened _ _ _ _ _) = ''Investigation''"
| "se_aggregate_type (InvestigationClosed _) = ''Investigation''"
| "se_aggregate_type (InvestigationArchived _) = ''Investigation''"
| "se_aggregate_type (TimelineEntryAdded _ _ _ _ _ _) = ''Timeline''"
| "se_aggregate_type (AgentStarted _ _ _ _) = ''Agent''"
| "se_aggregate_type (AgentStopped _ _) = ''Agent''"
| "se_aggregate_type (AgentHeartbeat _ _ _) = ''Agent''"
| "se_aggregate_type (MonitoringChangeDetected _ _ _ _ _ _ _) = ''Monitoring''"

fun se_event_type :: "'j system_event \<Rightarrow> string" where
  "se_event_type (EntityCreated _ _ _ _ _) = ''Created''"
| "se_event_type (EntityUpdated _ _ _ _) = ''Updated''"
| "se_event_type (EntityDeleted _) = ''Deleted''"
| "se_event_type (ObservationRecorded _ _ _ _ _ _) = ''Recorded''"
| "se_event_type (ArtifactStored _ _ _ _ _ _ _) = ''Stored''"
| "se_event_type (ArtifactDeleted _) = ''Deleted''"
| "se_event_type (EvidenceExtracted _ _ _ _ _) = ''Extracted''"
| "se_event_type (RelationshipEstablished _ _ _ _ _ _) = ''Established''"
| "se_event_type (RelationshipDeleted _) = ''Deleted''"
| "se_event_type (KnowledgeProduced _ _ _ _ _) = ''Produced''"
| "se_event_type (FindingCreated _ _ _ _ _ _ _ _) = ''Created''"
| "se_event_type (FindingUpdated _ _ _ _ _) = ''Updated''"
| "se_event_type (DecisionMade _ _ _ _ _ _) = ''Made''"
| "se_event_type (DecisionExecuted _) = ''Executed''"
| "se_event_type (ServiceRegistered _ _ _ _ _ _) = ''Registered''"
| "se_event_type (ServiceUpdated _ _ _ _) = ''Updated''"
| "se_event_type (ServiceDeleted _) = ''Deleted''"
| "se_event_type (InvestigationOpened _ _ _ _ _) = ''Opened''"
| "se_event_type (InvestigationClosed _) = ''Closed''"
| "se_event_type (InvestigationArchived _) = ''Archived''"
| "se_event_type (TimelineEntryAdded _ _ _ _ _ _) = ''EntryAdded''"
| "se_event_type (AgentStarted _ _ _ _) = ''Started''"
| "se_event_type (AgentStopped _ _) = ''Stopped''"
| "se_event_type (AgentHeartbeat _ _ _) = ''Heartbeat''"
| "se_event_type (MonitoringChangeDetected _ _ _ _ _ _ _) = ''ChangeDetected''"

fun se_aggregate_id :: "'j system_event \<Rightarrow> string" where
  "se_aggregate_id (EntityCreated i _ _ _ _) = i"
| "se_aggregate_id (EntityUpdated i _ _ _) = i"
| "se_aggregate_id (EntityDeleted i) = i"
| "se_aggregate_id (ObservationRecorded i _ _ _ _ _) = i"
| "se_aggregate_id (ArtifactStored i _ _ _ _ _ _) = i"
| "se_aggregate_id (ArtifactDeleted i) = i"
| "se_aggregate_id (EvidenceExtracted i _ _ _ _) = i"
| "se_aggregate_id (RelationshipEstablished i _ _ _ _ _) = i"
| "se_aggregate_id (RelationshipDeleted i) = i"
| "se_aggregate_id (KnowledgeProduced i _ _ _ _) = i"
| "se_aggregate_id (FindingCreated i _ _ _ _ _ _ _) = i"
| "se_aggregate_id (FindingUpdated i _ _ _ _) = i"
| "se_aggregate_id (DecisionMade i _ _ _ _ _) = i"
| "se_aggregate_id (DecisionExecuted i) = i"
| "se_aggregate_id (ServiceRegistered i _ _ _ _ _) = i"
| "se_aggregate_id (ServiceUpdated i _ _ _) = i"
| "se_aggregate_id (ServiceDeleted i) = i"
| "se_aggregate_id (InvestigationOpened i _ _ _ _) = i"
| "se_aggregate_id (InvestigationClosed i) = i"
| "se_aggregate_id (InvestigationArchived i) = i"
| "se_aggregate_id (TimelineEntryAdded i _ _ _ _ _) = i"
| "se_aggregate_id (AgentStarted i _ _ _) = i"
| "se_aggregate_id (AgentStopped i _) = i"
| "se_aggregate_id (AgentHeartbeat i _ _) = i"
| "se_aggregate_id (MonitoringChangeDetected i _ _ _ _ _ _) = i"

text \<open>
  \<open>SystemEvent::into_envelope\<close>: \<open>to_value\<close> is \<open>serde_json::to_value\<close> on the event, which
  the code expects to succeed.
\<close>

definition into_envelope ::
  "('j system_event \<Rightarrow> 'j) \<Rightarrow> host \<Rightarrow> u64 \<Rightarrow> 'j system_event \<Rightarrow> 'j event_envelope \<times> host" where
  "into_envelope to_value h version ev =
     (let (uid, h1) = ulid_new h; (now, h2) = now_utc h1
      in (\<lparr>ee_id = uid, ee_aggregate_id = se_aggregate_id ev,
           ee_aggregate_type = se_aggregate_type ev, ee_event_type = se_event_type ev,
           ee_version = version, ee_data = to_value ev,
           ee_metadata = Map.empty, ee_timestamp = now\<rparr>, h2))"

section \<open>The in-memory event store\<close>

datatype event_store_error =
    StorageError string
  | VersionConflict string u64 u64 \<comment> \<open>aggregate_id, expected, got\<close>

record 'j event_store =
  es_events :: "'j event_envelope list"
  es_by_aggregate :: "string \<rightharpoonup> nat list"
  es_by_type :: "string \<rightharpoonup> nat list"

definition es_new :: "'j event_store" where
  "es_new = \<lparr>es_events = [], es_by_aggregate = Map.empty, es_by_type = Map.empty\<rparr>"

definition push_index :: "(string \<rightharpoonup> nat list) \<Rightarrow> string \<Rightarrow> nat \<Rightarrow> (string \<rightharpoonup> nat list)" where
  "push_index m k i = m(k \<mapsto> unwrap_or [] (m k) @ [i])"

definition es_append :: "'j event_envelope \<Rightarrow> ('j event_store, event_store_error, unit) op" where
  "es_append e s =
     (let agg_id = ee_aggregate_id e;
          current = (case es_by_aggregate s agg_id of
                       Some ixs \<Rightarrow> of_nat (length ixs) | None \<Rightarrow> 0)
      in if ee_version e \<noteq> current + 1
         then (Inl (VersionConflict agg_id (current + 1) (ee_version e)), s)
         else (let idx = length (es_events s)
               in (Inr (), s\<lparr>es_events := es_events s @ [e],
                              es_by_aggregate := push_index (es_by_aggregate s) agg_id idx,
                              es_by_type := push_index (es_by_type s) (ee_aggregate_type e) idx\<rparr>)))"

text \<open>Reads go through an index; \<open>None\<close> is the panic of an index out of range.\<close>

definition read_events ::
  "'j event_store \<Rightarrow> string \<Rightarrow> (event_store_error, 'j event_envelope list) result option" where
  "read_events s agg_id =
     (case es_by_aggregate s agg_id of
        None \<Rightarrow> Some (Inr [])
      | Some ixs \<Rightarrow> map_option Inr (fetch_all (es_events s) ixs))"

definition read_all ::
  "'j event_store \<Rightarrow> string \<Rightarrow> (event_store_error, 'j event_envelope list) result option" where
  "read_all s agg_type =
     (case es_by_type s agg_type of
        None \<Rightarrow> Some (Inr [])
      | Some ixs \<Rightarrow> map_option Inr (fetch_all (es_events s) ixs))"

definition read_since ::
  "'j event_store \<Rightarrow> ulid \<Rightarrow> (event_store_error, 'j event_envelope list) result" where
  "read_since s since_id = Inr (filter (\<lambda>e. since_id < ee_id e) (es_events s))"

definition read_since_version ::
  "'j event_store \<Rightarrow> string \<Rightarrow> u64 \<Rightarrow> (event_store_error, 'j event_envelope list) result option" where
  "read_since_version s agg_id since_version =
     (case es_by_aggregate s agg_id of
        None \<Rightarrow> Some (Inr [])
      | Some ixs \<Rightarrow>
          map_option (\<lambda>es. Inr (filter (\<lambda>e. since_version < ee_version e) es))
            (fetch_all (es_events s) ixs))"

definition latest_version :: "'j event_store \<Rightarrow> string \<Rightarrow> u64" where
  "latest_version s agg_id =
     (case es_by_aggregate s agg_id of Some ixs \<Rightarrow> of_nat (length ixs) | None \<Rightarrow> 0)"

definition es_count :: "'j event_store \<Rightarrow> string \<Rightarrow> u64" where
  "es_count s agg_type =
     (case es_by_type s agg_type of Some ixs \<Rightarrow> of_nat (length ixs) | None \<Rightarrow> 0)"

definition total_count :: "'j event_store \<Rightarrow> u64" where
  "total_count s = of_nat (length (es_events s))"

definition es_clear :: "('j event_store, event_store_error, unit) op" where
  "es_clear s = (Inr (), s\<lparr>es_events := [], es_by_aggregate := Map.empty, es_by_type := Map.empty\<rparr>)"

section \<open>The contract of the trait\<close>

abbreviation of_aggregate :: "string \<Rightarrow> 'j event_envelope list \<Rightarrow> 'j event_envelope list" where
  "of_aggregate a \<equiv> filter (\<lambda>e. ee_aggregate_id e = a)"

abbreviation of_type :: "string \<Rightarrow> 'j event_envelope list \<Rightarrow> 'j event_envelope list" where
  "of_type t \<equiv> filter (\<lambda>e. ee_aggregate_type e = t)"

text \<open>Every aggregate's events carry the versions 1, 2, 3, ... in log order.\<close>

definition gapless :: "'j event_envelope list \<Rightarrow> bool" where
  "gapless log \<longleftrightarrow>
     (\<forall>a. map ee_version (of_aggregate a log)
        = map of_nat [1..<Suc (length (of_aggregate a log))])"

lemma gapless_Nil [simp]: "gapless []"
  by (simp add: gapless_def)

lemma gapless_snoc:
  assumes "gapless log"
    and "ee_version e = of_nat (length (of_aggregate (ee_aggregate_id e) log)) + 1"
  shows "gapless (log @ [e])"
  using assms by (auto simp: gapless_def add.commute)

text \<open>
  What a client of \<open>EventStore\<close> relies on. \<open>log\<close> is the abstract state: the accepted
  events in order; \<open>inv\<close> is the provider's own invariant.
\<close>

locale event_log =
  fixes init :: 's
    and put :: "'j event_envelope \<Rightarrow> ('s, event_store_error, unit) op"
    and events_of :: "'s \<Rightarrow> string \<Rightarrow> (event_store_error, 'j event_envelope list) result option"
    and all_of :: "'s \<Rightarrow> string \<Rightarrow> (event_store_error, 'j event_envelope list) result option"
    and latest :: "'s \<Rightarrow> string \<Rightarrow> u64"
    and log :: "'s \<Rightarrow> 'j event_envelope list"
    and inv :: "'s \<Rightarrow> bool"
  assumes inv_init: "inv init" and log_init: "log init = []"
    and put_accepts: "inv s \<Longrightarrow> ee_version e = latest s (ee_aggregate_id e) + 1 \<Longrightarrow>
      fst (put e s) = Inr () \<and> inv (snd (put e s)) \<and> log (snd (put e s)) = log s @ [e]"
    and put_rejects: "inv s \<Longrightarrow> ee_version e \<noteq> latest s (ee_aggregate_id e) + 1 \<Longrightarrow>
      put e s = (Inl (VersionConflict (ee_aggregate_id e)
        (latest s (ee_aggregate_id e) + 1) (ee_version e)), s)"
    and events_of_log: "inv s \<Longrightarrow> events_of s a = Some (Inr (of_aggregate a (log s)))"
    and all_of_log: "inv s \<Longrightarrow> all_of s t = Some (Inr (of_type t (log s)))"
    and latest_log: "inv s \<Longrightarrow> latest s a = of_nat (length (of_aggregate a (log s)))"
begin

lemma put_inv: "inv s \<Longrightarrow> inv (snd (put e s))"
  by (cases "ee_version e = latest s (ee_aggregate_id e) + 1")
    (simp_all add: put_accepts put_rejects)

lemma put_log: "inv s \<Longrightarrow> log (snd (put e s)) =
    (if ee_version e = latest s (ee_aggregate_id e) + 1 then log s @ [e] else log s)"
  by (simp add: put_accepts put_rejects)

lemma put_gapless: "inv s \<Longrightarrow> gapless (log s) \<Longrightarrow> gapless (log (snd (put e s)))"
  by (simp add: put_log gapless_snoc latest_log)

lemma put_ok_iff:
  "inv s \<Longrightarrow> fst (put e s) = Inr () \<longleftrightarrow> ee_version e = latest s (ee_aggregate_id e) + 1"
  by (cases "ee_version e = latest s (ee_aggregate_id e) + 1")
    (simp_all add: put_accepts put_rejects)

lemma put_other_aggregate:
  "inv s \<Longrightarrow> a \<noteq> ee_aggregate_id e \<Longrightarrow> events_of (snd (put e s)) a = events_of s a"
  by (simp add: events_of_log put_inv put_log)

lemma put_latest: "inv s \<Longrightarrow> ee_version e = latest s (ee_aggregate_id e) + 1 \<Longrightarrow>
    latest (snd (put e s)) (ee_aggregate_id e) = latest s (ee_aggregate_id e) + 1"
  by (simp add: latest_log put_inv put_log)

end

section \<open>The in-memory store meets the contract\<close>

text \<open>The two indices list exactly the positions of an aggregate's and of a type's events.\<close>

definition es_inv :: "'j event_store \<Rightarrow> bool" where
  "es_inv s \<longleftrightarrow>
     (\<forall>a. unwrap_or [] (es_by_aggregate s a)
        = positions (\<lambda>e. ee_aggregate_id e = a) (es_events s)) \<and>
     (\<forall>t. unwrap_or [] (es_by_type s t)
        = positions (\<lambda>e. ee_aggregate_type e = t) (es_events s))"

lemma index_len:
  "(case m k of Some ixs \<Rightarrow> of_nat (length ixs) | None \<Rightarrow> 0) = of_nat (length (unwrap_or [] (m k)))"
  by (simp split: option.split)

lemma index_read:
  "(case m k of None \<Rightarrow> Some (Inr []) | Some ixs \<Rightarrow> map_option Inr (fetch_all xs ixs))
   = map_option Inr (fetch_all xs (unwrap_or [] (m k)))"
  by (simp split: option.split add: fetch_all_def)

lemma push_index_unwrap:
  "unwrap_or [] (push_index m k i k') = (if k' = k then unwrap_or [] (m k) @ [i] else unwrap_or [] (m k'))"
  by (simp add: push_index_def)

lemma es_inv_new: "es_inv es_new"
  by (simp add: es_inv_def es_new_def)

lemma es_inv_clear: "es_inv (snd (es_clear s))"
  by (simp add: es_inv_def es_clear_def)

lemma es_inv_append: "es_inv s \<Longrightarrow> es_inv (snd (es_append e s))"
  by (auto simp: es_append_def Let_def es_inv_def push_index_unwrap positions_snoc)

lemma latest_version_log:
  "es_inv s \<Longrightarrow> latest_version s a = of_nat (length (of_aggregate a (es_events s)))"
  by (simp add: latest_version_def index_len es_inv_def length_positions)

lemma es_count_log: "es_inv s \<Longrightarrow> es_count s t = of_nat (length (of_type t (es_events s)))"
  by (simp add: es_count_def index_len es_inv_def length_positions)

lemma read_events_log: "es_inv s \<Longrightarrow> read_events s a = Some (Inr (of_aggregate a (es_events s)))"
  by (simp add: read_events_def index_read es_inv_def fetch_all_positions)

lemma read_all_log: "es_inv s \<Longrightarrow> read_all s t = Some (Inr (of_type t (es_events s)))"
  by (simp add: read_all_def index_read es_inv_def fetch_all_positions)

lemma read_since_version_log:
  assumes "es_inv s"
  shows "read_since_version s a v
    = Some (Inr (filter (\<lambda>e. v < ee_version e) (of_aggregate a (es_events s))))"
proof (cases "es_by_aggregate s a")
  case None
  with read_events_log [OF assms, of a] show ?thesis
    by (simp add: read_since_version_def read_events_def)
next
  case (Some ixs)
  with read_events_log [OF assms, of a] show ?thesis
    by (auto simp: read_since_version_def read_events_def)
qed

lemma es_append_latest:
  "es_append e s =
     (if ee_version e \<noteq> latest_version s (ee_aggregate_id e) + 1
      then (Inl (VersionConflict (ee_aggregate_id e)
              (latest_version s (ee_aggregate_id e) + 1) (ee_version e)), s)
      else (Inr (), s\<lparr>es_events := es_events s @ [e],
              es_by_aggregate := push_index (es_by_aggregate s) (ee_aggregate_id e) (length (es_events s)),
              es_by_type := push_index (es_by_type s) (ee_aggregate_type e) (length (es_events s))\<rparr>))"
  by (simp add: es_append_def latest_version_def Let_def)

interpretation mem: event_log es_new es_append read_events read_all latest_version es_events es_inv
proof unfold_locales
  fix s :: "'a event_store" and e :: "'a event_envelope" and a t :: string
  show "es_inv (es_new :: 'a event_store)" by (rule es_inv_new)
  show "es_events (es_new :: 'a event_store) = []" by (simp add: es_new_def)
  assume inv: "es_inv s"
  show "read_events s a = Some (Inr (of_aggregate a (es_events s)))"
    by (rule read_events_log [OF inv])
  show "read_all s t = Some (Inr (of_type t (es_events s)))" by (rule read_all_log [OF inv])
  show "latest_version s a = of_nat (length (of_aggregate a (es_events s)))"
    by (rule latest_version_log [OF inv])
  show "fst (es_append e s) = Inr () \<and> es_inv (snd (es_append e s)) \<and>
      es_events (snd (es_append e s)) = es_events s @ [e]"
    if "ee_version e = latest_version s (ee_aggregate_id e) + 1"
    using that es_inv_append [OF inv, of e] by (simp add: es_append_latest)
  show "es_append e s = (Inl (VersionConflict (ee_aggregate_id e)
        (latest_version s (ee_aggregate_id e) + 1) (ee_version e)), s)"
    if "ee_version e \<noteq> latest_version s (ee_aggregate_id e) + 1"
    using that by (simp add: es_append_latest)
qed

section \<open>Runs of the store\<close>

datatype 'j es_op = Append "'j event_envelope" | Clear

fun es_exec :: "'j es_op \<Rightarrow> 'j event_store \<Rightarrow> 'j event_store" where
  "es_exec (Append e) s = snd (es_append e s)"
| "es_exec Clear s = snd (es_clear s)"

definition es_run :: "'j es_op list \<Rightarrow> 'j event_store \<Rightarrow> 'j event_store" where
  "es_run ops s = fold es_exec ops s"

text \<open>The specification: a bare log that accepts an event with the next version.\<close>

definition log_append :: "'j event_envelope \<Rightarrow> 'j event_envelope list \<Rightarrow> 'j event_envelope list" where
  "log_append e log =
     (if ee_version e = of_nat (length (of_aggregate (ee_aggregate_id e) log)) + 1
      then log @ [e] else log)"

fun log_exec :: "'j es_op \<Rightarrow> 'j event_envelope list \<Rightarrow> 'j event_envelope list" where
  "log_exec (Append e) log = log_append e log"
| "log_exec Clear log = []"

definition log_run :: "'j es_op list \<Rightarrow> 'j event_envelope list" where
  "log_run ops = fold log_exec ops []"

lemma es_exec_inv: "es_inv s \<Longrightarrow> es_inv (es_exec op s)"
  by (cases op) (simp_all add: es_inv_append es_inv_clear)

lemma es_exec_log: "es_inv s \<Longrightarrow> es_events (es_exec op s) = log_exec op (es_events s)"
  by (cases op) (simp_all add: mem.put_log log_append_def latest_version_log es_clear_def)

lemma es_run_inv_log:
  "es_inv s \<Longrightarrow> es_inv (es_run ops s) \<and> es_events (es_run ops s) = fold log_exec ops (es_events s)"
  by (induction ops arbitrary: s) (simp_all add: es_run_def es_exec_inv es_exec_log)

lemma es_run_inv: "es_inv (es_run ops es_new)"
  by (simp add: es_run_inv_log es_inv_new)

lemma es_run_log: "es_events (es_run ops es_new) = log_run ops"
  by (simp add: es_run_inv_log es_inv_new log_run_def mem.log_init)

lemma log_exec_gapless: "gapless log \<Longrightarrow> gapless (log_exec op log)"
  by (cases op) (simp_all add: log_append_def gapless_snoc)

lemma log_run_gapless: "gapless (log_run ops)"
proof -
  have "gapless log \<Longrightarrow> gapless (fold log_exec ops log)" for log
    by (induction ops arbitrary: log) (simp_all add: log_exec_gapless)
  then show ?thesis by (simp add: log_run_def)
qed

lemma gapless_filter_drop:
  assumes g: "gapless log" and short: "length (of_aggregate a log) < 2 ^ 64"
    and v: "v \<le> length (of_aggregate a log)"
  shows "filter (\<lambda>e. of_nat v < ee_version e) (of_aggregate a log) = drop v (of_aggregate a log)"
proof -
  let ?xs = "of_aggregate a log"
  have ver: "ee_version (?xs ! i) = of_nat (Suc i)" if "i < length ?xs" for i
  proof -
    have "map ee_version ?xs ! i = map of_nat [1..<Suc (length ?xs)] ! i"
      using g by (simp only: gapless_def)
    with that show ?thesis by (simp del: upt_Suc)
  qed
  have less: "(of_nat v :: u64) < ee_version (?xs ! i) \<longleftrightarrow> v \<le> i" if "i < length ?xs" for i
    using that ver [OF that] short v
    by (simp add: word_less_nat_alt unat_of_nat less_Suc_eq_le del: of_nat_Suc)
  have "filter (\<lambda>e. of_nat v < ee_version e) (take v ?xs) = []"
    using less by (auto simp: filter_empty_conv in_set_conv_nth)
  moreover have "filter (\<lambda>e. of_nat v < ee_version e) (drop v ?xs) = drop v ?xs"
    using less by (auto simp: filter_id_conv in_set_conv_nth)
  ultimately show ?thesis
    by (metis append_take_drop_id filter_append self_append_conv2)
qed

section \<open>Snapshots\<close>

record snapshot =
  sn_aggregate_id :: string
  sn_aggregate_type :: string
  sn_version :: u64
  sn_state :: "u8 list"
  sn_timestamp :: instant

datatype snapshot_error = SnapshotNotFound string | SnapshotSerialization string

type_synonym snapshot_store = "(string \<times> snapshot) list"

definition ss_new :: snapshot_store where
  "ss_new = []"

definition ss_save :: "snapshot \<Rightarrow> (snapshot_store, snapshot_error, unit) op" where
  "ss_save sn s = (Inr (), AList.update (sn_aggregate_id sn) sn s)"

definition ss_load :: "snapshot_store \<Rightarrow> string \<Rightarrow> (snapshot_error, snapshot option) result" where
  "ss_load s agg_id = Inr (map_of s agg_id)"

definition ss_load_latest :: "snapshot_store \<Rightarrow> string \<Rightarrow> (snapshot_error, snapshot option) result" where
  "ss_load_latest s agg_type =
     Inr (max_by_key sn_version (filter (\<lambda>sn. sn_aggregate_type sn = agg_type) (map snd s)))"

definition ss_delete :: "string \<Rightarrow> (snapshot_store, snapshot_error, unit) op" where
  "ss_delete agg_id s =
     (case map_of s agg_id of
        None \<Rightarrow> (Inl (SnapshotNotFound agg_id), s)
      | Some _ \<Rightarrow> (Inr (), AList.delete agg_id s))"

section \<open>Replay of an aggregate\<close>

text \<open>\<open>Aggregate::replay\<close>, for the aggregate's own \<open>apply\<close> and \<open>initial\<close>.\<close>

definition agg_replay :: "('ev \<Rightarrow> 'st \<Rightarrow> 'st) \<Rightarrow> 'st \<Rightarrow> 'ev list \<Rightarrow> 'st" where
  "agg_replay apply_ev initial events = fold apply_ev events initial"

section \<open>Properties\<close>

text \<open>
  C1. After any run of appends and clears from an empty store, the store is exactly the
  abstract log of the accepted events: every read by aggregate, by type and by version
  count answers from that log, no read panics, and each aggregate's versions are 1, 2, 3,
  ... without gaps or repetitions.
\<close>

theorem event_store_refines_log:
  fixes ops :: "'j es_op list"
  defines "s \<equiv> es_run ops es_new" and "log \<equiv> log_run ops"
  shows "es_events s = log
    \<and> read_events s a = Some (Inr (of_aggregate a log))
    \<and> read_all s t = Some (Inr (of_type t log))
    \<and> latest_version s a = of_nat (length (of_aggregate a log))
    \<and> es_count s t = of_nat (length (of_type t log))
    \<and> total_count s = of_nat (length log)
    \<and> map ee_version (of_aggregate a log) = map of_nat [1..<Suc (length (of_aggregate a log))]"
  using es_run_inv [of ops] es_run_log [of ops] log_run_gapless [of ops]
  by (simp add: s_def log_def mem.events_of_log mem.all_of_log mem.latest_log es_count_log
      total_count_def gapless_def)

text \<open>
  C2. Optimistic concurrency. An append succeeds exactly when the event carries the version
  after the aggregate's latest one; it then adds that event at the end of the log and
  nothing else. Otherwise it reports the expected and the offered version and leaves the
  store as it was.
\<close>

theorem append_optimistic_concurrency:
  fixes e :: "'j event_envelope" and ops :: "'j es_op list"
  defines "s \<equiv> es_run ops es_new" and "a \<equiv> ee_aggregate_id e"
  shows "(fst (es_append e s) = Inr () \<longleftrightarrow> ee_version e = latest_version s a + 1)
    \<and> es_events (snd (es_append e s)) =
        (if ee_version e = latest_version s a + 1 then es_events s @ [e] else es_events s)
    \<and> es_append e s =
        (if ee_version e = latest_version s a + 1 then (Inr (), snd (es_append e s))
         else (Inl (VersionConflict a (latest_version s a + 1) (ee_version e)), s))"
proof -
  have inv: "es_inv s" by (simp add: s_def es_run_inv)
  show ?thesis
    using mem.put_ok_iff [OF inv, of e] mem.put_log [OF inv, of e] mem.put_rejects [OF inv, of e]
      mem.put_accepts [OF inv, of e]
    by (auto simp: a_def prod_eq_iff)
qed

text \<open>
  C3. Catch-up. Reading an aggregate's events since version \<open>v\<close> returns exactly the events
  after the first \<open>v\<close>, so an aggregate restored from a snapshot taken at version \<open>v\<close> and
  replayed over them is in the state a full replay gives.
\<close>

theorem snapshot_recovery:
  fixes ops :: "'j es_op list" and apply_ev :: "'j event_envelope \<Rightarrow> 'st \<Rightarrow> 'st"
  defines "s \<equiv> es_run ops es_new"
  assumes "read_events s a = Some (Inr all)" and "length all < 2 ^ 64" and "v \<le> length all"
  shows "\<exists>newer. read_since_version s a (of_nat v) = Some (Inr newer)
    \<and> newer = drop v all
    \<and> agg_replay apply_ev (agg_replay apply_ev init (take v all)) newer
      = agg_replay apply_ev init all"
proof -
  have inv: "es_inv s" and log: "gapless (es_events s)"
    by (simp_all add: s_def es_run_inv es_run_log log_run_gapless)
  have all: "all = of_aggregate a (es_events s)"
    using assms(2) by (simp add: mem.events_of_log [OF inv])
  have "read_since_version s a (of_nat v)
      = Some (Inr (filter (\<lambda>e. of_nat v < ee_version e) all))"
    by (simp add: all read_since_version_log [OF inv])
  moreover have "filter (\<lambda>e. of_nat v < ee_version e) all = drop v all"
    using gapless_filter_drop [OF log] assms(3,4) by (simp add: all)
  moreover have "fold apply_ev (drop v all) (fold apply_ev (take v all) init) = fold apply_ev all init"
    by (metis append_take_drop_id fold_append o_apply)
  ultimately show ?thesis
    by (simp add: agg_replay_def)
qed

definition ex_envelope :: "u64 \<Rightarrow> nat event_envelope" where
  "ex_envelope v = \<lparr>ee_id = 7, ee_aggregate_id = ''a'', ee_aggregate_type = ''Entity'',
     ee_event_type = ''Created'', ee_version = v, ee_data = 0, ee_metadata = Map.empty,
     ee_timestamp = 0\<rparr>"

lemma ex_store_reads:
  "read_events (es_run [Append (ex_envelope 1), Append (ex_envelope 2)] es_new) ''a''
    = Some (Inr [ex_envelope 1, ex_envelope 2])"
  by (simp add: es_run_def es_new_def es_append_def push_index_def read_events_def
      fetch_all_def nth_opt_def ex_envelope_def Let_def)

theorem snapshot_recovery_witness:
  "\<exists>newer. read_since_version (es_run [Append (ex_envelope 1), Append (ex_envelope 2)] es_new)
      ''a'' (of_nat 1) = Some (Inr newer)
    \<and> newer = drop 1 [ex_envelope 1, ex_envelope 2]
    \<and> agg_replay (\<lambda>_. Suc) (agg_replay (\<lambda>_. Suc) 0 (take 1 [ex_envelope 1, ex_envelope 2])) newer
      = agg_replay (\<lambda>_. Suc) 0 [ex_envelope 1, ex_envelope 2]"
  by (rule snapshot_recovery [OF ex_store_reads]) simp_all

text \<open>
  Every system event that is packed with the version after its aggregate's latest one is
  accepted, whatever happened before, and is then the last event read for that aggregate and
  for its type.
\<close>

theorem system_event_accepted:
  fixes ev :: "'j system_event" and ops :: "'j es_op list" and h :: host
    and to_value :: "'j system_event \<Rightarrow> 'j"
  defines "s \<equiv> es_run ops es_new"
  defines "env \<equiv> fst (into_envelope to_value h (latest_version s (se_aggregate_id ev) + 1) ev)"
  defines "s' \<equiv> snd (es_append env s)"
  shows "fst (es_append env s) = Inr ()
    \<and> read_events s' (se_aggregate_id ev)
        = Some (Inr (of_aggregate (se_aggregate_id ev) (es_events s) @ [env]))
    \<and> read_all s' (se_aggregate_type ev)
        = Some (Inr (of_type (se_aggregate_type ev) (es_events s) @ [env]))
    \<and> ee_data env = to_value ev
    \<and> latest_version s' (se_aggregate_id ev) = latest_version s (se_aggregate_id ev) + 1"
proof -
  have inv: "es_inv s" by (simp add: s_def es_run_inv)
  have env: "ee_aggregate_id env = se_aggregate_id ev" "ee_aggregate_type env = se_aggregate_type ev"
    "ee_data env = to_value ev" "ee_version env = latest_version s (se_aggregate_id ev) + 1"
    by (simp_all add: env_def into_envelope_def ulid_new_def now_utc_def)
  have inv': "es_inv s'" by (simp add: s'_def mem.put_inv inv)
  have acc: "fst (es_append env s) = Inr ()" "es_events s' = es_events s @ [env]"
    using mem.put_accepts [OF inv, of env] env by (simp_all add: s'_def)
  have "latest_version s' (se_aggregate_id ev) = latest_version s (se_aggregate_id ev) + 1"
    using mem.put_latest [OF inv, of env] env by (simp add: s'_def)
  then show ?thesis
    using acc env by (simp add: mem.events_of_log [OF inv'] mem.all_of_log [OF inv'])
qed

text \<open>
  The snapshot store returns, for a type, a stored snapshot of that type with the highest
  version, and nothing exactly when there is none of that type; a saved snapshot is what is
  loaded for its aggregate, until it is deleted, and deleting what is not there is an error
  that changes nothing.
\<close>

theorem snapshot_store_correct:
  fixes ss :: snapshot_store and sn :: snapshot
  assumes "distinct (map fst ss)"
  defines "ss' \<equiv> snd (ss_save sn ss)"
  shows "ss_load ss' (sn_aggregate_id sn) = Inr (Some sn)
    \<and> (k \<noteq> sn_aggregate_id sn \<longrightarrow> ss_load ss' k = ss_load ss k)
    \<and> distinct (map fst ss')
    \<and> (case ss_load_latest ss t of
         Inr None \<Rightarrow> \<forall>k x. ss_load ss k = Inr (Some x) \<longrightarrow> sn_aggregate_type x \<noteq> t
       | Inr (Some m) \<Rightarrow> sn_aggregate_type m = t \<and> (\<exists>k. ss_load ss k = Inr (Some m)) \<and>
           (\<forall>k x. ss_load ss k = Inr (Some x) \<and> sn_aggregate_type x = t \<longrightarrow> sn_version x \<le> sn_version m)
       | Inl _ \<Rightarrow> False)
    \<and> ss_load (snd (ss_delete k ss)) k = Inr None
    \<and> (ss_load ss k = Inr None \<longrightarrow> ss_delete k ss = (Inl (SnapshotNotFound k), ss))"
proof -
  let ?xs = "filter (\<lambda>x. sn_aggregate_type x = t) (map snd ss)"
  have mem: "ss_load ss k = Inr (Some x) \<longleftrightarrow> (k, x) \<in> set ss" for k x
    using assms(1) by (simp add: ss_load_def)
  have latest: "case ss_load_latest ss t of
         Inr None \<Rightarrow> \<forall>k x. ss_load ss k = Inr (Some x) \<longrightarrow> sn_aggregate_type x \<noteq> t
       | Inr (Some m) \<Rightarrow> sn_aggregate_type m = t \<and> (\<exists>k. ss_load ss k = Inr (Some m)) \<and>
           (\<forall>k x. ss_load ss k = Inr (Some x) \<and> sn_aggregate_type x = t \<longrightarrow> sn_version x \<le> sn_version m)
       | Inl _ \<Rightarrow> False"
  proof (cases "max_by_key sn_version ?xs")
    case None
    then have "?xs = []" by simp
    then show ?thesis by (force simp: ss_load_latest_def mem filter_empty_conv max_by_key_def)
  next
    case (Some m)
    from max_by_key_Some [OF this] show ?thesis
      using Some by (fastforce simp: ss_load_latest_def mem)
  qed
  show ?thesis
    using latest assms(1)
    by (auto simp: ss'_def ss_save_def ss_load_def ss_delete_def distinct_update
        split: option.splits)
qed

definition ex_snapshot :: "u64 \<Rightarrow> snapshot" where
  "ex_snapshot v = \<lparr>sn_aggregate_id = ''a'', sn_aggregate_type = ''Entity'', sn_version = v,
     sn_state = [1, 2], sn_timestamp = 0\<rparr>"

theorem snapshot_store_correct_witness:
  "ss_load (snd (ss_save (ex_snapshot 3) [(''b'', ex_snapshot 1)])) ''a'' = Inr (Some (ex_snapshot 3))"
  using snapshot_store_correct [of "[(''b'', ex_snapshot 1)]" "ex_snapshot 3" "''b''" "''Entity''"]
  by (simp add: ex_snapshot_def)

end
