(* ===== verification/Storage.thy ===== *)
theory Storage
  imports Prelude
begin

text \<open>
  \<^verbatim>\<open>src/crates/core/src/storage.rs\<close>: the kernel's key-value storage. The in-memory
  implementation is a hash map from keys to entries; listing walks its keys, in the order of
  the association list that stands for the map. The \<open>StorageManager\<close> trait is the locale
  \<open>storage_manager\<close>.
\<close>

record entry =
  en_key :: string
  en_value :: "u8 list"
  en_content_type :: "string option"
  en_created_at :: i64

type_synonym storage = "(string \<times> entry) list"

definition storage_new :: storage where
  "storage_new = []"

definition storage_store ::
  "i64 \<Rightarrow> string \<Rightarrow> u8 list \<Rightarrow> string option \<Rightarrow> storage \<Rightarrow> storage" where
  "storage_store now key value content_type s =
     AList.update key \<lparr>en_key = key, en_value = value, en_content_type = content_type,
       en_created_at = now\<rparr> s"

definition storage_load :: "storage \<Rightarrow> string \<Rightarrow> entry option" where
  "storage_load s key = map_of s key"

definition storage_delete :: "string \<Rightarrow> storage \<Rightarrow> bool \<times> storage" where
  "storage_delete key s = (map_of s key \<noteq> None, AList.delete key s)"

definition storage_list :: "storage \<Rightarrow> string \<Rightarrow> string list" where
  "storage_list s pre = filter (prefix pre) (map fst s)"

definition storage_exists :: "storage \<Rightarrow> string \<Rightarrow> bool" where
  "storage_exists s key \<longleftrightarrow> map_of s key \<noteq> None"

section \<open>The contract of the trait\<close>

locale storage_manager =
  fixes init :: 's
    and put :: "i64 \<Rightarrow> string \<Rightarrow> u8 list \<Rightarrow> string option \<Rightarrow> 's \<Rightarrow> 's"
    and get :: "'s \<Rightarrow> string \<Rightarrow> entry option"
    and remove :: "string \<Rightarrow> 's \<Rightarrow> bool \<times> 's"
    and keys :: "'s \<Rightarrow> string \<Rightarrow> string list"
    and has :: "'s \<Rightarrow> string \<Rightarrow> bool"
    and inv :: "'s \<Rightarrow> bool"
  assumes inv_init: "inv init"
    and inv_put: "inv s \<Longrightarrow> inv (put t k v c s)"
    and inv_remove: "inv s \<Longrightarrow> inv (snd (remove k s))"
    and get_init: "get init k = None"
    and get_put: "inv s \<Longrightarrow> get (put t k v c s) k' =
      (if k' = k then Some \<lparr>en_key = k, en_value = v, en_content_type = c, en_created_at = t\<rparr>
       else get s k')"
    and remove_found: "inv s \<Longrightarrow> fst (remove k s) \<longleftrightarrow> get s k \<noteq> None"
    and get_remove: "inv s \<Longrightarrow> get (snd (remove k s)) k' = (if k' = k then None else get s k')"
    and has_get: "inv s \<Longrightarrow> has s k \<longleftrightarrow> get s k \<noteq> None"
    and keys_get: "inv s \<Longrightarrow> set (keys s p) = {k. get s k \<noteq> None \<and> prefix p k}"
    and keys_distinct: "inv s \<Longrightarrow> distinct (keys s p)"
begin

lemma put_get: "inv s \<Longrightarrow> map_option en_value (get (put t k v c s) k) = Some v"
  by (simp add: get_put)

lemma put_has: "inv s \<Longrightarrow> has (put t k v c s) k' \<longleftrightarrow> k' = k \<or> has s k'"
  by (simp add: has_get inv_put get_put)

lemma remove_has: "inv s \<Longrightarrow> has (snd (remove k s)) k' \<longleftrightarrow> k' \<noteq> k \<and> has s k'"
  by (simp add: has_get inv_remove get_remove)

lemma remove_put: "inv s \<Longrightarrow> get (snd (remove k (put t k v c s))) k' = (if k' = k then None else get s k')"
  by (simp add: get_remove inv_put get_put)

end

definition storage_inv :: "storage \<Rightarrow> bool" where
  "storage_inv s \<longleftrightarrow> distinct (map fst s)"

interpretation mems: storage_manager storage_new storage_store storage_load storage_delete
  storage_list storage_exists storage_inv
proof unfold_locales
  fix s :: storage and p :: string
  assume "storage_inv s"
  then show "set (storage_list s p) = {k. storage_load s k \<noteq> None \<and> prefix p k}"
    by (auto simp: storage_list_def storage_load_def storage_inv_def map_of_eq_None_iff)
qed (auto simp: storage_new_def storage_store_def storage_load_def storage_delete_def
    storage_list_def storage_exists_def storage_inv_def distinct_update distinct_delete)

lemmas storage_facts =
  mems.inv_put mems.inv_remove mems.get_put mems.get_remove mems.remove_found mems.has_get

end
