(* ===== verification/Kernel_Objects.thy ===== *)
theory Kernel_Objects
  imports Prelude "HOL-Library.Multiset"
begin

text \<open>
  \<^verbatim>\<open>src/crates/core/src/object.rs\<close>: the objects of the kernel and the links between them. The two hash
  tables are association lists, whose order stands for the order in which they are walked. Each
  operation takes its locks for its whole length.
\<close>

record kernel_object =
  ob_id :: ulid
  ob_kind :: string
  ob_label :: string
  ob_data :: "u8 list"
  ob_created_at :: i64
  ob_updated_at :: i64

record object_link =
  li_id :: ulid
  li_source_id :: ulid
  li_target_id :: ulid
  li_kind :: string
  li_created_at :: i64

record object_manager =
  om_objects :: "(ulid \<times> kernel_object) list"
  om_links :: "(ulid \<times> object_link) list"

definition om_new :: object_manager where
  "om_new = \<lparr>om_objects = [], om_links = []\<rparr>"

definition om_create :: "host \<Rightarrow> string \<Rightarrow> string \<Rightarrow> u8 list \<Rightarrow> object_manager \<Rightarrow> ulid \<times> object_manager \<times> host" where
  "om_create h kind label bs m =
     (let (i, h1) = ulid_new h; (now, h2) = now_millis h1;
          ob = \<lparr>ob_id = i, ob_kind = kind, ob_label = label, ob_data = bs, ob_created_at = now, ob_updated_at = now\<rparr>
      in (i, m\<lparr>om_objects := AList.update i ob (om_objects m)\<rparr>, h2))"

definition om_read :: "ulid \<Rightarrow> object_manager \<Rightarrow> kernel_object option" where
  "om_read i m = map_of (om_objects m) i"

definition om_update :: "host \<Rightarrow> ulid \<Rightarrow> u8 list \<Rightarrow> object_manager \<Rightarrow> bool \<times> object_manager \<times> host" where
  "om_update h i bs m =
     (case map_of (om_objects m) i of
        None \<Rightarrow> (False, m, h)
      | Some ob \<Rightarrow> (let (now, h') = now_millis h
          in (True, m\<lparr>om_objects := AList.update i (ob\<lparr>ob_data := bs, ob_updated_at := now\<rparr>) (om_objects m)\<rparr>, h')))"

definition om_delete :: "ulid \<Rightarrow> object_manager \<Rightarrow> bool \<times> object_manager" where
  "om_delete i m = (map_of (om_objects m) i \<noteq> None, m\<lparr>om_objects := AList.delete i (om_objects m)\<rparr>)"

definition om_link :: "host \<Rightarrow> ulid \<Rightarrow> ulid \<Rightarrow> string \<Rightarrow> object_manager \<Rightarrow> ulid \<times> object_manager \<times> host" where
  "om_link h source target kind m =
     (let (i, h1) = ulid_new h; (now, h2) = now_millis h1;
          li = \<lparr>li_id = i, li_source_id = source, li_target_id = target, li_kind = kind, li_created_at = now\<rparr>
      in (i, m\<lparr>om_links := AList.update i li (om_links m)\<rparr>, h2))"

definition om_unlink :: "ulid \<Rightarrow> object_manager \<Rightarrow> bool \<times> object_manager" where
  "om_unlink i m = (map_of (om_links m) i \<noteq> None, m\<lparr>om_links := AList.delete i (om_links m)\<rparr>)"

definition om_links_of :: "ulid \<Rightarrow> object_manager \<Rightarrow> object_link list" where
  "om_links_of i m = filter (\<lambda>l. li_source_id l = i \<or> li_target_id l = i) (map snd (om_links m))"

definition find_by_kind :: "string \<Rightarrow> object_manager \<Rightarrow> kernel_object list" where
  "find_by_kind kind m = filter (\<lambda>ob. ob_kind ob = kind) (map snd (om_objects m))"

definition find_by_label :: "string \<Rightarrow> object_manager \<Rightarrow> kernel_object list" where
  "find_by_label label m = filter (\<lambda>ob. ob_label ob = label) (map snd (om_objects m))"

section \<open>The contract of a table\<close>

text \<open>
  A table of values under their identifiers. A client knows what a read gives after each operation and
  that a search finds exactly the values that a read would, each once.
\<close>

locale keyed_store =
  fixes read :: "ulid \<Rightarrow> 's \<Rightarrow> 'o option"
    and put :: "'o \<Rightarrow> 's \<Rightarrow> 's"
    and remove :: "ulid \<Rightarrow> 's \<Rightarrow> bool \<times> 's"
    and find_all :: "('o \<Rightarrow> bool) \<Rightarrow> 's \<Rightarrow> 'o list"
    and key :: "'o \<Rightarrow> ulid"
    and inv :: "'s \<Rightarrow> bool"
  assumes read_put: "read i (put x s) = (if i = key x then Some x else read i s)"
    and inv_put: "inv s \<Longrightarrow> inv (put x s)"
    and read_remove: "read i (snd (remove j s)) = (if i = j then None else read i s)"
    and removed: "fst (remove j s) \<longleftrightarrow> read j s \<noteq> None"
    and inv_remove: "inv s \<Longrightarrow> inv (snd (remove j s))"
    and read_key: "inv s \<Longrightarrow> read i s = Some x \<Longrightarrow> key x = i"
    and find_all_read: "inv s \<Longrightarrow> set (find_all P s) = {x. \<exists>i. read i s = Some x \<and> P x}"
    and find_all_once: "inv s \<Longrightarrow> distinct (find_all P s)"
begin

lemma read_after_put: "(\<lambda>i. read i (put x s)) = (\<lambda>i. read i s)(key x \<mapsto> x)"
  by (auto simp: read_put)

lemma read_after_remove: "(\<lambda>i. read i (snd (remove j s))) = (\<lambda>i. read i s)(j := None)"
  by (auto simp: read_remove)

lemma found_iff_read: "inv s \<Longrightarrow> set (find_all P s) = {x. read (key x) s = Some x \<and> P x}"
  by (auto simp: find_all_read dest: read_key)

end

text \<open>The association lists that provide it.\<close>

definition table_ok :: "('o \<Rightarrow> ulid) \<Rightarrow> (ulid \<times> 'o) list \<Rightarrow> bool" where
  "table_ok key al \<longleftrightarrow> distinct (map fst al) \<and> (\<forall>(i, x)\<in>set al. key x = i)"

lemma table_ok_Nil [simp]: "table_ok key []"
  by (simp add: table_ok_def)

lemma table_ok_update: "table_ok key al \<Longrightarrow> table_ok key (AList.update (key x) x al)"
  using set_update_subset [of "key x" x al] by (auto simp: table_ok_def intro: distinct_update)

lemma table_ok_delete: "table_ok key al \<Longrightarrow> table_ok key (AList.delete i al)"
  using set_delete_subset [of i al] by (auto simp: table_ok_def distinct_delete)

lemma table_ok_key: "table_ok key al \<Longrightarrow> map_of al i = Some x \<Longrightarrow> key x = i"
  by (auto simp: table_ok_def dest: map_of_SomeD)

lemma table_found: "table_ok key al \<Longrightarrow> set (filter P (map snd al)) = {x. \<exists>i. map_of al i = Some x \<and> P x}"
  by (force simp: table_ok_def dest: map_of_SomeD)

lemma table_found_once:
  assumes "table_ok key al"
  shows "distinct (filter P (map snd al))"
proof -
  have "map key (map snd al) = map fst al" using assms by (auto simp: table_ok_def)
  then have "distinct (map key (map snd al))" using assms by (simp only: table_ok_def)
  then show ?thesis unfolding distinct_map [of key] by (simp only: distinct_filter)
qed

definition om_inv :: "object_manager \<Rightarrow> bool" where
  "om_inv m \<longleftrightarrow> table_ok ob_id (om_objects m) \<and> table_ok li_id (om_links m)"

definition om_put :: "kernel_object \<Rightarrow> object_manager \<Rightarrow> object_manager" where
  "om_put ob m = m\<lparr>om_objects := AList.update (ob_id ob) ob (om_objects m)\<rparr>"

definition om_find :: "(kernel_object \<Rightarrow> bool) \<Rightarrow> object_manager \<Rightarrow> kernel_object list" where
  "om_find P m = filter P (map snd (om_objects m))"

definition link_read :: "ulid \<Rightarrow> object_manager \<Rightarrow> object_link option" where
  "link_read i m = map_of (om_links m) i"

definition link_put :: "object_link \<Rightarrow> object_manager \<Rightarrow> object_manager" where
  "link_put l m = m\<lparr>om_links := AList.update (li_id l) l (om_links m)\<rparr>"

definition link_find :: "(object_link \<Rightarrow> bool) \<Rightarrow> object_manager \<Rightarrow> object_link list" where
  "link_find P m = filter P (map snd (om_links m))"

interpretation objects: keyed_store om_read om_put om_delete om_find ob_id om_inv
  by unfold_locales
    (auto simp: om_read_def om_put_def om_delete_def om_find_def om_inv_def table_ok_update table_ok_delete
      table_found [of ob_id] table_found_once [of ob_id] simp del: set_filter distinct_filter dest: table_ok_key)

interpretation links: keyed_store link_read link_put om_unlink link_find li_id om_inv
  by unfold_locales
    (auto simp: link_read_def link_put_def om_unlink_def link_find_def om_inv_def table_ok_update table_ok_delete
      table_found [of li_id] table_found_once [of li_id] simp del: set_filter distinct_filter dest: table_ok_key)

lemma searches_find_all:
  "find_by_kind k m = om_find (\<lambda>ob. ob_kind ob = k) m"
  "find_by_label b m = om_find (\<lambda>ob. ob_label ob = b) m"
  "om_links_of i m = link_find (\<lambda>l. li_source_id l = i \<or> li_target_id l = i) m"
  by (simp_all add: find_by_kind_def find_by_label_def om_find_def om_links_of_def link_find_def)

section \<open>Runs of the object manager\<close>

datatype object_op =
    ObCreate string string "u8 list"
  | ObUpdate ulid "u8 list"
  | ObDelete ulid
  | ObLink ulid ulid string
  | ObUnlink ulid

datatype object_answer = NewId ulid | Changed bool

fun object_step :: "object_op \<Rightarrow> object_manager \<times> host \<Rightarrow> object_answer \<times> object_manager \<times> host" where
  "object_step (ObCreate kind label bs) (m, h) = apfst NewId (om_create h kind label bs m)"
| "object_step (ObUpdate i bs) (m, h) = apfst Changed (om_update h i bs m)"
| "object_step (ObDelete i) (m, h) = (case om_delete i m of (b, m') \<Rightarrow> (Changed b, m', h))"
| "object_step (ObLink s t kind) (m, h) = apfst NewId (om_link h s t kind m)"
| "object_step (ObUnlink i) (m, h) = (case om_unlink i m of (b, m') \<Rightarrow> (Changed b, m', h))"

text \<open>
  What is promised: two maps from identifiers. An object is what the last operation about its identifier
  made of it, and a link is there until it is removed, whatever happens to its ends.
\<close>

type_synonym object_maps = "(ulid \<rightharpoonup> kernel_object) \<times> (ulid \<rightharpoonup> object_link)"

fun maps_step :: "object_op \<Rightarrow> object_maps \<times> host \<Rightarrow> object_answer \<times> object_maps \<times> host" where
  "maps_step (ObCreate kind label bs) ((os, ls), h) =
     (let (i, h1) = ulid_new h; (now, h2) = now_millis h1;
          ob = \<lparr>ob_id = i, ob_kind = kind, ob_label = label, ob_data = bs, ob_created_at = now, ob_updated_at = now\<rparr>
      in (NewId i, (os(i \<mapsto> ob), ls), h2))"
| "maps_step (ObUpdate i bs) ((os, ls), h) =
     (case os i of
        None \<Rightarrow> (Changed False, (os, ls), h)
      | Some ob \<Rightarrow> (let (now, h') = now_millis h
                   in (Changed True, (os(i \<mapsto> ob\<lparr>ob_data := bs, ob_updated_at := now\<rparr>), ls), h')))"
| "maps_step (ObDelete i) ((os, ls), h) = (Changed (os i \<noteq> None), (os(i := None), ls), h)"
| "maps_step (ObLink s t kind) ((os, ls), h) =
     (let (i, h1) = ulid_new h; (now, h2) = now_millis h1;
          li = \<lparr>li_id = i, li_source_id = s, li_target_id = t, li_kind = kind, li_created_at = now\<rparr>
      in (NewId i, (os, ls(i \<mapsto> li)), h2))"
| "maps_step (ObUnlink i) ((os, ls), h) = (Changed (ls i \<noteq> None), (os, ls(i := None)), h)"

definition maps_of :: "object_manager \<Rightarrow> object_maps" where
  "maps_of m = ((\<lambda>i. om_read i m), (\<lambda>i. link_read i m))"

lemma om_create_put:
  "om_create h kind label bs m =
     (let (i, h1) = ulid_new h; (now, h2) = now_millis h1
      in (i, om_put \<lparr>ob_id = i, ob_kind = kind, ob_label = label, ob_data = bs, ob_created_at = now, ob_updated_at = now\<rparr> m, h2))"
  by (simp add: om_create_def om_put_def Let_def split_beta)

lemma om_link_put:
  "om_link h s t kind m =
     (let (i, h1) = ulid_new h; (now, h2) = now_millis h1
      in (i, link_put \<lparr>li_id = i, li_source_id = s, li_target_id = t, li_kind = kind, li_created_at = now\<rparr> m, h2))"
  by (simp add: om_link_def link_put_def Let_def split_beta)

lemma om_update_put:
  assumes "om_inv m"
  shows "om_update h i bs m =
     (case om_read i m of
        None \<Rightarrow> (False, m, h)
      | Some ob \<Rightarrow> (let (now, h') = now_millis h in (True, om_put (ob\<lparr>ob_data := bs, ob_updated_at := now\<rparr>) m, h')))"
  using objects.read_key [OF assms, of i]
  by (auto simp: om_update_def om_read_def om_put_def Let_def split_beta split: option.split)

lemma other_table [simp]:
  "link_read i (om_put ob m) = link_read i m" "link_read i (snd (om_delete j m)) = link_read i m"
  "om_read i (link_put l m) = om_read i m" "om_read i (snd (om_unlink j m)) = om_read i m"
  by (simp_all add: link_read_def om_read_def om_put_def link_put_def om_delete_def om_unlink_def)

lemma object_step_maps:
  assumes "om_inv m" and "object_step x (m, h) = (a, m', h')"
  shows "om_inv m' \<and> maps_step x (maps_of m, h) = (a, maps_of m', h')"
proof (cases x)
  case (ObCreate kind label bs)
  with assms show ?thesis
    by (auto simp: om_create_put maps_of_def objects.inv_put objects.read_after_put Let_def split_beta apfst_def map_prod_def)
next
  case (ObUpdate i bs)
  show ?thesis
  proof (cases "om_read i m")
    case None
    with assms ObUpdate show ?thesis by (auto simp: om_update_put maps_of_def apfst_def map_prod_def)
  next
    case (Some ob)
    with assms ObUpdate objects.read_key [OF assms(1) Some] show ?thesis
      by (auto simp: om_update_put maps_of_def objects.inv_put objects.read_after_put Let_def split_beta apfst_def map_prod_def)
  qed
next
  case (ObDelete i)
  with assms show ?thesis
    by (auto simp: maps_of_def objects.inv_remove objects.read_after_remove objects.removed split_beta)
next
  case (ObLink s t kind)
  with assms show ?thesis
    by (auto simp: om_link_put maps_of_def links.inv_put links.read_after_put Let_def split_beta apfst_def map_prod_def)
next
  case (ObUnlink i)
  with assms show ?thesis
    by (auto simp: maps_of_def links.inv_remove links.read_after_remove links.removed split_beta)
qed

lemma object_run_maps:
  assumes "om_inv m" and "run_outputs object_step ops (m, h) = (outs, m', h')"
  shows "om_inv m' \<and> run_outputs maps_step ops (maps_of m, h) = (outs, maps_of m', h')"
  using assms
proof (induction ops arbitrary: m h outs)
  case (Cons x ops)
  obtain a m1 h1 where st: "object_step x (m, h) = (a, m1, h1)" by (metis prod_cases3)
  note s = object_step_maps [OF Cons.prems(1) st]
  obtain outs' where outs: "outs = a # outs'" "run_outputs object_step ops (m1, h1) = (outs', m', h')"
    using Cons.prems(2) by (cases "run_outputs object_step ops (m1, h1)") (auto simp: st)
  from Cons.IH [OF _ outs(2)] s show ?case by (simp add: outs(1))
qed simp

lemma om_inv_new [simp]: "om_inv om_new"
  by (simp add: om_inv_def om_new_def)

lemma maps_of_new [simp]: "maps_of om_new = (Map.empty, Map.empty)"
  by (simp add: maps_of_def om_read_def link_read_def om_new_def)

text \<open>
  C37. The object manager is a pair of maps. After every sequence of creates, updates, deletes, links and unlinks, all
  answers were those of the maps, an object is read exactly as the last operation about its identifier left
  it, and the searches by kind and by label find exactly the objects of that kind or label that a read gives,
  each once; \<open>links\<close> finds exactly the links from or to an object that were made and not removed, each once:
  deleting an object removes none of them.
\<close>

theorem kernel_objects_are_a_store:
  "case run_outputs object_step ops (om_new, h) of (outs, m, h') \<Rightarrow>
   case run_outputs maps_step ops ((Map.empty, Map.empty), h) of (outs', (os, ls), h'') \<Rightarrow>
       outs = outs' \<and> h' = h'' \<and> om_read i m = os i
     \<and> set (find_by_kind k m) = {ob. os (ob_id ob) = Some ob \<and> ob_kind ob = k} \<and> distinct (find_by_kind k m)
     \<and> set (find_by_label b m) = {ob. os (ob_id ob) = Some ob \<and> ob_label ob = b} \<and> distinct (find_by_label b m)
     \<and> set (om_links_of i m) = {l. ls (li_id l) = Some l \<and> (li_source_id l = i \<or> li_target_id l = i)}
     \<and> distinct (om_links_of i m)"
proof -
  obtain outs m h' where run: "run_outputs object_step ops (om_new, h) = (outs, m, h')" by (metis prod_cases3)
  have r: "om_inv m" "run_outputs maps_step ops ((Map.empty, Map.empty), h) = (outs, (\<lambda>i. om_read i m, \<lambda>i. link_read i m), h')"
    using object_run_maps [OF om_inv_new run] unfolding maps_of_new by (simp_all add: maps_of_def)
  show ?thesis
    by (simp add: run r(2) searches_find_all objects.found_iff_read [OF r(1)] objects.find_all_once [OF r(1)]
        links.found_iff_read [OF r(1)] links.find_all_once [OF r(1)])
qed

end
