(* ===== verification/Kernel_Messaging.thy ===== *)
theory Kernel_Messaging
  imports Prelude
begin

text \<open>
  \<^verbatim>\<open>src/crates/core/src/event.rs\<close>, the topics of the kernel, and \<^verbatim>\<open>ipc.rs\<close>, its mailboxes. Hash tables are association
  lists. The text of an identifier, from the crate \<open>ulid\<close>, is an argument.
\<close>

section \<open>Topics\<close>

record event =
  ev_id :: ulid
  ev_topic :: string
  ev_payload :: "u8 list"
  ev_occurred_at :: i64

record event_manager =
  em_subscribers :: "(ulid \<times> string) list"
  em_events :: "event list"

definition topics_new :: event_manager where
  "topics_new = \<lparr>em_subscribers = [], em_events = []\<rparr>"

definition em_publish :: "host \<Rightarrow> string \<Rightarrow> u8 list \<Rightarrow> event_manager \<Rightarrow> ulid \<times> event_manager \<times> host" where
  "em_publish h topic payload m =
     (let (i, h1) = ulid_new h; (now, h2) = now_millis h1
      in (i, m\<lparr>em_events := em_events m @
               [\<lparr>ev_id = i, ev_topic = topic, ev_payload = payload, ev_occurred_at = now\<rparr>]\<rparr>, h2))"

definition em_subscribe :: "host \<Rightarrow> string \<Rightarrow> event_manager \<Rightarrow> ulid \<times> event_manager \<times> host" where
  "em_subscribe h topic m =
     (let (i, h') = ulid_new h in (i, m\<lparr>em_subscribers := AList.update i topic (em_subscribers m)\<rparr>, h'))"

definition em_unsubscribe :: "ulid \<Rightarrow> event_manager \<Rightarrow> bool \<times> event_manager" where
  "em_unsubscribe i m = (map_of (em_subscribers m) i \<noteq> None, m\<lparr>em_subscribers := AList.delete i (em_subscribers m)\<rparr>)"

definition em_poll :: "ulid \<Rightarrow> event_manager \<Rightarrow> event list" where
  "em_poll i m =
     (case map_of (em_subscribers m) i of
        None \<Rightarrow> []
      | Some topic \<Rightarrow> filter (\<lambda>e. ev_topic e = topic) (em_events m))"

section \<open>Mailboxes\<close>

record message =
  ms_id :: ulid
  ms_source :: ulid
  ms_target :: ulid
  ms_kind :: string
  ms_payload :: "u8 list"
  ms_reply_to :: "ulid option"

record ipc =
  ipc_mailboxes :: "(ulid \<times> message list) list"
  ipc_endpoints :: "(ulid \<times> bool) list"

definition ipc_new :: ipc where
  "ipc_new = \<lparr>ipc_mailboxes = [], ipc_endpoints = []\<rparr>"

definition ipc_send :: "(ulid \<Rightarrow> string) \<Rightarrow> message \<Rightarrow> ipc \<Rightarrow> (string, ulid) result \<times> ipc" where
  "ipc_send show_ulid msg s =
     (if map_of (ipc_endpoints s) (ms_target msg) = None
      then (Inl (''unknown endpoint: '' @ show_ulid (ms_target msg)), s)
      else (Inr (ms_id msg), s\<lparr>ipc_mailboxes := AList.update (ms_target msg)
              (unwrap_or [] (map_of (ipc_mailboxes s) (ms_target msg)) @ [msg]) (ipc_mailboxes s)\<rparr>))"

definition ipc_receive :: "ulid \<Rightarrow> ipc \<Rightarrow> message list \<times> ipc" where
  "ipc_receive ep s =
     (unwrap_or [] (map_of (ipc_mailboxes s) ep), s\<lparr>ipc_mailboxes := AList.delete ep (ipc_mailboxes s)\<rparr>)"

definition register_endpoint :: "host \<Rightarrow> ipc \<Rightarrow> ulid \<times> ipc \<times> host" where
  "register_endpoint h s =
     (let (i, h') = ulid_new h
      in (i, s\<lparr>ipc_endpoints := AList.update i True (ipc_endpoints s),
              ipc_mailboxes := (if map_of (ipc_mailboxes s) i = None then AList.update i [] (ipc_mailboxes s)
                                else ipc_mailboxes s)\<rparr>, h'))"

definition unregister_endpoint :: "ulid \<Rightarrow> ipc \<Rightarrow> bool \<times> ipc" where
  "unregister_endpoint i s =
     (map_of (ipc_endpoints s) i \<noteq> None, s\<lparr>ipc_endpoints := AList.delete i (ipc_endpoints s)\<rparr>)"

definition pending_count :: "ulid \<Rightarrow> ipc \<Rightarrow> nat" where
  "pending_count ep s = (case map_of (ipc_mailboxes s) ep of None \<Rightarrow> 0 | Some ms \<Rightarrow> length ms)"

section \<open>A subscription sees the whole topic\<close>

datatype event_op = Publish string "u8 list" | Subscribe string | Unsubscribe ulid

fun event_step :: "event_op \<Rightarrow> event_manager \<times> host \<Rightarrow> event_manager \<times> host" where
  "event_step (Publish topic payload) (m, h) = snd (em_publish h topic payload m)"
| "event_step (Subscribe topic) (m, h) = snd (em_subscribe h topic m)"
| "event_step (Unsubscribe i) (m, h) = (snd (em_unsubscribe i m), h)"

definition published :: "event_op list \<Rightarrow> (string \<times> u8 list) list" where
  "published ops = concat (map (\<lambda>x. case x of Publish t p \<Rightarrow> [(t, p)] | _ \<Rightarrow> []) ops)"

definition content :: "event \<Rightarrow> string \<times> u8 list" where
  "content e = (ev_topic e, ev_payload e)"

lemma event_run_content:
  "map content (em_events (fst (fold event_step ops (m, h)))) = map content (em_events m) @ published ops"
proof (induction ops arbitrary: m h)
  case (Cons x ops)
  obtain m' h' where s: "event_step x (m, h) = (m', h')" by fastforce
  have "map content (em_events m') = map content (em_events m) @ published [x]"
    using s by (cases x) (auto simp: em_publish_def em_subscribe_def em_unsubscribe_def published_def content_def Let_def
        split: prod.splits)
  with Cons s show ?case by (simp add: published_def)
qed (simp add: published_def)

lemma event_run_subscriber:
  "map_of (em_subscribers (fst (fold event_step (map (\<lambda>(t, p). Publish t p) ps) (m, h)))) = map_of (em_subscribers m)"
proof (induction ps arbitrary: m h)
  case (Cons x ps)
  obtain t p where x: "x = (t, p)" by fastforce
  obtain m' h' where s: "event_step (Publish t p) (m, h) = (m', h')" by fastforce
  then have "em_subscribers m' = em_subscribers m" by (auto simp: em_publish_def Let_def split: prod.splits)
  with Cons [of m' h'] s x show ?case by simp
qed simp

lemma em_poll_content:
  "map_of (em_subscribers m) i = Some topic \<Longrightarrow>
   map content (em_poll i m) = filter (\<lambda>(t, p). t = topic) (map content (em_events m))"
  by (simp add: em_poll_def filter_map comp_def content_def)

lemma published_map: "published (map (\<lambda>(t, p). Publish t p) ps) = ps"
  by (induction ps) (auto simp: published_def)

text \<open>
  A poll answers everything that was ever published on the topic of the subscription, in the order of publication,
  whether it was published before the subscription or polled before; after the end of the subscription it
  answers nothing.
\<close>

theorem poll_answers_the_whole_topic:
  assumes "fold event_step ops (topics_new, h) = (m, h0)" and "em_subscribe h0 topic m = (i, m1, h1)"
    and "fold event_step (map (\<lambda>(t, p). Publish t p) ps) (m1, h1) = (m2, h2)"
  shows "map content (em_poll i m1) = filter (\<lambda>(t, p). t = topic) (published ops)
    \<and> map content (em_poll i m2) = filter (\<lambda>(t, p). t = topic) (published ops @ ps)
    \<and> em_poll i (snd (em_unsubscribe i m2)) = []"
proof -
  have "map content (em_events m) = published ops"
    using event_run_content [of ops topics_new h] assms(1) by (simp add: topics_new_def)
  moreover have m1: "em_events m1 = em_events m" "map_of (em_subscribers m1) i = Some topic"
    using assms(2) by (auto simp: em_subscribe_def Let_def split: prod.splits)
  moreover have "map_of (em_subscribers m2) i = Some topic"
    using event_run_subscriber [of ps m1 h1] assms(3) m1(2) by simp
  moreover have "map content (em_events m2) = map content (em_events m1) @ ps"
    using event_run_content [of "map (\<lambda>(t, p). Publish t p) ps" m1 h1] assms(3) by (simp add: published_map)
  ultimately show ?thesis by (simp add: em_poll_content) (simp add: em_poll_def em_unsubscribe_def)
qed

definition event_host :: host where
  "event_host = \<lparr>clock = (\<lambda>n. int n), millis = (\<lambda>n. of_nat n), ulids = (\<lambda>n. of_nat n), calls = 0\<rparr>"

theorem poll_answers_the_whole_topic_witness:
  "\<exists>i m. map content (em_poll i m) = [(''a'', [1]), (''a'', [3])]"
proof -
  obtain m h0 where a: "fold event_step [Publish ''a'' [1], Publish ''b'' [2]] (topics_new, event_host) = (m, h0)" by fastforce
  obtain i m1 h1 where b: "em_subscribe h0 ''a'' m = (i, m1, h1)" using prod_cases3 by blast
  obtain m2 h2 where c: "fold event_step (map (\<lambda>(t, p). Publish t p) [(''b'', []), (''a'', [3])]) (m1, h1) = (m2, h2)" by fastforce
  from poll_answers_the_whole_topic [OF a b c] have "map content (em_poll i m2) = [(''a'', [1]), (''a'', [3])]"
    by (simp add: published_def)
  then show ?thesis by (intro exI)
qed

section \<open>Every message is delivered once, in order\<close>

datatype ipc_op = SendMsg message | Receive ulid | RegisterEndpoint | UnregisterEndpoint ulid

datatype ipc_out = Sent "(string, ulid) result" | Received "message list" | Registered ulid | Unregistered bool

fun ipc_step :: "(ulid \<Rightarrow> string) \<Rightarrow> ipc_op \<Rightarrow> ipc \<times> host \<Rightarrow> ipc_out \<times> ipc \<times> host" where
  "ipc_step show_ulid (SendMsg msg) (s, h) = (case ipc_send show_ulid msg s of (r, s') \<Rightarrow> (Sent r, s', h))"
| "ipc_step show_ulid (Receive ep) (s, h) = (case ipc_receive ep s of (ms, s') \<Rightarrow> (Received ms, s', h))"
| "ipc_step show_ulid RegisterEndpoint (s, h) = (case register_endpoint h s of (i, s', h') \<Rightarrow> (Registered i, s', h'))"
| "ipc_step show_ulid (UnregisterEndpoint i) (s, h) = (case unregister_endpoint i s of (b, s') \<Rightarrow> (Unregistered b, s', h))"

text \<open>The messages to an endpoint that were accepted and those that it received, from the calls and their answers.\<close>

fun accepted_to :: "ulid \<Rightarrow> (ipc_op \<times> ipc_out) list \<Rightarrow> message list" where
  "accepted_to ep [] = []"
| "accepted_to ep ((SendMsg msg, Sent (Inr i)) # xs) =
     (if ms_target msg = ep then msg # accepted_to ep xs else accepted_to ep xs)"
| "accepted_to ep (x # xs) = accepted_to ep xs"

fun received_by :: "ulid \<Rightarrow> (ipc_op \<times> ipc_out) list \<Rightarrow> message list" where
  "received_by ep [] = []"
| "received_by ep ((Receive e, Received ms) # xs) = (if e = ep then ms @ received_by ep xs else received_by ep xs)"
| "received_by ep (x # xs) = received_by ep xs"

definition mailbox :: "ulid \<Rightarrow> ipc \<Rightarrow> message list" where
  "mailbox ep s = unwrap_or [] (map_of (ipc_mailboxes s) ep)"

lemma ipc_run_delivers:
  "run_outputs (ipc_step show_ulid) ops (s, h) = (outs, s', h') \<Longrightarrow>
   received_by ep (zip ops outs) @ mailbox ep s' = mailbox ep s @ accepted_to ep (zip ops outs)"
proof (induction ops arbitrary: s h outs)
  case (Cons x ops)
  obtain r s1 h1 where one: "ipc_step show_ulid x (s, h) = (r, s1, h1)" using prod_cases3 by blast
  define outs' where "outs' = fst (run_outputs (ipc_step show_ulid) ops (s1, h1))"
  have more: "run_outputs (ipc_step show_ulid) ops (s1, h1) = (outs', s', h')" and outs: "outs = r # outs'"
    using Cons.prems one by (auto simp: outs'_def split: prod.splits)
  have IH: "received_by ep (zip ops outs') @ mailbox ep s' = mailbox ep s1 @ accepted_to ep (zip ops outs')"
    by (rule Cons.IH [OF more])
  show ?case
  proof (cases x)
    case (SendMsg msg)
    with one IH outs show ?thesis
      by (auto simp: ipc_send_def mailbox_def split: if_splits)
  next
    case (Receive e)
    with one IH outs show ?thesis by (auto simp: ipc_receive_def mailbox_def)
  next
    case RegisterEndpoint
    with one IH outs show ?thesis
      by (auto simp: register_endpoint_def mailbox_def Let_def split: prod.splits if_splits)
  next
    case (UnregisterEndpoint i)
    with one IH outs show ?thesis by (auto simp: unregister_endpoint_def mailbox_def)
  qed
qed (simp)

text \<open>
  C38. The mailboxes are queues. After any calls, what an endpoint received and then what waits for it are the messages
  to it that \<open>send\<close> accepted, each once and in the order in which they were sent; one more \<open>receive\<close> gives all that
  waits and leaves nothing. A message is accepted exactly if its target is registered at the time, and what an endpoint
  did not fetch before it was unregistered it still gets.
\<close>

theorem messages_are_delivered_once_in_order:
  assumes "run_outputs (ipc_step show_ulid) ops (ipc_new, h) = (outs, s, h')"
  shows "received_by ep (zip ops outs) @ fst (ipc_receive ep s) = accepted_to ep (zip ops outs)
    \<and> pending_count ep s = length (fst (ipc_receive ep s)) \<and> pending_count ep (snd (ipc_receive ep s)) = 0
    \<and> (is_ok (fst (ipc_send show_ulid msg s)) \<longleftrightarrow> ms_target msg \<in> fst ` set (ipc_endpoints s))
    \<and> \<not> is_ok (fst (ipc_send show_ulid (msg\<lparr>ms_target := ep\<rparr>) (snd (unregister_endpoint ep s))))
    \<and> ipc_receive ep (snd (unregister_endpoint ep s)) =
        (fst (ipc_receive ep s), snd (unregister_endpoint ep (snd (ipc_receive ep s))))"
proof -
  have "received_by ep (zip ops outs) @ mailbox ep s = accepted_to ep (zip ops outs)"
    using ipc_run_delivers [OF assms, of ep] by (simp add: mailbox_def ipc_new_def)
  moreover have "fst (ipc_receive ep s) = mailbox ep s" by (simp add: ipc_receive_def mailbox_def)
  moreover have "pending_count ep s = length (mailbox ep s)" by (simp add: pending_count_def mailbox_def split: option.split)
  moreover have "pending_count ep (snd (ipc_receive ep s)) = 0" by (simp add: pending_count_def ipc_receive_def)
  moreover have "is_ok (fst (ipc_send show_ulid msg s)) \<longleftrightarrow> ms_target msg \<in> fst ` set (ipc_endpoints s)"
    by (auto simp: ipc_send_def map_of_eq_None_iff)
  ultimately show ?thesis by (simp add: ipc_send_def unregister_endpoint_def ipc_receive_def)
qed

definition sample_message :: "ulid \<Rightarrow> message" where
  "sample_message i = \<lparr>ms_id = i, ms_source = 9, ms_target = 0, ms_kind = ''ping'', ms_payload = [], ms_reply_to = None\<rparr>"

theorem messages_are_delivered_once_in_order_witness:
  "\<exists>s. map ms_id (fst (ipc_receive 0 s)) = [6, 7]"
proof -
  let ?ops = "[RegisterEndpoint, SendMsg (sample_message 5), Receive 0, SendMsg (sample_message 6), SendMsg (sample_message 7)]"
  obtain outs s h' where r: "run_outputs (ipc_step (\<lambda>i. [])) ?ops (ipc_new, event_host) = (outs, s, h')"
    using prod_cases3 by blast
  then have "received_by 0 (zip ?ops outs) = [sample_message 5]"
    "accepted_to 0 (zip ?ops outs) = [sample_message 5, sample_message 6, sample_message 7]"
    by (auto simp: register_endpoint_def ulid_new_def event_host_def ipc_send_def ipc_receive_def sample_message_def ipc_new_def Let_def)
  with messages_are_delivered_once_in_order [OF r, of 0] have "fst (ipc_receive 0 s) = [sample_message 6, sample_message 7]" by simp
  then show ?thesis by (intro exI [of _ s]) (simp add: sample_message_def)
qed

end
