(* ===== verification/Kernel_Memory.thy ===== *)
theory Kernel_Memory
  imports Prelude "HOL-Library.Multiset"
begin

text \<open>
  \<^verbatim>\<open>src/crates/core/src/memory.rs\<close>: the tracking allocator. Its counters are atomics, so calls of several
  threads interleave between the operations on them; the last section runs them as a step relation over the
  single atomic operations. The orderings are relaxed: what the proofs use is that the operations on
  one counter have one order and that a thread sees its own additions.
\<close>

section \<open>The calls\<close>

record tracking_allocator =
  ta_allocated :: i64
  ta_deallocated :: i64
  ta_live :: i64
  ta_peak :: i64

record memory_stats =
  ms_allocated_bytes :: i64
  ms_deallocated_bytes :: i64
  ms_live_allocations :: i64
  ms_peak_allocated_bytes :: i64

definition ta_new :: tracking_allocator where
  "ta_new = \<lparr>ta_allocated = 0, ta_deallocated = 0, ta_live = 0, ta_peak = 0\<rparr>"

definition at_least_one :: "nat \<Rightarrow> nat" where
  "at_least_one n = (if n = 0 then 1 else n)"

text \<open>\<open>fetch_max\<close> on a signed counter.\<close>

definition signed_max :: "i64 \<Rightarrow> i64 \<Rightarrow> i64" where
  "signed_max x y = (if sint x < sint y then y else x)"

definition track_allocation :: "nat \<Rightarrow> tracking_allocator \<Rightarrow> tracking_allocator" where
  "track_allocation n t =
     (let t1 = t\<lparr>ta_allocated := ta_allocated t + of_nat (at_least_one n)\<rparr>;
          t2 = t1\<lparr>ta_live := ta_live t1 + 1\<rparr>
      in t2\<lparr>ta_peak := signed_max (ta_peak t2) (ta_allocated t2)\<rparr>)"

definition ta_allocate :: "nat \<Rightarrow> tracking_allocator \<Rightarrow> u8 list \<times> tracking_allocator" where
  "ta_allocate n t = (replicate (at_least_one n) 0, track_allocation n t)"

definition track_deallocation :: "nat \<Rightarrow> tracking_allocator \<Rightarrow> tracking_allocator" where
  "track_deallocation n t =
     t\<lparr>ta_deallocated := ta_deallocated t + of_nat (at_least_one n), ta_live := ta_live t - 1\<rparr>"

definition ta_stats :: "tracking_allocator \<Rightarrow> memory_stats" where
  "ta_stats t = \<lparr>ms_allocated_bytes = ta_allocated t, ms_deallocated_bytes = ta_deallocated t,
     ms_live_allocations = ta_live t, ms_peak_allocated_bytes = ta_peak t\<rparr>"

section \<open>Calls of several threads\<close>

text \<open>
  Where a call stands: before the addition to \<open>allocated\<close>, before that to \<open>live\<close>, before the load, before
  \<open>fetch_max\<close> with the value it loaded; a deallocation has two operations.
\<close>

datatype alloc_pc = AtAdd nat | AtLive | AtLoad | AtMax i64 | AtSub nat | AtSubLive | Returned

fun atomic_step :: "alloc_pc \<Rightarrow> tracking_allocator \<Rightarrow> (alloc_pc \<times> tracking_allocator) option" where
  "atomic_step (AtAdd n) t = Some (AtLive, t\<lparr>ta_allocated := ta_allocated t + of_nat (at_least_one n)\<rparr>)"
| "atomic_step AtLive t = Some (AtLoad, t\<lparr>ta_live := ta_live t + 1\<rparr>)"
| "atomic_step AtLoad t = Some (AtMax (ta_allocated t), t)"
| "atomic_step (AtMax v) t = Some (Returned, t\<lparr>ta_peak := signed_max (ta_peak t) v\<rparr>)"
| "atomic_step (AtSub n) t = Some (AtSubLive, t\<lparr>ta_deallocated := ta_deallocated t + of_nat (at_least_one n)\<rparr>)"
| "atomic_step AtSubLive t = Some (Returned, t\<lparr>ta_live := ta_live t - 1\<rparr>)"
| "atomic_step Returned t = None"

inductive interleaved :: "alloc_pc list \<times> tracking_allocator \<Rightarrow> alloc_pc list \<times> tracking_allocator \<Rightarrow> bool" where
  "i < length pcs \<Longrightarrow> atomic_step (pcs ! i) t = Some (pc, t') \<Longrightarrow> interleaved (pcs, t) (pcs[i := pc], t')"

inductive_cases interleavedE: "interleaved (pcs, t) (pcs', t')"

datatype alloc_call = Allocate nat | Deallocate nat

definition call_start :: "alloc_call \<Rightarrow> alloc_pc" where
  "call_start c = (case c of Allocate n \<Rightarrow> AtAdd n | Deallocate n \<Rightarrow> AtSub n)"

text \<open>One call alone is the call as it is written.\<close>

lemma alone: "interleaved\<^sup>*\<^sup>* ([AtAdd n], t) ([Returned], track_allocation n t)"
proof -
  have one: "interleaved ([pc], t) ([pc'], t')" if "atomic_step pc t = Some (pc', t')" for pc pc' t t'
    using interleaved.intros [of 0 "[pc]" t pc' t'] that by simp
  let ?t1 = "t\<lparr>ta_allocated := ta_allocated t + of_nat (at_least_one n)\<rparr>"
  let ?t2 = "?t1\<lparr>ta_live := ta_live ?t1 + 1\<rparr>"
  have "interleaved ([AtAdd n], t) ([AtLive], ?t1)" "interleaved ([AtLive], ?t1) ([AtLoad], ?t2)"
    "interleaved ([AtLoad], ?t2) ([AtMax (ta_allocated ?t2)], ?t2)"
    "interleaved ([AtMax (ta_allocated ?t2)], ?t2) ([Returned], ?t2\<lparr>ta_peak := signed_max (ta_peak ?t2) (ta_allocated ?t2)\<rparr>)"
    by (rule one, simp)+
  then show ?thesis unfolding track_allocation_def Let_def
    by (meson rtranclp.rtrancl_refl rtranclp.rtrancl_into_rtrancl)
qed

text \<open>
  The ghosts: the bytes and calls that have been added so far, with \<open>nb\<close> the bytes allocated and \<open>best\<close> the
  peak as naturals.
\<close>

fun left_bytes :: "alloc_pc \<Rightarrow> nat" where
  "left_bytes (AtAdd n) = at_least_one n"
| "left_bytes _ = 0"

fun left_freed :: "alloc_pc \<Rightarrow> nat" where
  "left_freed (AtSub n) = at_least_one n"
| "left_freed _ = 0"

fun left_live :: "alloc_pc \<Rightarrow> int" where
  "left_live (AtAdd n) = 1"
| "left_live AtLive = 1"
| "left_live (AtSub n) = - 1"
| "left_live AtSubLive = - 1"
| "left_live _ = 0"

definition counted :: "nat \<Rightarrow> nat \<Rightarrow> nat \<Rightarrow> nat \<Rightarrow> int \<Rightarrow> alloc_pc list \<Rightarrow> tracking_allocator \<Rightarrow> bool" where
  "counted nb best bytes freed live pcs t \<longleftrightarrow>
     nb + sum_list (map left_bytes pcs) = bytes \<and> ta_allocated t = of_nat nb
     \<and> ta_deallocated t + of_nat (sum_list (map left_freed pcs)) = of_nat freed
     \<and> ta_live t + of_int (sum_list (map left_live pcs)) = of_int live
     \<and> best \<le> nb \<and> ta_peak t = of_nat best \<and> (\<forall>v. AtMax v \<in> set pcs \<longrightarrow> (\<exists>k\<le>nb. v = of_nat k))"

text \<open>The peak is the total, or a call is on its way to make it so.\<close>

definition peak_due :: "nat \<Rightarrow> nat \<Rightarrow> alloc_pc list \<Rightarrow> bool" where
  "peak_due nb best pcs \<longleftrightarrow>
     best = nb \<or> AtLive \<in> set pcs \<or> AtLoad \<in> set pcs \<or> AtMax (of_nat nb) \<in> set pcs"

definition alloc_inv :: "nat \<Rightarrow> nat \<Rightarrow> int \<Rightarrow> alloc_pc list \<times> tracking_allocator \<Rightarrow> bool" where
  "alloc_inv bytes freed live s \<longleftrightarrow>
     (\<exists>nb best. counted nb best bytes freed live (fst s) (snd s) \<and> peak_due nb best (fst s))"

lemma sum_list_map_update:
  fixes f :: "'a \<Rightarrow> 'b::comm_monoid_add"
  assumes "i < length xs"
  shows "sum_list (map f (xs[i := x])) + f (xs ! i) = sum_list (map f xs) + f x"
  using assms by (induction xs arbitrary: i) (auto simp: nth_Cons' ac_simps split: nat.split)

lemma in_set_update_other: "x \<in> set xs \<Longrightarrow> xs ! i \<noteq> x \<Longrightarrow> x \<in> set (xs[i := y])"
  by (metis in_set_conv_nth length_list_update nth_list_update_neq)

lemma sint_of_small: "n < 2 ^ 63 \<Longrightarrow> sint (of_nat n :: i64) = int n"
  by (simp add: signed_of_nat take_bit_nat_eq_self signed_take_bit_int_eq_self)

lemma signed_max_of_nat:
  "a < 2 ^ 63 \<Longrightarrow> b < 2 ^ 63 \<Longrightarrow> signed_max (of_nat a) (of_nat b) = of_nat (max a b)"
  by (simp add: signed_max_def sint_of_small max_def)

lemma moved_between:
  fixes a :: "'a::ab_group_add"
  assumes "f' + l = f + k" and "a' + k = a + l"
  shows "a' + f' = a + f"
proof -
  have "f' = f + k - l" "a' = a + l - k" using assms by (simp_all add: eq_diff_eq)
  then show ?thesis by simp
qed

lemma counted_step:
  assumes c: "counted nb best bytes freed live pcs t" and i: "i < length pcs"
    and bytes: "nb' + left_bytes pc = nb + left_bytes (pcs ! i)" "nb \<le> nb'" "ta_allocated t' = of_nat nb'"
    and freed: "ta_deallocated t' + of_nat (left_freed pc) = ta_deallocated t + of_nat (left_freed (pcs ! i))"
    and live: "ta_live t' + of_int (left_live pc) = ta_live t + of_int (left_live (pcs ! i))"
    and peak: "best' \<le> nb'" "ta_peak t' = of_nat best'" and loaded: "\<And>v. pc = AtMax v \<Longrightarrow> \<exists>k\<le>nb'. v = of_nat k"
  shows "counted nb' best' bytes freed live (pcs[i := pc]) t'"
proof -
  have sums: "sum_list (map left_bytes (pcs[i := pc])) + left_bytes (pcs ! i) = sum_list (map left_bytes pcs) + left_bytes pc"
    "sum_list (map left_freed (pcs[i := pc])) + left_freed (pcs ! i) = sum_list (map left_freed pcs) + left_freed pc"
    "sum_list (map left_live (pcs[i := pc])) + left_live (pcs ! i) = sum_list (map left_live pcs) + left_live pc"
    by (rule sum_list_map_update [OF i])+
  have "nb' + sum_list (map left_bytes (pcs[i := pc])) = bytes"
    using sums(1) bytes(1) c by (simp add: counted_def)
  moreover have "ta_deallocated t' + of_nat (sum_list (map left_freed (pcs[i := pc]))) = of_nat freed"
    using moved_between [OF _ freed, of "of_nat (sum_list (map left_freed (pcs[i := pc])))" "of_nat (sum_list (map left_freed pcs))"]
      arg_cong [OF sums(2), of "of_nat :: nat \<Rightarrow> i64"] c by (simp add: counted_def)
  moreover have "ta_live t' + of_int (sum_list (map left_live (pcs[i := pc]))) = of_int live"
    using moved_between [OF _ live, of "of_int (sum_list (map left_live (pcs[i := pc])))" "of_int (sum_list (map left_live pcs))"]
      arg_cong [OF sums(3), of "of_int :: int \<Rightarrow> i64"] c by (simp add: counted_def)
  moreover have "\<exists>k\<le>nb'. v = of_nat k" if "AtMax v \<in> set (pcs[i := pc])" for v
  proof (cases "pc = AtMax v")
    case False
    with that set_update_subset_insert [of pcs i pc] have "AtMax v \<in> set pcs" by auto
    with c bytes(2) show ?thesis by (auto simp: counted_def intro: le_trans)
  qed (rule loaded)
  ultimately show ?thesis using bytes(3) peak by (simp add: counted_def)
qed

text \<open>A step of another kind keeps the call that will set the peak.\<close>

lemma peak_due_kept:
  assumes "peak_due nb best pcs" "pcs ! i \<notin> {AtLive, AtLoad, AtMax (of_nat nb)}"
  shows "peak_due nb best (pcs[i := pc])"
  using assms in_set_update_other [of _ pcs i pc] unfolding peak_due_def by auto

lemma peak_due_new: "i < length pcs \<Longrightarrow> pc \<in> {AtLive, AtLoad, AtMax (of_nat nb)} \<Longrightarrow> peak_due nb best (pcs[i := pc])"
  using set_update_memI [of i pcs pc] by (auto simp: peak_due_def)

lemma peak_due_max:
  assumes due: "peak_due nb best pcs" and at: "pcs ! i = AtMax (of_nat k)"
    and k: "k \<le> nb" "best \<le> nb" "nb < 2 ^ 63"
  shows "peak_due nb (max best k) (pcs[i := Returned])"
proof (cases "k = nb \<or> best = nb")
  case True
  with k show ?thesis by (auto simp: peak_due_def)
next
  case False
  then have "of_nat k \<noteq> (of_nat nb :: i64)" using k sint_of_small [of k] sint_of_small [of nb] by auto
  with at have "pcs ! i \<notin> {AtLive, AtLoad, AtMax (of_nat nb)}" by simp
  from peak_due_kept [OF due this] False show ?thesis by (simp add: peak_due_def)
qed

lemma alloc_inv_step:
  assumes inv: "alloc_inv bytes freed live (pcs, t)" and small: "bytes < 2 ^ 63"
    and i: "i < length pcs" and step: "atomic_step (pcs ! i) t = Some (pc, t')"
  shows "alloc_inv bytes freed live (pcs[i := pc], t')"
proof -
  obtain nb best where c: "counted nb best bytes freed live pcs t" and due: "peak_due nb best pcs"
    using inv by (auto simp: alloc_inv_def)
  have f: "ta_allocated t = of_nat nb" "best \<le> nb" "ta_peak t = of_nat best" "nb < 2 ^ 63"
    using c small by (auto simp: counted_def)
  note counted = counted_step [OF c i, where pc = pc and t' = t']
  have "\<exists>nb' best'. counted nb' best' bytes freed live (pcs[i := pc]) t' \<and> peak_due nb' best' (pcs[i := pc])"
  proof (cases "pcs ! i")
    case (AtAdd n)
    with step f show ?thesis
      by (intro exI [of _ "nb + at_least_one n"] exI [of _ best] conjI counted peak_due_new i) auto
  next
    case AtLive
    with step f show ?thesis by (intro exI [of _ nb] exI [of _ best] conjI counted peak_due_new i) auto
  next
    case AtLoad
    with step f show ?thesis by (intro exI [of _ nb] exI [of _ best] conjI counted peak_due_new i) auto
  next
    case (AtMax v)
    then have "AtMax v \<in> set pcs" using i nth_mem by metis
    with c obtain k where k: "k \<le> nb" "v = of_nat k" by (auto simp: counted_def)
    from k f have "signed_max (ta_peak t) v = of_nat (max best k)" by (simp add: signed_max_of_nat)
    with AtMax step f k peak_due_max [OF due, of i k] show ?thesis
      by (intro exI [of _ nb] exI [of _ "max best k"] conjI counted) auto
  next
    case (AtSub n)
    with step f peak_due_kept [OF due, of i pc] show ?thesis
      by (intro exI [of _ nb] exI [of _ best] conjI counted) auto
  next
    case AtSubLive
    with step f peak_due_kept [OF due, of i pc] show ?thesis
      by (intro exI [of _ nb] exI [of _ best] conjI counted) auto
  qed (use step in simp)
  then show ?thesis by (simp add: alloc_inv_def)
qed

definition bytes_of :: "alloc_call \<Rightarrow> nat" where
  "bytes_of c = (case c of Allocate n \<Rightarrow> at_least_one n | Deallocate n \<Rightarrow> 0)"

definition freed_of :: "alloc_call \<Rightarrow> nat" where
  "freed_of c = (case c of Allocate n \<Rightarrow> 0 | Deallocate n \<Rightarrow> at_least_one n)"

definition live_of :: "alloc_call \<Rightarrow> int" where
  "live_of c = (case c of Allocate n \<Rightarrow> 1 | Deallocate n \<Rightarrow> - 1)"

lemma start_inv:
  "alloc_inv (sum_list (map bytes_of cs)) (sum_list (map freed_of cs)) (sum_list (map live_of cs)) (map call_start cs, ta_new)"
proof -
  have "left_bytes (call_start c) = bytes_of c" "left_freed (call_start c) = freed_of c" "left_live (call_start c) = live_of c"
    "AtMax v \<noteq> call_start c" for c v
    by (simp_all add: call_start_def bytes_of_def freed_of_def live_of_def split: alloc_call.split)
  then show ?thesis unfolding alloc_inv_def counted_def peak_due_def
    by (intro exI [of _ 0]) (auto simp: ta_new_def comp_def)
qed

text \<open>
  C39. The counters under any interleaving. Whatever calls run at once and however their atomic operations interleave,
  when all have returned the allocator has counted the bytes allocated and freed, and the calls. The peak is then
  the total of all bytes ever allocated, whatever was freed in between: it is no peak of what was live.
\<close>

theorem counters_under_any_interleaving:
  assumes "interleaved\<^sup>*\<^sup>* (map call_start cs, ta_new) (pcs, t)" and "\<forall>pc\<in>set pcs. pc = Returned"
    and "sum_list (map bytes_of cs) < 2 ^ 63"
  shows "ms_allocated_bytes (ta_stats t) = of_nat (sum_list (map bytes_of cs))
    \<and> ms_deallocated_bytes (ta_stats t) = of_nat (sum_list (map freed_of cs))
    \<and> ms_live_allocations (ta_stats t) = of_int (sum_list (map live_of cs))
    \<and> ms_peak_allocated_bytes (ta_stats t) = ms_allocated_bytes (ta_stats t)"
proof -
  let ?inv = "alloc_inv (sum_list (map bytes_of cs)) (sum_list (map freed_of cs)) (sum_list (map live_of cs))"
  have "?inv (pcs, t)"
    using assms(1)
  proof (induction "(pcs, t)" arbitrary: pcs t rule: rtranclp_induct)
    case base
    with start_inv show ?case by (metis prod.collapse prod.inject)
  next
    case (step y)
    obtain pcs' t' where y: "y = (pcs', t')" by fastforce
    from step(2) y obtain i pc where i: "i < length pcs'" "atomic_step (pcs' ! i) t' = Some (pc, t)" "pcs = pcs'[i := pc]"
      by (auto elim: interleavedE)
    with alloc_inv_step [OF step(3) [OF y] assms(3) i(1,2)] show ?case by simp
  qed
  then obtain nb best where c: "counted nb best (sum_list (map bytes_of cs)) (sum_list (map freed_of cs)) (sum_list (map live_of cs)) pcs t"
    "peak_due nb best pcs" by (auto simp: alloc_inv_def)
  have zero: "sum_list (map left_bytes pcs) = 0" "sum_list (map left_freed pcs) = 0" "sum_list (map left_live pcs) = 0"
    using assms(2) by (induction pcs) auto
  have "best = nb" using c(2) assms(2) by (auto simp: peak_due_def)
  with c(1) zero show ?thesis by (simp add: counted_def ta_stats_def)
qed

theorem counters_under_any_interleaving_witness:
  "ms_peak_allocated_bytes (ta_stats (track_allocation 5 ta_new)) = 5"
proof -
  have "interleaved\<^sup>*\<^sup>* (map call_start [Allocate 5], ta_new) ([Returned], track_allocation 5 ta_new)"
    using alone [of 5 ta_new] by (simp add: call_start_def)
  from counters_under_any_interleaving [OF this] show ?thesis by (simp add: bytes_of_def at_least_one_def)
qed

end
