(* ===== verification/Drivers.thy ===== *)
theory Drivers
  imports Prelude
begin

text \<open>
  The driver registry, \<open>src/crates/core/src/driver.rs\<close>: capabilities, errors with their
  messages, and the in-memory registry with every operation. A driver is a trait object; its
  \<open>execute\<close> reads and changes the outside world \<open>'w\<close>, so it is a function of the record.
  The lemmas show that registering and unregistering are the exact inverses a table of
  distinct names promises, and that a driver is called only under its own name and only for
  a capability it declares.
\<close>

record 'j capability =
  cap_name :: string
  cap_description :: string
  cap_input_schema :: 'j
  cap_output_schema :: 'j

definition capability_new :: "string \<Rightarrow> string \<Rightarrow> 'j \<Rightarrow> 'j \<Rightarrow> 'j capability" where
  "capability_new name description input output =
     \<lparr>cap_name = name, cap_description = description, cap_input_schema = input,
      cap_output_schema = output\<rparr>"

datatype driver_error =
    CapabilityNotFound string string \<comment> \<open>driver, capability\<close>
  | DriverNotFound string
  | ExecutionError string
  | InvalidParameters string
  | AlreadyRegistered string

fun show_driver_error :: "driver_error \<Rightarrow> string" where
  "show_driver_error (CapabilityNotFound d c) =
     ''driver '' @ [CHR 0x27] @ d @ [CHR 0x27] @ '' has no capability '' @ [CHR 0x27] @ c @ [CHR 0x27]"
| "show_driver_error (DriverNotFound d) =
     ''driver '' @ [CHR 0x27] @ d @ [CHR 0x27] @ '' not found''"
| "show_driver_error (ExecutionError m) = ''execution error: '' @ m"
| "show_driver_error (InvalidParameters m) = ''invalid parameters: '' @ m"
| "show_driver_error (AlreadyRegistered d) =
     ''driver '' @ [CHR 0x27] @ d @ [CHR 0x27] @ '' already registered''"

record ('j, 'w) driver =
  dv_name :: string
  dv_description :: string
  dv_capabilities :: "'j capability list"
  dv_execute :: "string \<Rightarrow> 'j \<Rightarrow> 'w \<Rightarrow> (driver_error, 'j) result \<times> 'w"

record 'j driver_info =
  di_name :: string
  di_description :: string
  di_capabilities :: "'j capability list"

type_synonym ('j, 'w) registry = "(string \<times> ('j, 'w) driver) list"

definition dr_new :: "('j, 'w) registry" where
  "dr_new = []"

definition dr_register :: "('j, 'w) driver \<Rightarrow> (('j, 'w) registry, driver_error, unit) op" where
  "dr_register d reg =
     (if map_of reg (dv_name d) \<noteq> None then (Inl (AlreadyRegistered (dv_name d)), reg)
      else (Inr (), AList.update (dv_name d) d reg))"

definition dr_unregister :: "string \<Rightarrow> (('j, 'w) registry, driver_error, unit) op" where
  "dr_unregister name reg =
     (case map_of reg name of
        None \<Rightarrow> (Inl (DriverNotFound name), reg)
      | Some d \<Rightarrow> (Inr (), AList.delete name reg))"

definition dr_get :: "string \<Rightarrow> ('j, 'w) registry \<Rightarrow> ('j, 'w) driver option" where
  "dr_get name reg = map_of reg name"

definition declares :: "('j, 'w) driver \<Rightarrow> string \<Rightarrow> bool" where
  "declares d capability \<longleftrightarrow> list_ex (\<lambda>c. cap_name c = capability) (dv_capabilities d)"

definition dr_find_by_capability :: "string \<Rightarrow> ('j, 'w) registry \<Rightarrow> ('j, 'w) driver list" where
  "dr_find_by_capability capability reg = filter (\<lambda>d. declares d capability) (map snd reg)"

definition dr_list :: "('j, 'w) registry \<Rightarrow> 'j driver_info list" where
  "dr_list reg =
     map (\<lambda>d. \<lparr>di_name = dv_name d, di_description = dv_description d,
               di_capabilities = dv_capabilities d\<rparr>) (map snd reg)"

definition dr_execute ::
  "('j, 'w) registry \<Rightarrow> string \<Rightarrow> string \<Rightarrow> 'j \<Rightarrow> 'w \<Rightarrow> (driver_error, 'j) result \<times> 'w" where
  "dr_execute reg driver_name capability params w =
     (case dr_get driver_name reg of
        None \<Rightarrow> (Inl (DriverNotFound driver_name), w)
      | Some d \<Rightarrow>
          if \<not> declares d capability then (Inl (CapabilityNotFound driver_name capability), w)
          else dv_execute d capability params w)"

section \<open>The registry is a table of distinct names\<close>

definition dr_inv :: "('j, 'w) registry \<Rightarrow> bool" where
  "dr_inv reg \<longleftrightarrow> distinct (map fst reg) \<and> (\<forall>(n, d) \<in> set reg. dv_name d = n)"

lemma dr_inv_new [simp]: "dr_inv dr_new"
  by (simp add: dr_inv_def dr_new_def)

lemma dr_register_inv:
  assumes "dr_inv reg" shows "dr_inv (snd (dr_register d reg))"
proof -
  have "distinct (map fst (AList.update (dv_name d) d reg))"
    using assms unfolding dr_inv_def by (blast intro: distinct_update)
  moreover have "\<forall>(n, e) \<in> set (AList.update (dv_name d) d reg). dv_name e = n"
    using assms set_update_subset [of "dv_name d" d reg] unfolding dr_inv_def by blast
  ultimately show ?thesis using assms by (simp add: dr_register_def dr_inv_def)
qed

lemma dr_unregister_inv: "dr_inv reg \<Longrightarrow> dr_inv (snd (dr_unregister n reg))"
  using set_delete_subset [of n reg] distinct_delete [of reg n]
  by (auto simp: dr_inv_def dr_unregister_def split: option.splits)

datatype ('j, 'w) registry_op = Register "('j, 'w) driver" | Unregister string

fun registry_step ::
  "('j, 'w) registry_op \<Rightarrow> (('j, 'w) registry, driver_error, unit) op" where
  "registry_step (Register d) reg = dr_register d reg"
| "registry_step (Unregister n) reg = dr_unregister n reg"

lemma registry_run_inv: "dr_inv (snd (run_outputs registry_step xs dr_new))"
  by (rule run_outputs_invariant [where P = dr_inv, OF dr_inv_new])
    (metis dr_register_inv dr_unregister_inv registry_step.elims)

text \<open>The specification: a finite table from names to drivers.\<close>

fun table_step ::
  "('j, 'w) registry_op \<Rightarrow> (string \<Rightarrow> ('j, 'w) driver option, driver_error, unit) op" where
  "table_step (Register d) m =
     (if m (dv_name d) \<noteq> None then (Inl (AlreadyRegistered (dv_name d)), m)
      else (Inr (), m(dv_name d \<mapsto> d)))"
| "table_step (Unregister n) m =
     (if m n = None then (Inl (DriverNotFound n), m) else (Inr (), m(n := None)))"

lemma registry_step_table:
  "fst (registry_step x reg) = fst (table_step x (map_of reg))"
  "map_of (snd (registry_step x reg)) = snd (table_step x (map_of reg))"
  by (cases x; auto simp: dr_register_def dr_unregister_def split: option.splits)+

lemma registry_run_table:
  "fst (run_outputs registry_step xs reg) = fst (run_outputs table_step xs (map_of reg)) \<and>
   map_of (snd (run_outputs registry_step xs reg)) = snd (run_outputs table_step xs (map_of reg))"
  by (induction xs arbitrary: reg) (simp_all add: split_beta registry_step_table)

text \<open>
  The registry is a table of distinct names: for every sequence of registrations and
  removals the answers and the lookups are those of the table, a capability search lists
  exactly the registered drivers that declare it, and \<open>execute\<close> reaches only the driver of
  that name and only for a capability it declares: otherwise it answers which of the two is
  missing and the outside world is untouched.
\<close>

theorem registry_dispatch:
  fixes xs :: "('j, 'w) registry_op list"
  shows "case run_outputs registry_step xs dr_new of (outs, reg) \<Rightarrow>
         case run_outputs table_step xs Map.empty of (outs', m) \<Rightarrow>
           outs = outs' \<and> dr_get n reg = m n \<and>
           set (dr_find_by_capability c reg) = {d. m (dv_name d) = Some d \<and> declares d c} \<and>
           map di_name (dr_list reg) = map fst reg \<and> distinct (map fst reg) \<and>
           dr_execute reg n c params w =
             (case m n of
                None \<Rightarrow> (Inl (DriverNotFound n), w)
              | Some d \<Rightarrow> if dv_name d = n \<and> declares d c then dv_execute d c params w
                          else (Inl (CapabilityNotFound n c), w))"
proof -
  obtain outs reg where run: "run_outputs registry_step xs (dr_new :: ('j, 'w) registry) = (outs, reg)"
    by (metis prod.exhaust)
  have inv: "dr_inv reg" using registry_run_inv [of xs] by (simp add: run)
  obtain outs' m where run': "run_outputs table_step xs (Map.empty :: string \<Rightarrow> ('j, 'w) driver option) = (outs', m)"
    by (metis prod.exhaust)
  have tab: "outs = outs'" "map_of reg = m"
    using registry_run_table [of xs dr_new] run run' by (simp_all add: dr_new_def)
  have name: "dv_name d = k" if "m k = Some d" for k d
    using inv that tab(2) map_of_SomeD unfolding dr_inv_def by fastforce
  have mem: "(k, d) \<in> set reg \<longleftrightarrow> m k = Some d" for k d
    unfolding tab(2) [symmetric] using inv by (simp add: dr_inv_def)
  have "d \<in> snd ` set reg \<longleftrightarrow> (\<exists>k. (k, d) \<in> set reg)" for d by force
  then have "d \<in> snd ` set reg \<longleftrightarrow> m (dv_name d) = Some d" for d
    unfolding mem using name by blast
  then have "set (dr_find_by_capability c reg) = {d. m (dv_name d) = Some d \<and> declares d c}"
    by (simp add: dr_find_by_capability_def)
  moreover have "map di_name (dr_list reg) = map fst reg"
    using inv by (auto simp: dr_list_def dr_inv_def)
  ultimately show ?thesis
    using inv tab(1) name
    by (simp add: run run' dr_get_def dr_inv_def dr_execute_def tab(2) split: option.splits)
qed

end
