(* ===== verification/Floats.thy ===== *)
theory Floats
  imports Prelude "HOL-Library.Multiset"
begin

text \<open>
  The IEEE 754 operations the sources use on \<open>f32\<close> and \<open>f64\<close> values, on bit patterns:
  comparison, the test against zero, the saturating cast to \<open>i64\<close>, and the correctly rounded
  quotient of small naturals. Sums, products and square roots do not occur here.
\<close>

unbundle bit_operations_syntax

section \<open>Single precision\<close>

definition f32_is_nan :: "f32 \<Rightarrow> bool" where
  "f32_is_nan x \<longleftrightarrow> x AND 0x7FFFFFFF > 0x7F800000"

text \<open>Sign and magnitude as an integer: the order of the numbers, the two zeros equal.\<close>

definition f32_key :: "f32 \<Rightarrow> int" where
  "f32_key x = (if bit x 31 then - uint (x AND 0x7FFFFFFF) else uint x)"

definition f32_less :: "f32 \<Rightarrow> f32 \<Rightarrow> bool" where
  "f32_less x y \<longleftrightarrow> \<not> f32_is_nan x \<and> \<not> f32_is_nan y \<and> f32_key x < f32_key y"

definition f32_le :: "f32 \<Rightarrow> f32 \<Rightarrow> bool" where
  "f32_le x y \<longleftrightarrow> \<not> f32_is_nan x \<and> \<not> f32_is_nan y \<and> f32_key x \<le> f32_key y"

text \<open>
  \<open>sort_by(|a, b| b.partial_cmp(a).unwrap_or(Equal))\<close>: stable, greatest score first. Where a
  score is a NaN that comparison is no order and the result of the sort is unspecified; the
  key then decides.
\<close>

definition sort_scores :: "('a \<times> f32) list \<Rightarrow> ('a \<times> f32) list" where
  "sort_scores = sort_key (\<lambda>(a, score). - f32_key score)"

lemma mset_sort_scores [simp]: "mset (sort_scores xs) = mset xs"
  by (simp add: sort_scores_def)

lemma set_sort_scores [simp]: "set (sort_scores xs) = set xs"
  by (simp add: sort_scores_def)

lemma length_sort_scores [simp]: "length (sort_scores xs) = length xs"
  by (simp add: sort_scores_def)

lemma sorted_sort_scores: "sorted_wrt (\<lambda>x y. f32_key (snd y) \<le> f32_key (snd x)) (sort_scores xs)"
proof -
  have "sorted (map (\<lambda>(a, score). - f32_key score) (sort_scores xs))"
    unfolding sort_scores_def by (rule sorted_sort_key)
  then show ?thesis by (simp add: sorted_map split_beta)
qed

text \<open>\<open>n as f32\<close> and the quotient of two numbers, rounded to nearest, ties to even.\<close>

function bit_count :: "int \<Rightarrow> int" where
  "bit_count n = (if n \<le> 0 then 0 else 1 + bit_count (n div 2))"
  by pat_completeness auto
termination
  by (relation "measure nat") auto

declare bit_count.simps [simp del]

definition round_half_even :: "int \<Rightarrow> int \<Rightarrow> int" where
  "round_half_even p q =
     (let d = p div q; r = p mod q in
      if 2 * r < q then d else if q < 2 * r then d + 1 else if even d then d else d + 1)"

text \<open>The normal number nearest to \<open>p / q\<close>, for \<open>2 ^ -64 < p / q < 2 ^ 64\<close>.\<close>

definition f32_of_ratio :: "int \<Rightarrow> int \<Rightarrow> f32" where
  "f32_of_ratio p q =
     (if p = 0 then 0
      else (let e = bit_count (p * 2 ^ 64 div q) - 65;
                m = (if e \<le> 23 then round_half_even (p * 2 ^ nat (23 - e)) q
                     else round_half_even p (q * 2 ^ nat (e - 23)))
            in word_of_int ((e + 127) * 2 ^ 23 + m - 2 ^ 23)))"

text \<open>\<open>n as f32 / 10.0\<close>: \<open>n\<close> is rounded first, to a mantissa of 24 bits.\<close>

definition f32_round_int :: "int \<Rightarrow> int" where
  "f32_round_int n =
     (let k = bit_count n - 24 in if k \<le> 0 then n else round_half_even n (2 ^ nat k) * 2 ^ nat k)"

definition f32_tenths :: "u32 \<Rightarrow> f32" where
  "f32_tenths n = f32_of_ratio (f32_round_int (uint n)) 10"

section \<open>Double precision\<close>

text \<open>\<open>v != 0.0\<close>: a NaN differs from zero, both zeros do not.\<close>

definition f64_is_zero :: "f64 \<Rightarrow> bool" where
  "f64_is_zero x \<longleftrightarrow> x AND 0x7FFFFFFFFFFFFFFF = 0"

text \<open>\<open>v as i64\<close> and \<open>v as i32\<close>: towards zero, saturating, a NaN becomes 0.\<close>

definition f64_saturate :: "int \<Rightarrow> int \<Rightarrow> f64 \<Rightarrow> int" where
  "f64_saturate low high x =
     (let expo = uint (drop_bit 52 x AND 0x7FF);
          frac = uint (x AND 0xFFFFFFFFFFFFF);
          neg = bit x 63;
          mag = (if expo < 1023 then 0
                 else if expo \<ge> 1075 then (2 ^ 52 + frac) * 2 ^ nat (expo - 1075)
                 else (2 ^ 52 + frac) div 2 ^ nat (1075 - expo));
          v = (if neg then - mag else mag)
      in if expo = 2047 \<and> frac \<noteq> 0 then 0 else max low (min high v))"

definition f64_to_i64 :: "f64 \<Rightarrow> i64" where
  "f64_to_i64 x = word_of_int (f64_saturate (- (2 ^ 63)) (2 ^ 63 - 1) x)"

definition f64_to_i32 :: "f64 \<Rightarrow> i32" where
  "f64_to_i32 x = word_of_int (f64_saturate (- (2 ^ 31)) (2 ^ 31 - 1) x)"

text \<open>The number nearest to \<open>p / q\<close>, for \<open>0 \<le> p\<close> and \<open>0 < q\<close>: subnormal and infinite included.\<close>

definition f64_of_ratio :: "int \<Rightarrow> int \<Rightarrow> f64" where
  "f64_of_ratio p q =
     (if p = 0 then 0
      else (let k = bit_count p - bit_count q;
                below = (if 0 \<le> k then p < q * 2 ^ nat k else p * 2 ^ nat (- k) < q);
                e = max (if below then k - 1 else k) (- 1022);
                m = (if e \<le> 52 then round_half_even (p * 2 ^ nat (52 - e)) q
                     else round_half_even p (q * 2 ^ nat (e - 52)))
            in word_of_int (min ((e + 1022) * 2 ^ 52 + m) (2047 * 2 ^ 52))))"

text \<open>
  \<open>str::parse::<f64>\<close> on a text of digits and dots, and \<open>str::parse::<i64>\<close> on digits:
  \<open>None\<close> is the parse error. The first is correctly rounded, the second refuses overflow.
\<close>

definition digit_value :: "char \<Rightarrow> int" where
  "digit_value c = int (of_char c) - 48"

definition digits_value :: "string \<Rightarrow> int" where
  "digits_value s = fold (\<lambda>c v. v * 10 + digit_value c) s 0"

definition f64_parse :: "string \<Rightarrow> f64 option" where
  "f64_parse s =
     (case split_on (CHR ''.'') s of
        [whole] \<Rightarrow> if whole = [] then None else Some (f64_of_ratio (digits_value whole) 1)
      | [whole, frac] \<Rightarrow>
          if whole = [] \<and> frac = [] then None
          else Some (f64_of_ratio (digits_value (whole @ frac)) (10 ^ length frac))
      | _ \<Rightarrow> None)"

definition i64_parse :: "string \<Rightarrow> i64 option" where
  "i64_parse s =
     (if s = [] \<or> 2 ^ 63 \<le> digits_value s then None else Some (word_of_int (digits_value s)))"

text \<open>
  \<open>Display\<close> of an \<open>f64\<close>: the shortest decimal that parses back to the value, the nearest one
  if there are two of that length, written without an exponent.
\<close>

definition f64_ratio :: "f64 \<Rightarrow> int \<times> int" where
  "f64_ratio x =
     (let expo = uint (drop_bit 52 x AND 0x7FF); frac = uint (x AND 0xFFFFFFFFFFFFF);
          m = (if expo = 0 then frac else 2 ^ 52 + frac); e = max expo 1 - 1075
      in if 0 \<le> e then (m * 2 ^ nat e, 1) else (m, 2 ^ nat (- e)))"

definition decimal_exponent :: "int \<Rightarrow> int \<Rightarrow> int" where
  "decimal_exponent p q =
     (if q \<le> p
      then (case List.find (\<lambda>n. p < q * 10 ^ n) [0..<400] of None \<Rightarrow> 0 | Some n \<Rightarrow> int n)
      else (case List.find (\<lambda>n. q \<le> p * 10 ^ Suc n) [0..<400] of None \<Rightarrow> 0 | Some n \<Rightarrow> - int n))"

definition shortest_at :: "f64 \<Rightarrow> int \<Rightarrow> nat \<Rightarrow> (int \<times> int) option" where
  "shortest_at x e k =
     (let (p, q) = f64_ratio x; u = e - int k;
          (p', q') = (if 0 \<le> u then (p, q * 10 ^ nat u) else (p * 10 ^ nat (- u), q));
          reads_back = (\<lambda>d. (if 0 \<le> u then f64_of_ratio (d * 10 ^ nat u) 1
                             else f64_of_ratio d (10 ^ nat (- u))) = x);
          d = p' div q'; r = p' mod q'
      in if reads_back d \<and> (2 * r \<le> q' \<or> \<not> reads_back (d + 1)) then Some (d, u)
         else if reads_back (d + 1) then Some (d + 1, u)
         else None)"

definition show_decimal :: "int \<Rightarrow> int \<Rightarrow> string" where
  "show_decimal d u =
     (if 0 \<le> u then show_nat (nat d) @ replicate (nat u) (CHR ''0'')
      else (let (d, n) = (if d mod 10 = 0 then (d div 10, nat (- u) - 1) else (d, nat (- u)));
                frac = show_nat (nat (d mod 10 ^ n))
            in show_nat (nat (d div 10 ^ n)) @
               (if n = 0 then [] else CHR ''.'' # replicate (n - length frac) (CHR ''0'') @ frac)))"

definition f64_display :: "f64 \<Rightarrow> string" where
  "f64_display x =
     (let expo = drop_bit 52 x AND 0x7FF; frac = x AND 0xFFFFFFFFFFFFF;
          sign = (if bit x 63 then ''-'' else []); y = x AND 0x7FFFFFFFFFFFFFFF
      in if expo = 0x7FF \<and> frac \<noteq> 0 then ''NaN''
         else if expo = 0x7FF then sign @ ''inf''
         else if y = 0 then sign @ ''0''
         else (let (p, q) = f64_ratio y; e = decimal_exponent p q
               in sign @ (case List.map_filter (shortest_at y e) [1..<18] of
                            [] \<Rightarrow> [] | (d, u) # _ \<Rightarrow> show_decimal d u)))"

text \<open>
  A product with a small positive integer, \<open>n as f64\<close>, the comparison of two numbers and
  \<open>ceil\<close>. An infinity and a NaN are left as they are by the first and the last.
\<close>

definition f64_times :: "f64 \<Rightarrow> int \<Rightarrow> f64" where
  "f64_times x n =
     (if drop_bit 52 x AND 0x7FF = 0x7FF then x
      else (let (p, q) = f64_ratio (x AND 0x7FFFFFFFFFFFFFFF)
            in (x AND 0x8000000000000000) OR f64_of_ratio (p * n) q))"

definition f64_of_int :: "int \<Rightarrow> f64" where
  "f64_of_int i = (if i < 0 then 0x8000000000000000 OR f64_of_ratio (- i) 1 else f64_of_ratio i 1)"

definition f64_is_nan :: "f64 \<Rightarrow> bool" where
  "f64_is_nan x \<longleftrightarrow> x AND 0x7FFFFFFFFFFFFFFF > 0x7FF0000000000000"

definition f64_key :: "f64 \<Rightarrow> int" where
  "f64_key x = (if bit x 63 then - uint (x AND 0x7FFFFFFFFFFFFFFF) else uint x)"

definition f64_less :: "f64 \<Rightarrow> f64 \<Rightarrow> bool" where
  "f64_less x y \<longleftrightarrow> \<not> f64_is_nan x \<and> \<not> f64_is_nan y \<and> f64_key x < f64_key y"

definition f64_ceil :: "f64 \<Rightarrow> f64" where
  "f64_ceil x =
     (if drop_bit 52 x AND 0x7FF = 0x7FF then x
      else (let (p, q) = f64_ratio (x AND 0x7FFFFFFFFFFFFFFF)
            in if bit x 63 then 0x8000000000000000 OR f64_of_ratio (p div q) 1
               else f64_of_ratio (- (- p div q)) 1))"

end
