(* ===== verification/Memory_Model.thy ===== *)
theory Memory_Model
  imports Floats
begin

text \<open>
  The data that the memory subsystems exchange, \<open>src/crates/memory/src/semantic.rs\<close> and
  \<open>src/crates/memory/src/long_term.rs\<close>: semantic facts, long-term entries and the two query
  types with their defaults.
\<close>

record 'j semantic_fact =
  sf_id :: ulid
  sf_subject :: string
  sf_predicate :: string
  sf_object :: 'j
  sf_confidence :: f64
  sf_source_ids :: "string list"
  sf_created_at :: instant
  sf_ttl :: "int option"

text \<open>\<open>1.0\<close> as an IEEE 754 double.\<close>

definition f64_one :: f64 where
  "f64_one = 0x3FF0000000000000"

definition sf_new :: "host \<Rightarrow> string \<Rightarrow> string \<Rightarrow> 'j \<Rightarrow> 'j semantic_fact \<times> host" where
  "sf_new h subject predicate obj =
     (let (uid, h1) = ulid_new h; (now, h2) = now_utc h1
      in (\<lparr>sf_id = uid, sf_subject = subject, sf_predicate = predicate, sf_object = obj,
           sf_confidence = f64_one, sf_source_ids = [], sf_created_at = now, sf_ttl = None\<rparr>, h2))"

definition with_confidence :: "f64 \<Rightarrow> 'j semantic_fact \<Rightarrow> 'j semantic_fact" where
  "with_confidence c f = f\<lparr>sf_confidence := c\<rparr>"

definition with_source :: "string \<Rightarrow> 'j semantic_fact \<Rightarrow> 'j semantic_fact" where
  "with_source s f = f\<lparr>sf_source_ids := sf_source_ids f @ [s]\<rparr>"

record semantic_query =
  sq_subjects :: "string list option"
  sq_predicates :: "string list option"
  sq_min_confidence :: f64
  sq_limit :: nat

definition sq_default :: semantic_query where
  "sq_default = \<lparr>sq_subjects = None, sq_predicates = None, sq_min_confidence = 0, sq_limit = 100\<rparr>"

record 'j lt_entry =
  lt_id :: ulid
  lt_kind :: string
  lt_content :: 'j
  lt_source_ids :: "string list"
  lt_confidence :: f64
  lt_created_at :: instant
  lt_last_accessed_at :: instant
  lt_access_count :: u64
  lt_ttl :: "int option"

record lt_query =
  lq_kinds :: "string list option"
  lq_ids :: "string list option"
  lq_min_confidence :: f64
  lq_created_after :: "instant option"
  lq_created_before :: "instant option"
  lq_limit :: nat
  lq_offset :: nat

definition lq_default :: lt_query where
  "lq_default = \<lparr>lq_kinds = None, lq_ids = None, lq_min_confidence = 0, lq_created_after = None,
     lq_created_before = None, lq_limit = 100, lq_offset = 0\<rparr>"

text \<open>\<open>>=\<close> on \<open>f64\<close>: false if either side is a NaN.\<close>

definition f64_ge :: "f64 \<Rightarrow> f64 \<Rightarrow> bool" where
  "f64_ge x y \<longleftrightarrow> \<not> f64_is_nan x \<and> \<not> f64_is_nan y \<and> f64_key y \<le> f64_key x"

text \<open>\<open>query.kinds.as_ref().map_or(true, |k| k.contains(x))\<close>.\<close>

definition admits :: "string list option \<Rightarrow> string \<Rightarrow> bool" where
  "admits names x = (case names of None \<Rightarrow> True | Some ks \<Rightarrow> x \<in> set ks)"

end
