(* ===== verification/Long_Term_Memory.thy ===== *)
theory Long_Term_Memory
  imports Event_Store Memory_Model
begin

text \<open>
  \<^verbatim>\<open>src/crates/memory/src/long_term.rs\<close>: the long-term memory, which keeps its entries as
  events of the aggregate type \<open>LongTermMemory\<close>, over the in-memory event store. Of the three
  stores it is given it uses the event store only. \<open>serde\<close> and the text form of an identifier
  are the fields of \<open>lt_lib\<close>. A read that would panic is \<open>None\<close>.
\<close>

record 'j lt_lib =
  lt_to_value :: "'j lt_entry \<Rightarrow> (string, 'j) result"
  lt_from_value :: "'j \<Rightarrow> 'j lt_entry option"
  lt_show_ulid :: "ulid \<Rightarrow> string"
  lt_id_json :: "string \<Rightarrow> 'j"

definition show_event_store_error :: "event_store_error \<Rightarrow> string" where
  "show_event_store_error e =
     (case e of
        StorageError m \<Rightarrow> ''event store error: '' @ m
      | VersionConflict a expected got \<Rightarrow>
          ''version conflict for aggregate '' @ a @ '': expected '' @ show_nat (unat expected) @
          '', got '' @ show_nat (unat got))"

section \<open>Operations\<close>

text \<open>A new envelope, appended; the error becomes its text.\<close>

definition append_new ::
  "host \<Rightarrow> string \<Rightarrow> string \<Rightarrow> string \<Rightarrow> u64 \<Rightarrow> 'j \<Rightarrow> 'j event_store \<Rightarrow> (string, unit) result \<times> 'j event_store \<times> host" where
  "append_new h agg_id agg_type evt_type version data s =
     (let (event, h1) = envelope_new h agg_id agg_type evt_type version data;
          (r, s1) = es_append event s
      in (map_err show_event_store_error r, s1, h1))"

definition lt_store ::
  "'j lt_lib \<Rightarrow> host \<Rightarrow> 'j lt_entry \<Rightarrow> 'j event_store \<Rightarrow> (string, ulid) result \<times> 'j event_store \<times> host" where
  "lt_store lib h entry s =
     (case lt_to_value lib entry of
        Inl e \<Rightarrow> (Inl e, s, h)
      | Inr data \<Rightarrow>
          (let (r, s1, h1) = append_new h (lt_show_ulid lib (lt_id entry)) ''LongTermMemory'' ''EntryStored'' 1 data s
           in (rbind r (\<lambda>_. Inr (lt_id entry)), s1, h1)))"

fun lt_store_batch ::
  "'j lt_lib \<Rightarrow> host \<Rightarrow> 'j lt_entry list \<Rightarrow> 'j event_store \<Rightarrow> (string, ulid list) result \<times> 'j event_store \<times> host" where
  "lt_store_batch lib h [] s = (Inr [], s, h)"
| "lt_store_batch lib h (e # es) s =
     (case lt_store lib h e s of
        (Inl err, s1, h1) \<Rightarrow> (Inl err, s1, h1)
      | (Inr i, s1, h1) \<Rightarrow>
          (case lt_store_batch lib h1 es s1 of
             (Inl err, s2, h2) \<Rightarrow> (Inl err, s2, h2)
           | (Inr is, s2, h2) \<Rightarrow> (Inr (i # is), s2, h2)))"

text \<open>The identifiers and the creation times of a query are not looked at.\<close>

definition lt_matches :: "lt_query \<Rightarrow> 'j lt_entry \<Rightarrow> bool" where
  "lt_matches query e \<longleftrightarrow>
     f64_ge (lt_confidence e) (lq_min_confidence query) \<and> admits (lq_kinds query) (lt_kind e)"

definition lt_slice :: "lt_query \<Rightarrow> 'a list \<Rightarrow> 'a list" where
  "lt_slice query xs =
     (let start = min (lq_offset query) (length xs);
          stop = min (start + lq_limit query) (length xs)
      in drop start (take stop xs))"

definition lt_retrieve ::
  "'j lt_lib \<Rightarrow> 'j event_store \<Rightarrow> lt_query \<Rightarrow> (string, 'j lt_entry list) result option" where
  "lt_retrieve lib s query =
     map_option (map_err show_event_store_error \<circ> (\<lambda>raw. rbind raw (\<lambda>events.
        Inr (lt_slice query
          (sort_key (\<lambda>e. - lt_created_at e)
            (filter (lt_matches query) (List.map_filter (\<lambda>ev. lt_from_value lib (ee_data ev)) events)))))))
       (read_all s ''LongTermMemory'')"

text \<open>\<open>results.pop()\<close> takes the last of the one answer.\<close>

definition lt_get ::
  "'j lt_lib \<Rightarrow> 'j event_store \<Rightarrow> ulid \<Rightarrow> (string, 'j lt_entry option) result option" where
  "lt_get lib s i =
     map_option (\<lambda>r. rbind r (\<lambda>results. Inr (if results = [] then None else Some (last results))))
       (lt_retrieve lib s (lq_default\<lparr>lq_ids := Some [lt_show_ulid lib i], lq_limit := 1\<rparr>))"

definition lt_update ::
  "'j lt_lib \<Rightarrow> host \<Rightarrow> ulid \<Rightarrow> 'j \<Rightarrow> 'j event_store \<Rightarrow> ((string, unit) result \<times> 'j event_store \<times> host) option" where
  "lt_update lib h i content s =
     map_option (\<lambda>r.
       case rbind r (ok_or (''LTM entry '' @ lt_show_ulid lib i @ '' not found'')) of
         Inl e \<Rightarrow> (Inl e, s, h)
       | Inr entry \<Rightarrow>
           (let (now, h1) = now_utc h;
                updated = entry\<lparr>lt_content := content, lt_last_accessed_at := now\<rparr>
            in case lt_to_value lib updated of
                 Inl e \<Rightarrow> (Inl e, s, h1)
               | Inr data \<Rightarrow> append_new h1 (lt_show_ulid lib i) ''LongTermMemory'' ''EntryUpdated'' 2 data s))
       (lt_get lib s i)"

definition lt_forget ::
  "'j lt_lib \<Rightarrow> host \<Rightarrow> ulid \<Rightarrow> 'j event_store \<Rightarrow> (string, unit) result \<times> 'j event_store \<times> host" where
  "lt_forget lib h i s =
     append_new h (lt_show_ulid lib i) ''LongTermMemory'' ''EntryDeleted'' 3 (lt_id_json lib (lt_show_ulid lib i)) s"

definition lt_count :: "'j event_store \<Rightarrow> string \<Rightarrow> (string, u64) result" where
  "lt_count s kind = Inr (es_count s kind)"

definition lt_clear :: "'j event_store \<Rightarrow> (string, unit) result \<times> 'j event_store" where
  "lt_clear s = (let (r, s1) = es_clear s in (map_err show_event_store_error r, s1))"

section \<open>The entries behind the log\<close>

definition lt_entries :: "'j lt_lib \<Rightarrow> 'j event_store \<Rightarrow> 'j lt_entry list" where
  "lt_entries lib s =
     List.map_filter (\<lambda>ev. lt_from_value lib (ee_data ev)) (of_type ''LongTermMemory'' (es_events s))"

lemma lt_retrieve_entries:
  "es_inv s \<Longrightarrow> lt_retrieve lib s query =
     Some (Inr (lt_slice query
       (sort_key (\<lambda>e. - lt_created_at e) (filter (lt_matches query) (lt_entries lib s)))))"
  by (simp add: lt_retrieve_def mem.all_of_log lt_entries_def)

lemma append_new_log:
  assumes "es_inv s" and "append_new h a ty t v data s = (r, s', h')"
  obtains event where "ee_aggregate_id event = a" "ee_version event = v" "ee_data event = data"
    "ee_aggregate_type event = ty"
    "r = Inr () \<longleftrightarrow> v = of_nat (length (of_aggregate a (es_events s))) + 1"
    "es_inv s'" "es_events s' = (if r = Inr () then es_events s @ [event] else es_events s)"
    "r \<noteq> Inr () \<Longrightarrow> s' = s"
proof -
  obtain event h1 where ev: "envelope_new h a ty t v data = (event, h1)"
    by (cases "envelope_new h a ty t v data")
  then have f: "ee_aggregate_id event = a" "ee_version event = v" "ee_data event = data"
    "ee_aggregate_type event = ty"
    by (auto simp: envelope_new_def split: prod.splits)
  obtain r0 where ap: "es_append event s = (r0, s')" "r = map_err show_event_store_error r0"
    using assms(2) ev by (auto simp: append_new_def split: prod.splits)
  have r: "r = Inr () \<longleftrightarrow> r0 = Inr ()" by (simp add: ap(2) map_err_Inr_iff)
  have iff: "r = Inr () \<longleftrightarrow> v = of_nat (length (of_aggregate a (es_events s))) + 1"
    using mem.put_ok_iff [OF assms(1), of event] f ap(1) r mem.latest_log [OF assms(1)] by simp
  have inv: "es_inv s'" using mem.put_inv [OF assms(1), of event] ap(1) by simp
  have log: "es_events s' = (if r = Inr () then es_events s @ [event] else es_events s)"
    using mem.put_log [OF assms(1), of event] f ap(1) iff mem.latest_log [OF assms(1)] by simp
  have same: "s' = s" if "r \<noteq> Inr ()"
    using that mem.put_rejects [OF assms(1), of event] mem.latest_log [OF assms(1)] f ap(1) iff by simp
  show ?thesis by (rule that [OF f iff inv log same])
qed

lemma lt_append_log:
  assumes "es_inv s" and "append_new h a ''LongTermMemory'' t v data s = (r, s', h')"
  shows "r = Inr () \<longleftrightarrow> v = of_nat (length (of_aggregate a (es_events s))) + 1"
    and "es_inv s'"
    and "lt_entries lib s' = lt_entries lib s @
      (if r = Inr () then (case lt_from_value lib data of None \<Rightarrow> [] | Some e \<Rightarrow> [e]) else [])"
proof -
  obtain event where e: "ee_data event = data" "ee_aggregate_type event = ''LongTermMemory''"
    and iff: "r = Inr () \<longleftrightarrow> v = of_nat (length (of_aggregate a (es_events s))) + 1"
    and inv: "es_inv s'"
    and log: "es_events s' = (if r = Inr () then es_events s @ [event] else es_events s)"
    by (rule append_new_log [OF assms])
  show "r = Inr () \<longleftrightarrow> v = of_nat (length (of_aggregate a (es_events s))) + 1" by (rule iff)
  show "es_inv s'" by (rule inv)
  show "lt_entries lib s' = lt_entries lib s @
      (if r = Inr () then (case lt_from_value lib data of None \<Rightarrow> [] | Some e \<Rightarrow> [e]) else [])"
    using e log by (simp add: lt_entries_def map_filter_def split: option.split)
qed

lemma lt_slice_all: "length xs \<le> lq_limit q \<Longrightarrow> lq_offset q = 0 \<Longrightarrow> lt_slice q xs = xs"
  by (simp add: lt_slice_def Let_def)

lemma lt_slice_one: "lq_limit q = 1 \<Longrightarrow> lq_offset q = 0 \<Longrightarrow> lt_slice q xs = take 1 xs"
  by (cases xs) (simp_all add: lt_slice_def Let_def)

lemma lt_get_entries:
  "es_inv s \<Longrightarrow> lt_get lib s i =
     Some (Inr (case sort_key (\<lambda>e. - lt_created_at e) (filter (lt_matches lq_default) (lt_entries lib s)) of
       [] \<Rightarrow> None | e # _ \<Rightarrow> Some e))"
proof -
  let ?q = "lq_default\<lparr>lq_ids := Some [lt_show_ulid lib i], lq_limit := 1\<rparr>"
  have "lt_matches ?q = (lt_matches lq_default :: 'a lt_entry \<Rightarrow> bool)"
    by (simp add: fun_eq_iff lt_matches_def lq_default_def)
  moreover assume "es_inv s"
  ultimately show ?thesis
    by (simp add: lt_get_def lt_retrieve_entries lt_slice_one lq_default_def split: list.split)
qed

lemma sort_key_hd:
  assumes "sort_key f xs = y # ys"
  shows "y \<in> set xs \<and> (\<forall>x\<in>set xs. f y \<le> f x)"
proof -
  have "sorted (map f (y # ys))" "set xs = set (y # ys)"
    using assms by (metis sorted_sort_key, metis assms set_sort)
  then show ?thesis by auto
qed

section \<open>Properties\<close>

text \<open>
  \<open>get\<close> does not look at the identifier it is asked for: for every log it answers the most
  recently created of all stored entries, whichever identifier is given, and nothing only if
  nothing is stored.
\<close>

theorem long_term_get_answers_the_newest:
  fixes ops :: "'j es_op list" and lib :: "'j lt_lib"
  defines "s \<equiv> es_run ops es_new"
  defines "found \<equiv> set (filter (lt_matches lq_default) (lt_entries lib s))"
  shows "\<exists>answer. lt_get lib s i = Some (Inr answer) \<and> lt_get lib s j = Some (Inr answer) \<and>
    (answer = None \<longleftrightarrow> found = {}) \<and>
    (\<forall>e. answer = Some e \<longrightarrow> e \<in> found \<and> (\<forall>e'\<in>found. lt_created_at e' \<le> lt_created_at e))"
proof -
  let ?sorted = "sort_key (\<lambda>e. - lt_created_at e) (filter (lt_matches lq_default) (lt_entries lib s))"
  define answer where "answer = (case ?sorted of [] \<Rightarrow> None | e # _ \<Rightarrow> Some e)"
  have inv: "es_inv s" by (simp add: s_def es_run_inv)
  have found: "found = set ?sorted" by (simp add: found_def)
  have "lt_get lib s k = Some (Inr answer)" for k
    by (simp add: lt_get_entries [OF inv] answer_def)
  moreover have "answer = None \<longleftrightarrow> found = {}"
    unfolding found answer_def by (cases ?sorted) simp_all
  moreover have "e \<in> found \<and> (\<forall>e'\<in>found. lt_created_at e' \<le> lt_created_at e)" if "answer = Some e" for e
  proof -
    from that obtain ys where "?sorted = e # ys" by (cases ?sorted) (simp_all add: answer_def)
    from sort_key_hd [OF this] show ?thesis by (auto simp: found_def)
  qed
  ultimately show ?thesis by blast
qed

text \<open>
  C24. What is stored is found. A store is accepted exactly if nothing was written under the
  identifier before; then every query that admits the entry's kind and confidence and has
  room for all entries returns it, together with all it returned before.
\<close>

theorem stored_entry_is_retrieved:
  fixes ops :: "'j es_op list" and lib :: "'j lt_lib"
  defines "s \<equiv> es_run ops es_new"
  assumes law: "lt_to_value lib e = Inr data" "lt_from_value lib data = Some e"
    and store: "lt_store lib h e s = (r, s', h')"
    and query: "lt_matches q e" "lq_offset q = 0" "length (lt_entries lib s) < lq_limit q"
  shows "(r = Inr (lt_id e) \<longleftrightarrow> of_aggregate (lt_show_ulid lib (lt_id e)) (es_events s) = [] \<or>
      2 ^ 64 dvd length (of_aggregate (lt_show_ulid lib (lt_id e)) (es_events s))) \<and>
    (r = Inr (lt_id e) \<longrightarrow> (\<exists>before after.
      lt_retrieve lib s q = Some (Inr before) \<and> lt_retrieve lib s' q = Some (Inr after) \<and>
      set after = insert e (set before)))"
proof -
  have inv: "es_inv s" by (simp add: s_def es_run_inv)
  obtain r0 where ap: "append_new h (lt_show_ulid lib (lt_id e)) ''LongTermMemory'' ''EntryStored'' 1 data s = (r0, s', h')"
    and r: "r = rbind r0 (\<lambda>_. Inr (lt_id e))"
    using store law(1) by (auto simp: lt_store_def split: prod.splits)
  note log = lt_append_log [OF inv ap]
  have ok: "r = Inr (lt_id e) \<longleftrightarrow> r0 = Inr ()" by (cases r0) (simp_all add: r)
  have zero: "(1 :: u64) = of_nat n + 1 \<longleftrightarrow> n = 0 \<or> 2 ^ 64 dvd n" for n
    by (auto simp: word_of_nat_eq_0_iff)
  have "\<exists>before after. lt_retrieve lib s q = Some (Inr before) \<and> lt_retrieve lib s' q = Some (Inr after) \<and>
      set after = insert e (set before)" if "r0 = Inr ()"
  proof -
    have new: "lt_entries lib s' = lt_entries lib s @ [e]" using log(3) that law(2) by simp
    have len: "length (filter (lt_matches q) (lt_entries lib s')) \<le> lq_limit q"
      using query(3) length_filter_le [of "lt_matches q" "lt_entries lib s'"] by (simp add: new)
    then have len0: "length (filter (lt_matches q) (lt_entries lib s)) \<le> lq_limit q"
      by (simp add: new)
    show ?thesis
      unfolding lt_retrieve_entries [OF inv] lt_retrieve_entries [OF log(2)]
      using query len len0 by (simp add: lt_slice_all new)
  qed
  then show ?thesis using ok log(1) zero by auto
qed

text \<open>
  Forgetting forgets nothing. \<open>update\<close> and \<open>forget\<close> always write the versions 2 and 3, so a
  stored entry cannot be forgotten before it was updated, and only once updated; and a
  forgotten entry is still there: every query answers what it answered before.
\<close>

theorem forget_keeps_the_entry:
  fixes ops :: "'j es_op list" and lib :: "'j lt_lib"
  defines "s \<equiv> es_run ops es_new"
  assumes deleted: "lt_from_value lib (lt_id_json lib (lt_show_ulid lib i)) = None"
    and forget: "lt_forget lib h i s = (r, s', h')"
  shows "(r = Inr () \<longleftrightarrow> of_nat (length (of_aggregate (lt_show_ulid lib i) (es_events s))) = (2 :: u64)) \<and>
    lt_retrieve lib s' q = lt_retrieve lib s q"
proof -
  have inv: "es_inv s" by (simp add: s_def es_run_inv)
  note log = lt_append_log [OF inv forget [unfolded lt_forget_def]]
  have "lt_entries lib s' = lt_entries lib s" using log(3) [of lib] deleted by simp
  then have "lt_retrieve lib s' q = lt_retrieve lib s q"
    by (simp add: lt_retrieve_entries [OF inv] lt_retrieve_entries [OF log(2)])
  moreover have three: "(3 :: u64) = x + 1 \<longleftrightarrow> x = 2" for x :: u64
    by (metis add_right_cancel numeral_plus_one semiring_norm(5))
  ultimately show ?thesis
    using log(1) three [of "of_nat (length (of_aggregate (lt_show_ulid lib i) (es_events s)))"] by blast
qed

definition sample_entry :: "nat lt_entry" where
  "sample_entry = \<lparr>lt_id = 7, lt_kind = ''note'', lt_content = 1, lt_source_ids = [], lt_confidence = f64_one,
     lt_created_at = 3, lt_last_accessed_at = 3, lt_access_count = 0, lt_ttl = None\<rparr>"

text \<open>A serialiser that knows one entry: it is written as 5, and everything but 5 is refused.\<close>

definition sample_lib :: "nat lt_lib" where
  "sample_lib = \<lparr>lt_to_value = (\<lambda>_. Inr 5), lt_from_value = (\<lambda>j. if j = 5 then Some sample_entry else None),
     lt_show_ulid = (\<lambda>i. if i = 7 then ''seven'' else ''other''), lt_id_json = (\<lambda>_. 0)\<rparr>"

definition quiet_host :: host where
  "quiet_host = \<lparr>clock = (\<lambda>_. 9), millis = (\<lambda>_. 0), ulids = (\<lambda>_. 1), calls = 0\<rparr>"

theorem stored_entry_is_retrieved_witness:
  "fst (lt_store sample_lib quiet_host sample_entry es_new) = Inr 7 \<and>
   (\<exists>after. lt_retrieve sample_lib (fst (snd (lt_store sample_lib quiet_host sample_entry es_new))) lq_default
      = Some (Inr after) \<and> sample_entry \<in> set after)"
proof -
  obtain r s' h' where st: "lt_store sample_lib quiet_host sample_entry (es_run [] es_new) = (r, s', h')"
    by (cases "lt_store sample_lib quiet_host sample_entry (es_run [] es_new)")
  have "lt_matches lq_default sample_entry"
    by (simp add: lt_matches_def f64_ge_def f64_is_nan_def f64_key_def sample_entry_def lq_default_def
        admits_def f64_one_def)
  moreover have "lt_to_value sample_lib sample_entry = Inr 5" "lt_from_value sample_lib 5 = Some sample_entry"
    by (simp_all add: sample_lib_def)
  moreover have "lq_offset lq_default = 0" "length (lt_entries sample_lib (es_run [] es_new)) < lq_limit lq_default"
    by (simp_all add: lq_default_def lt_entries_def es_run_def es_new_def)
  moreover have "of_aggregate x (es_events (es_run [] es_new)) = []" for x
    by (simp add: es_run_def es_new_def)
  moreover have "lt_id sample_entry = 7" by (simp add: sample_entry_def)
  ultimately have "r = Inr 7 \<and> (\<exists>before after. lt_retrieve sample_lib s' lq_default = Some (Inr after) \<and>
      set after = insert sample_entry (set before))"
    using stored_entry_is_retrieved [of sample_lib sample_entry 5 quiet_host "[]" r s' h' lq_default] st
    by (simp only: simp_thms list.size) blast
  with st show ?thesis by (auto simp: es_run_def)
qed

definition stored_event :: "u64 \<Rightarrow> nat event_envelope" where
  "stored_event v = \<lparr>ee_id = 1, ee_aggregate_id = ''seven'', ee_aggregate_type = ''LongTermMemory'',
     ee_event_type = ''EntryStored'', ee_version = v, ee_data = 5, ee_metadata = Map.empty, ee_timestamp = 9\<rparr>"

theorem forget_keeps_the_entry_witness:
  "fst (lt_forget sample_lib quiet_host 7 (es_run [Append (stored_event 1), Append (stored_event 2)] es_new)) = Inr ()"
proof -
  let ?s = "es_run [Append (stored_event 1), Append (stored_event 2)] es_new"
  obtain r s' h' where f: "lt_forget sample_lib quiet_host 7 ?s = (r, s', h')"
    by (cases "lt_forget sample_lib quiet_host 7 ?s")
  have "of_aggregate ''seven'' (es_events ?s) = [stored_event 1, stored_event 2]"
    by (simp add: es_run_log log_run_def log_append_def stored_event_def)
  then have "r = Inr ()"
    using forget_keeps_the_entry [OF _ f] by (simp add: sample_lib_def)
  with f show ?thesis by simp
qed

theorem long_term_get_answers_the_newest_witness:
  "lt_get sample_lib (es_run [Append (stored_event 1)] es_new) 7 =
   lt_get sample_lib (es_run [Append (stored_event 1)] es_new) 8"
  using long_term_get_answers_the_newest [of sample_lib "[Append (stored_event 1)]" 7 8] by auto

end
