(* ===== verification/Kernel_Services.thy ===== *)
theory Kernel_Services
  imports Prelude Drivers Long_Term_Memory
begin

text \<open>
  The registries of \<^verbatim>\<open>src/crates/core/src\<close>: \<open>error.rs\<close>, \<open>id.rs\<close>, \<open>policy.rs\<close>, \<open>plugin.rs\<close>, \<open>security.rs\<close>,
  \<open>processor.rs\<close> and \<open>agent.rs\<close>. A hash table is an association list, whose order stands for the order in
  which it is walked. Plugins, processors and agents are trait objects: their methods are fields of a
  record and may read and change the world \<open>'w\<close>, in which the kernel and their own state lie. Four of the
  registries give the contract \<open>keyed_registry\<close>.
\<close>

section \<open>Errors and identifiers\<close>

datatype core_error = ConfigError string | InfraError string | SerializationError string | AgentError string

fun show_core_error :: "core_error \<Rightarrow> string" where
  "show_core_error (ConfigError m) = ''configuration error: '' @ m"
| "show_core_error (InfraError m) = ''infrastructure error: '' @ m"
| "show_core_error (SerializationError m) = ''serialization error: '' @ m"
| "show_core_error (AgentError m) = ''agent error: '' @ m"

definition core_of_event_store_error :: "event_store_error \<Rightarrow> core_error" where
  "core_of_event_store_error e = InfraError (show_event_store_error e)"

definition core_of_driver_error :: "driver_error \<Rightarrow> core_error" where
  "core_of_driver_error e = InfraError (show_driver_error e)"

text \<open>The identifier types are one macro; reading a ULID is the argument \<open>parse\<close>.\<close>

definition id_generate :: "host \<Rightarrow> ulid \<times> host" where
  "id_generate h = ulid_new h"

definition id_from_str :: "(string \<Rightarrow> ('e, ulid) result) \<Rightarrow> string \<Rightarrow> ulid option" where
  "id_from_str parse s = (case parse s of Inl e \<Rightarrow> None | Inr u \<Rightarrow> Some u)"

section \<open>The contract of the registries\<close>

datatype ('k, 'v) table_op = RegOp 'v | UnregOp 'k

fun table_run :: "('v \<Rightarrow> 's \<Rightarrow> 's) \<Rightarrow> ('k \<Rightarrow> 's \<Rightarrow> bool \<times> 's) \<Rightarrow> ('k, 'v) table_op list \<Rightarrow> 's \<Rightarrow> 's" where
  "table_run put out [] s = s"
| "table_run put out (RegOp v # xs) s = table_run put out xs (put v s)"
| "table_run put out (UnregOp k # xs) s = table_run put out xs (snd (out k s))"

text \<open>What the last operation about a key has said of it.\<close>

fun last_word :: "('v \<Rightarrow> 'k) \<Rightarrow> 'k \<Rightarrow> ('k, 'v) table_op list \<Rightarrow> 'v option \<Rightarrow> 'v option" where
  "last_word key k [] found = found"
| "last_word key k (RegOp v # xs) found = last_word key k xs (if k = key v then Some v else found)"
| "last_word key k (UnregOp j # xs) found = last_word key k xs (if k = j then None else found)"

locale keyed_registry =
  fixes key :: "'v \<Rightarrow> 'k"
    and look :: "'k \<Rightarrow> 's \<Rightarrow> 'v option"
    and put :: "'v \<Rightarrow> 's \<Rightarrow> 's"
    and out :: "'k \<Rightarrow> 's \<Rightarrow> bool \<times> 's"
    and new :: 's
  assumes look_new: "look k new = None"
    and look_put: "look k (put v s) = (if k = key v then Some v else look k s)"
    and look_out: "look k (snd (out j s)) = (if k = j then None else look k s)"
    and out_found: "fst (out j s) \<longleftrightarrow> look j s \<noteq> None"
begin

lemma look_run: "look k (table_run put out xs s) = last_word key k xs (look k s)"
proof (induction xs arbitrary: s)
  case (Cons x xs)
  then show ?case by (cases x) (simp_all add: look_put look_out)
qed simp

lemma look_history: "look k (table_run put out xs new) = last_word key k xs None"
  by (simp add: look_run look_new)

lemma out_once: "\<not> fst (out k (snd (out k s)))"
  by (simp add: out_found look_out)

end

section \<open>Policies\<close>

datatype policy_decision = Allow | Deny

record policy =
  pl_id :: ulid
  pl_name :: string
  pl_action :: string
  pl_resource :: string
  pl_effect :: policy_decision

type_synonym policy_table = "(ulid \<times> policy) list"

definition policies_new :: policy_table where
  "policies_new = []"

definition allow_all_evaluate :: "string \<Rightarrow> string \<Rightarrow> policy_table \<Rightarrow> policy_decision" where
  "allow_all_evaluate action resource m = Allow"

definition deny_all_evaluate :: "string \<Rightarrow> string \<Rightarrow> policy_table \<Rightarrow> policy_decision" where
  "deny_all_evaluate action resource m = Deny"

definition policy_register :: "policy \<Rightarrow> policy_table \<Rightarrow> ulid \<times> policy_table" where
  "policy_register p m = (pl_id p, AList.update (pl_id p) p m)"

definition policy_remove :: "ulid \<Rightarrow> policy_table \<Rightarrow> bool \<times> policy_table" where
  "policy_remove i m = (map_of m i \<noteq> None, AList.delete i m)"

definition policy_list :: "policy_table \<Rightarrow> policy list" where
  "policy_list m = map snd m"

interpretation policies: keyed_registry pl_id "\<lambda>i m. map_of m i" "\<lambda>p m. snd (policy_register p m)" policy_remove policies_new
  by unfold_locales (simp_all add: policies_new_def policy_register_def policy_remove_def update_conv' delete_conv')

section \<open>Plugins\<close>

record plugin_descriptor =
  pd_id :: ulid
  pd_name :: string
  pd_version :: string
  pd_description :: string
  pd_capabilities :: "string list"

record 'w plugin =
  pg_descriptor :: plugin_descriptor
  pg_start :: "'w \<Rightarrow> (string, unit) result \<times> 'w"
  pg_stop :: "'w \<Rightarrow> (string, unit) result \<times> 'w"

text \<open>The descriptor is read once, when the plugin is registered.\<close>

record 'w plugin_entry =
  pe_plugin :: "'w plugin"
  pe_descriptor :: plugin_descriptor

type_synonym 'w plugin_table = "(ulid \<times> 'w plugin_entry) list"

definition plugins_new :: "'w plugin_table" where
  "plugins_new = []"

definition entry_of_plugin :: "'w plugin \<Rightarrow> 'w plugin_entry" where
  "entry_of_plugin p = \<lparr>pe_plugin = p, pe_descriptor = pg_descriptor p\<rparr>"

definition plugin_register :: "'w plugin \<Rightarrow> 'w plugin_table \<Rightarrow> ulid \<times> 'w plugin_table" where
  "plugin_register p m = (let desc = pg_descriptor p in (pd_id desc, AList.update (pd_id desc) (entry_of_plugin p) m))"

definition plugin_unregister :: "ulid \<Rightarrow> 'w plugin_table \<Rightarrow> bool \<times> 'w plugin_table" where
  "plugin_unregister i m = (map_of m i \<noteq> None, AList.delete i m)"

definition plugin_get :: "ulid \<Rightarrow> 'w plugin_table \<Rightarrow> plugin_descriptor option" where
  "plugin_get i m = map_option pe_descriptor (map_of m i)"

definition plugin_list :: "'w plugin_table \<Rightarrow> plugin_descriptor list" where
  "plugin_list m = map (pe_descriptor \<circ> snd) m"

fun filter_world :: "('a \<Rightarrow> 'w \<Rightarrow> bool \<times> 'w) \<Rightarrow> 'a list \<Rightarrow> 'w \<Rightarrow> 'a list \<times> 'w" where
  "filter_world p [] w = ([], w)"
| "filter_world p (x # xs) w =
     (let (keep, w1) = p x w; (ys, w2) = filter_world p xs w1 in (if keep then x # ys else ys, w2))"

definition call_plugin ::
  "('w plugin \<Rightarrow> 'w \<Rightarrow> (string, unit) result \<times> 'w) \<Rightarrow> 'w plugin_table \<Rightarrow> ulid \<Rightarrow> 'w \<Rightarrow> bool \<times> 'w" where
  "call_plugin f m i w =
     (case map_of m i of None \<Rightarrow> (False, w) | Some e \<Rightarrow> (let (r, w') = f (pe_plugin e) w in (r = Inr (), w')))"

definition start_all :: "'w plugin_table \<Rightarrow> 'w \<Rightarrow> ulid list \<times> 'w" where
  "start_all m w = filter_world (call_plugin pg_start m) (map (pd_id \<circ> pe_descriptor \<circ> snd) m) w"

definition stop_all :: "'w plugin_table \<Rightarrow> 'w \<Rightarrow> ulid list \<times> 'w" where
  "stop_all m w = filter_world (call_plugin pg_stop m) (map (pd_id \<circ> pe_descriptor \<circ> snd) m) w"

interpretation plugins: keyed_registry "pd_id \<circ> pg_descriptor" "\<lambda>i m. map_option pe_plugin (map_of m i)"
  "\<lambda>p m. snd (plugin_register p m)" plugin_unregister plugins_new
  by unfold_locales
    (simp_all add: plugins_new_def plugin_register_def plugin_unregister_def entry_of_plugin_def update_conv' delete_conv' Let_def)

section \<open>Identities\<close>

record identity =
  id_id :: ulid
  id_public_key :: "u8 list"
  id_label :: string
  id_created_at :: i64

type_synonym identity_table = "(ulid \<times> identity) list"

definition identities_new :: identity_table where
  "identities_new = []"

text \<open>The hasher of the standard library is the argument \<open>hasher\<close>.\<close>

definition le_bytes :: "u64 \<Rightarrow> u8 list" where
  "le_bytes x = map (\<lambda>i. ucast (drop_bit (8 * i) x)) [0..<8]"

definition security_hash :: "(u8 list \<Rightarrow> u64) \<Rightarrow> u8 list \<Rightarrow> u8 list" where
  "security_hash hasher bs = le_bytes (hasher bs)"

definition generate_identity :: "host \<Rightarrow> string \<Rightarrow> identity_table \<Rightarrow> identity \<times> identity_table \<times> host" where
  "generate_identity h label m =
     (let (i, h1) = ulid_new h; (now, h2) = now_millis h1;
          idy = \<lparr>id_id = i, id_public_key = replicate 32 0, id_label = label, id_created_at = now\<rparr>
      in (idy, AList.update i idy m, h2))"

definition register_identity :: "identity \<Rightarrow> identity_table \<Rightarrow> bool \<times> identity_table" where
  "register_identity idy m = (map_of m (id_id idy) = None, AList.update (id_id idy) idy m)"

definition resolve_identity :: "ulid \<Rightarrow> identity_table \<Rightarrow> identity option" where
  "resolve_identity i m = map_of m i"

definition security_verify :: "(u8 list \<Rightarrow> u64) \<Rightarrow> u8 list \<Rightarrow> u8 list \<Rightarrow> u8 list \<Rightarrow> bool" where
  "security_verify hasher bs signature public_key \<longleftrightarrow> signature = le_bytes (hasher bs)"

interpretation identities: keyed_registry id_id resolve_identity "\<lambda>idy m. snd (register_identity idy m)"
  "\<lambda>i m. (map_of m i \<noteq> None, AList.delete i m)" identities_new
  by unfold_locales (simp_all add: identities_new_def register_identity_def resolve_identity_def update_conv' delete_conv')

text \<open>The signature of a text is its hash: it needs no key, and no key refuses it.\<close>

lemma anyone_signs: "security_verify hasher bs (security_hash hasher bs) public_key"
  by (simp add: security_verify_def security_hash_def)

section \<open>Processors\<close>

datatype processor_error =
    UnsupportedContent string
  | ProcessingFailed string
  | InvalidInput string
  | NotImplemented string

fun show_processor_error :: "processor_error \<Rightarrow> string" where
  "show_processor_error (UnsupportedContent m) = ''unsupported content type: '' @ m"
| "show_processor_error (ProcessingFailed m) = ''processing failed: '' @ m"
| "show_processor_error (InvalidInput m) = ''invalid input: '' @ m"
| "show_processor_error (NotImplemented m) = ''not implemented: '' @ m"

record derived_artifact =
  da_kind :: string
  da_data :: "u8 list"
  da_content_type :: string
  da_metadata :: metadata

record processed_observation =
  po_id :: string
  po_kind :: string
  po_data :: "u8 list"
  po_content_type :: string
  po_metadata :: metadata
  po_derived :: "derived_artifact list"

definition processed_new :: "string \<Rightarrow> string \<Rightarrow> u8 list \<Rightarrow> string \<Rightarrow> processed_observation" where
  "processed_new i kind bs content_type =
     \<lparr>po_id = i, po_kind = kind, po_data = bs, po_content_type = content_type, po_metadata = Map.empty, po_derived = []\<rparr>"

definition po_with_metadata :: "string \<Rightarrow> string \<Rightarrow> processed_observation \<Rightarrow> processed_observation" where
  "po_with_metadata k v ob = ob\<lparr>po_metadata := (po_metadata ob)(k \<mapsto> v)\<rparr>"

definition add_derived :: "derived_artifact \<Rightarrow> processed_observation \<Rightarrow> processed_observation" where
  "add_derived a ob = ob\<lparr>po_derived := po_derived ob @ [a]\<rparr>"

record 'w processor =
  pr_name :: string
  pr_description :: string
  pr_content_types :: "string list"
  pr_process :: "string \<Rightarrow> u8 list \<Rightarrow> string option \<Rightarrow> metadata \<Rightarrow> 'w
    \<Rightarrow> (processor_error, processed_observation list) result \<times> 'w"

type_synonym 'w processor_table = "(string \<times> 'w processor) list"

definition processors_new :: "'w processor_table" where
  "processors_new = []"

definition processor_register :: "'w processor \<Rightarrow> 'w processor_table \<Rightarrow> (processor_error, unit) result \<times> 'w processor_table" where
  "processor_register p m = (Inr (), AList.update (pr_name p) p m)"

definition processor_unregister :: "string \<Rightarrow> 'w processor_table \<Rightarrow> (processor_error, unit) result \<times> 'w processor_table" where
  "processor_unregister name m =
     (case map_of m name of
        None \<Rightarrow> (Inl (ProcessingFailed (''processor not found: '' @ name)), m)
      | Some p \<Rightarrow> (Inr (), AList.delete name m))"

definition processor_get :: "string \<Rightarrow> 'w processor_table \<Rightarrow> 'w processor option" where
  "processor_get name m = map_of m name"

definition accepts :: "string \<Rightarrow> 'w processor \<Rightarrow> bool" where
  "accepts content_type p \<longleftrightarrow> list_ex (\<lambda>ct. prefix ct content_type) (pr_content_types p)"

definition processors_for :: "string \<Rightarrow> 'w processor_table \<Rightarrow> 'w processor list" where
  "processors_for content_type m = filter (accepts content_type) (map snd m)"

definition processor_list :: "'w processor_table \<Rightarrow> string list" where
  "processor_list m = map fst m"

definition takes_part :: "string option \<Rightarrow> 'w processor \<Rightarrow> bool" where
  "takes_part content_type p = (case content_type of None \<Rightarrow> True | Some ct \<Rightarrow> accepts ct p)"

fun process_each ::
  "string \<Rightarrow> u8 list \<Rightarrow> string option \<Rightarrow> metadata \<Rightarrow> 'w processor list \<Rightarrow> 'w \<Rightarrow> processed_observation list \<times> 'w" where
  "process_each i bs ct md [] w = ([], w)"
| "process_each i bs ct md (p # ps) w =
     (if takes_part ct p then
        (let (r, w1) = pr_process p i bs ct md w; (obs, w2) = process_each i bs ct md ps w1
         in (case r of Inr found \<Rightarrow> (found @ obs, w2) | Inl e \<Rightarrow> (obs, w2)))
      else process_each i bs ct md ps w)"

definition registry_process ::
  "string \<Rightarrow> u8 list \<Rightarrow> string option \<Rightarrow> metadata \<Rightarrow> 'w processor_table \<Rightarrow> 'w \<Rightarrow> processed_observation list \<times> 'w" where
  "registry_process i bs ct md m w = process_each i bs ct md (map snd m) w"

interpretation processors: keyed_registry pr_name processor_get "\<lambda>p m. snd (processor_register p m)"
  "\<lambda>name m. (let (r, m') = processor_unregister name m in (r = Inr (), m'))" processors_new
  by unfold_locales
    (simp_all add: processors_new_def processor_register_def processor_unregister_def processor_get_def update_conv' delete_conv'
      split: option.split)

text \<open>The answer is that of the accepting processors alone; with a content type these are \<open>processors_for\<close>.\<close>

lemma process_each_filter: "process_each i bs ct md ps w = process_each i bs ct md (filter (takes_part ct) ps) w"
  by (induction ps arbitrary: w) (auto simp: Let_def split: prod.split)

lemma takes_part_some: "takes_part (Some ct) = accepts ct"
  by (rule ext) (simp add: takes_part_def)

lemma process_as_found:
  "registry_process i bs (Some ct) md m w = process_each i bs (Some ct) md (processors_for ct m) w"
  unfolding registry_process_def processors_for_def
  by (subst process_each_filter) (simp only: takes_part_some)

section \<open>Agents\<close>

datatype agent_status = AgentIdle | AgentRunning | AgentBusy | AgentFailed string | AgentStopped

record agent_manifest =
  am_id :: ulid
  am_name :: string
  am_kind :: string
  am_version :: string
  am_description :: string
  am_status :: agent_status

record ('w, 'j) agent =
  ag_manifest :: "'w \<Rightarrow> agent_manifest"
  ag_init :: "'w \<Rightarrow> (core_error, unit) result \<times> 'w"
  ag_start :: "'w \<Rightarrow> (core_error, unit) result \<times> 'w"
  ag_tick :: "'w \<Rightarrow> (core_error, unit) result \<times> 'w"
  ag_stop :: "'w \<Rightarrow> (core_error, unit) result \<times> 'w"
  ag_handle_event :: "'j event_envelope \<Rightarrow> 'w \<Rightarrow> (core_error, unit) result \<times> 'w"

text \<open>The methods that an agent need not write.\<close>

definition default_hook :: "'w \<Rightarrow> (core_error, unit) result \<times> 'w" where
  "default_hook w = (Inr (), w)"

definition default_handle_event :: "'j event_envelope \<Rightarrow> 'w \<Rightarrow> (core_error, unit) result \<times> 'w" where
  "default_handle_event event w = (Inr (), w)"

type_synonym ('w, 'j) agent_table = "(ulid \<times> ('w, 'j) agent) list"

definition agents_new :: "('w, 'j) agent_table" where
  "agents_new = []"

definition in_quotes :: "string \<Rightarrow> string" where
  "in_quotes s = [CHR 0x27] @ s @ [CHR 0x27]"

definition agent_register ::
  "('w, 'j) agent \<Rightarrow> 'w \<Rightarrow> ('w, 'j) agent_table \<Rightarrow> (core_error, unit) result \<times> ('w, 'j) agent_table" where
  "agent_register a w m =
     (let manifest = ag_manifest a w; i = am_id manifest
      in if map_of m i \<noteq> None then (Inl (AgentError (''agent '' @ in_quotes (am_name manifest) @ '' already registered'')), m)
         else (Inr (), AList.update i a m))"

definition not_found :: "(ulid \<Rightarrow> string) \<Rightarrow> ulid \<Rightarrow> core_error" where
  "not_found show_id i = AgentError (''agent '' @ in_quotes (show_id i) @ '' not found'')"

definition agent_unregister ::
  "(ulid \<Rightarrow> string) \<Rightarrow> ulid \<Rightarrow> ('w, 'j) agent_table \<Rightarrow> (core_error, unit) result \<times> ('w, 'j) agent_table" where
  "agent_unregister show_id i m =
     (case map_of m i of None \<Rightarrow> (Inl (not_found show_id i), m) | Some a \<Rightarrow> (Inr (), AList.delete i m))"

definition start_agent ::
  "(ulid \<Rightarrow> string) \<Rightarrow> ulid \<Rightarrow> ('w, 'j) agent_table \<Rightarrow> 'w \<Rightarrow> (core_error, unit) result \<times> 'w" where
  "start_agent show_id i m w = (case map_of m i of Some a \<Rightarrow> ag_start a w | None \<Rightarrow> (Inl (not_found show_id i), w))"

definition stop_agent ::
  "(ulid \<Rightarrow> string) \<Rightarrow> ulid \<Rightarrow> ('w, 'j) agent_table \<Rightarrow> 'w \<Rightarrow> (core_error, unit) result \<times> 'w" where
  "stop_agent show_id i m w = (case map_of m i of Some a \<Rightarrow> ag_stop a w | None \<Rightarrow> (Inl (not_found show_id i), w))"

definition agent_get :: "ulid \<Rightarrow> ('w, 'j) agent_table \<Rightarrow> ('w, 'j) agent option" where
  "agent_get i m = map_of m i"

definition agent_list :: "'w \<Rightarrow> ('w, 'j) agent_table \<Rightarrow> agent_manifest list" where
  "agent_list w m = map (\<lambda>(_, a). ag_manifest a w) m"

definition agent_status_of :: "'w \<Rightarrow> ulid \<Rightarrow> ('w, 'j) agent_table \<Rightarrow> agent_status option" where
  "agent_status_of w i m = map_option (\<lambda>a. am_status (ag_manifest a w)) (map_of m i)"

text \<open>The loop with \<open>?\<close>: the first error ends it.\<close>

fun try_each :: "('a \<Rightarrow> 'w \<Rightarrow> ('e, unit) result \<times> 'w) \<Rightarrow> 'a list \<Rightarrow> 'w \<Rightarrow> ('e, unit) result \<times> 'w" where
  "try_each f [] w = (Inr (), w)"
| "try_each f (x # xs) w = (case f x w of (Inl e, w') \<Rightarrow> (Inl e, w') | (Inr u, w') \<Rightarrow> try_each f xs w')"

definition tick_all :: "('w, 'j) agent_table \<Rightarrow> 'w \<Rightarrow> (core_error, unit) result \<times> 'w" where
  "tick_all m w = try_each ag_tick (map snd m) w"

definition dispatch_event :: "('w, 'j) agent_table \<Rightarrow> 'j event_envelope \<Rightarrow> 'w \<Rightarrow> (core_error, unit) result \<times> 'w" where
  "dispatch_event m event w = try_each (\<lambda>a. ag_handle_event a event) (map snd m) w"

lemma try_each_append:
  "try_each f (xs @ ys) w = (case try_each f xs w of (Inl e, w') \<Rightarrow> (Inl e, w') | (Inr u, w') \<Rightarrow> try_each f ys w')"
  by (induction xs arbitrary: w) (auto split: prod.split sum.split)

text \<open>An error comes from one element, after all before it have succeeded.\<close>

lemma try_each_error:
  "try_each f xs w = (Inl e, w')
   \<longleftrightarrow> (\<exists>pre x post w1. xs = pre @ x # post \<and> try_each f pre w = (Inr (), w1) \<and> f x w1 = (Inl e, w'))" (is "?l \<longleftrightarrow> ?r")
proof
  show "?l \<Longrightarrow> ?r"
  proof (induction xs arbitrary: w)
    case (Cons x xs)
    show ?case
    proof (cases "f x w")
      case (Pair r w1)
      show ?thesis
      proof (cases r)
        case (Inl e')
        with Pair Cons.prems show ?thesis by (intro exI [of _ "[]"]) auto
      next
        case (Inr u)
        with Pair Cons.prems have "try_each f xs w1 = (Inl e, w')" by simp
        from Cons.IH [OF this] obtain pre y post w2
          where "xs = pre @ y # post" "try_each f pre w1 = (Inr (), w2)" "f y w2 = (Inl e, w')" by blast
        with Pair Inr show ?thesis by (intro exI [of _ "x # pre"] exI [of _ y] exI [of _ post] exI [of _ w2]) simp
      qed
    qed
  qed simp
  show "?r \<Longrightarrow> ?l" by (auto simp: try_each_append)
qed

lemma try_each_table:
  "try_each f (map snd m) w = (Inl e, w')
   \<longleftrightarrow> (\<exists>pre i x post w1. m = pre @ (i, x) # post \<and> try_each f (map snd pre) w = (Inr (), w1) \<and> f x w1 = (Inl e, w'))"
  unfolding try_each_error by (fastforce simp: map_eq_append_conv map_eq_Cons_conv)

text \<open>
  C40. One failing agent stops the round. A tick of all agents answers an error exactly when some agent of the table
  fails after all agents before it have succeeded, and the state is the one this agent leaves: the agents behind
  it are not ticked at all, whatever they are. The same holds for the dispatch of an event.
\<close>

theorem round_ends_at_the_first_failure:
  "(tick_all m w = (Inl e, w')
    \<longleftrightarrow> (\<exists>pre i a post w1. m = pre @ (i, a) # post \<and> tick_all pre w = (Inr (), w1) \<and> ag_tick a w1 = (Inl e, w')))
   \<and> (dispatch_event m event w = (Inl e, w')
    \<longleftrightarrow> (\<exists>pre i a post w1. m = pre @ (i, a) # post \<and> dispatch_event pre event w = (Inr (), w1)
         \<and> ag_handle_event a event w1 = (Inl e, w')))"
  unfolding tick_all_def dispatch_event_def by (intro conjI try_each_table)

definition described :: "'w plugin_table \<Rightarrow> bool" where
  "described m \<longleftrightarrow> (\<forall>i e. map_of m i = Some e \<longrightarrow> pe_descriptor e = pg_descriptor (pe_plugin e))"

lemma described_register: "described m \<Longrightarrow> described (snd (plugin_register p m))"
  by (auto simp: described_def plugin_register_def entry_of_plugin_def Let_def update_conv')

lemma described_unregister: "described m \<Longrightarrow> described (snd (plugin_unregister i m))"
  by (auto simp: described_def plugin_unregister_def delete_conv')

lemma described_run: "described m \<Longrightarrow> described (table_run (\<lambda>p m. snd (plugin_register p m)) plugin_unregister ops m)"
proof (induction ops arbitrary: m)
  case (Cons x ops)
  then show ?case
    by (cases x) (simp_all only: table_run.simps described_register described_unregister)
qed simp

lemma plugin_get_described: "described m \<Longrightarrow> plugin_get i m = map_option pg_descriptor (map_option pe_plugin (map_of m i))"
  by (cases "map_of m i") (auto simp: described_def plugin_get_def)

lemma described_new: "described plugins_new"
  by (simp add: described_def plugins_new_def)

text \<open>
  The registries of the kernel. After any history of registrations and removals a policy, a plugin or a processor is
  answered exactly as the last operation about its key has left it: the newest one registered, or none. A
  policy that is registered decides nothing: the evaluation is the same under every table.
\<close>

theorem registries_answer_the_last_registration:
  "map_of (table_run (\<lambda>p m. snd (policy_register p m)) policy_remove ops policies_new) i = last_word pl_id i ops None
   \<and> plugin_get i (table_run (\<lambda>p m. snd (plugin_register p m)) plugin_unregister plugs plugins_new)
     = map_option pg_descriptor (last_word (pd_id \<circ> pg_descriptor) i plugs None)
   \<and> processor_get name (table_run (\<lambda>p m. snd (processor_register p m))
       (\<lambda>name m. (let (r, m') = processor_unregister name m in (r = Inr (), m'))) procs processors_new)
     = last_word pr_name name procs None
   \<and> allow_all_evaluate action resource m = allow_all_evaluate action resource policies_new"
  using policies.look_history [where k = i and xs = ops] processors.look_history [where k = name and xs = procs]
    plugins.look_history [where k = i and xs = plugs]
    plugin_get_described [OF described_run [OF described_new], of i plugs]
  by (simp only: allow_all_evaluate_def)

end
