(* ===== verification/Task_Scheduler.thy ===== *)
theory Task_Scheduler
  imports Prelude
begin

text \<open>
  \<^verbatim>\<open>src/crates/core/src/scheduler.rs\<close>: the simple scheduler. One table of statuses is
  shared, under a lock, by the callers and by one thread for each task. Every critical
  section is a definition on the table; a state of the system adds the point each thread has
  reached, and a step relation interleaves callers and threads in every order.

  The sections hold the lock only around map operations, so it is never poisoned and
  \<open>lock()\<close> never fails. The body of a task is arbitrary code: it is entered, and then it
  returns or panics, which ends its thread; the calls it makes of the scheduler are calls
  like any other.
\<close>

section \<open>Statuses and critical sections\<close>

datatype task_status = TaskPending | TaskRunning | TaskCompleted | TaskFailed string | TaskCancelled

type_synonym task_table = "(ulid \<times> task_status) list"

definition sched_new :: task_table where
  "sched_new = []"

definition set_status :: "ulid \<Rightarrow> task_status \<Rightarrow> task_table \<Rightarrow> task_table" where
  "set_status i st m = AList.update i st m"

definition status_of :: "task_table \<Rightarrow> ulid \<Rightarrow> task_status option" where
  "status_of m i = map_of m i"

definition cancel_task :: "ulid \<Rightarrow> task_table \<Rightarrow> bool \<times> task_table" where
  "cancel_task i m =
     (case map_of m i of
        Some TaskPending \<Rightarrow> (True, AList.update i TaskCancelled m)
      | Some TaskRunning \<Rightarrow> (True, AList.update i TaskCancelled m)
      | _ \<Rightarrow> (False, m))"

definition running_count :: "task_table \<Rightarrow> u64" where
  "running_count m = of_nat (length (filter (\<lambda>(_, st). st = TaskRunning) m))"

text \<open>After its delay a task looks whether it was cancelled; otherwise it is running.\<close>

definition wake_section :: "ulid \<Rightarrow> task_table \<Rightarrow> bool \<times> task_table" where
  "wake_section i m =
     (if map_of m i = Some TaskCancelled then (False, m)
      else (True, AList.update i TaskRunning m))"

text \<open>After its body, in \<open>spawn\<close> and in \<open>schedule_after\<close>.\<close>

definition finish_section :: "ulid \<Rightarrow> task_table \<Rightarrow> task_table" where
  "finish_section i m =
     (if map_of m i \<noteq> Some TaskCancelled then AList.update i TaskCompleted m else m)"

lemmas section_defs =
  set_status_def cancel_task_def wake_section_def finish_section_def status_of_def

section \<open>Threads and interleaving\<close>

datatype phase = Sleeping | Ready | InBody | Returned | Finished | Panicked

record sched_sys =
  sy_table :: task_table
  sy_threads :: "(ulid \<times> phase) list"

definition sys_new :: sched_sys where
  "sys_new = \<lparr>sy_table = sched_new, sy_threads = []\<rparr>"

definition set_phase :: "nat \<Rightarrow> phase \<Rightarrow> sched_sys \<Rightarrow> sched_sys" where
  "set_phase n p s = s\<lparr>sy_threads := (sy_threads s)[n := (fst (sy_threads s ! n), p)]\<rparr>"

definition at_phase :: "sched_sys \<Rightarrow> nat \<Rightarrow> ulid \<Rightarrow> phase \<Rightarrow> bool" where
  "at_phase s n i p \<longleftrightarrow> n < length (sy_threads s) \<and> sy_threads s ! n = (i, p)"

text \<open>\<open>spawn\<close> and \<open>schedule_after\<close>: the status is written, then the thread is started.\<close>

definition spawn_task :: "ulid \<Rightarrow> sched_sys \<Rightarrow> sched_sys" where
  "spawn_task i s =
     s\<lparr>sy_table := set_status i TaskRunning (sy_table s), sy_threads := sy_threads s @ [(i, Ready)]\<rparr>"

definition schedule_after :: "ulid \<Rightarrow> sched_sys \<Rightarrow> sched_sys" where
  "schedule_after i s =
     s\<lparr>sy_table := set_status i TaskPending (sy_table s), sy_threads := sy_threads s @ [(i, Sleeping)]\<rparr>"

datatype sched_event =
    Spawn ulid | After ulid | CancelCall ulid bool
  | Wake nat | Enter nat | Return nat | Panic nat | Finish nat

inductive sched_step :: "sched_sys \<Rightarrow> sched_event \<Rightarrow> sched_sys \<Rightarrow> bool" where
  spawn: "sched_step s (Spawn i) (spawn_task i s)"
| after: "sched_step s (After i) (schedule_after i s)"
| cancel: "cancel_task i (sy_table s) = (b, m) \<Longrightarrow> sched_step s (CancelCall i b) (s\<lparr>sy_table := m\<rparr>)"
| wake: "at_phase s n i Sleeping \<Longrightarrow> wake_section i (sy_table s) = (go, m) \<Longrightarrow>
    sched_step s (Wake n) (set_phase n (if go then Ready else Finished) (s\<lparr>sy_table := m\<rparr>))"
| enter: "at_phase s n i Ready \<Longrightarrow> sched_step s (Enter n) (set_phase n InBody s)"
| return: "at_phase s n i InBody \<Longrightarrow> sched_step s (Return n) (set_phase n Returned s)"
| panic: "at_phase s n i InBody \<Longrightarrow> sched_step s (Panic n) (set_phase n Panicked s)"
| finish: "at_phase s n i Returned \<Longrightarrow>
    sched_step s (Finish n) (set_phase n Finished (s\<lparr>sy_table := finish_section i (sy_table s)\<rparr>))"

inductive sched_run :: "sched_sys \<Rightarrow> sched_event list \<Rightarrow> sched_sys \<Rightarrow> bool" where
  none: "sched_run s [] s"
| more: "sched_run s es t \<Longrightarrow> sched_step t e u \<Longrightarrow> sched_run s (es @ [e]) u"

inductive_cases sched_stepE: "sched_step s e t"

lemma set_phase_simps [simp]:
  "sy_table (set_phase n p s) = sy_table s"
  "length (sy_threads (set_phase n p s)) = length (sy_threads s)"
  "map fst (sy_threads (set_phase n p s)) = map fst (sy_threads s)"
  by (simp_all add: set_phase_def map_update)
    (metis list_update_id list_update_beyond map_update not_le nth_map)

lemma nth_set_phase:
  "m < length (sy_threads s) \<Longrightarrow>
   sy_threads (set_phase n p s) ! m = (if m = n then (fst (sy_threads s ! n), p) else sy_threads s ! m)"
  by (simp add: set_phase_def nth_list_update)

section \<open>What a status says about its thread\<close>

fun statuses_at :: "phase \<Rightarrow> task_status set" where
  "statuses_at Sleeping = {TaskPending, TaskCancelled}"
| "statuses_at Ready = {TaskRunning, TaskCancelled}"
| "statuses_at InBody = {TaskRunning, TaskCancelled}"
| "statuses_at Returned = {TaskRunning, TaskCancelled}"
| "statuses_at Finished = {TaskCompleted, TaskCancelled}"
| "statuses_at Panicked = {TaskRunning, TaskCancelled}"

lemma cancelled_at_any [simp]: "TaskCancelled \<in> statuses_at p"
  by (cases p) simp_all

definition tracks :: "sched_sys \<Rightarrow> bool" where
  "tracks s \<longleftrightarrow>
     fst ` set (sy_table s) = fst ` set (sy_threads s) \<and>
     (\<forall>(i, p)\<in>set (sy_threads s). \<exists>st\<in>statuses_at p. map_of (sy_table s) i = Some st)"

definition distinct_tasks :: "sched_sys \<Rightarrow> bool" where
  "distinct_tasks s \<longleftrightarrow> distinct (map fst (sy_threads s))"

lemma keys_update_same: "map_of m i = Some x \<Longrightarrow> fst ` set (AList.update i st m) = fst ` set m"
  by (force simp: keys_update dest: map_of_SomeD)

lemma map_of_cancel:
  "cancel_task i m = (b, m') \<Longrightarrow>
   b = (map_of m i = Some TaskPending \<or> map_of m i = Some TaskRunning) \<and>
   map_of m' = (if b then (map_of m)(i \<mapsto> TaskCancelled) else map_of m) \<and>
   fst ` set m' = fst ` set m"
proof (cases "map_of m i = Some TaskPending \<or> map_of m i = Some TaskRunning")
  case True
  assume "cancel_task i m = (b, m')"
  with True have "b" "m' = AList.update i TaskCancelled m" by (auto simp: cancel_task_def)
  with True show ?thesis by (elim disjE) (simp_all add: keys_update_same)
next
  case False
  then have "cancel_task i m = (False, m)"
    by (auto simp: cancel_task_def split: option.splits task_status.splits)
  moreover assume "cancel_task i m = (b, m')"
  ultimately show ?thesis using False by simp
qed

lemma distinct_tasks_step: "sched_step s e t \<Longrightarrow> distinct_tasks t \<Longrightarrow> distinct_tasks s"
  by (erule sched_stepE) (simp_all add: distinct_tasks_def spawn_task_def schedule_after_def)

lemma at_phase_mem: "at_phase s n i p \<Longrightarrow> (i, p) \<in> set (sy_threads s)"
  by (auto simp: at_phase_def in_set_conv_nth)

lemma tracks_at: "tracks s \<Longrightarrow> at_phase s n i p \<Longrightarrow> \<exists>st\<in>statuses_at p. map_of (sy_table s) i = Some st"
  by (auto simp: tracks_def dest!: at_phase_mem)

text \<open>A thread moves on: its own status fits the new point, the others are as they were.\<close>

lemma tracks_set_phase:
  assumes "tracks s" and d: "distinct_tasks s" and a: "at_phase s n i p"
    and st: "st \<in> statuses_at p'" "map_of m i = Some st"
    and others: "\<And>j. j \<noteq> i \<Longrightarrow> map_of m j = map_of (sy_table s) j"
    and keys: "fst ` set m = fst ` set (sy_table s)"
  shows "tracks (set_phase n p' (s\<lparr>sy_table := m\<rparr>))"
proof -
  let ?ts = "sy_threads s"
  have n: "n < length ?ts" "?ts ! n = (i, p)" using a by (simp_all add: at_phase_def)
  have ts: "set (?ts[n := (i, p')]) = insert (i, p') (set ?ts - {(i, p)})"
    using d n by (metis distinct_map distinct_tasks_def set_update_distinct)
  have other: "j \<noteq> i" if "(j, q) \<in> set ?ts - {(i, p)}" for j q
    using that d n nth_mem [OF n(1)] eq_key_imp_eq_value [of ?ts i p q]
    by (auto simp: distinct_tasks_def)
  have "\<exists>st\<in>statuses_at q. map_of m j = Some st" if q: "(j, q) \<in> set (?ts[n := (i, p')])" for j q
  proof (cases "(j, q) = (i, p')")
    case True
    with st show ?thesis by auto
  next
    case False
    with q have mem: "(j, q) \<in> set ?ts - {(i, p)}" unfolding ts by blast
    then have "\<exists>st\<in>statuses_at q. map_of (sy_table s) j = Some st"
      using assms(1) by (auto simp: tracks_def)
    then show ?thesis using others [OF other [OF mem]] by simp
  qed
  moreover have "fst ` set (?ts[n := (i, p')]) = fst ` set ?ts"
    unfolding ts using n by (force dest: nth_mem)
  ultimately show ?thesis
    using keys assms(1) n by (auto simp: tracks_def set_phase_def)
qed

lemma tracks_new_task:
  assumes "tracks s" and "distinct (map fst (sy_threads s @ [(i, p)]))" and "st \<in> statuses_at p"
  shows "tracks (s\<lparr>sy_table := AList.update i st (sy_table s), sy_threads := sy_threads s @ [(i, p)]\<rparr>)"
  using assms by (auto simp: tracks_def keys_update rev_image_eqI)

lemma tracks_cancel:
  "tracks s \<Longrightarrow> cancel_task i (sy_table s) = (b, m) \<Longrightarrow> tracks (s\<lparr>sy_table := m\<rparr>)"
  by (drule map_of_cancel) (auto simp: tracks_def)

lemma tracks_step: "sched_step s e t \<Longrightarrow> tracks s \<Longrightarrow> distinct_tasks t \<Longrightarrow> tracks t"
proof (induction rule: sched_step.induct)
  case (wake s n i go m)
  then have d: "distinct_tasks s" by (simp add: distinct_tasks_def)
  obtain st where "st \<in> {TaskPending, TaskCancelled}" "map_of (sy_table s) i = Some st"
    using tracks_at [OF \<open>tracks s\<close> wake(1)] by auto
  then consider "go" "m = AList.update i TaskRunning (sy_table s)" "map_of (sy_table s) i = Some TaskPending"
    | "\<not> go" "m = sy_table s" "map_of (sy_table s) i = Some TaskCancelled"
    using wake(2) by (auto simp: wake_section_def)
  then show ?case
    using tracks_set_phase [OF \<open>tracks s\<close> d wake(1), of TaskRunning Ready m]
      tracks_set_phase [OF \<open>tracks s\<close> d wake(1), of TaskCancelled Finished m]
    by cases (simp_all add: keys_update_same)
next
  case (finish s n i)
  then have d: "distinct_tasks s" by (simp add: distinct_tasks_def)
  obtain st where "st \<in> {TaskRunning, TaskCancelled}" "map_of (sy_table s) i = Some st"
    using tracks_at [OF \<open>tracks s\<close> finish(1)] by auto
  then show ?case
    using tracks_set_phase [OF \<open>tracks s\<close> d finish(1), of TaskCompleted Finished
        "AList.update i TaskCompleted (sy_table s)"]
      tracks_set_phase [OF \<open>tracks s\<close> d finish(1), of TaskCancelled Finished "sy_table s"]
    by (auto simp: finish_section_def keys_update_same)
next
  case (spawn s i)
  then show ?case
    by (simp add: spawn_task_def set_status_def tracks_new_task distinct_tasks_def)
next
  case (after s i)
  then show ?case
    by (simp add: schedule_after_def set_status_def tracks_new_task distinct_tasks_def)
next
  case (cancel i s b m)
  then show ?case by (rule_tac tracks_cancel)
next
  case (enter s n i)
  then have d: "distinct_tasks s" by (simp add: distinct_tasks_def)
  show ?case using tracks_at [OF \<open>tracks s\<close> enter(1)] tracks_set_phase [OF _ d enter(1), of _ InBody "sy_table s"] enter
    by auto
next
  case (return s n i)
  then have d: "distinct_tasks s" by (simp add: distinct_tasks_def)
  show ?case using tracks_at [OF \<open>tracks s\<close> return(1)] tracks_set_phase [OF _ d return(1), of _ Returned "sy_table s"] return
    by auto
next
  case (panic s n i)
  then have d: "distinct_tasks s" by (simp add: distinct_tasks_def)
  show ?case using tracks_at [OF \<open>tracks s\<close> panic(1)] tracks_set_phase [OF _ d panic(1), of _ Panicked "sy_table s"] panic
    by auto
qed

lemma distinct_tasks_run: "sched_run s es t \<Longrightarrow> distinct_tasks t \<Longrightarrow> distinct_tasks s"
  by (induction rule: sched_run.induct) (auto dest: distinct_tasks_step)

lemma tracks_run: "sched_run s es t \<Longrightarrow> tracks s \<Longrightarrow> distinct_tasks t \<Longrightarrow> tracks t"
  by (induction rule: sched_run.induct) (auto dest: distinct_tasks_step tracks_step)

lemma tracks_new: "tracks sys_new"
  by (simp add: tracks_def sys_new_def sched_new_def)

section \<open>What stays\<close>

text \<open>No later call or thread touches a cancelled task; its thread may only end its sleep.\<close>

lemma at_set_phase [simp]:
  "at_phase (set_phase k q s) n i p \<longleftrightarrow>
   (if n = k then at_phase s n i (snd (sy_threads s ! n)) \<and> p = q else at_phase s n i p)"
  by (auto simp: at_phase_def nth_set_phase prod_eq_iff)

lemma at_phase_table [simp]: "at_phase (s\<lparr>sy_table := m\<rparr>) n i p \<longleftrightarrow> at_phase s n i p"
  by (simp add: at_phase_def)

lemma at_phase_new [simp]:
  "at_phase s n i p \<Longrightarrow> at_phase (spawn_task j s) n i p"
  "at_phase s n i p \<Longrightarrow> at_phase (schedule_after j s) n i p"
  by (simp_all add: at_phase_def spawn_task_def schedule_after_def nth_append)

lemma at_phase_same: "at_phase s n i p \<Longrightarrow> at_phase s n j q \<Longrightarrow> i = j \<and> p = q"
  by (simp add: at_phase_def)

lemma at_phase_differ: "at_phase s k j q \<Longrightarrow> at_phase s n i p \<Longrightarrow> q \<noteq> p \<Longrightarrow> k \<noteq> n"
  by (auto simp: at_phase_def)

lemma at_phase_snd [simp]: "at_phase s n i p \<Longrightarrow> at_phase s n i (snd (sy_threads s ! n))"
  by (simp add: at_phase_def)

lemma at_phase_unique:
  "distinct_tasks s \<Longrightarrow> at_phase s n i p \<Longrightarrow> at_phase s k i q \<Longrightarrow> n = k"
  unfolding distinct_tasks_def at_phase_def
  by (metis distinct_conv_nth fst_conv length_map nth_map)

lemma new_task_other:
  assumes "distinct_tasks (s\<lparr>sy_table := m, sy_threads := sy_threads s @ [(j, q)]\<rparr>)" and "at_phase s n i p"
  shows "i \<noteq> j"
  using assms at_phase_mem [OF assms(2)] by (auto simp: distinct_tasks_def rev_image_eqI)

lemma cancelled_stays:
  assumes "sched_step s e t" and "distinct_tasks t" and "at_phase s n i p"
    and "map_of (sy_table s) i = Some TaskCancelled"
  shows "map_of (sy_table t) i = Some TaskCancelled"
  using assms
proof (induction rule: sched_step.induct)
  case (spawn s j)
  then show ?case using new_task_other [OF _ spawn(2)] by (simp add: spawn_task_def set_status_def)
next
  case (after s j)
  then show ?case using new_task_other [OF _ after(2)] by (simp add: schedule_after_def set_status_def)
next
  case (cancel j s b m)
  then show ?case using map_of_cancel [OF cancel(1)] by (simp split: if_splits)
qed (auto simp: wake_section_def finish_section_def split: if_splits)

lemma cancelled_sleeper_stays:
  assumes "sched_step s e t" and "at_phase s n i p" and "p \<in> {Sleeping, Finished}"
    and "map_of (sy_table s) i = Some TaskCancelled"
  shows "e \<noteq> Enter n \<and> (\<exists>q\<in>{Sleeping, Finished}. at_phase t n i q)"
  using assms
proof (induction rule: sched_step.induct)
  case (wake s k j go m)
  show ?case
  proof (cases "k = n")
    case True
    have "j = i" "p = Sleeping" using at_phase_same [OF wake(1), of i p] wake(3) True by simp_all
    with wake(2,5) have "\<not> go" by (simp add: wake_section_def)
    with wake(3) True show ?thesis by simp
  next
    case False
    with wake(3,4) show ?thesis by auto
  qed
next
  case (enter s k j)
  then have "k \<noteq> n" using at_phase_differ [OF enter(1,2)] by auto
  with enter show ?case by auto
next
  case (return s k j)
  then have "k \<noteq> n" using at_phase_differ [OF return(1,2)] by auto
  with return show ?case by auto
next
  case (panic s k j)
  then have "k \<noteq> n" using at_phase_differ [OF panic(1,2)] by auto
  with panic show ?case by auto
next
  case (finish s k j)
  then have "k \<noteq> n" using at_phase_differ [OF finish(1,2)] by auto
  with finish show ?case by auto
qed auto

lemma cancelled_sleeper_run:
  assumes "sched_run s es t" and "distinct_tasks t" and "at_phase s n i Sleeping"
    and "map_of (sy_table s) i = Some TaskCancelled"
  shows "map_of (sy_table t) i = Some TaskCancelled \<and> Enter n \<notin> set es \<and>
    (\<exists>q\<in>{Sleeping, Finished}. at_phase t n i q)"
  using assms
proof (induction rule: sched_run.induct)
  case (none s)
  then show ?case by auto
next
  case (more s es t e u)
  have "distinct_tasks t" using distinct_tasks_step [OF more(2,4)] .
  with more obtain q where t: "map_of (sy_table t) i = Some TaskCancelled" "Enter n \<notin> set es"
    "q \<in> {Sleeping, Finished}" "at_phase t n i q" by blast
  then show ?case
    using cancelled_stays [OF more(2,4) t(4,1)] cancelled_sleeper_stays [OF more(2) t(4,3,1)] by auto
qed

lemma panicked_stays:
  assumes "sched_step s e t" and "distinct_tasks t" and "at_phase s n i Panicked"
    and "map_of (sy_table s) i = Some TaskRunning" and "e \<noteq> CancelCall i True"
  shows "at_phase t n i Panicked \<and> map_of (sy_table t) i = Some TaskRunning"
  using assms
proof (induction rule: sched_step.induct)
  case (spawn s j)
  then show ?case using new_task_other [OF _ spawn(2)]
    by (simp add: spawn_task_def set_status_def at_phase_def nth_append)
next
  case (after s j)
  then show ?case using new_task_other [OF _ after(2)]
    by (simp add: schedule_after_def set_status_def at_phase_def nth_append)
next
  case (cancel j s b m)
  then show ?case using map_of_cancel [OF cancel(1)] by (simp split: if_splits)
next
  case (wake s k j go m)
  then have d: "distinct_tasks s" by (simp add: distinct_tasks_def)
  have "k \<noteq> n" using at_phase_differ [OF wake(1,4)] by simp
  moreover have "j \<noteq> i" using at_phase_unique [OF d wake(1), of n] wake(4) \<open>k \<noteq> n\<close> by blast
  ultimately show ?case using wake by (auto simp: wake_section_def split: if_splits)
next
  case (finish s k j)
  then have d: "distinct_tasks s" by (simp add: distinct_tasks_def)
  have "k \<noteq> n" using at_phase_differ [OF finish(1,3)] by simp
  moreover have "j \<noteq> i" using at_phase_unique [OF d finish(1), of n] finish(3) \<open>k \<noteq> n\<close> by blast
  ultimately show ?case using finish by (auto simp: finish_section_def)
next
  case (enter s k j)
  then show ?case using at_phase_differ [OF enter(1,3)] by simp
next
  case (return s k j)
  then show ?case using at_phase_differ [OF return(1,3)] by simp
next
  case (panic s k j)
  then show ?case by (cases "k = n") (simp_all add: at_phase_same)
qed

lemma panicked_run:
  assumes "sched_run s es t" and "distinct_tasks t" and "at_phase s n i Panicked"
    and "map_of (sy_table s) i = Some TaskRunning" and "CancelCall i True \<notin> set es"
  shows "at_phase t n i Panicked \<and> map_of (sy_table t) i = Some TaskRunning"
  using assms
proof (induction rule: sched_run.induct)
  case (more s es t e u)
  have "distinct_tasks t" using distinct_tasks_step [OF more(2,4)] .
  with more show ?case by (auto intro!: panicked_stays [OF more(2,4), THEN conjunct1]
      panicked_stays [OF more(2,4), THEN conjunct2])
qed simp

section \<open>Steps as a function\<close>

definition move_thread ::
  "nat \<Rightarrow> phase \<Rightarrow> (ulid \<Rightarrow> sched_sys \<Rightarrow> sched_sys) \<Rightarrow> sched_sys \<Rightarrow> sched_sys option" where
  "move_thread n p f s =
     (if n < length (sy_threads s) \<and> snd (sy_threads s ! n) = p
      then Some (f (fst (sy_threads s ! n)) s) else None)"

fun sched_do :: "sched_event \<Rightarrow> sched_sys \<Rightarrow> sched_sys option" where
  "sched_do (Spawn i) s = Some (spawn_task i s)"
| "sched_do (After i) s = Some (schedule_after i s)"
| "sched_do (CancelCall i b) s =
     (case cancel_task i (sy_table s) of
        (b', m) \<Rightarrow> if b' = b then Some (s\<lparr>sy_table := m\<rparr>) else None)"
| "sched_do (Wake n) s =
     move_thread n Sleeping (\<lambda>i s. case wake_section i (sy_table s) of
       (go, m) \<Rightarrow> set_phase n (if go then Ready else Finished) (s\<lparr>sy_table := m\<rparr>)) s"
| "sched_do (Enter n) s = move_thread n Ready (\<lambda>_. set_phase n InBody) s"
| "sched_do (Return n) s = move_thread n InBody (\<lambda>_. set_phase n Returned) s"
| "sched_do (Panic n) s = move_thread n InBody (\<lambda>_. set_phase n Panicked) s"
| "sched_do (Finish n) s =
     move_thread n Returned
       (\<lambda>i s. set_phase n Finished (s\<lparr>sy_table := finish_section i (sy_table s)\<rparr>)) s"

fun sched_do_all :: "sched_event list \<Rightarrow> sched_sys \<Rightarrow> sched_sys option" where
  "sched_do_all [] s = Some s"
| "sched_do_all (e # es) s = (case sched_do e s of None \<Rightarrow> None | Some t \<Rightarrow> sched_do_all es t)"

lemma move_thread_Some:
  "move_thread n p f s = Some t \<longleftrightarrow> (\<exists>i. at_phase s n i p \<and> t = f i s)"
  by (auto simp: move_thread_def at_phase_def prod_eq_iff)

lemma sched_do_step: "sched_do e s = Some t \<longleftrightarrow> sched_step s e t"
proof
  show "sched_step s e t" if "sched_do e s = Some t"
  proof (cases e)
    case (CancelCall i b)
    then show ?thesis using that
      by (cases "cancel_task i (sy_table s)") (auto split: if_splits intro: sched_step.cancel)
  next
    case (Wake n)
    with that obtain i where a: "at_phase s n i Sleeping"
      and t: "t = (case wake_section i (sy_table s) of
        (go, m) \<Rightarrow> set_phase n (if go then Ready else Finished) (s\<lparr>sy_table := m\<rparr>))"
      by (auto simp: move_thread_Some)
    obtain go m where "wake_section i (sy_table s) = (go, m)" by (cases "wake_section i (sy_table s)")
    with Wake t sched_step.wake [OF a this] show ?thesis by simp
  qed (use that in \<open>auto simp: move_thread_Some simp del: at_set_phase intro: sched_step.intros\<close>)
  show "sched_do e s = Some t" if "sched_step s e t"
    using that by (induction rule: sched_step.induct) (auto simp: move_thread_Some)
qed

lemma sched_run_trans: "sched_run t es' u \<Longrightarrow> sched_run s es t \<Longrightarrow> sched_run s (es @ es') u"
proof (induction rule: sched_run.induct)
  case (more t es' u e v)
  then show ?case using sched_run.more [OF more(3) [OF more(4)] more(2)] by simp
qed simp

lemma sched_do_all_run: "sched_do_all es s = Some t \<Longrightarrow> sched_run s es t"
proof (induction es arbitrary: s)
  case Nil
  then show ?case by (simp add: sched_run.none)
next
  case (Cons e es)
  then obtain u where "sched_step s e u" "sched_run u es t"
    by (auto simp: sched_do_step split: option.splits)
  then show ?case using sched_run_trans sched_run.more [OF sched_run.none, of s e u] by force
qed

section \<open>Properties\<close>

text \<open>
  The table tells where each task is, in every interleaving of calls and threads, as long as
  no identifier is handed out twice: exactly the tasks that were started have a status; a
  pending task sleeps, a running one is before, in or after its body or its body panicked, a
  completed one has finished its body, and no status is ever \<open>Failed\<close>.
\<close>

theorem scheduler_status_tracks_thread:
  assumes "sched_run sys_new es s" and "distinct (map fst (sy_threads s))"
  shows "(status_of (sy_table s) i \<noteq> None \<longleftrightarrow> i \<in> fst ` set (sy_threads s)) \<and>
    (at_phase s n i p \<longrightarrow> (\<exists>st\<in>statuses_at p. status_of (sy_table s) i = Some st)) \<and>
    status_of (sy_table s) i \<noteq> Some (TaskFailed msg)"
proof -
  have t: "tracks s"
    using tracks_run [OF assms(1) tracks_new] assms(2) by (simp add: distinct_tasks_def)
  have "status_of (sy_table s) i \<noteq> Some (TaskFailed msg)"
  proof
    assume f: "status_of (sy_table s) i = Some (TaskFailed msg)"
    then have "i \<in> fst ` set (sy_threads s)"
      using t by (metis domI dom_map_of_conv_image_fst status_of_def tracks_def)
    then obtain q where "(i, q) \<in> set (sy_threads s)" by auto
    then obtain st where "st \<in> statuses_at q" "map_of (sy_table s) i = Some st"
      using t by (auto simp: tracks_def)
    with f show False by (cases q) (auto simp: status_of_def)
  qed
  moreover have "status_of (sy_table s) i \<noteq> None \<longleftrightarrow> i \<in> fst ` set (sy_threads s)"
    using t by (simp add: status_of_def tracks_def map_of_eq_None_iff)
  ultimately show ?thesis using tracks_at [OF t] by (auto simp: status_of_def)
qed

definition sample_trace :: "sched_event list" where
  "sample_trace = [After 7, Spawn 8, Enter 1, Return 1, Finish 1]"

definition sample_state :: sched_sys where
  "sample_state = \<lparr>sy_table = [(7, TaskPending), (8, TaskCompleted)],
                   sy_threads = [(7, Sleeping), (8, Finished)]\<rparr>"

lemma sample_run: "sched_run sys_new sample_trace sample_state"
proof (rule sched_do_all_run)
  show "sched_do_all sample_trace sys_new = Some sample_state" by code_simp
qed

theorem scheduler_status_tracks_thread_witness:
  "status_of (sy_table sample_state) 7 \<noteq> None \<and>
   (\<exists>st\<in>statuses_at Sleeping. status_of (sy_table sample_state) 7 = Some st) \<and>
   status_of (sy_table sample_state) 7 \<noteq> Some (TaskFailed [])"
  using scheduler_status_tracks_thread [OF sample_run, of 7 0 Sleeping "[]"]
  by (simp add: sample_state_def at_phase_def)

text \<open>
  C22. Cancelling a delayed task before its delay is over is final: \<open>cancel\<close> answers true exactly
  if it was not cancelled before, and whatever is called and whatever the threads do
  afterwards, its body is never entered and its status stays \<open>Cancelled\<close>.
\<close>

theorem cancelled_before_start_never_runs:
  assumes "sched_run sys_new es s" and "at_phase s n i Sleeping"
    and "sched_step s (CancelCall i b) t" and "sched_run t es' u"
    and "distinct (map fst (sy_threads u))"
  shows "(b \<longleftrightarrow> status_of (sy_table s) i = Some TaskPending) \<and>
    status_of (sy_table u) i = Some TaskCancelled \<and> Enter n \<notin> set es' \<and>
    (at_phase u n i Sleeping \<or> at_phase u n i Finished)"
proof -
  have du: "distinct_tasks u" using assms(5) by (simp add: distinct_tasks_def)
  then have dt: "distinct_tasks t" by (rule distinct_tasks_run [OF assms(4)])
  then have ds: "distinct_tasks s" by (rule distinct_tasks_step [OF assms(3)])
  have "tracks s" using tracks_run [OF assms(1) tracks_new ds] .
  then have st: "map_of (sy_table s) i \<in> {Some TaskPending, Some TaskCancelled}"
    using tracks_at [OF _ assms(2)] by auto
  obtain m where m: "cancel_task i (sy_table s) = (b, m)" "t = s\<lparr>sy_table := m\<rparr>"
    using assms(3) by (auto elim: sched_stepE)
  have "map_of m i = Some TaskCancelled" and b: "b \<longleftrightarrow> map_of (sy_table s) i = Some TaskPending"
    using map_of_cancel [OF m(1)] st by auto
  then show ?thesis
    using cancelled_sleeper_run [OF assms(4) du, of n i] assms(2) m(2) by (auto simp: status_of_def)
qed

definition cancelled_state :: sched_sys where
  "cancelled_state = sample_state\<lparr>sy_table := [(7, TaskCancelled), (8, TaskCompleted)]\<rparr>"

definition woken_state :: sched_sys where
  "woken_state = cancelled_state\<lparr>sy_threads := [(7, Finished), (8, Finished)]\<rparr>"

theorem cancelled_before_start_never_runs_witness:
  "status_of (sy_table woken_state) 7 = Some TaskCancelled \<and> Enter 0 \<notin> set [Wake 0]"
proof -
  have c: "sched_step sample_state (CancelCall 7 True) cancelled_state"
    unfolding sched_do_step [symmetric] by code_simp
  have "sched_run cancelled_state [Wake 0] woken_state"
    by (rule sched_do_all_run) code_simp
  from cancelled_before_start_never_runs [OF sample_run _ c this, of 0]
  show ?thesis by (simp add: sample_state_def at_phase_def woken_state_def)
qed

lemma running_count_pos:
  assumes "map_of m i = Some TaskRunning" and "length m < 2 ^ 64"
  shows "0 < running_count m"
proof -
  have "0 < length (filter (\<lambda>(_, st). st = TaskRunning) m)"
    using map_of_SomeD [OF assms(1)] by (auto simp: filter_empty_conv)
  moreover have "length (filter (\<lambda>(_, st). st = TaskRunning) m) < 2 ^ 64"
    using assms(2) length_filter_le [of "\<lambda>(_, st). st = TaskRunning" m] by (rule le_less_trans [rotated])
  ultimately show ?thesis
    by (simp add: running_count_def word_less_nat_alt unat_of_nat)
qed

text \<open>
  C23. A task whose body panics is never reported: its thread is gone, but its status stays
  \<open>Running\<close>, so \<open>running_count\<close> keeps counting it, whatever happens, until somebody cancels it.
\<close>

theorem panicked_task_stays_running:
  assumes "sched_run sys_new es s" and "sched_step s (Panic n) t" and "at_phase s n i InBody"
    and "status_of (sy_table s) i \<noteq> Some TaskCancelled"
    and "sched_run t es' u" and "distinct (map fst (sy_threads u))" and "CancelCall i True \<notin> set es'"
  shows "status_of (sy_table u) i = Some TaskRunning \<and> at_phase u n i Panicked \<and>
    (length (sy_table u) < 2 ^ 64 \<longrightarrow> 0 < running_count (sy_table u))"
proof -
  have du: "distinct_tasks u" using assms(6) by (simp add: distinct_tasks_def)
  then have dt: "distinct_tasks t" by (rule distinct_tasks_run [OF assms(5)])
  then have ds: "distinct_tasks s" by (rule distinct_tasks_step [OF assms(2)])
  have "map_of (sy_table s) i = Some TaskRunning"
    using tracks_at [OF tracks_run [OF assms(1) tracks_new ds] assms(3)] assms(4)
    by (auto simp: status_of_def)
  moreover have "t = set_phase n Panicked s"
    using assms(2) by (auto elim: sched_stepE)
  ultimately have "at_phase t n i Panicked" "map_of (sy_table t) i = Some TaskRunning"
    using assms(3) by simp_all
  then have "at_phase u n i Panicked \<and> map_of (sy_table u) i = Some TaskRunning"
    by (intro panicked_run [OF assms(5) du _ _ assms(7)])
  then show ?thesis using running_count_pos by (auto simp: status_of_def)
qed

definition panicked_state :: sched_sys where
  "panicked_state =
     \<lparr>sy_table = [(9, TaskRunning), (8, TaskRunning)], sy_threads = [(9, Panicked), (8, Ready)]\<rparr>"

theorem panicked_task_stays_running_witness:
  "status_of (sy_table panicked_state) 9 = Some TaskRunning \<and> 0 < running_count (sy_table panicked_state)"
proof -
  have s: "sched_run sys_new [Spawn 9, Enter 0] \<lparr>sy_table = [(9, TaskRunning)], sy_threads = [(9, InBody)]\<rparr>"
    by (rule sched_do_all_run) code_simp
  have p: "sched_step \<lparr>sy_table = [(9, TaskRunning)], sy_threads = [(9, InBody)]\<rparr> (Panic 0)
      \<lparr>sy_table = [(9, TaskRunning)], sy_threads = [(9, Panicked)]\<rparr>"
    unfolding sched_do_step [symmetric] by code_simp
  have u: "sched_run \<lparr>sy_table = [(9, TaskRunning)], sy_threads = [(9, Panicked)]\<rparr> [Spawn 8] panicked_state"
    by (rule sched_do_all_run) code_simp
  show ?thesis
    using panicked_task_stays_running [OF s p _ _ u, of 9]
    by (simp add: at_phase_def status_of_def panicked_state_def)
qed

end
