(* ===== verification/Kernel.thy ===== *)
theory Kernel
  imports Event_Store Storage Drivers Task_Scheduler Kernel_Objects Kernel_Messaging Kernel_Memory Kernel_Services
begin

text \<open>
  \<^verbatim>\<open>src/crates/core/src/lib.rs\<close>: the composition root. A kernel holds one of every module; \<open>'w\<close> is the world of the
  drivers, plugins and agents, \<open>'j\<close> the JSON of the events.
\<close>

record ('w, 'j) kernel =
  k_scheduler :: task_table
  k_memory :: tracking_allocator
  k_event :: event_manager
  k_event_store :: "'j event_store"
  k_snapshots :: snapshot_store
  k_drivers :: "('j, 'w) registry"
  k_policy :: policy_table
  k_storage :: storage
  k_security :: identity_table
  k_plugin :: "'w plugin_table"
  k_ipc :: ipc
  k_objects :: object_manager
  k_agents :: "('w, 'j) agent_table"

definition kernel_new :: "('w, 'j) kernel" where
  "kernel_new =
     \<lparr>k_scheduler = sched_new, k_memory = ta_new, k_event = topics_new, k_event_store = es_new, k_snapshots = ss_new,
      k_drivers = dr_new, k_policy = policies_new, k_storage = storage_new, k_security = identities_new,
      k_plugin = plugins_new, k_ipc = ipc_new, k_objects = om_new, k_agents = agents_new\<rparr>"

text \<open>Every module of a new kernel answers that it is empty, and the policy allows everything.\<close>

lemma kernel_starts_empty:
  "running_count (k_scheduler kernel_new) = 0" "ms_live_allocations (ta_stats (k_memory kernel_new)) = 0"
  "es_events (k_event_store kernel_new) = []" "dr_list (k_drivers kernel_new) = []"
  "allow_all_evaluate action resource (k_policy kernel_new) = Allow" "plugin_list (k_plugin kernel_new) = []"
  "resolve_identity i (k_security kernel_new) = None" "om_read i (k_objects kernel_new) = None"
  "tick_all (k_agents kernel_new) w = (Inr (), w)"
  by (simp_all add: kernel_new_def sched_new_def running_count_def ta_new_def ta_stats_def es_new_def dr_new_def dr_list_def
      allow_all_evaluate_def plugins_new_def plugin_list_def identities_new_def resolve_identity_def om_new_def om_read_def
      agents_new_def tick_all_def)

end
