(* ===== verification/Object_Model.thy ===== *)
theory Object_Model
  imports Prelude
begin

text \<open>
  \<^verbatim>\<open>src/crates/types/src/lib.rs\<close>, the universal object model: the status enumerations and
  the eleven record types every other component exchanges. Typed identifiers
  (\<open>EntityId(Ulid)\<close> and the like) are their ULID. The JSON value a field may hold is the
  type parameter \<open>'j\<close>.
\<close>

section \<open>Enumerations\<close>

datatype severity = SevInfo | SevLow | SevMedium | SevHigh | SevCritical

datatype decision_status = Proposed | Approved | Rejected | Executed | DecisionFailed

datatype investigation_status = InvOpen | InvClosed | InvArchived

datatype service_status = SvcActive | SvcInactive | SvcError

datatype collector_kind = CollectorHttp | BrowserLightpanda | BrowserChromium

fun collector_kind_as_str :: "collector_kind \<Rightarrow> string" where
  "collector_kind_as_str CollectorHttp = ''http''"
| "collector_kind_as_str BrowserLightpanda = ''browser_lightpanda''"
| "collector_kind_as_str BrowserChromium = ''browser_chromium''"

definition collector_kind_from_str :: "string \<Rightarrow> collector_kind option" where
  "collector_kind_from_str s =
     (if s = ''http'' then Some CollectorHttp
      else if s = ''browser_lightpanda'' then Some BrowserLightpanda
      else if s = ''browser_chromium'' then Some BrowserChromium
      else None)"

datatype collection_status =
  CollectionSucceeded | CollectionFailed | CollectionCancelled | CollectionRateLimited

fun collection_status_as_str :: "collection_status \<Rightarrow> string" where
  "collection_status_as_str CollectionSucceeded = ''succeeded''"
| "collection_status_as_str CollectionFailed = ''failed''"
| "collection_status_as_str CollectionCancelled = ''cancelled''"
| "collection_status_as_str CollectionRateLimited = ''rate_limited''"

definition collection_status_from_str :: "string \<Rightarrow> collection_status option" where
  "collection_status_from_str s =
     (if s = ''succeeded'' then Some CollectionSucceeded
      else if s = ''failed'' then Some CollectionFailed
      else if s = ''cancelled'' then Some CollectionCancelled
      else if s = ''rate_limited'' then Some CollectionRateLimited
      else None)"

lemma collector_kind_roundtrip [simp]: "collector_kind_from_str (collector_kind_as_str k) = Some k"
  by (cases k) (simp_all add: collector_kind_from_str_def)

lemma collection_status_roundtrip [simp]:
  "collection_status_from_str (collection_status_as_str k) = Some k"
  by (cases k) (simp_all add: collection_status_from_str_def)

section \<open>The eleven object types\<close>

subsection \<open>1. Observation\<close>

record observation =
  obs_id :: "ulid"
  obs_kind :: "string"
  obs_data :: "u8 list"
  obs_content_type :: "string option"
  obs_source :: "string"
  obs_observed_at :: "instant"
  obs_created_at :: "instant"
  obs_metadata :: "metadata"

subsection \<open>2. Artifact\<close>

record artifact =
  art_id :: "ulid"
  art_session_id :: "ulid"
  art_kind :: "string"
  art_content_type :: "string option"
  art_byte_count :: "u64"
  art_sha256 :: "string"
  art_storage_path :: "string"
  art_created_at :: "instant"
  art_metadata :: "metadata"

subsection \<open>3. Evidence\<close>

record 'j evidence =
  evd_id :: "ulid"
  evd_artifact_id :: "ulid"
  evd_kind :: "string"
  evd_value :: "'j"
  evd_confidence :: "f64"
  evd_created_at :: "instant"
  evd_metadata :: "metadata"

subsection \<open>4. Entity\<close>

record entity =
  ent_id :: "ulid"
  ent_kind :: "string"
  ent_name :: "string"
  ent_attributes :: "metadata"
  ent_first_seen :: "instant"
  ent_last_seen :: "instant"
  ent_created_at :: "instant"
  ent_metadata :: "metadata"

subsection \<open>5. Relationship\<close>

record relationship =
  rel_id :: "ulid"
  rel_kind :: "string"
  rel_source_type :: "string"
  rel_source_id :: "string"
  rel_target_type :: "string"
  rel_target_id :: "string"
  rel_properties :: "metadata"
  rel_first_seen :: "instant"
  rel_last_seen :: "instant"
  rel_created_at :: "instant"
  rel_metadata :: "metadata"

subsection \<open>6. Knowledge\<close>

record 'j knowledge =
  kn_id :: "ulid"
  kn_kind :: "string"
  kn_content :: "'j"
  kn_confidence :: "f64"
  kn_source_ids :: "string list"
  kn_created_at :: "instant"
  kn_metadata :: "metadata"

subsection \<open>7. Finding\<close>

record finding =
  fnd_id :: "ulid"
  fnd_investigation_id :: "ulid"
  fnd_kind :: "string"
  fnd_title :: "string"
  fnd_description :: "string"
  fnd_severity :: "severity"
  fnd_confidence :: "f64"
  fnd_source_ids :: "string list"
  fnd_created_at :: "instant"
  fnd_metadata :: "metadata"

subsection \<open>8. Decision\<close>

record decision =
  dcs_id :: "ulid"
  dcs_finding_ids :: "ulid list"
  dcs_kind :: "string"
  dcs_rationale :: "string"
  dcs_actor :: "string"
  dcs_status :: "decision_status"
  dcs_created_at :: "instant"
  dcs_executed_at :: "instant option"
  dcs_metadata :: "metadata"

subsection \<open>9. Timeline\<close>

record timeline_entry =
  tle_id :: "string"
  tle_timestamp :: "instant"
  tle_kind :: "string"
  tle_source_id :: "string"
  tle_summary :: "string"
  tle_metadata :: "metadata"

record timeline =
  tl_id :: "ulid"
  tl_investigation_id :: "ulid"
  tl_entries :: "timeline_entry list"
  tl_created_at :: "instant"
  tl_metadata :: "metadata"

subsection \<open>10. Investigation\<close>

record investigation =
  inv_id :: "ulid"
  inv_title :: "string"
  inv_description :: "string"
  inv_status :: "investigation_status"
  inv_owner :: "string"
  inv_tags :: "string list"
  inv_created_at :: "instant"
  inv_updated_at :: "instant"
  inv_metadata :: "metadata"

subsection \<open>11. Service\<close>

record service =
  svc_id :: "ulid"
  svc_name :: "string"
  svc_kind :: "string"
  svc_locator :: "string"
  svc_status :: "service_status"
  svc_version :: "string option"
  svc_created_at :: "instant"
  svc_metadata :: "metadata"

end
