(* ===== verification/Vifs.thy ===== *)
theory Vifs
  imports Storage "HOL-Library.Char_ord" "HOL-Library.List_Lexorder"
begin

text \<open>
  \<^verbatim>\<open>src/crates/vifs/src/lib.rs\<close>, first half: virtual paths and the path-based operations
  of the virtual intelligence filesystem over the kernel storage. A path is a string; an
  object is stored under the flat key \<open>vifs/...\<close> and directories are inferred from the
  key prefixes when listing.
\<close>

section \<open>Paths\<close>

type_synonym vifs_path = string

definition dir_services :: string where "dir_services = ''/services/''"
definition dir_entities :: string where "dir_entities = ''/entities/''"
definition dir_artifacts :: string where "dir_artifacts = ''/artifacts/''"
definition dir_knowledge :: string where "dir_knowledge = ''/knowledge/''"
definition dir_timelines :: string where "dir_timelines = ''/timelines/''"
definition dir_observations :: string where "dir_observations = ''/observations/''"
definition dir_evidence :: string where "dir_evidence = ''/evidence/''"
definition dir_findings :: string where "dir_findings = ''/findings/''"
definition dir_decisions :: string where "dir_decisions = ''/decisions/''"
definition dir_investigations :: string where "dir_investigations = ''/investigations/''"
definition dir_relationships :: string where "dir_relationships = ''/relationships/''"

lemmas dir_defs = dir_services_def dir_entities_def dir_artifacts_def dir_knowledge_def
  dir_timelines_def dir_observations_def dir_evidence_def dir_findings_def dir_decisions_def
  dir_investigations_def dir_relationships_def

abbreviation object_dirs :: "string set" where
  "object_dirs \<equiv> {dir_services, dir_entities, dir_artifacts, dir_knowledge, dir_timelines,
     dir_observations, dir_evidence, dir_findings, dir_decisions, dir_investigations,
     dir_relationships}"

definition vifs_prefix :: string where "vifs_prefix = ''vifs''"

definition vp_root :: vifs_path where "vp_root = ''/''"

definition vp_join :: "string \<Rightarrow> string \<Rightarrow> vifs_path" where
  "vp_join base child =
     (let base = unwrap_or base (strip_suffix ''/'' base);
          child = unwrap_or child (strip_prefix ''/'' child)
      in base @ ''/'' @ child)"

text \<open>
  \<open>parent\<close> slices \<open>&s[1..=idx]\<close>, which panics (outer \<open>None\<close>) when byte 1 is inside a
  multi-byte character; the byte after \<open>idx\<close> never is, since \<open>s[idx]\<close> is a slash.
\<close>

definition is_char_boundary :: "string \<Rightarrow> nat \<Rightarrow> bool" where
  "is_char_boundary s i \<longleftrightarrow>
     i = length s \<or> (i < length s \<and> \<not> (128 \<le> (of_char (s ! i) :: nat) \<and> (of_char (s ! i) :: nat) < 192))"

definition vp_parent :: "vifs_path \<Rightarrow> vifs_path option option" where
  "vp_parent p =
     (let s = unwrap_or p (strip_suffix ''/'' p)
      in case rfind (CHR ''/'') s of
           None \<Rightarrow> Some None
         | Some idx \<Rightarrow>
             if idx = 0 then Some (Some ''/'')
             else if is_char_boundary s 1 then Some (Some (''/'' @ drop 1 (take (Suc idx) s)))
             else None)"

definition vp_file_name :: "vifs_path \<Rightarrow> string option" where
  "vp_file_name p =
     (let s = unwrap_or p (strip_suffix ''/'' p); n = last (split_on (CHR ''/'') s)
      in if n = [] then None else Some n)"

definition vp_is_directory :: "vifs_path \<Rightarrow> bool" where
  "vp_is_directory p \<longleftrightarrow> suffix ''/'' p"

definition vp_to_key :: "vifs_path \<Rightarrow> string" where
  "vp_to_key p =
     (let clean = unwrap_or p (strip_prefix ''/'' p)
      in if clean = [] then vifs_prefix else vifs_prefix @ ''/'' @ clean)"

section \<open>Entries, errors, state\<close>

datatype entry_kind = EntryFile | EntryDirectory

record vifs_entry =
  ve_name :: string
  ve_kind :: entry_kind

datatype vifs_error =
    NotFound string
  | AlreadyExists string
  | Serialization string
  | VifsStorage string
  | InvalidPath string

record vifs =
  vf_storage :: storage
  vf_host :: host

section \<open>Operations\<close>

definition vifs_read :: "vifs_path \<Rightarrow> (vifs, vifs_error, u8 list) op" where
  "vifs_read path v =
     (case storage_load (vf_storage v) (vp_to_key path) of
        None \<Rightarrow> (Inl (NotFound path), v)
      | Some e \<Rightarrow> (Inr (en_value e), v))"

definition vifs_write :: "vifs_path \<Rightarrow> u8 list \<Rightarrow> (vifs, vifs_error, unit) op" where
  "vifs_write path data v =
     (let key = vp_to_key path
      in if key = vifs_prefix then (Inl (InvalidPath ''cannot write to root''), v)
         else (let (now, h) = now_millis (vf_host v)
               in (Inr (), v\<lparr>vf_storage :=
                     storage_store now key data (Some ''application/json'') (vf_storage v),
                     vf_host := h\<rparr>)))"

definition vifs_delete :: "vifs_path \<Rightarrow> (vifs, vifs_error, unit) op" where
  "vifs_delete path v =
     (let (found, s) = storage_delete (vp_to_key path) (vf_storage v)
      in (if found then Inr () else Inl (NotFound path), v\<lparr>vf_storage := s\<rparr>))"

definition vifs_exists :: "vifs \<Rightarrow> vifs_path \<Rightarrow> bool" where
  "vifs_exists v path = storage_exists (vf_storage v) (vp_to_key path)"

definition vifs_rename :: "vifs_path \<Rightarrow> vifs_path \<Rightarrow> (vifs, vifs_error, unit) op" where
  "vifs_rename src dst =
     st_bind (vifs_read src) (\<lambda>data.
     st_bind (vifs_write dst data) (\<lambda>_.
     vifs_delete src))"

text \<open>One key of the listing loop: the first component below the directory, and whether
  anything lies below it.\<close>

definition scan_key :: "string \<Rightarrow> string \<Rightarrow> (string \<times> bool) list \<Rightarrow> (string \<times> bool) list" where
  "scan_key pre key seen =
     (let suf = unwrap_or key (strip_prefix pre key)
      in if suf = [] then seen
         else let parts = split_on (CHR ''/'') suf
              in if parts = [] \<or> hd parts = [] then seen
                 else let name = hd parts; is_dir = 1 < length parts
                      in AList.update name
                           (case map_of seen name of Some d \<Rightarrow> d \<or> is_dir | None \<Rightarrow> is_dir) seen)"

definition list_prefix :: "vifs_path \<Rightarrow> string" where
  "list_prefix path =
     (let pre = vp_to_key path in if suffix ''/'' pre then pre else pre @ ''/'')"

definition vifs_list :: "vifs \<Rightarrow> vifs_path \<Rightarrow> (vifs_error, vifs_entry list) result" where
  "vifs_list v path =
     (let pre = list_prefix path;
          seen = fold (scan_key pre) (storage_list (vf_storage v) pre) []
      in Inr (sort_key ve_name
           (map (\<lambda>(name, is_dir). \<lparr>ve_name = name,
              ve_kind = (if is_dir then EntryDirectory else EntryFile)\<rparr>) seen)))"

section \<open>Well-formed filesystems\<close>

definition vifs_inv :: "vifs \<Rightarrow> bool" where
  "vifs_inv v \<longleftrightarrow> storage_inv (vf_storage v)"

lemma vifs_inv_write: "vifs_inv v \<Longrightarrow> vifs_inv (snd (vifs_write p d v))"
  by (simp add: vifs_inv_def vifs_write_def Let_def now_millis_def mems.inv_put)

lemma vifs_inv_delete: "vifs_inv v \<Longrightarrow> vifs_inv (snd (vifs_delete p v))"
  using mems.inv_remove [of "vf_storage v" "vp_to_key p"]
  by (auto simp: vifs_inv_def vifs_delete_def split: prod.splits)

lemma vifs_read_state [simp]: "snd (vifs_read p v) = v"
  by (simp add: vifs_read_def split: option.splits)

lemma vifs_inv_rename: "vifs_inv v \<Longrightarrow> vifs_inv (snd (vifs_rename src dst v))"
  unfolding vifs_rename_def
  by (intro st_bind_preserves [where P = vifs_inv] vifs_inv_write vifs_inv_delete) simp_all

text \<open>The abstract view of a filesystem: the bytes stored under each key.\<close>

definition contents :: "vifs \<Rightarrow> string \<Rightarrow> u8 list option" where
  "contents v k = map_option en_value (storage_load (vf_storage v) k)"

lemma read_contents:
  "vifs_read p v = ((case contents v (vp_to_key p) of None \<Rightarrow> Inl (NotFound p) | Some d \<Rightarrow> Inr d), v)"
  by (simp add: vifs_read_def contents_def split: option.splits)

lemma exists_contents: "vifs_inv v \<Longrightarrow> vifs_exists v p \<longleftrightarrow> contents v (vp_to_key p) \<noteq> None"
  by (simp add: vifs_exists_def contents_def vifs_inv_def mems.has_get)

lemma write_contents:
  assumes "vifs_inv v" and "vp_to_key p \<noteq> vifs_prefix"
  shows "fst (vifs_write p d v) = Inr ()
    \<and> contents (snd (vifs_write p d v)) = (contents v)(vp_to_key p \<mapsto> d)"
  using assms
  by (auto simp: vifs_write_def Let_def now_millis_def contents_def vifs_inv_def mems.get_put fun_eq_iff)

lemma write_root: "vp_to_key p = vifs_prefix \<Longrightarrow>
    vifs_write p d v = (Inl (InvalidPath ''cannot write to root''), v)"
  by (simp add: vifs_write_def)

lemma delete_contents:
  assumes "vifs_inv v"
  shows "fst (vifs_delete p v) =
      (if contents v (vp_to_key p) = None then Inl (NotFound p) else Inr ())
    \<and> contents (snd (vifs_delete p v)) = (contents v)(vp_to_key p := None)"
  using assms mems.remove_found [of "vf_storage v" "vp_to_key p"]
    mems.get_remove [of "vf_storage v" "vp_to_key p"]
  by (auto simp: vifs_delete_def contents_def vifs_inv_def fun_eq_iff split: prod.splits)

lemmas vifs_invs = vifs_inv_write vifs_inv_delete vifs_inv_rename

section \<open>Lemmas on paths\<close>

lemma object_dir_shape:
  "d \<in> object_dirs \<Longrightarrow> \<exists>r. d = ''/'' @ r @ ''/'' \<and> CHR ''/'' \<notin> set r \<and> r \<noteq> [] \<and>
     is_char_boundary (''/'' @ r) 1"
  by (auto simp: dir_defs is_char_boundary_def)

lemma strip_prefix_slash_None: "CHR ''/'' \<notin> set n \<Longrightarrow> strip_prefix ''/'' n = None"
  by (cases n) (auto simp: strip_prefix_def)

lemma join_object_dir:
  assumes "d \<in> object_dirs" and "CHR ''/'' \<notin> set n"
  shows "vp_join d n = d @ n"
proof -
  from object_dir_shape [OF assms(1)] obtain r where "d = (''/'' @ r) @ ''/''" by auto
  then have "strip_suffix ''/'' d = Some (''/'' @ r)" by (simp only: strip_suffix_append)
  with assms(2) \<open>d = (''/'' @ r) @ ''/''\<close> show ?thesis
    by (simp add: vp_join_def strip_prefix_slash_None)
qed

lemma to_key_object:
  assumes "d \<in> object_dirs" and "CHR ''/'' \<notin> set n"
  shows "vp_to_key (vp_join d n) = vifs_prefix @ d @ n"
proof -
  from object_dir_shape [OF assms(1)] obtain r where r: "d = ''/'' @ r @ ''/''" by auto
  have "strip_prefix ''/'' (d @ n) = Some (r @ ''/'' @ n)"
    by (simp add: r strip_prefix_def)
  then show ?thesis unfolding join_object_dir [OF assms] vp_to_key_def by (simp add: r)
qed

lemma strip_suffix_slash_None:
  "n \<noteq> [] \<Longrightarrow> CHR ''/'' \<notin> set n \<Longrightarrow> strip_suffix ''/'' (d @ n) = None"
  by (auto simp: strip_suffix_None_iff suffix_def) (metis append_butlast_last_id last_appendR last_in_set last_snoc)

lemma split_on_dir: "last (split_on c (xs @ c # ys)) = last (split_on c ys)"
proof (induction xs)
  case (Cons x xs)
  moreover have "length (split_on c (xs @ c # ys)) \<noteq> Suc 0"
    by (simp add: split_on_single_iff)
  ultimately show ?case by (cases "split_on c (xs @ c # ys)") auto
qed simp

lemma object_dir_inj:
  assumes "d \<in> object_dirs" "d' \<in> object_dirs" "d @ n = d' @ n'"
  shows "d = d' \<and> n = n'"
proof -
  from object_dir_shape [OF assms(1)] obtain r where r: "d = ''/'' @ r @ ''/''" "CHR ''/'' \<notin> set r" by auto
  from object_dir_shape [OF assms(2)] obtain r' where r': "d' = ''/'' @ r' @ ''/''" "CHR ''/'' \<notin> set r'" by auto
  from assms(3) have "split_on (CHR ''/'') (r @ CHR ''/'' # n) = split_on (CHR ''/'') (r' @ CHR ''/'' # n')"
    by (simp add: r r')
  then have "r = r'" using r r' by (simp add: split_on_append)
  with assms(3) show ?thesis by (simp add: r r')
qed

section \<open>Lemmas on listing\<close>

lemma split_on_cases:
  obtains "c \<notin> set s" "split_on c s = [s]"
  | n r where "c \<notin> set n" "s = n @ c # r" "split_on c s = n # split_on c r"
proof (cases "c \<in> set s")
  case True
  then obtain n r where "s = n @ c # r" "c \<notin> set n" by (meson split_list_first)
  with that(2) show thesis by (simp add: split_on_append)
next
  case False
  with that(1) show thesis by (simp add: split_on_no_sep)
qed

text \<open>What a key below \<open>pre\<close> contributes: its first component, and whether it goes deeper.\<close>

definition key_comp :: "string \<Rightarrow> string \<Rightarrow> (string \<times> bool) option" where
  "key_comp pre key =
     (let suf = unwrap_or key (strip_prefix pre key); parts = split_on (CHR ''/'') suf
      in if suf = [] \<or> hd parts = [] then None else Some (hd parts, 1 < length parts))"

lemma scan_key_comp:
  "scan_key pre key seen = (case key_comp pre key of None \<Rightarrow> seen
     | Some (n, d) \<Rightarrow> AList.update n (case map_of seen n of Some d' \<Rightarrow> d' \<or> d | None \<Rightarrow> d) seen)"
  by (auto simp: scan_key_def key_comp_def Let_def)

lemma key_comp_below:
  "key_comp pre (pre @ suf) = Some (n, d) \<longleftrightarrow>
     n \<noteq> [] \<and> CHR ''/'' \<notin> set n \<and> (if d then \<exists>r. suf = n @ ''/'' @ r else suf = n)"
proof (cases rule: split_on_cases [of "CHR ''/''" suf])
  case 1
  then show ?thesis by (auto simp: key_comp_def Let_def)
next
  case (2 m r)
  have "CHR ''/'' \<notin> set n \<Longrightarrow> m @ CHR ''/'' # r = n @ CHR ''/'' # t \<Longrightarrow> n = m" for t
    using 2(1) by (metis split_on_append list.inject)
  with 2 show ?thesis by (auto simp: key_comp_def Let_def)
qed

lemma key_comp_prefix:
  "prefix pre k \<Longrightarrow> key_comp pre k = Some (n, d) \<longleftrightarrow>
     n \<noteq> [] \<and> CHR ''/'' \<notin> set n \<and> (if d then prefix (pre @ n @ ''/'') k else k = pre @ n)"
  by (auto simp: prefix_def key_comp_below)

lemma scan_keys:
  "map_of (fold (scan_key pre) ks []) n =
     (if \<exists>k\<in>set ks. \<exists>d. key_comp pre k = Some (n, d)
      then Some (\<exists>k\<in>set ks. key_comp pre k = Some (n, True)) else None)"
proof (induction ks rule: rev_induct)
  case (snoc k ks)
  show ?case
  proof (cases "key_comp pre k")
    case None
    with snoc show ?thesis by (simp add: scan_key_comp)
  next
    case (Some nd)
    then obtain m d where md: "key_comp pre k = Some (m, d)" by (cases nd) auto
    show ?thesis
    proof (cases "m = n")
      case True
      with md snoc show ?thesis by (cases d) (auto simp: scan_key_comp split: option.splits)
    next
      case False
      with md snoc show ?thesis by (simp add: scan_key_comp)
    qed
  qed
qed simp

lemma scan_keys_distinct: "distinct (map fst (fold (scan_key pre) ks []))"
proof (induction ks rule: rev_induct)
  case (snoc k ks)
  then show ?case by (auto simp: scan_key_comp distinct_update split: option.splits)
qed simp

section \<open>Properties\<close>

text \<open>
  Path scheme. The path of an object in one of the eleven object directories, for a name
  without a slash, is the directory followed by the name: its parent is the directory, its
  file name is the name, it is no directory, its key is never the root key, and two objects
  share a key only when both directory and name agree.
\<close>

theorem object_path_scheme:
  assumes "d \<in> object_dirs" "d' \<in> object_dirs"
    and "n \<noteq> []" "CHR ''/'' \<notin> set n" "CHR ''/'' \<notin> set n'"
  shows "vp_join d n = d @ n
    \<and> vp_parent (vp_join d n) = Some (Some d)
    \<and> vp_file_name (vp_join d n) = Some n
    \<and> \<not> vp_is_directory (vp_join d n)
    \<and> vp_to_key (vp_join d n) \<noteq> vifs_prefix
    \<and> (vp_to_key (vp_join d n) = vp_to_key (vp_join d' n') \<longleftrightarrow> d = d' \<and> n = n')"
proof -
  from object_dir_shape [OF assms(1)] obtain r where r: "d = ''/'' @ r @ ''/''"
    "CHR ''/'' \<notin> set r" "r \<noteq> []" "is_char_boundary (''/'' @ r) 1" by auto
  have join: "vp_join d n = d @ n" by (rule join_object_dir [OF assms(1,4)])
  have whole: "unwrap_or (d @ n) (strip_suffix ''/'' (d @ n)) = d @ n"
    by (simp add: strip_suffix_slash_None assms(3,4))
  have "rfind (CHR ''/'') (d @ n) = Some (length (''/'' @ r))"
    using rfind_append [OF assms(4), of "''/'' @ r"] by (simp add: r)
  moreover have "is_char_boundary (d @ n) 1"
    using r(3,4) by (cases r) (simp_all add: r(1) is_char_boundary_def)
  ultimately have parent: "vp_parent (d @ n) = Some (Some d)"
    unfolding vp_parent_def whole by (simp add: Let_def r)
  have "last (split_on (CHR ''/'') (d @ n)) = n"
    using split_on_dir [of "CHR ''/''" "''/'' @ r" n] assms(4) by (simp add: r split_on_no_sep)
  then have leaf: "vp_file_name (d @ n) = Some n"
    unfolding vp_file_name_def whole by (simp add: assms(3))
  have nodir: "\<not> vp_is_directory (d @ n)"
    using strip_suffix_slash_None [OF assms(3,4)] by (simp add: vp_is_directory_def strip_suffix_None_iff)
  have "vp_to_key (vp_join d n) = vp_to_key (vp_join d' n') \<longleftrightarrow> d = d' \<and> n = n'"
    using object_dir_inj [OF assms(1,2), of n n']
    unfolding to_key_object [OF assms(1,4)] to_key_object [OF assms(2,5)] by auto
  moreover have "vp_to_key (vp_join d n) \<noteq> vifs_prefix"
    using assms(3) unfolding to_key_object [OF assms(1,4)] by simp
  ultimately show ?thesis
    using join parent [folded join] leaf [folded join] nodir [folded join] by (intro conjI)
qed

theorem object_path_scheme_witness:
  "vp_parent (vp_join dir_entities ''01ARZ'') = Some (Some dir_entities)"
  by (rule object_path_scheme [of dir_entities dir_services "''01ARZ''" "''x''",
        THEN conjunct2, THEN conjunct1]) simp_all

text \<open>
  C4. Writing. A write anywhere but at the root succeeds, is read back byte for byte, and
  leaves every path with another key as it was; a write at the root is refused and changes
  nothing.
\<close>

theorem write_then_read:
  assumes "vifs_inv v"
  shows "(if vp_to_key p = vifs_prefix
     then vifs_write p d v = (Inl (InvalidPath ''cannot write to root''), v)
     else fst (vifs_write p d v) = Inr ()
       \<and> fst (vifs_read p (snd (vifs_write p d v))) = Inr d
       \<and> vifs_exists (snd (vifs_write p d v)) p
       \<and> vifs_inv (snd (vifs_write p d v))
       \<and> (vp_to_key q \<noteq> vp_to_key p \<longrightarrow>
            fst (vifs_read q (snd (vifs_write p d v))) = fst (vifs_read q v)))"
  using assms
  by (auto simp: write_root write_contents read_contents exists_contents vifs_inv_write)

definition ex_vifs :: vifs where
  "ex_vifs = \<lparr>vf_storage = [(''vifs/entities/a'', \<lparr>en_key = ''vifs/entities/a'', en_value = [1],
       en_content_type = None, en_created_at = 0\<rparr>),
      (''vifs/entities/a/rels/r'', \<lparr>en_key = ''vifs/entities/a/rels/r'', en_value = [2],
       en_content_type = None, en_created_at = 0\<rparr>)],
    vf_host = \<lparr>clock = (\<lambda>_. 0), millis = (\<lambda>_. 0), ulids = (\<lambda>n. of_nat n), calls = 0\<rparr>\<rparr>"

lemma ex_vifs_inv: "vifs_inv ex_vifs"
  by (simp add: ex_vifs_def vifs_inv_def storage_inv_def)

theorem write_then_read_witness:
  "fst (vifs_read ''/entities/b'' (snd (vifs_write ''/entities/b'' [3] ex_vifs))) = Inr [3]"
  using write_then_read [OF ex_vifs_inv, of "''/entities/b''" "[3]"]
  by (simp add: vp_to_key_def strip_prefix_def vifs_prefix_def)

text \<open>
  Renaming to another key. If the source exists and the destination is not the root, the
  content moves: the source is gone, the destination reads the source's bytes, nothing else
  changes. If the source is missing, or the destination is the root, the error says so and
  the filesystem is unchanged.
\<close>

theorem rename_moves:
  assumes "vifs_inv v" and "vp_to_key dst \<noteq> vp_to_key src"
  defines "res \<equiv> vifs_rename src dst v"
  shows "(case contents v (vp_to_key src) of
       None \<Rightarrow> res = (Inl (NotFound src), v)
     | Some d \<Rightarrow>
         if vp_to_key dst = vifs_prefix then res = (Inl (InvalidPath ''cannot write to root''), v)
         else fst res = Inr () \<and>
           contents (snd res) = (contents v)(vp_to_key dst \<mapsto> d, vp_to_key src := None))"
proof (cases "contents v (vp_to_key src)")
  case None
  then show ?thesis by (simp add: res_def vifs_rename_def st_bind_def read_contents)
next
  case (Some d)
  show ?thesis
  proof (cases "vp_to_key dst = vifs_prefix")
    case True
    with Some show ?thesis
      by (simp add: res_def vifs_rename_def st_bind_def read_contents write_root)
  next
    case False
    obtain v1 where w: "vifs_write dst d v = (Inr (), v1)"
      and c1: "contents v1 = (contents v)(vp_to_key dst \<mapsto> d)"
      using write_contents [OF assms(1) False, of d] by (cases "vifs_write dst d v") auto
    have "vifs_inv v1" using vifs_inv_write [OF assms(1), of dst d] w by simp
    with w c1 False Some assms(2) show ?thesis
      by (auto simp: res_def vifs_rename_def st_bind_def read_contents delete_contents)
  qed
qed

theorem rename_moves_witness:
  "contents (snd (vifs_rename ''/entities/a'' ''/entities/z'' ex_vifs)) ''vifs/entities/z'' = Some [1]"
  using rename_moves [OF ex_vifs_inv, of "''/entities/z''" "''/entities/a''"]
  by (simp add: vp_to_key_def strip_prefix_def vifs_prefix_def contents_def storage_load_def ex_vifs_def)

text \<open>
  C5. Renaming a path to itself, or to another spelling of the same key such as with and
  without the leading slash, reports success and destroys the object: the write lands on the
  key that the final delete then removes.
\<close>

theorem rename_onto_itself_deletes:
  assumes "vifs_inv v" and "vp_to_key dst = vp_to_key src" and "vp_to_key src \<noteq> vifs_prefix"
    and "contents v (vp_to_key src) = Some d"
  shows "fst (vifs_rename src dst v) = Inr ()
    \<and> contents (snd (vifs_rename src dst v)) = (contents v)(vp_to_key src := None)
    \<and> \<not> vifs_exists (snd (vifs_rename src dst v)) src"
proof -
  obtain v1 where w: "vifs_write dst d v = (Inr (), v1)"
    and c1: "contents v1 = (contents v)(vp_to_key src \<mapsto> d)"
    using write_contents [of v dst d] assms(1-3) by (cases "vifs_write dst d v") auto
  have inv1: "vifs_inv v1" using vifs_inv_write [OF assms(1), of dst d] w by simp
  have ren: "vifs_rename src dst v = vifs_delete src v1"
    using w assms(4) by (simp add: vifs_rename_def st_bind_def read_contents)
  have "vifs_inv (snd (vifs_delete src v1))" by (rule vifs_inv_delete [OF inv1])
  then show ?thesis
    using delete_contents [OF inv1, of src] c1 by (simp add: ren exists_contents)
qed

theorem rename_onto_itself_deletes_witness:
  "\<not> vifs_exists (snd (vifs_rename ''/entities/a'' ''entities/a'' ex_vifs)) ''/entities/a''"
  using rename_onto_itself_deletes [OF ex_vifs_inv, of "''entities/a''" "''/entities/a''" "[1]"]
  by (simp add: vp_to_key_def strip_prefix_def vifs_prefix_def contents_def storage_load_def ex_vifs_def)

text \<open>
  Listing. A listing is sorted by name without repetitions; a name is listed exactly
  when some stored key is the name itself below the directory or lies further below it, and
  it is marked a directory exactly in the second case.
\<close>

theorem list_complete_and_sorted:
  assumes "vifs_inv v"
  shows "\<exists>es. vifs_list v path = Inr es
    \<and> sorted (map ve_name es) \<and> distinct (map ve_name es)
    \<and> (\<forall>n. n \<in> ve_name ` set es \<longleftrightarrow> n \<noteq> [] \<and> CHR ''/'' \<notin> set n \<and>
          (\<exists>k. contents v k \<noteq> None \<and>
             (k = list_prefix path @ n \<or> prefix (list_prefix path @ n @ ''/'') k)))
    \<and> (\<forall>e\<in>set es. ve_kind e = EntryDirectory \<longleftrightarrow>
          (\<exists>k. contents v k \<noteq> None \<and> prefix (list_prefix path @ ve_name e @ ''/'') k))"
proof -
  let ?pre = "list_prefix path" and ?ks = "storage_list (vf_storage v) (list_prefix path)"
  let ?seen = "fold (scan_key ?pre) ?ks []"
  let ?mk = "\<lambda>(name, is_dir). \<lparr>ve_name = name, ve_kind = (if is_dir then EntryDirectory else EntryFile)\<rparr>"
  have keys: "k \<in> set ?ks \<longleftrightarrow> contents v k \<noteq> None \<and> prefix ?pre k" for k
    using assms mems.keys_get [of "vf_storage v" ?pre] by (simp add: vifs_inv_def contents_def)
  define named where "named n \<longleftrightarrow> n \<noteq> [] \<and> CHR ''/'' \<notin> set n" for n
  define deep where "deep n \<longleftrightarrow> (\<exists>k. contents v k \<noteq> None \<and> prefix (?pre @ n @ ''/'') k)" for n
  define here where "here n \<longleftrightarrow> contents v (?pre @ n) \<noteq> None" for n
  have dir: "(\<exists>k\<in>set ?ks. key_comp ?pre k = Some (n, True)) \<longleftrightarrow> named n \<and> deep n" for n
    using append_prefixD [of ?pre "n @ ''/''"] by (auto simp: keys key_comp_prefix named_def deep_def)
  have leaf: "(\<exists>k\<in>set ?ks. key_comp ?pre k = Some (n, False)) \<longleftrightarrow> named n \<and> here n" for n
    by (auto simp: keys key_comp_prefix named_def here_def)
  have "(\<exists>k\<in>set ?ks. \<exists>d. key_comp ?pre k = Some (n, d)) \<longleftrightarrow>
      (\<exists>k\<in>set ?ks. key_comp ?pre k = Some (n, True)) \<or>
      (\<exists>k\<in>set ?ks. key_comp ?pre k = Some (n, False))" for n
    by (metis (full_types))
  then have seen: "map_of ?seen n = (if named n \<and> (deep n \<or> here n) then Some (deep n) else None)" for n
    unfolding scan_keys dir leaf by auto
  let ?es = "sort_key ve_name (map ?mk ?seen)"
  have d: "distinct (map fst ?seen)" by (rule scan_keys_distinct)
  have names: "map ve_name (map ?mk ?seen) = map fst ?seen" by (simp add: case_prod_beta)
  have dist: "distinct (map ve_name ?es)"
    using d unfolding distinct_map distinct_sort set_sort names [symmetric] by simp
  have listed: "n \<in> ve_name ` set ?es \<longleftrightarrow> named n \<and> (deep n \<or> here n)" for n
  proof -
    have "n \<in> ve_name ` set ?es \<longleftrightarrow> map_of ?seen n \<noteq> None"
      by (force simp: map_of_eq_None_iff)
    then show ?thesis by (simp add: seen)
  qed
  have kinds: "ve_kind e = EntryDirectory \<longleftrightarrow> deep (ve_name e)" if "e \<in> set ?es" for e
  proof -
    from that obtain n b where nb: "(n, b) \<in> set ?seen" and e: "e = ?mk (n, b)" by auto
    from nb d have "map_of ?seen n = Some b" by simp
    with e show ?thesis by (simp add: seen split: if_splits)
  qed
  have either: "(\<exists>k. contents v k \<noteq> None \<and> (k = ?pre @ n \<or> prefix (?pre @ n @ ''/'') k))
      \<longleftrightarrow> deep n \<or> here n" for n
    by (auto simp: deep_def here_def)
  show ?thesis
  proof (intro exI [of _ ?es] conjI allI ballI)
    show "vifs_list v path = Inr ?es" by (simp add: vifs_list_def Let_def)
    show "sorted (map ve_name ?es)" by (rule sorted_sort_key)
    show "distinct (map ve_name ?es)" by (rule dist)
  qed (simp_all only: listed either named_def kinds deep_def conj_assoc)
qed

theorem list_complete_and_sorted_witness:
  "\<exists>es. vifs_list ex_vifs ''/entities/'' = Inr es \<and> ''a'' \<in> ve_name ` set es"
proof -
  have pre: "list_prefix ''/entities/'' = ''vifs/entities/''"
    by (simp add: list_prefix_def vp_to_key_def strip_prefix_def vifs_prefix_def suffix_def)
  have stored: "contents ex_vifs ''vifs/entities/a'' \<noteq> None"
    by (simp add: contents_def storage_load_def ex_vifs_def)
  from list_complete_and_sorted [OF ex_vifs_inv, of "''/entities/''"] obtain es
    where es: "vifs_list ex_vifs ''/entities/'' = Inr es"
      and m: "\<forall>n. n \<in> ve_name ` set es \<longleftrightarrow> n \<noteq> [] \<and> CHR ''/'' \<notin> set n \<and>
        (\<exists>k. contents ex_vifs k \<noteq> None \<and> (k = list_prefix ''/entities/'' @ n \<or>
           prefix (list_prefix ''/entities/'' @ n @ ''/'') k))"
    by (elim exE conjE)
  have "''a'' \<in> ve_name ` set es"
    unfolding m [rule_format] pre using stored by (auto intro!: exI [of _ "''vifs/entities/a''"])
  with es show ?thesis by blast
qed

end
