(* ===== verification/Vifs_Projection.thy ===== *)
theory Vifs_Projection
  imports Vifs Event_Store Object_Model "HOL-Library.Multiset"
begin

text \<open>
  \<^verbatim>\<open>src/crates/vifs/src/lib.rs\<close>, second half: the typed readers and writers of the
  filesystem, the projector that turns one system event into filesystem changes, and the
  replay of a whole event store.

  What the code takes from other packages is the record \<open>vifs_lib\<close>: the text form of a
  ULID, serde's encoders and decoders of the eleven object types, the construction of JSON
  records and the text form of a time.
\<close>

section \<open>The libraries used\<close>

record 'a codec =
  enc :: "'a \<Rightarrow> (string, u8 list) result"
  dec :: "u8 list \<Rightarrow> (string, 'a) result"

record 'j vifs_lib =
  ulid_to_string :: "ulid \<Rightarrow> string"
  ulid_from_string :: "string \<Rightarrow> ulid option"
  time_to_string :: "instant \<Rightarrow> string"
  json_str :: "string \<Rightarrow> 'j"
  json_obj :: "(string \<times> 'j) list \<Rightarrow> 'j"
  json_bytes :: "'j \<Rightarrow> u8 list"
  c_observation :: "observation codec"
  c_artifact :: "artifact codec"
  c_evidence :: "'j evidence codec"
  c_entity :: "entity codec"
  c_relationship :: "relationship codec"
  c_knowledge :: "'j knowledge codec"
  c_finding :: "finding codec"
  c_decision :: "decision codec"
  c_timeline :: "timeline codec"
  c_investigation :: "investigation codec"
  c_service :: "service codec"

text \<open>serde writes an object and reads the same object back.\<close>

definition codec_ok_at :: "'a codec \<Rightarrow> 'a \<Rightarrow> bool" where
  "codec_ok_at c x \<longleftrightarrow> (case enc c x of Inl _ \<Rightarrow> False | Inr b \<Rightarrow> dec c b = Inr x)"

section \<open>Typed paths, writers and readers\<close>

definition write_object :: "'a codec \<Rightarrow> vifs_path \<Rightarrow> 'a \<Rightarrow> (vifs, vifs_error, vifs_path) op" where
  "write_object c path x =
     st_bind (st_lift (map_err Serialization (enc c x))) (\<lambda>data.
     st_bind (vifs_write path data) (\<lambda>_. st_ok path))"

definition read_object :: "'a codec \<Rightarrow> vifs_path \<Rightarrow> (vifs, vifs_error, 'a) op" where
  "read_object c path =
     st_bind (vifs_read path) (\<lambda>data. st_lift (map_err Serialization (dec c data)))"

definition vp_observation :: "'j vifs_lib \<Rightarrow> ulid \<Rightarrow> vifs_path" where
  "vp_observation lib i = vp_join dir_observations (ulid_to_string lib i)"

definition vp_artifact :: "'j vifs_lib \<Rightarrow> ulid \<Rightarrow> vifs_path" where
  "vp_artifact lib i = vp_join dir_artifacts (ulid_to_string lib i)"

definition vp_evidence :: "'j vifs_lib \<Rightarrow> ulid \<Rightarrow> vifs_path" where
  "vp_evidence lib i = vp_join dir_evidence (ulid_to_string lib i)"

definition vp_entity :: "'j vifs_lib \<Rightarrow> ulid \<Rightarrow> vifs_path" where
  "vp_entity lib i = vp_join dir_entities (ulid_to_string lib i)"

definition vp_relationship :: "'j vifs_lib \<Rightarrow> ulid \<Rightarrow> vifs_path" where
  "vp_relationship lib i = vp_join dir_relationships (ulid_to_string lib i)"

definition vp_knowledge :: "'j vifs_lib \<Rightarrow> ulid \<Rightarrow> vifs_path" where
  "vp_knowledge lib i = vp_join dir_knowledge (ulid_to_string lib i)"

definition vp_finding :: "'j vifs_lib \<Rightarrow> ulid \<Rightarrow> vifs_path" where
  "vp_finding lib i = vp_join dir_findings (ulid_to_string lib i)"

definition vp_decision :: "'j vifs_lib \<Rightarrow> ulid \<Rightarrow> vifs_path" where
  "vp_decision lib i = vp_join dir_decisions (ulid_to_string lib i)"

definition vp_timeline :: "'j vifs_lib \<Rightarrow> ulid \<Rightarrow> vifs_path" where
  "vp_timeline lib i = vp_join dir_timelines (ulid_to_string lib i)"

definition vp_investigation :: "'j vifs_lib \<Rightarrow> ulid \<Rightarrow> vifs_path" where
  "vp_investigation lib i = vp_join dir_investigations (ulid_to_string lib i)"

definition vp_service :: "'j vifs_lib \<Rightarrow> ulid \<Rightarrow> vifs_path" where
  "vp_service lib i = vp_join dir_services (ulid_to_string lib i)"

definition write_observation :: "'j vifs_lib \<Rightarrow> observation \<Rightarrow> (vifs, vifs_error, vifs_path) op" where
  "write_observation lib x = write_object (c_observation lib) (vp_observation lib (obs_id x)) x"

definition write_artifact :: "'j vifs_lib \<Rightarrow> artifact \<Rightarrow> (vifs, vifs_error, vifs_path) op" where
  "write_artifact lib x = write_object (c_artifact lib) (vp_artifact lib (art_id x)) x"

definition write_evidence :: "'j vifs_lib \<Rightarrow> 'j evidence \<Rightarrow> (vifs, vifs_error, vifs_path) op" where
  "write_evidence lib x = write_object (c_evidence lib) (vp_evidence lib (evd_id x)) x"

definition write_entity :: "'j vifs_lib \<Rightarrow> entity \<Rightarrow> (vifs, vifs_error, vifs_path) op" where
  "write_entity lib x = write_object (c_entity lib) (vp_entity lib (ent_id x)) x"

definition write_relationship :: "'j vifs_lib \<Rightarrow> relationship \<Rightarrow> (vifs, vifs_error, vifs_path) op" where
  "write_relationship lib x = write_object (c_relationship lib) (vp_relationship lib (rel_id x)) x"

definition write_knowledge :: "'j vifs_lib \<Rightarrow> 'j knowledge \<Rightarrow> (vifs, vifs_error, vifs_path) op" where
  "write_knowledge lib x = write_object (c_knowledge lib) (vp_knowledge lib (kn_id x)) x"

definition write_finding :: "'j vifs_lib \<Rightarrow> finding \<Rightarrow> (vifs, vifs_error, vifs_path) op" where
  "write_finding lib x = write_object (c_finding lib) (vp_finding lib (fnd_id x)) x"

definition write_decision :: "'j vifs_lib \<Rightarrow> decision \<Rightarrow> (vifs, vifs_error, vifs_path) op" where
  "write_decision lib x = write_object (c_decision lib) (vp_decision lib (dcs_id x)) x"

definition write_timeline :: "'j vifs_lib \<Rightarrow> timeline \<Rightarrow> (vifs, vifs_error, vifs_path) op" where
  "write_timeline lib x = write_object (c_timeline lib) (vp_timeline lib (tl_id x)) x"

definition write_investigation :: "'j vifs_lib \<Rightarrow> investigation \<Rightarrow> (vifs, vifs_error, vifs_path) op" where
  "write_investigation lib x = write_object (c_investigation lib) (vp_investigation lib (inv_id x)) x"

definition write_service :: "'j vifs_lib \<Rightarrow> service \<Rightarrow> (vifs, vifs_error, vifs_path) op" where
  "write_service lib x = write_object (c_service lib) (vp_service lib (svc_id x)) x"

definition read_observation :: "'j vifs_lib \<Rightarrow> ulid \<Rightarrow> (vifs, vifs_error, observation) op" where
  "read_observation lib i = read_object (c_observation lib) (vp_observation lib i)"

definition read_artifact :: "'j vifs_lib \<Rightarrow> ulid \<Rightarrow> (vifs, vifs_error, artifact) op" where
  "read_artifact lib i = read_object (c_artifact lib) (vp_artifact lib i)"

definition read_evidence :: "'j vifs_lib \<Rightarrow> ulid \<Rightarrow> (vifs, vifs_error, 'j evidence) op" where
  "read_evidence lib i = read_object (c_evidence lib) (vp_evidence lib i)"

definition read_entity :: "'j vifs_lib \<Rightarrow> ulid \<Rightarrow> (vifs, vifs_error, entity) op" where
  "read_entity lib i = read_object (c_entity lib) (vp_entity lib i)"

definition read_relationship :: "'j vifs_lib \<Rightarrow> ulid \<Rightarrow> (vifs, vifs_error, relationship) op" where
  "read_relationship lib i = read_object (c_relationship lib) (vp_relationship lib i)"

definition read_knowledge :: "'j vifs_lib \<Rightarrow> ulid \<Rightarrow> (vifs, vifs_error, 'j knowledge) op" where
  "read_knowledge lib i = read_object (c_knowledge lib) (vp_knowledge lib i)"

definition read_finding :: "'j vifs_lib \<Rightarrow> ulid \<Rightarrow> (vifs, vifs_error, finding) op" where
  "read_finding lib i = read_object (c_finding lib) (vp_finding lib i)"

definition read_decision :: "'j vifs_lib \<Rightarrow> ulid \<Rightarrow> (vifs, vifs_error, decision) op" where
  "read_decision lib i = read_object (c_decision lib) (vp_decision lib i)"

definition read_timeline :: "'j vifs_lib \<Rightarrow> ulid \<Rightarrow> (vifs, vifs_error, timeline) op" where
  "read_timeline lib i = read_object (c_timeline lib) (vp_timeline lib i)"

definition read_investigation :: "'j vifs_lib \<Rightarrow> ulid \<Rightarrow> (vifs, vifs_error, investigation) op" where
  "read_investigation lib i = read_object (c_investigation lib) (vp_investigation lib i)"

definition read_service :: "'j vifs_lib \<Rightarrow> ulid \<Rightarrow> (vifs, vifs_error, service) op" where
  "read_service lib i = read_object (c_service lib) (vp_service lib i)"

lemmas vp_object_defs = vp_observation_def vp_artifact_def vp_evidence_def vp_entity_def vp_relationship_def vp_knowledge_def vp_finding_def vp_decision_def vp_timeline_def vp_investigation_def vp_service_def
lemmas write_object_defs = write_observation_def write_artifact_def write_evidence_def write_entity_def write_relationship_def write_knowledge_def write_finding_def write_decision_def write_timeline_def write_investigation_def write_service_def
lemmas read_object_defs = read_observation_def read_artifact_def read_evidence_def read_entity_def read_relationship_def read_knowledge_def read_finding_def read_decision_def read_timeline_def read_investigation_def read_service_def

section \<open>Parsing\<close>

definition parse_severity :: "string \<Rightarrow> severity" where
  "parse_severity s =
     (if s = ''info'' then SevInfo
      else if s = ''low'' then SevLow
      else if s = ''medium'' then SevMedium
      else if s = ''high'' then SevHigh
      else if s = ''critical'' then SevCritical
      else SevInfo)"

definition parse_decision_status :: "string \<Rightarrow> decision_status" where
  "parse_decision_status s =
     (if s = ''proposed'' then Proposed
      else if s = ''approved'' then Approved
      else if s = ''rejected'' then Rejected
      else if s = ''executed'' then Executed
      else if s = ''failed'' then DecisionFailed
      else Proposed)"

definition parse_service_status :: "string \<Rightarrow> service_status" where
  "parse_service_status s =
     (if s = ''active'' then SvcActive
      else if s = ''inactive'' then SvcInactive
      else if s = ''error'' then SvcError
      else SvcActive)"

text \<open>\<open>id.parse().map_err(|_| InvalidPath(format!("invalid ... id: {id}")))\<close>\<close>

definition parse_id :: "'j vifs_lib \<Rightarrow> string \<Rightarrow> string \<Rightarrow> (vifs, vifs_error, ulid) op" where
  "parse_id lib what i =
     st_lift (ok_or (InvalidPath (''invalid '' @ what @ '' id: '' @ i)) (ulid_from_string lib i))"

definition vifs_now :: "(vifs, vifs_error, instant) op" where
  "vifs_now v = (let (t, h) = now_utc (vf_host v) in (Inr t, v\<lparr>vf_host := h\<rparr>))"

definition vifs_ulid :: "(vifs, vifs_error, ulid) op" where
  "vifs_ulid v = (let (u, h) = ulid_new (vf_host v) in (Inr u, v\<lparr>vf_host := h\<rparr>))"

definition unit_op :: "(vifs, vifs_error, 'a) op \<Rightarrow> (vifs, vifs_error, unit) op" where
  "unit_op m = st_bind m (\<lambda>_. st_ok ())"

text \<open>Runs the operation only when the path exists; \<open>Ok(())\<close> otherwise.\<close>

definition when_exists ::
  "vifs_path \<Rightarrow> (vifs, vifs_error, unit) op \<Rightarrow> (vifs, vifs_error, unit) op" where
  "when_exists path m v = (if vifs_exists v path then m v else st_ok () v)"

section \<open>The projector, one definition per event\<close>

definition project_entity_created :: "'j vifs_lib \<Rightarrow> string \<Rightarrow> string \<Rightarrow> string \<Rightarrow> metadata \<Rightarrow> instant \<Rightarrow> (vifs, vifs_error, unit) op" where
  "project_entity_created lib i kind name attributes first_seen =
     st_bind (parse_id lib ''entity'' i) (\<lambda>eid.
     st_bind vifs_now (\<lambda>now.
     unit_op (write_entity lib
       \<lparr>ent_id = eid, ent_kind = kind, ent_name = name, ent_attributes = attributes,
        ent_first_seen = first_seen, ent_last_seen = first_seen, ent_created_at = now,
        ent_metadata = Map.empty\<rparr>)))"

definition entity_update ::
  "string option \<Rightarrow> string option \<Rightarrow> metadata option \<Rightarrow> entity \<Rightarrow> entity" where
  "entity_update kind name attributes e0 =
     (let e1 = (case kind of Some k \<Rightarrow> e0\<lparr>ent_kind := k\<rparr> | None \<Rightarrow> e0);
          e2 = (case name of Some n \<Rightarrow> e1\<lparr>ent_name := n\<rparr> | None \<Rightarrow> e1)
      in (case attributes of Some a \<Rightarrow> e2\<lparr>ent_attributes := a\<rparr> | None \<Rightarrow> e2))"

definition project_entity_updated :: "'j vifs_lib \<Rightarrow> string \<Rightarrow> string option \<Rightarrow> string option \<Rightarrow> metadata option \<Rightarrow> (vifs, vifs_error, unit) op" where
  "project_entity_updated lib i kind name attributes =
     st_bind (parse_id lib ''entity'' i) (\<lambda>eid.
     when_exists (vp_entity lib eid)
       (st_bind (read_entity lib eid) (\<lambda>e.
        st_bind vifs_now (\<lambda>now.
        unit_op (write_entity lib ((entity_update kind name attributes e)\<lparr>ent_last_seen := now\<rparr>))))))"

definition project_entity_deleted :: "'j vifs_lib \<Rightarrow> string \<Rightarrow> (vifs, vifs_error, unit) op" where
  "project_entity_deleted lib i =
     st_bind (parse_id lib ''entity'' i) (\<lambda>eid. vifs_delete (vp_entity lib eid))"

definition project_observation_recorded :: "'j vifs_lib \<Rightarrow> string \<Rightarrow> string \<Rightarrow> u8 list \<Rightarrow> string option \<Rightarrow> string \<Rightarrow> instant \<Rightarrow> (vifs, vifs_error, unit) op" where
  "project_observation_recorded lib i kind data content_type source observed_at =
     st_bind (parse_id lib ''observation'' i) (\<lambda>oid.
     st_bind vifs_now (\<lambda>now.
     unit_op (write_observation lib
       \<lparr>obs_id = oid, obs_kind = kind, obs_data = data, obs_content_type = content_type,
        obs_source = source, obs_observed_at = observed_at, obs_created_at = now,
        obs_metadata = Map.empty\<rparr>)))"

definition project_artifact_stored :: "'j vifs_lib \<Rightarrow> string \<Rightarrow> string \<Rightarrow> string \<Rightarrow> string option \<Rightarrow> u64 \<Rightarrow> string \<Rightarrow> string \<Rightarrow> (vifs, vifs_error, unit) op" where
  "project_artifact_stored lib i session_id kind content_type byte_count sha256 storage_path =
     st_bind (parse_id lib ''artifact'' i) (\<lambda>aid.
     st_bind (parse_id lib ''session'' session_id) (\<lambda>sid.
     st_bind vifs_now (\<lambda>now.
     unit_op (write_artifact lib
       \<lparr>art_id = aid, art_session_id = sid, art_kind = kind, art_content_type = content_type,
        art_byte_count = byte_count, art_sha256 = sha256, art_storage_path = storage_path,
        art_created_at = now, art_metadata = Map.empty\<rparr>))))"

definition project_artifact_deleted :: "'j vifs_lib \<Rightarrow> string \<Rightarrow> (vifs, vifs_error, unit) op" where
  "project_artifact_deleted lib i =
     st_bind (parse_id lib ''artifact'' i) (\<lambda>aid. vifs_delete (vp_artifact lib aid))"

definition project_evidence_extracted :: "'j vifs_lib \<Rightarrow> string \<Rightarrow> string \<Rightarrow> string \<Rightarrow> 'j \<Rightarrow> f64 \<Rightarrow> (vifs, vifs_error, unit) op" where
  "project_evidence_extracted lib i artifact_id kind val confidence =
     st_bind (parse_id lib ''evidence'' i) (\<lambda>eid.
     st_bind (parse_id lib ''artifact'' artifact_id) (\<lambda>aid.
     st_bind vifs_now (\<lambda>now.
     unit_op (write_evidence lib
       \<lparr>evd_id = eid, evd_artifact_id = aid, evd_kind = kind, evd_value = val,
        evd_confidence = confidence, evd_created_at = now, evd_metadata = Map.empty\<rparr>))))"

definition project_relationship_established :: "'j vifs_lib \<Rightarrow> string \<Rightarrow> string \<Rightarrow> string \<Rightarrow> string \<Rightarrow> string \<Rightarrow> string \<Rightarrow> (vifs, vifs_error, unit) op" where
  "project_relationship_established lib i kind source_type source_id target_type target_id =
     st_bind (parse_id lib ''relationship'' i) (\<lambda>rid.
     st_bind vifs_now (\<lambda>first.
     st_bind vifs_now (\<lambda>last.
     st_bind vifs_now (\<lambda>created.
     unit_op (write_relationship lib
       \<lparr>rel_id = rid, rel_kind = kind, rel_source_type = source_type, rel_source_id = source_id,
        rel_target_type = target_type, rel_target_id = target_id, rel_properties = Map.empty,
        rel_first_seen = first, rel_last_seen = last, rel_created_at = created,
        rel_metadata = Map.empty\<rparr>)))))"

definition project_relationship_deleted :: "'j vifs_lib \<Rightarrow> string \<Rightarrow> (vifs, vifs_error, unit) op" where
  "project_relationship_deleted lib i =
     st_bind (parse_id lib ''relationship'' i) (\<lambda>rid. vifs_delete (vp_relationship lib rid))"

definition project_knowledge_produced :: "'j vifs_lib \<Rightarrow> string \<Rightarrow> string \<Rightarrow> 'j \<Rightarrow> f64 \<Rightarrow> string list \<Rightarrow> (vifs, vifs_error, unit) op" where
  "project_knowledge_produced lib i kind content confidence source_ids =
     st_bind (parse_id lib ''knowledge'' i) (\<lambda>kid.
     st_bind vifs_now (\<lambda>now.
     unit_op (write_knowledge lib
       \<lparr>kn_id = kid, kn_kind = kind, kn_content = content, kn_confidence = confidence,
        kn_source_ids = source_ids, kn_created_at = now, kn_metadata = Map.empty\<rparr>)))"

definition project_finding_created :: "'j vifs_lib \<Rightarrow> string \<Rightarrow> string \<Rightarrow> string \<Rightarrow> string \<Rightarrow> string \<Rightarrow> string \<Rightarrow> f64 \<Rightarrow> string list \<Rightarrow> (vifs, vifs_error, unit) op" where
  "project_finding_created lib i investigation_id kind title description sev confidence source_ids =
     st_bind (parse_id lib ''finding'' i) (\<lambda>fid.
     st_bind (parse_id lib ''investigation'' investigation_id) (\<lambda>iid.
     st_bind vifs_now (\<lambda>now.
     unit_op (write_finding lib
       \<lparr>fnd_id = fid, fnd_investigation_id = iid, fnd_kind = kind, fnd_title = title,
        fnd_description = description, fnd_severity = parse_severity sev,
        fnd_confidence = confidence, fnd_source_ids = source_ids, fnd_created_at = now,
        fnd_metadata = Map.empty\<rparr>))))"

definition finding_update ::
  "string option \<Rightarrow> string option \<Rightarrow> string option \<Rightarrow> f64 option \<Rightarrow> finding \<Rightarrow> finding" where
  "finding_update title description sev confidence f0 =
     (let f1 = (case title of Some t \<Rightarrow> f0\<lparr>fnd_title := t\<rparr> | None \<Rightarrow> f0);
          f2 = (case description of Some d \<Rightarrow> f1\<lparr>fnd_description := d\<rparr> | None \<Rightarrow> f1);
          f3 = (case sev of Some s \<Rightarrow> f2\<lparr>fnd_severity := parse_severity s\<rparr> | None \<Rightarrow> f2)
      in (case confidence of Some c \<Rightarrow> f3\<lparr>fnd_confidence := c\<rparr> | None \<Rightarrow> f3))"

definition project_finding_updated :: "'j vifs_lib \<Rightarrow> string \<Rightarrow> string option \<Rightarrow> string option \<Rightarrow> string option \<Rightarrow> f64 option \<Rightarrow> (vifs, vifs_error, unit) op" where
  "project_finding_updated lib i title description sev confidence =
     st_bind (parse_id lib ''finding'' i) (\<lambda>fid.
     when_exists (vp_finding lib fid)
       (st_bind (read_finding lib fid) (\<lambda>f.
        unit_op (write_finding lib (finding_update title description sev confidence f)))))"

definition project_decision_made :: "'j vifs_lib \<Rightarrow> string \<Rightarrow> string list \<Rightarrow> string \<Rightarrow> string \<Rightarrow> string \<Rightarrow> string \<Rightarrow> (vifs, vifs_error, unit) op" where
  "project_decision_made lib i finding_ids kind rationale actor status =
     st_bind (parse_id lib ''decision'' i) (\<lambda>did.
     st_bind vifs_now (\<lambda>now.
     unit_op (write_decision lib
       \<lparr>dcs_id = did, dcs_finding_ids = List.map_filter (ulid_from_string lib) finding_ids,
        dcs_kind = kind, dcs_rationale = rationale, dcs_actor = actor,
        dcs_status = parse_decision_status status, dcs_created_at = now,
        dcs_executed_at = None, dcs_metadata = Map.empty\<rparr>)))"

definition project_decision_executed :: "'j vifs_lib \<Rightarrow> string \<Rightarrow> (vifs, vifs_error, unit) op" where
  "project_decision_executed lib i =
     st_bind (parse_id lib ''decision'' i) (\<lambda>did.
     when_exists (vp_decision lib did)
       (st_bind (read_decision lib did) (\<lambda>d.
        st_bind vifs_now (\<lambda>now.
        unit_op (write_decision lib (d\<lparr>dcs_status := Executed, dcs_executed_at := Some now\<rparr>))))))"

definition project_service_registered :: "'j vifs_lib \<Rightarrow> string \<Rightarrow> string \<Rightarrow> string \<Rightarrow> string \<Rightarrow> string \<Rightarrow> string option \<Rightarrow> (vifs, vifs_error, unit) op" where
  "project_service_registered lib i name kind locator status version =
     st_bind (parse_id lib ''service'' i) (\<lambda>sid.
     st_bind vifs_now (\<lambda>now.
     unit_op (write_service lib
       \<lparr>svc_id = sid, svc_name = name, svc_kind = kind, svc_locator = locator,
        svc_status = parse_service_status status, svc_version = version, svc_created_at = now,
        svc_metadata = Map.empty\<rparr>)))"

definition service_update ::
  "string option \<Rightarrow> string option \<Rightarrow> string option \<Rightarrow> service \<Rightarrow> service" where
  "service_update name status version s0 =
     (let s1 = (case name of Some n \<Rightarrow> s0\<lparr>svc_name := n\<rparr> | None \<Rightarrow> s0);
          s2 = (case status of Some st \<Rightarrow> s1\<lparr>svc_status := parse_service_status st\<rparr> | None \<Rightarrow> s1)
      in (case version of Some w \<Rightarrow> s2\<lparr>svc_version := Some w\<rparr> | None \<Rightarrow> s2))"

definition project_service_updated :: "'j vifs_lib \<Rightarrow> string \<Rightarrow> string option \<Rightarrow> string option \<Rightarrow> string option \<Rightarrow> (vifs, vifs_error, unit) op" where
  "project_service_updated lib i name status version =
     st_bind (parse_id lib ''service'' i) (\<lambda>sid.
     when_exists (vp_service lib sid)
       (st_bind (read_service lib sid) (\<lambda>s.
        unit_op (write_service lib (service_update name status version s)))))"

definition project_service_deleted :: "'j vifs_lib \<Rightarrow> string \<Rightarrow> (vifs, vifs_error, unit) op" where
  "project_service_deleted lib i =
     st_bind (parse_id lib ''service'' i) (\<lambda>sid. vifs_delete (vp_service lib sid))"

definition project_investigation_opened :: "'j vifs_lib \<Rightarrow> string \<Rightarrow> string \<Rightarrow> string \<Rightarrow> string \<Rightarrow> string list \<Rightarrow> (vifs, vifs_error, unit) op" where
  "project_investigation_opened lib i title description owner tags =
     st_bind (parse_id lib ''investigation'' i) (\<lambda>iid.
     st_bind vifs_now (\<lambda>created.
     st_bind vifs_now (\<lambda>updated.
     unit_op (write_investigation lib
       \<lparr>inv_id = iid, inv_title = title, inv_description = description, inv_status = InvOpen,
        inv_owner = owner, inv_tags = tags, inv_created_at = created, inv_updated_at = updated,
        inv_metadata = Map.empty\<rparr>))))"

definition project_investigation_status :: "'j vifs_lib \<Rightarrow> investigation_status \<Rightarrow> string \<Rightarrow> (vifs, vifs_error, unit) op" where
  "project_investigation_status lib status i =
     st_bind (parse_id lib ''investigation'' i) (\<lambda>iid.
     when_exists (vp_investigation lib iid)
       (st_bind (read_investigation lib iid) (\<lambda>x.
        st_bind vifs_now (\<lambda>now.
        unit_op (write_investigation lib (x\<lparr>inv_status := status, inv_updated_at := now\<rparr>))))))"

definition project_timeline_entry_added :: "'j vifs_lib \<Rightarrow> string \<Rightarrow> string \<Rightarrow> instant \<Rightarrow> string \<Rightarrow> string \<Rightarrow> string \<Rightarrow> (vifs, vifs_error, unit) op" where
  "project_timeline_entry_added lib i investigation_id timestamp kind source_id summary =
     st_bind (parse_id lib ''timeline'' i) (\<lambda>tid.
     st_bind (parse_id lib ''investigation'' investigation_id) (\<lambda>iid.
     (let item = \<lparr>tle_id = i, tle_timestamp = timestamp, tle_kind = kind,
           tle_source_id = source_id, tle_summary = summary, tle_metadata = Map.empty\<rparr>
      in st_bind (\<lambda>v. if vifs_exists v (vp_timeline lib tid) then read_timeline lib tid v
                   else st_bind vifs_now (\<lambda>now. st_ok
                     \<lparr>tl_id = tid, tl_investigation_id = iid, tl_entries = [],
                      tl_created_at = now, tl_metadata = Map.empty\<rparr>) v)
           (\<lambda>tl. unit_op (write_timeline lib (tl\<lparr>tl_entries := tl_entries tl @ [item]\<rparr>))))))"

definition project_agent_started :: "'j vifs_lib \<Rightarrow> string \<Rightarrow> string \<Rightarrow> string \<Rightarrow> string \<Rightarrow> (vifs, vifs_error, unit) op" where
  "project_agent_started lib i name kind version =
     st_bind vifs_now (\<lambda>now.
     vifs_write (''/agents/'' @ i) (json_bytes lib (json_obj lib
       [(''id'', json_str lib i), (''name'', json_str lib name), (''kind'', json_str lib kind),
        (''version'', json_str lib version), (''status'', json_str lib ''running''),
        (''timestamp'', json_str lib (time_to_string lib now))])))"

definition project_agent_stopped :: "'j vifs_lib \<Rightarrow> string \<Rightarrow> string \<Rightarrow> (vifs, vifs_error, unit) op" where
  "project_agent_stopped lib i reason =
     st_bind vifs_now (\<lambda>now.
     vifs_write (''/agents/'' @ i) (json_bytes lib (json_obj lib
       [(''id'', json_str lib i), (''status'', json_str lib ''stopped''),
        (''reason'', json_str lib reason),
        (''timestamp'', json_str lib (time_to_string lib now))])))"

definition project_agent_heartbeat :: "'j vifs_lib \<Rightarrow> string \<Rightarrow> string \<Rightarrow> instant \<Rightarrow> (vifs, vifs_error, unit) op" where
  "project_agent_heartbeat lib i status timestamp =
     st_bind vifs_now (\<lambda>now.
     st_bind vifs_ulid (\<lambda>u.
     vifs_write (''/agents/'' @ i @ ''/heartbeats/'' @ ulid_to_string lib u)
       (json_bytes lib (json_obj lib
         [(''agent_id'', json_str lib i), (''status'', json_str lib status),
          (''timestamp'', json_str lib (time_to_string lib now))]))))"

definition project_monitoring_change :: "'j vifs_lib \<Rightarrow> string \<Rightarrow> string \<Rightarrow> string \<Rightarrow> string \<Rightarrow> 'j option \<Rightarrow> 'j \<Rightarrow> instant \<Rightarrow> (vifs, vifs_error, unit) op" where
  "project_monitoring_change lib i watcher_kind subject change_type previous current detected_at =
     vifs_write (''/monitoring/changes/'' @ i) (json_bytes lib (json_obj lib
       [(''id'', json_str lib i), (''watcher_kind'', json_str lib watcher_kind),
        (''subject'', json_str lib subject), (''change_type'', json_str lib change_type),
        (''current_state'', current),
        (''detected_at'', json_str lib (time_to_string lib detected_at))]))"

fun project_event :: "'j vifs_lib \<Rightarrow> 'j system_event \<Rightarrow> (vifs, vifs_error, unit) op" where
  "project_event lib (EntityCreated i k n a f) = project_entity_created lib i k n a f"
| "project_event lib (EntityUpdated i k n a) = project_entity_updated lib i k n a"
| "project_event lib (EntityDeleted i) = project_entity_deleted lib i"
| "project_event lib (ObservationRecorded i k d c s t) = project_observation_recorded lib i k d c s t"
| "project_event lib (ArtifactStored i s k c b h p) = project_artifact_stored lib i s k c b h p"
| "project_event lib (ArtifactDeleted i) = project_artifact_deleted lib i"
| "project_event lib (EvidenceExtracted i a k x c) = project_evidence_extracted lib i a k x c"
| "project_event lib (RelationshipEstablished i k st si tt ti) =
     project_relationship_established lib i k st si tt ti"
| "project_event lib (RelationshipDeleted i) = project_relationship_deleted lib i"
| "project_event lib (KnowledgeProduced i k x c ss) = project_knowledge_produced lib i k x c ss"
| "project_event lib (FindingCreated i v k t d s c ss) = project_finding_created lib i v k t d s c ss"
| "project_event lib (FindingUpdated i t d s c) = project_finding_updated lib i t d s c"
| "project_event lib (DecisionMade i fs k r a st) = project_decision_made lib i fs k r a st"
| "project_event lib (DecisionExecuted i) = project_decision_executed lib i"
| "project_event lib (ServiceRegistered i n k l st w) = project_service_registered lib i n k l st w"
| "project_event lib (ServiceUpdated i n st w) = project_service_updated lib i n st w"
| "project_event lib (ServiceDeleted i) = project_service_deleted lib i"
| "project_event lib (InvestigationOpened i t d own tg) = project_investigation_opened lib i t d own tg"
| "project_event lib (InvestigationClosed i) = project_investigation_status lib InvClosed i"
| "project_event lib (InvestigationArchived i) = project_investigation_status lib InvArchived i"
| "project_event lib (TimelineEntryAdded i v t k si su) = project_timeline_entry_added lib i v t k si su"
| "project_event lib (AgentStarted i n k w) = project_agent_started lib i n k w"
| "project_event lib (AgentStopped i r) = project_agent_stopped lib i r"
| "project_event lib (AgentHeartbeat i st t) = project_agent_heartbeat lib i st t"
| "project_event lib (MonitoringChangeDetected i w s c p x t) = project_monitoring_change lib i w s c p x t"

section \<open>Replay\<close>

text \<open>
  The aggregate types the replay walks, in order. \<open>all_of\<close> is \<open>read_all\<close> of the
  store passed in, \<open>from_value\<close> serde's reading of an event from an envelope's data;
  the outer \<open>None\<close> is a panic of the store.
\<close>

definition replay_types :: "string list" where
  "replay_types = [''Entity'', ''Observation'', ''Artifact'', ''Evidence'', ''Relationship'',
     ''Knowledge'', ''Finding'', ''Decision'', ''Service'', ''Investigation'', ''Timeline'']"

fun event_store_error_msg :: "event_store_error \<Rightarrow> string" where
  "event_store_error_msg (StorageError m) = ''event store error: '' @ m"
| "event_store_error_msg (VersionConflict a e g) =
     ''version conflict for aggregate '' @ a @ '': expected '' @ show_nat (unat e) @
     '', got '' @ show_nat (unat g)"

fun replay_envelopes ::
  "'j vifs_lib \<Rightarrow> ('j \<Rightarrow> (string, 'j system_event) result) \<Rightarrow> 'j event_envelope list \<Rightarrow>
   u64 \<Rightarrow> (vifs, vifs_error, u64) op" where
  "replay_envelopes lib from_value [] cnt = st_ok cnt"
| "replay_envelopes lib from_value (e # es) cnt =
     st_bind (st_lift (map_err Serialization (from_value (ee_data e)))) (\<lambda>ev.
     st_bind (project_event lib ev) (\<lambda>_.
     replay_envelopes lib from_value es (cnt + 1)))"

fun replay_loop ::
  "'j vifs_lib \<Rightarrow> ('j \<Rightarrow> (string, 'j system_event) result) \<Rightarrow>
   (string \<Rightarrow> (event_store_error, 'j event_envelope list) result option) \<Rightarrow>
   string list \<Rightarrow> u64 \<Rightarrow> vifs \<Rightarrow> ((vifs_error, u64) result \<times> vifs) option" where
  "replay_loop lib from_value all_of [] cnt v = Some (Inr cnt, v)"
| "replay_loop lib from_value all_of (t # ts) cnt v =
     (case all_of t of
        None \<Rightarrow> None
      | Some (Inl err) \<Rightarrow> Some (Inl (VifsStorage (event_store_error_msg err)), v)
      | Some (Inr es) \<Rightarrow>
          (case replay_envelopes lib from_value es cnt v of
             (Inl err, v') \<Rightarrow> Some (Inl err, v')
           | (Inr cnt', v') \<Rightarrow> replay_loop lib from_value all_of ts cnt' v'))"

definition replay_from_event_store ::
  "'j vifs_lib \<Rightarrow> ('j \<Rightarrow> (string, 'j system_event) result) \<Rightarrow>
   (string \<Rightarrow> (event_store_error, 'j event_envelope list) result option) \<Rightarrow>
   vifs \<Rightarrow> ((vifs_error, u64) result \<times> vifs) option" where
  "replay_from_event_store lib from_value all_of v =
     replay_loop lib from_value all_of replay_types 0 v"

lemmas project_defs =
  project_entity_created_def
  project_entity_updated_def
  project_entity_deleted_def
  project_observation_recorded_def
  project_artifact_stored_def
  project_artifact_deleted_def
  project_evidence_extracted_def
  project_relationship_established_def
  project_relationship_deleted_def
  project_knowledge_produced_def
  project_finding_created_def
  project_finding_updated_def
  project_decision_made_def
  project_decision_executed_def
  project_service_registered_def
  project_service_updated_def
  project_service_deleted_def
  project_investigation_opened_def
  project_investigation_status_def
  project_timeline_entry_added_def
  project_agent_started_def
  project_agent_stopped_def
  project_agent_heartbeat_def
  project_monitoring_change_def

section \<open>Where an operation writes\<close>

text \<open>An operation is confined to an area when it keeps the filesystem well formed and
  changes no key outside the area, whether it succeeds or fails.\<close>

definition confined :: "string \<Rightarrow> (vifs, vifs_error, 'a) op \<Rightarrow> bool" where
  "confined A m \<longleftrightarrow> (\<forall>v. vifs_inv v \<longrightarrow>
     vifs_inv (snd (m v)) \<and> (\<forall>k. \<not> prefix A k \<longrightarrow> contents (snd (m v)) k = contents v k))"

named_theorems confined_intros \<open>composition of confined operations\<close>

lemma confined_pure [confined_intros]:
  "confined A (st_ok a)" "confined A (st_err e)" "confined A (st_lift r)"
  by (simp_all add: confined_def)

lemma confined_read [confined_intros]: "confined A (vifs_read p)"
  by (simp add: confined_def)

lemma confined_host [confined_intros]: "confined A vifs_now" "confined A vifs_ulid"
  by (simp_all add: confined_def vifs_now_def vifs_ulid_def now_utc_def ulid_new_def vifs_inv_def
      contents_def fun_eq_iff)

lemma confined_bind [confined_intros]:
  assumes "confined A m" and "\<And>a. confined A (f a)"
  shows "confined A (st_bind m f)"
  unfolding confined_def
proof (intro allI impI)
  fix v assume v: "vifs_inv v"
  obtain r v1 where m: "m v = (r, v1)" by (cases "m v")
  from assms(1) v m have v1: "vifs_inv v1" "\<forall>k. \<not> prefix A k \<longrightarrow> contents v1 k = contents v k"
    by (auto simp: confined_def dest!: spec [where x = v])
  show "vifs_inv (snd (st_bind m f v)) \<and>
      (\<forall>k. \<not> prefix A k \<longrightarrow> contents (snd (st_bind m f v)) k = contents v k)"
  proof (cases r)
    case (Inl e)
    with m v1 show ?thesis by (simp add: st_bind_def)
  next
    case (Inr a)
    with m v1 assms(2) [of a] show ?thesis by (simp add: st_bind_def confined_def)
  qed
qed

lemma confined_write [confined_intros]:
  assumes "prefix A (vp_to_key p)"
  shows "confined A (vifs_write p d)"
  unfolding confined_def
proof (intro allI impI conjI)
  fix v k assume v: "vifs_inv v"
  then show "vifs_inv (snd (vifs_write p d v))" by (rule vifs_inv_write)
  assume "\<not> prefix A k"
  with assms have "k \<noteq> vp_to_key p" by blast
  then show "contents (snd (vifs_write p d v)) k = contents v k"
    using write_contents [OF v, of p d] by (cases "vp_to_key p = vifs_prefix") (simp_all add: write_root)
qed

lemma confined_delete [confined_intros]:
  assumes "prefix A (vp_to_key p)"
  shows "confined A (vifs_delete p)"
  using assms by (auto simp: confined_def delete_contents intro: vifs_inv_delete)

lemma confined_when_exists [confined_intros]: "confined A m \<Longrightarrow> confined A (when_exists p m)"
  by (simp add: confined_def when_exists_def)

lemma confined_unit_op [confined_intros]: "confined A m \<Longrightarrow> confined A (unit_op m)"
  unfolding unit_op_def by (intro confined_intros)

lemma confined_write_object [confined_intros]:
  "prefix A (vp_to_key p) \<Longrightarrow> confined A (write_object c p x)"
  unfolding write_object_def by (intro confined_intros)

lemma confined_read_object [confined_intros]: "confined A (read_object c p)"
  unfolding read_object_def by (intro confined_intros)

lemma confined_if [confined_intros]:
  "confined A m \<Longrightarrow> confined A n \<Longrightarrow> confined A (\<lambda>v. if P v then m v else n v)"
  by (simp add: confined_def)

lemma confined_parse_id [confined_intros]: "confined A (parse_id lib what i)"
  unfolding parse_id_def by (intro confined_intros)

lemma key_in_dir:
  assumes "d \<in> object_dirs"
  shows "prefix (vifs_prefix @ d) (vp_to_key (vp_join d n))"
proof -
  from object_dir_shape [OF assms] obtain r where "d = (''/'' @ r) @ ''/''" by auto
  then have "strip_suffix ''/'' d = Some (''/'' @ r)" by (simp only: strip_suffix_append)
  then have "vp_join d n = ''/'' @ r @ ''/'' @ unwrap_or n (strip_prefix ''/'' n)"
    by (simp add: vp_join_def Let_def)
  then show ?thesis
    using \<open>d = (''/'' @ r) @ ''/''\<close> by (simp add: vp_to_key_def strip_prefix_def)
qed

lemma key_of_object [confined_intros]:
  "prefix (vifs_prefix @ dir_entities) (vp_to_key (vp_entity lib i))"
  "prefix (vifs_prefix @ dir_observations) (vp_to_key (vp_observation lib i))"
  "prefix (vifs_prefix @ dir_artifacts) (vp_to_key (vp_artifact lib i))"
  "prefix (vifs_prefix @ dir_evidence) (vp_to_key (vp_evidence lib i))"
  "prefix (vifs_prefix @ dir_relationships) (vp_to_key (vp_relationship lib i))"
  "prefix (vifs_prefix @ dir_knowledge) (vp_to_key (vp_knowledge lib i))"
  "prefix (vifs_prefix @ dir_findings) (vp_to_key (vp_finding lib i))"
  "prefix (vifs_prefix @ dir_decisions) (vp_to_key (vp_decision lib i))"
  "prefix (vifs_prefix @ dir_timelines) (vp_to_key (vp_timeline lib i))"
  "prefix (vifs_prefix @ dir_investigations) (vp_to_key (vp_investigation lib i))"
  "prefix (vifs_prefix @ dir_services) (vp_to_key (vp_service lib i))"
  unfolding vp_object_defs by (rule key_in_dir, simp)+

lemma key_of_record [confined_intros]:
  "prefix ''vifs/agents/'' (vp_to_key (''/agents/'' @ i))"
  "prefix ''vifs/monitoring/changes/'' (vp_to_key (''/monitoring/changes/'' @ i))"
  by (simp_all add: vp_to_key_def strip_prefix_def vifs_prefix_def)

text \<open>The area of an event, by its aggregate type.\<close>

definition event_area :: "'j system_event \<Rightarrow> string" where
  "event_area ev = the (map_of
     [(''Entity'', vifs_prefix @ dir_entities), (''Observation'', vifs_prefix @ dir_observations),
      (''Artifact'', vifs_prefix @ dir_artifacts), (''Evidence'', vifs_prefix @ dir_evidence),
      (''Relationship'', vifs_prefix @ dir_relationships),
      (''Knowledge'', vifs_prefix @ dir_knowledge), (''Finding'', vifs_prefix @ dir_findings),
      (''Decision'', vifs_prefix @ dir_decisions), (''Service'', vifs_prefix @ dir_services),
      (''Investigation'', vifs_prefix @ dir_investigations),
      (''Timeline'', vifs_prefix @ dir_timelines), (''Agent'', ''vifs/agents/''),
      (''Monitoring'', ''vifs/monitoring/changes/'')] (se_aggregate_type ev))"

lemma confined_project: "confined (event_area ev) (project_event lib ev)"
  by (cases ev; simp add: event_area_def;
      simp only: project_defs write_object_defs read_object_defs Let_def;
      intro confined_intros)

section \<open>Reading back what was written\<close>

lemma object_key_not_root: "d \<in> object_dirs \<Longrightarrow> vp_to_key (vp_join d n) \<noteq> vifs_prefix"
  using key_in_dir [of d n] by (auto simp: prefix_def dir_defs)

lemma object_keys_not_root [simp]:
  "vp_to_key (vp_entity lib i) \<noteq> vifs_prefix" "vp_to_key (vp_timeline lib i) \<noteq> vifs_prefix"
  "vp_to_key (vp_investigation lib i) \<noteq> vifs_prefix"
  by (simp_all add: vp_object_defs object_key_not_root)

lemma read_object_contents:
  "read_object c p v =
     (case contents v (vp_to_key p) of
        None \<Rightarrow> Inl (NotFound p) | Some b \<Rightarrow> map_err Serialization (dec c b), v)"
  by (simp add: read_object_def st_bind_def read_contents split: option.split)

lemma write_object_stores:
  assumes "vifs_inv v" and "codec_ok_at c x" and "vp_to_key p \<noteq> vifs_prefix"
  obtains v' where "write_object c p x v = (Inr p, v')" "vifs_inv v'"
    "read_object c p v' = (Inr x, v')" "vifs_exists v' p"
proof -
  from assms(2) obtain b where b: "enc c x = Inr b" "dec c b = Inr x"
    by (auto simp: codec_ok_at_def split: sum.splits)
  obtain v' where w: "vifs_write p b v = (Inr (), v')"
    and c: "contents v' = (contents v)(vp_to_key p \<mapsto> b)"
    using write_contents [OF assms(1,3), of b] by (cases "vifs_write p b v") auto
  have i: "vifs_inv v'" using vifs_inv_write [OF assms(1), of p b] w by simp
  show thesis
    by (rule that [of v']) (use w b c i in \<open>simp_all add: write_object_def st_bind_def
        read_object_contents exists_contents\<close>)
qed

lemma entity_update_id [simp]:
  "ent_id (entity_update k n a e) = ent_id e"
  "ent_first_seen (entity_update k n a e) = ent_first_seen e"
  "ent_created_at (entity_update k n a e) = ent_created_at e"
  by (simp_all add: entity_update_def Let_def split: option.splits)

definition host_time :: "vifs \<Rightarrow> instant" where
  "host_time v = clock (vf_host v) (calls (vf_host v))"

lemma vifs_now_eq: "vifs_now v = (Inr (host_time v), v\<lparr>vf_host := snd (now_utc (vf_host v))\<rparr>)"
  by (simp add: vifs_now_def now_utc_def host_time_def)

lemma vifs_host_update [simp]:
  "vifs_inv (v\<lparr>vf_host := h\<rparr>) = vifs_inv v" "contents (v\<lparr>vf_host := h\<rparr>) = contents v"
  "vifs_exists (v\<lparr>vf_host := h\<rparr>) p = vifs_exists v p"
  by (simp_all add: vifs_inv_def contents_def vifs_exists_def fun_eq_iff)

section \<open>A concrete library\<close>

text \<open>Used to show that the hypotheses can hold together.\<close>

definition ex_entity :: "string \<Rightarrow> entity" where
  "ex_entity name = \<lparr>ent_id = 1, ent_kind = ''ip'', ent_name = name, ent_attributes = Map.empty,
     ent_first_seen = 0, ent_last_seen = 0, ent_created_at = 0, ent_metadata = Map.empty\<rparr>"

definition ex_entity_codec :: "entity codec" where
  "ex_entity_codec =
     \<lparr>enc = (\<lambda>e. Inr (if ent_name e = ''a'' then [0] else [1])),
      dec = (\<lambda>b. Inr (ex_entity (if b = [0] then ''a'' else ''b'')))\<rparr>"

definition ex_codec :: "'a codec" where
  "ex_codec = \<lparr>enc = (\<lambda>_. Inr [0]), dec = (\<lambda>_. Inl ''unused'')\<rparr>"

definition ex_lib :: "nat vifs_lib" where
  "ex_lib = \<lparr>ulid_to_string = (\<lambda>u. if u = 1 then ''1'' else ''2''),
     ulid_from_string = (\<lambda>s. if s = ''1'' then Some 1 else if s = ''2'' then Some 2 else None),
     time_to_string = show_int, json_str = length, json_obj = length, json_bytes = (\<lambda>n. [of_nat n]),
     c_observation = ex_codec,
     c_artifact = ex_codec,
     c_evidence = ex_codec,
     c_entity = ex_entity_codec,
     c_relationship = ex_codec,
     c_knowledge = ex_codec,
     c_finding = ex_codec,
     c_decision = ex_codec,
     c_timeline = ex_codec,
     c_investigation = ex_codec,
     c_service = ex_codec\<rparr>"

lemma ex_entity_codec_ok: "codec_ok_at ex_entity_codec (ex_entity ''a'')"
  "codec_ok_at ex_entity_codec (ex_entity ''b'')"
  by (simp_all add: codec_ok_at_def ex_entity_codec_def ex_entity_def)

lemma ex_lib_simps: "ulid_from_string ex_lib ''1'' = Some 1" "ulid_from_string ex_lib ''2'' = Some 2"
  "ulid_from_string ex_lib ''t1'' = None" "c_entity ex_lib = ex_entity_codec"
  by (simp_all add: ex_lib_def)

section \<open>Properties\<close>

text \<open>
  C6. Confinement. Projecting an event, successfully or not, changes the filesystem only
  below the directory of the event's own kind of object: an entity event under
  \<open>vifs/entities/\<close>, an agent event under \<open>vifs/agents/\<close> and so on. It keeps the
  filesystem well formed.
\<close>

theorem projection_confined:
  assumes "vifs_inv v" and "\<not> prefix (event_area ev) k"
  shows "vifs_inv (snd (project_event lib ev v))
    \<and> contents (snd (project_event lib ev v)) k = contents v k"
  using confined_project [of ev lib] assms by (simp add: confined_def)

theorem projection_confined_witness:
  "contents (snd (project_event ex_lib (EntityDeleted ''1'') ex_vifs)) ''vifs/services/1''
    = contents ex_vifs ''vifs/services/1''"
  using projection_confined [OF ex_vifs_inv, of "EntityDeleted ''1''" "''vifs/services/1''" ex_lib]
  by (simp add: event_area_def vifs_prefix_def dir_defs)

text \<open>
  The life of an entity. Once created it reads back with the event's fields; an update
  replaces exactly the fields the event gives and the last-seen time, keeping identity,
  first-seen and creation time; after its deletion it is not found. Each projection
  succeeds. The hypotheses are that the identifier parses and that serde reads back the two
  entities it wrote.
\<close>

theorem entity_lifecycle:
  fixes lib :: "'j vifs_lib" and v :: vifs and kind name :: string and attrs :: metadata
    and first :: instant and k n :: "string option" and a :: "metadata option" and eid :: ulid
    and i :: string
  defines "e0 \<equiv> \<lparr>ent_id = eid, ent_kind = kind, ent_name = name, ent_attributes = attrs,
      ent_first_seen = first, ent_last_seen = first, ent_created_at = host_time v,
      ent_metadata = Map.empty\<rparr>"
  defines "r1 \<equiv> project_event lib (EntityCreated i kind name attrs first) v"
  defines "e1 \<equiv> (entity_update k n a e0)\<lparr>ent_last_seen := host_time (snd r1)\<rparr>"
  defines "r2 \<equiv> project_event lib (EntityUpdated i k n a) (snd r1)"
  defines "r3 \<equiv> project_event lib (EntityDeleted i) (snd r2)"
  assumes "vifs_inv v" and "ulid_from_string lib i = Some eid"
    and "codec_ok_at (c_entity lib) e0" and "codec_ok_at (c_entity lib) e1"
  shows "fst r1 = Inr () \<and> fst (read_entity lib eid (snd r1)) = Inr e0
    \<and> fst r2 = Inr () \<and> fst (read_entity lib eid (snd r2)) = Inr e1
    \<and> fst r3 = Inr () \<and> fst (read_entity lib eid (snd r3)) = Inl (NotFound (vp_entity lib eid))
    \<and> ent_id e1 = eid \<and> ent_first_seen e1 = first \<and> ent_created_at e1 = host_time v"
proof -
  let ?p = "vp_entity lib eid" and ?c = "c_entity lib"
  have pid: "parse_id lib w i = st_ok eid" for w
    using assms(7) by (simp add: parse_id_def st_lift_def st_ok_def fun_eq_iff)
  let ?v0 = "v\<lparr>vf_host := snd (now_utc (vf_host v))\<rparr>"
  obtain v1 where w1: "write_object ?c ?p e0 ?v0 = (Inr ?p, v1)" "vifs_inv v1"
    "read_object ?c ?p v1 = (Inr e0, v1)" "vifs_exists v1 ?p"
    using write_object_stores [of ?v0 ?c e0 ?p] assms(6,8) by auto
  have r1: "r1 = (Inr (), v1)"
    using w1(1) by (simp add: r1_def project_entity_created_def pid st_bind_def vifs_now_eq
        unit_op_def write_entity_def e0_def)
  let ?u0 = "v1\<lparr>vf_host := snd (now_utc (vf_host v1))\<rparr>"
  have id1: "ent_id e1 = eid" by (simp add: e1_def e0_def)
  obtain v2 where w2: "write_object ?c ?p e1 ?u0 = (Inr ?p, v2)" "vifs_inv v2"
    "read_object ?c ?p v2 = (Inr e1, v2)" "vifs_exists v2 ?p"
    using write_object_stores [of ?u0 ?c e1 ?p] w1(2) assms(9) by auto
  have r2: "r2 = (Inr (), v2)"
    using w1(3,4) w2(1) id1 by (simp add: r2_def r1 project_entity_updated_def pid when_exists_def
        st_bind_def vifs_now_eq unit_op_def write_entity_def read_entity_def e1_def)
  have r3: "fst r3 = Inr () \<and> contents (snd r3) (vp_to_key ?p) = None"
    using delete_contents [OF w2(2), of ?p] w2(2,4)
    by (simp add: r3_def r2 project_entity_deleted_def pid exists_contents)
  show ?thesis
    using w1(3) w2(3) r3 id1
    by (simp add: r1 r2 read_entity_def read_object_contents) (simp add: e1_def e0_def)
qed

theorem entity_lifecycle_witness:
  "fst (read_entity ex_lib 1 (snd (project_event ex_lib (EntityUpdated ''1'' None (Some ''b'') None)
      (snd (project_event ex_lib (EntityCreated ''1'' ''ip'' ''a'' Map.empty 0) ex_vifs)))))
    = Inr (ex_entity ''b'')"
proof -
  have clk: "clock (vf_host (snd (project_event ex_lib (EntityCreated ''1'' ''ip'' ''a'' Map.empty 0) ex_vifs)))
      = (\<lambda>_. 0)"
    by (simp add: project_entity_created_def parse_id_def ex_lib_def st_bind_def vifs_now_def
        now_utc_def unit_op_def write_entity_def write_object_def vifs_write_def now_millis_def
        ex_entity_codec_def ex_vifs_def Let_def)
  have e0: "\<lparr>ent_id = 1, ent_kind = ''ip'', ent_name = ''a'', ent_attributes = Map.empty,
      ent_first_seen = 0, ent_last_seen = 0, ent_created_at = host_time ex_vifs,
      ent_metadata = Map.empty\<rparr> = ex_entity ''a''"
    by (simp add: ex_entity_def host_time_def ex_vifs_def)
  have e1: "(entity_update None (Some ''b'') None (ex_entity ''a''))\<lparr>ent_last_seen := 0\<rparr> = ex_entity ''b''"
    by (simp add: entity_update_def ex_entity_def)
  have ht: "host_time (snd (project_event ex_lib (EntityCreated ''1'' ''ip'' ''a'' Map.empty 0) ex_vifs)) = 0"
    by (simp only: host_time_def clk)
  show ?thesis
    using entity_lifecycle [OF ex_vifs_inv, of ex_lib "''1''" 1 "''ip''" "''a''" Map.empty 0
        None "Some ''b''" None, unfolded e0 ht e1 ex_lib_simps, OF refl ex_entity_codec_ok]
    by (elim conjE)
qed

text \<open>
  Events that update an object, and events that delete one, with the path they aim at when
  their identifier parses.
\<close>

fun update_target :: "'j vifs_lib \<Rightarrow> 'j system_event \<Rightarrow> vifs_path option" where
  "update_target lib (EntityUpdated i _ _ _) = map_option (vp_entity lib) (ulid_from_string lib i)"
| "update_target lib (FindingUpdated i _ _ _ _) = map_option (vp_finding lib) (ulid_from_string lib i)"
| "update_target lib (DecisionExecuted i) = map_option (vp_decision lib) (ulid_from_string lib i)"
| "update_target lib (ServiceUpdated i _ _ _) = map_option (vp_service lib) (ulid_from_string lib i)"
| "update_target lib (InvestigationClosed i) = map_option (vp_investigation lib) (ulid_from_string lib i)"
| "update_target lib (InvestigationArchived i) = map_option (vp_investigation lib) (ulid_from_string lib i)"
| "update_target lib _ = None"

fun delete_target :: "'j vifs_lib \<Rightarrow> 'j system_event \<Rightarrow> vifs_path option" where
  "delete_target lib (EntityDeleted i) = map_option (vp_entity lib) (ulid_from_string lib i)"
| "delete_target lib (ArtifactDeleted i) = map_option (vp_artifact lib) (ulid_from_string lib i)"
| "delete_target lib (RelationshipDeleted i) = map_option (vp_relationship lib) (ulid_from_string lib i)"
| "delete_target lib (ServiceDeleted i) = map_option (vp_service lib) (ulid_from_string lib i)"
| "delete_target lib _ = None"

lemma parse_id_Some: "ulid_from_string lib i = Some u \<Longrightarrow> parse_id lib w i = st_ok u"
  by (simp add: parse_id_def st_lift_def st_ok_def fun_eq_iff)

lemma parse_id_None: "ulid_from_string lib i = None \<Longrightarrow>
    parse_id lib w i = st_err (InvalidPath (''invalid '' @ w @ '' id: '' @ i))"
  by (simp add: parse_id_def st_lift_def st_err_def fun_eq_iff)

text \<open>
  Missing objects. An update event for an object that is not there succeeds and changes
  nothing; a delete event for such an object fails with \<open>NotFound\<close> of its path and leaves
  every stored byte as it was.
\<close>

theorem missing_object_events:
  assumes "vifs_inv v" and "\<not> vifs_exists v p"
    and "update_target lib ev = Some p \<or> delete_target lib ev = Some p"
  shows "if update_target lib ev = Some p then project_event lib ev v = (Inr (), v)
    else fst (project_event lib ev v) = Inl (NotFound p)
      \<and> contents (snd (project_event lib ev v)) = contents v"
proof (cases "update_target lib ev")
  case None
  with assms(3) have d: "delete_target lib ev = Some p" by simp
  have "project_event lib ev = vifs_delete p"
    using d by (cases ev) (auto simp: project_defs parse_id_Some)
  then show ?thesis
    using None assms(1,2) delete_contents [OF assms(1), of p] by (auto simp: exists_contents)
next
  case (Some q)
  with assms(3) have u: "update_target lib ev = Some p" by (cases ev) auto
  then show ?thesis
    using assms(2) by (cases ev) (auto simp: project_defs parse_id_Some when_exists_def)
qed

theorem missing_object_events_witness:
  "project_event ex_lib (ServiceUpdated ''2'' None None None) ex_vifs = (Inr (), ex_vifs)
    \<and> fst (project_event ex_lib (ServiceDeleted ''2'') ex_vifs) = Inl (NotFound (vp_service ex_lib 2))"
proof -
  have key: "vp_to_key (vp_service ex_lib 2) = ''vifs/services/2''"
    by (simp add: vp_service_def ex_lib_def vp_join_def dir_services_def strip_prefix_def
        strip_suffix_def vp_to_key_def vifs_prefix_def)
  have none: "\<not> vifs_exists ex_vifs (vp_service ex_lib 2)"
    by (simp add: vifs_exists_def storage_exists_def key) (simp add: ex_vifs_def)
  have lib: "ulid_from_string ex_lib ''2'' = Some 2" by (simp add: ex_lib_def)
  show ?thesis
    using missing_object_events [OF ex_vifs_inv none, of ex_lib "ServiceUpdated ''2'' None None None"]
      missing_object_events [OF ex_vifs_inv none, of ex_lib "ServiceDeleted ''2''"]
    by (simp add: lib)
qed

text \<open>
  Identifiers. An event of one of the eleven replayed types whose own identifier is not
  the text of a ULID is refused with \<open>InvalidPath\<close> before anything is read or written.
\<close>

theorem unparsable_id_refused:
  assumes "ulid_from_string lib (se_aggregate_id ev) = None"
    and "se_aggregate_type ev \<in> set replay_types"
  shows "\<exists>what. project_event lib ev v
    = (Inl (InvalidPath (''invalid '' @ what @ '' id: '' @ se_aggregate_id ev)), v)"
  using assms by (cases ev) (auto simp: project_defs parse_id_None replay_types_def)

theorem unparsable_id_refused_witness:
  "\<exists>what. project_event ex_lib (ServiceRegistered ''t1'' ''n'' ''k'' ''l'' ''active'' None) ex_vifs
    = (Inl (InvalidPath (''invalid '' @ what @ '' id: '' @ ''t1'')), ex_vifs)"
  using unparsable_id_refused [of ex_lib "ServiceRegistered ''t1'' ''n'' ''k'' ''l'' ''active'' None" ex_vifs]
  by (simp add: ex_lib_def replay_types_def)

section \<open>Replay\<close>

lemma replay_envelopes_append:
  "replay_envelopes lib fv (xs @ ys) n v =
     (case replay_envelopes lib fv xs n v of
        (Inl e, v') \<Rightarrow> (Inl e, v') | (Inr c, v') \<Rightarrow> replay_envelopes lib fv ys c v')"
  by (induction xs arbitrary: n v) (auto simp: st_bind_def split: prod.splits sum.splits)

lemma replay_loop_flat:
  assumes "\<And>t. all_of t = Some (Inr (g t))"
  shows "replay_loop lib fv all_of ts n v = Some (replay_envelopes lib fv (concat (map g ts)) n v)"
  by (induction ts arbitrary: n v)
    (auto simp: assms replay_envelopes_append split: prod.splits sum.splits)

lemma replay_envelopes_count:
  "fst (replay_envelopes lib fv es n v) = Inr m \<Longrightarrow> m = n + of_nat (length es)"
proof (induction es arbitrary: n v)
  case (Cons e es)
  then obtain v1 where "fst (replay_envelopes lib fv es (n + 1) v1) = Inr m"
    by (auto simp: st_bind_def split: prod.splits sum.splits)
  from Cons.IH [OF this] show ?case by (simp add: add.assoc)
qed simp

lemma mset_by_type:
  "distinct ts \<Longrightarrow> mset (concat (map (\<lambda>t. of_type t log) ts))
     = mset (filter (\<lambda>e. ee_aggregate_type e \<in> set ts) log)"
proof (induction ts)
  case (Cons t ts)
  have "mset (filter (\<lambda>e. ee_aggregate_type e \<in> set (t # ts)) log)
      = mset (of_type t log) + mset (filter (\<lambda>e. ee_aggregate_type e \<in> set ts) log)"
    using Cons.prems by (induction log) auto
  with Cons show ?case by simp
qed simp

text \<open>
  Replay. For any event store, the replay projects one after the other, type by type in
  a fixed order, exactly the stored events of eleven aggregate types, each once, and stops at
  the first error; a successful replay returns their number. The store never panics under it.
  Events of the remaining types, \<open>Agent\<close> and \<open>Monitoring\<close>, are not projected at all.
\<close>

theorem replay_projects_eleven_types:
  fixes ops :: "'j es_op list"
  defines "log \<equiv> log_run ops"
  defines "es \<equiv> concat (map (\<lambda>t. of_type t log) replay_types)"
  shows "replay_from_event_store lib fv (read_all (es_run ops es_new)) v
      = Some (replay_envelopes lib fv es 0 v)
    \<and> mset es = mset (filter (\<lambda>e. ee_aggregate_type e \<in> set replay_types) log)
    \<and> (case fst (replay_envelopes lib fv es 0 v) of
         Inr n \<Rightarrow> n = of_nat (length (filter (\<lambda>e. ee_aggregate_type e \<in> set replay_types) log))
       | Inl _ \<Rightarrow> True)"
proof -
  have all: "read_all (es_run ops es_new) t = Some (Inr (of_type t log))" for t
    by (simp add: mem.all_of_log es_run_inv es_run_log log_def)
  have ms: "mset es = mset (filter (\<lambda>e. ee_aggregate_type e \<in> set replay_types) log)"
    unfolding es_def by (rule mset_by_type) (simp add: replay_types_def)
  from this [THEN arg_cong, of size]
  have len: "length es = length (filter (\<lambda>e. ee_aggregate_type e \<in> set replay_types) log)"
    by (simp only: size_mset)
  show ?thesis
    using ms replay_envelopes_count [of lib fv es 0 v]
    by (auto simp: replay_from_event_store_def replay_loop_flat [OF all] es_def [symmetric] len
        split: sum.splits)
qed

end
