(* ===== verification/Heap_Order.thy ===== *)
theory Heap_Order
  imports Prelude "HOL-Library.Multiset"
begin

text \<open>
  The order of a binary heap kept in a vector, for any total order on its entries: what the loops
  that sift an entry up or down keep and restore. The collection queue
  (\<^verbatim>\<open>src/crates/fabric/src/queue.rs\<close>) and the heap of
  \<^verbatim>\<open>src/crates/algorithms/src/scheduling.rs\<close> interpret the locale on their own orders.
\<close>

definition par :: "nat \<Rightarrow> nat" where
  "par k = (k - 1) div 2"

lemma par_less: "0 < k \<Longrightarrow> par k < k"
  by (simp add: par_def)

lemma par_child: "0 < k \<Longrightarrow> par k = i \<longleftrightarrow> k = 2 * i + 1 \<or> k = 2 * i + 2"
  unfolding par_def by presburger

lemma mset_swap_at: "i < length xs \<Longrightarrow> j < length xs \<Longrightarrow> mset (swap_at i j xs) = mset xs"
  by (simp add: swap_at_def mset_swap)

text \<open>
  \<open>heap_up i\<close>: in order everywhere but between \<open>i\<close> and its parent. \<open>heap_down i\<close>: in order
  everywhere but between \<open>i\<close> and its children. Both let the grandparents carry the order
  over the position \<open>i\<close>.
\<close>

definition in_order :: "('e \<Rightarrow> 'e \<Rightarrow> bool) \<Rightarrow> 'e list \<Rightarrow> bool" where
  "in_order le xs \<longleftrightarrow> (\<forall>k<length xs. 0 < k \<longrightarrow> le (xs ! par k) (xs ! k))"

definition order_over :: "('e \<Rightarrow> 'e \<Rightarrow> bool) \<Rightarrow> nat \<Rightarrow> 'e list \<Rightarrow> bool" where
  "order_over le i xs \<longleftrightarrow> (\<forall>k<length xs. 0 < k \<longrightarrow> par k = i \<longrightarrow> 0 < i \<longrightarrow> le (xs ! par i) (xs ! k))"

definition order_up :: "('e \<Rightarrow> 'e \<Rightarrow> bool) \<Rightarrow> nat \<Rightarrow> 'e list \<Rightarrow> bool" where
  "order_up le i xs \<longleftrightarrow> order_over le i xs \<and>
     (\<forall>k<length xs. 0 < k \<longrightarrow> k \<noteq> i \<longrightarrow> le (xs ! par k) (xs ! k))"

definition order_down :: "('e \<Rightarrow> 'e \<Rightarrow> bool) \<Rightarrow> nat \<Rightarrow> 'e list \<Rightarrow> bool" where
  "order_down le i xs \<longleftrightarrow> order_over le i xs \<and>
     (\<forall>k<length xs. 0 < k \<longrightarrow> par k \<noteq> i \<longrightarrow> le (xs ! par k) (xs ! k))"

locale heap_order =
  fixes le :: "'e \<Rightarrow> 'e \<Rightarrow> bool"
  assumes le_total: "le a b \<or> le b a"
    and le_trans: "le a b \<Longrightarrow> le b c \<Longrightarrow> le a c"
begin

lemma up_done:
  assumes "order_up le i xs" and "i = 0 \<or> le (xs ! par i) (xs ! i)"
  shows "in_order le xs"
  using assms unfolding order_up_def in_order_def by (metis bot_nat_0.not_eq_extremum)

lemma up_step:
  assumes up: "order_up le i xs" and i: "0 < i" "i < length xs" and less: "le (xs ! i) (xs ! par i)"
  shows "order_up le (par i) (swap_at i (par i) xs)"
proof -
  let ?p = "par i" and ?ys = "swap_at i (par i) xs"
  have p: "?p < i" "?p < length xs" using i par_less [of i] by auto
  have at: "?ys ! k = (if k = i then xs ! ?p else if k = ?p then xs ! i else xs ! k)"
    if "k < length xs" for k
    using that i p by (simp add: nth_swap_at)
  have old: "le (xs ! par k) (xs ! k)" if "k < length xs" "0 < k" "k \<noteq> i" for k
    using up that unfolding order_up_def by blast
  have over: "le (xs ! ?p) (xs ! k)" if "k < length xs" "0 < k" "par k = i" for k
    using up that i unfolding order_up_def order_over_def by blast
  have "le (?ys ! par k) (?ys ! k)" if k: "k < length xs" "0 < k" "k \<noteq> ?p" for k
  proof -
    have pk: "par k < k" "par k < length xs" using k par_less [of k] by auto
    consider "k = i" | "k \<noteq> i" "par k = i" | "k \<noteq> i" "par k = ?p" | "k \<noteq> i" "par k \<noteq> i" "par k \<noteq> ?p"
      by blast
    then show ?thesis
    proof cases
      case 1
      then show ?thesis using less p i by (simp add: at)
    next
      case 2
      then show ?thesis using over [OF k(1,2)] k p i by (simp add: at)
    next
      case 3
      have "le (xs ! i) (xs ! k)"
        using le_trans [OF less] old [OF k(1,2) 3(1)] 3(2) by simp
      then show ?thesis using 3 k p i by (simp add: at)
    next
      case 4
      then show ?thesis using old [OF k(1,2)] k pk by (simp add: at)
    qed
  qed
  moreover have "order_over le ?p ?ys"
    unfolding order_over_def
  proof (intro allI impI)
    fix k assume k: "k < length ?ys" "0 < k" "par k = ?p" "0 < ?p"
    have pp: "par ?p < ?p" "par ?p < length xs" using k par_less [of ?p] p by auto
    have a: "le (xs ! par ?p) (xs ! ?p)" using old [of ?p] p k by simp
    have "le (xs ! par ?p) (xs ! k)" if "k \<noteq> i"
      using le_trans [OF a] old [of k] that k by simp
    moreover have "k \<noteq> ?p" using k par_less [of k] by auto
    ultimately show "le (?ys ! par ?p) (?ys ! k)"
      using a k pp p by (simp add: at)
  qed
  ultimately show ?thesis by (simp add: order_up_def)
qed

text \<open>The child a loop sifts down to is one of the two that is least.\<close>

lemma down_done:
  assumes "order_down le i xs" and "\<And>k. k < length xs \<Longrightarrow> 0 < k \<Longrightarrow> par k = i \<Longrightarrow> le (xs ! i) (xs ! k)"
  shows "in_order le xs"
  using assms unfolding order_down_def in_order_def by metis

lemma down_step:
  assumes down: "order_down le i xs" and i: "i < length xs"
    and s: "s < length xs" "par s = i" "i < s" "le (xs ! s) (xs ! i)"
    and least: "\<And>k. k < length xs \<Longrightarrow> 0 < k \<Longrightarrow> par k = i \<Longrightarrow> le (xs ! s) (xs ! k)"
  shows "order_down le s (swap_at i s xs)"
proof -
  let ?ys = "swap_at i s xs"
  have at: "?ys ! k = (if k = i then xs ! s else if k = s then xs ! i else xs ! k)"
    if "k < length xs" for k
    using that i s by (simp add: nth_swap_at)
  have old: "le (xs ! par k) (xs ! k)" if "k < length xs" "0 < k" "par k \<noteq> i" for k
    using down that unfolding order_down_def by blast
  have over: "le (xs ! par i) (xs ! k)" if "k < length xs" "0 < k" "par k = i" "0 < i" for k
    using down that unfolding order_down_def order_over_def by blast
  have "le (?ys ! par k) (?ys ! k)" if k: "k < length xs" "0 < k" "par k \<noteq> s" for k
  proof -
    have pk: "par k < k" "par k < length xs" using k par_less [of k] by auto
    consider "par k = i" | "par k \<noteq> i" "k = i" | "par k \<noteq> i" "k \<noteq> i" by blast
    then show ?thesis
    proof cases
      case 1
      then show ?thesis using least [OF k(1,2) 1] s k i pk by (auto simp: at)
    next
      case 2
      then show ?thesis using over [OF s(1) _ s(2)] k s pk i by (auto simp: at)
    next
      case 3
      then have "k \<noteq> s" using s by auto
      with 3 show ?thesis using old [OF k(1,2) 3(1)] k pk by (auto simp: at)
    qed
  qed
  moreover have "order_over le s ?ys"
    unfolding order_over_def
  proof (intro allI impI)
    fix k assume k: "k < length ?ys" "0 < k" "par k = s" "0 < s"
    have "par k < k" using k par_less by blast
    then have "i < k" "s < k" using k s by auto
    moreover have "le (xs ! s) (xs ! k)" using old [of k] k s by auto
    ultimately show "le (?ys ! par s) (?ys ! k)" using k s i by (auto simp: at)
  qed
  ultimately show ?thesis by (simp add: order_down_def)
qed

lemma root_least: "in_order le xs \<Longrightarrow> k < length xs \<Longrightarrow> le (xs ! 0) (xs ! k)"
proof (induction k rule: less_induct)
  case (less k)
  show ?case
  proof (cases "k = 0")
    case False
    then have "le (xs ! par k) (xs ! k)" using less.prems unfolding in_order_def by simp
    moreover have "le (xs ! 0) (xs ! par k)"
      using less.IH [of "par k"] less.prems False par_less [of k] by simp
    ultimately show ?thesis by (rule le_trans [rotated])
  next
    case True
    with le_total show ?thesis by blast
  qed
qed

lemma root_least_mem:
  assumes "in_order le xs" and "e \<in> set xs"
  shows "le (hd xs) e"
proof -
  obtain k where k: "k < length xs" "e = xs ! k" using assms(2) by (auto simp: in_set_conv_nth)
  then have "xs \<noteq> []" by auto
  with root_least [OF assms(1) k(1)] k(2) show ?thesis by (simp add: hd_conv_nth)
qed

end

lemma in_order_Nil [simp]: "in_order le []"
  by (simp add: in_order_def)

lemma in_order_butlast:
  assumes "in_order le xs" shows "in_order le (butlast xs)"
  unfolding in_order_def
proof (intro allI impI)
  fix k assume k: "k < length (butlast xs)" "0 < k"
  moreover have "par k < length (butlast xs)" using k par_less [of k] by simp
  ultimately show "le (butlast xs ! par k) (butlast xs ! k)"
    using assms by (simp add: nth_butlast in_order_def)
qed

text \<open>The two ways a loop begins: an entry put at the end, and the last entry moved to the root.\<close>

lemma up_snoc: "in_order le xs \<Longrightarrow> order_up le (length xs) (xs @ [e])"
  unfolding order_up_def order_over_def
proof (intro conjI allI impI)
  fix k assume "in_order le xs" "k < length (xs @ [e])" "0 < k" "k \<noteq> length xs"
  moreover from this have "par k < length xs" using par_less [of k] by simp
  ultimately show "le ((xs @ [e]) ! par k) ((xs @ [e]) ! k)"
    by (simp add: in_order_def nth_append)
next
  fix k assume "k < length (xs @ [e])" "0 < k" "par k = length xs"
  with par_less [of k] show "le ((xs @ [e]) ! par (length xs)) ((xs @ [e]) ! k)" by simp
qed

lemma down_swapped:
  assumes "in_order le xs"
  shows "order_down le 0 (butlast (swap_at 0 (length xs - 1) xs))"
  unfolding order_down_def order_over_def
proof (intro conjI allI impI)
  fix k assume k: "k < length (butlast (swap_at 0 (length xs - 1) xs))" "0 < k" "par k \<noteq> 0"
  then have "par k < k" "0 < length xs" "length xs - 1 < length xs" using par_less by auto
  with k assms show "le (butlast (swap_at 0 (length xs - 1) xs) ! par k) (butlast (swap_at 0 (length xs - 1) xs) ! k)"
    by (auto simp: nth_butlast nth_swap_at in_order_def)
qed simp

lemma last_swapped:
  assumes "xs \<noteq> []" shows "last (swap_at 0 (length xs - 1) xs) = hd xs"
proof -
  have len: "0 < length xs" using assms by simp
  then have "swap_at 0 (length xs - 1) xs \<noteq> []"
    unfolding length_greater_0_conv [symmetric] by simp
  then have "last (swap_at 0 (length xs - 1) xs) = swap_at 0 (length xs - 1) xs ! (length xs - 1)"
    using last_conv_nth [of "swap_at 0 (length xs - 1) xs"] by (simp add: length_swap_at)
  also have "\<dots> = xs ! 0" using nth_swap_at [of 0 xs "length xs - 1" "length xs - 1"] len by auto
  finally show ?thesis using assms by (simp add: hd_conv_nth)
qed

lemma mset_swapped:
  assumes "xs \<noteq> []"
  shows "mset xs = add_mset (hd xs) (mset (butlast (swap_at 0 (length xs - 1) xs)))"
proof -
  let ?ys = "swap_at 0 (length xs - 1) xs"
  have "mset ?ys = mset xs" using assms by (intro mset_swap_at) auto
  moreover have "?ys = butlast ?ys @ [hd xs]"
    using assms last_swapped [OF assms] append_butlast_last_id [of ?ys]
    by (metis length_0_conv length_swap_at)
  ultimately show ?thesis by (metis add_mset_add_single mset.simps(1) mset.simps(2) mset_append)
qed

section \<open>The interface of a priority queue\<close>

text \<open>
  What a client relies on: the queue holds a bag of entries, and a pop takes out one whose
  place is first. \<open>pops\<close> calls \<open>pop\<close> until it answers \<open>None\<close>, at most \<open>n\<close> times.
\<close>

fun pops :: "('s \<Rightarrow> 'e option \<times> 's) \<Rightarrow> nat \<Rightarrow> 's \<Rightarrow> 'e list \<times> 's" where
  "pops pop 0 s = ([], s)"
| "pops pop (Suc n) s =
     (case pop s of
        (None, s') \<Rightarrow> ([], s')
      | (Some e, s') \<Rightarrow> (let (es, s'') = pops pop n s' in (e # es, s'')))"

locale pqueue =
  fixes inv :: "'s \<Rightarrow> bool"
    and bag :: "'s \<Rightarrow> 'e multiset"
    and le :: "'e \<Rightarrow> 'e \<Rightarrow> bool"
    and pop :: "'s \<Rightarrow> 'e option \<times> 's"
  assumes pop_empty: "inv s \<Longrightarrow> bag s = {#} \<Longrightarrow> pop s = (None, s)"
    and pop_least: "inv s \<Longrightarrow> bag s \<noteq> {#} \<Longrightarrow>
      \<exists>e s'. pop s = (Some e, s') \<and> inv s' \<and> e \<in># bag s \<and> bag s' = bag s - {#e#} \<and>
             (\<forall>x \<in># bag s. le e x)"
begin

lemma pops_all:
  "inv s \<Longrightarrow> size (bag s) \<le> n \<Longrightarrow>
   \<exists>es s'. pops pop n s = (es, s') \<and> inv s' \<and> bag s' = {#} \<and> mset es = bag s \<and>
           sorted_wrt le es"
proof (induction n arbitrary: s)
  case 0
  then show ?case by simp
next
  case (Suc n)
  show ?case
  proof (cases "bag s = {#}")
    case True
    with Suc.prems pop_empty show ?thesis by simp
  next
    case False
    then obtain e s' where e: "pop s = (Some e, s')" "inv s'" "e \<in># bag s"
      "bag s' = bag s - {#e#}" "\<forall>x \<in># bag s. le e x"
      using pop_least Suc.prems(1) by blast
    have "size (bag s') \<le> n" using e(3,4) Suc.prems(2) by (simp add: size_Diff_singleton)
    with Suc.IH [OF e(2)] obtain es s'' where
      IH: "pops pop n s' = (es, s'')" "inv s''" "bag s'' = {#}" "mset es = bag s'"
          "sorted_wrt le es" by blast
    have "\<forall>x\<in>set es. le e x"
      using e(4,5) IH(4) by (metis in_diffD set_mset_mset)
    with e IH show ?thesis by simp
  qed
qed

lemma pop_None_iff: "inv s \<Longrightarrow> fst (pop s) = None \<longleftrightarrow> bag s = {#}"
  using pop_empty pop_least by (metis fst_conv option.distinct(1))

end

end
