(* ===== verification/Collection_Queue.thy ===== *)
theory Collection_Queue
  imports Heap_Order "HOL-Library.Product_Lexorder"
begin

text \<open>
  The priority queue of collection tasks, \<open>src/crates/fabric/src/queue.rs\<close>: priorities,
  targets and tasks, the binary heap of queue entries with the identifier index kept beside
  it, and every operation of \<open>PriorityQueue\<close>. The lock is taken for the whole of every
  operation, so an operation is a function on the state behind it; a panic (an index out of
  the vector) is \<open>None\<close>.

  The lemmas show that the two bubbling loops restore the heap order, that the queue
  implements the interface \<open>pqueue\<close> (a pop returns a least element of the bag), and that
  enqueue and dequeue refine a plain list of the waiting tasks in submission order. The
  positions that \<open>by_id\<close> records are not updated by bubbling or by a dequeue; the section
  on \<open>cancel\<close> states when it removes the right task and exhibits what happens otherwise.
\<close>

section \<open>Data\<close>

datatype priority = Critical | High | Medium | Low | Background

fun prio_rank :: "priority \<Rightarrow> nat" where
  "prio_rank Critical = 0"
| "prio_rank High = 1"
| "prio_rank Medium = 2"
| "prio_rank Low = 3"
| "prio_rank Background = 4"

lemma prio_rank_inject [simp]: "prio_rank p = prio_rank q \<longleftrightarrow> p = q"
  by (cases p; cases q) simp_all

instantiation priority :: linorder
begin

definition less_eq_priority :: "priority \<Rightarrow> priority \<Rightarrow> bool" where
  "p \<le> q \<longleftrightarrow> prio_rank p \<le> prio_rank q"

definition less_priority :: "priority \<Rightarrow> priority \<Rightarrow> bool" where
  "p < q \<longleftrightarrow> prio_rank p < prio_rank q"

instance
  by standard (auto simp: less_eq_priority_def less_priority_def)

end

lemmas prio_order = less_eq_priority_def less_priority_def

fun prio_label :: "priority \<Rightarrow> string" where
  "prio_label Critical = ''critical''"
| "prio_label High = ''high''"
| "prio_label Medium = ''medium''"
| "prio_label Low = ''low''"
| "prio_label Background = ''background''"

definition prio_from_label :: "string \<Rightarrow> priority option" where
  "prio_from_label s =
     (if s = ''critical'' then Some Critical
      else if s = ''high'' then Some High
      else if s = ''medium'' then Some Medium
      else if s = ''low'' then Some Low
      else if s = ''background'' then Some Background
      else None)"

datatype collection_target =
    TargetUrl string
  | TargetDomain string
  | TargetService string string
  | TargetCustom string string

fun target_locator :: "collection_target \<Rightarrow> string" where
  "target_locator (TargetUrl u) = u"
| "target_locator (TargetDomain d) = d"
| "target_locator (TargetService i l) = l"
| "target_locator (TargetCustom k l) = l"

record 'j collection_task =
  ct_id :: string
  ct_target :: collection_target
  ct_priority :: priority
  ct_driver :: string
  ct_capability :: string
  ct_params :: 'j
  ct_max_retries :: u32
  ct_created_at :: instant
  ct_metadata :: metadata

definition ct_new ::
  "string \<Rightarrow> collection_target \<Rightarrow> string \<Rightarrow> string \<Rightarrow> 'j \<Rightarrow> host \<Rightarrow> 'j collection_task \<times> host" where
  "ct_new i target driver capability params h =
     (let (now, h') = now_utc h in
      (\<lparr>ct_id = i, ct_target = target, ct_priority = Medium, ct_driver = driver,
        ct_capability = capability, ct_params = params, ct_max_retries = 3,
        ct_created_at = now, ct_metadata = Map.empty\<rparr>, h'))"

definition with_priority :: "priority \<Rightarrow> 'j collection_task \<Rightarrow> 'j collection_task" where
  "with_priority p t = t\<lparr>ct_priority := p\<rparr>"

definition with_max_retries :: "u32 \<Rightarrow> 'j collection_task \<Rightarrow> 'j collection_task" where
  "with_max_retries n t = t\<lparr>ct_max_retries := n\<rparr>"

definition ct_with_metadata :: "string \<Rightarrow> string \<Rightarrow> 'j collection_task \<Rightarrow> 'j collection_task" where
  "ct_with_metadata k v t = t\<lparr>ct_metadata := (ct_metadata t)(k \<mapsto> v)\<rparr>"

record 'j queue_entry =
  qe_task :: "'j collection_task"
  qe_submitted_at :: instant
  qe_seq :: u64

text \<open>\<open>Ord for QueueEntry\<close>: \<open>entry_less a b\<close> is \<open>a.cmp(&b) == Ordering::Less\<close>.\<close>

definition entry_less :: "'j queue_entry \<Rightarrow> 'j queue_entry \<Rightarrow> bool" where
  "entry_less a b =
     (if ct_priority (qe_task a) = ct_priority (qe_task b) then qe_seq a < qe_seq b
      else ct_priority (qe_task a) < ct_priority (qe_task b))"

datatype fabric_error =
    TaskNotFound string
  | DuplicateTask string
  | SessionError string
  | FabricDriverError string
  | QueueFull
  | FabricStopped

section \<open>Heap helpers\<close>

fun bubble_up :: "'j queue_entry list \<Rightarrow> nat \<Rightarrow> 'j queue_entry list" where
  "bubble_up heap idx =
     (if idx > 0 then
        (let parent = (idx - 1) div 2 in
         if entry_less (heap ! idx) (heap ! parent)
         then bubble_up (swap_at idx parent heap) parent
         else heap)
      else heap)"

declare bubble_up.simps [simp del]

definition smallest_of :: "'j queue_entry list \<Rightarrow> nat \<Rightarrow> nat" where
  "smallest_of heap idx =
     (let left = 2 * idx + 1; right = 2 * idx + 2;
          s = (if left < length heap \<and> entry_less (heap ! left) (heap ! idx) then left else idx)
      in if right < length heap \<and> entry_less (heap ! right) (heap ! s) then right else s)"

lemma smallest_of_cases:
  "smallest_of heap idx = idx \<or>
   smallest_of heap idx = 2 * idx + 1 \<and> 2 * idx + 1 < length heap \<or>
   smallest_of heap idx = 2 * idx + 2 \<and> 2 * idx + 2 < length heap"
  by (simp add: smallest_of_def Let_def)

function bubble_down :: "'j queue_entry list \<Rightarrow> nat \<Rightarrow> 'j queue_entry list" where
  "bubble_down heap idx =
     (let smallest = smallest_of heap idx in
      if smallest = idx then heap
      else bubble_down (swap_at idx smallest heap) smallest)"
  by pat_completeness auto
termination
proof (relation "measure (\<lambda>(heap, idx). length heap - idx)")
  fix heap :: "'j queue_entry list" and idx x
  assume "x = smallest_of heap idx" "x \<noteq> idx"
  then show "((swap_at idx x heap, x), heap, idx) \<in> measure (\<lambda>(heap, idx). length heap - idx)"
    using smallest_of_cases [of heap idx] by auto
qed simp

declare bubble_down.simps [simp del]

section \<open>The queue\<close>

record 'j prio_queue =
  pq_heap :: "'j queue_entry list"
  pq_by_id :: "string \<rightharpoonup> nat"
  pq_seen :: "string set"
  pq_seq :: u64

definition pq_new :: "'j prio_queue" where
  "pq_new = \<lparr>pq_heap = [], pq_by_id = Map.empty, pq_seen = {}, pq_seq = 0\<rparr>"

definition enqueue ::
  "'j collection_task \<Rightarrow> host \<Rightarrow> 'j prio_queue \<Rightarrow> (fabric_error, unit) result \<times> 'j prio_queue \<times> host" where
  "enqueue task h q =
     (if pq_by_id q (ct_id task) \<noteq> None then (Inl (DuplicateTask (ct_id task)), q, h)
      else
        (let idx = length (pq_heap q);
             (now, h') = now_utc h;
             entry = \<lparr>qe_task = task, qe_submitted_at = now, qe_seq = pq_seq q\<rparr>
         in (Inr (),
             q\<lparr>pq_seq := pq_seq q + 1,
               pq_heap := bubble_up (pq_heap q @ [entry]) idx,
               pq_by_id := (pq_by_id q)(ct_id task \<mapsto> idx),
               pq_seen := insert (ct_id task) (pq_seen q)\<rparr>, h')))"

text \<open>The body of \<open>dequeue\<close> up to its last line, which drops all of the entry but its task.\<close>

definition pop_entry :: "'j prio_queue \<Rightarrow> 'j queue_entry option \<times> 'j prio_queue" where
  "pop_entry q =
     (if pq_heap q = [] then (None, q)
      else
        (let l = length (pq_heap q) - 1;
             swapped = swap_at 0 l (pq_heap q);
             entry = last swapped;
             rest = butlast swapped
         in (Some entry,
             q\<lparr>pq_by_id := (pq_by_id q)(ct_id (qe_task entry) := None),
               pq_heap := (if rest \<noteq> [] then bubble_down rest 0 else rest)\<rparr>)))"

definition dequeue :: "'j prio_queue \<Rightarrow> 'j collection_task option \<times> 'j prio_queue" where
  "dequeue q = (let (e, q') = pop_entry q in (map_option qe_task e, q'))"

definition peek :: "'j prio_queue \<Rightarrow> 'j collection_task option" where
  "peek q = (case pq_heap q of [] \<Rightarrow> None | e # _ \<Rightarrow> Some (qe_task e))"

text \<open>
  \<open>heap.len() - 1\<close> on an empty heap and \<open>swap\<close> with an index outside the vector panic.
\<close>

definition pq_cancel ::
  "string \<Rightarrow> 'j prio_queue \<Rightarrow> ((fabric_error, unit) result \<times> 'j prio_queue) option" where
  "pq_cancel task_id q =
     (case pq_by_id q task_id of
        None \<Rightarrow> Some (Inl (TaskNotFound task_id), q)
      | Some idx \<Rightarrow>
          (let heap = pq_heap q; by_id = (pq_by_id q)(task_id := None); l = length heap - 1 in
           if heap = [] \<or> idx \<noteq> l \<and> idx \<ge> length heap then None
           else
             (let swapped = (if idx \<noteq> l then swap_at idx l heap else heap);
                  by_id' = (if idx \<noteq> l then by_id(ct_id (qe_task (swapped ! idx)) \<mapsto> idx) else by_id);
                  popped = butlast swapped;
                  heap' = (if idx < length popped
                           then bubble_down (bubble_up popped idx) idx else popped)
              in Some (Inr (),
                       q\<lparr>pq_heap := heap', pq_by_id := by_id'(task_id := None)\<rparr>))))"

definition pq_len :: "'j prio_queue \<Rightarrow> nat" where
  "pq_len q = length (pq_heap q)"

definition pq_is_empty :: "'j prio_queue \<Rightarrow> bool" where
  "pq_is_empty q \<longleftrightarrow> pq_len q = 0"

definition pq_contains :: "string \<Rightarrow> 'j prio_queue \<Rightarrow> bool" where
  "pq_contains task_id q \<longleftrightarrow> task_id \<in> pq_seen q"

text \<open>\<open>sort_by\<close> is stable, as \<open>sort_key\<close> is: by priority, later \<open>created_at\<close> first.\<close>

definition pq_list :: "'j prio_queue \<Rightarrow> 'j collection_task list" where
  "pq_list q = sort_key (\<lambda>t. (ct_priority t, - ct_created_at t)) (map qe_task (pq_heap q))"

section \<open>The bubbling loops restore the heap order\<close>

definition entry_key :: "'j queue_entry \<Rightarrow> priority \<times> u64" where
  "entry_key e = (ct_priority (qe_task e), qe_seq e)"

lemma entry_less_key: "entry_less a b \<longleftrightarrow> entry_key a < entry_key b"
  by (auto simp: entry_less_def entry_key_def)

definition key_at :: "'j queue_entry list \<Rightarrow> nat \<Rightarrow> priority \<times> u64" where
  "key_at xs i = entry_key (xs ! i)"

lemma key_at_swap:
  "i < length xs \<Longrightarrow> j < length xs \<Longrightarrow> k < length xs \<Longrightarrow>
   key_at (swap_at i j xs) k = (if k = i then key_at xs j else if k = j then key_at xs i else key_at xs k)"
  by (simp add: key_at_def nth_swap_at)

definition entry_le :: "'j queue_entry \<Rightarrow> 'j queue_entry \<Rightarrow> bool" where
  "entry_le a b \<longleftrightarrow> entry_key a \<le> entry_key b"

interpretation entries: heap_order entry_le
  by unfold_locales (auto simp: entry_le_def)

abbreviation heap_ok :: "'j queue_entry list \<Rightarrow> bool" where
  "heap_ok \<equiv> in_order entry_le"

abbreviation heap_over :: "nat \<Rightarrow> 'j queue_entry list \<Rightarrow> bool" where
  "heap_over \<equiv> order_over entry_le"

abbreviation heap_up :: "nat \<Rightarrow> 'j queue_entry list \<Rightarrow> bool" where
  "heap_up \<equiv> order_up entry_le"

abbreviation heap_down :: "nat \<Rightarrow> 'j queue_entry list \<Rightarrow> bool" where
  "heap_down \<equiv> order_down entry_le"

lemma entry_le_key: "entry_le (xs ! i) (ys ! j) \<longleftrightarrow> key_at xs i \<le> key_at ys j"
  by (simp add: entry_le_def key_at_def)

lemmas heap_ok_def = in_order_def [of entry_le, unfolded entry_le_key]

lemmas heap_over_def = order_over_def [of entry_le, unfolded entry_le_key]

lemmas heap_up_def = order_up_def [of entry_le, unfolded entry_le_key]

lemmas heap_down_def = order_down_def [of entry_le, unfolded entry_le_key]

lemma bubble_up_heap:
  "heap_up i xs \<Longrightarrow> i < length xs \<Longrightarrow> heap_ok (bubble_up xs i)"
proof (induction xs i rule: bubble_up.induct)
  case (1 heap idx)
  show ?case
  proof (cases "0 < idx \<and> key_at heap idx < key_at heap (par idx)")
    case True
    have "par idx < length heap" using True 1(3) par_less [of idx] by auto
    moreover have "entry_le (heap ! idx) (heap ! par idx)" using True less_imp_le unfolding entry_le_key by blast
    ultimately show ?thesis using True entries.up_step [OF 1(2)] 1
      by (simp add: bubble_up.simps [of heap idx] entry_less_key key_at_def par_def Let_def)
  next
    case False
    with entries.up_done [OF 1(2)] show ?thesis
      by (auto simp: entry_le_key bubble_up.simps [of heap idx] entry_less_key key_at_def par_def Let_def not_less)
  qed
qed

lemma smallest_of_le:
  assumes "c < length xs" and "0 < c" and "par c = i" and "i < length xs"
  shows "key_at xs (smallest_of xs i) \<le> key_at xs c"
  using assms par_child [of c i]
  by (auto simp: smallest_of_def Let_def entry_less_key key_at_def)

lemma smallest_of_le_self: "i < length xs \<Longrightarrow> key_at xs (smallest_of xs i) \<le> key_at xs i"
  by (auto simp: smallest_of_def Let_def entry_less_key key_at_def)

lemma smallest_of_child:
  assumes "smallest_of xs i \<noteq> i"
  shows "smallest_of xs i < length xs" and "par (smallest_of xs i) = i" and "i < smallest_of xs i"
  using assms smallest_of_cases [of xs i] par_child [of "smallest_of xs i" i] by auto

lemma bubble_down_heap:
  "heap_down i xs \<Longrightarrow> i < length xs \<Longrightarrow> heap_ok (bubble_down xs i)"
proof (induction xs i rule: bubble_down.induct)
  case (1 heap idx)
  have least: "entry_le (heap ! smallest_of heap idx) (heap ! k)" if "k < length heap" "0 < k" "par k = idx" for k
    unfolding entry_le_key using smallest_of_le [OF that 1(3)] .
  show ?case
  proof (cases "smallest_of heap idx = idx")
    case True
    with entries.down_done [OF 1(2)] least show ?thesis
      by (simp add: bubble_down.simps [of heap idx] Let_def)
  next
    case False
    have "entry_le (heap ! smallest_of heap idx) (heap ! idx)"
      unfolding entry_le_key using smallest_of_le_self [OF 1(3)] .
    from entries.down_step [OF 1(2,3) smallest_of_child [OF False] this least]
    have "heap_down (smallest_of heap idx) (swap_at idx (smallest_of heap idx) heap)" .
    with 1(1) [OF refl False] smallest_of_child(1) [OF False] False
    show ?thesis by (simp add: bubble_down.simps [of heap idx] Let_def)
  qed
qed

lemma mset_bubble_up: "i < length xs \<Longrightarrow> mset (bubble_up xs i) = mset xs"
proof (induction xs i rule: bubble_up.induct)
  case (1 heap idx)
  have "(idx - 1) div 2 < length heap" using 1(2) by linarith
  with 1 show ?case
    by (simp add: bubble_up.simps [of heap idx] Let_def mset_swap_at)
qed

lemma mset_bubble_down: "i < length xs \<Longrightarrow> mset (bubble_down xs i) = mset xs"
proof (induction xs i rule: bubble_down.induct)
  case (1 heap idx)
  with smallest_of_child(1) [of heap idx] show ?case
    by (simp add: bubble_down.simps [of heap idx] Let_def mset_swap_at)
qed

lemma heap_root_least_mem: "heap_ok xs \<Longrightarrow> e \<in> set xs \<Longrightarrow> entry_key (hd xs) \<le> entry_key e"
  using entries.root_least_mem [of xs e] by (simp add: entry_le_def)

section \<open>The queue implements it\<close>

abbreviation entry_id :: "'j queue_entry \<Rightarrow> string" where
  "entry_id e \<equiv> ct_id (qe_task e)"

abbreviation pq_bag :: "'j prio_queue \<Rightarrow> 'j queue_entry multiset" where
  "pq_bag q \<equiv> mset (pq_heap q)"

definition pq_inv :: "'j prio_queue \<Rightarrow> bool" where
  "pq_inv q \<longleftrightarrow> heap_ok (pq_heap q)
     \<and> dom (pq_by_id q) = entry_id ` set (pq_heap q)
     \<and> distinct (map entry_id (pq_heap q)) \<and> distinct (map qe_seq (pq_heap q))
     \<and> (\<forall>e\<in>set (pq_heap q). qe_seq e < pq_seq q)"

lemma pq_inv_new [simp]: "pq_inv pq_new"
  by (simp add: pq_inv_def pq_new_def)

lemma mset_pushed: "mset (bubble_up (xs @ [e]) (length xs)) = add_mset e (mset xs)"
  by (simp add: mset_bubble_up)

lemma set_pushed: "set (bubble_up (xs @ [e]) (length xs)) = insert e (set xs)"
  by (metis mset_pushed set_mset_add_mset_insert set_mset_mset)

lemma distinct_map_mset: "mset xs = mset ys \<Longrightarrow> distinct (map f xs) \<longleftrightarrow> distinct (map f ys)"
  by (metis mset_eq_imp_distinct_iff mset_map)

lemma bubble_down_swapped:
  assumes "heap_ok xs" "ys = butlast (swap_at 0 (length xs - 1) xs)" "ys \<noteq> []"
  shows "heap_ok (bubble_down ys 0)" "mset (bubble_down ys 0) = mset ys"
proof -
  have "0 < length ys" using assms(3) by simp
  then show "heap_ok (bubble_down ys 0)" "mset (bubble_down ys 0) = mset ys"
    using bubble_down_heap [OF down_swapped [OF assms(1)]] mset_bubble_down [of 0 ys]
    unfolding assms(2) by blast+
qed

lemma enqueue_accepts:
  assumes "pq_by_id q (ct_id t) = None"
  obtains now where "enqueue t h q =
    (Inr (), q\<lparr>pq_seq := pq_seq q + 1,
               pq_heap := bubble_up (pq_heap q @ [\<lparr>qe_task = t, qe_submitted_at = now, qe_seq = pq_seq q\<rparr>])
                            (length (pq_heap q)),
               pq_by_id := (pq_by_id q)(ct_id t \<mapsto> length (pq_heap q)),
               pq_seen := insert (ct_id t) (pq_seen q)\<rparr>, h\<lparr>calls := Suc (calls h)\<rparr>)"
  using assms by (simp add: enqueue_def now_utc_def Let_def)

lemma enqueue_rejects:
  "pq_by_id q (ct_id t) \<noteq> None \<Longrightarrow> enqueue t h q = (Inl (DuplicateTask (ct_id t)), q, h)"
  by (simp add: enqueue_def)

lemma heap_ok_pushed: "heap_ok xs \<Longrightarrow> heap_ok (bubble_up (xs @ [e]) (length xs))"
  by (rule bubble_up_heap [OF up_snoc]) simp_all

lemma enqueue_inv:
  assumes inv: "pq_inv q" and seq: "pq_seq q \<noteq> - 1"
  shows "pq_inv (fst (snd (enqueue t h q)))"
proof (cases "pq_by_id q (ct_id t) = None")
  case False
  then show ?thesis using inv by (simp add: enqueue_rejects)
next
  case True
  from enqueue_accepts [OF True, of h] obtain now where e: "enqueue t h q =
    (Inr (), q\<lparr>pq_seq := pq_seq q + 1,
               pq_heap := bubble_up (pq_heap q @ [\<lparr>qe_task = t, qe_submitted_at = now, qe_seq = pq_seq q\<rparr>])
                            (length (pq_heap q)),
               pq_by_id := (pq_by_id q)(ct_id t \<mapsto> length (pq_heap q)),
               pq_seen := insert (ct_id t) (pq_seen q)\<rparr>, h\<lparr>calls := Suc (calls h)\<rparr>)" by blast
  let ?e = "\<lparr>qe_task = t, qe_submitted_at = now, qe_seq = pq_seq q\<rparr>"
  let ?ys = "bubble_up (pq_heap q @ [?e]) (length (pq_heap q))"
  have m: "mset ?ys = mset (?e # pq_heap q)" by (simp add: mset_pushed)
  have fresh: "ct_id t \<notin> entry_id ` set (pq_heap q)"
    using inv True unfolding pq_inv_def by (metis domIff)
  have old: "\<forall>x\<in>set (pq_heap q). qe_seq x < pq_seq q" using inv by (simp add: pq_inv_def)
  have "distinct (map entry_id ?ys)" "distinct (map qe_seq ?ys)"
    using inv fresh old unfolding distinct_map_mset [OF m] by (auto simp: pq_inv_def)
  moreover have "\<forall>x\<in>set ?ys. qe_seq x < pq_seq q + 1"
    using old word_inc_less [OF seq] by (auto simp: set_pushed intro: less_imp_le)
  ultimately show ?thesis
    using inv heap_ok_pushed [of "pq_heap q" ?e] by (simp add: e pq_inv_def set_pushed)
qed

text \<open>The part of the invariant that does not speak of identifiers: it survives every \<open>cancel\<close>.\<close>

definition line_ok :: "'j prio_queue \<Rightarrow> bool" where
  "line_ok q \<longleftrightarrow> heap_ok (pq_heap q) \<and> distinct (map qe_seq (pq_heap q)) \<and> (\<forall>e\<in>set (pq_heap q). qe_seq e < pq_seq q)"

lemma pq_inv_line_ok: "pq_inv q \<Longrightarrow> line_ok q"
  by (simp add: pq_inv_def line_ok_def)

lemma line_ok_smaller:
  assumes "line_ok q" "heap_ok (pq_heap q')" "pq_bag q = add_mset e (pq_bag q')" "pq_seq q' = pq_seq q"
  shows "line_ok q'"
proof -
  have m: "mset (pq_heap q) = mset (e # pq_heap q')" using assms(3) by simp
  have "distinct (map qe_seq (e # pq_heap q'))"
    using assms(1) unfolding line_ok_def distinct_map_mset [OF m] by blast
  moreover have "set (pq_heap q) = insert e (set (pq_heap q'))" by (metis m list.simps(15) set_mset_mset)
  ultimately show ?thesis using assms by (simp add: line_ok_def)
qed

lemma pop_entry_heap:
  assumes heap: "heap_ok (pq_heap q)" and ne: "pq_heap q \<noteq> []"
  obtains q' where "pop_entry q = (Some (hd (pq_heap q)), q')" and "heap_ok (pq_heap q')"
    and "pq_bag q = add_mset (hd (pq_heap q)) (pq_bag q')" and "pq_seq q' = pq_seq q"
    and "pq_by_id q' = (pq_by_id q)(entry_id (hd (pq_heap q)) := None)"
proof -
  let ?xs = "pq_heap q" and ?e = "hd (pq_heap q)"
  define ys where "ys = butlast (swap_at 0 (length ?xs - 1) ?xs)"
  define zs where "zs = (if ys \<noteq> [] then bubble_down ys 0 else ys)"
  define q' where "q' = q\<lparr>pq_by_id := (pq_by_id q)(entry_id ?e := None), pq_heap := zs\<rparr>"
  have zs: "heap_ok zs" "mset zs = mset ys"
    using bubble_down_swapped [OF heap ys_def] by (auto simp: zs_def)
  have m: "mset ?xs = mset (?e # zs)" using mset_swapped [OF ne] zs(2) by (simp add: ys_def)
  have pop: "pop_entry q = (Some ?e, q')"
    using ne last_swapped [OF ne] by (simp add: pop_entry_def Let_def q'_def zs_def ys_def)
  with m zs(1) show ?thesis by (intro that [of q']) (simp_all add: q'_def)
qed

lemma pop_entry_step:
  assumes inv: "pq_inv q" and ne: "pq_heap q \<noteq> []"
  obtains q' where "pop_entry q = (Some (hd (pq_heap q)), q')" and "pq_inv q'"
    and "pq_bag q = add_mset (hd (pq_heap q)) (pq_bag q')" and "pq_seq q' = pq_seq q"
    and "pq_by_id q' = (pq_by_id q)(entry_id (hd (pq_heap q)) := None)"
proof -
  let ?e = "hd (pq_heap q)"
  have "heap_ok (pq_heap q)" using inv by (simp add: pq_inv_def)
  from pop_entry_heap [OF this ne] obtain q' where q': "pop_entry q = (Some ?e, q')" "heap_ok (pq_heap q')"
    "pq_bag q = add_mset ?e (pq_bag q')" "pq_seq q' = pq_seq q" "pq_by_id q' = (pq_by_id q)(entry_id ?e := None)" .
  have m: "mset (pq_heap q) = mset (?e # pq_heap q')" using q'(3) by simp
  have d: "distinct (map entry_id (?e # pq_heap q'))" "distinct (map qe_seq (?e # pq_heap q'))"
    using inv unfolding pq_inv_def distinct_map_mset [OF m] by blast+
  have "set (pq_heap q) = insert ?e (set (pq_heap q'))" by (metis m list.simps(15) set_mset_mset)
  then have "pq_inv q'" using inv d q'(2,4,5) by (auto simp: pq_inv_def)
  with q' show ?thesis by (intro that [of q'])
qed

interpretation cq: pqueue pq_inv pq_bag entry_le pop_entry
proof
  fix q :: "'a prio_queue"
  assume "pq_inv q" "pq_bag q = {#}"
  then show "pop_entry q = (None, q)" by (simp add: pop_entry_def)
next
  fix q :: "'a prio_queue"
  assume inv: "pq_inv q" and "pq_bag q \<noteq> {#}"
  then have ne: "pq_heap q \<noteq> []" by simp
  obtain q' where q': "pop_entry q = (Some (hd (pq_heap q)), q')" "pq_inv q'"
    "pq_bag q = add_mset (hd (pq_heap q)) (pq_bag q')"
    using pop_entry_step [OF inv ne] by metis
  have "\<forall>x \<in># pq_bag q. entry_le (hd (pq_heap q)) x"
    using entries.root_least_mem inv by (auto simp: pq_inv_def)
  with q' ne show "\<exists>e q'. pop_entry q = (Some e, q') \<and> pq_inv q' \<and> e \<in># pq_bag q \<and>
      pq_bag q' = pq_bag q - {#e#} \<and> (\<forall>x \<in># pq_bag q. entry_le e x)"
    by (intro exI [of _ "hd (pq_heap q)"] exI [of _ q']) simp
qed

interpretation lq: pqueue line_ok pq_bag entry_le pop_entry
proof
  fix q :: "'a prio_queue"
  assume "line_ok q" "pq_bag q = {#}"
  then show "pop_entry q = (None, q)" by (simp add: pop_entry_def)
next
  fix q :: "'a prio_queue"
  assume ok: "line_ok q" and "pq_bag q \<noteq> {#}"
  then have ne: "pq_heap q \<noteq> []" and heap: "heap_ok (pq_heap q)" by (simp_all add: line_ok_def)
  obtain q' where q': "pop_entry q = (Some (hd (pq_heap q)), q')" "heap_ok (pq_heap q')"
    "pq_bag q = add_mset (hd (pq_heap q)) (pq_bag q')" "pq_seq q' = pq_seq q"
    using pop_entry_heap [OF heap ne] by metis
  have "\<forall>x \<in># pq_bag q. entry_le (hd (pq_heap q)) x" using entries.root_least_mem heap by auto
  with q' ne line_ok_smaller [OF ok q'(2,3,4)]
  show "\<exists>e q'. pop_entry q = (Some e, q') \<and> line_ok q' \<and> e \<in># pq_bag q \<and>
      pq_bag q' = pq_bag q - {#e#} \<and> (\<forall>x \<in># pq_bag q. entry_le e x)"
    by (intro exI [of _ "hd (pq_heap q)"] exI [of _ q']) simp
qed

section \<open>The queue as a line of waiting tasks\<close>

text \<open>
  The specification: the waiting tasks in the order they were submitted. A task joins at
  the end unless one with its identifier waits already; the one served is the first of those
  with the most urgent priority.
\<close>

definition most_urgent :: "'j collection_task list \<Rightarrow> 'j collection_task option" where
  "most_urgent ts = find (\<lambda>t. \<forall>u\<in>set ts. ct_priority t \<le> ct_priority u) ts"

datatype 'j queue_op = QEnqueue "'j collection_task" | QDequeue

datatype 'j queue_out =
    Enqueued "(fabric_error, unit) result"
  | Dequeued "'j collection_task option"

fun line_step :: "'j queue_op \<Rightarrow> 'j collection_task list \<Rightarrow> 'j queue_out \<times> 'j collection_task list" where
  "line_step (QEnqueue t) ts =
     (if ct_id t \<in> ct_id ` set ts then (Enqueued (Inl (DuplicateTask (ct_id t))), ts)
      else (Enqueued (Inr ()), ts @ [t]))"
| "line_step QDequeue ts =
     (case most_urgent ts of
        None \<Rightarrow> (Dequeued None, ts)
      | Some t \<Rightarrow> (Dequeued (Some t), filter (\<lambda>u. ct_id u \<noteq> ct_id t) ts))"

fun queue_step :: "'j queue_op \<Rightarrow> 'j prio_queue \<times> host \<Rightarrow> 'j queue_out \<times> 'j prio_queue \<times> host" where
  "queue_step (QEnqueue t) (q, h) = (let (r, q', h') = enqueue t h q in (Enqueued r, q', h'))"
| "queue_step QDequeue (q, h) = (let (t, q') = dequeue q in (Dequeued t, q', h))"

definition holds_line :: "'j prio_queue \<Rightarrow> 'j collection_task list \<Rightarrow> bool" where
  "holds_line q ts \<longleftrightarrow> pq_inv q \<and>
     (\<exists>es. mset es = pq_bag q \<and> sorted_wrt (\<lambda>a b. qe_seq a < qe_seq b) es \<and> map qe_task es = ts)"

lemma find_split: "\<forall>a\<in>set as. \<not> P a \<Longrightarrow> P x \<Longrightarrow> find P (as @ x # bs) = Some x"
  by (induction as) simp_all

lemma filter_split:
  assumes "distinct (map f (as @ x # bs))"
  shows "filter (\<lambda>u. f u \<noteq> f x) (as @ x # bs) = as @ bs"
proof -
  have "\<forall>a\<in>set as. f a \<noteq> f x" "\<forall>b\<in>set bs. f b \<noteq> f x"
    using assms by (auto simp: image_iff)
  then show ?thesis by simp
qed

lemma most_urgent_least:
  assumes e: "\<forall>x\<in>set (as @ e # bs). entry_key e \<le> entry_key x"
    and s: "sorted_wrt (\<lambda>a b. qe_seq a < qe_seq b) (as @ e # bs)"
  shows "most_urgent (map qe_task (as @ e # bs)) = Some (qe_task e)"
proof -
  let ?all = "as @ e # bs"
  have prio: "ct_priority (qe_task e) \<le> ct_priority (qe_task x)" if "x \<in> set ?all" for x
    using e that by (auto simp: entry_key_def intro: less_imp_le)
  have "\<not> ct_priority (qe_task a) \<le> ct_priority (qe_task e)" if a: "a \<in> set as" for a
  proof
    assume "ct_priority (qe_task a) \<le> ct_priority (qe_task e)"
    with prio [of a] a have "ct_priority (qe_task a) = ct_priority (qe_task e)" by simp
    moreover have "entry_key e \<le> entry_key a" using e a by simp
    ultimately have "qe_seq e \<le> qe_seq a" by (simp add: entry_key_def)
    moreover have "qe_seq a < qe_seq e" using s a by (simp add: sorted_wrt_append)
    ultimately show False by simp
  qed
  then have "\<forall>t\<in>set (map qe_task as). \<not> (\<forall>u\<in>set (map qe_task ?all). ct_priority t \<le> ct_priority u)"
    by auto
  moreover have "\<forall>u\<in>set (map qe_task ?all). ct_priority (qe_task e) \<le> ct_priority u"
    using prio by auto
  ultimately show ?thesis
    unfolding most_urgent_def map_append list.map(2) by (rule find_split)
qed

lemma enqueue_line:
  assumes hl: "holds_line q ts" and seq: "pq_seq q \<noteq> - 1"
  shows "holds_line (fst (snd (enqueue t h q))) (snd (line_step (QEnqueue t) ts))"
    and "fst (line_step (QEnqueue t) ts) = Enqueued (fst (enqueue t h q))"
proof -
  from hl obtain es where inv: "pq_inv q" and es: "mset es = pq_bag q"
    "sorted_wrt (\<lambda>a b. qe_seq a < qe_seq b) es" "map qe_task es = ts" by (auto simp: holds_line_def)
  have set_es: "set es = set (pq_heap q)" by (metis es(1) set_mset_mset)
  have ids: "ct_id ` set ts = dom (pq_by_id q)"
    using inv es(3) set_es by (auto simp: pq_inv_def image_image)
  have inv': "pq_inv (fst (snd (enqueue t h q)))" by (rule enqueue_inv [OF inv seq])
  show "fst (line_step (QEnqueue t) ts) = Enqueued (fst (enqueue t h q))"
    using ids by (auto simp: enqueue_def now_utc_def Let_def)
  show "holds_line (fst (snd (enqueue t h q))) (snd (line_step (QEnqueue t) ts))"
  proof (cases "pq_by_id q (ct_id t) = None")
    case False
    then show ?thesis using hl ids by (auto simp: enqueue_rejects)
  next
    case True
    let ?e = "\<lparr>qe_task = t, qe_submitted_at = fst (now_utc h), qe_seq = pq_seq q\<rparr>"
    have "pq_bag (fst (snd (enqueue t h q))) = mset (es @ [?e])"
      using True es(1) by (simp add: enqueue_def now_utc_def Let_def mset_pushed)
    moreover have "sorted_wrt (\<lambda>a b. qe_seq a < qe_seq b) (es @ [?e])"
      using es(2) inv set_es by (simp add: sorted_wrt_append pq_inv_def)
    moreover have "map qe_task (es @ [?e]) = snd (line_step (QEnqueue t) ts)"
      using es(3) ids True by auto
    ultimately show ?thesis unfolding holds_line_def using inv' by metis
  qed
qed

lemma dequeue_line:
  assumes hl: "holds_line q ts"
  shows "holds_line (snd (dequeue q)) (snd (line_step QDequeue ts))"
    and "fst (line_step QDequeue ts) = Dequeued (fst (dequeue q))"
    and "pq_seq (snd (dequeue q)) = pq_seq q"
    and "peek q = most_urgent ts"
proof -
  from hl obtain es where inv: "pq_inv q" and es: "mset es = pq_bag q"
    "sorted_wrt (\<lambda>a b. qe_seq a < qe_seq b) es" "map qe_task es = ts" by (auto simp: holds_line_def)
  have "holds_line (snd (dequeue q)) (snd (line_step QDequeue ts)) \<and>
        fst (line_step QDequeue ts) = Dequeued (fst (dequeue q)) \<and>
        pq_seq (snd (dequeue q)) = pq_seq q \<and> peek q = most_urgent ts"
  proof (cases "pq_heap q = []")
    case True
    with es hl show ?thesis by (simp add: dequeue_def pop_entry_def most_urgent_def peek_def)
  next
    case False
    let ?e = "hd (pq_heap q)"
    obtain q' where q': "pop_entry q = (Some ?e, q')" "pq_inv q'"
      "pq_bag q = add_mset ?e (pq_bag q')" "pq_seq q' = pq_seq q"
      using pop_entry_step [OF inv False] by metis
    have "?e \<in># mset es" using es(1) False by simp
    then obtain as bs where split: "es = as @ ?e # bs" by (metis in_set_conv_decomp set_mset_mset)
    have least: "\<forall>x\<in>set es. entry_key ?e \<le> entry_key x"
      using heap_root_least_mem inv es(1) unfolding pq_inv_def by (metis set_mset_mset)
    have urgent: "most_urgent ts = Some (qe_task ?e)"
      using most_urgent_least [of as ?e bs] least es(2,3) split by simp
    have "distinct (map entry_id es)"
      using inv unfolding pq_inv_def distinct_map_mset [OF es(1)] by blast
    then have "distinct (map ct_id (map qe_task as @ qe_task ?e # map qe_task bs))"
      by (subst (asm) split) (simp add: comp_def)
    from filter_split [OF this]
    have rest: "filter (\<lambda>u. ct_id u \<noteq> ct_id (qe_task ?e)) ts = map qe_task (as @ bs)"
      using es(3) split by (metis list.map(2) map_append)
    have "mset (as @ bs) = pq_bag q'" using es(1) q'(3) split
      by (metis add_mset_add_mset_same_iff mset.simps(2) mset_append union_mset_add_mset_right)
    moreover have "sorted_wrt (\<lambda>a b. qe_seq a < qe_seq b) (as @ bs)"
      using es(2) by (subst (asm) split) (auto simp: sorted_wrt_append)
    ultimately have "holds_line q' (map qe_task (as @ bs))" using q'(2)
      unfolding holds_line_def by blast
    then show ?thesis
      using q' urgent rest False by (simp add: dequeue_def peek_def list.case_eq_if)
  qed
  then show "holds_line (snd (dequeue q)) (snd (line_step QDequeue ts))"
    and "fst (line_step QDequeue ts) = Dequeued (fst (dequeue q))"
    and "pq_seq (snd (dequeue q)) = pq_seq q" and "peek q = most_urgent ts" by blast+
qed

lemma queue_step_line:
  assumes "holds_line q ts" and "pq_seq q \<noteq> - 1"
  obtains q' h' where "queue_step x (q, h) = (fst (line_step x ts), q', h')"
    and "holds_line q' (snd (line_step x ts))"
    and "pq_seq q' = pq_seq q \<or> pq_seq q' = pq_seq q + 1"
proof (cases x)
  case (QEnqueue t)
  obtain r q' h' where e: "enqueue t h q = (r, q', h')" by (cases "enqueue t h q")
  have "pq_seq q' = pq_seq q \<or> pq_seq q' = pq_seq q + 1"
    using e by (auto simp: enqueue_def now_utc_def Let_def split: if_splits)
  with enqueue_line [OF assms, of t h] e QEnqueue that show thesis by auto
next
  case QDequeue
  with dequeue_line [OF assms(1)] that show thesis by (auto simp: split_beta)
qed

lemma run_outputs_line:
  assumes "holds_line q ts" and "unat (pq_seq q) + length xs < 2 ^ 64"
  shows "\<exists>q' h'. run_outputs queue_step xs (q, h) = (fst (run_outputs line_step xs ts), q', h') \<and>
                 holds_line q' (snd (run_outputs line_step xs ts))"
  using assms
proof (induction xs arbitrary: q h ts)
  case Nil
  then show ?case by simp
next
  case (Cons x xs)
  have seq: "pq_seq q \<noteq> - 1"
    using Cons.prems(2) by (auto simp: unsigned_minus_1_eq_mask mask_eq_exp_minus_1)
  obtain q' h' where st: "queue_step x (q, h) = (fst (line_step x ts), q', h')"
    "holds_line q' (snd (line_step x ts))" "pq_seq q' = pq_seq q \<or> pq_seq q' = pq_seq q + 1"
    using queue_step_line [OF Cons.prems(1) seq] by metis
  have "unat (pq_seq q') + length xs < 2 ^ 64"
    using st(3) Cons.prems(2) unat_inc [OF seq] by auto
  from Cons.IH [OF st(2) this, of h'] st(1) show ?case by (auto simp: split_beta)
qed

lemma holds_line_new: "holds_line pq_new []"
  by (simp add: holds_line_def) (simp add: pq_new_def)

lemma holds_line_len: "holds_line q ts \<Longrightarrow> pq_len q = length ts"
  unfolding holds_line_def pq_len_def by (metis length_map size_mset)

text \<open>
  C7. The queue is a line: for every sequence of at most \<open>2 ^ 64 - 1\<close> enqueues and dequeues
  on a new queue, the answers are those of the line of waiting tasks that serves the first
  of its most urgent tasks, and afterwards \<open>peek\<close>, \<open>len\<close> and \<open>is_empty\<close> describe
  that line. The heap, its positions and the sequence numbers do not show.
\<close>

theorem queue_refines_line:
  fixes xs :: "'j queue_op list"
  assumes "length xs < 2 ^ 64"
  shows "case run_outputs queue_step xs (pq_new, h) of (outs, q, h') \<Rightarrow>
         case run_outputs line_step xs [] of (outs', ts) \<Rightarrow>
           outs = outs' \<and> peek q = most_urgent ts \<and> pq_len q = length ts \<and>
           pq_is_empty q = (ts = [])"
proof -
  have "unat (pq_seq (pq_new :: 'j prio_queue)) + length xs < 2 ^ 64"
    using assms by (simp add: pq_new_def)
  from run_outputs_line [OF holds_line_new this, of h] obtain q' h' where
    "run_outputs queue_step xs (pq_new, h) = (fst (run_outputs line_step xs []), q', h')"
    and "holds_line q' (snd (run_outputs line_step xs []))" by blast
  then show ?thesis
    by (auto simp: split_beta dequeue_line(4) holds_line_len pq_is_empty_def)
qed

text \<open>Concrete tasks for the witnesses.\<close>

definition ex_task :: "string \<Rightarrow> priority \<Rightarrow> unit collection_task" where
  "ex_task i p = \<lparr>ct_id = i, ct_target = TargetUrl ''https://example.com'', ct_priority = p,
     ct_driver = ''http'', ct_capability = ''fetch'', ct_params = (), ct_max_retries = 3,
     ct_created_at = 0, ct_metadata = Map.empty\<rparr>"

definition ex_host :: host where
  "ex_host = \<lparr>clock = (\<lambda>n. int n), millis = (\<lambda>n. of_nat n), ulids = (\<lambda>n. of_nat n), calls = 0\<rparr>"

lemmas ex_queue_simps = ex_task_def ex_host_def pq_new_def enqueue_def pop_entry_def dequeue_def
  now_utc_def bubble_up.simps bubble_down.simps smallest_of_def entry_less_def swap_at_def
  less_priority_def Let_def peek_def pq_cancel_def

theorem queue_refines_line_witness:
  "let xs = [QEnqueue (ex_task ''a'' Low), QEnqueue (ex_task ''b'' Critical),
             QEnqueue (ex_task ''c'' Critical), QEnqueue (ex_task ''b'' High),
             QDequeue, QDequeue, QDequeue, QDequeue] in
   fst (run_outputs queue_step xs (pq_new, ex_host)) =
     [Enqueued (Inr ()), Enqueued (Inr ()), Enqueued (Inr ()),
      Enqueued (Inl (DuplicateTask ''b'')), Dequeued (Some (ex_task ''b'' Critical)),
      Dequeued (Some (ex_task ''c'' Critical)), Dequeued (Some (ex_task ''a'' Low)), Dequeued None]"
proof -
  define xs where "xs = [QEnqueue (ex_task ''a'' Low), QEnqueue (ex_task ''b'' Critical),
             QEnqueue (ex_task ''c'' Critical), QEnqueue (ex_task ''b'' High),
             QDequeue, QDequeue, QDequeue, QDequeue]"
  have "length xs < 2 ^ 64" by (simp add: xs_def)
  from queue_refines_line [OF this, of ex_host]
  have "fst (run_outputs queue_step xs (pq_new, ex_host)) = fst (run_outputs line_step xs [])"
    by (simp add: split_beta)
  also have "\<dots> = [Enqueued (Inr ()), Enqueued (Inr ()), Enqueued (Inr ()),
      Enqueued (Inl (DuplicateTask ''b'')), Dequeued (Some (ex_task ''b'' Critical)),
      Dequeued (Some (ex_task ''c'' Critical)), Dequeued (Some (ex_task ''a'' Low)), Dequeued None]"
    by (simp add: xs_def most_urgent_def ex_task_def prio_order)
  finally show ?thesis by (simp add: xs_def)
qed

section \<open>Cancelling\<close>

text \<open>
  The index is in sync when the position it records for an identifier holds the task of
  that identifier.
\<close>

definition in_sync :: "'j prio_queue \<Rightarrow> bool" where
  "in_sync q \<longleftrightarrow> (\<forall>i \<in> dom (pq_by_id q). case pq_by_id q i of None \<Rightarrow> True
      | Some k \<Rightarrow> k < length (pq_heap q) \<and> entry_id (pq_heap q ! k) = i)"

lemma heap_ok_down: "heap_ok xs \<Longrightarrow> i < length xs \<Longrightarrow> heap_down i xs"
  unfolding heap_down_def heap_over_def heap_ok_def
  by (metis order_trans)

lemma bubble_both_heap:
  assumes old: "heap_ok xs" and i: "i < length xs"
  shows "heap_ok (bubble_down (bubble_up (xs[i := e]) i) i)"
    and "mset (bubble_down (bubble_up (xs[i := e]) i) i) = mset (xs[i := e])"
proof -
  let ?ys = "xs[i := e]"
  have key: "key_at ?ys k = (if k = i then entry_key e else key_at xs k)" if "k < length xs" for k
    using that by (simp add: key_at_def)
  have edge: "key_at xs (par k) \<le> key_at xs k" "par k < length xs" "par k < k"
    if "k < length xs" "0 < k" for k
    using old that par_less [of k] by (auto simp: heap_ok_def)
  have over: "heap_over i ?ys"
    unfolding heap_over_def
  proof (intro allI impI)
    fix k assume k: "k < length ?ys" "0 < k" "par k = i" "0 < i"
    then have "key_at xs (par i) \<le> key_at xs i" "key_at xs i \<le> key_at xs k"
      using edge [of i] edge [of k] i by auto
    then show "key_at ?ys (par i) \<le> key_at ?ys k"
      using k edge(2,3) [of i] edge(3) [of k] i by (auto simp: key)
  qed
  have up: "heap_ok (bubble_up ?ys i)"
    if "0 < i" "entry_key e < key_at xs (par i)"
  proof (rule bubble_up_heap)
    have "key_at ?ys (par k) \<le> key_at ?ys k" if k: "k < length xs" "0 < k" "k \<noteq> i" for k
    proof (cases "par k = i")
      case True
      have "key_at xs (par i) \<le> key_at xs i" using edge [of i] i \<open>0 < i\<close> by simp
      with edge(1) [OF k(1,2)] True \<open>entry_key e < key_at xs (par i)\<close> k i
      show ?thesis by (simp add: key)
    next
      case False
      with edge [OF k(1,2)] k show ?thesis by (simp add: key)
    qed
    then show "heap_up i ?ys" using over by (simp add: heap_up_def)
  qed (use i in simp)
  have "heap_ok (bubble_down (bubble_up ?ys i) i)"
  proof (cases "0 < i \<and> entry_key e < key_at xs (par i)")
    case True
    then have "heap_ok (bubble_up ?ys i)" using up by blast
    moreover have "i < length (bubble_up ?ys i)"
      using i by (metis length_list_update mset_bubble_up size_mset)
    ultimately show ?thesis by (intro bubble_down_heap heap_ok_down)
  next
    case False
    have "bubble_up ?ys i = ?ys"
      using False i edge(2,3) [OF i]
      by (auto simp: bubble_up.simps [of ?ys i] entry_less_key Let_def key_at_def par_def nth_list_update)
    moreover have "heap_down i ?ys"
      unfolding heap_down_def
    proof (intro conjI over allI impI)
      fix k assume k: "k < length ?ys" "0 < k" "par k \<noteq> i"
      then show "key_at ?ys (par k) \<le> key_at ?ys k"
        using False edge [of k] by (cases "k = i") (auto simp: key not_less)
    qed
    ultimately show ?thesis using i by (simp add: bubble_down_heap)
  qed
  then show "heap_ok (bubble_down (bubble_up ?ys i) i)" .
  have "i < length (bubble_up ?ys i)"
    using i by (metis length_list_update mset_bubble_up size_mset)
  then show "mset (bubble_down (bubble_up ?ys i) i) = mset ?ys"
    using i by (simp add: mset_bubble_down mset_bubble_up)
qed

lemma swap_pop:
  assumes "i < length xs - 1"
  shows "butlast (swap_at i (length xs - 1) xs) = (butlast xs)[i := last xs]"
    and "swap_at i (length xs - 1) xs ! i = last xs"
    and "mset xs = add_mset (xs ! i) (mset ((butlast xs)[i := last xs]))"
proof -
  have ne: "xs \<noteq> []" using assms by auto
  have last: "last xs = xs ! (length xs - 1)" using ne by (simp add: last_conv_nth)
  show "swap_at i (length xs - 1) xs ! i = last xs"
    using assms by (simp add: nth_swap_at last)
  show "butlast (swap_at i (length xs - 1) xs) = (butlast xs)[i := last xs]"
    using assms by (intro nth_equalityI)
      (auto simp: nth_butlast nth_swap_at nth_list_update last)
  have i: "i < length (butlast xs)" "butlast xs ! i = xs ! i" using assms by (simp_all add: nth_butlast)
  have "mset xs = mset (butlast xs @ [last xs])" using ne by simp
  also have "\<dots> = add_mset (last xs) (mset (butlast xs))" by simp
  also have "mset (butlast xs) = add_mset (xs ! i) (mset (butlast xs) - {#xs ! i#})"
    using i by (metis insert_DiffM nth_mem_mset)
  also have "add_mset (last xs) (add_mset (xs ! i) (mset (butlast xs) - {#xs ! i#})) =
             add_mset (xs ! i) (mset ((butlast xs)[i := last xs]))"
    using i by (simp add: mset_update)
  finally show "mset xs = add_mset (xs ! i) (mset ((butlast xs)[i := last xs]))" .
qed

lemma cancel_heap:
  assumes heap: "heap_ok xs" and i: "i < length xs"
  obtains ys where "mset xs = add_mset (xs ! i) (mset ys)" and "heap_ok ys"
    and "ys = (let swapped = (if i \<noteq> length xs - 1 then swap_at i (length xs - 1) xs else xs);
                   popped = butlast swapped
               in if i < length popped then bubble_down (bubble_up popped i) i else popped)"
proof (cases "i = length xs - 1")
  case True
  have "xs \<noteq> []" using i by auto
  then have "mset xs = add_mset (xs ! i) (mset (butlast xs))"
    using True append_butlast_last_id [of xs]
    by (metis add_mset_add_single last_conv_nth mset.simps mset_append)
  then show thesis using True in_order_butlast [OF heap] by (intro that [of "butlast xs"]) auto
next
  case False
  then have il: "i < length xs - 1" using i by simp
  let ?zs = "(butlast xs)[i := last xs]"
  have "heap_ok (bubble_down (bubble_up ?zs i) i)" "mset (bubble_down (bubble_up ?zs i) i) = mset ?zs"
    using bubble_both_heap [OF in_order_butlast [OF heap], of i "last xs"] il by simp_all
  then show thesis
    using False il swap_pop [OF il]
    by (intro that [of "bubble_down (bubble_up ?zs i) i"]) (simp_all add: Let_def)
qed

text \<open>What \<open>cancel\<close> does with a position, right or wrong: it takes out the entry that is there.\<close>

lemma pq_cancel_position:
  assumes heap: "heap_ok (pq_heap q)" and k: "pq_by_id q i = Some k" "k < length (pq_heap q)"
  obtains q' where "pq_cancel i q = Some (Inr (), q')" and "heap_ok (pq_heap q')"
    and "pq_bag q = add_mset (pq_heap q ! k) (pq_bag q')" and "pq_seq q' = pq_seq q"
    and "pq_by_id q' = (let b = (pq_by_id q)(i := None) in
           if k \<noteq> length (pq_heap q) - 1 then b(entry_id (last (pq_heap q)) \<mapsto> k) else b)(i := None)"
proof -
  let ?xs = "pq_heap q" and ?l = "length (pq_heap q) - 1"
  have ne: "?xs \<noteq> []" using k(2) by auto
  from cancel_heap [OF heap k(2)] obtain ys where
    m: "mset ?xs = add_mset (?xs ! k) (mset ys)" and ok: "heap_ok ys" and
    ys: "ys = (let swapped = (if k \<noteq> ?l then swap_at k ?l ?xs else ?xs); popped = butlast swapped
               in if k < length popped then bubble_down (bubble_up popped k) k else popped)" .
  define by_id where "by_id =
    (let b = (pq_by_id q)(i := None) in
     if k \<noteq> ?l then b(entry_id (swap_at k ?l ?xs ! k) \<mapsto> k) else b)(i := None)"
  define q' where "q' = q\<lparr>pq_heap := ys, pq_by_id := by_id\<rparr>"
  have c: "pq_cancel i q = Some (Inr (), q')"
    using k ne ys by (simp add: pq_cancel_def q'_def by_id_def Let_def)
  have "swap_at k ?l ?xs ! k = last ?xs" if "k \<noteq> ?l"
    using swap_pop(2) [of k ?xs] k(2) that by simp
  then have "by_id = (let b = (pq_by_id q)(i := None) in
           if k \<noteq> ?l then b(entry_id (last ?xs) \<mapsto> k) else b)(i := None)"
    by (simp add: by_id_def Let_def)
  with c m ok show thesis by (intro that [of q']) (simp_all add: q'_def)
qed

lemma pq_cancel_outside: "pq_by_id q i = Some k \<Longrightarrow> length (pq_heap q) \<le> k \<Longrightarrow> pq_cancel i q = None"
proof (cases "pq_heap q = []")
  case False
  assume "pq_by_id q i = Some k" "length (pq_heap q) \<le> k"
  moreover from this(2) have "k \<noteq> length (pq_heap q) - 1" using False by (cases "pq_heap q") auto
  ultimately show ?thesis using False by (simp add: pq_cancel_def Let_def)
qed (simp add: pq_cancel_def Let_def)

lemma pq_cancel_inv:
  assumes inv: "pq_inv q" and k: "pq_by_id q i = Some k" "k < length (pq_heap q)"
  obtains q' where "pq_cancel i q = Some (Inr (), q')" and "heap_ok (pq_heap q')"
    and "pq_bag q = add_mset (pq_heap q ! k) (pq_bag q')" and "pq_seq q' = pq_seq q"
    and "dom (pq_by_id q') = dom (pq_by_id q) - {i}"
proof -
  have heap: "heap_ok (pq_heap q)" using inv by (simp add: pq_inv_def)
  from pq_cancel_position [OF this k] obtain q' where q': "pq_cancel i q = Some (Inr (), q')" "heap_ok (pq_heap q')"
    "pq_bag q = add_mset (pq_heap q ! k) (pq_bag q')" "pq_seq q' = pq_seq q"
    "pq_by_id q' = (let b = (pq_by_id q)(i := None) in
           if k \<noteq> length (pq_heap q) - 1 then b(entry_id (last (pq_heap q)) \<mapsto> k) else b)(i := None)" .
  have "last (pq_heap q) \<in> set (pq_heap q)" using k(2) by (cases "pq_heap q = []") simp_all
  then have "entry_id (last (pq_heap q)) \<in> dom (pq_by_id q)" using inv unfolding pq_inv_def by blast
  then have "dom (pq_by_id q') = dom (pq_by_id q) - {i}" unfolding q'(5) by (auto simp: Let_def)
  with q' show thesis by (intro that [of q'])
qed

lemma pq_cancel_in_sync:
  assumes inv: "pq_inv q" and sync: "in_sync q" and k: "pq_by_id q i = Some k"
  obtains q' where "pq_cancel i q = Some (Inr (), q')" and "pq_inv q'"
    and "pq_bag q = add_mset (pq_heap q ! k) (pq_bag q')" and "entry_id (pq_heap q ! k) = i"
proof -
  let ?xs = "pq_heap q"
  have "case pq_by_id q i of None \<Rightarrow> True | Some k \<Rightarrow> k < length ?xs \<and> entry_id (?xs ! k) = i"
    using sync k unfolding in_sync_def by blast
  then have kl: "k < length ?xs" and ki: "entry_id (?xs ! k) = i" using k by simp_all
  from pq_cancel_inv [OF inv k kl] obtain q' where c: "pq_cancel i q = Some (Inr (), q')" "heap_ok (pq_heap q')"
    "pq_bag q = add_mset (?xs ! k) (pq_bag q')" "pq_seq q' = pq_seq q" "dom (pq_by_id q') = dom (pq_by_id q) - {i}" .
  have m': "mset ?xs = mset (?xs ! k # pq_heap q')" using c(3) by simp
  have d: "distinct (map entry_id (?xs ! k # pq_heap q'))" "distinct (map qe_seq (?xs ! k # pq_heap q'))"
    using inv unfolding pq_inv_def distinct_map_mset [OF m'] by blast+
  have set: "set ?xs = insert (?xs ! k) (set (pq_heap q'))" by (metis m' list.simps(15) set_mset_mset)
  have dom: "dom (pq_by_id q) = entry_id ` set ?xs" using inv by (simp add: pq_inv_def)
  have "dom (pq_by_id q') = entry_id ` set (pq_heap q')" unfolding c(5) dom using d(1) ki set by auto
  then have "pq_inv q'"
    using inv d c(2,4) set by (auto simp: pq_inv_def)
  with c ki show thesis by (intro that [of q'])
qed

section \<open>Runs of all three operations\<close>

datatype 'j queue_call = QSubmit "'j collection_task" | QServe | QCancel string

fun answer_call :: "'j queue_call \<Rightarrow> 'j prio_queue \<times> host \<Rightarrow> ('j prio_queue \<times> host) option" where
  "answer_call (QSubmit t) (q, h) = Some (snd (enqueue t h q))"
| "answer_call QServe (q, h) = Some (snd (dequeue q), h)"
| "answer_call (QCancel i) (q, h) = map_option (\<lambda>(r, q'). (q', h)) (pq_cancel i q)"

text \<open>A run ends at the first panic.\<close>

fun queue_calls :: "'j queue_call list \<Rightarrow> 'j prio_queue \<times> host \<Rightarrow> ('j prio_queue \<times> host) option" where
  "queue_calls [] st = Some st"
| "queue_calls (x # xs) st = Option.bind (answer_call x st) (queue_calls xs)"

lemma line_ok_cancel:
  assumes "line_ok q" and "pq_cancel i q = Some (r, q')"
  shows "line_ok q' \<and> pq_seq q' = pq_seq q"
proof (cases "pq_by_id q i")
  case None
  with assms show ?thesis by (simp add: pq_cancel_def)
next
  case (Some k)
  with assms(2) pq_cancel_outside have k: "k < length (pq_heap q)" by (metis not_less option.distinct(1))
  have "heap_ok (pq_heap q)" using assms(1) by (simp add: line_ok_def)
  from pq_cancel_position [OF this Some k] obtain q'' where "pq_cancel i q = Some (Inr (), q'')" "heap_ok (pq_heap q'')"
    "pq_bag q = add_mset (pq_heap q ! k) (pq_bag q'')" "pq_seq q'' = pq_seq q" .
  with assms line_ok_smaller [OF assms(1)] show ?thesis by simp
qed

lemma line_ok_enqueue:
  assumes ok: "line_ok q" and seq: "pq_seq q \<noteq> - 1"
  shows "line_ok (fst (snd (enqueue t h q))) \<and> unat (pq_seq (fst (snd (enqueue t h q)))) \<le> Suc (unat (pq_seq q))"
proof (cases "pq_by_id q (ct_id t) = None")
  case False
  then show ?thesis using ok by (simp add: enqueue_rejects)
next
  case True
  let ?e = "\<lparr>qe_task = t, qe_submitted_at = fst (now_utc h), qe_seq = pq_seq q\<rparr>"
  let ?ys = "bubble_up (pq_heap q @ [?e]) (length (pq_heap q))"
  have e: "pq_heap (fst (snd (enqueue t h q))) = ?ys" "pq_seq (fst (snd (enqueue t h q))) = pq_seq q + 1"
    using True by (simp_all add: enqueue_def now_utc_def Let_def)
  have m: "mset ?ys = mset (?e # pq_heap q)" by (simp add: mset_pushed)
  have old: "\<forall>x\<in>set (pq_heap q). qe_seq x < pq_seq q" using ok by (simp add: line_ok_def)
  have "distinct (map qe_seq ?ys)"
    using ok old unfolding distinct_map_mset [OF m] by (auto simp: line_ok_def)
  moreover have "\<forall>x\<in>set ?ys. qe_seq x < pq_seq q + 1"
    using old word_inc_less [OF seq] by (auto simp: set_pushed intro: less_imp_le)
  ultimately show ?thesis
    using ok heap_ok_pushed [of "pq_heap q" ?e] e unat_word_ariths(1) [of "pq_seq q" 1]
    by (simp add: line_ok_def mod_less_eq_dividend [THEN le_trans])
qed

lemma line_ok_dequeue: "line_ok q \<Longrightarrow> line_ok (snd (dequeue q)) \<and> pq_seq (snd (dequeue q)) = pq_seq q"
proof (cases "pq_heap q = []")
  case False
  assume ok: "line_ok q"
  then have "heap_ok (pq_heap q)" by (simp add: line_ok_def)
  from pop_entry_heap [OF this False] obtain q' where "pop_entry q = (Some (hd (pq_heap q)), q')" "heap_ok (pq_heap q')"
    "pq_bag q = add_mset (hd (pq_heap q)) (pq_bag q')" "pq_seq q' = pq_seq q" .
  with line_ok_smaller [OF ok] show ?thesis by (simp add: dequeue_def)
qed (simp add: dequeue_def pop_entry_def)

lemma line_ok_calls:
  "line_ok q \<Longrightarrow> unat (pq_seq q) + length xs < 2 ^ 64 \<Longrightarrow> queue_calls xs (q, h) = Some (q', h') \<Longrightarrow> line_ok q'"
proof (induction xs arbitrary: q h)
  case (Cons x xs)
  from Cons.prems(3) obtain q1 h1 where x: "answer_call x (q, h) = Some (q1, h1)" "queue_calls xs (q1, h1) = Some (q', h')"
    by (auto simp: bind_eq_Some_conv)
  have seq: "pq_seq q \<noteq> - 1"
    using Cons.prems(2) by (auto simp: unsigned_minus_1_eq_mask mask_eq_exp_minus_1)
  have "line_ok q1 \<and> unat (pq_seq q1) \<le> Suc (unat (pq_seq q))"
  proof (cases x)
    case (QSubmit t)
    with x(1) line_ok_enqueue [OF Cons.prems(1) seq, of t h] show ?thesis by simp
  next
    case QServe
    with x(1) line_ok_dequeue [OF Cons.prems(1)] show ?thesis by auto
  next
    case (QCancel i)
    with x(1) line_ok_cancel [OF Cons.prems(1)] show ?thesis by auto
  qed
  with Cons.IH [OF _ _ x(2)] Cons.prems(2) show ?case by simp
qed simp

text \<open>
  C8. Draining. After every run of at most \<open>2 ^ 64 - 1\<close> enqueues, dequeues and cancels that does not panic - whatever
  a cancel with a stale position has taken out - popping as often as the queue is long hands out each waiting entry
  exactly once, never one that is ordered after a later one (most urgent first, oldest first among equals), and
  leaves the queue empty; \<open>list\<close> shows the same tasks sorted by priority.
\<close>

theorem drain_by_priority_then_age:
  fixes xs :: "'j queue_call list"
  assumes "length xs < 2 ^ 64" and "queue_calls xs (pq_new, h) = Some (q, h')"
  shows "case pops pop_entry (pq_len q) q of (es, q') \<Rightarrow>
           mset es = pq_bag q \<and> sorted_wrt (\<lambda>a b. \<not> entry_less b a) es \<and> pq_is_empty q' \<and>
           mset (pq_list q) = mset (map qe_task es) \<and>
           sorted_wrt (\<lambda>t u. ct_priority t \<le> ct_priority u) (pq_list q)"
proof -
  have "line_ok (pq_new :: 'j prio_queue)" by (rule pq_inv_line_ok [OF pq_inv_new])
  from line_ok_calls [OF this _ assms(2)] assms(1) have "line_ok q" by (simp add: pq_new_def)
  from lq.pops_all [OF this, of "pq_len q"] obtain es q' where
    es: "pops pop_entry (pq_len q) q = (es, q')" "pq_bag q' = {#}" "mset es = pq_bag q"
        "sorted_wrt entry_le es" by (auto simp: pq_len_def)
  have "sorted (map (\<lambda>t. (ct_priority t, - ct_created_at t)) (pq_list q))"
    unfolding pq_list_def by (rule sorted_sort_key)
  then have "sorted_wrt (\<lambda>t u. (ct_priority t, - ct_created_at t) \<le> (ct_priority u, - ct_created_at u)) (pq_list q)"
    unfolding sorted_map .
  then have "sorted_wrt (\<lambda>t u. ct_priority t \<le> ct_priority u) (pq_list q)"
    by (rule sorted_wrt_mono_rel [rotated]) (auto intro: less_imp_le)
  moreover have "mset (pq_list q) = mset (map qe_task es)"
    using es(3) by (simp add: pq_list_def)
  moreover have "pq_is_empty q'" using es(2) by (simp add: pq_is_empty_def pq_len_def)
  ultimately show ?thesis
    using es by (simp add: entry_less_key not_less entry_le_def [abs_def])
qed

text \<open>Here the cancel of \<open>a\<close> takes out \<open>b\<close>, which has bubbled to the place that the index records for \<open>a\<close>.\<close>

theorem drain_by_priority_then_age_witness:
  "\<exists>q h'. queue_calls [QSubmit (ex_task ''a'' Low), QSubmit (ex_task ''b'' Critical), QCancel ''a''] (pq_new, ex_host) = Some (q, h')
     \<and> map entry_id (pq_heap q) = [''a''] \<and> pq_is_empty (snd (pops pop_entry (pq_len q) q))"
proof -
  let ?xs = "[QSubmit (ex_task ''a'' Low), QSubmit (ex_task ''b'' Critical), QCancel ''a'']"
  obtain q h' where q: "queue_calls ?xs (pq_new, ex_host) = Some (q, h')" "map entry_id (pq_heap q) = [''a'']"
    by (simp add: ex_queue_simps)
  have "length ?xs < 2 ^ 64" by simp
  from drain_by_priority_then_age [OF this q(1)] q show ?thesis by (auto simp: split_beta)
qed

section \<open>Which task a cancel takes out\<close>

text \<open>
  Cancelling with an index in sync: an identifier without a position is reported as not
  found and nothing changes; otherwise \<open>cancel\<close> succeeds, takes out exactly the entry of that
  identifier, keeps the heap order and the set of indexed identifiers, and a second cancel of
  the same task reports that it is not there.
\<close>

theorem cancel_takes_out_its_task:
  assumes "pq_inv q" and "in_sync q"
  shows "case pq_cancel i q of
           None \<Rightarrow> False
         | Some (Inl e, q') \<Rightarrow> e = TaskNotFound i \<and> q' = q \<and> i \<notin> entry_id ` set (pq_heap q)
         | Some (Inr u, q') \<Rightarrow> pq_inv q' \<and>
             pq_bag q' = filter_mset (\<lambda>e. entry_id e \<noteq> i) (pq_bag q) \<and>
             i \<in> entry_id ` set (pq_heap q) \<and>
             pq_cancel i q' = Some (Inl (TaskNotFound i), q')"
proof (cases "pq_by_id q i")
  case None
  then have "i \<notin> entry_id ` set (pq_heap q)" using assms(1) unfolding pq_inv_def by (metis domIff)
  with None show ?thesis by (simp add: pq_cancel_def)
next
  case (Some k)
  then obtain q' where q': "pq_cancel i q = Some (Inr (), q')" "pq_inv q'"
    "pq_bag q = add_mset (pq_heap q ! k) (pq_bag q')" "entry_id (pq_heap q ! k) = i"
    using pq_cancel_in_sync [OF assms Some] by metis
  have m: "mset (pq_heap q) = mset (pq_heap q ! k # pq_heap q')" using q'(3) by simp
  have "distinct (map entry_id (pq_heap q ! k # pq_heap q'))"
    using assms(1) unfolding pq_inv_def distinct_map_mset [OF m] by blast
  then have out: "i \<notin> entry_id ` set (pq_heap q')" using q'(4) by simp
  then have "filter_mset (\<lambda>e. entry_id e \<noteq> i) (pq_bag q') = pq_bag q'"
    by (intro filter_mset_eq_conv [THEN iffD2]) auto
  then have "pq_bag q' = filter_mset (\<lambda>e. entry_id e \<noteq> i) (pq_bag q)" using q'(3,4) by simp
  moreover have "i \<in> entry_id ` set (pq_heap q)"
    using q'(3,4) by (metis image_eqI set_mset_mset union_single_eq_member)
  moreover have "pq_by_id q' i = None" using out q'(2) unfolding pq_inv_def by (metis domIff)
  then have "pq_cancel i q' = Some (Inl (TaskNotFound i), q')" by (simp add: pq_cancel_def)
  ultimately show ?thesis using q' by simp
qed

text \<open>
  When the index is in sync: a new queue, and every enqueue of a task that is not more urgent
  than the ones waiting (all default submissions) keeps it so, since nothing bubbles up.
\<close>

lemma in_sync_new [simp]: "in_sync pq_new"
  by (simp add: in_sync_def pq_new_def)

lemma in_sync_enqueue:
  assumes inv: "pq_inv q" and sync: "in_sync q"
    and least: "\<forall>e\<in>set (pq_heap q). ct_priority (qe_task e) \<le> ct_priority t"
  shows "in_sync (fst (snd (enqueue t h q)))"
proof (cases "pq_by_id q (ct_id t) = None")
  case False
  then show ?thesis using sync by (simp add: enqueue_rejects)
next
  case True
  let ?e = "\<lparr>qe_task = t, qe_submitted_at = fst (now_utc h), qe_seq = pq_seq q\<rparr>"
  let ?n = "length (pq_heap q)"
  have "\<not> entry_less ?e ((pq_heap q @ [?e]) ! ((?n - 1) div 2))"
  proof (cases "?n = 0")
    case False
    then have "(?n - 1) div 2 < ?n" by linarith
    then have "pq_heap q ! ((?n - 1) div 2) \<in> set (pq_heap q)" by simp
    then have "qe_seq (pq_heap q ! ((?n - 1) div 2)) < pq_seq q"
      "ct_priority (qe_task (pq_heap q ! ((?n - 1) div 2))) \<le> ct_priority t"
      using inv least by (auto simp: pq_inv_def)
    then show ?thesis using \<open>(?n - 1) div 2 < ?n\<close> by (auto simp: entry_less_def nth_append)
  qed (simp add: entry_less_def)
  then have "bubble_up (pq_heap q @ [?e]) ?n = pq_heap q @ [?e]"
    by (simp add: bubble_up.simps [of "pq_heap q @ [?e]"] Let_def)
  then have "fst (snd (enqueue t h q)) =
      q\<lparr>pq_seq := pq_seq q + 1, pq_heap := pq_heap q @ [?e],
        pq_by_id := (pq_by_id q)(ct_id t \<mapsto> ?n), pq_seen := insert (ct_id t) (pq_seen q)\<rparr>"
    using True by (simp add: enqueue_def now_utc_def Let_def)
  then show ?thesis
    using sync True by (auto simp: in_sync_def nth_append split: option.splits)
qed

definition ex_equal_queue :: "unit prio_queue" where
  "ex_equal_queue = fst (snd (enqueue (ex_task ''b'' Medium) ex_host
                   (fst (snd (enqueue (ex_task ''a'' Medium) ex_host pq_new)))))"

lemma ex_equal_queue_ok: "pq_inv ex_equal_queue" "in_sync ex_equal_queue"
proof -
  let ?q = "fst (snd (enqueue (ex_task ''a'' Medium) ex_host pq_new))"
  have a: "pq_inv ?q" by (rule enqueue_inv [OF pq_inv_new]) (simp add: pq_new_def)
  have b: "in_sync ?q" by (rule in_sync_enqueue [OF pq_inv_new in_sync_new]) (simp add: pq_new_def)
  have "pq_seq ?q \<noteq> - 1" by (simp add: enqueue_def pq_new_def now_utc_def Let_def)
  with a show "pq_inv ex_equal_queue" unfolding ex_equal_queue_def by (rule enqueue_inv)
  have "\<forall>e\<in>set (pq_heap ?q). ct_priority (qe_task e) \<le> ct_priority (ex_task ''b'' Medium)"
    by (simp add: enqueue_def pq_new_def now_utc_def Let_def bubble_up.simps ex_task_def)
  with a b show "in_sync ex_equal_queue" unfolding ex_equal_queue_def by (rule in_sync_enqueue)
qed

theorem cancel_takes_out_its_task_witness:
  "case pq_cancel ''a'' ex_equal_queue of
     Some (Inr u, q') \<Rightarrow> pq_cancel ''a'' q' = Some (Inl (TaskNotFound ''a''), q')
   | _ \<Rightarrow> False"
proof -
  have "pq_by_id ex_equal_queue ''a'' = Some 0"
    by (simp add: ex_equal_queue_def enqueue_def pq_new_def now_utc_def Let_def ex_task_def)
  then have "pq_cancel ''a'' ex_equal_queue \<noteq> Some (Inl (TaskNotFound ''a''), ex_equal_queue)"
    by (auto simp: pq_cancel_def Let_def)
  with cancel_takes_out_its_task [OF ex_equal_queue_ok, of "''a''"]
  show ?thesis by (auto split: option.splits sum.splits)
qed

text \<open>A task more urgent than all that wait comes to the root.\<close>

lemma urgent_at_root:
  assumes inv: "pq_inv q" and new: "pq_by_id q (ct_id t) = None"
    and urgent: "\<forall>e\<in>set (pq_heap q). ct_priority t < ct_priority (qe_task e)"
  shows "qe_task (hd (pq_heap (fst (snd (enqueue t h q))))) = t"
proof -
  let ?e = "\<lparr>qe_task = t, qe_submitted_at = fst (now_utc h), qe_seq = pq_seq q\<rparr>"
  let ?ys = "bubble_up (pq_heap q @ [?e]) (length (pq_heap q))"
  have e: "pq_heap (fst (snd (enqueue t h q))) = ?ys"
    using new by (simp add: enqueue_def now_utc_def Let_def)
  have "heap_ok (pq_heap q)" using inv by (simp add: pq_inv_def)
  then have heap: "heap_ok ?ys" by (rule heap_ok_pushed)
  have set: "set ?ys = insert ?e (set (pq_heap q))" by (rule set_pushed)
  then have "?ys \<noteq> []" by auto
  then have mem: "hd ?ys \<in> insert ?e (set (pq_heap q))" using set hd_in_set by blast
  have least: "entry_key (hd ?ys) \<le> entry_key ?e" using heap_root_least_mem [OF heap] set by blast
  have late: "\<not> entry_key x \<le> entry_key ?e" if "x \<in> set (pq_heap q)" for x
  proof -
    have "ct_priority t < ct_priority (qe_task x)" using urgent that by blast
    then show ?thesis by (auto simp: entry_key_def)
  qed
  from mem have "hd ?ys = ?e"
  proof
    assume "hd ?ys \<in> set (pq_heap q)"
    from late [OF this] least show ?thesis by contradiction
  qed
  then show ?thesis by (simp add: e)
qed

lemma in_sync_position:
  assumes inv: "pq_inv q" and sync: "in_sync q" and k: "k < length (pq_heap q)"
  shows "pq_by_id q (entry_id (pq_heap q ! k)) = Some k"
proof -
  have "entry_id (pq_heap q ! k) \<in> dom (pq_by_id q)" using inv k by (auto simp: pq_inv_def)
  then obtain n where n: "pq_by_id q (entry_id (pq_heap q ! k)) = Some n" by blast
  have "case pq_by_id q (entry_id (pq_heap q ! k)) of None \<Rightarrow> True
      | Some n \<Rightarrow> n < length (pq_heap q) \<and> entry_id (pq_heap q ! n) = entry_id (pq_heap q ! k)"
    using sync n unfolding in_sync_def by blast
  then have "n < length (pq_heap q)" "entry_id (pq_heap q ! n) = entry_id (pq_heap q ! k)" using n by simp_all
  moreover have "distinct (map entry_id (pq_heap q))" using inv by (simp add: pq_inv_def)
  ultimately have "n = k" using k nth_eq_iff_index_eq [of "map entry_id (pq_heap q)" n k] by simp
  with n show ?thesis by simp
qed

text \<open>
  C9. The index goes stale. Take any queue in which something waits and the index is in sync. Enqueue a new task that is
  more urgent than all: then cancelling the task that was at the root answers \<open>Ok\<close> but takes out the new one and leaves the
  tasks that waited before, the cancelled one among them; a second cancel says that it is not there, and the new
  task, now lost, is refused as a duplicate when it is submitted again. And with two or more waiting, after a dequeue
  cancelling the task that was last in the vector indexes outside of it and panics.
\<close>

theorem cancel_stale_index:
  assumes "pq_inv q" and "in_sync q" and "pq_heap q \<noteq> []" and "pq_seq q \<noteq> - 1"
  shows "(pq_by_id q (ct_id t) = None \<and> (\<forall>e\<in>set (pq_heap q). ct_priority t < ct_priority (qe_task e)) \<longrightarrow>
      (let i = entry_id (hd (pq_heap q)) in
       case pq_cancel i (fst (snd (enqueue t h q))) of
         None \<Rightarrow> False
       | Some (r, q') \<Rightarrow> r = Inr () \<and> pq_bag q' = pq_bag q \<and> pq_cancel i q' = Some (Inl (TaskNotFound i), q')
           \<and> fst (enqueue t h' q') = Inl (DuplicateTask (ct_id t))))
    \<and> (2 \<le> pq_len q \<longrightarrow> pq_cancel (entry_id (last (pq_heap q))) (snd (dequeue q)) = None)"
proof -
  let ?xs = "pq_heap q" and ?i = "entry_id (hd (pq_heap q))"
  have mem: "hd ?xs \<in> set ?xs" "last ?xs \<in> set ?xs" using assms(3) by simp_all
  have dom: "dom (pq_by_id q) = entry_id ` set ?xs" and distinct: "distinct (map entry_id ?xs)"
    using assms(1) by (simp_all add: pq_inv_def)
  note at = in_sync_position [OF assms(1,2)]
  show ?thesis
  proof (intro conjI impI)
    assume t: "pq_by_id q (ct_id t) = None \<and> (\<forall>e\<in>set ?xs. ct_priority t < ct_priority (qe_task e))"
    let ?q = "fst (snd (enqueue t h q))"
    have inv: "pq_inv ?q" by (rule enqueue_inv [OF assms(1,4)])
    have root: "qe_task (hd (pq_heap ?q)) = t" using t by (intro urgent_at_root [OF assms(1)]) simp_all
    have bag: "\<exists>e. pq_bag ?q = add_mset e (pq_bag q) \<and> qe_task e = t" and by_id: "pq_by_id ?q = (pq_by_id q)(ct_id t \<mapsto> length ?xs)"
      using t by (auto simp: enqueue_def now_utc_def Let_def mset_pushed)
    have ne: "pq_heap ?q \<noteq> []" using bag by auto
    have other: "?i \<noteq> ct_id t" using t dom mem(1) by (metis domIff image_eqI)
    have i: "pq_by_id ?q ?i = Some 0" using at [of 0] other assms(3) by (simp add: by_id hd_conv_nth)
    have "0 < length (pq_heap ?q)" using ne by simp
    from pq_cancel_inv [OF inv i this] obtain q' where q': "pq_cancel ?i ?q = Some (Inr (), q')" "heap_ok (pq_heap q')"
      "pq_bag ?q = add_mset (pq_heap ?q ! 0) (pq_bag q')" "pq_seq q' = pq_seq ?q"
      "dom (pq_by_id q') = dom (pq_by_id ?q) - {?i}" .
    obtain e where e: "pq_bag ?q = add_mset e (pq_bag q)" "qe_task e = t" using bag by blast
    have "e \<in># pq_bag ?q" using e(1) by simp
    then have "e \<in> set (pq_heap ?q)" by simp
    moreover have "pq_heap ?q ! 0 \<in> set (pq_heap ?q)" using ne by simp
    moreover have "entry_id (pq_heap ?q ! 0) = entry_id e" using root e(2) ne by (simp add: hd_conv_nth)
    moreover have "inj_on entry_id (set (pq_heap ?q))" using inv by (simp add: pq_inv_def distinct_map)
    ultimately have "pq_heap ?q ! 0 = e" by (meson inj_onD)
    with q'(3) e(1) have "pq_bag q' = pq_bag q" by simp
    moreover have "pq_by_id q' ?i = None" "pq_by_id q' (ct_id t) \<noteq> None"
      using q'(5) other by_id by (auto simp: domIff [symmetric])
    ultimately show "let i = ?i in
       case pq_cancel i ?q of
         None \<Rightarrow> False
       | Some (r, q') \<Rightarrow> r = Inr () \<and> pq_bag q' = pq_bag q \<and> pq_cancel i q' = Some (Inl (TaskNotFound i), q')
           \<and> fst (enqueue t h' q') = Inl (DuplicateTask (ct_id t))"
      using q'(1) by (simp add: pq_cancel_def enqueue_rejects)
  next
    assume two: "2 \<le> pq_len q"
    from pop_entry_step [OF assms(1,3)] obtain q' where q': "pop_entry q = (Some (hd ?xs), q')"
      "pq_bag q = add_mset (hd ?xs) (pq_bag q')" "pq_by_id q' = (pq_by_id q)(?i := None)" by metis
    have len: "length (pq_heap q') = length ?xs - 1" using arg_cong [OF q'(2), of size] by simp
    have l: "0 < length ?xs" "length ?xs - 1 < length ?xs" "0 \<noteq> length ?xs - 1"
      using two unfolding pq_len_def by linarith+
    then have "entry_id (?xs ! 0) \<noteq> entry_id (?xs ! (length ?xs - 1))"
      using distinct nth_eq_iff_index_eq [OF distinct, of 0 "length ?xs - 1"] by simp
    then have "pq_by_id q' (entry_id (last ?xs)) = Some (length ?xs - 1)"
      using at [of "length ?xs - 1"] assms(3) by (simp add: q'(3) hd_conv_nth last_conv_nth)
    from pq_cancel_outside [OF this] len show "pq_cancel (entry_id (last ?xs)) (snd (dequeue q)) = None"
      by (simp add: dequeue_def q'(1))
  qed
qed

text \<open>Two tasks of equal priority wait; a critical one comes, or the first is served.\<close>

theorem cancel_stale_index_witness:
  "(case pq_cancel ''a'' (fst (snd (enqueue (ex_task ''c'' Critical) ex_host ex_equal_queue))) of
      None \<Rightarrow> False | Some (r, q') \<Rightarrow> r = Inr () \<and> pq_bag q' = pq_bag ex_equal_queue)
   \<and> pq_cancel ''b'' (snd (dequeue ex_equal_queue)) = None"
proof -
  have q: "map entry_id (pq_heap ex_equal_queue) = [''a'', ''b'']" "map (ct_priority \<circ> qe_task) (pq_heap ex_equal_queue) = [Medium, Medium]"
    "pq_seq ex_equal_queue = 2" "pq_by_id ex_equal_queue (ct_id (ex_task ''c'' Critical)) = None"
    by (simp_all add: ex_equal_queue_def ex_queue_simps)
  then obtain a b where ab: "pq_heap ex_equal_queue = [a, b]" "entry_id a = ''a''" "entry_id b = ''b''"
    "ct_priority (qe_task a) = Medium" "ct_priority (qe_task b) = Medium" by auto
  have "pq_heap ex_equal_queue \<noteq> []" "pq_seq ex_equal_queue \<noteq> - 1" using ab q(3) by simp_all
  from cancel_stale_index [OF ex_equal_queue_ok this, of "ex_task ''c'' Critical" ex_host ex_host] q(4) ab
  show ?thesis by (auto simp: ex_task_def prio_order pq_len_def Let_def split: option.splits)
qed

text \<open>
  A task that has been served may be enqueued again: whatever \<open>dequeue\<close> hands out is
  accepted by the next \<open>enqueue\<close> although \<open>contains\<close> remembers its identifier; the comment on
  \<open>enqueue\<close> promises an error for tasks already processed.
\<close>

theorem served_task_accepted_again:
  assumes "pq_inv q" and "pq_heap q \<noteq> []"
  shows "case dequeue q of
           (Some t, q') \<Rightarrow> Some t = peek q \<and> pq_seen q' = pq_seen q \<and> is_ok (fst (enqueue t h q'))
         | (None, q') \<Rightarrow> False"
proof -
  obtain q' where q': "pop_entry q = (Some (hd (pq_heap q)), q')"
    "pq_by_id q' = (pq_by_id q)(entry_id (hd (pq_heap q)) := None)"
    using pop_entry_step [OF assms] by metis
  have "pq_seen q' = pq_seen q" using q'(1) by (auto simp: pop_entry_def Let_def split: if_splits)
  with q' assms(2) show ?thesis
    by (simp add: dequeue_def peek_def enqueue_def now_utc_def Let_def list.case_eq_if)
qed

theorem served_task_accepted_again_witness:
  "is_ok (fst (enqueue (ex_task ''a'' Medium) ex_host (snd (dequeue ex_equal_queue))))"
proof -
  have heap: "pq_heap ex_equal_queue \<noteq> []" "peek ex_equal_queue = Some (ex_task ''a'' Medium)"
    by (simp_all add: ex_equal_queue_def ex_queue_simps)
  from served_task_accepted_again [OF ex_equal_queue_ok(1) heap(1), of ex_host] heap(2)
  show ?thesis by (auto split: prod.splits option.splits)
qed

lemma prio_label_roundtrip: "prio_from_label (prio_label p) = Some p"
  by (cases p) (simp_all add: prio_from_label_def)

lemma prio_from_label_Some: "prio_from_label s = Some p \<longleftrightarrow> s = prio_label p"
  by (cases p) (auto simp: prio_from_label_def)

end
