(* ===== verification/Session.thy ===== *)
theory Session
  imports Collection_Queue
begin

text \<open>
  The session state machine of the collection fabric, \<open>src/crates/fabric/src/session.rs\<close>:
  the states, the session record, the table of allowed transitions and every operation of
  \<open>SessionManager\<close>. The manager is the association list behind its lock, keyed by task
  identifier. The lemmas follow one session through an arbitrary sequence of transitions:
  its accepted states form a path of the table, and the attempt counter counts its runs.
\<close>

section \<open>States and sessions\<close>

datatype session_state = SQueued | SRunning | SSucceeded | SFailed | SCancelled

record 'j collection_session =
  cs_task_id :: string
  cs_target :: string
  cs_driver :: string
  cs_capability :: string
  cs_state :: session_state
  cs_attempt :: u32
  cs_max_retries :: u32
  cs_result :: "'j option"
  cs_error :: "string option"
  cs_queued_at :: instant
  cs_started_at :: "instant option"
  cs_completed_at :: "instant option"
  cs_metadata :: metadata

fun allowed_transition :: "session_state \<Rightarrow> session_state \<Rightarrow> bool" where
  "allowed_transition SQueued SRunning = True"
| "allowed_transition SQueued SCancelled = True"
| "allowed_transition SRunning SSucceeded = True"
| "allowed_transition SRunning SFailed = True"
| "allowed_transition SRunning SCancelled = True"
| "allowed_transition SFailed SQueued = True"
| "allowed_transition SFailed SCancelled = True"
| "allowed_transition _ _ = False"

text \<open>\<open>{:?}\<close> of a state; the arrow of the message is three UTF-8 bytes.\<close>

fun show_session_state :: "session_state \<Rightarrow> string" where
  "show_session_state SQueued = ''Queued''"
| "show_session_state SRunning = ''Running''"
| "show_session_state SSucceeded = ''Succeeded''"
| "show_session_state SFailed = ''Failed''"
| "show_session_state SCancelled = ''Cancelled''"

definition invalid_transition :: "session_state \<Rightarrow> session_state \<Rightarrow> fabric_error" where
  "invalid_transition from to =
     SessionError (''invalid transition: '' @ show_session_state from @ '' '' @
       [CHR 0xE2, CHR 0x86, CHR 0x92] @ '' '' @ show_session_state to)"

type_synonym 'j sessions = "(string \<times> 'j collection_session) list"

definition sm_new :: "'j sessions" where
  "sm_new = []"

definition sm_create ::
  "string \<Rightarrow> string \<Rightarrow> string \<Rightarrow> string \<Rightarrow> u32 \<Rightarrow> metadata \<Rightarrow> 'j sessions \<times> host
   \<Rightarrow> 'j collection_session \<times> 'j sessions \<times> host" where
  "sm_create task_id target driver capability max_retries meta = (\<lambda>(sm, h).
     (let (now, h') = now_utc h;
          session = \<lparr>cs_task_id = task_id, cs_target = target, cs_driver = driver,
            cs_capability = capability, cs_state = SQueued, cs_attempt = 0,
            cs_max_retries = max_retries, cs_result = None, cs_error = None, cs_queued_at = now,
            cs_started_at = None, cs_completed_at = None, cs_metadata = meta\<rparr>
      in (session, AList.update task_id session sm, h')))"

definition sm_transition ::
  "string \<Rightarrow> session_state \<Rightarrow> 'j option \<Rightarrow> string option \<Rightarrow> 'j sessions \<times> host
   \<Rightarrow> (fabric_error, 'j collection_session) result \<times> 'j sessions \<times> host" where
  "sm_transition task_id to result error = (\<lambda>(sm, h).
     (case map_of sm task_id of
        None \<Rightarrow> (Inl (TaskNotFound task_id), sm, h)
      | Some session \<Rightarrow>
          if \<not> allowed_transition (cs_state session) to
          then (Inl (invalid_transition (cs_state session) to), sm, h)
          else
            (let s1 = session\<lparr>cs_state := to\<rparr>;
                 s2 = (if result \<noteq> None then s1\<lparr>cs_result := result\<rparr> else s1);
                 s3 = (if error \<noteq> None then s2\<lparr>cs_error := error\<rparr> else s2);
                 (s4, h') =
                   (case to of
                      SRunning \<Rightarrow>
                        (let (now, h') = now_utc h
                         in (s3\<lparr>cs_attempt := cs_attempt s3 + 1, cs_started_at := Some now\<rparr>, h'))
                    | SQueued \<Rightarrow> (s3, h)
                    | _ \<Rightarrow> (let (now, h') = now_utc h in (s3\<lparr>cs_completed_at := Some now\<rparr>, h')))
             in (Inr s4, AList.update task_id s4 sm, h'))))"

definition sm_get :: "string \<Rightarrow> 'j sessions \<Rightarrow> 'j collection_session option" where
  "sm_get task_id sm = map_of sm task_id"

definition sm_list :: "session_state option \<Rightarrow> 'j sessions \<Rightarrow> 'j collection_session list" where
  "sm_list state_filter sm =
     filter (\<lambda>s. case state_filter of Some f \<Rightarrow> cs_state s = f | None \<Rightarrow> True) (map snd sm)"

definition sm_counts :: "'j sessions \<Rightarrow> (session_state \<times> nat) list" where
  "sm_counts sm =
     fold (\<lambda>s counts. AList.update (cs_state s) (unwrap_or 0 (map_of counts (cs_state s)) + 1) counts)
       (map snd sm) []"

definition sm_len :: "'j sessions \<Rightarrow> nat" where
  "sm_len sm = length sm"

definition sm_is_empty :: "'j sessions \<Rightarrow> bool" where
  "sm_is_empty sm \<longleftrightarrow> sm_len sm = 0"

definition should_retry :: "string \<Rightarrow> 'j sessions \<Rightarrow> bool" where
  "should_retry task_id sm =
     (case map_of sm task_id of
        Some s \<Rightarrow> cs_state s = SFailed \<and> cs_attempt s < cs_max_retries s
      | None \<Rightarrow> False)"

section \<open>One transition\<close>

lemma transition_get:
  "sm_get j (fst (snd (sm_transition i to r e (sm, h)))) =
     (if j = i \<and> is_ok (fst (sm_transition i to r e (sm, h)))
      then result_ok (fst (sm_transition i to r e (sm, h))) else sm_get j sm)"
  by (auto simp: sm_transition_def sm_get_def Let_def split_beta split: option.splits)

lemma transition_ok_iff:
  "is_ok (fst (sm_transition i to r e (sm, h))) \<longleftrightarrow>
     (case sm_get i sm of None \<Rightarrow> False | Some s \<Rightarrow> allowed_transition (cs_state s) to)"
  by (auto simp: sm_transition_def sm_get_def Let_def split_beta split: option.splits)

lemma transition_ok_fields:
  assumes "sm_get i sm = Some s" and "allowed_transition (cs_state s) to"
  obtains s' where "fst (sm_transition i to r e (sm, h)) = Inr s'"
    and "cs_state s' = to"
    and "cs_attempt s' = (if to = SRunning then cs_attempt s + 1 else cs_attempt s)"
    and "cs_max_retries s' = cs_max_retries s"
    and "cs_result s' = (if r = None then cs_result s else r)"
    and "cs_error s' = (if e = None then cs_error s else e)"
    and "cs_task_id s' = cs_task_id s"
    and "cs_started_at s' = (if to = SRunning then Some (fst (now_utc h)) else cs_started_at s)"
    and "cs_completed_at s' = (if to \<in> {SRunning, SQueued} then cs_completed_at s
                               else Some (fst (now_utc h)))"
  using assms
  by (cases to) (auto simp: sm_transition_def sm_get_def now_utc_def Let_def)

section \<open>A session through a sequence of transitions\<close>

type_synonym 'j sess_call = "string \<times> session_state \<times> 'j option \<times> string option"

definition sess_step ::
  "'j sess_call \<Rightarrow> 'j sessions \<times> host \<Rightarrow> (fabric_error, 'j collection_session) result \<times> 'j sessions \<times> host" where
  "sess_step = (\<lambda>(i, to, r, e). sm_transition i to r e)"

text \<open>The states session \<open>i\<close> was moved to, and the paths of the transition table.\<close>

definition accepted :: "string \<Rightarrow> 'j sess_call list \<Rightarrow> ('e, 'a) result list \<Rightarrow> session_state list" where
  "accepted i xs outs =
     map (\<lambda>((j, to, r, e), out). to) (filter (\<lambda>((j, to, r, e), out). j = i \<and> is_ok out) (zip xs outs))"

lemma accepted_simps [simp]:
  "accepted i [] outs = []"
  "accepted i ((j, to, r, e) # xs) (out # outs) =
     (if j = i \<and> is_ok out then to # accepted i xs outs else accepted i xs outs)"
  by (simp_all add: accepted_def)

fun allowed_path :: "session_state \<Rightarrow> session_state list \<Rightarrow> bool" where
  "allowed_path s [] = True"
| "allowed_path s (t # ts) = (allowed_transition s t \<and> allowed_path t ts)"

lemma session_path:
  assumes "sm_get i sm = Some s"
  shows "case run_outputs sess_step xs (sm, h) of (outs, sm', h') \<Rightarrow>
           allowed_path (cs_state s) (accepted i xs outs) \<and>
           (\<exists>s'. sm_get i sm' = Some s' \<and> cs_state s' = last (cs_state s # accepted i xs outs) \<and>
              cs_attempt s' = cs_attempt s + of_nat (count_list (accepted i xs outs) SRunning) \<and>
              cs_max_retries s' = cs_max_retries s \<and> cs_task_id s' = cs_task_id s \<and>
              (accepted i xs outs = [] \<longrightarrow> s' = s))"
  using assms
proof (induction xs arbitrary: sm h s)
  case Nil
  then show ?case by simp
next
  case (Cons x xs)
  obtain j to r e where x: "x = (j, to, r, e)" by (cases x)
  obtain out sm1 h1 where st: "sm_transition j to r e (sm, h) = (out, sm1, h1)"
    by (metis prod_cases3)
  obtain outs sm2 h2 where run: "run_outputs sess_step xs (sm1, h1) = (outs, sm2, h2)"
    by (metis prod_cases3)
  have runx: "run_outputs sess_step (x # xs) (sm, h) = (out # outs, sm2, h2)"
    by (simp add: x sess_step_def st run [unfolded sess_step_def])
  show ?case
  proof (cases "j = i \<and> is_ok out")
    case True
    then have allowed: "allowed_transition (cs_state s) to"
      using transition_ok_iff [of i to r e sm h] st Cons.prems by simp
    from transition_ok_fields [OF Cons.prems allowed, of r e h] obtain s1 where
      s1: "fst (sm_transition i to r e (sm, h)) = Inr s1" "cs_state s1 = to"
      "cs_attempt s1 = (if to = SRunning then cs_attempt s + 1 else cs_attempt s)"
      "cs_max_retries s1 = cs_max_retries s" "cs_task_id s1 = cs_task_id s" by metis
    have "sm_get i sm1 = Some s1"
      using transition_get [of i i to r e sm h] st True s1(1) by simp
    from Cons.IH [OF this, of h1] show ?thesis
      unfolding runx using True allowed s1 by (auto simp: x run)
  next
    case False
    then have "sm_get i sm1 = Some s"
      using transition_get [of i j to r e sm h] st Cons.prems by auto
    from Cons.IH [OF this, of h1] False show ?thesis unfolding runx by (auto simp: x run)
  qed
qed

text \<open>
  The life of a session: after it is created, whatever sequence of transitions is asked
  of the manager, for this session and for others, the states it was moved to form a path of
  the transition table starting in \<open>Queued\<close>, it is in the last of them, and its attempt
  counter is the number of times it entered \<open>Running\<close> (modulo \<open>2 ^ 32\<close>).
\<close>

theorem session_lifecycle:
  "case run_outputs sess_step xs (snd (sm_create i target driver cap retries meta (sm, h))) of
     (outs, sm', h') \<Rightarrow>
       allowed_path SQueued (accepted i xs outs) \<and>
       (\<exists>s. sm_get i sm' = Some s \<and> cs_state s = last (SQueued # accepted i xs outs) \<and>
            cs_attempt s = of_nat (count_list (accepted i xs outs) SRunning) \<and>
            cs_max_retries s = retries \<and> cs_task_id s = i)"
proof -
  obtain s sm1 h1 where c: "sm_create i target driver cap retries meta (sm, h) = (s, sm1, h1)"
    by (metis prod_cases3)
  then have "sm_get i sm1 = Some s" "cs_state s = SQueued" "cs_attempt s = 0"
    "cs_max_retries s = retries" "cs_task_id s = i"
    by (auto simp: sm_create_def sm_get_def now_utc_def Let_def)
  with session_path [of i sm1 s xs h1] show ?thesis by (auto simp: c split_beta)
qed

text \<open>
  The manager under all of its calls that change it: sessions are created and moved, in any
  order. The identifiers that a sequence of calls creates, and an answer that is not an
  accepted move of \<open>i\<close>.
\<close>

datatype 'j manager_call =
    CreateSession string string string string u32 metadata
  | MoveSession "'j sess_call"

fun manager_step ::
  "'j manager_call \<Rightarrow> 'j sessions \<times> host \<Rightarrow> (fabric_error, 'j collection_session) result \<times> 'j sessions \<times> host" where
  "manager_step (CreateSession i target driver cap retries meta) st = apfst Inr (sm_create i target driver cap retries meta st)"
| "manager_step (MoveSession x) st = sess_step x st"

fun created :: "'j manager_call list \<Rightarrow> string set" where
  "created [] = {}"
| "created (CreateSession i target driver cap retries meta # xs) = insert i (created xs)"
| "created (MoveSession x # xs) = created xs"

fun stays :: "string \<Rightarrow> 'j manager_call \<Rightarrow> ('e, 'a) result \<Rightarrow> bool" where
  "stays i (CreateSession j target driver cap retries meta) out = (j \<noteq> i)"
| "stays i (MoveSession (j, to, r, e)) out = (j \<noteq> i \<or> \<not> is_ok out)"

lemma create_get:
  "sm_get j (fst (snd (sm_create i target driver cap retries meta (sm, h)))) =
     (if j = i then Some (fst (sm_create i target driver cap retries meta (sm, h))) else sm_get j sm)"
  by (simp add: sm_create_def sm_get_def now_utc_def Let_def)

lemma finished_refuses: "s \<in> {SSucceeded, SCancelled} \<Longrightarrow> \<not> allowed_transition s to"
  by auto

lemma manager_step_finished:
  assumes s: "sm_get i sm = Some s" "cs_state s \<in> {SSucceeded, SCancelled}"
    and x: "i \<notin> created [x]" and st: "manager_step x (sm, h) = (out, sm', h')"
  shows "sm_get i sm' = Some s \<and> stays i x out"
proof (cases x)
  case (CreateSession j target driver cap retries meta)
  with x st s create_get [of i j target driver cap retries meta sm h] show ?thesis by (auto simp: apfst_def map_prod_def split_beta)
next
  case (MoveSession y)
  obtain j to r e where y: "y = (j, to, r, e)" by (cases y)
  have "\<not> (j = i \<and> is_ok out)"
    using st s(1) finished_refuses [OF s(2), of to] transition_ok_iff [of i to r e sm h]
    by (auto simp: MoveSession y sess_step_def)
  with st s(1) transition_get [of i j to r e sm h] show ?thesis by (auto simp: MoveSession y sess_step_def)
qed

lemma manager_run_finished:
  assumes "sm_get i sm = Some s" and "cs_state s \<in> {SSucceeded, SCancelled}"
    and "i \<notin> created xs" and "run_outputs manager_step xs (sm, h) = (outs, sm', h')"
  shows "sm_get i sm' = Some s \<and> list_all2 (stays i) xs outs"
  using assms
proof (induction xs arbitrary: sm h outs)
  case (Cons x xs)
  obtain out sm1 h1 where st: "manager_step x (sm, h) = (out, sm1, h1)" by (metis prod_cases3)
  obtain outs' where outs: "outs = out # outs'" "run_outputs manager_step xs (sm1, h1) = (outs', sm', h')"
    using Cons.prems(4) by (cases "run_outputs manager_step xs (sm1, h1)") (auto simp: st)
  have "i \<notin> created [x]" "i \<notin> created xs" using Cons.prems(3) by (cases x; simp)+
  with manager_step_finished [OF Cons.prems(1,2) _ st] Cons.IH [OF _ Cons.prems(2) _ outs(2)]
  show ?case by (simp add: outs(1))
qed simp

text \<open>
  C10. A succeeded or cancelled session is final until its task identifier is created again.
  Through every run of creates and transitions, of this session and of others, in which no
  create names its task, the record stays as it is, no transition of it is accepted, and the
  next one is refused, naming the two states. A create of that task, whatever happened before,
  replaces the record by a fresh queued one, without an error, and that one may run.
\<close>

theorem finished_session_is_final:
  assumes "sm_get i sm = Some s" and "cs_state s \<in> {SSucceeded, SCancelled}"
  shows "case run_outputs manager_step xs (sm, h) of (outs, sm', h') \<Rightarrow>
      (i \<notin> created xs \<longrightarrow> sm_get i sm' = Some s \<and> list_all2 (stays i) xs outs \<and>
         fst (sm_transition i to r e (sm', h')) = Inl (invalid_transition (cs_state s) to))
    \<and> (case sm_create i target driver cap retries meta (sm', h') of (s', sm'', h'') \<Rightarrow>
         sm_get i sm'' = Some s' \<and> cs_state s' = SQueued \<and> cs_attempt s' = 0 \<and> cs_result s' = None \<and>
         is_ok (fst (sm_transition i SRunning r e (sm'', h''))))"
proof -
  obtain outs sm' h' where run: "run_outputs manager_step xs (sm, h) = (outs, sm', h')"
    by (metis prod_cases3)
  have "sm_get i sm' = Some s \<and> list_all2 (stays i) xs outs" if "i \<notin> created xs"
    using manager_run_finished [OF assms that run] .
  moreover have "\<not> allowed_transition (cs_state s) to" by (rule finished_refuses [OF assms(2)])
  moreover obtain s' sm'' h'' where c: "sm_create i target driver cap retries meta (sm', h') = (s', sm'', h'')"
    by (metis prod_cases3)
  moreover have "sm_get i sm'' = Some s' \<and> cs_state s' = SQueued \<and> cs_attempt s' = 0 \<and> cs_result s' = None"
    using c by (auto simp: sm_create_def sm_get_def now_utc_def Let_def)
  ultimately show ?thesis
    using transition_ok_iff [of i SRunning r e sm'' h''] by (auto simp: run sm_transition_def sm_get_def)
qed

theorem finished_session_is_final_witness:
  "let c = sm_create ''t'' ''u'' ''http'' ''fetch'' 3 Map.empty ([] :: unit sessions, ex_host);
       (r, sm, h) = sm_transition ''t'' SCancelled None None (snd c);
       (outs, sm', h') = run_outputs manager_step [MoveSession (''t'', SQueued, None, None),
         CreateSession ''t2'' ''u'' ''http'' ''fetch'' 3 Map.empty] (sm, h) in
   fst (sm_transition ''t'' SRunning None None (sm', h')) = Inl (invalid_transition SCancelled SRunning)
   \<and> cs_state (fst (sm_create ''t'' ''u'' ''http'' ''fetch'' 3 Map.empty (sm', h'))) = SQueued"
proof -
  let ?st = "snd (sm_transition ''t'' SCancelled None None
     (snd (sm_create ''t'' ''u'' ''http'' ''fetch'' 3 Map.empty ([] :: unit sessions, ex_host))))"
  obtain s where s: "sm_get ''t'' (fst ?st) = Some s" "cs_state s = SCancelled"
    by (simp add: sm_create_def sm_transition_def sm_get_def now_utc_def Let_def)
  with finished_session_is_final [OF s(1), where h = "snd ?st" and to = SRunning and r = None and e = None
      and xs = "[MoveSession (''t'', SQueued, None, None), CreateSession ''t2'' ''u'' ''http'' ''fetch'' 3 Map.empty]"
      and target = "''u''" and driver = "''http''" and cap = "''fetch''" and retries = 3 and meta = Map.empty]
  show ?thesis by (simp add: split_beta Let_def)
qed

lemma map_of_counts:
  "unwrap_or 0 (map_of (fold (\<lambda>s counts. AList.update (cs_state s)
       (unwrap_or 0 (map_of counts (cs_state s)) + 1) counts) ss acc) st)
   = unwrap_or 0 (map_of acc st) + length (filter (\<lambda>s. cs_state s = st) ss)"
  by (induction ss arbitrary: acc) auto

lemma counts_list: "unwrap_or 0 (map_of (sm_counts sm) st) = length (sm_list (Some st) sm)"
  using map_of_counts [of "map snd sm" "[]" st] by (simp add: sm_counts_def sm_list_def)

end
