(* ===== verification/Fabric.thy ===== *)
theory Fabric
  imports Session Drivers Event_Store
begin

text \<open>
  The collection fabric, \<open>src/crates/fabric/src/fabric.rs\<close>: submission, cancellation,
  processing of the next task, draining, stopping and the queries, over the priority queue,
  the session manager, the driver registry and the event store of the other theories.

  The fabric's state is the five fields of \<open>CollectionFabric\<close>; beside them stand the host
  and the outside world that the drivers act on. A call runs to its end before the next one:
  each component is behind its own lock and the interleaving of two callers is not modelled.
  \<open>serde_json::to_value\<close> and \<open>to_vec\<close> are the fields of \<open>fabric_lib\<close>; nothing is assumed
  of them.
\<close>

section \<open>State\<close>

record 'j fabric_lib =
  fl_to_value :: "'j system_event \<Rightarrow> 'j"
  fl_to_vec :: "'j \<Rightarrow> u8 list option"

record ('j, 'w) fabric =
  fb_queue :: "'j prio_queue"
  fb_sessions :: "'j sessions"
  fb_drivers :: "('j, 'w) registry"
  fb_events :: "'j event_store"
  fb_running :: bool
  fb_host :: host
  fb_world :: 'w

definition fb_new :: "('j, 'w) registry \<Rightarrow> 'j event_store \<Rightarrow> host \<Rightarrow> 'w \<Rightarrow> ('j, 'w) fabric" where
  "fb_new drivers events h w =
     \<lparr>fb_queue = pq_new, fb_sessions = sm_new, fb_drivers = drivers, fb_events = events,
      fb_running = True, fb_host = h, fb_world = w\<rparr>"

section \<open>Calls into the components\<close>

text \<open>
  \<open>let version = self.events.latest_version(id) + 1;
  self.events.append(event.into_envelope(version)).ok();\<close>: a refused append is dropped.
\<close>

definition fb_emit ::
  "'j fabric_lib \<Rightarrow> string \<Rightarrow> 'j system_event \<Rightarrow> ('j, 'w) fabric \<Rightarrow> ('j, 'w) fabric" where
  "fb_emit L i event fb =
     (let version = latest_version (fb_events fb) i + 1;
          (envelope, h') = into_envelope (fl_to_value L) (fb_host fb) version event;
          (_, events') = es_append envelope (fb_events fb)
      in fb\<lparr>fb_events := events', fb_host := h'\<rparr>)"

definition fb_transition ::
  "string \<Rightarrow> session_state \<Rightarrow> 'j option \<Rightarrow> string option
   \<Rightarrow> (('j, 'w) fabric, fabric_error, 'j collection_session) op" where
  "fb_transition i to result error fb =
     (let (r, sm', h') = sm_transition i to result error (fb_sessions fb, fb_host fb)
      in (r, fb\<lparr>fb_sessions := sm', fb_host := h'\<rparr>))"

definition fb_enqueue ::
  "'j collection_task \<Rightarrow> (('j, 'w) fabric, fabric_error, unit) op" where
  "fb_enqueue task fb =
     (let (r, q', h') = enqueue task (fb_host fb) (fb_queue fb)
      in (r, fb\<lparr>fb_queue := q', fb_host := h'\<rparr>))"

section \<open>Submission and cancellation\<close>

definition submit ::
  "'j fabric_lib \<Rightarrow> 'j collection_task \<Rightarrow> (('j, 'w) fabric, fabric_error, string) op" where
  "submit L task fb =
     (let i = ct_id task;
          target_desc = (case ct_target task of TargetUrl u \<Rightarrow> u | TargetDomain d \<Rightarrow> d
                         | TargetService _ l \<Rightarrow> l | TargetCustom _ l \<Rightarrow> l);
          (_, sm', h') = sm_create i target_desc (ct_driver task) (ct_capability task)
                           (ct_max_retries task) (ct_metadata task) (fb_sessions fb, fb_host fb);
          fb1 = fb\<lparr>fb_sessions := sm', fb_host := h'\<rparr>
      in case fb_enqueue task fb1 of
           (Inl e, fb2) \<Rightarrow> (Inl e, fb2)
         | (Inr _, fb2) \<Rightarrow>
             (let event = ServiceRegistered i (''collection:'' @ target_desc) ''collection''
                            target_desc ''active'' None
              in (Inr i, fb_emit L i event fb2)))"

text \<open>\<open>None\<close> is the panic of the queue's \<open>cancel\<close>.\<close>

definition fb_cancel ::
  "string \<Rightarrow> ('j, 'w) fabric \<Rightarrow> ((fabric_error, unit) result \<times> ('j, 'w) fabric) option" where
  "fb_cancel i fb =
     (case pq_cancel i (fb_queue fb) of
        None \<Rightarrow> None
      | Some (r, q') \<Rightarrow>
          (let fb1 = fb\<lparr>fb_queue := q'\<rparr>;
               cancelled = (case fb_transition i SCancelled None None fb1 of
                              (Inl e, fb2) \<Rightarrow> Some (Inl e, fb2)
                            | (Inr _, fb2) \<Rightarrow> Some (Inr (), fb2))
           in if is_ok r then cancelled
              else (case sm_get i (fb_sessions fb1) of
                      Some _ \<Rightarrow> cancelled
                    | None \<Rightarrow> Some (Inl (TaskNotFound i), fb1))))"

section \<open>Processing\<close>

fun demote :: "priority \<Rightarrow> priority" where
  "demote Critical = High"
| "demote High = Medium"
| "demote Medium = Low"
| "demote Low = Background"
| "demote Background = Background"

text \<open>
  \<open>process_next\<close> up to the call of the driver: the running check, the dequeue, the move to
  \<open>Running\<close> and its event.
\<close>

definition begin_next ::
  "'j fabric_lib \<Rightarrow> (('j, 'w) fabric, fabric_error, 'j collection_task option) op" where
  "begin_next L fb =
     (if \<not> fb_running fb then (Inl FabricStopped, fb)
      else
        (case dequeue (fb_queue fb) of
           (None, q') \<Rightarrow> (Inr None, fb\<lparr>fb_queue := q'\<rparr>)
         | (Some task, q') \<Rightarrow>
             (case fb_transition (ct_id task) SRunning None None (fb\<lparr>fb_queue := q'\<rparr>) of
                (Inl e, fb1) \<Rightarrow> (Inl e, fb1)
              | (Inr _, fb1) \<Rightarrow>
                  (Inr (Some task),
                   fb_emit L (ct_id task)
                     (ServiceUpdated (ct_id task) None (Some ''active'') None) fb1))))"

definition finish_success ::
  "'j fabric_lib \<Rightarrow> 'j collection_task \<Rightarrow> 'j \<Rightarrow> (('j, 'w) fabric, fabric_error, string option) op" where
  "finish_success L task output fb =
     (case fb_transition (ct_id task) SSucceeded (Some output) None fb of
        (Inl e, fb1) \<Rightarrow> (Inl e, fb1)
      | (Inr _, fb1) \<Rightarrow>
          (let (now, h') = now_utc (fb_host fb1);
               obs_event = ObservationRecorded (''obs_'' @ ct_id task)
                 (''collection.'' @ ct_capability task) (unwrap_or [] (fl_to_vec L output))
                 (Some ''application/json'') (''driver:'' @ ct_driver task) now
           in (Inr (Some (ct_id task)), fb_emit L (ct_id task) obs_event (fb1\<lparr>fb_host := h'\<rparr>))))"

definition finish_failure ::
  "'j fabric_lib \<Rightarrow> 'j collection_task \<Rightarrow> driver_error \<Rightarrow> (('j, 'w) fabric, fabric_error, string option) op" where
  "finish_failure L task e fb =
     (case fb_transition (ct_id task) SFailed None (Some (show_driver_error e)) fb of
        (Inl e, fb1) \<Rightarrow> (Inl e, fb1)
      | (Inr _, fb1) \<Rightarrow>
          (let fb2 = (if should_retry (ct_id task) (fb_sessions fb1)
                      then snd (fb_enqueue (with_priority (demote (ct_priority task)) task) fb1)
                      else fb1);
               fail_event = ServiceUpdated (ct_id task) None (Some ''error'') None
           in (Inr (Some (ct_id task)), fb_emit L (ct_id task) fail_event fb2)))"

definition process_next ::
  "'j fabric_lib \<Rightarrow> (('j, 'w) fabric, fabric_error, string option) op" where
  "process_next L fb =
     (case begin_next L fb of
        (Inl e, fb1) \<Rightarrow> (Inl e, fb1)
      | (Inr None, fb1) \<Rightarrow> (Inr None, fb1)
      | (Inr (Some task), fb1) \<Rightarrow>
          (case dr_execute (fb_drivers fb1) (ct_driver task) (ct_capability task)
                  (ct_params task) (fb_world fb1) of
             (Inr output, w) \<Rightarrow> finish_success L task output (fb1\<lparr>fb_world := w\<rparr>)
           | (Inl e, w) \<Rightarrow> finish_failure L task e (fb1\<lparr>fb_world := w\<rparr>)))"

definition fb_stop :: "('j, 'w) fabric \<Rightarrow> ('j, 'w) fabric" where
  "fb_stop fb = fb\<lparr>fb_running := False\<rparr>"

definition fb_start :: "('j, 'w) fabric \<Rightarrow> ('j, 'w) fabric" where
  "fb_start fb = fb\<lparr>fb_running := True\<rparr>"

definition fb_status :: "string \<Rightarrow> ('j, 'w) fabric \<Rightarrow> 'j collection_session option" where
  "fb_status i fb = sm_get i (fb_sessions fb)"

definition list_sessions :: "session_state option \<Rightarrow> ('j, 'w) fabric \<Rightarrow> 'j collection_session list" where
  "list_sessions f fb = sm_list f (fb_sessions fb)"

definition queue_depth :: "('j, 'w) fabric \<Rightarrow> nat" where
  "queue_depth fb = pq_len (fb_queue fb)"

definition queued_tasks :: "('j, 'w) fabric \<Rightarrow> 'j collection_task list" where
  "queued_tasks fb = pq_list (fb_queue fb)"

definition session_counts :: "('j, 'w) fabric \<Rightarrow> (session_state \<times> nat) list" where
  "session_counts fb = sm_counts (fb_sessions fb)"

section \<open>Draining\<close>

text \<open>
  \<open>drain\<close> stops: a call that answers \<open>Ok(Some(_))\<close> has moved one session out of \<open>Queued\<close>,
  and nothing in processing moves one back.
\<close>

definition queued_count :: "'j sessions \<Rightarrow> nat" where
  "queued_count sm = length (filter (\<lambda>(i, s). cs_state s = SQueued) sm)"

lemma queued_count_update:
  "map_of sm i = Some s \<Longrightarrow>
   queued_count (AList.update i s' sm) + (if cs_state s = SQueued then 1 else 0) =
   queued_count sm + (if cs_state s' = SQueued then 1 else 0)"
  by (induction sm) (auto simp: queued_count_def split: if_splits)

lemma fb_emit_frame [simp, frame_simps]:
  "fb_queue (fb_emit L i ev fb) = fb_queue fb" "fb_sessions (fb_emit L i ev fb) = fb_sessions fb"
  "fb_drivers (fb_emit L i ev fb) = fb_drivers fb" "fb_running (fb_emit L i ev fb) = fb_running fb"
  "fb_world (fb_emit L i ev fb) = fb_world fb"
  by (simp_all add: fb_emit_def Let_def split_beta)

lemma fb_transition_frame [simp, frame_simps]:
  "fb_queue (snd (fb_transition i to r e fb)) = fb_queue fb"
  "fb_drivers (snd (fb_transition i to r e fb)) = fb_drivers fb"
  "fb_events (snd (fb_transition i to r e fb)) = fb_events fb"
  "fb_running (snd (fb_transition i to r e fb)) = fb_running fb"
  "fb_world (snd (fb_transition i to r e fb)) = fb_world fb"
  by (simp_all add: fb_transition_def Let_def split_beta)

lemma fb_enqueue_frame [simp, frame_simps]:
  "fb_sessions (snd (fb_enqueue t fb)) = fb_sessions fb"
  "fb_drivers (snd (fb_enqueue t fb)) = fb_drivers fb"
  "fb_events (snd (fb_enqueue t fb)) = fb_events fb"
  "fb_running (snd (fb_enqueue t fb)) = fb_running fb"
  "fb_world (snd (fb_enqueue t fb)) = fb_world fb"
  by (simp_all add: fb_enqueue_def Let_def split_beta)

lemma fb_transition_get:
  "sm_get j (fb_sessions (snd (fb_transition i to r e fb))) =
     (if j = i \<and> is_ok (fst (fb_transition i to r e fb))
      then result_ok (fst (fb_transition i to r e fb)) else sm_get j (fb_sessions fb))"
  using transition_get [of j i to r e "fb_sessions fb" "fb_host fb"]
  by (simp add: fb_transition_def Let_def split_beta)

lemma fb_transition_ok_iff:
  "is_ok (fst (fb_transition i to r e fb)) \<longleftrightarrow>
     (case sm_get i (fb_sessions fb) of None \<Rightarrow> False | Some s \<Rightarrow> allowed_transition (cs_state s) to)"
  using transition_ok_iff [of i to r e "fb_sessions fb" "fb_host fb"]
  by (simp add: fb_transition_def Let_def split_beta)

lemma fb_transition_refused:
  "\<not> is_ok (fst (fb_transition i to r e fb)) \<Longrightarrow>
   \<exists>x. fb_transition i to r e fb = (Inl x, fb)"
  by (auto simp: fb_transition_def sm_transition_def Let_def split_beta split: option.splits if_splits)

lemma fb_transition_queued:
  assumes "fb_transition i to r e fb = (Inr s', fb')"
  obtains s where "sm_get i (fb_sessions fb) = Some s" "allowed_transition (cs_state s) to"
    "cs_state s' = to" "sm_get i (fb_sessions fb') = Some s'"
    "queued_count (fb_sessions fb') + (if cs_state s = SQueued then 1 else 0) =
       queued_count (fb_sessions fb) + (if to = SQueued then 1 else 0)"
proof -
  have ok: "is_ok (fst (fb_transition i to r e fb))" using assms by simp
  then obtain s where s: "sm_get i (fb_sessions fb) = Some s" "allowed_transition (cs_state s) to"
    unfolding fb_transition_ok_iff by (auto split: option.splits)
  have "map_of (fb_sessions fb) i = Some s" using s(1) by (simp add: sm_get_def)
  then have up: "fb_sessions fb' = AList.update i s' (fb_sessions fb)" "cs_state s' = to"
    using assms s(2)
    by (cases to; auto simp: fb_transition_def sm_transition_def Let_def now_utc_def)+
  have "sm_get i (fb_sessions fb') = Some s'"
    using fb_transition_get [of i i to r e fb] assms by simp
  with s up queued_count_update [of "fb_sessions fb" i s s'] that show thesis
    by (simp add: sm_get_def)
qed

lemma dequeue_peek: "dequeue q = (Some t, q') \<Longrightarrow> peek q = Some t"
  using last_swapped [of "pq_heap q"]
  by (auto simp: dequeue_def pop_entry_def peek_def Let_def split: if_splits list.splits)

lemma dequeue_None: "fst (dequeue q) = None \<longleftrightarrow> peek q = None"
  by (auto simp: dequeue_def pop_entry_def peek_def Let_def split: if_splits list.splits)

text \<open>What a call that got past the guards has seen and done before the driver runs.\<close>

lemma begin_next_task:
  assumes "begin_next L fb = (Inr (Some task), fb1)"
  obtains s s' q' where "fb_running fb" and "peek (fb_queue fb) = Some task"
    and "sm_get (ct_id task) (fb_sessions fb) = Some s" and "cs_state s = SQueued"
    and "sm_get (ct_id task) (fb_sessions fb1) = Some s'" and "cs_state s' = SRunning"
    and "queued_count (fb_sessions fb1) + 1 = queued_count (fb_sessions fb)"
    and "fb_queue fb1 = snd (dequeue (fb_queue fb))" and "fb_drivers fb1 = fb_drivers fb"
    and "fb_world fb1 = fb_world fb"
proof -
  have run: "fb_running fb" using assms by (auto simp: begin_next_def split: if_splits)
  obtain q' where dq: "dequeue (fb_queue fb) = (Some task, q')"
    and tr: "is_ok (fst (fb_transition (ct_id task) SRunning None None (fb\<lparr>fb_queue := q'\<rparr>)))"
    and fb1: "fb1 = fb_emit L (ct_id task) (ServiceUpdated (ct_id task) None (Some ''active'') None)
                 (snd (fb_transition (ct_id task) SRunning None None (fb\<lparr>fb_queue := q'\<rparr>)))"
    using assms run by (auto simp: begin_next_def split: prod.splits option.splits sum.splits)
  obtain s' fb2 where t: "fb_transition (ct_id task) SRunning None None (fb\<lparr>fb_queue := q'\<rparr>) = (Inr s', fb2)"
    using tr by (metis is_ok_simps(1) prod.collapse sum.exhaust_sel)
  obtain s where s: "sm_get (ct_id task) (fb_sessions fb) = Some s"
    "allowed_transition (cs_state s) SRunning" "cs_state s' = SRunning"
    "sm_get (ct_id task) (fb_sessions fb2) = Some s'"
    "queued_count (fb_sessions fb2) + (if cs_state s = SQueued then 1 else 0) = queued_count (fb_sessions fb)"
    by (rule fb_transition_queued [OF t]) simp
  have "cs_state s = SQueued" using s(2) by (cases "cs_state s") simp_all
  moreover have "fb_queue fb2 = q'" "fb_drivers fb2 = fb_drivers fb" "fb_world fb2 = fb_world fb"
    using fb_transition_frame [of "ct_id task" SRunning None None "fb\<lparr>fb_queue := q'\<rparr>"] t by auto
  ultimately show thesis
    using run dequeue_peek [OF dq] s dq t fb1 by (intro that [of s s']) simp_all
qed

lemma finish_queued_count:
  "queued_count (fb_sessions (snd (finish_success L t out fb))) \<le> queued_count (fb_sessions fb)"
  "queued_count (fb_sessions (snd (finish_failure L t e fb))) \<le> queued_count (fb_sessions fb)"
proof -
  have *: "queued_count (fb_sessions fb') \<le> queued_count (fb_sessions fb)"
    if tr: "fb_transition i to r x fb = (y, fb')" and "to \<noteq> SQueued" for i to r x y fb'
  proof (cases y)
    case (Inl e)
    with tr fb_transition_refused [of i to r x fb] show ?thesis by fastforce
  next
    case (Inr s')
    show ?thesis by (rule fb_transition_queued [OF tr [unfolded Inr]]) (use \<open>to \<noteq> SQueued\<close> in simp)
  qed
  show "queued_count (fb_sessions (snd (finish_success L t out fb))) \<le> queued_count (fb_sessions fb)"
  proof -
    obtain y fb1 where t: "fb_transition (ct_id t) SSucceeded (Some out) None fb = (y, fb1)" by force
    from * [OF this] show ?thesis
      by (cases y) (simp_all add: finish_success_def t split_beta Let_def)
  qed
  show "queued_count (fb_sessions (snd (finish_failure L t e fb))) \<le> queued_count (fb_sessions fb)"
  proof -
    obtain y fb1 where t: "fb_transition (ct_id t) SFailed None (Some (show_driver_error e)) fb = (y, fb1)"
      by force
    from * [OF this] show ?thesis by (cases y) (simp_all add: finish_failure_def t Let_def)
  qed
qed

lemma process_next_queued_count:
  assumes "process_next L fb = (Inr (Some i), fb')"
  shows "queued_count (fb_sessions fb') < queued_count (fb_sessions fb)"
proof -
  obtain task fb1 where b: "begin_next L fb = (Inr (Some task), fb1)"
    using assms by (auto simp: process_next_def split: prod.splits sum.splits option.splits)
  have dec: "queued_count (fb_sessions fb1) + 1 = queued_count (fb_sessions fb)"
    using begin_next_task [OF b] by metis
  let ?r = "dr_execute (fb_drivers fb1) (ct_driver task) (ct_capability task) (ct_params task) (fb_world fb1)"
  have "fb' = snd (case ?r of (Inr output, w) \<Rightarrow> finish_success L task output (fb1\<lparr>fb_world := w\<rparr>)
                      | (Inl e, w) \<Rightarrow> finish_failure L task e (fb1\<lparr>fb_world := w\<rparr>))"
    using assms b by (simp add: process_next_def)
  then have "queued_count (fb_sessions fb') \<le> queued_count (fb_sessions fb1)"
  proof -
    obtain y w where r: "?r = (y, w)" by force
    from \<open>fb' = _\<close> show ?thesis
      using finish_queued_count [where L = L and t = task and fb = "fb1\<lparr>fb_world := w\<rparr>"]
      by (cases y) (simp_all add: r)
  qed
  with dec show ?thesis by simp
qed

function drain_from :: "'j fabric_lib \<Rightarrow> nat \<Rightarrow> ('j, 'w) fabric \<Rightarrow> nat \<times> ('j, 'w) fabric" where
  "drain_from L cnt fb =
     (case process_next L fb of
        (Inr (Some i), fb') \<Rightarrow> drain_from L (cnt + 1) fb'
      | (r, fb') \<Rightarrow> (cnt, fb'))"
  by pat_completeness auto
termination
  by (relation "measure (\<lambda>(L, cnt, fb). queued_count (fb_sessions fb))")
    (auto dest: process_next_queued_count [OF sym])

declare drain_from.simps [simp del]

definition drain :: "'j fabric_lib \<Rightarrow> ('j, 'w) fabric \<Rightarrow> nat \<times> ('j, 'w) fabric" where
  "drain L fb = drain_from L 0 fb"

lemma drain_from_bound:
  "drain_from L cnt fb = (n, fb') \<Longrightarrow>
   cnt \<le> n \<and> n \<le> cnt + queued_count (fb_sessions fb) \<and>
   (\<exists>fb0 r. process_next L fb0 = (r, fb') \<and> (\<forall>i. r \<noteq> Inr (Some i)))"
proof (induction L cnt fb arbitrary: n fb' rule: drain_from.induct)
  case (1 L cnt fb)
  obtain r fb1 where p: "process_next L fb = (r, fb1)" by force
  show ?case
  proof (cases "\<exists>i. r = Inr (Some i)")
    case True
    then obtain i where r: "r = Inr (Some i)" ..
    have "drain_from L (cnt + 1) fb1 = (n, fb')"
      using 1(2) by (simp add: drain_from.simps [of L cnt] p r)
    with 1(1) [OF p [symmetric] r refl this] process_next_queued_count [OF p [unfolded r]]
    show ?thesis by auto
  next
    case False
    then have "n = cnt \<and> fb' = fb1"
      using 1(2) by (cases r) (auto simp: drain_from.simps [of L cnt] p split: option.splits)
    with p False show ?thesis by auto
  qed
qed

text \<open>
  C11. Draining always ends: it answers a count of at most the sessions that were \<open>Queued\<close>,
  and stops in the state left by the first call of \<open>process_next\<close> that found nothing to do
  or failed. Together with termination of the loop, proved by the number of \<open>Queued\<close>
  sessions, no driver outcome keeps it busy, failing tasks and their retries included.
\<close>

theorem drain_ends:
  "case drain L fb of (n, fb') \<Rightarrow>
     n \<le> queued_count (fb_sessions fb) \<and>
     (\<exists>fb0 r. process_next L fb0 = (r, fb') \<and> (\<forall>i. r \<noteq> Inr (Some i)))"
  using drain_from_bound [of L 0 fb] by (fastforce simp: drain_def split: prod.splits)

section \<open>Work needs a queued session\<close>

lemma process_next_refused:
  assumes "\<And>task fb1. begin_next L fb \<noteq> (Inr (Some task), fb1)"
  shows "fb_world (snd (process_next L fb)) = fb_world fb"
    and "fb_events (snd (process_next L fb)) = fb_events fb"
    and "\<forall>i. fst (process_next L fb) \<noteq> Inr (Some i)"
    and "fb_sessions (snd (process_next L fb)) = fb_sessions fb"
proof -
  obtain r fb1 where b: "begin_next L fb = (r, fb1)" by force
  with assms have r: "\<forall>t. r \<noteq> Inr (Some t)" by blast
  have "fb_world fb1 = fb_world fb \<and> fb_events fb1 = fb_events fb \<and> fb_sessions fb1 = fb_sessions fb"
  proof (cases "fb_running fb \<and> fst (dequeue (fb_queue fb)) \<noteq> None")
    case True
    then obtain task q' where dq: "dequeue (fb_queue fb) = (Some task, q')"
      by (metis option.exhaust prod.collapse)
    let ?t = "fb_transition (ct_id task) SRunning None None (fb\<lparr>fb_queue := q'\<rparr>)"
    have "\<not> is_ok (fst ?t)"
      using b r True by (auto simp: begin_next_def dq split: prod.splits sum.splits)
    then obtain x where "?t = (Inl x, fb\<lparr>fb_queue := q'\<rparr>)"
      using fb_transition_refused by metis
    with b True show ?thesis by (auto simp: begin_next_def dq)
  next
    case False
    with b show ?thesis by (auto simp: begin_next_def split: if_splits prod.splits option.splits)
  qed
  moreover have "process_next L fb = (case r of Inl e \<Rightarrow> (Inl e, fb1) | Inr _ \<Rightarrow> (Inr None, fb1))"
    using b r by (auto simp: process_next_def split: sum.splits option.splits)
  ultimately show "fb_world (snd (process_next L fb)) = fb_world fb"
    "fb_events (snd (process_next L fb)) = fb_events fb"
    "\<forall>i. fst (process_next L fb) \<noteq> Inr (Some i)"
    "fb_sessions (snd (process_next L fb)) = fb_sessions fb"
    by (auto split: sum.splits)
qed

text \<open>
  C12. Nothing runs without a queued session: if \<open>process_next\<close> answers a task, touches the
  outside world, appends an event or changes a session, then the fabric was running, the
  answer is the task at the head of the queue and its session was \<open>Queued\<close>. In particular a
  stopped fabric does nothing, and neither a cancelled task nor a failed one waiting for its
  retry reaches a driver.
\<close>

theorem work_needs_queued_session:
  assumes "fst (process_next L fb) = Inr (Some i) \<or> fb_world (snd (process_next L fb)) \<noteq> fb_world fb \<or>
           fb_events (snd (process_next L fb)) \<noteq> fb_events fb \<or>
           fb_sessions (snd (process_next L fb)) \<noteq> fb_sessions fb"
  shows "fb_running fb \<and>
         (\<exists>task s. peek (fb_queue fb) = Some task \<and> fb_status (ct_id task) fb = Some s \<and>
            cs_state s = SQueued \<and>
            (\<forall>j. fst (process_next L fb) = Inr (Some j) \<longrightarrow> j = ct_id task))"
proof -
  obtain task fb1 where b: "begin_next L fb = (Inr (Some task), fb1)"
    using assms process_next_refused [of L fb] by metis
  have "\<forall>j. fst (process_next L fb) = Inr (Some j) \<longrightarrow> j = ct_id task"
    by (auto simp: process_next_def b finish_success_def finish_failure_def Let_def
        split: prod.splits sum.splits)
  with begin_next_task [OF b] show ?thesis unfolding fb_status_def by metis
qed

section \<open>Reachable fabrics: every task runs at most once\<close>

text \<open>One call by a client, panics of \<open>cancel\<close> left out (they return no state).\<close>

inductive fb_step :: "'j fabric_lib \<Rightarrow> ('j, 'w) fabric \<Rightarrow> ('j, 'w) fabric \<Rightarrow> bool" for L where
  step_submit: "fb_step L fb (snd (submit L task fb))"
| step_cancel: "fb_cancel i fb = Some (r, fb') \<Longrightarrow> fb_step L fb fb'"
| step_next: "fb_step L fb (snd (process_next L fb))"
| step_stop: "fb_step L fb (fb_stop fb)"
| step_start: "fb_step L fb (fb_start fb)"

inductive fb_reachable :: "'j fabric_lib \<Rightarrow> ('j, 'w) fabric \<Rightarrow> ('j, 'w) fabric \<Rightarrow> bool" for L fb0 where
  reach_init: "fb_reachable L fb0 fb0"
| reach_step: "fb_reachable L fb0 fb \<Longrightarrow> fb_step L fb fb' \<Longrightarrow> fb_reachable L fb0 fb'"

lemma drain_from_reachable:
  "fb_reachable L fb0 fb \<Longrightarrow> fb_reachable L fb0 (snd (drain_from L cnt fb))"
proof (induction L cnt fb rule: drain_from.induct)
  case (1 L cnt fb)
  obtain r fb1 where p: "process_next L fb = (r, fb1)" by force
  have "fb_reachable L fb0 fb1"
    using reach_step [OF 1(2) step_next] by (simp add: p)
  with 1(1) [OF p [symmetric]] show ?case
    by (subst drain_from.simps) (auto simp: p split: sum.splits option.splits)
qed








text \<open>A driver that always fails and counts its calls in the outside world.\<close>

definition ex_failing :: "(unit, nat) driver" where
  "ex_failing = \<lparr>dv_name = ''http'', dv_description = [],
     dv_capabilities = [capability_new ''fetch'' [] () ()],
     dv_execute = (\<lambda>c p w. (Inl (ExecutionError ''timeout''), w + 1))\<rparr>"

definition ex_answering :: "(unit, nat) driver" where
  "ex_answering = ex_failing\<lparr>dv_execute := (\<lambda>c p w. (Inr (), w + 1))\<rparr>"

definition ex_fabric_lib :: "unit fabric_lib" where
  "ex_fabric_lib = \<lparr>fl_to_value = (\<lambda>ev. ()), fl_to_vec = (\<lambda>j. Some [])\<rparr>"

definition ex_still_host :: host where
  "ex_still_host = \<lparr>clock = (\<lambda>n. 0), millis = (\<lambda>n. 0), ulids = (\<lambda>n. 0), calls = 0\<rparr>"

definition ex_fabric :: "(unit, nat) driver \<Rightarrow> (unit, nat) fabric" where
  "ex_fabric d = fb_new (snd (dr_register d dr_new)) es_new ex_still_host 0"

definition ex_submitted :: "(unit, nat) fabric" where
  "ex_submitted = snd (submit ex_fabric_lib (ex_task ''b'' Background)
     (snd (submit ex_fabric_lib (ex_task ''a'' Critical) (ex_fabric ex_failing))))"

text \<open>
  A retry stops the drain: with a failing driver and the tasks \<open>a\<close> (critical, three
  retries) and \<open>b\<close> (background) submitted, \<open>drain\<close> answers 1. The driver was called once; the
  retry of \<open>a\<close> was re-enqueued, taken from the queue and refused for its \<open>Failed\<close> session, so
  \<open>a\<close> is gone from the queue after one of three attempts and \<open>b\<close> is left waiting.
\<close>

theorem retry_stops_drain:
  "case drain ex_fabric_lib ex_submitted of (n, fb) \<Rightarrow>
     n = 1 \<and> fb_world fb = 1 \<and>
     map ct_id (queued_tasks fb) = [''b''] \<and>
     map_option cs_state (fb_status ''a'' fb) = Some SFailed \<and>
     map_option cs_attempt (fb_status ''a'' fb) = Some 1 \<and>
     map_option cs_max_retries (fb_status ''a'' fb) = Some 3 \<and>
     map_option cs_state (fb_status ''b'' fb) = Some SQueued"
  by code_simp


section \<open>The event trail\<close>

lemma fb_emit_event:
  assumes "es_inv (fb_events fb)"
  obtains e where "ee_aggregate_id e = se_aggregate_id ev" "ee_event_type e = se_event_type ev"
    "ee_aggregate_type e = se_aggregate_type ev" "ee_data e = fl_to_value L ev"
    "es_events (fb_events (fb_emit L i ev fb)) =
       (if latest_version (fb_events fb) (se_aggregate_id ev) = latest_version (fb_events fb) i
        then es_events (fb_events fb) @ [e] else es_events (fb_events fb))"
    "es_inv (fb_events (fb_emit L i ev fb))"
proof -
  obtain e h' where env: "into_envelope (fl_to_value L) (fb_host fb) (latest_version (fb_events fb) i + 1) ev = (e, h')"
    by force
  then have e: "ee_aggregate_id e = se_aggregate_id ev" "ee_event_type e = se_event_type ev"
    "ee_aggregate_type e = se_aggregate_type ev" "ee_data e = fl_to_value L ev"
    "ee_version e = latest_version (fb_events fb) i + 1"
    by (auto simp: into_envelope_def Let_def split: prod.splits)
  have ev: "fb_events (fb_emit L i ev fb) = snd (es_append e (fb_events fb))"
    by (simp add: fb_emit_def Let_def env split_beta)
  show thesis
    by (rule that [OF e(1-4)])
      (auto simp: ev mem.put_log [OF assms] mem.put_inv [OF assms] e)
qed

lemma fb_emit_own_event:
  assumes "es_inv (fb_events fb)" and "se_aggregate_id ev = i"
  obtains e where "ee_aggregate_id e = i" "ee_event_type e = se_event_type ev"
    "ee_aggregate_type e = se_aggregate_type ev" "ee_data e = fl_to_value L ev"
    "es_events (fb_events (fb_emit L i ev fb)) = es_events (fb_events fb) @ [e]"
    "es_inv (fb_events (fb_emit L i ev fb))"
  using fb_emit_event [OF assms(1), of ev L i] assms(2) by metis

lemma begin_next_runs:
  assumes run: "fb_running fb" and peek: "peek (fb_queue fb) = Some task"
    and st: "fb_status (ct_id task) fb = Some s" "cs_state s = SQueued"
    and inv: "es_inv (fb_events fb)"
  obtains fb1 s1 e where "begin_next L fb = (Inr (Some task), fb1)"
    and "es_events (fb_events fb1) = es_events (fb_events fb) @ [e]"
    and "ee_aggregate_id e = ct_id task" and "ee_event_type e = ''Updated''"
    and "es_inv (fb_events fb1)"
    and "sm_get (ct_id task) (fb_sessions fb1) = Some s1" and "cs_state s1 = SRunning"
    and "fb_drivers fb1 = fb_drivers fb" and "fb_world fb1 = fb_world fb"
proof -
  obtain q' where dq: "dequeue (fb_queue fb) = (Some task, q')"
    using peek dequeue_None [of "fb_queue fb"] dequeue_peek [of "fb_queue fb"]
    by (metis option.exhaust prod.collapse)
  let ?t = "fb_transition (ct_id task) SRunning None None (fb\<lparr>fb_queue := q'\<rparr>)"
  have "is_ok (fst ?t)"
    using st by (simp add: fb_transition_ok_iff fb_status_def)
  then obtain s1 fb2 where t: "?t = (Inr s1, fb2)" by (metis is_ok_simps(1) prod.collapse sum.exhaust_sel)
  have s1: "cs_state s1 = SRunning" "sm_get (ct_id task) (fb_sessions fb2) = Some s1"
    using fb_transition_queued [OF t] by metis+
  have fr: "fb_events fb2 = fb_events fb" "fb_drivers fb2 = fb_drivers fb" "fb_world fb2 = fb_world fb"
    using fb_transition_frame [of "ct_id task" SRunning None None "fb\<lparr>fb_queue := q'\<rparr>"] t by auto
  let ?ev = "ServiceUpdated (ct_id task) None (Some ''active'') None"
  have inv2: "es_inv (fb_events fb2)" using inv fr by simp
  have b: "begin_next L fb = (Inr (Some task), fb_emit L (ct_id task) ?ev fb2)"
    using run by (simp add: begin_next_def dq t)
  obtain e where e: "ee_aggregate_id e = ct_id task" "ee_event_type e = ''Updated''"
    "es_events (fb_events (fb_emit L (ct_id task) ?ev fb2)) = es_events (fb_events fb2) @ [e]"
    "es_inv (fb_events (fb_emit L (ct_id task) ?ev fb2))"
    using fb_emit_own_event [OF inv2, of ?ev "ct_id task" L] by auto
  show thesis by (rule that [OF b]) (use e fr s1 in simp_all)
qed

text \<open>
  The result of a collection leaves no event. When the driver answers, \<open>process_next\<close>
  ends in \<open>Succeeded\<close> with the output in the session, but the \<open>ObservationRecorded\<close> event of
  the aggregate \<open>obs_<id>\<close> is packed with the next version of the aggregate \<open><id>\<close>: unless the
  two versions happen to agree, the store refuses it, the refusal is dropped, and the only
  event appended is the one that announced the run.
\<close>

theorem success_event_is_dropped:
  assumes inv: "es_inv (fb_events fb)" and run: "fb_running fb"
    and peek: "peek (fb_queue fb) = Some task"
    and st: "fb_status (ct_id task) fb = Some s" "cs_state s = SQueued"
    and drv: "dr_execute (fb_drivers fb) (ct_driver task) (ct_capability task) (ct_params task)
                (fb_world fb) = (Inr out, w)"
    and ver: "latest_version (fb_events fb) (''obs_'' @ ct_id task)
                \<noteq> latest_version (fb_events fb) (ct_id task) + 1"
  shows "case process_next L fb of (r, fb') \<Rightarrow>
           r = Inr (Some (ct_id task)) \<and> fb_world fb' = w \<and>
           map_option (\<lambda>s. (cs_state s, cs_result s)) (fb_status (ct_id task) fb') = Some (SSucceeded, Some out) \<and>
           (\<exists>e. es_events (fb_events fb') = es_events (fb_events fb) @ [e] \<and>
                ee_aggregate_id e = ct_id task \<and> ee_event_type e = ''Updated'') \<and>
           read_events (fb_events fb') (''obs_'' @ ct_id task) =
           read_events (fb_events fb) (''obs_'' @ ct_id task)"
proof -
  let ?i = "ct_id task"
  obtain fb1 s1 e where b: "begin_next L fb = (Inr (Some task), fb1)"
    and e: "es_events (fb_events fb1) = es_events (fb_events fb) @ [e]"
      "ee_aggregate_id e = ?i" "ee_event_type e = ''Updated''"
    and inv1: "es_inv (fb_events fb1)"
    and s1: "sm_get ?i (fb_sessions fb1) = Some s1" "cs_state s1 = SRunning"
    and fr: "fb_drivers fb1 = fb_drivers fb" "fb_world fb1 = fb_world fb"
    using begin_next_runs [OF run peek st inv] by metis
  let ?fb = "fb1\<lparr>fb_world := w\<rparr>"
  let ?t = "fb_transition ?i SSucceeded (Some out) None ?fb"
  have "is_ok (fst ?t)" using s1 by (simp add: fb_transition_ok_iff)
  then obtain s2 fb2 where t: "?t = (Inr s2, fb2)" by (metis is_ok_simps(1) prod.collapse sum.exhaust_sel)
  have s2: "cs_state s2 = SSucceeded" "sm_get ?i (fb_sessions fb2) = Some s2"
    using fb_transition_queued [OF t] by metis+
  have res: "cs_result s2 = Some out"
    using t s1 by (auto simp: fb_transition_def sm_transition_def sm_get_def now_utc_def Let_def)
  have fr2: "fb_events fb2 = fb_events fb1" "fb_world fb2 = w"
    using fb_transition_frame [of ?i SSucceeded "Some out" None ?fb] t by auto
  obtain now h' where now: "now_utc (fb_host fb2) = (now, h')" by force
  let ?fb3 = "fb2\<lparr>fb_host := h'\<rparr>"
  let ?ev = "ObservationRecorded (''obs_'' @ ?i) (''collection.'' @ ct_capability task)
      (unwrap_or [] (fl_to_vec L out)) (Some ''application/json'') (''driver:'' @ ct_driver task) now"
  have p: "process_next L fb = (Inr (Some ?i), fb_emit L ?i ?ev ?fb3)"
    using drv fr by (simp add: process_next_def b finish_success_def t now)
  have own: "?i \<noteq> ''obs_'' @ ?i" by (metis append_self_conv2 list.distinct(1))
  have "latest_version (fb_events fb1) (''obs_'' @ ?i) \<noteq> latest_version (fb_events fb1) ?i"
    using ver own e by (simp add: latest_version_log [OF inv1] latest_version_log [OF inv] add.commute)
  then have log: "es_events (fb_events (fb_emit L ?i ?ev ?fb3)) = es_events (fb_events fb1)"
    and inv3: "es_inv (fb_events (fb_emit L ?i ?ev ?fb3))"
    using fb_emit_event [of ?fb3 ?ev L ?i] inv1 fr2 by simp_all metis+
  have "of_aggregate (''obs_'' @ ?i) (es_events (fb_events (fb_emit L ?i ?ev ?fb3))) =
        of_aggregate (''obs_'' @ ?i) (es_events (fb_events fb))"
    using log e own by simp
  then have "read_events (fb_events (fb_emit L ?i ?ev ?fb3)) (''obs_'' @ ?i) =
      read_events (fb_events fb) (''obs_'' @ ?i)"
    by (simp only: read_events_log [OF inv3] read_events_log [OF inv])
  then show ?thesis
    using log e s2 res fr2 by (simp add: p fb_status_def)
qed

section \<open>Submission\<close>

text \<open>
  Submission on both branches. A task whose identifier is indexed in the queue is refused
  and neither the queue nor the events change; any other task is accepted, its entry joins
  the bag of the queue and one \<open>ServiceRegistered\<close> event of its own aggregate is appended. On
  both branches the session of that identifier is replaced by a new one, \<open>Queued\<close> with no
  attempt and no result, that describes the task offered: a refused duplicate overwrites the
  session of the task that waits.
\<close>

theorem submit_branches:
  assumes "es_inv (fb_events fb)"
  shows "case submit L task fb of (r, fb') \<Rightarrow>
     (if pq_by_id (fb_queue fb) (ct_id task) \<noteq> None
      then r = Inl (DuplicateTask (ct_id task)) \<and> fb_queue fb' = fb_queue fb \<and> fb_events fb' = fb_events fb
      else r = Inr (ct_id task) \<and>
        (\<exists>e. qe_task e = task \<and> pq_bag (fb_queue fb') = add_mset e (pq_bag (fb_queue fb))) \<and>
        (\<exists>e. es_events (fb_events fb') = es_events (fb_events fb) @ [e] \<and>
             ee_aggregate_id e = ct_id task \<and> ee_event_type e = ''Registered'')) \<and>
     (\<exists>s. fb_status (ct_id task) fb' = Some s \<and> cs_state s = SQueued \<and> cs_attempt s = 0 \<and>
          cs_result s = None \<and> cs_driver s = ct_driver task \<and>
          cs_target s = target_locator (ct_target task) \<and> cs_max_retries s = ct_max_retries task)"
proof -
  let ?i = "ct_id task" and ?loc = "target_locator (ct_target task)"
  have loc: "(case ct_target task of TargetUrl u \<Rightarrow> u | TargetDomain d \<Rightarrow> d
      | TargetService _ l \<Rightarrow> l | TargetCustom _ l \<Rightarrow> l) = ?loc"
    by (cases "ct_target task") simp_all
  obtain s sm' h' where c: "sm_create ?i ?loc (ct_driver task) (ct_capability task)
      (ct_max_retries task) (ct_metadata task) (fb_sessions fb, fb_host fb) = (s, sm', h')"
    by (metis prod_cases3)
  have s: "sm_get ?i sm' = Some s" "cs_state s = SQueued" "cs_attempt s = 0" "cs_result s = None"
    "cs_driver s = ct_driver task" "cs_target s = ?loc" "cs_max_retries s = ct_max_retries task"
    using c by (auto simp: sm_create_def sm_get_def now_utc_def Let_def)
  let ?fb1 = "fb\<lparr>fb_sessions := sm', fb_host := h'\<rparr>"
  obtain r fb2 where e: "fb_enqueue task ?fb1 = (r, fb2)" by force
  have fr: "fb_sessions fb2 = sm'" "fb_events fb2 = fb_events fb"
    using fb_enqueue_frame(1,3) [of task ?fb1] e by simp_all
  show ?thesis
  proof (cases "pq_by_id (fb_queue fb) ?i = None")
    case False
    then have "r = Inl (DuplicateTask ?i)" "fb_queue fb2 = fb_queue fb"
      using e by (auto simp: fb_enqueue_def enqueue_rejects)
    then show ?thesis using False s fr by (simp add: submit_def Let_def c loc e fb_status_def)
  next
    case True
    then have q: "r = Inr ()" "\<exists>x. qe_task x = task \<and> pq_bag (fb_queue fb2) = add_mset x (pq_bag (fb_queue fb))"
      using e by (auto simp: fb_enqueue_def enqueue_def now_utc_def Let_def mset_pushed)
    let ?ev = "ServiceRegistered ?i (''collection:'' @ ?loc) ''collection'' ?loc ''active'' None"
    have sub: "submit L task fb = (Inr ?i, fb_emit L ?i ?ev fb2)"
      using q(1) by (simp add: submit_def Let_def c loc e)
    have "es_inv (fb_events fb2)" using assms fr by simp
    then obtain x where "es_events (fb_events (fb_emit L ?i ?ev fb2)) = es_events (fb_events fb2) @ [x]"
      "ee_aggregate_id x = ?i" "ee_event_type x = ''Registered''"
      using fb_emit_own_event [of fb2 ?ev ?i L] by auto
    then show ?thesis using True s fr q(2) by (simp add: sub fb_status_def)
  qed
qed

lemma ex_inv_new: "es_inv (fb_events (ex_fabric d))"
  by (simp add: ex_fabric_def fb_new_def es_inv_new)

theorem submit_branches_witness:
  "map_option cs_state (fb_status ''a'' (snd (submit ex_fabric_lib (ex_task ''a'' Critical) (ex_fabric ex_failing))))
     = Some SQueued"
  using submit_branches [OF ex_inv_new [of ex_failing], of "ex_task ''a'' Critical" ex_fabric_lib]
  by (auto simp: ex_task_def split: prod.splits)

definition ex_ready :: "(unit, nat) driver \<Rightarrow> (unit, nat) fabric" where
  "ex_ready d = snd (submit ex_fabric_lib (ex_task ''a'' Critical) (ex_fabric d))"

lemma ex_ready_log:
  "es_inv (fb_events (ex_ready d))"
  "\<exists>e. es_events (fb_events (ex_ready d)) = [e] \<and> ee_aggregate_id e = ''a''"
proof -
  have q: "pq_by_id (fb_queue (ex_fabric d)) (ct_id (ex_task ''a'' Critical)) = None"
    by (simp add: ex_fabric_def fb_new_def pq_new_def)
  show "\<exists>e. es_events (fb_events (ex_ready d)) = [e] \<and> ee_aggregate_id e = ''a''"
    using submit_branches [OF ex_inv_new [of d], of "ex_task ''a'' Critical" ex_fabric_lib] q
    by (auto simp: ex_ready_def ex_fabric_def fb_new_def es_new_def ex_task_def split: prod.splits)
  have "fb_events (ex_ready d) = es_new \<or> (\<exists>e. fb_events (ex_ready d) = snd (es_append e es_new))"
    by (simp add: ex_ready_def submit_def sm_create_def fb_enqueue_def enqueue_def fb_emit_def
        into_envelope_def now_utc_def ulid_new_def Let_def split_beta ex_fabric_def fb_new_def pq_new_def) blast
  then show "es_inv (fb_events (ex_ready d))" by (auto simp: es_inv_new es_inv_append)
qed

lemma ex_ready_queue:
  "fb_running (ex_ready d)" "peek (fb_queue (ex_ready d)) = Some (ex_task ''a'' Critical)"
  "map_option cs_state (fb_status ''a'' (ex_ready d)) = Some SQueued"
  "fb_drivers (ex_ready d) = [(dv_name d, d)]" "fb_world (ex_ready d) = 0"
  by (simp_all add: ex_ready_def submit_def sm_create_def fb_enqueue_def enqueue_def now_utc_def
      Let_def split_beta ex_fabric_def fb_new_def pq_new_def ex_task_def bubble_up.simps peek_def
      fb_status_def sm_get_def sm_new_def dr_register_def dr_new_def)

theorem success_event_is_dropped_witness:
  "read_events (fb_events (snd (process_next ex_fabric_lib (ex_ready ex_answering)))) ''obs_a'' = Some (Inr [])"
proof -
  let ?fb = "ex_ready ex_answering" and ?t = "ex_task ''a'' Critical"
  obtain s where s: "fb_status (ct_id ?t) ?fb = Some s" "cs_state s = SQueued"
    using ex_ready_queue(3) [of ex_answering] by (auto simp: ex_task_def)
  have drv: "dr_execute (fb_drivers ?fb) (ct_driver ?t) (ct_capability ?t) (ct_params ?t) (fb_world ?fb) = (Inr (), 1)"
    unfolding ex_ready_queue(4,5)
    by (simp add: dr_execute_def dr_get_def ex_answering_def ex_failing_def ex_task_def declares_def
        capability_new_def)
  have none: "read_events (fb_events ?fb) (''obs_'' @ ct_id ?t) = Some (Inr [])"
    using ex_ready_log [of ex_answering] by (auto simp: read_events_log ex_task_def)
  have ver: "latest_version (fb_events ?fb) (''obs_'' @ ct_id ?t) \<noteq> latest_version (fb_events ?fb) (ct_id ?t) + 1"
    using ex_ready_log [of ex_answering] by (auto simp: latest_version_log ex_task_def)
  from success_event_is_dropped [OF ex_ready_log(1) ex_ready_queue(1,2) s drv ver, of ex_fabric_lib] none
  show ?thesis by (auto simp: ex_task_def split: prod.splits)
qed

theorem work_needs_queued_session_witness:
  "fb_running (ex_ready ex_answering) \<and> peek (fb_queue (ex_ready ex_answering)) = Some (ex_task ''a'' Critical)"
proof -
  let ?fb = "ex_ready ex_answering"
  obtain s where s: "fb_status (ct_id (ex_task ''a'' Critical)) ?fb = Some s" "cs_state s = SQueued"
    using ex_ready_queue(3) [of ex_answering] by (auto simp: ex_task_def)
  obtain fb1 e where b: "begin_next ex_fabric_lib ?fb = (Inr (Some (ex_task ''a'' Critical)), fb1)"
    "fb_drivers fb1 = fb_drivers ?fb" "fb_world fb1 = fb_world ?fb"
    using begin_next_runs [OF ex_ready_queue(1,2) s ex_ready_log(1)] by metis
  have "fb_world (snd (process_next ex_fabric_lib ?fb)) \<noteq> fb_world ?fb"
  proof -
    have w: "fb_world (snd (finish_success L t x fb)) = fb_world fb" for L t x and fb :: "(unit, nat) fabric"
      using fb_transition_frame(5) [of "ct_id t" SSucceeded "Some x" None fb]
      by (auto simp: finish_success_def split_beta Let_def split: prod.splits sum.splits)
    show ?thesis
      unfolding process_next_def b(1)
      by (simp add: b(2,3) ex_ready_queue(4,5) dr_execute_def dr_get_def ex_answering_def ex_failing_def
        ex_task_def declares_def capability_new_def w)
  qed
  then have "fb_running ?fb \<and> (\<exists>task s. peek (fb_queue ?fb) = Some task)"
    using work_needs_queued_session [of ex_fabric_lib ?fb] by blast
  then show ?thesis using ex_ready_queue(2) by simp
qed

end
