(* ===== verification/Float_Arith.thy ===== *)
theory Float_Arith
  imports Floats
begin

text \<open>
  The arithmetic of \<open>f64\<close> on bit patterns: sum, product, quotient and square root, rounded to the
  nearest number with ties to even as IEEE 754 asks, with the infinities, the signed zeros and a NaN.
  A result that is a NaN is the quiet one; its payload is not observed.
\<close>

section \<open>Sign and magnitude\<close>

definition f64_nan :: f64 where
  "f64_nan = 0x7FF8000000000000"

definition f64_sign_bit :: f64 where
  "f64_sign_bit = 0x8000000000000000"

definition f64_abs :: "f64 \<Rightarrow> f64" where
  "f64_abs x = x AND 0x7FFFFFFFFFFFFFFF"

definition f64_is_inf :: "f64 \<Rightarrow> bool" where
  "f64_is_inf x \<longleftrightarrow> f64_abs x = 0x7FF0000000000000"

definition f64_neg :: "f64 \<Rightarrow> f64" where
  "f64_neg x = x XOR f64_sign_bit"

text \<open>The value of a finite number as a fraction.\<close>

definition f64_frac :: "f64 \<Rightarrow> int \<times> int" where
  "f64_frac x = (case f64_ratio (f64_abs x) of (p, q) \<Rightarrow> (if bit x 63 then - p else p, q))"

definition f64_round :: "int \<Rightarrow> int \<Rightarrow> f64" where
  "f64_round p q = (if p < 0 then f64_sign_bit OR f64_of_ratio (- p) q else f64_of_ratio p q)"

section \<open>The operations\<close>

definition f64_add :: "f64 \<Rightarrow> f64 \<Rightarrow> f64" where
  "f64_add x y =
     (if f64_is_nan x \<or> f64_is_nan y then f64_nan
      else if f64_is_inf x then (if f64_is_inf y \<and> x \<noteq> y then f64_nan else x)
      else if f64_is_inf y then y
      else if f64_is_zero x \<and> f64_is_zero y then x AND y
      else (case (f64_frac x, f64_frac y) of ((p, q), (p', q')) \<Rightarrow> f64_round (p * q' + p' * q) (q * q')))"

definition f64_sub :: "f64 \<Rightarrow> f64 \<Rightarrow> f64" where
  "f64_sub x y = f64_add x (f64_neg y)"

definition f64_mul :: "f64 \<Rightarrow> f64 \<Rightarrow> f64" where
  "f64_mul x y =
     (let sign = (x XOR y) AND f64_sign_bit in
      if f64_is_nan x \<or> f64_is_nan y \<or> f64_is_inf x \<and> f64_is_zero y \<or> f64_is_zero x \<and> f64_is_inf y then f64_nan
      else if f64_is_inf x \<or> f64_is_inf y then sign OR 0x7FF0000000000000
      else (case (f64_ratio (f64_abs x), f64_ratio (f64_abs y)) of
              ((p, q), (p', q')) \<Rightarrow> sign OR f64_of_ratio (p * p') (q * q')))"

definition f64_div :: "f64 \<Rightarrow> f64 \<Rightarrow> f64" where
  "f64_div x y =
     (let sign = (x XOR y) AND f64_sign_bit in
      if f64_is_nan x \<or> f64_is_nan y \<or> f64_is_inf x \<and> f64_is_inf y \<or> f64_is_zero x \<and> f64_is_zero y then f64_nan
      else if f64_is_inf x \<or> f64_is_zero y then sign OR 0x7FF0000000000000
      else if f64_is_inf y then sign
      else (case (f64_ratio (f64_abs x), f64_ratio (f64_abs y)) of
              ((p, q), (p', q')) \<Rightarrow> sign OR f64_of_ratio (p * q') (q * p')))"

text \<open>The root of a whole number from its digits to the base 4.\<close>

function isqrt :: "int \<Rightarrow> int" where
  "isqrt n = (if n \<le> 0 then 0 else (let r = 2 * isqrt (n div 4) in if (r + 1) * (r + 1) \<le> n then r + 1 else r))"
  by pat_completeness auto
termination
  by (relation "measure nat") auto

declare isqrt.simps [simp del]

lemma isqrt_root: "0 \<le> n \<Longrightarrow> 0 \<le> isqrt n \<and> isqrt n * isqrt n \<le> n \<and> n < (isqrt n + 1) * (isqrt n + 1)"
proof (induction n rule: isqrt.induct)
  case (1 n)
  show ?case
  proof (cases "n = 0")
    case False
    let ?r = "isqrt (n div 4)"
    have r: "0 \<le> ?r" "?r * ?r \<le> n div 4" "n div 4 < (?r + 1) * (?r + 1)" using 1 False by auto
    then have "4 * (?r * ?r) \<le> n" "n < 4 * ((?r + 1) * (?r + 1))" by linarith+
    with r(1) False 1(2) show ?thesis by (auto simp: isqrt.simps [of n] Let_def algebra_simps)
  qed (simp add: isqrt.simps)
qed

text \<open>
  The root is taken with more than sixty bits; a last odd bit stands for what is cut off and keeps a
  value that is not exact off the boundaries of rounding.
\<close>

definition f64_sqrt :: "f64 \<Rightarrow> f64" where
  "f64_sqrt x =
     (if f64_is_nan x then f64_nan
      else if f64_is_zero x then x
      else if bit x 63 then f64_nan
      else if f64_is_inf x then x
      else (case f64_ratio x of (p, q) \<Rightarrow>
        (let k = nat (62 - (bit_count p - bit_count q) div 2);
             n = p * 4 ^ k div q; r = isqrt n;
             odd_bit = (if r * r = n \<and> p * 4 ^ k mod q = 0 then 0 else 1)
         in f64_of_ratio (2 * r + odd_bit) (2 * 2 ^ k))))"

text \<open>Comparison, \<open>f64::max\<close> and \<open>f64::min\<close>, which prefer a number to a NaN, and sums, which start from \<open>-0.0\<close>.\<close>

definition f64_le :: "f64 \<Rightarrow> f64 \<Rightarrow> bool" where
  "f64_le x y \<longleftrightarrow> \<not> f64_is_nan x \<and> \<not> f64_is_nan y \<and> f64_key x \<le> f64_key y"

definition f64_max :: "f64 \<Rightarrow> f64 \<Rightarrow> f64" where
  "f64_max x y = (if f64_is_nan x \<or> f64_less x y then y else x)"

definition f64_min :: "f64 \<Rightarrow> f64 \<Rightarrow> f64" where
  "f64_min x y = (if f64_is_nan x \<or> f64_less y x then y else x)"

definition f64_sum :: "f64 list \<Rightarrow> f64" where
  "f64_sum xs = fold (\<lambda>x s. f64_add s x) xs f64_sign_bit"

definition f64_of_nat :: "nat \<Rightarrow> f64" where
  "f64_of_nat n = f64_of_ratio (int n) 1"

lemma f64_sum_Nil [simp]: "f64_sum [] = f64_sign_bit"
  by (simp add: f64_sum_def)

text \<open>Addition and multiplication commute, on all bit patterns.\<close>

lemma f64_add_commute: "f64_add x y = f64_add y x"
  by (auto simp: f64_add_def split_beta ac_simps and.commute)

lemma f64_mul_commute: "f64_mul x y = f64_mul y x"
  by (auto simp: f64_mul_def split_beta ac_simps xor.commute Let_def)

section \<open>Examples\<close>

text \<open>\<open>0.1 + 0.2\<close>, \<open>1.0 / 3.0\<close>, the root of 2 and \<open>(1.0 - 0.9) * 10.0\<close>, bit for bit.\<close>

lemma float_examples:
  "f64_add (f64_of_ratio 1 10) (f64_of_ratio 2 10) = 0x3FD3333333333334"
  "f64_div (f64_of_nat 1) (f64_of_nat 3) = 0x3FD5555555555555"
  "f64_sqrt (f64_of_nat 2) = 0x3FF6A09E667F3BCD"
  "f64_mul (f64_sub (f64_of_nat 1) (f64_of_ratio 9 10)) (f64_of_nat 10) = 0x3FEFFFFFFFFFFFFE"
  by code_simp+

end
