(* ===== verification/Gpu.thy ===== *)
theory Gpu
  imports Floats
begin

text \<open>
  Ranking on the CPU backend, \<open>src/crates/gpu/src/cpu.rs\<close> and \<open>src/crates/gpu/src/lib.rs\<close>:
  \<open>rank\<close> and \<open>vector_search\<close>, and the FNV hash behind the embedding. The floating-point
  arithmetic itself, the cosine similarity and the embedding of a text, is an argument.
\<close>

unbundle bit_operations_syntax

record vector_index =
  vi_vectors :: "f32 list list"
  vi_labels :: "string list"

definition rank_items :: "(string \<times> f32) list \<Rightarrow> nat \<Rightarrow> (string \<times> f32) list" where
  "rank_items scores top_k = take top_k (sort_scores scores)"

definition search_vectors ::
  "(f32 list \<Rightarrow> f32 list \<Rightarrow> f32) \<Rightarrow> f32 list \<Rightarrow> vector_index \<Rightarrow> nat \<Rightarrow> (nat \<times> f32) list" where
  "search_vectors cosine query index k =
     take k (sort_scores (map (\<lambda>(i, v). (i, cosine query v)) (List.enumerate 0 (vi_vectors index))))"

definition fnv_hash :: "u8 list \<Rightarrow> u64" where
  "fnv_hash data = fold (\<lambda>byte hash. (hash XOR ucast byte) * 0x100000001B3) data 0xCBF29CE484222325"

lemma search_vectors_index:
  "(i, s) \<in> set (search_vectors cosine q index k) \<Longrightarrow>
   i < length (vi_vectors index) \<and> s = cosine q (vi_vectors index ! i)"
  by (auto simp: search_vectors_def in_set_enumerate_eq dest!: in_set_takeD)

end
