(* ===== verification/Vm_Instruction.thy ===== *)
theory Vm_Instruction
  imports Prelude
begin

text \<open>
  The instruction set of the intelligence VM, \<open>src/crates/vm/src/instruction.rs\<close>, and the
  program container, \<open>src/crates/vm/src/program.rs\<close>: opcodes and their bytes, the 8-byte
  instruction format, the builder helpers, the printed form, and the binary encoding of a
  program. The lemmas show that encoding and decoding are inverse to each other and where a
  program's encoding holds each of its parts.
\<close>

unbundle bit_operations_syntax

section \<open>Opcodes\<close>

datatype opcode =
    OpNop | OpLoadImm | OpLoadStr | OpMov | OpLoadEntity | OpLoadGraph | OpTraverse | OpCompare
  | OpFact | OpQuery | OpRelate | OpInfer | OpSimilar | OpClassify | OpReason | OpCorrelate
  | OpTimeline | OpPush | OpPop | OpDup | OpSwap | OpJmp | OpJz | OpJnz
  | OpCall | OpRet | OpHalt | OpSearch | OpIndex | OpRank | OpRecall | OpConsolidate
  | OpForget | OpStore | OpSnapshot | OpSysCall | OpEmit

fun opcode_byte :: "opcode \<Rightarrow> u8" where
  "opcode_byte OpNop = 0x00"
| "opcode_byte OpLoadImm = 0x01"
| "opcode_byte OpLoadStr = 0x02"
| "opcode_byte OpMov = 0x03"
| "opcode_byte OpLoadEntity = 0x04"
| "opcode_byte OpLoadGraph = 0x05"
| "opcode_byte OpTraverse = 0x06"
| "opcode_byte OpCompare = 0x07"
| "opcode_byte OpFact = 0x10"
| "opcode_byte OpQuery = 0x11"
| "opcode_byte OpRelate = 0x12"
| "opcode_byte OpInfer = 0x13"
| "opcode_byte OpSimilar = 0x14"
| "opcode_byte OpClassify = 0x15"
| "opcode_byte OpReason = 0x16"
| "opcode_byte OpCorrelate = 0x17"
| "opcode_byte OpTimeline = 0x18"
| "opcode_byte OpPush = 0x20"
| "opcode_byte OpPop = 0x21"
| "opcode_byte OpDup = 0x22"
| "opcode_byte OpSwap = 0x23"
| "opcode_byte OpJmp = 0x30"
| "opcode_byte OpJz = 0x31"
| "opcode_byte OpJnz = 0x32"
| "opcode_byte OpCall = 0x33"
| "opcode_byte OpRet = 0x34"
| "opcode_byte OpHalt = 0x35"
| "opcode_byte OpSearch = 0x40"
| "opcode_byte OpIndex = 0x41"
| "opcode_byte OpRank = 0x42"
| "opcode_byte OpRecall = 0x50"
| "opcode_byte OpConsolidate = 0x51"
| "opcode_byte OpForget = 0x52"
| "opcode_byte OpStore = 0x53"
| "opcode_byte OpSnapshot = 0x54"
| "opcode_byte OpSysCall = 0x60"
| "opcode_byte OpEmit = 0x61"

definition opcode_from_u8 :: "u8 \<Rightarrow> opcode option" where
  "opcode_from_u8 byte =
     (if byte = 0x00 then Some OpNop
      else if byte = 0x01 then Some OpLoadImm
      else if byte = 0x02 then Some OpLoadStr
      else if byte = 0x03 then Some OpMov
      else if byte = 0x04 then Some OpLoadEntity
      else if byte = 0x05 then Some OpLoadGraph
      else if byte = 0x06 then Some OpTraverse
      else if byte = 0x07 then Some OpCompare
      else if byte = 0x10 then Some OpFact
      else if byte = 0x11 then Some OpQuery
      else if byte = 0x12 then Some OpRelate
      else if byte = 0x13 then Some OpInfer
      else if byte = 0x14 then Some OpSimilar
      else if byte = 0x15 then Some OpClassify
      else if byte = 0x16 then Some OpReason
      else if byte = 0x17 then Some OpCorrelate
      else if byte = 0x18 then Some OpTimeline
      else if byte = 0x20 then Some OpPush
      else if byte = 0x21 then Some OpPop
      else if byte = 0x22 then Some OpDup
      else if byte = 0x23 then Some OpSwap
      else if byte = 0x30 then Some OpJmp
      else if byte = 0x31 then Some OpJz
      else if byte = 0x32 then Some OpJnz
      else if byte = 0x33 then Some OpCall
      else if byte = 0x34 then Some OpRet
      else if byte = 0x35 then Some OpHalt
      else if byte = 0x40 then Some OpSearch
      else if byte = 0x41 then Some OpIndex
      else if byte = 0x42 then Some OpRank
      else if byte = 0x50 then Some OpRecall
      else if byte = 0x51 then Some OpConsolidate
      else if byte = 0x52 then Some OpForget
      else if byte = 0x53 then Some OpStore
      else if byte = 0x54 then Some OpSnapshot
      else if byte = 0x60 then Some OpSysCall
      else if byte = 0x61 then Some OpEmit
      else None)"

fun show_opcode :: "opcode \<Rightarrow> string" where
  "show_opcode OpNop = ''Nop''"
| "show_opcode OpLoadImm = ''LoadImm''"
| "show_opcode OpLoadStr = ''LoadStr''"
| "show_opcode OpMov = ''Mov''"
| "show_opcode OpLoadEntity = ''LoadEntity''"
| "show_opcode OpLoadGraph = ''LoadGraph''"
| "show_opcode OpTraverse = ''Traverse''"
| "show_opcode OpCompare = ''Compare''"
| "show_opcode OpFact = ''Fact''"
| "show_opcode OpQuery = ''Query''"
| "show_opcode OpRelate = ''Relate''"
| "show_opcode OpInfer = ''Infer''"
| "show_opcode OpSimilar = ''Similar''"
| "show_opcode OpClassify = ''Classify''"
| "show_opcode OpReason = ''Reason''"
| "show_opcode OpCorrelate = ''Correlate''"
| "show_opcode OpTimeline = ''Timeline''"
| "show_opcode OpPush = ''Push''"
| "show_opcode OpPop = ''Pop''"
| "show_opcode OpDup = ''Dup''"
| "show_opcode OpSwap = ''Swap''"
| "show_opcode OpJmp = ''Jmp''"
| "show_opcode OpJz = ''Jz''"
| "show_opcode OpJnz = ''Jnz''"
| "show_opcode OpCall = ''Call''"
| "show_opcode OpRet = ''Ret''"
| "show_opcode OpHalt = ''Halt''"
| "show_opcode OpSearch = ''Search''"
| "show_opcode OpIndex = ''Index''"
| "show_opcode OpRank = ''Rank''"
| "show_opcode OpRecall = ''Recall''"
| "show_opcode OpConsolidate = ''Consolidate''"
| "show_opcode OpForget = ''Forget''"
| "show_opcode OpStore = ''Store''"
| "show_opcode OpSnapshot = ''Snapshot''"
| "show_opcode OpSysCall = ''SysCall''"
| "show_opcode OpEmit = ''Emit''"

section \<open>Instructions\<close>

record instruction =
  in_opcode :: opcode
  in_reg_a :: u8
  in_reg_b :: u8
  in_extra :: u8
  in_imm :: i32

definition instr_new :: "opcode \<Rightarrow> instruction" where
  "instr_new opcode = \<lparr>in_opcode = opcode, in_reg_a = 0, in_reg_b = 0, in_extra = 0, in_imm = 0\<rparr>"

definition with_reg_a :: "u8 \<Rightarrow> instruction \<Rightarrow> instruction" where
  "with_reg_a r i = i\<lparr>in_reg_a := r\<rparr>"

definition with_reg_b :: "u8 \<Rightarrow> instruction \<Rightarrow> instruction" where
  "with_reg_b r i = i\<lparr>in_reg_b := r\<rparr>"

definition with_extra :: "u8 \<Rightarrow> instruction \<Rightarrow> instruction" where
  "with_extra v i = i\<lparr>in_extra := v\<rparr>"

definition with_imm :: "i32 \<Rightarrow> instruction \<Rightarrow> instruction" where
  "with_imm v i = i\<lparr>in_imm := v\<rparr>"

text \<open>\<open>to_le_bytes\<close> and \<open>from_le_bytes\<close> of a 32-bit integer.\<close>

definition le_bytes32 :: "u32 \<Rightarrow> u8 list" where
  "le_bytes32 x = [ucast x, ucast (drop_bit 8 x), ucast (drop_bit 16 x), ucast (drop_bit 24 x)]"

fun from_le_bytes32 :: "u8 list \<Rightarrow> u32 option" where
  "from_le_bytes32 [a, b, c, d] =
     Some (ucast a OR push_bit 8 (ucast b) OR push_bit 16 (ucast c) OR push_bit 24 (ucast d))"
| "from_le_bytes32 _ = None"

definition instr_encode :: "instruction \<Rightarrow> u8 list" where
  "instr_encode i = [opcode_byte (in_opcode i), in_reg_a i, in_reg_b i, in_extra i] @ le_bytes32 (in_imm i)"

text \<open>The argument is an array of eight bytes.\<close>

definition instr_decode :: "u8 list \<Rightarrow> instruction option" where
  "instr_decode bytes =
     (case opcode_from_u8 (bytes ! 0) of
        None \<Rightarrow> None
      | Some opcode \<Rightarrow>
          (case from_le_bytes32 (take 4 (drop 4 bytes)) of
             None \<Rightarrow> None
           | Some imm \<Rightarrow>
               Some \<lparr>in_opcode = opcode, in_reg_a = bytes ! 1, in_reg_b = bytes ! 2,
                     in_extra = bytes ! 3, in_imm = imm\<rparr>))"

text \<open>\<open>Display for Instruction\<close>.\<close>

definition show_reg :: "u8 \<Rightarrow> string" where
  "show_reg r = ''r'' @ show_nat (unat r)"

definition show_imm :: "i32 \<Rightarrow> string" where
  "show_imm v = show_int (sint v)"

definition show_instruction :: "instruction \<Rightarrow> string" where
  "show_instruction i =
     show_opcode (in_opcode i) @
     (let a = show_reg (in_reg_a i); b = show_reg (in_reg_b i); imm = show_imm (in_imm i) in
      if in_opcode i \<in> {OpNop, OpHalt, OpRet} then []
      else if in_opcode i \<in> {OpLoadImm, OpLoadStr, OpPush, OpPop, OpDup}
      then '' '' @ a @ (if in_imm i \<noteq> 0 then '', '' @ imm else [])
      else if in_opcode i \<in> {OpMov, OpSwap} then '' '' @ a @ '', '' @ b
      else if in_opcode i \<in> {OpJmp, OpJz, OpJnz} then '' '' @ imm
      else if in_opcode i = OpCall then '' '' @ imm
      else if in_opcode i \<in> {OpFact, OpRelate, OpInfer, OpSimilar}
      then '' '' @ a @ '', '' @ b @ '', '' @ show_reg (in_extra i)
      else if in_opcode i \<in> {OpQuery, OpSearch, OpCorrelate, OpCompare} then '' '' @ a @ '', '' @ b
      else if in_opcode i \<in> {OpClassify, OpReason, OpTimeline, OpTraverse} then '' '' @ a @ '', '' @ b
      else if in_opcode i \<in> {OpLoadEntity, OpLoadGraph, OpStore, OpSnapshot} then '' '' @ a
      else if in_opcode i = OpSysCall then '' '' @ imm
      else '' '' @ a @ '', '' @ b @ '', '' @ imm)"

section \<open>Builder helpers\<close>

definition ins_nop :: "instruction" where
  "ins_nop = instr_new OpNop"

definition ins_load_imm :: "u8 \<Rightarrow> i32 \<Rightarrow> instruction" where
  "ins_load_imm reg value = with_imm value (with_reg_a reg (instr_new OpLoadImm))"

definition ins_load_str :: "u8 \<Rightarrow> u16 \<Rightarrow> instruction" where
  "ins_load_str reg string_idx = with_imm (ucast string_idx) (with_reg_a reg (instr_new OpLoadStr))"

definition ins_mov :: "u8 \<Rightarrow> u8 \<Rightarrow> instruction" where
  "ins_mov dst src = with_reg_b src (with_reg_a dst (instr_new OpMov))"

definition ins_fact :: "u8 \<Rightarrow> u8 \<Rightarrow> u8 \<Rightarrow> instruction" where
  "ins_fact subj pred obj = with_extra obj (with_reg_b pred (with_reg_a subj (instr_new OpFact)))"

definition ins_query :: "u8 \<Rightarrow> u8 \<Rightarrow> instruction" where
  "ins_query dst query_reg = with_reg_b query_reg (with_reg_a dst (instr_new OpQuery))"

definition ins_relate :: "u8 \<Rightarrow> u8 \<Rightarrow> u8 \<Rightarrow> instruction" where
  "ins_relate src kind tgt = with_extra tgt (with_reg_b kind (with_reg_a src (instr_new OpRelate)))"

definition ins_infer :: "u8 \<Rightarrow> u8 \<Rightarrow> u8 \<Rightarrow> instruction" where
  "ins_infer dst subj pred = with_extra pred (with_reg_b subj (with_reg_a dst (instr_new OpInfer)))"

definition ins_push :: "u8 \<Rightarrow> instruction" where
  "ins_push reg = with_reg_a reg (instr_new OpPush)"

definition ins_pop :: "u8 \<Rightarrow> instruction" where
  "ins_pop reg = with_reg_a reg (instr_new OpPop)"

definition ins_dup :: "instruction" where
  "ins_dup = instr_new OpDup"

definition ins_swap :: "instruction" where
  "ins_swap = instr_new OpSwap"

definition ins_jmp :: "i32 \<Rightarrow> instruction" where
  "ins_jmp offset = with_imm offset (instr_new OpJmp)"

definition ins_jz :: "u8 \<Rightarrow> i32 \<Rightarrow> instruction" where
  "ins_jz reg offset = with_imm offset (with_reg_a reg (instr_new OpJz))"

definition ins_jnz :: "u8 \<Rightarrow> i32 \<Rightarrow> instruction" where
  "ins_jnz reg offset = with_imm offset (with_reg_a reg (instr_new OpJnz))"

definition ins_call :: "i32 \<Rightarrow> instruction" where
  "ins_call offset = with_imm offset (instr_new OpCall)"

definition ins_ret :: "instruction" where
  "ins_ret = instr_new OpRet"

definition ins_halt :: "instruction" where
  "ins_halt = instr_new OpHalt"

definition ins_search :: "u8 \<Rightarrow> u8 \<Rightarrow> instruction" where
  "ins_search dst idx = with_reg_b idx (with_reg_a dst (instr_new OpSearch))"

definition ins_index :: "u8 \<Rightarrow> u8 \<Rightarrow> instruction" where
  "ins_index reg idx = with_reg_b idx (with_reg_a reg (instr_new OpIndex))"

definition ins_rank :: "u8 \<Rightarrow> u8 \<Rightarrow> instruction" where
  "ins_rank dst results = with_reg_b results (with_reg_a dst (instr_new OpRank))"

definition ins_recall :: "u8 \<Rightarrow> u8 \<Rightarrow> instruction" where
  "ins_recall dst id_reg = with_reg_b id_reg (with_reg_a dst (instr_new OpRecall))"

definition ins_consolidate :: "instruction" where
  "ins_consolidate = instr_new OpConsolidate"

definition ins_forget :: "u8 \<Rightarrow> instruction" where
  "ins_forget reg = with_reg_a reg (instr_new OpForget)"

definition ins_syscall :: "i32 \<Rightarrow> instruction" where
  "ins_syscall number = with_imm number (instr_new OpSysCall)"

definition ins_emit :: "u8 \<Rightarrow> instruction" where
  "ins_emit ev_reg = with_reg_a ev_reg (instr_new OpEmit)"

definition ins_load_entity :: "u8 \<Rightarrow> u8 \<Rightarrow> instruction" where
  "ins_load_entity dst kind_reg = with_reg_b kind_reg (with_reg_a dst (instr_new OpLoadEntity))"

definition ins_load_graph :: "u8 \<Rightarrow> u8 \<Rightarrow> instruction" where
  "ins_load_graph dst entity_reg = with_reg_b entity_reg (with_reg_a dst (instr_new OpLoadGraph))"

definition ins_traverse :: "u8 \<Rightarrow> u8 \<Rightarrow> instruction" where
  "ins_traverse dst entity_reg = with_reg_b entity_reg (with_reg_a dst (instr_new OpTraverse))"

definition ins_similar :: "u8 \<Rightarrow> u8 \<Rightarrow> u8 \<Rightarrow> instruction" where
  "ins_similar dst value_reg threshold_reg = with_extra threshold_reg (with_reg_b value_reg (with_reg_a dst (instr_new OpSimilar)))"

definition ins_classify :: "u8 \<Rightarrow> u8 \<Rightarrow> instruction" where
  "ins_classify dst content_reg = with_reg_b content_reg (with_reg_a dst (instr_new OpClassify))"

definition ins_reason :: "u8 \<Rightarrow> u8 \<Rightarrow> instruction" where
  "ins_reason dst fact_reg = with_reg_b fact_reg (with_reg_a dst (instr_new OpReason))"

definition ins_correlate :: "u8 \<Rightarrow> u8 \<Rightarrow> instruction" where
  "ins_correlate dst ent_a = with_reg_b ent_a (with_reg_a dst (instr_new OpCorrelate))"

definition ins_timeline :: "u8 \<Rightarrow> u8 \<Rightarrow> instruction" where
  "ins_timeline dst query_reg = with_reg_b query_reg (with_reg_a dst (instr_new OpTimeline))"

definition ins_store_val :: "u8 \<Rightarrow> instruction" where
  "ins_store_val reg = with_reg_a reg (instr_new OpStore)"

definition ins_snapshot :: "u8 \<Rightarrow> u8 \<Rightarrow> instruction" where
  "ins_snapshot dst kind = with_reg_b kind (with_reg_a dst (instr_new OpSnapshot))"

definition ins_compare :: "u8 \<Rightarrow> u8 \<Rightarrow> instruction" where
  "ins_compare dst val_a = with_reg_b val_a (with_reg_a dst (instr_new OpCompare))"

lemmas instr_simps = instr_new_def with_reg_a_def with_reg_b_def with_extra_def with_imm_def

lemmas builder_simps = instr_simps ins_nop_def ins_load_imm_def ins_load_str_def ins_mov_def ins_fact_def ins_query_def ins_relate_def ins_infer_def ins_push_def ins_pop_def ins_dup_def ins_swap_def ins_jmp_def ins_jz_def ins_jnz_def ins_call_def ins_ret_def ins_halt_def ins_search_def ins_index_def ins_rank_def ins_recall_def ins_consolidate_def ins_forget_def ins_syscall_def ins_emit_def ins_load_entity_def ins_load_graph_def ins_traverse_def ins_similar_def ins_classify_def ins_reason_def ins_correlate_def ins_timeline_def ins_store_val_def ins_snapshot_def ins_compare_def

section \<open>Programs\<close>

record 'j program =
  pg_name :: string
  pg_version :: string
  pg_instructions :: "instruction list"
  pg_constants :: "'j list"
  pg_entry_point :: u64
  pg_metadata :: metadata

definition pg_new :: "string \<Rightarrow> 'j program" where
  "pg_new name = \<lparr>pg_name = name, pg_version = ''0.1.0'', pg_instructions = [], pg_constants = [],
     pg_entry_point = 0, pg_metadata = Map.empty\<rparr>"

definition with_version :: "string \<Rightarrow> 'j program \<Rightarrow> 'j program" where
  "with_version v p = p\<lparr>pg_version := v\<rparr>"

definition pg_push :: "instruction \<Rightarrow> 'j program \<Rightarrow> 'j program" where
  "pg_push i p = p\<lparr>pg_instructions := pg_instructions p @ [i]\<rparr>"

definition add_constant :: "'j \<Rightarrow> 'j program \<Rightarrow> nat \<times> 'j program" where
  "add_constant v p = (length (pg_constants p), p\<lparr>pg_constants := pg_constants p @ [v]\<rparr>)"

definition get_constant :: "u16 \<Rightarrow> 'j program \<Rightarrow> 'j option" where
  "get_constant idx p = nth_opt (pg_constants p) (unat idx)"

definition pg_len :: "'j program \<Rightarrow> nat" where
  "pg_len p = length (pg_instructions p)"

definition pg_is_empty :: "'j program \<Rightarrow> bool" where
  "pg_is_empty p \<longleftrightarrow> pg_instructions p = []"

text \<open>\<open>to_vec\<close> is \<open>serde_json::to_vec\<close>; a constant it refuses is left out.\<close>

definition const_data :: "('j \<Rightarrow> u8 list option) \<Rightarrow> 'j program \<Rightarrow> u8 list" where
  "const_data to_vec p = concat (map (\<lambda>c. unwrap_or [] (to_vec c)) (pg_constants p))"

definition pg_encode :: "('j \<Rightarrow> u8 list option) \<Rightarrow> 'j program \<Rightarrow> u8 list" where
  "pg_encode to_vec p =
     [0x54, 0x56, 0x4D, 0x00] @
     le_bytes32 (of_nat (length (pg_instructions p))) @
     le_bytes32 (ucast (pg_entry_point p)) @
     le_bytes32 (of_nat (length (const_data to_vec p))) @
     concat (map instr_encode (pg_instructions p)) @
     const_data to_vec p"

section \<open>Encoding and decoding are inverse\<close>

lemma opcode_from_byte [simp]: "opcode_from_u8 (opcode_byte c) = Some c"
  by (cases c) (simp_all add: opcode_from_u8_def)

lemma opcode_from_u8_Some: "opcode_from_u8 b = Some c \<Longrightarrow> b = opcode_byte c"
  by (auto simp: opcode_from_u8_def split: if_splits)

lemma from_le_bytes_le [simp]: "from_le_bytes32 (le_bytes32 x) = Some x"
  unfolding le_bytes32_def from_le_bytes32.simps option.inject
proof (rule bit_word_eqI)
  fix n assume "n < LENGTH(32)"
  then consider "n < 8" | "8 \<le> n" "n < 16" | "16 \<le> n" "n < 24" | "24 \<le> n" "n < 32" by fastforce
  then show "bit ((ucast (ucast x :: u8) OR push_bit 8 (ucast (ucast (drop_bit 8 x) :: u8)) OR
      push_bit 16 (ucast (ucast (drop_bit 16 x) :: u8)) OR
      push_bit 24 (ucast (ucast (drop_bit 24 x) :: u8))) :: u32) n \<longleftrightarrow> bit x n"
    by cases (auto simp: bit_simps)
qed

lemma length_le_bytes32 [simp]: "length (le_bytes32 x) = 4"
  by (simp add: le_bytes32_def)

lemma le_bytes_from_le:
  assumes "from_le_bytes32 bs = Some x" shows "le_bytes32 x = bs"
proof -
  obtain a b c d where bs: "bs = [a, b, c, d]"
    and x: "x = ucast a OR push_bit 8 (ucast b) OR push_bit 16 (ucast c) OR push_bit 24 (ucast d)"
    using assms by (cases bs rule: from_le_bytes32.cases) auto
  have "ucast x = a" "ucast (drop_bit 8 x) = b" "ucast (drop_bit 16 x) = c" "ucast (drop_bit 24 x) = d"
    unfolding x by (rule bit_word_eqI; auto simp: bit_simps dest: bit_imp_le_length)+
  then show ?thesis by (simp add: bs le_bytes32_def)
qed

lemma length_instr_encode [simp]: "length (instr_encode i) = 8"
  by (simp add: instr_encode_def)

lemma decode_encode [simp]: "instr_decode (instr_encode i) = Some i"
  by (simp add: instr_decode_def instr_encode_def)

lemma encode_decode:
  assumes len: "length bs = 8" and d: "instr_decode bs = Some i"
  shows "instr_encode i = bs"
proof -
  obtain b0 b1 b2 b3 rest where bs: "bs = b0 # b1 # b2 # b3 # rest" "length rest = 4"
    using len by (auto simp: numeral_eq_Suc length_Suc_conv)
  with d obtain c imm where "opcode_from_u8 b0 = Some c" "from_le_bytes32 rest = Some imm"
    and i: "i = \<lparr>in_opcode = c, in_reg_a = b1, in_reg_b = b2, in_extra = b3, in_imm = imm\<rparr>"
    by (auto simp: instr_decode_def split: option.splits)
  with opcode_from_u8_Some le_bytes_from_le show ?thesis
    by (fastforce simp: instr_encode_def bs)
qed

text \<open>
  C14. The instruction format: every instruction has an eight-byte encoding that decodes to
  it, and every eight bytes that decode are the encoding of what they decode to. Decoding
  refuses exactly the bytes whose first is not the code of an opcode.
\<close>

theorem instruction_roundtrip:
  "length (instr_encode i) = 8 \<and> instr_decode (instr_encode i) = Some i \<and>
   (length bs = 8 \<longrightarrow>
     (case instr_decode bs of
        Some j \<Rightarrow> instr_encode j = bs
      | None \<Rightarrow> bs ! 0 \<notin> range opcode_byte))"
proof -
  have "bs ! 0 \<notin> range opcode_byte" if "length bs = 8" "instr_decode bs = None"
  proof
    assume "bs ! 0 \<in> range opcode_byte"
    then obtain c where "opcode_from_u8 (bs ! 0) = Some c" by auto
    moreover obtain a b c' d where "take 4 (drop 4 bs) = [a, b, c', d]"
      using \<open>length bs = 8\<close> by (auto simp: numeral_eq_Suc length_Suc_conv)
    ultimately show False using that(2) by (simp add: instr_decode_def)
  qed
  then show ?thesis using encode_decode by (auto split: option.split)
qed

theorem instruction_roundtrip_witness:
  "instr_decode [0x33, 0, 0, 0, 0xFE, 0xFF, 0xFF, 0xFF] = Some (ins_call (- 2)) \<and>
   instr_encode (ins_call (- 2)) = [0x33, 0, 0, 0, 0xFE, 0xFF, 0xFF, 0xFF]"
proof -
  have e: "instr_encode (ins_call (- 2)) = [0x33, 0, 0, 0, 0xFE, 0xFF, 0xFF, 0xFF]"
    by (simp add: instr_encode_def le_bytes32_def builder_simps)
  with instruction_roundtrip [of "ins_call (- 2)" "[0x33, 0, 0, 0, 0xFE, 0xFF, 0xFF, 0xFF]"]
  show ?thesis by simp
qed

lemma concat_block:
  assumes "\<And>x. x \<in> set xs \<Longrightarrow> length (f x) = n" and "k < length xs"
  shows "take n (drop (n * k) (concat (map f xs) @ ys)) = f (xs ! k)"
  using assms
proof (induction xs arbitrary: k)
  case Nil
  then show ?case by simp
next
  case (Cons x xs)
  show ?case
  proof (cases k)
    case 0
    with Cons.prems show ?thesis by simp
  next
    case (Suc j)
    with Cons.prems Cons.IH [of j] show ?thesis by simp
  qed
qed

lemma length_concat_encode: "length (concat (map instr_encode is)) = 8 * length is"
  by (induction "is") simp_all

text \<open>
  The program format: after the sixteen bytes of magic, instruction count, entry point
  and size of the constants (each modulo \<open>2 ^ 32\<close>) the \<open>k\<close>-th block of eight bytes decodes to
  the \<open>k\<close>-th instruction, and what follows the instructions is the JSON of the constants.
\<close>

theorem program_layout:
  "(let enc = pg_encode to_vec p; n = length (pg_instructions p) in
    length enc = 16 + 8 * n + length (const_data to_vec p) \<and>
    take 4 enc = [0x54, 0x56, 0x4D, 0x00] \<and>
    from_le_bytes32 (take 4 (drop 4 enc)) = Some (of_nat n) \<and>
    from_le_bytes32 (take 4 (drop 8 enc)) = Some (ucast (pg_entry_point p)) \<and>
    from_le_bytes32 (take 4 (drop 12 enc)) = Some (of_nat (length (const_data to_vec p))) \<and>
    (\<forall>k<n. instr_decode (take 8 (drop (16 + 8 * k) enc)) = Some (pg_instructions p ! k)) \<and>
    drop (16 + 8 * n) enc = const_data to_vec p)"
proof -
  let ?hdr = "[0x54, 0x56, 0x4D, 0x00] @ le_bytes32 (of_nat (length (pg_instructions p))) @
     le_bytes32 (ucast (pg_entry_point p)) @ le_bytes32 (of_nat (length (const_data to_vec p)))"
  let ?ins = "concat (map instr_encode (pg_instructions p))"
  have enc: "pg_encode to_vec p = ?hdr @ ?ins @ const_data to_vec p" by (simp add: pg_encode_def)
  have skip: "drop (16 + m) (?hdr @ zs) = drop m zs" for m zs
  proof -
    have "length ?hdr = 16" by simp
    then show ?thesis by (simp only: drop_append) simp
  qed
  have block: "take 8 (drop (16 + 8 * k) (pg_encode to_vec p)) = instr_encode (pg_instructions p ! k)"
    if "k < length (pg_instructions p)" for k
    unfolding enc skip by (rule concat_block) (use that in simp_all)
  have rest: "drop (16 + 8 * length (pg_instructions p)) (pg_encode to_vec p) = const_data to_vec p"
    unfolding enc skip by (simp add: length_concat_encode)
  show ?thesis
    unfolding Let_def using block rest
    by (simp add: enc length_concat_encode)
qed

theorem program_layout_witness:
  "instr_decode (take 8 (drop 24 (pg_encode (\<lambda>_. None) (pg_push ins_halt (pg_push ins_nop (pg_new ''p'')))))) = Some ins_halt"
  using program_layout [of "\<lambda>_. None" "pg_push ins_halt (pg_push ins_nop (pg_new ''p''))"]
  unfolding Let_def by (elim conjE allE [of _ 1]) (simp add: pg_push_def pg_new_def)

end
