(* ===== verification/Vm.thy ===== *)
theory Vm
  imports Vm_Instruction Object_Model Memory_Model Gpu
begin

text \<open>
  The intelligence VM, \<open>src/crates/vm/src\<close>: register values and the register file
  (\<open>register.rs\<close>), the operand stack (\<open>stack.rs\<close>), system calls (\<open>syscall.rs\<close>), the executor
  with one definition per opcode that does more than move values (\<open>executor.rs\<close>) and the
  entry points (\<open>vm.rs\<close>).

  The VM reads and writes through trait objects and third-party code: the memory subsystems,
  the system call handler, \<open>serde_json\<close>, the ULID text form and the printed form of a time.
  They are the fields of \<open>vm_env\<close> and \<open>json_lib\<close>, functions on an outside world \<open>'w\<close> where they
  have effects, and nothing is assumed of them. The float arithmetic of the GPU crate's
  embedding and cosine similarity is a field too; ranking and search are those of \<open>Gpu\<close>.

  An operation answers \<open>Fault msg\<close> where the code returns \<open>Err(msg)\<close> and \<open>Panicked\<close> where an
  index is out of range. Program counters are machine words: \<open>ctx.pc as i32 + imm\<close> wraps and
  its cast back to \<open>usize\<close> extends the sign.
\<close>

section \<open>Register values\<close>

datatype 'j register_value =
    RInt i64
  | RFloat f64
  | RBoolean bool
  | RString string
  | RKnowledge "'j knowledge"
  | RRelationship relationship
  | REntity string string \<comment> \<open>kind, id\<close>
  | RFacts "'j register_value list"
  | RNil

record 'j json_lib =
  js_null :: 'j
  js_bool :: "bool \<Rightarrow> 'j"
  js_i64 :: "i64 \<Rightarrow> 'j"
  js_u64 :: "u64 \<Rightarrow> 'j"
  js_f64 :: "f64 \<Rightarrow> 'j"
  js_f32 :: "f32 \<Rightarrow> 'j"
  js_str :: "string \<Rightarrow> 'j"
  js_array :: "'j list \<Rightarrow> 'j"
  js_object :: "(string \<times> 'j) list \<Rightarrow> 'j"
  js_as_str :: "'j \<Rightarrow> string option"
  js_as_f64 :: "'j \<Rightarrow> f64 option"
  js_as_u64 :: "'j \<Rightarrow> u64 option"
  js_get :: "'j \<Rightarrow> string \<Rightarrow> 'j option"
  js_strings :: "'j \<Rightarrow> string list option"
  js_show :: "'j \<Rightarrow> string"
  js_to_string :: "'j \<Rightarrow> string option"
  js_parse :: "string \<Rightarrow> 'j option"
  js_knowledge :: "'j knowledge \<Rightarrow> 'j option"
  js_relationship :: "relationship \<Rightarrow> 'j option"
  js_fact_string :: "'j semantic_fact \<Rightarrow> string option"
  js_entry_string :: "'j lt_entry \<Rightarrow> string option"

fun is_truthy :: "'j register_value \<Rightarrow> bool" where
  "is_truthy (RInt v) = (v \<noteq> 0)"
| "is_truthy (RFloat v) = (\<not> f64_is_zero v)"
| "is_truthy (RBoolean b) = b"
| "is_truthy (RString s) = (s \<noteq> [])"
| "is_truthy (RKnowledge _) = True"
| "is_truthy (RRelationship _) = True"
| "is_truthy (REntity _ _) = True"
| "is_truthy (RFacts v) = (v \<noteq> [])"
| "is_truthy RNil = False"

fun as_int :: "'j register_value \<Rightarrow> i64 option" where
  "as_int (RInt v) = Some v"
| "as_int (RFloat v) = Some (f64_to_i64 v)"
| "as_int _ = None"

fun as_str :: "'j register_value \<Rightarrow> string option" where
  "as_str (RString s) = Some s"
| "as_str _ = None"

text \<open>The derived \<open>Serialize\<close>: an object of one field named by the variant.\<close>

fun reg_serialize :: "'j json_lib \<Rightarrow> 'j register_value \<Rightarrow> 'j" where
  "reg_serialize J (RInt v) = js_object J [(''Int'', js_i64 J v)]"
| "reg_serialize J (RFloat v) = js_object J [(''Float'', js_f64 J v)]"
| "reg_serialize J (RBoolean b) = js_object J [(''Boolean'', js_bool J b)]"
| "reg_serialize J (RString s) = js_object J [(''String'', js_str J s)]"
| "reg_serialize J (RKnowledge k) = js_object J [(''Knowledge'', unwrap_or (js_null J) (js_knowledge J k))]"
| "reg_serialize J (RRelationship r) =
     js_object J [(''Relationship'', unwrap_or (js_null J) (js_relationship J r))]"
| "reg_serialize J (REntity k i) =
     js_object J [(''Entity'', js_object J [(''kind'', js_str J k), (''id'', js_str J i)])]"
| "reg_serialize J (RFacts v) = js_object J [(''Facts'', js_array J (map (reg_serialize J) v))]"
| "reg_serialize J RNil = js_str J ''Nil''"

fun to_json :: "'j json_lib \<Rightarrow> 'j register_value \<Rightarrow> 'j" where
  "to_json J (RInt v) = js_i64 J v"
| "to_json J (RFloat v) = js_f64 J v"
| "to_json J (RBoolean b) = js_bool J b"
| "to_json J (RString s) = js_str J s"
| "to_json J (RKnowledge k) = unwrap_or (js_null J) (js_knowledge J k)"
| "to_json J (RRelationship r) = unwrap_or (js_null J) (js_relationship J r)"
| "to_json J (REntity k i) = js_object J [(''kind'', js_str J k), (''id'', js_str J i)]"
| "to_json J (RFacts v) = js_array J (map (reg_serialize J) v)"
| "to_json J RNil = js_null J"

section \<open>The register file\<close>

datatype register_error =
    InvalidRegister u8
  | RegisterTypeError string string

fun show_register_error :: "register_error \<Rightarrow> string" where
  "show_register_error (InvalidRegister i) = ''invalid register index: '' @ show_nat (unat i)"
| "show_register_error (RegisterTypeError e a) = ''type mismatch: expected '' @ e @ '', got '' @ a"

type_synonym 'j register_file = "'j register_value list"

definition rf_new :: "'j register_file" where
  "rf_new = replicate 32 RNil"

definition rf_read :: "u8 \<Rightarrow> 'j register_file \<Rightarrow> (register_error, 'j register_value) result" where
  "rf_read idx regs = ok_or (InvalidRegister idx) (nth_opt regs (unat idx))"

definition rf_write :: "u8 \<Rightarrow> 'j register_value \<Rightarrow> ('j register_file, register_error, unit) op" where
  "rf_write idx v regs =
     (if unat idx < length regs then (Inr (), regs[unat idx := v])
      else (Inl (InvalidRegister idx), regs))"

definition rf_clear :: "'j register_file \<Rightarrow> 'j register_file" where
  "rf_clear regs = map (\<lambda>_. RNil) regs"

section \<open>The inference stack\<close>

text \<open>The top is the end of the vector.\<close>

record 'j inference_stack =
  st_inner :: "'j register_value list"
  st_max_depth :: nat

datatype stack_error = StackOverflow nat | StackUnderflow

fun show_stack_error :: "stack_error \<Rightarrow> string" where
  "show_stack_error (StackOverflow n) = ''stack overflow: max depth '' @ show_nat n"
| "show_stack_error StackUnderflow = ''stack underflow''"

definition stk_new :: "nat \<Rightarrow> 'j inference_stack" where
  "stk_new max_depth = \<lparr>st_inner = [], st_max_depth = max_depth\<rparr>"

definition stk_default :: "'j inference_stack" where
  "stk_default = stk_new 1024"

definition stk_push :: "'j register_value \<Rightarrow> ('j inference_stack, stack_error, unit) op" where
  "stk_push v s =
     (if length (st_inner s) \<ge> st_max_depth s then (Inl (StackOverflow (st_max_depth s)), s)
      else (Inr (), s\<lparr>st_inner := st_inner s @ [v]\<rparr>))"

definition stk_pop :: "('j inference_stack, stack_error, 'j register_value) op" where
  "stk_pop s =
     (if st_inner s = [] then (Inl StackUnderflow, s)
      else (Inr (last (st_inner s)), s\<lparr>st_inner := butlast (st_inner s)\<rparr>))"

definition stk_peek :: "nat \<Rightarrow> 'j inference_stack \<Rightarrow> (stack_error, 'j register_value) result" where
  "stk_peek depth s =
     (if depth \<ge> length (st_inner s) then Inl StackUnderflow
      else Inr (st_inner s ! (length (st_inner s) - 1 - depth)))"

definition stk_dup :: "('j inference_stack, stack_error, unit) op" where
  "stk_dup = st_bind (st_gets (stk_peek 0)) stk_push"

definition stk_swap :: "('j inference_stack, stack_error, unit) op" where
  "stk_swap s =
     (let len = length (st_inner s) in
      if len < 2 then (Inl StackUnderflow, s)
      else (Inr (), s\<lparr>st_inner := swap_at (len - 1) (len - 2) (st_inner s)\<rparr>))"

definition stk_depth :: "'j inference_stack \<Rightarrow> nat" where
  "stk_depth s = length (st_inner s)"

definition stk_is_empty :: "'j inference_stack \<Rightarrow> bool" where
  "stk_is_empty s \<longleftrightarrow> st_inner s = []"

definition stk_clear :: "'j inference_stack \<Rightarrow> 'j inference_stack" where
  "stk_clear s = s\<lparr>st_inner := []\<rparr>"

definition stk_drain :: "'j inference_stack \<Rightarrow> 'j register_value list \<times> 'j inference_stack" where
  "stk_drain s = (st_inner s, s\<lparr>st_inner := []\<rparr>)"

section \<open>System calls\<close>

datatype syscall_number =
    SysLog | SysEmitEvent | SysSpawnAgent | SysSearchIndex | SysDispatchTask | SysGetTime
  | SysSleep | SysReadConfig | SysWriteOutput | SysInvokeProcessor | SysCollectEvidence

definition syscall_from_i32 :: "i32 \<Rightarrow> syscall_number option" where
  "syscall_from_i32 n =
     (if n = 0 then Some SysLog
      else if n = 1 then Some SysEmitEvent
      else if n = 2 then Some SysSpawnAgent
      else if n = 3 then Some SysSearchIndex
      else if n = 4 then Some SysDispatchTask
      else if n = 5 then Some SysGetTime
      else if n = 6 then Some SysSleep
      else if n = 7 then Some SysReadConfig
      else if n = 8 then Some SysWriteOutput
      else if n = 9 then Some SysInvokeProcessor
      else if n = 10 then Some SysCollectEvidence
      else None)"

record 'j syscall_args =
  sa_number :: syscall_number
  sa_arg0 :: i64
  sa_arg1 :: i64
  sa_arg2 :: i64
  sa_data :: "'j option"

record 'j syscall_result =
  sr_success :: bool
  sr_value :: i64
  sr_data :: "'j option"
  sr_error :: "string option"

definition sr_ok :: "i64 \<Rightarrow> 'j syscall_result" where
  "sr_ok v = \<lparr>sr_success = True, sr_value = v, sr_data = None, sr_error = None\<rparr>"

definition sr_ok_with_data :: "i64 \<Rightarrow> 'j \<Rightarrow> 'j syscall_result" where
  "sr_ok_with_data v d = \<lparr>sr_success = True, sr_value = v, sr_data = Some d, sr_error = None\<rparr>"

definition sr_err :: "string \<Rightarrow> 'j syscall_result" where
  "sr_err msg = \<lparr>sr_success = False, sr_value = - 1, sr_data = None, sr_error = Some msg\<rparr>"

section \<open>The environment and the execution context\<close>

record ('j, 'w) vm_env =
  ve_json :: "'j json_lib"
  ve_embed :: "string \<Rightarrow> f32 list"
  ve_cosine :: "f32 list \<Rightarrow> f32 list \<Rightarrow> f32"
  ve_query_semantic :: "semantic_query \<Rightarrow> 'w \<Rightarrow> (string, 'j semantic_fact list) result \<times> 'w"
  ve_store_fact :: "'j semantic_fact \<Rightarrow> 'w \<Rightarrow> (string, ulid) result \<times> 'w"
  ve_retrieve_ltm :: "lt_query \<Rightarrow> 'w \<Rightarrow> (string, 'j lt_entry list) result \<times> 'w"
  ve_store_ltm :: "'j lt_entry \<Rightarrow> 'w \<Rightarrow> (string, ulid) result \<times> 'w"
  ve_syscall :: "'j syscall_args \<Rightarrow> 'w \<Rightarrow> 'j syscall_result \<times> 'w"
  ve_show_ulid :: "ulid \<Rightarrow> string"
  ve_parse_ulid :: "string \<Rightarrow> ulid option"
  ve_show_time :: "instant \<Rightarrow> string"

record ('j, 'w) vm_ctx =
  cx_regs :: "'j register_file"
  cx_stack :: "'j inference_stack"
  cx_pc :: u64
  cx_return_stack :: "u64 list"
  cx_program :: "'j program"
  cx_running :: bool
  cx_cycles :: u64
  cx_max_cycles :: u64
  cx_host :: host
  cx_world :: 'w

definition cx_new :: "'j program \<Rightarrow> host \<Rightarrow> 'w \<Rightarrow> ('j, 'w) vm_ctx" where
  "cx_new p h w =
     \<lparr>cx_regs = rf_new, cx_stack = stk_default, cx_pc = pg_entry_point p, cx_return_stack = [],
      cx_program = p, cx_running = False, cx_cycles = 0, cx_max_cycles = 1000000,
      cx_host = h, cx_world = w\<rparr>"

datatype step_result = Continue | Halted | CallTo u64 | ReturnTo u64 | StepError string

datatype vm_fault = Fault string | Panicked

section \<open>Access to the context\<close>

type_synonym ('j, 'w, 'a) vm_op = "(('j, 'w) vm_ctx, vm_fault, 'a) op"

definition reg_read :: "u8 \<Rightarrow> ('j, 'w, 'j register_value) vm_op" where
  "reg_read idx c = (map_err (\<lambda>e. Fault (show_register_error e)) (rf_read idx (cx_regs c)), c)"

definition reg_write :: "u8 \<Rightarrow> 'j register_value \<Rightarrow> ('j, 'w, unit) vm_op" where
  "reg_write idx v c =
     (let (r, regs) = rf_write idx v (cx_regs c)
      in (map_err (\<lambda>e. Fault (show_register_error e)) r, c\<lparr>cx_regs := regs\<rparr>))"

definition on_stack :: "('j inference_stack, stack_error, 'a) op \<Rightarrow> ('j, 'w, 'a) vm_op" where
  "on_stack m c =
     (let (r, s) = m (cx_stack c)
      in (map_err (\<lambda>e. Fault (show_stack_error e)) r, c\<lparr>cx_stack := s\<rparr>))"

definition on_world :: "('w \<Rightarrow> (string, 'a) result \<times> 'w) \<Rightarrow> ('j, 'w, 'a) vm_op" where
  "on_world m c = (let (r, w) = m (cx_world c) in (map_err Fault r, c\<lparr>cx_world := w\<rparr>))"

definition on_host :: "(host \<Rightarrow> 'a \<times> host) \<Rightarrow> ('j, 'w, 'a) vm_op" where
  "on_host m c = (let (a, h) = m (cx_host c) in (Inr a, c\<lparr>cx_host := h\<rparr>))"

definition get_pc :: "('j, 'w, u64) vm_op" where
  "get_pc c = (Inr (cx_pc c), c)"

definition set_pc :: "u64 \<Rightarrow> ('j, 'w, unit) vm_op" where
  "set_pc pc c = (Inr (), c\<lparr>cx_pc := pc\<rparr>)"

text \<open>The end of \<open>step\<close>: \<open>ctx.pc += 1; Ok(result)\<close> with the result \<open>Continue\<close>.\<close>

definition advance :: "('j, 'w, step_result) vm_op" where
  "advance c = (Inr Continue, c\<lparr>cx_pc := cx_pc c + 1\<rparr>)"

text \<open>\<open>(ctx.pc as i32 + instr.imm) as usize\<close>.\<close>

definition jump_target :: "u64 \<Rightarrow> i32 \<Rightarrow> u64" where
  "jump_target pc imm = scast (ucast pc + imm :: i32)"

definition jump :: "i32 \<Rightarrow> ('j, 'w, step_result) vm_op" where
  "jump imm =
     st_bind get_pc (\<lambda>pc.
     st_bind (set_pc (jump_target pc imm)) (\<lambda>_. st_ok Continue))"

definition write_advance :: "u8 \<Rightarrow> 'j register_value \<Rightarrow> ('j, 'w, step_result) vm_op" where
  "write_advance a v = st_bind (reg_write a v) (\<lambda>_. advance)"

section \<open>Data and control instructions\<close>

definition exec_load_imm :: "instruction \<Rightarrow> ('j, 'w, step_result) vm_op" where
  "exec_load_imm i = write_advance (in_reg_a i) (RInt (scast (in_imm i)))"

definition exec_load_str :: "('j, 'w) vm_env \<Rightarrow> instruction \<Rightarrow> ('j, 'w, step_result) vm_op" where
  "exec_load_str E i c =
     (let s = (case get_constant (ucast (in_imm i)) (cx_program c) of
                 None \<Rightarrow> [] | Some v \<Rightarrow> unwrap_or [] (js_as_str (ve_json E) v))
      in write_advance (in_reg_a i) (RString s) c)"

definition exec_mov :: "instruction \<Rightarrow> ('j, 'w, step_result) vm_op" where
  "exec_mov i = st_bind (reg_read (in_reg_b i)) (\<lambda>v. write_advance (in_reg_a i) v)"

text \<open>\<open>to_json().to_string()\<close> of a register.\<close>

definition reg_text :: "('j, 'w) vm_env \<Rightarrow> 'j register_value \<Rightarrow> string" where
  "reg_text E v = js_show (ve_json E) (to_json (ve_json E) v)"

definition exec_load_entity :: "('j, 'w) vm_env \<Rightarrow> instruction \<Rightarrow> ('j, 'w, step_result) vm_op" where
  "exec_load_entity E i =
     st_bind (reg_read (in_reg_b i)) (\<lambda>v.
       write_advance (in_reg_a i) (REntity (reg_text E v) (show_int (sint (in_imm i)))))"

definition exec_compare :: "('j, 'w) vm_env \<Rightarrow> instruction \<Rightarrow> ('j, 'w, step_result) vm_op" where
  "exec_compare E i =
     (let J = ve_json E; text = (\<lambda>v. unwrap_or [] (js_to_string J (to_json J v))) in
      st_bind (reg_read (in_reg_a i)) (\<lambda>a.
      st_bind (reg_read (in_reg_b i)) (\<lambda>b.
        write_advance (in_reg_a i) (RBoolean (text a = text b)))))"

definition exec_push :: "instruction \<Rightarrow> ('j, 'w, step_result) vm_op" where
  "exec_push i =
     st_bind (reg_read (in_reg_a i)) (\<lambda>v. st_bind (on_stack (stk_push v)) (\<lambda>_. advance))"

definition exec_pop :: "instruction \<Rightarrow> ('j, 'w, step_result) vm_op" where
  "exec_pop i = st_bind (on_stack stk_pop) (\<lambda>v. write_advance (in_reg_a i) v)"

definition exec_dup :: "('j, 'w, step_result) vm_op" where
  "exec_dup = st_bind (on_stack stk_dup) (\<lambda>_. advance)"

definition exec_swap :: "('j, 'w, step_result) vm_op" where
  "exec_swap = st_bind (on_stack stk_swap) (\<lambda>_. advance)"

definition exec_jz :: "instruction \<Rightarrow> ('j, 'w, step_result) vm_op" where
  "exec_jz i =
     st_bind (reg_read (in_reg_a i)) (\<lambda>v. if \<not> is_truthy v then jump (in_imm i) else advance)"

definition exec_jnz :: "instruction \<Rightarrow> ('j, 'w, step_result) vm_op" where
  "exec_jnz i =
     st_bind (reg_read (in_reg_a i)) (\<lambda>v. if is_truthy v then jump (in_imm i) else advance)"

definition exec_call :: "instruction \<Rightarrow> ('j, 'w, step_result) vm_op" where
  "exec_call i = st_bind get_pc (\<lambda>pc. st_ok (CallTo (jump_target pc (in_imm i))))"

text \<open>\<open>ctx.return_stack.pop().unwrap_or(ctx.pc + 1)\<close>.\<close>

definition exec_ret :: "('j, 'w, step_result) vm_op" where
  "exec_ret c =
     (if cx_return_stack c = [] then (Inr (ReturnTo (cx_pc c + 1)), c)
      else (Inr (ReturnTo (last (cx_return_stack c))),
            c\<lparr>cx_return_stack := butlast (cx_return_stack c)\<rparr>))"

section \<open>Knowledge instructions\<close>

text \<open>
  \<open>format!("{} {} {}", f.subject, f.predicate, f.object)\<close> and the register that holds a fact
  as JSON text.
\<close>

definition fact_text :: "('j, 'w) vm_env \<Rightarrow> 'j semantic_fact \<Rightarrow> string" where
  "fact_text E f = sf_subject f @ '' '' @ sf_predicate f @ '' '' @ js_show (ve_json E) (sf_object f)"

definition fact_reg :: "('j, 'w) vm_env \<Rightarrow> 'j semantic_fact \<Rightarrow> 'j register_value" where
  "fact_reg E f = RString (unwrap_or [] (js_fact_string (ve_json E) f))"

definition query_semantic :: "('j, 'w) vm_env \<Rightarrow> semantic_query \<Rightarrow> ('j, 'w, 'j semantic_fact list) vm_op" where
  "query_semantic E q = on_world (ve_query_semantic E q)"

text \<open>\<open>&results[idx]\<close> for each index: out of range it panics.\<close>

definition facts_at :: "('j, 'w) vm_env \<Rightarrow> 'j semantic_fact list \<Rightarrow> nat list \<Rightarrow> ('j, 'w, 'j register_value list) vm_op" where
  "facts_at E results idxs =
     st_lift (ok_or Panicked (map_option (map (fact_reg E)) (fetch_all results idxs)))"

text \<open>The scores of the facts against a text, in the order of the facts.\<close>

definition score_facts :: "('j, 'w) vm_env \<Rightarrow> f32 list \<Rightarrow> 'j semantic_fact list \<Rightarrow> (nat \<times> f32) list" where
  "score_facts E query_vec results =
     map (\<lambda>(k, f). (k, ve_cosine E query_vec (ve_embed E (fact_text E f)))) (List.enumerate 0 results)"

definition vector_rank :: "('j, 'w) vm_env \<Rightarrow> f32 list \<Rightarrow> 'j semantic_fact list \<Rightarrow> (nat \<times> f32) list" where
  "vector_rank E query_vec results =
     search_vectors (ve_cosine E) query_vec
       \<lparr>vi_vectors = map (\<lambda>f. ve_embed E (fact_text E f)) results, vi_labels = []\<rparr> (length results)"

definition exec_load_graph :: "('j, 'w) vm_env \<Rightarrow> instruction \<Rightarrow> ('j, 'w, step_result) vm_op" where
  "exec_load_graph E i =
     st_bind (reg_read (in_reg_b i)) (\<lambda>v.
     st_bind (query_semantic E (sq_default\<lparr>sq_subjects := Some [reg_text E v]\<rparr>)) (\<lambda>results.
       write_advance (in_reg_a i) (RFacts (map (fact_reg E) results))))"

definition exec_traverse :: "('j, 'w) vm_env \<Rightarrow> instruction \<Rightarrow> ('j, 'w, step_result) vm_op" where
  "exec_traverse E i =
     st_bind (reg_read (in_reg_b i)) (\<lambda>v.
       let entity = reg_text E v in
       st_bind (query_semantic E (sq_default\<lparr>sq_subjects := Some [entity], sq_limit := 100\<rparr>)) (\<lambda>results.
       st_bind (facts_at E results (map fst (vector_rank E (ve_embed E entity) results))) (\<lambda>connected.
         write_advance (in_reg_a i) (RFacts connected))))"

definition exec_fact :: "('j, 'w) vm_env \<Rightarrow> instruction \<Rightarrow> ('j, 'w, step_result) vm_op" where
  "exec_fact E i =
     st_bind (reg_read (in_reg_a i)) (\<lambda>subj.
     st_bind (reg_read (in_reg_b i)) (\<lambda>pred.
     st_bind (reg_read (in_extra i)) (\<lambda>obj.
     st_bind (on_host ulid_new) (\<lambda>uid.
     st_bind (on_host now_utc) (\<lambda>now.
     st_bind (on_world (ve_store_fact E
       \<lparr>sf_id = uid, sf_subject = reg_text E subj, sf_predicate = reg_text E pred,
        sf_object = to_json (ve_json E) obj, sf_confidence = f64_one, sf_source_ids = [''vm''],
        sf_created_at = now, sf_ttl = None\<rparr>)) (\<lambda>_.
       advance))))))"

text \<open>\<open>SemanticQueryBuilder::from_json\<close>.\<close>

definition query_from_json :: "'j json_lib \<Rightarrow> string \<Rightarrow> semantic_query option" where
  "query_from_json J json =
     map_option (\<lambda>v.
       \<lparr>sq_subjects = Option.bind (js_get J v ''subjects'') (js_strings J),
        sq_predicates = Option.bind (js_get J v ''predicates'') (js_strings J),
        sq_min_confidence = unwrap_or 0 (Option.bind (js_get J v ''min_confidence'') (js_as_f64 J)),
        sq_limit = unat (unwrap_or 100 (Option.bind (js_get J v ''limit'') (js_as_u64 J)))\<rparr>)
       (js_parse J json)"

definition exec_query :: "('j, 'w) vm_env \<Rightarrow> instruction \<Rightarrow> ('j, 'w, step_result) vm_op" where
  "exec_query E i =
     st_bind (reg_read (in_reg_b i)) (\<lambda>v.
     st_bind (query_semantic E (unwrap_or sq_default (query_from_json (ve_json E) (reg_text E v)))) (\<lambda>results.
       write_advance (in_reg_a i) (RFacts (map (fact_reg E) results))))"

definition exec_relate :: "instruction \<Rightarrow> ('j, 'w, step_result) vm_op" where
  "exec_relate i =
     st_bind (reg_read (in_reg_a i)) (\<lambda>_.
     st_bind (reg_read (in_reg_b i)) (\<lambda>_.
     st_bind (reg_read (in_extra i)) (\<lambda>_. advance)))"

definition exec_infer :: "('j, 'w) vm_env \<Rightarrow> instruction \<Rightarrow> ('j, 'w, step_result) vm_op" where
  "exec_infer E i =
     st_bind (reg_read (in_reg_b i)) (\<lambda>subj.
     st_bind (reg_read (in_extra i)) (\<lambda>pred.
     st_bind (query_semantic E (sq_default\<lparr>sq_subjects := Some [reg_text E subj],
                                           sq_predicates := Some [reg_text E pred]\<rparr>)) (\<lambda>results.
       write_advance (in_reg_a i) (RFacts (map (fact_reg E) results)))))"

text \<open>The text of a register that holds a string, wrapped for the subjects of a query.\<close>

definition string_filter :: "('j, 'w) vm_env \<Rightarrow> 'j register_value \<Rightarrow> string list option" where
  "string_filter E v = map_option (\<lambda>s. [s]) (js_as_str (ve_json E) (to_json (ve_json E) v))"

definition exec_similar :: "('j, 'w) vm_env \<Rightarrow> instruction \<Rightarrow> ('j, 'w, step_result) vm_op" where
  "exec_similar E i =
     st_bind (reg_read (in_reg_b i)) (\<lambda>v.
     st_bind (reg_read (in_extra i)) (\<lambda>t.
       let threshold = ucast (unwrap_or 8 (as_int t)) :: u32 in
       st_bind (query_semantic E (sq_default\<lparr>sq_subjects := string_filter E v, sq_limit := 20\<rparr>)) (\<lambda>results.
         let ranked = vector_rank E (ve_embed E (reg_text E v)) results in
         st_bind (facts_at E results
             (map fst (filter (\<lambda>(k, score). f32_le (f32_tenths threshold) score) ranked))) (\<lambda>similar.
           write_advance (in_reg_a i) (RFacts similar)))))"

definition class_prototypes :: "(string \<times> string) list" where
  "class_prototypes =
     [(''url'', ''http://example.com/page''),
      (''document'', ''long form text document with multiple paragraphs of content''),
      (''email'', ''user@example.com subject line body''),
      (''numeric_id'', ''1234567890''),
      (''text'', ''general text content'')]"

text \<open>\<open>-1.0\<close> is \<open>0xBF800000\<close>.\<close>

definition exec_classify :: "('j, 'w) vm_env \<Rightarrow> instruction \<Rightarrow> ('j, 'w, step_result) vm_op" where
  "exec_classify E i =
     st_bind (reg_read (in_reg_b i)) (\<lambda>v.
       let content_str = unwrap_or [] (js_as_str (ve_json E) (to_json (ve_json E) v));
           vec = ve_embed E content_str;
           best = fold (\<lambda>(label, text) (b, score).
                    let sim = ve_cosine E vec (ve_embed E text)
                    in if f32_less score sim then (label, sim) else (b, score))
                  class_prototypes (''unknown'', 0xBF800000)
       in write_advance (in_reg_a i) (RString (fst best)))"

text \<open>\<open>0.35\<close> is \<open>0x3EB33333\<close>.\<close>

definition exec_reason :: "('j, 'w) vm_env \<Rightarrow> instruction \<Rightarrow> ('j, 'w, step_result) vm_op" where
  "exec_reason E i =
     st_bind (reg_read (in_reg_b i)) (\<lambda>v.
     st_bind (query_semantic E (sq_default\<lparr>sq_subjects := string_filter E v, sq_limit := 50\<rparr>)) (\<lambda>results.
       let scored = sort_scores (score_facts E (ve_embed E (reg_text E v)) results) in
       st_bind (facts_at E results
           (map fst (filter (\<lambda>(k, score). f32_le 0x3EB33333 score) scored))) (\<lambda>derived.
         write_advance (in_reg_a i) (RFacts derived))))"

text \<open>\<open>0.85\<close>, \<open>0.6\<close> and \<open>0.3\<close>.\<close>

definition correlation_label :: "f32 \<Rightarrow> string" where
  "correlation_label score =
     (if f32_less 0x3F59999A score then ''strong''
      else if f32_less 0x3F19999A score then ''moderate''
      else if f32_less 0x3E99999A score then ''weak''
      else ''none'')"

definition exec_correlate :: "('j, 'w) vm_env \<Rightarrow> instruction \<Rightarrow> ('j, 'w, step_result) vm_op" where
  "exec_correlate E i =
     (let J = ve_json E in
      st_bind (reg_read (in_reg_a i)) (\<lambda>va.
      st_bind (reg_read (in_reg_b i)) (\<lambda>vb.
        let a = to_json J va; b = to_json J vb;
            score = ve_cosine E (ve_embed E (unwrap_or [] (js_as_str J a)))
                                (ve_embed E (unwrap_or [] (js_as_str J b)));
            pair = js_object J [(''entity_a'', a), (''entity_b'', b),
                     (''correlation'', js_str J (correlation_label score)), (''score'', js_f32 J score)]
        in write_advance (in_reg_a i) (RString (js_show J pair)))))"

definition timeline_episode :: "('j, 'w) vm_env \<Rightarrow> 'j semantic_fact \<Rightarrow> f32 \<Rightarrow> 'j" where
  "timeline_episode E f score =
     (let J = ve_json E in
      js_object J
        [(''fact'', js_object J [(''subject'', js_str J (sf_subject f)),
                                 (''predicate'', js_str J (sf_predicate f)), (''object'', sf_object f)]),
         (''relevance'', js_f32 J score),
         (''timestamp'', js_str J (ve_show_time E (sf_created_at f)))])"

definition exec_timeline :: "('j, 'w) vm_env \<Rightarrow> instruction \<Rightarrow> ('j, 'w, step_result) vm_op" where
  "exec_timeline E i =
     (let J = ve_json E in
      st_bind (reg_read (in_reg_b i)) (\<lambda>v.
        let query_json = to_json J v;
            query_vec = ve_embed E (unwrap_or [] (js_as_str J query_json)) in
        st_bind (query_semantic E (sq_default\<lparr>sq_limit := 200\<rparr>)) (\<lambda>all_facts.
          let kept = filter (\<lambda>(k, s). f32_less 0x3E99999A s)
                       (take 50 (sort_scores (score_facts E query_vec all_facts))) in
          st_bind (st_lift (ok_or Panicked (fetch_all all_facts (map fst kept)))) (\<lambda>facts.
            let episodes = map (\<lambda>(f, s). timeline_episode E f s) (zip facts (map snd kept));
                timeline = js_object J [(''query'', query_json), (''status'', js_str J ''built''),
                  (''total'', js_u64 J (of_nat (length episodes))), (''episodes'', js_array J episodes)]
            in write_advance (in_reg_a i) (RString (js_show J timeline))))))"

section \<open>Search, memory and kernel instructions\<close>

definition exec_search :: "('j, 'w) vm_env \<Rightarrow> instruction \<Rightarrow> ('j, 'w, step_result) vm_op" where
  "exec_search E i =
     st_bind (reg_read (in_reg_a i)) (\<lambda>q.
     st_bind (reg_read (in_reg_b i)) (\<lambda>k.
     st_bind (query_semantic E (sq_default\<lparr>sq_subjects := string_filter E q,
                                 sq_predicates := string_filter E k, sq_limit := 50\<rparr>)) (\<lambda>results.
       write_advance (in_reg_a i) (RFacts (map (fact_reg E) results)))))"

definition exec_index :: "instruction \<Rightarrow> ('j, 'w, step_result) vm_op" where
  "exec_index i =
     st_bind (reg_read (in_reg_a i)) (\<lambda>_. st_bind (reg_read (in_reg_b i)) (\<lambda>_. advance))"

fun facts_slot :: "'j register_value \<Rightarrow> 'j register_value list" where
  "facts_slot (RFacts facts) = facts"
| "facts_slot (RString s) = [RString s]"
| "facts_slot _ = []"

definition exec_rank :: "('j, 'w) vm_env \<Rightarrow> instruction \<Rightarrow> ('j, 'w, step_result) vm_op" where
  "exec_rank E i =
     st_bind (reg_read (in_reg_b i)) (\<lambda>results_val c.
       let query_for_ranking = (case rf_read (in_reg_a i) (cx_regs c) of
                                  Inr v \<Rightarrow> reg_text E v | Inl _ \<Rightarrow> []);
           query_vec = ve_embed E query_for_ranking;
           scored = map (\<lambda>rv. let text = reg_text E rv in (text, ve_cosine E query_vec (ve_embed E text)))
                      (facts_slot results_val);
           ranked = rank_items scored (length scored)
       in write_advance (in_reg_a i) (RFacts (map (\<lambda>(s, _). RString s) ranked)) c)"

definition exec_recall :: "('j, 'w) vm_env \<Rightarrow> instruction \<Rightarrow> ('j, 'w, step_result) vm_op" where
  "exec_recall E i =
     st_bind (reg_read (in_reg_b i)) (\<lambda>v.
       case Option.bind (as_str v) (ve_parse_ulid E) of
         None \<Rightarrow> advance
       | Some uid \<Rightarrow>
           st_bind (on_world (ve_retrieve_ltm E
             (lq_default\<lparr>lq_ids := Some [ve_show_ulid E uid], lq_limit := 1\<rparr>))) (\<lambda>entries.
             write_advance (in_reg_a i)
               (case entries of
                  [] \<Rightarrow> RNil
                | e # _ \<Rightarrow> RString (unwrap_or [] (js_entry_string (ve_json E) e)))))"

definition exec_forget :: "instruction \<Rightarrow> ('j, 'w, step_result) vm_op" where
  "exec_forget i = st_bind (reg_read (in_reg_a i)) (\<lambda>_. advance)"

definition exec_store :: "('j, 'w) vm_env \<Rightarrow> instruction \<Rightarrow> ('j, 'w, step_result) vm_op" where
  "exec_store E i =
     st_bind (reg_read (in_reg_a i)) (\<lambda>v.
     st_bind (on_host ulid_new) (\<lambda>uid.
     st_bind (on_host now_utc) (\<lambda>now1.
     st_bind (on_host now_utc) (\<lambda>now2.
     st_bind (on_world (ve_store_ltm E
       \<lparr>lt_id = uid, lt_kind = ''vm_stored'', lt_content = to_json (ve_json E) v,
        lt_source_ids = [''vm::store''], lt_confidence = f64_one, lt_created_at = now1,
        lt_last_accessed_at = now2, lt_access_count = 0, lt_ttl = None\<rparr>)) (\<lambda>stored.
       write_advance (in_reg_a i) (RString (ve_show_ulid E stored)))))))"

definition exec_snapshot :: "('j, 'w) vm_env \<Rightarrow> instruction \<Rightarrow> ('j, 'w, step_result) vm_op" where
  "exec_snapshot E i =
     (let J = ve_json E; kind = in_reg_b i in
      st_bind (on_host now_utc) (\<lambda>now.
        write_advance (in_reg_a i) (RString (js_show J (js_object J
          [(''kind'', js_u64 J (ucast kind)),
           (''timestamp'', js_str J (ve_show_time E now)),
           (''type'', js_str J (if kind = 0 then ''graph'' else if kind = 1 then ''memory'' else ''full'')),
           (''status'', js_str J ''captured'')])))))"

definition exec_syscall :: "('j, 'w) vm_env \<Rightarrow> instruction \<Rightarrow> ('j, 'w, step_result) vm_op" where
  "exec_syscall E i =
     (case syscall_from_i32 (in_imm i) of
        None \<Rightarrow> st_err (Fault (''invalid syscall number: '' @ show_int (sint (in_imm i))))
      | Some num \<Rightarrow>
          st_bind (on_world (\<lambda>w. let (r, w') = ve_syscall E
              \<lparr>sa_number = num, sa_arg0 = ucast (in_reg_a i), sa_arg1 = ucast (in_reg_b i),
               sa_arg2 = ucast (in_extra i), sa_data = None\<rparr> w in (Inr r, w'))) (\<lambda>result.
            if \<not> sr_success result
            then st_err (Fault (unwrap_or ''syscall failed'' (sr_error result)))
            else advance))"

definition exec_emit :: "('j, 'w) vm_env \<Rightarrow> instruction \<Rightarrow> ('j, 'w, step_result) vm_op" where
  "exec_emit E i =
     st_bind (reg_read (in_reg_a i)) (\<lambda>v.
     st_bind (on_world (\<lambda>w. let (r, w') = ve_syscall E
         \<lparr>sa_number = SysEmitEvent, sa_arg0 = 0, sa_arg1 = 0, sa_arg2 = 0,
          sa_data = Some (to_json (ve_json E) v)\<rparr> w in (Inr r, w'))) (\<lambda>_. advance))"

section \<open>The executor\<close>

definition exec_opcode :: "('j, 'w) vm_env \<Rightarrow> instruction \<Rightarrow> ('j, 'w, step_result) vm_op" where
  "exec_opcode E i =
     (case in_opcode i of
        OpNop \<Rightarrow> advance
      | OpLoadImm \<Rightarrow> exec_load_imm i
      | OpLoadStr \<Rightarrow> exec_load_str E i
      | OpMov \<Rightarrow> exec_mov i
      | OpLoadEntity \<Rightarrow> exec_load_entity E i
      | OpLoadGraph \<Rightarrow> exec_load_graph E i
      | OpTraverse \<Rightarrow> exec_traverse E i
      | OpCompare \<Rightarrow> exec_compare E i
      | OpFact \<Rightarrow> exec_fact E i
      | OpQuery \<Rightarrow> exec_query E i
      | OpPush \<Rightarrow> exec_push i
      | OpPop \<Rightarrow> exec_pop i
      | OpDup \<Rightarrow> exec_dup
      | OpSwap \<Rightarrow> exec_swap
      | OpJmp \<Rightarrow> jump (in_imm i)
      | OpJz \<Rightarrow> exec_jz i
      | OpJnz \<Rightarrow> exec_jnz i
      | OpCall \<Rightarrow> exec_call i
      | OpRet \<Rightarrow> exec_ret
      | OpHalt \<Rightarrow> st_ok Halted
      | OpRelate \<Rightarrow> exec_relate i
      | OpInfer \<Rightarrow> exec_infer E i
      | OpSimilar \<Rightarrow> exec_similar E i
      | OpClassify \<Rightarrow> exec_classify E i
      | OpReason \<Rightarrow> exec_reason E i
      | OpCorrelate \<Rightarrow> exec_correlate E i
      | OpTimeline \<Rightarrow> exec_timeline E i
      | OpSearch \<Rightarrow> exec_search E i
      | OpIndex \<Rightarrow> exec_index i
      | OpRank \<Rightarrow> exec_rank E i
      | OpRecall \<Rightarrow> exec_recall E i
      | OpConsolidate \<Rightarrow> advance
      | OpForget \<Rightarrow> exec_forget i
      | OpStore \<Rightarrow> exec_store E i
      | OpSnapshot \<Rightarrow> exec_snapshot E i
      | OpSysCall \<Rightarrow> exec_syscall E i
      | OpEmit \<Rightarrow> exec_emit E i)"

definition fetch :: "('j, 'w) vm_ctx \<Rightarrow> instruction option" where
  "fetch c = nth_opt (pg_instructions (cx_program c)) (unat (cx_pc c))"

definition invalid_pc :: "u64 \<Rightarrow> vm_fault" where
  "invalid_pc pc = Fault (''invalid pc: '' @ show_nat (unat pc))"

definition vm_step :: "('j, 'w) vm_env \<Rightarrow> ('j, 'w, step_result) vm_op" where
  "vm_step E c =
     (case fetch c of
        None \<Rightarrow> (Inl (invalid_pc (cx_pc c)), c)
      | Some i \<Rightarrow> exec_opcode E i c)"

section \<open>What every instruction keeps\<close>

text \<open>
  No instruction touches the program, the cycle count or the running flag, changes the number
  of registers or the depth limit of the stack, or lets the stack grow over that limit.
\<close>

definition same_frame :: "('j, 'w) vm_ctx \<Rightarrow> ('j, 'w) vm_ctx \<Rightarrow> bool" where
  "same_frame c c' \<longleftrightarrow> cx_program c' = cx_program c \<and> cx_cycles c' = cx_cycles c \<and>
     cx_max_cycles c' = cx_max_cycles c \<and> cx_running c' = cx_running c \<and>
     length (cx_regs c') = length (cx_regs c) \<and>
     st_max_depth (cx_stack c') = st_max_depth (cx_stack c) \<and>
     (length (st_inner (cx_stack c)) \<le> st_max_depth (cx_stack c) \<longrightarrow>
      length (st_inner (cx_stack c')) \<le> st_max_depth (cx_stack c))"

definition framed :: "('j, 'w, 'a) vm_op \<Rightarrow> bool" where
  "framed m \<longleftrightarrow> (\<forall>c. same_frame c (snd (m c)))"

named_theorems framed_intros \<open>operations that keep the frame\<close>

lemma same_frame_refl [simp]: "same_frame c c"
  by (simp add: same_frame_def)

lemma same_frame_trans: "same_frame a b \<Longrightarrow> same_frame b c \<Longrightarrow> same_frame a c"
  by (simp add: same_frame_def)

lemma framedI: "(\<And>c. same_frame c (snd (m c))) \<Longrightarrow> framed m"
  by (simp add: framed_def)

lemma framed_bind [framed_intros]:
  assumes "framed m" and "\<And>a. framed (f a)"
  shows "framed (st_bind m f)"
proof (rule framedI)
  fix c
  show "same_frame c (snd (st_bind m f c))"
  proof (cases "m c")
    case (Pair r c')
    then have "same_frame c c'" using assms(1) by (metis framed_def snd_conv)
    with Pair assms(2) show ?thesis
      by (cases r) (auto simp: st_bind_def framed_def intro: same_frame_trans)
  qed
qed

lemma framed_basic [framed_intros]:
  "framed (st_ok a)" "framed (st_err e)" "framed (st_lift r)" "framed (reg_read n)"
  "framed (reg_write n v)" "framed (on_world w)" "framed (on_host h)"
  "framed get_pc" "framed (set_pc pc)" "framed advance" "framed exec_ret"
  by (auto intro!: framedI simp: same_frame_def reg_read_def reg_write_def rf_write_def on_world_def
      on_host_def get_pc_def set_pc_def advance_def exec_ret_def split_beta)

lemma framed_stack [framed_intros]:
  "framed (on_stack (stk_push v))" "framed (on_stack stk_pop)"
  "framed (on_stack stk_dup)" "framed (on_stack stk_swap)"
  by (auto intro!: framedI simp: same_frame_def on_stack_def stk_push_def stk_pop_def stk_dup_def
      stk_swap_def stk_peek_def st_bind_def Let_def split_beta)

lemma framed_write [framed_intros]: "framed (write_advance a v)"
  unfolding write_advance_def by (intro framed_intros)

lemma framed_jump [framed_intros]: "framed (jump imm)"
  unfolding jump_def by (intro framed_intros)

lemma framed_query [framed_intros]: "framed (query_semantic E q)" "framed (facts_at E r ks)"
  unfolding query_semantic_def facts_at_def by (intro framed_intros)+

lemma framed_if [framed_intros]: "framed m \<Longrightarrow> framed n \<Longrightarrow> framed (if b then m else n)"
  by simp

lemma framed_state: "(\<And>c. framed (m c)) \<Longrightarrow> framed (\<lambda>c. m c c)"
  by (simp add: framed_def)

lemma framed_opcode: "framed (exec_opcode E i)"
proof (cases "in_opcode i")
  case OpRank
  have "framed (exec_rank E i)"
    unfolding exec_rank_def
    by (rule framed_bind [OF framed_basic(4)], rule framedI)
      (simp add: Let_def framed_write [unfolded framed_def, rule_format])
  with OpRank show ?thesis by (simp add: exec_opcode_def)
next
  case OpLoadStr
  have "framed (exec_load_str E i)"
    unfolding exec_load_str_def
    by (rule framedI) (simp add: Let_def framed_write [unfolded framed_def, rule_format])
  with OpLoadStr show ?thesis by (simp add: exec_opcode_def)
next
  case OpRecall
  have "framed (exec_recall E i)"
    unfolding exec_recall_def by (intro framed_intros) (simp split: option.split, intro conjI impI allI framed_intros)
  with OpRecall show ?thesis by (simp add: exec_opcode_def)
next
  case OpSysCall
  have "framed (exec_syscall E i)"
    unfolding exec_syscall_def by (simp split: option.split, intro conjI impI allI framed_intros)
  with OpSysCall show ?thesis by (simp add: exec_opcode_def)
qed (simp_all add: exec_opcode_def exec_load_imm_def exec_mov_def exec_load_entity_def
    exec_load_graph_def exec_traverse_def exec_compare_def exec_fact_def exec_query_def exec_push_def
    exec_pop_def exec_dup_def exec_swap_def exec_jz_def exec_jnz_def exec_call_def exec_relate_def
    exec_infer_def exec_similar_def exec_classify_def exec_reason_def exec_correlate_def
    exec_timeline_def exec_search_def exec_index_def exec_forget_def exec_store_def exec_snapshot_def
    exec_emit_def Let_def framed_intros)

lemma framed_step: "framed (vm_step E)"
  by (rule framedI) (simp add: vm_step_def framed_opcode [unfolded framed_def, rule_format] split: option.split)

section \<open>The execution loop\<close>

definition max_cycles_exceeded :: vm_fault where
  "max_cycles_exceeded = Fault ''execution exceeded max cycles''"

definition count_cycle :: "('j, 'w) vm_ctx \<Rightarrow> ('j, 'w) vm_ctx" where
  "count_cycle c = c\<lparr>cx_cycles := cx_cycles c + 1\<rparr>"

lemma cycle_measure:
  assumes "vm_step E c = (r, c1)" and "cx_cycles c < cx_max_cycles c"
  shows "unat (cx_max_cycles c1) - unat (cx_cycles c1 + 1) < unat (cx_max_cycles c) - unat (cx_cycles c)"
    and "unat (cx_cycles c1 + 1) = Suc (unat (cx_cycles c))"
    and "cx_max_cycles c1 = cx_max_cycles c" "cx_program c1 = cx_program c" "cx_running c1 = cx_running c"
proof -
  have "same_frame c (snd (vm_step E c))" by (rule framed_step [unfolded framed_def, rule_format])
  then have s: "cx_max_cycles c1 = cx_max_cycles c" "cx_cycles c1 = cx_cycles c"
    "cx_program c1 = cx_program c" "cx_running c1 = cx_running c"
    by (simp_all add: assms(1) same_frame_def)
  have "cx_cycles c \<noteq> - 1"
    using assms(2) word_order.extremum [of "cx_max_cycles c"] by (auto simp: word_less_nat_alt word_le_nat_alt)
  then have u: "unat (cx_cycles c + 1) = Suc (unat (cx_cycles c))"
    by (rule unat_inc)
  with s assms(2) show "unat (cx_max_cycles c1) - unat (cx_cycles c1 + 1) < unat (cx_max_cycles c) - unat (cx_cycles c)"
    by (simp add: word_less_nat_alt)
  from u s show "unat (cx_cycles c1 + 1) = Suc (unat (cx_cycles c))"
    and "cx_max_cycles c1 = cx_max_cycles c" "cx_program c1 = cx_program c" "cx_running c1 = cx_running c"
    by simp_all
qed

text \<open>
  The \<open>match\<close> on the result of a step: the value that the loop returns, or \<open>None\<close> to go on.
\<close>

definition apply_result :: "step_result \<Rightarrow> ('j, 'w) vm_ctx \<Rightarrow> (vm_fault, unit) result option \<times> ('j, 'w) vm_ctx" where
  "apply_result result c =
     (case result of
        Halted \<Rightarrow> (Some (Inr ()), c\<lparr>cx_running := False\<rparr>)
      | CallTo addr \<Rightarrow> (None, c\<lparr>cx_return_stack := cx_return_stack c @ [cx_pc c], cx_pc := addr\<rparr>)
      | ReturnTo addr \<Rightarrow> (None, c\<lparr>cx_pc := addr\<rparr>)
      | StepError msg \<Rightarrow> (Some (Inl (Fault msg)), c\<lparr>cx_running := False\<rparr>)
      | Continue \<Rightarrow> (None, c))"

lemma apply_result_frame:
  "cx_cycles (snd (apply_result s c)) = cx_cycles c"
  "cx_max_cycles (snd (apply_result s c)) = cx_max_cycles c"
  "cx_program (snd (apply_result s c)) = cx_program c"
  "fst (apply_result s c) = None \<Longrightarrow> cx_running (snd (apply_result s c)) = cx_running c"
  by (cases s; simp add: apply_result_def)+

lemma loop_measure:
  assumes "vm_step E c = (Inr s, c1)" and "cx_cycles c < cx_max_cycles c"
    and "apply_result s (count_cycle c1) = (x, c2)"
  shows "unat (cx_max_cycles c2) - unat (cx_cycles c2) < unat (cx_max_cycles c) - unat (cx_cycles c)"
    and "unat (cx_cycles c2) = Suc (unat (cx_cycles c))"
    and "cx_max_cycles c2 = cx_max_cycles c" "cx_program c2 = cx_program c"
    and "x = None \<Longrightarrow> cx_running c2 = cx_running c"
  using cycle_measure [OF assms(1,2)] apply_result_frame [of s "count_cycle c1"] assms(3)
  by (simp_all add: count_cycle_def)

function exec_loop :: "('j, 'w) vm_env \<Rightarrow> ('j, 'w, unit) vm_op" where
  "exec_loop E c =
     (if cx_running c \<and> cx_cycles c < cx_max_cycles c then
        (case vm_step E c of
           (Inl e, c1) \<Rightarrow> (Inl e, c1)
         | (Inr result, c1) \<Rightarrow>
             (case apply_result result (count_cycle c1) of
                (Some r, c2) \<Rightarrow> (r, c2)
              | (None, c2) \<Rightarrow> exec_loop E c2))
      else if cx_cycles c \<ge> cx_max_cycles c then (Inl max_cycles_exceeded, c)
      else (Inr (), c))"
  by pat_completeness auto
termination
proof (relation "measure (\<lambda>(E, c). unat (cx_max_cycles c) - unat (cx_cycles c))")
  fix E :: "('j, 'w) vm_env" and c s c1 x c2 and sr and xr :: "(vm_fault, unit) result option"
  assume run: "cx_running c \<and> cx_cycles c < cx_max_cycles c"
    and st: "(s, c1) = vm_step E c" "s = Inr sr"
    and ap: "(xr, c2) = apply_result sr (count_cycle c1)"
  have "vm_step E c = (Inr sr, c1)" using st by simp
  from loop_measure(1) [OF this _ ap [symmetric]] run
  show "((E, c2), E, c) \<in> measure (\<lambda>(E, c). unat (cx_max_cycles c) - unat (cx_cycles c))" by simp
qed simp

declare exec_loop.simps [simp del]

definition execute :: "('j, 'w) vm_env \<Rightarrow> ('j, 'w, unit) vm_op" where
  "execute E c = exec_loop E (c\<lparr>cx_running := True, cx_cycles := 0\<rparr>)"

record 'j vm_result =
  vr_cycles :: u64
  vr_registers :: "'j register_file"
  vr_stack :: "'j inference_stack"

definition vm_result_of :: "('j, 'w) vm_ctx \<Rightarrow> 'j vm_result" where
  "vm_result_of c = \<lparr>vr_cycles = cx_cycles c, vr_registers = cx_regs c, vr_stack = cx_stack c\<rparr>"

text \<open>The VM's own state is the environment; a run also leaves the host and the world.\<close>

definition vm_run ::
  "('j, 'w) vm_env \<Rightarrow> 'j program \<Rightarrow> host \<Rightarrow> 'w \<Rightarrow> (vm_fault, 'j vm_result) result \<times> host \<times> 'w" where
  "vm_run E p h w =
     (let (r, c) = execute E (cx_new p h w)
      in (map_sum id (\<lambda>_. vm_result_of c) r, cx_host c, cx_world c))"

fun write_args :: "(u8 \<times> 'j register_value) list \<Rightarrow> ('j, 'w, unit) vm_op" where
  "write_args [] = st_ok ()"
| "write_args ((r, v) # args) = st_bind (reg_write r v) (\<lambda>_. write_args args)"

definition vm_run_with_args ::
  "('j, 'w) vm_env \<Rightarrow> 'j program \<Rightarrow> (u8 \<times> 'j register_value) list \<Rightarrow> host \<Rightarrow> 'w
   \<Rightarrow> (vm_fault, 'j vm_result) result \<times> host \<times> 'w" where
  "vm_run_with_args E p args h w =
     (let (r, c) = st_bind (write_args args) (\<lambda>_. execute E) (cx_new p h w)
      in (map_sum id (\<lambda>_. vm_result_of c) r, cx_host c, cx_world c))"

section \<open>Termination within the budget\<close>

section \<open>Termination within the budget\<close>

definition loop_frame :: "('j, 'w) vm_ctx \<Rightarrow> ('j, 'w) vm_ctx \<Rightarrow> bool" where
  "loop_frame c c' \<longleftrightarrow> cx_program c' = cx_program c \<and> cx_max_cycles c' = cx_max_cycles c \<and>
     length (cx_regs c') = length (cx_regs c) \<and>
     st_max_depth (cx_stack c') = st_max_depth (cx_stack c) \<and>
     (length (st_inner (cx_stack c)) \<le> st_max_depth (cx_stack c) \<longrightarrow>
      length (st_inner (cx_stack c')) \<le> st_max_depth (cx_stack c))"

lemma loop_frame_refl [simp]: "loop_frame c c"
  by (simp add: loop_frame_def)

lemma loop_frame_trans: "loop_frame a b \<Longrightarrow> loop_frame b c \<Longrightarrow> loop_frame a c"
  by (simp add: loop_frame_def)

lemma step_frame: "vm_step E c = (r, c1) \<Longrightarrow> same_frame c c1"
  using framed_step [unfolded framed_def, rule_format, of c E] by simp

lemma step_loop_frame: "vm_step E c = (r, c1) \<Longrightarrow> loop_frame c c1"
  by (drule step_frame) (simp add: same_frame_def loop_frame_def)

lemma apply_loop_frame: "apply_result s (count_cycle c1) = (x, c2) \<Longrightarrow> loop_frame c1 c2"
  by (cases s) (auto simp: apply_result_def count_cycle_def loop_frame_def)

text \<open>Only \<open>Halt\<close> answers \<open>Halted\<close>, and nothing answers \<open>StepError\<close>.\<close>

definition never_halts :: "('j, 'w, step_result) vm_op \<Rightarrow> bool" where
  "never_halts m \<longleftrightarrow> (\<forall>c r. fst (m c) = Inr r \<longrightarrow> r \<noteq> Halted \<and> (\<forall>msg. r \<noteq> StepError msg))"

named_theorems halts_intros \<open>operations that do not halt the machine\<close>

lemma never_halts_bind [halts_intros]: "(\<And>a. never_halts (f a)) \<Longrightarrow> never_halts (st_bind m f)"
  by (auto simp: never_halts_def st_bind_def split: prod.splits sum.splits)

lemma never_halts_if [halts_intros]: "never_halts m \<Longrightarrow> never_halts n \<Longrightarrow> never_halts (if b then m else n)"
  by simp

lemma never_halts_basic [halts_intros]:
  "never_halts advance" "never_halts (st_err e)" "never_halts (jump imm)" "never_halts (write_advance a v)"
  "never_halts exec_ret" "never_halts (exec_call i)"
  by (auto simp: never_halts_def advance_def jump_def write_advance_def exec_ret_def exec_call_def
      st_bind_def get_pc_def set_pc_def split: prod.splits sum.splits)

lemma never_halts_opcode: "in_opcode i \<noteq> OpHalt \<Longrightarrow> never_halts (exec_opcode E i)"
proof (cases "in_opcode i")
  case OpRank
  then show ?thesis
    unfolding exec_opcode_def exec_rank_def
    by (simp add: Let_def, intro never_halts_bind)
      (simp add: never_halts_def never_halts_basic(4) [unfolded never_halts_def])
next
  case OpLoadStr
  then show ?thesis
    by (simp add: exec_opcode_def exec_load_str_def never_halts_def Let_def
        never_halts_basic(4) [unfolded never_halts_def])
next
  case OpRecall
  then show ?thesis
    unfolding exec_opcode_def exec_recall_def
    by (simp, intro halts_intros) (simp split: option.split, intro conjI impI allI halts_intros)
next
  case OpSysCall
  then show ?thesis
    unfolding exec_opcode_def exec_syscall_def
    by (simp split: option.split) (intro conjI impI allI halts_intros)
qed (simp_all add: exec_opcode_def exec_load_imm_def exec_mov_def exec_load_entity_def
    exec_load_graph_def exec_traverse_def exec_compare_def exec_fact_def exec_query_def exec_push_def
    exec_pop_def exec_dup_def exec_swap_def exec_jz_def exec_jnz_def exec_relate_def
    exec_infer_def exec_similar_def exec_classify_def exec_reason_def exec_correlate_def
    exec_timeline_def exec_search_def exec_index_def exec_forget_def exec_store_def exec_snapshot_def
    exec_emit_def Let_def halts_intros)

lemma halted_step:
  assumes "vm_step E c = (Inr Halted, c1)"
  shows "map_option in_opcode (fetch c) = Some OpHalt \<and> c1 = c"
proof (cases "fetch c")
  case None
  with assms show ?thesis by (simp add: vm_step_def)
next
  case (Some i)
  have "in_opcode i = OpHalt"
  proof (rule ccontr)
    assume "in_opcode i \<noteq> OpHalt"
    from never_halts_opcode [OF this, of E] have "fst (exec_opcode E i c) \<noteq> Inr Halted"
      unfolding never_halts_def by blast
    with assms Some show False by (simp add: vm_step_def)
  qed
  with assms Some show ?thesis by (simp add: vm_step_def exec_opcode_def)
qed

lemma no_step_error: "vm_step E c \<noteq> (Inr (StepError msg), c1)"
proof
  assume st: "vm_step E c = (Inr (StepError msg), c1)"
  then obtain i where i: "fetch c = Some i" by (cases "fetch c") (auto simp: vm_step_def)
  show False
  proof (cases "in_opcode i = OpHalt")
    case True
    with st i show False by (simp add: vm_step_def exec_opcode_def)
  next
    case False
    from never_halts_opcode [OF this, of E] have "fst (exec_opcode E i c) \<noteq> Inr (StepError msg)"
      unfolding never_halts_def by blast
    with st i show False by (simp add: vm_step_def)
  qed
qed

lemma exec_loop_spec:
  assumes "exec_loop E c = (r, c')" and "cx_running c" and "cx_cycles c \<le> cx_max_cycles c"
  shows "cx_cycles c' \<le> cx_max_cycles c \<and> loop_frame c c' \<and>
    (case r of
       Inr _ \<Rightarrow> map_option in_opcode (fetch c') = Some OpHalt
     | Inl e \<Rightarrow> e = max_cycles_exceeded \<and> cx_cycles c' = cx_max_cycles c \<or>
                (\<exists>c1. vm_step E c1 = (Inl e, c')))"
  using assms
proof (induction E c arbitrary: r c' rule: exec_loop.induct)
  case (1 E c)
  show ?case
  proof (cases "cx_cycles c < cx_max_cycles c")
    case False
    with 1(2-4) show ?thesis by (auto simp: exec_loop.simps [of E c])
  next
    case lt: True
    obtain s c1 where st: "vm_step E c = (s, c1)" by force
    have lf1: "loop_frame c c1" and sf: "same_frame c c1"
      using step_loop_frame [OF st] step_frame [OF st] by blast+
    show ?thesis
    proof (cases s)
      case (Inl e)
      have "r = Inl e" "c' = c1" using 1(2,3) lt st Inl by (simp_all add: exec_loop.simps [of E c])
      then show ?thesis using lf1 sf lt st Inl by (auto simp: same_frame_def)
    next
      case (Inr sr)
      obtain x c2 where ap: "apply_result sr (count_cycle c1) = (x, c2)" by force
      note lm = loop_measure [OF st [unfolded Inr] lt ap]
      have lf2: "loop_frame c c2" using apply_loop_frame [OF ap] lf1 loop_frame_trans by blast
      have le2: "cx_cycles c2 \<le> cx_max_cycles c" using lm(2) lt by (simp add: word_le_nat_alt word_less_nat_alt)
      show ?thesis
      proof (cases x)
        case (Some y)
        have rc: "r = y" "c' = c2" using 1(2,3) lt st Inr ap Some by (simp_all add: exec_loop.simps [of E c])
        show ?thesis
        proof (cases sr)
          case Halted
          with halted_step st Inr have h: "map_option in_opcode (fetch c) = Some OpHalt" "c1 = c" by blast+
          have "c2 = (count_cycle c1)\<lparr>cx_running := False\<rparr>" "y = Inr ()"
            using ap Halted Some by (simp_all add: apply_result_def)
          then show ?thesis using rc h lf2 le2 by (simp add: fetch_def count_cycle_def)
        next
          case (StepError msg)
          with st Inr no_step_error show ?thesis by metis
        qed (use ap Some in \<open>simp_all add: apply_result_def\<close>)
      next
        case None
        have rec: "exec_loop E c2 = (r, c')" using 1(2,3) lt st Inr ap None by (simp add: exec_loop.simps [of E c])
        have "cx_running c2" using lm(5) None 1(3) by simp
        from 1(1) [OF _ st [symmetric] Inr ap [symmetric] None rec this] lt 1(3) le2 lm(3)
        have "cx_cycles c' \<le> cx_max_cycles c" "loop_frame c2 c'"
          "case r of
             Inr _ \<Rightarrow> map_option in_opcode (fetch c') = Some OpHalt
           | Inl e \<Rightarrow> e = max_cycles_exceeded \<and> cx_cycles c' = cx_max_cycles c \<or>
                (\<exists>c1. vm_step E c1 = (Inl e, c'))" by (simp, simp, cases r, simp_all)
        then show ?thesis using loop_frame_trans [OF lf2] by simp
      qed
    qed
  qed
qed

text \<open>
  C15. Every run ends within its budget: whatever the program and the environment do, the
  executor returns after at most one million cycles. It leaves the program as it was, 32
  registers and at most 1024 operands on the stack. It succeeds only on a \<open>Halt\<close> instruction,
  and fails only with the error of the last instruction or for the exhausted budget.
\<close>

theorem run_ends_within_budget:
  "case execute E (cx_new p h w) of (r, c) \<Rightarrow>
     cx_cycles c \<le> 1000000 \<and> cx_program c = p \<and> length (cx_regs c) = 32 \<and>
     length (st_inner (cx_stack c)) \<le> 1024 \<and>
     (case r of
        Inr _ \<Rightarrow> map_option in_opcode (fetch c) = Some OpHalt
      | Inl e \<Rightarrow> e = max_cycles_exceeded \<and> cx_cycles c = 1000000 \<or>
                 (\<exists>c1. vm_step E c1 = (Inl e, c)))"
proof -
  define c0 where "c0 = (cx_new p h w)\<lparr>cx_running := True, cx_cycles := 0\<rparr>"
  have c0: "cx_max_cycles c0 = 1000000" "cx_program c0 = p" "length (cx_regs c0) = 32" "cx_running c0"
    "st_max_depth (cx_stack c0) = 1024" "st_inner (cx_stack c0) = []" "cx_cycles c0 \<le> cx_max_cycles c0"
    by (simp_all add: c0_def cx_new_def rf_new_def stk_default_def stk_new_def)
  obtain r c where run: "exec_loop E c0 = (r, c)" by force
  have "execute E (cx_new p h w) = (r, c)" by (simp add: execute_def c0_def [symmetric] run)
  with exec_loop_spec [OF run c0(4,7)] c0 show ?thesis
    by (cases r) (simp_all add: loop_frame_def)
qed

section \<open>Calls\<close>

text \<open>
  A call whose routine starts with \<open>Ret\<close> never gets past itself: \<open>Call\<close> pushes its own
  address, because it returns before the program counter moves on, so \<open>Ret\<close> goes back to the
  same \<open>Call\<close>. Whatever follows, such a program uses up its whole budget and fails, for every
  budget, environment and state of the machine.
\<close>

theorem call_returns_to_itself:
  assumes "fetch c = Some i" and "in_opcode i = OpCall"
    and "nth_opt (pg_instructions (cx_program c)) (unat (jump_target (cx_pc c) (in_imm i))) = Some j"
    and "in_opcode j = OpRet"
  shows "fst (execute E c) = Inl max_cycles_exceeded"
proof -
  have loop: "fst (exec_loop E c) = Inl max_cycles_exceeded"
    if "cx_running c" "fetch c = Some i"
      "nth_opt (pg_instructions (cx_program c)) (unat (jump_target (cx_pc c) (in_imm i))) = Some j"
    for c :: "('a, 'b) vm_ctx"
    using that
  proof (induction "unat (cx_max_cycles c) - unat (cx_cycles c)" arbitrary: c rule: less_induct)
    case less
    show ?case
    proof (cases "cx_cycles c < cx_max_cycles c")
      case False
      then show ?thesis by (simp add: exec_loop.simps [of E c])
    next
      case lt: True
      let ?t = "jump_target (cx_pc c) (in_imm i)"
      define c1 where "c1 = (count_cycle c)\<lparr>cx_return_stack := cx_return_stack c @ [cx_pc c], cx_pc := ?t\<rparr>"
      have s1: "vm_step E c = (Inr (CallTo ?t), c)"
        using less.prems assms(2)
        by (simp add: vm_step_def exec_opcode_def exec_call_def st_bind_def get_pc_def)
      have a1: "apply_result (CallTo ?t) (count_cycle c) = (None, c1)"
        by (simp add: apply_result_def c1_def count_cycle_def)
      have one: "exec_loop E c = exec_loop E c1"
        using lt less.prems(1) s1 a1 by (simp add: exec_loop.simps [of E c])
      note m1 = loop_measure [OF s1 lt a1]
      show ?thesis
      proof (cases "cx_cycles c1 < cx_max_cycles c1")
        case False
        then show ?thesis unfolding one by (simp add: exec_loop.simps [of E c1])
      next
        case lt1: True
        define c2 where "c2 = count_cycle (count_cycle c)"
        have f1: "fetch c1 = Some j" using less.prems(3) by (simp add: fetch_def c1_def count_cycle_def)
        have s2: "vm_step E c1 = (Inr (ReturnTo (cx_pc c)), c1\<lparr>cx_return_stack := cx_return_stack c\<rparr>)"
          using f1 assms(4) by (simp add: vm_step_def exec_opcode_def exec_ret_def c1_def)
        have a2: "apply_result (ReturnTo (cx_pc c)) (count_cycle (c1\<lparr>cx_return_stack := cx_return_stack c\<rparr>)) = (None, c2)"
          by (simp add: apply_result_def c1_def c2_def count_cycle_def)
        note m2 = loop_measure [OF s2 lt1 a2]
        have two: "exec_loop E c1 = exec_loop E c2"
          using lt1 less.prems(1) s2 a2 m1(5) by (simp add: exec_loop.simps [of E c1])
        have "fst (exec_loop E c2) = Inl max_cycles_exceeded"
          using m1(1) m2(1) less.prems
          by (intro less.hyps) (simp_all add: c2_def count_cycle_def fetch_def)
        then show ?thesis unfolding one two .
      qed
    qed
  qed
  show ?thesis unfolding execute_def by (rule loop) (use assms in \<open>simp_all add: fetch_def\<close>)
qed

definition call_program :: "unit program" where
  "call_program = pg_push ins_ret (pg_push ins_halt (pg_push (ins_call 2) (pg_new ''call'')))"

lemma call_program_code:
  "pg_instructions call_program = [ins_call 2, ins_halt, ins_ret]" "pg_entry_point call_program = 0"
  by (simp_all add: call_program_def pg_push_def pg_new_def)

theorem call_returns_to_itself_witness:
  "\<forall>(E :: (unit, unit) vm_env) h w. fst (execute E (cx_new call_program h w)) = Inl max_cycles_exceeded"
proof (intro allI)
  fix E :: "(unit, unit) vm_env" and h w
  let ?c = "cx_new call_program h w :: (unit, unit) vm_ctx"
  have f: "fetch ?c = Some (ins_call 2)"
    by (simp add: fetch_def cx_new_def call_program_code nth_opt_def)
  have t: "jump_target (cx_pc ?c) (in_imm (ins_call 2)) = 2"
    by (simp add: cx_new_def call_program_code builder_simps jump_target_def)
  have r: "nth_opt (pg_instructions (cx_program ?c)) (unat (jump_target (cx_pc ?c) (in_imm (ins_call 2)))) = Some ins_ret"
    unfolding t by (simp add: cx_new_def call_program_code nth_opt_def)
  show "fst (execute E ?c) = Inl max_cycles_exceeded"
    by (rule call_returns_to_itself [OF f _ r]) (simp_all add: builder_simps)
qed

section \<open>Jumps\<close>

lemma jump_outside:
  fixes n p i r :: int
  assumes "n \<le> 2 ^ 31" "0 \<le> p" "p < 2 ^ 31" "- (2 ^ 31) \<le> i" "i < 2 ^ 31"
    and "r = (if 0 \<le> p + i \<and> p + i < 2 ^ 31 then p + i
              else if p + i < 0 then 2 ^ 64 + (p + i) else 2 ^ 64 - 2 ^ 32 + (p + i))"
    and "\<not> (0 \<le> p + i \<and> p + i < n)"
  shows "n \<le> r"
  using assms by (auto split: if_splits)

lemma unat_jump_target:
  assumes "unat pc < 2 ^ 31"
  shows "int (unat (jump_target pc imm)) =
    (let t = int (unat pc) + sint imm in
     if 0 \<le> t \<and> t < 2 ^ 31 then t else if t < 0 then 2 ^ 64 + t else 2 ^ 64 - 2 ^ 32 + t)"
proof -
  have "int (unat pc) < int (2 ^ 31)" using assms by (simp only: of_nat_less_iff)
  then have pc: "uint pc < 2 ^ 31" "0 \<le> uint pc" by simp_all
  have imm: "- (2 ^ 31) \<le> sint imm" "sint imm < 2 ^ 31"
    using sint_range_size [of imm] by (simp_all add: word_size)
  let ?w = "ucast pc + imm :: i32"
  have imm_eq: "word_of_int (sint imm) = imm" by simp
  have "word_of_int (uint pc + sint imm) = word_of_int (uint pc) + (word_of_int (sint imm) :: i32)"
    by (rule of_int_add)
  then have "?w = word_of_int (uint pc + sint imm)" by (simp only: imm_eq ucast_eq)
  then have "sint ?w = sint (word_of_int (uint pc + sint imm) :: i32)" by (rule arg_cong)
  also have "\<dots> = signed_take_bit 31 (uint pc + sint imm)"
    unfolding sint_sbintrunc' by simp
  finally have s: "sint ?w = signed_take_bit 31 (uint pc + sint imm)" .
  define v where "v = uint pc + sint imm"
  have v: "- (2 ^ 31) \<le> v" "v < 2 ^ 32" proof -
    have "uint pc + sint imm < 2 ^ 31 + 2 ^ 31" using pc(1) imm(2) by (rule add_strict_mono)
    then show "v < 2 ^ 32" by (simp add: v_def)
    show "- (2 ^ 31) \<le> v" using pc imm unfolding v_def by linarith
  qed
  have cut: "signed_take_bit 31 v = (if v < 2 ^ 31 then v else v - 2 ^ 32)"
  proof (cases "v < 2 ^ 31")
    case True
    then have "(v + 2 ^ 31) mod 2 ^ 32 = v + 2 ^ 31" using v by (intro mod_pos_pos_trivial) simp_all
    with True show ?thesis by (simp add: signed_take_bit_eq_take_bit_shift take_bit_eq_mod)
  next
    case False
    have "(v + 2 ^ 31) mod 2 ^ 32 = (v + 2 ^ 31 - 2 ^ 32) mod 2 ^ 32"
      by (rule minus_mod_self2 [symmetric])
    also have "\<dots> = v + 2 ^ 31 - 2 ^ 32" using v False by (intro mod_pos_pos_trivial) simp_all
    finally show ?thesis using False by (simp add: signed_take_bit_eq_take_bit_shift take_bit_eq_mod)
  qed
  have ext: "k mod 2 ^ 64 = (if 0 \<le> k then k else 2 ^ 64 + k)"
    if "- (2 ^ 31) \<le> k" "k < 2 ^ 31" for k :: int
  proof (cases "0 \<le> k")
    case True
    with that show ?thesis by (simp add: mod_pos_pos_trivial)
  next
    case False
    have "k mod 2 ^ 64 = (k + 2 ^ 64) mod 2 ^ 64" by simp
    also have "\<dots> = k + 2 ^ 64" using that False by (intro mod_pos_pos_trivial) simp_all
    finally show ?thesis using False by simp
  qed
  have "uint (jump_target pc imm) = sint ?w mod 2 ^ 64"
    unfolding jump_target_def scast_eq uint_word_of_int by simp
  also have "sint ?w = (if v < 2 ^ 31 then v else v - 2 ^ 32)" using s cut by (simp add: v_def)
  finally have "uint (jump_target pc imm) = (if v < 2 ^ 31 then v else v - 2 ^ 32) mod 2 ^ 64" .
  then have "int (unat (jump_target pc imm)) = (if v < 2 ^ 31 then v else v - 2 ^ 32) mod 2 ^ 64"
    by simp
  moreover have "int (unat pc) + sint imm = v" by (simp add: v_def)
  ultimately show ?thesis
    using v ext [of "if v < 2 ^ 31 then v else v - 2 ^ 32"] by (auto simp: Let_def)
qed

text \<open>
  Where a jump lands: in a program of at most \<open>2 ^ 31\<close> instructions, a jump (or call)
  by \<open>imm\<close> from the instruction at \<open>pc\<close> reaches the instruction at \<open>pc + imm\<close> when the program
  has one, and otherwise, before the start or past the end, the next step fails with an
  invalid program counter and changes nothing; no wrapped address ever falls back into the
  program.
\<close>

theorem jump_lands_or_faults:
  assumes "length (pg_instructions (cx_program c)) \<le> 2 ^ 31"
    and "unat (cx_pc c) < length (pg_instructions (cx_program c))"
  shows "let t = int (unat (cx_pc c)) + sint imm; c' = snd (jump imm c) in
     (if 0 \<le> t \<and> t < int (length (pg_instructions (cx_program c)))
      then fetch c' = Some (pg_instructions (cx_program c) ! nat t)
      else vm_step E c' = (Inl (invalid_pc (cx_pc c')), c'))"
proof -
  let ?t = "int (unat (cx_pc c)) + sint imm" and ?n = "length (pg_instructions (cx_program c))"
  have c': "cx_pc (snd (jump imm c)) = jump_target (cx_pc c) imm"
    "cx_program (snd (jump imm c)) = cx_program c"
    by (simp_all add: jump_def st_bind_def get_pc_def set_pc_def)
  have pc: "unat (cx_pc c) < 2 ^ 31" using assms by simp
  have low: "- (2 ^ 31) \<le> sint imm" "sint imm < 2 ^ 31"
    using sint_range_size [of imm] by (simp_all add: word_size)
  note t = unat_jump_target [OF pc, of imm, unfolded Let_def]
  show ?thesis
  proof (cases "0 \<le> ?t \<and> ?t < int ?n")
    case True
    then have "int (unat (jump_target (cx_pc c) imm)) = ?t" using t assms(1) by simp
    then have "unat (jump_target (cx_pc c) imm) = nat ?t" by linarith
    with True show ?thesis by (simp add: Let_def fetch_def c' nth_opt_def nat_less_iff)
  next
    case False
    then have "int ?n \<le> int (unat (jump_target (cx_pc c) imm))"
    proof (intro jump_outside [OF _ _ _ low t] False)
      show "int (unat (cx_pc c)) < 2 ^ 31"
        using pc by (metis of_nat_less_iff of_nat_numeral of_nat_power)
    qed (use assms(1) in simp_all)
    then have "\<not> unat (jump_target (cx_pc c) imm) < ?n" by (simp only: of_nat_le_iff not_less)
    then have "fetch (snd (jump imm c)) = None" by (simp add: fetch_def c' nth_opt_def)
    with False show ?thesis by (simp add: Let_def vm_step_def)
  qed
qed

theorem jump_lands_or_faults_witness:
  "\<forall>(E :: (unit, unit) vm_env) h w.
     fetch (snd (jump 1 (cx_new call_program h w :: (unit, unit) vm_ctx))) = Some ins_halt \<and>
     vm_step E (snd (jump (- 1) (cx_new call_program h w))) =
       (Inl (invalid_pc (- 1)), snd (jump (- 1) (cx_new call_program h w)))"
proof (intro allI conjI)
  fix E :: "(unit, unit) vm_env" and h w
  let ?c = "cx_new call_program h w :: (unit, unit) vm_ctx"
  have c: "pg_instructions (cx_program ?c) = [ins_call 2, ins_halt, ins_ret]" "cx_pc ?c = 0"
    by (simp_all add: cx_new_def call_program_code)
  have a: "length (pg_instructions (cx_program ?c)) \<le> 2 ^ 31"
    "unat (cx_pc ?c) < length (pg_instructions (cx_program ?c))" unfolding c by simp_all
  show "fetch (snd (jump 1 ?c)) = Some ins_halt"
    using jump_lands_or_faults [OF a, of 1 E] unfolding c by simp
  have "cx_pc (snd (jump (- 1) ?c)) = - 1"
    by (simp add: jump_def st_bind_def get_pc_def set_pc_def jump_target_def c [simplified])
  then show "vm_step E (snd (jump (- 1) ?c)) = (Inl (invalid_pc (- 1)), snd (jump (- 1) ?c))"
    using jump_lands_or_faults [OF a, of "- 1" E] unfolding c Let_def by simp
qed

end
