(* ===== verification/Working_Memory.thy ===== *)
theory Working_Memory
  imports Prelude "HOL-Library.Multiset"
begin

text \<open>
  \<^verbatim>\<open>src/crates/memory/src/working.rs\<close>: the scratchpad of the active context, a table of
  entries with a time to live and a bound on their number. Its \<open>HashMap\<close> is an association
  list with distinct keys whose order is the order of iteration; what is proved for every
  list holds for every order. The clock is read where the code reads it, once for each entry
  that has a time to live. Instants are nanoseconds.
\<close>

section \<open>Entries\<close>

record 'j wm_entry =
  wm_key :: string
  wm_value :: 'j
  wm_created_at :: instant
  wm_ttl_secs :: i64
  wm_access_count :: u64

definition wm_entry_new :: "host \<Rightarrow> string \<Rightarrow> 'j \<Rightarrow> i64 \<Rightarrow> 'j wm_entry \<times> host" where
  "wm_entry_new h key v ttl =
     (let (now, h1) = now_utc h
      in (\<lparr>wm_key = key, wm_value = v, wm_created_at = now, wm_ttl_secs = ttl, wm_access_count = 0\<rparr>, h1))"

text \<open>\<open>Duration::whole_seconds\<close> rounds towards zero.\<close>

definition whole_seconds :: "int \<Rightarrow> int" where
  "whole_seconds d = (if d < 0 then - (- d div 10 ^ 9) else d div 10 ^ 9)"

definition is_expired :: "host \<Rightarrow> 'j wm_entry \<Rightarrow> bool \<times> host" where
  "is_expired h e =
     (if wm_ttl_secs e = 0 then (False, h)
      else (let (now, h1) = now_utc h
            in (sint (wm_ttl_secs e) \<le> whole_seconds (now - wm_created_at e), h1)))"

section \<open>The memory\<close>

record 'j working_memory =
  wm_entries :: "(string \<times> 'j wm_entry) list"
  wm_capacity :: nat
  wm_default_ttl :: i64

definition wm_with_capacity :: "nat \<Rightarrow> 'j working_memory" where
  "wm_with_capacity capacity = \<lparr>wm_entries = [], wm_capacity = capacity, wm_default_ttl = 300\<rparr>"

definition wm_new :: "'j working_memory" where
  "wm_new = wm_with_capacity 1024"

text \<open>\<open>retain(|_, e| !e.is_expired())\<close> and the filters of the read operations.\<close>

fun retain_fresh :: "host \<Rightarrow> (string \<times> 'j wm_entry) list \<Rightarrow> (string \<times> 'j wm_entry) list \<times> host" where
  "retain_fresh h [] = ([], h)"
| "retain_fresh h (x # xs) =
     (let (expired, h1) = is_expired h (snd x); (ys, h2) = retain_fresh h1 xs
      in (if expired then ys else x # ys, h2))"

definition wm_evict :: "host \<Rightarrow> 'j working_memory \<Rightarrow> 'j working_memory \<times> host" where
  "wm_evict h w =
     (let (entries, h1) = retain_fresh h (wm_entries w)
      in (w\<lparr>wm_entries :=
              (if wm_capacity w < length entries
               then take (wm_capacity w) (sort_key (\<lambda>e. wm_access_count (snd e)) entries)
               else entries)\<rparr>, h1))"

definition wm_set ::
  "host \<Rightarrow> string \<Rightarrow> 'j \<Rightarrow> u64 \<Rightarrow> 'j working_memory \<Rightarrow> string \<times> 'j working_memory \<times> host" where
  "wm_set h key v ttl_secs w =
     (let ts = (if ttl_secs = 0 then wm_default_ttl w else ttl_secs);
          (entry, h1) = wm_entry_new h key v ts;
          (w', h2) = wm_evict h1 (w\<lparr>wm_entries := AList.update key entry (wm_entries w)\<rparr>)
      in (key, w', h2))"

definition wm_get :: "host \<Rightarrow> string \<Rightarrow> 'j working_memory \<Rightarrow> 'j option \<times> 'j working_memory \<times> host" where
  "wm_get h key w =
     (case map_of (wm_entries w) key of
        None \<Rightarrow> (None, w, h)
      | Some entry \<Rightarrow>
          (let (expired, h1) = is_expired h entry
           in if expired then (None, w\<lparr>wm_entries := AList.delete key (wm_entries w)\<rparr>, h1)
              else (Some (wm_value entry),
                    w\<lparr>wm_entries := AList.update key
                        (entry\<lparr>wm_access_count := wm_access_count entry + 1\<rparr>) (wm_entries w)\<rparr>, h1)))"

definition wm_remove :: "string \<Rightarrow> 'j working_memory \<Rightarrow> bool \<times> 'j working_memory" where
  "wm_remove key w =
     (map_of (wm_entries w) key \<noteq> None, w\<lparr>wm_entries := AList.delete key (wm_entries w)\<rparr>)"

definition wm_clear :: "'j working_memory \<Rightarrow> 'j working_memory" where
  "wm_clear w = w\<lparr>wm_entries := []\<rparr>"

definition wm_snapshot :: "host \<Rightarrow> 'j working_memory \<Rightarrow> 'j wm_entry list \<times> host" where
  "wm_snapshot h w = (let (entries, h1) = retain_fresh h (wm_entries w) in (map snd entries, h1))"

definition wm_contains :: "host \<Rightarrow> string \<Rightarrow> 'j working_memory \<Rightarrow> bool \<times> host" where
  "wm_contains h key w =
     (case map_of (wm_entries w) key of
        None \<Rightarrow> (False, h)
      | Some e \<Rightarrow> (let (expired, h1) = is_expired h e in (\<not> expired, h1)))"

definition wm_len :: "host \<Rightarrow> 'j working_memory \<Rightarrow> nat \<times> host" where
  "wm_len h w = (let (entries, h1) = retain_fresh h (wm_entries w) in (length entries, h1))"

definition wm_is_empty :: "host \<Rightarrow> 'j working_memory \<Rightarrow> bool \<times> host" where
  "wm_is_empty h w = (let (n, h1) = wm_len h w in (n = 0, h1))"

lemmas wm_defs = wm_set_def wm_get_def wm_remove_def wm_clear_def wm_evict_def wm_entry_new_def

section \<open>The invariant\<close>

text \<open>No more entries than the capacity, each key once, each entry under its own key.\<close>

definition wm_keyed :: "(string \<times> 'j wm_entry) list \<Rightarrow> bool" where
  "wm_keyed es \<longleftrightarrow> distinct (map fst es) \<and> (\<forall>(k, e)\<in>set es. wm_key e = k)"

definition wm_inv :: "'j working_memory \<Rightarrow> bool" where
  "wm_inv w \<longleftrightarrow> wm_keyed (wm_entries w) \<and> length (wm_entries w) \<le> wm_capacity w"

lemma retain_fresh_subset: "set (fst (retain_fresh h xs)) \<subseteq> set xs"
  by (induction xs arbitrary: h) (auto simp: Let_def split_beta)

lemma retain_fresh_length: "length (fst (retain_fresh h xs)) \<le> length xs"
  by (induction xs arbitrary: h) (auto simp: Let_def split_beta le_SucI)

lemma retain_fresh_keyed: "wm_keyed xs \<Longrightarrow> wm_keyed (fst (retain_fresh h xs))"
proof (induction xs arbitrary: h)
  case (Cons x xs)
  then have xs: "wm_keyed xs" and x: "fst x \<notin> fst ` set xs" "wm_key (snd x) = fst x"
    by (auto simp: wm_keyed_def split: prod.splits)
  have "fst x \<notin> fst ` set (fst (retain_fresh g xs))" for g
    using x(1) image_mono [OF retain_fresh_subset [of g xs], of fst] by blast
  then show ?case
    using Cons.IH [OF xs] x(2) by (simp add: wm_keyed_def Let_def split_beta)
qed simp

lemma keyed_perm: "mset ys = mset xs \<Longrightarrow> wm_keyed xs \<Longrightarrow> wm_keyed ys"
  by (metis mset_eq_imp_distinct_iff mset_eq_setD mset_map wm_keyed_def)

lemma keyed_take: "wm_keyed xs \<Longrightarrow> wm_keyed (take n xs)"
  by (auto simp: wm_keyed_def take_map [symmetric] dest: in_set_takeD)

lemma update_memD: "x \<in> set (AList.update k e xs) \<Longrightarrow> x = (k, e) \<or> x \<in> set xs"
  by (induction xs) (auto split: if_splits)

lemma keyed_update: "wm_keyed xs \<Longrightarrow> wm_key e = k \<Longrightarrow> wm_keyed (AList.update k e xs)"
  by (auto simp: wm_keyed_def distinct_update dest!: update_memD)

lemma keyed_delete: "wm_keyed xs \<Longrightarrow> wm_keyed (AList.delete k xs)"
  unfolding wm_keyed_def by (simp add: distinct_delete) (simp add: AList.delete_eq)

lemma length_delete_le: "length (AList.delete k xs) \<le> length xs"
  by (simp add: AList.delete_eq)

lemma length_update_le: "length (AList.update k e xs) \<le> Suc (length xs)"
  by (induction xs) auto

lemma evict_capacity [simp]: "wm_capacity (fst (wm_evict h w)) = wm_capacity w"
  by (simp add: wm_evict_def Let_def split_beta)

lemma evict_inv: "wm_keyed (wm_entries w) \<Longrightarrow> wm_inv (fst (wm_evict h w))"
  by (auto simp: wm_inv_def wm_evict_def Let_def split_beta
      intro!: keyed_take keyed_perm [OF mset_sort] retain_fresh_keyed)

section \<open>Runs of the memory\<close>

datatype 'j wm_call = SetCall string 'j u64 | GetCall string | RemoveCall string | ClearCall

fun wm_exec :: "'j wm_call \<Rightarrow> 'j working_memory \<times> host \<Rightarrow> 'j working_memory \<times> host" where
  "wm_exec (SetCall key v ttl) (w, h) = snd (wm_set h key v ttl w)"
| "wm_exec (GetCall key) (w, h) = snd (wm_get h key w)"
| "wm_exec (RemoveCall key) (w, h) = (snd (wm_remove key w), h)"
| "wm_exec ClearCall (w, h) = (wm_clear w, h)"

lemma evict_result:
  "wm_evict h w = (w', h') \<Longrightarrow> wm_capacity w' = wm_capacity w \<and> (wm_keyed (wm_entries w) \<longrightarrow> wm_inv w')"
  using evict_inv [of w h] evict_capacity [of h w] by auto

lemma set_inv: "wm_inv w \<Longrightarrow> wm_set h key v ttl w = (r, w', h') \<Longrightarrow> wm_inv w' \<and> wm_capacity w' = wm_capacity w"
  by (auto simp: wm_set_def wm_entry_new_def Let_def wm_inv_def [of w] keyed_update
      split: prod.splits dest!: evict_result)

lemma get_inv:
  assumes "wm_inv w" and "wm_get h key w = (r, w', h')"
  shows "wm_inv w' \<and> wm_capacity w' = wm_capacity w"
proof (cases "map_of (wm_entries w) key")
  case None
  with assms show ?thesis by (simp add: wm_get_def)
next
  case (Some e)
  have key: "wm_key e = key"
    using assms(1) map_of_SomeD [OF Some] by (auto simp: wm_inv_def wm_keyed_def)
  have len: "length (AList.update key e' (wm_entries w)) = length (wm_entries w)" for e'
    using Some by (metis domI dom_map_of_conv_image_fst length_map set_map update_keys)
  have w: "wm_keyed (wm_entries w)" "length (wm_entries w) \<le> wm_capacity w"
    using assms(1) by (simp_all add: wm_inv_def)
  show ?thesis
  proof (cases "fst (is_expired h e)")
    case True
    with assms(2) Some have "w' = w\<lparr>wm_entries := AList.delete key (wm_entries w)\<rparr>"
      by (simp add: wm_get_def split_beta)
    then show ?thesis
      using w le_trans [OF length_delete_le] by (simp add: wm_inv_def keyed_delete)
  next
    case False
    with assms(2) Some have "w' = w\<lparr>wm_entries := AList.update key
        (e\<lparr>wm_access_count := wm_access_count e + 1\<rparr>) (wm_entries w)\<rparr>"
      by (simp add: wm_get_def split_beta)
    then show ?thesis using w len by (simp add: wm_inv_def keyed_update key)
  qed
qed

lemma exec_inv:
  "wm_inv w \<Longrightarrow> wm_exec c (w, h) = (w', h') \<Longrightarrow> wm_inv w' \<and> wm_capacity w' = wm_capacity w"
proof (cases c)
  case (SetCall key v ttl)
  assume "wm_inv w" "wm_exec c (w, h) = (w', h')"
  with SetCall show ?thesis
    by (metis prod.collapse set_inv snd_conv wm_exec.simps(1))
next
  case (GetCall key)
  assume "wm_inv w" "wm_exec c (w, h) = (w', h')"
  with GetCall show ?thesis
    by (metis get_inv prod.collapse snd_conv wm_exec.simps(2))
next
  case (RemoveCall key)
  assume "wm_inv w" "wm_exec c (w, h) = (w', h')"
  with RemoveCall show ?thesis
    using length_delete_le [of key "wm_entries w"] by (auto simp: wm_remove_def wm_inv_def keyed_delete)
next
  case ClearCall
  assume "wm_inv w" "wm_exec c (w, h) = (w', h')"
  with ClearCall show ?thesis by (auto simp: wm_clear_def wm_inv_def wm_keyed_def)
qed

lemma run_inv:
  "wm_inv w \<Longrightarrow> fold wm_exec cs (w, h) = (w', h') \<Longrightarrow> wm_inv w' \<and> wm_capacity w' = wm_capacity w"
proof (induction cs arbitrary: w h)
  case (Cons c cs)
  obtain w1 h1 where "wm_exec c (w, h) = (w1, h1)" by (cases "wm_exec c (w, h)")
  then show ?case
    using exec_inv [OF Cons.prems(1), of c h w1 h1] Cons.IH [of w1 h1] Cons.prems(2) by simp
qed simp

section \<open>Eviction\<close>

lemma evict_split:
  assumes "wm_capacity w < length (fst (retain_fresh h (wm_entries w)))"
  defines "s \<equiv> sort_key (\<lambda>e. wm_access_count (snd e)) (fst (retain_fresh h (wm_entries w)))"
  shows "wm_entries (fst (wm_evict h w)) = take (wm_capacity w) s"
    and "set s = set (fst (retain_fresh h (wm_entries w)))"
    and "x \<in> set (take n s) \<Longrightarrow> y \<in> set s \<Longrightarrow> y \<notin> set (take n s) \<Longrightarrow>
      wm_access_count (snd x) \<le> wm_access_count (snd y)"
proof -
  show "wm_entries (fst (wm_evict h w)) = take (wm_capacity w) s"
    using assms(1) by (simp add: wm_evict_def s_def Let_def split_beta)
  show "set s = set (fst (retain_fresh h (wm_entries w)))" by (simp add: s_def)
  assume x: "x \<in> set (take n s)" and y: "y \<in> set s" "y \<notin> set (take n s)"
  have "sorted (map (\<lambda>e. wm_access_count (snd e)) (take n s @ drop n s))"
    by (simp add: s_def)
  moreover have "y \<in> set (drop n s)"
    using y by (metis Un_iff append_take_drop_id set_append)
  ultimately show "wm_access_count (snd x) \<le> wm_access_count (snd y)"
    using x by (auto simp: sorted_append simp del: append_take_drop_id)
qed

section \<open>Properties\<close>

text \<open>
  The scratchpad is bounded: after any calls on a new memory, with any clock, it holds at most
  as many entries as its capacity, every key once, each entry under its own key, and \<open>len\<close>
  answers no more than that.
\<close>

theorem working_memory_bounded:
  fixes cs :: "'j wm_call list" and capacity :: nat and h :: host
  defines "r \<equiv> fold wm_exec cs (wm_with_capacity capacity, h)"
  shows "length (wm_entries (fst r)) \<le> capacity
    \<and> distinct (map fst (wm_entries (fst r)))
    \<and> list_all (\<lambda>(k, e). wm_key e = k) (wm_entries (fst r))
    \<and> fst (wm_len h' (fst r)) \<le> capacity"
proof -
  have "wm_inv (wm_with_capacity capacity :: 'j working_memory)"
    by (simp add: wm_inv_def wm_keyed_def wm_with_capacity_def)
  from run_inv [OF this, of cs h "fst r" "snd r"]
  have "wm_inv (fst r)" "wm_capacity (fst r) = capacity"
    by (simp_all add: r_def wm_with_capacity_def)
  then show ?thesis
    using le_trans [OF retain_fresh_length [of h' "wm_entries (fst r)"]]
    by (auto simp: wm_inv_def wm_keyed_def wm_len_def Let_def split_beta list_all_iff)
qed

text \<open>
  Eviction removes the most used entries. Expired entries go first; if more are left than the
  capacity, exactly the capacity is kept, and no kept entry was read more often than one that
  is dropped. Otherwise all that are not expired are kept.
\<close>

theorem eviction_drops_the_most_used:
  fixes w :: "'j working_memory" and h :: host
  defines "fresh \<equiv> fst (retain_fresh h (wm_entries w))" and "kept \<equiv> wm_entries (fst (wm_evict h w))"
  assumes "x \<in> set kept" and "y \<in> set fresh" and "y \<notin> set kept"
  shows "wm_access_count (snd x) \<le> wm_access_count (snd y) \<and> set kept \<subseteq> set fresh \<and>
    length kept = wm_capacity w \<and> wm_capacity w < length fresh"
proof -
  have more: "wm_capacity w < length fresh"
  proof (rule ccontr)
    assume "\<not> wm_capacity w < length fresh"
    then have "kept = fresh" by (simp add: kept_def fresh_def wm_evict_def Let_def split_beta)
    with assms(4,5) show False by simp
  qed
  note s = evict_split [OF more [unfolded fresh_def], folded kept_def fresh_def]
  have "set kept \<subseteq> set fresh" using s(1,2) set_take_subset by metis
  moreover have "length kept = wm_capacity w" using s(1) more by (simp add: min_def)
  moreover have "wm_access_count (snd x) \<le> wm_access_count (snd y)"
    using s(3) [of x "wm_capacity w" y] assms(3,4,5) s(1,2) by simp
  ultimately show ?thesis using more by simp
qed

definition still_host :: host where
  "still_host = \<lparr>clock = (\<lambda>_. 0), millis = (\<lambda>_. 0), ulids = (\<lambda>_. 0), calls = 0\<rparr>"

definition used_entry :: "string \<Rightarrow> u64 \<Rightarrow> string \<times> nat wm_entry" where
  "used_entry k n = (k, \<lparr>wm_key = k, wm_value = 0, wm_created_at = 0, wm_ttl_secs = 60, wm_access_count = n\<rparr>)"

definition full_memory :: "nat working_memory" where
  "full_memory = \<lparr>wm_entries = [used_entry ''hot'' 9, used_entry ''cold'' 0], wm_capacity = 1,
     wm_default_ttl = 300\<rparr>"

theorem eviction_drops_the_most_used_witness:
  "wm_entries (fst (wm_evict still_host full_memory)) = [used_entry ''cold'' 0] \<and>
   wm_access_count (snd (used_entry ''cold'' 0)) \<le> wm_access_count (snd (used_entry ''hot'' 9))"
proof -
  have k: "wm_entries (fst (wm_evict still_host full_memory)) = [used_entry ''cold'' 0]" by code_simp
  have f: "used_entry ''hot'' 9 \<in> set (fst (retain_fresh still_host (wm_entries full_memory)))" by code_simp
  have "used_entry ''hot'' 9 \<noteq> used_entry ''cold'' 0" by code_simp
  with k f eviction_drops_the_most_used [of "used_entry ''cold'' 0" still_host full_memory "used_entry ''hot'' 9"]
  show ?thesis by simp
qed

lemma is_expired_clock [simp]: "clock (snd (is_expired h e)) = clock h"
  by (simp add: is_expired_def now_utc_def Let_def)

lemma retain_fresh_clock [simp]: "clock (snd (retain_fresh h xs)) = clock h"
  by (induction xs arbitrary: h) (simp_all add: Let_def split_beta)

lemma retain_fresh_keeps:
  assumes "\<And>g. clock g = clock h \<Longrightarrow> \<not> fst (is_expired g (snd x))" and "x \<in> set xs"
  shows "x \<in> set (fst (retain_fresh h xs))"
  using assms
proof (induction xs arbitrary: h)
  case (Cons y ys)
  then show ?case by (cases "x = y") (auto simp: Let_def split_beta)
qed simp

lemma retain_fresh_drops:
  assumes "\<And>g. clock g = clock h \<Longrightarrow> fst (is_expired g (snd x))"
  shows "x \<notin> set (fst (retain_fresh h xs))"
  using assms by (induction xs arbitrary: h) (auto simp: Let_def split_beta)

lemma whole_seconds_less: "0 \<le> d \<Longrightarrow> d < s * 10 ^ 9 \<Longrightarrow> whole_seconds d < s"
  by (simp add: whole_seconds_def div_less_iff_less_mult)

lemma whole_seconds_nonneg: "0 \<le> d \<Longrightarrow> 0 \<le> whole_seconds d"
  by (simp add: whole_seconds_def)

lemma sint_shift: "sint (x :: 64 word) = (uint x + 2 ^ 63) mod 2 ^ 64 - 2 ^ 63"
  by (simp add: sint_uint signed_take_bit_eq_take_bit_shift take_bit_eq_mod)

lemma sint_small: "uint (x :: 64 word) < 2 ^ 63 \<Longrightarrow> sint x = uint x"
  by (simp add: sint_shift)

lemma sint_large: "2 ^ 63 \<le> uint (x :: 64 word) \<Longrightarrow> sint x < 0"
proof -
  assume "2 ^ 63 \<le> uint x"
  moreover have "uint x < 2 ^ 64" using uint_lt2p [of x] by simp
  ultimately have "(uint x + 2 ^ 63) mod 2 ^ 64 = uint x + 2 ^ 63 - 2 ^ 64"
    using mod_add_self2 [of "uint x - 2 ^ 63" "2 ^ 64"] by (simp add: add.commute)
  with \<open>uint x < 2 ^ 64\<close> show "sint x < 0" by (simp add: sint_shift)
qed

text \<open>
  The time to live. As long as the clock stays within the time to live of an entry that is
  stored where there is room, it is read back, unless the time to live is \<open>2 ^ 63\<close> seconds or
  more: that wraps to a negative number, and the entry is gone as soon as it is stored.
\<close>

theorem set_then_get:
  fixes w :: "'j working_memory" and ttl_secs :: u64
  defines "lifetime \<equiv> if ttl_secs = 0 then sint (wm_default_ttl w) else uint ttl_secs"
  assumes inv: "wm_inv w" and room: "length (wm_entries w) < wm_capacity w" and pos: "0 < sint (wm_default_ttl w)"
    and clk: "\<And>n. 0 \<le> clock h n - clock h (calls h) \<and> clock h n - clock h (calls h) < lifetime * 10 ^ 9"
    and set: "wm_set h key v ttl_secs w = (r, w', h')"
  shows "r = key \<and> fst (wm_get h' key w') = (if uint ttl_secs < 2 ^ 63 then Some v else None)"
proof -
  define ts where "ts = (if ttl_secs = 0 then wm_default_ttl w else ttl_secs)"
  define e where "e = \<lparr>wm_key = key, wm_value = v, wm_created_at = clock h (calls h), wm_ttl_secs = ts,
    wm_access_count = 0\<rparr>"
  define h1 where "h1 = h\<lparr>calls := Suc (calls h)\<rparr>"
  let ?es = "AList.update key e (wm_entries w)"
  let ?fresh = "fst (retain_fresh h1 ?es)"
  have ts0: "ts \<noteq> 0" using pos by (auto simp: ts_def)
  have keyed: "wm_keyed (wm_entries w)" using inv by (simp add: wm_inv_def)
  have fits: "length ?fresh \<le> wm_capacity w"
    using room le_trans [OF retain_fresh_length [of h1 ?es]]
      le_trans [OF length_update_le [of key e "wm_entries w"]] by simp
  have run: "(r, w', h') = (key, w\<lparr>wm_entries := ?fresh\<rparr>, snd (retain_fresh h1 ?es))"
  proof -
    have "wm_entry_new h key v ts = (e, h1)"
      by (simp add: wm_entry_new_def now_utc_def e_def h1_def)
    moreover have "wm_evict h1 (w\<lparr>wm_entries := ?es\<rparr>) = (w\<lparr>wm_entries := ?fresh\<rparr>, snd (retain_fresh h1 ?es))"
      using fits by (simp add: wm_evict_def split_beta Let_def not_less)
    ultimately show ?thesis using set by (auto simp: wm_set_def Let_def ts_def [symmetric])
  qed
  have kf: "wm_keyed ?fresh"
    by (intro retain_fresh_keyed keyed_update keyed) (simp add: e_def)
  have expired: "fst (is_expired g e) \<longleftrightarrow> \<not> uint ttl_secs < 2 ^ 63" if g: "clock g = clock h" for g
  proof -
    have d: "0 \<le> clock h (calls g) - clock h (calls h)"
      "clock h (calls g) - clock h (calls h) < lifetime * 10 ^ 9" using clk [of "calls g"] by simp_all
    have "fst (is_expired g e) \<longleftrightarrow> sint ts \<le> whole_seconds (clock h (calls g) - clock h (calls h))"
      using ts0 g by (simp add: is_expired_def now_utc_def e_def Let_def)
    moreover have "sint ts = lifetime" if "uint ttl_secs < 2 ^ 63"
      using that by (simp add: ts_def lifetime_def sint_small)
    moreover have "sint ts < 0" if "\<not> uint ttl_secs < 2 ^ 63"
      using that sint_large [of ttl_secs] by (auto simp: ts_def)
    ultimately show ?thesis
      using whole_seconds_less [OF d] whole_seconds_nonneg [OF d(1)] by force
  qed
  show ?thesis
  proof (cases "uint ttl_secs < 2 ^ 63")
    case True
    have "(key, e) \<in> set ?fresh"
      by (rule retain_fresh_keeps) (use expired True in \<open>simp_all add: h1_def map_of_SomeD\<close>)
    then have "map_of ?fresh key = Some e" using kf by (simp add: wm_keyed_def)
    then show ?thesis using run True expired [of h'] by (simp add: wm_get_def split_beta e_def h1_def)
  next
    case False
    have gone: "(key, e) \<notin> set ?fresh"
      by (rule retain_fresh_drops) (use expired False in \<open>simp add: h1_def\<close>)
    have same: "b = e" if "(key, b) \<in> set ?fresh" for b
    proof -
      have m: "(key, b) \<in> set ?es" using that retain_fresh_subset [of h1 ?es] by blast
      have "distinct (map fst ?es)" using keyed by (simp add: wm_keyed_def distinct_update)
      from map_of_is_SomeI [OF this m] show ?thesis by simp
    qed
    have "key \<notin> fst ` set ?fresh"
    proof
      assume "key \<in> fst ` set ?fresh"
      then obtain b where b: "(key, b) \<in> set ?fresh" by auto
      with same [OF b] gone show False by simp
    qed
    then have "map_of ?fresh key = None" by (simp add: map_of_eq_None_iff)
    then show ?thesis using run False by (simp add: wm_get_def)
  qed
qed

theorem set_then_get_witness:
  "let (r, w', h') = wm_set still_host ''b'' (5 :: nat) 60 (wm_with_capacity 2) in fst (wm_get h' ''b'' w') = Some 5"
proof -
  obtain r w' h' where s: "wm_set still_host ''b'' (5 :: nat) 60 (wm_with_capacity 2) = (r, w', h')"
    by (cases "wm_set still_host ''b'' (5 :: nat) 60 (wm_with_capacity 2)")
  have "fst (wm_get h' ''b'' w') = Some 5"
    using set_then_get [OF _ _ _ _ s]
    by (simp add: wm_inv_def wm_keyed_def wm_with_capacity_def still_host_def)
  with s show ?thesis by simp
qed

end
