(* ===== verification/Episodic_Memory.thy ===== *)
theory Episodic_Memory
  imports Long_Term_Memory
begin

text \<open>
  \<^verbatim>\<open>src/crates/memory/src/episodic.rs\<close>: episodes, sequences of events with a time span. Each
  is written to the event store, as an event of the aggregate type \<open>EpisodicMemory\<close>, and kept
  in a table; only the table is read. The \<open>HashMap\<close> is an association list with distinct keys
  in the order of iteration.
\<close>

record episode =
  ep_id :: ulid
  ep_kind :: string
  ep_summary :: string
  ep_events :: "ulid list"
  ep_actors :: "string list"
  ep_entities :: "string list"
  ep_importance :: f64
  ep_started_at :: instant
  ep_ended_at :: instant
  ep_context :: metadata
  ep_metadata :: metadata

record episode_query =
  eq_kinds :: "string list option"
  eq_actors :: "string list option"
  eq_entities :: "string list option"
  eq_from :: "instant option"
  eq_to :: "instant option"
  eq_min_importance :: f64
  eq_limit :: nat

definition eq_default :: episode_query where
  "eq_default = \<lparr>eq_kinds = None, eq_actors = None, eq_entities = None, eq_from = None, eq_to = None,
     eq_min_importance = 0, eq_limit = 100\<rparr>"

record 'j episodic_memory =
  em_store :: "'j event_store"
  em_episodes :: "(ulid \<times> episode) list"

record 'j em_lib =
  em_to_value :: "episode \<Rightarrow> (string, 'j) result"
  em_show_ulid :: "ulid \<Rightarrow> string"

definition em_new :: "'j event_store \<Rightarrow> 'j episodic_memory" where
  "em_new s = \<lparr>em_store = s, em_episodes = []\<rparr>"

section \<open>Building an episode\<close>

definition push_new :: "'a list \<Rightarrow> 'a \<Rightarrow> 'a list" where
  "push_new xs x = (if x \<in> set xs then xs else xs @ [x])"

text \<open>The loop over the events collects actors and entities, each once.\<close>

definition collect_event ::
  "'j event_envelope \<Rightarrow> string list \<times> string list \<Rightarrow> string list \<times> string list" where
  "collect_event ev acc =
     ((case ee_metadata ev ''actor'' of None \<Rightarrow> fst acc | Some actor \<Rightarrow> push_new (fst acc) actor),
      push_new (snd acc) (ee_aggregate_id ev))"

text \<open>\<open>events.len() as f64 * 0.1\<close>.\<close>

definition f64_tenth :: f64 where
  "f64_tenth = 0x3FB999999999999A"

definition build_episode :: "host \<Rightarrow> 'j event_envelope list \<Rightarrow> string \<Rightarrow> episode \<times> host" where
  "build_episode h events kind =
     (let (now, h1) = now_utc h;
          (actors, entities) = fold collect_event events ([], []);
          (uid, h2) = ulid_new h1
      in (\<lparr>ep_id = uid, ep_kind = kind,
           ep_summary = show_nat (length events) @ '' events of type '' @ kind,
           ep_events = map ee_id events, ep_actors = actors, ep_entities = entities,
           ep_importance = f64_times f64_tenth (int (length events)),
           ep_started_at = (if events = [] then now else ee_timestamp (hd events)),
           ep_ended_at = (if events = [] then now else ee_timestamp (last events)),
           ep_context = Map.empty, ep_metadata = Map.empty\<rparr>, h2))"

section \<open>Operations\<close>

definition em_record ::
  "'j em_lib \<Rightarrow> host \<Rightarrow> episode \<Rightarrow> 'j episodic_memory \<Rightarrow> (string, ulid) result \<times> 'j episodic_memory \<times> host" where
  "em_record lib h ep m =
     (case em_to_value lib ep of
        Inl e \<Rightarrow> (Inl e, m, h)
      | Inr data \<Rightarrow>
          (let (r, s, h1) = append_new h (em_show_ulid lib (ep_id ep)) ''EpisodicMemory'' ''EpisodeRecorded'' 1
                 data (em_store m)
           in case r of
                Inl e \<Rightarrow> (Inl e, m\<lparr>em_store := s\<rparr>, h1)
              | Inr _ \<Rightarrow>
                  (Inr (ep_id ep), m\<lparr>em_store := s, em_episodes := AList.update (ep_id ep) ep (em_episodes m)\<rparr>, h1)))"

definition em_record_from_events ::
  "'j em_lib \<Rightarrow> host \<Rightarrow> 'j event_envelope list \<Rightarrow> string \<Rightarrow> 'j episodic_memory \<Rightarrow>
   (string, episode) result \<times> 'j episodic_memory \<times> host" where
  "em_record_from_events lib h events kind m =
     (let (ep, h1) = build_episode h events kind; (r, m1, h2) = em_record lib h1 ep m
      in (rbind r (\<lambda>_. Inr ep), m1, h2))"

text \<open>The filters of \<open>replay\<close>, in their order.\<close>

definition some_admitted :: "string list option \<Rightarrow> string list \<Rightarrow> bool" where
  "some_admitted wanted names =
     (case wanted of None \<Rightarrow> True | Some ws \<Rightarrow> list_ex (\<lambda>n. n \<in> set ws) names)"

definition ep_matches :: "episode_query \<Rightarrow> episode \<Rightarrow> bool" where
  "ep_matches query e \<longleftrightarrow>
     f64_ge (ep_importance e) (eq_min_importance query) \<and> admits (eq_kinds query) (ep_kind e) \<and>
     some_admitted (eq_actors query) (ep_actors e) \<and> some_admitted (eq_entities query) (ep_entities e) \<and>
     (case eq_from query of None \<Rightarrow> True | Some f \<Rightarrow> f \<le> ep_started_at e) \<and>
     (case eq_to query of None \<Rightarrow> True | Some t \<Rightarrow> ep_ended_at e \<le> t)"

definition em_replay :: "'j episodic_memory \<Rightarrow> episode_query \<Rightarrow> (string, episode list) result" where
  "em_replay m query =
     Inr (take (eq_limit query)
       (sort_key (\<lambda>e. - ep_started_at e) (filter (ep_matches query) (map snd (em_episodes m)))))"

definition em_get :: "'j episodic_memory \<Rightarrow> ulid \<Rightarrow> (string, episode option) result" where
  "em_get m i = Inr (map_of (em_episodes m) i)"

definition em_timeline ::
  "'j episodic_memory \<Rightarrow> instant \<Rightarrow> instant \<Rightarrow> nat \<Rightarrow> (string, episode list) result" where
  "em_timeline m from_t to_t limit =
     em_replay m (eq_default\<lparr>eq_from := Some from_t, eq_to := Some to_t, eq_limit := limit\<rparr>)"

definition em_delete :: "'j em_lib \<Rightarrow> ulid \<Rightarrow> 'j episodic_memory \<Rightarrow> (string, unit) result \<times> 'j episodic_memory" where
  "em_delete lib i m =
     (case map_of (em_episodes m) i of
        None \<Rightarrow> (Inl (''episode '' @ em_show_ulid lib i @ '' not found''), m)
      | Some _ \<Rightarrow> (Inr (), m\<lparr>em_episodes := AList.delete i (em_episodes m)\<rparr>))"

definition em_clear :: "'j episodic_memory \<Rightarrow> (string, unit) result \<times> 'j episodic_memory" where
  "em_clear m = (Inr (), m\<lparr>em_episodes := []\<rparr>)"

section \<open>Properties\<close>

lemma push_new_set [simp]: "set (push_new xs x) = insert x (set xs)"
  by (auto simp: push_new_def)

lemma push_new_distinct [simp]: "distinct (push_new xs x) \<longleftrightarrow> distinct xs"
  by (auto simp: push_new_def)

lemma collect_events:
  assumes "distinct (fst acc)" and "distinct (snd acc)"
  shows "set (fst (fold collect_event evs acc)) =
      set (fst acc) \<union> {a. \<exists>ev\<in>set evs. ee_metadata ev ''actor'' = Some a}"
    and "set (snd (fold collect_event evs acc)) = set (snd acc) \<union> ee_aggregate_id ` set evs"
    and "distinct (fst (fold collect_event evs acc))" and "distinct (snd (fold collect_event evs acc))"
  using assms
  by (induction evs arbitrary: acc) (auto simp: collect_event_def split: option.splits)

text \<open>
  What an episode says about its events: their identifiers in order, the actors and the
  aggregates that occur in them, each once, and the times of the first and the last of them.
\<close>

theorem episode_describes_its_events:
  fixes events :: "'j event_envelope list" and h :: host and kind :: string
  defines "ep \<equiv> fst (build_episode h events kind)"
  shows "ep_events ep = map ee_id events \<and>
    distinct (ep_actors ep) \<and> set (ep_actors ep) = {a. \<exists>ev\<in>set events. ee_metadata ev ''actor'' = Some a} \<and>
    distinct (ep_entities ep) \<and> set (ep_entities ep) = ee_aggregate_id ` set events \<and>
    (events \<noteq> [] \<longrightarrow> ep_started_at ep = ee_timestamp (hd events) \<and> ep_ended_at ep = ee_timestamp (last events))"
  using collect_events [of "([], [])" events]
  by (simp add: ep_def build_episode_def Let_def split_beta)

text \<open>
  Replaying episodes. The answer holds only recorded episodes that the query admits, the most
  recent first, as many as there are up to the limit, and an admitted episode is left out only
  if the limit is reached and none of the answers started before it.
\<close>

theorem replay_answers_the_most_recent:
  fixes m :: "'j episodic_memory" and q :: episode_query
  defines "admitted \<equiv> filter (ep_matches q) (map snd (em_episodes m))"
  assumes "em_replay m q = Inr answer"
  shows "set answer \<subseteq> set admitted \<and> length answer = min (eq_limit q) (length admitted) \<and>
    sorted_wrt (\<lambda>a b. ep_started_at b \<le> ep_started_at a) answer \<and>
    (\<forall>e\<in>set admitted - set answer. length answer = eq_limit q \<and>
       (\<forall>a\<in>set answer. ep_started_at e \<le> ep_started_at a))"
proof -
  let ?s = "sort_key (\<lambda>e. - ep_started_at e) admitted"
  have answer: "answer = take (eq_limit q) ?s"
    using assms(2) by (simp add: em_replay_def admitted_def)
  have "sorted (map (\<lambda>e. - ep_started_at e) ?s)" by simp
  then have sorted: "sorted_wrt (\<lambda>a b. ep_started_at b \<le> ep_started_at a) ?s"
    by (simp add: sorted_map)
  have "length answer = eq_limit q \<and> (\<forall>a\<in>set answer. ep_started_at e \<le> ep_started_at a)"
    if e: "e \<in> set admitted - set answer" for e
  proof -
    have "e \<in> set ?s" using e by simp
    then have "e \<in> set (take (eq_limit q) ?s) \<union> set (drop (eq_limit q) ?s)"
      by (metis append_take_drop_id set_append)
    then have d: "e \<in> set (drop (eq_limit q) ?s)" using e by (simp add: answer)
    then have "drop (eq_limit q) ?s \<noteq> []" by auto
    then have "length answer = eq_limit q" by (simp add: answer)
    moreover have "sorted_wrt (\<lambda>a b. ep_started_at b \<le> ep_started_at a)
        (take (eq_limit q) ?s @ drop (eq_limit q) ?s)"
      using sorted by simp
    ultimately show ?thesis using d by (auto simp: answer sorted_wrt_append simp del: append_take_drop_id)
  qed
  moreover have "set answer \<subseteq> set admitted" using set_take_subset [of "eq_limit q" ?s] by (simp add: answer)
  moreover have "length answer = min (eq_limit q) (length admitted)" by (simp add: answer)
  moreover have "sorted_wrt (\<lambda>a b. ep_started_at b \<le> ep_started_at a) answer"
    using sorted by (simp add: answer sorted_wrt_take)
  ultimately show ?thesis by blast
qed

definition sample_episode :: "ulid \<Rightarrow> instant \<Rightarrow> ulid \<times> episode" where
  "sample_episode i t = (i, \<lparr>ep_id = i, ep_kind = ''incident'', ep_summary = [], ep_events = [], ep_actors = [],
     ep_entities = [], ep_importance = f64_tenth, ep_started_at = t, ep_ended_at = t,
     ep_context = Map.empty, ep_metadata = Map.empty\<rparr>)"

definition two_episodes :: "nat episodic_memory" where
  "two_episodes = (em_new es_new)\<lparr>em_episodes := [sample_episode 1 10, sample_episode 2 20]\<rparr>"

theorem replay_answers_the_most_recent_witness:
  "em_replay two_episodes (eq_default\<lparr>eq_limit := 1\<rparr>) = Inr [snd (sample_episode 2 20)] \<and>
   ep_started_at (snd (sample_episode 1 10)) \<le> ep_started_at (snd (sample_episode 2 20))"
proof -
  have m: "ep_matches (eq_default\<lparr>eq_limit := 1\<rparr>) (snd (sample_episode i t))" for i t
    by (simp add: ep_matches_def eq_default_def sample_episode_def admits_def some_admitted_def
        f64_ge_def f64_is_nan_def f64_key_def f64_tenth_def)
  have r: "em_replay two_episodes (eq_default\<lparr>eq_limit := 1\<rparr>) = Inr [snd (sample_episode 2 20)]"
    using m [of 1 10] m [of 2 20]
    by (simp add: em_replay_def two_episodes_def) (simp add: sample_episode_def eq_default_def)
  have "snd (sample_episode 1 10) \<noteq> snd (sample_episode 2 20)" by (simp add: sample_episode_def)
  with replay_answers_the_most_recent [OF r] r m [of 1 10] show ?thesis
    by (auto simp: two_episodes_def)
qed

definition sample_envelope :: "string \<Rightarrow> instant \<Rightarrow> nat event_envelope" where
  "sample_envelope a t = \<lparr>ee_id = 4, ee_aggregate_id = a, ee_aggregate_type = ''Entity'', ee_event_type = ''Seen'',
     ee_version = 1, ee_data = 0, ee_metadata = [''actor'' \<mapsto> ''bob''], ee_timestamp = t\<rparr>"

theorem episode_describes_its_events_witness:
  "ep_started_at (fst (build_episode quiet_host [sample_envelope ''a'' 5, sample_envelope ''b'' 6] ''incident'')) = 5 \<and>
   set (ep_entities (fst (build_episode quiet_host [sample_envelope ''a'' 5, sample_envelope ''b'' 6] ''incident'')))
     = {''a'', ''b''}"
  using episode_describes_its_events [of quiet_host "[sample_envelope ''a'' 5, sample_envelope ''b'' 6]" "''incident''"]
  by (simp add: sample_envelope_def)

end
