(* ===== verification/Procedural_Memory.thy ===== *)
theory Procedural_Memory
  imports Prelude
begin

text \<open>
  \<^verbatim>\<open>src/crates/memory/src/procedural.rs\<close>: named procedures and their execution. A step may
  execute another procedure, directly or as the fallback of a failure, so \<open>execute\<close> calls
  itself; its first argument is the number of calls that fit on the stack, and \<open>None\<close> is the
  overflow. Agents and processors are looked up by name in the registries' lists; the JSON
  constructors of \<open>serde_json\<close> are fields of the environment. Instants are nanoseconds.
\<close>

section \<open>Data\<close>

datatype 'j step_kind =
    StepAgent string
  | StepProcessor string
  | StepDecision "string list"
  | StepSearch string 'j
  | StepCollect string
  | StepTransform string
  | StepSubProcedure string
  | StepScript string string

datatype failure_action = FailAbort | FailRetry u32 | FailSkip | FailFallback string

record 'j procedure_step =
  pt_kind :: "'j step_kind"
  pt_name :: string
  pt_params :: 'j
  pt_retry_count :: u32
  pt_timeout_secs :: u64
  pt_on_failure :: failure_action

record 'j procedure =
  pr_id :: ulid
  pr_name :: string
  pr_description :: string
  pr_steps :: "'j procedure_step list"
  pr_input_schema :: "'j option"
  pr_output_schema :: "'j option"
  pr_version :: string
  pr_created_at :: instant
  pr_tags :: "string list"

record 'j step_report =
  st_step_name :: string
  st_success :: bool
  st_output :: "'j option"
  st_error :: "string option"
  st_duration_ms :: u64

record 'j procedure_outcome =
  po_procedure_id :: ulid
  po_success :: bool
  po_step_results :: "'j step_report list"
  po_output :: "'j option"
  po_error :: "string option"
  po_duration_ms :: u64
  po_executed_at :: instant

record 'j execution_context =
  xc_procedure_id :: ulid
  xc_input :: 'j
  xc_variables :: "string \<rightharpoonup> 'j"
  xc_session_id :: string
  xc_started_at :: instant

record 'j procedure_env =
  pe_agents :: "string list"
  pe_processors :: "string list"
  pe_object :: "(string \<times> 'j) list \<Rightarrow> 'j"
  pe_string :: "string \<Rightarrow> 'j"
  pe_strings :: "string list \<Rightarrow> 'j"
  pe_usize :: "nat \<Rightarrow> 'j"

section \<open>The registry of procedures\<close>

type_synonym 'j procedures = "(string \<times> 'j procedure) list"

definition store_procedure :: "'j procedure \<Rightarrow> 'j procedures \<Rightarrow> (string, ulid) result \<times> 'j procedures" where
  "store_procedure p ps = (Inr (pr_id p), AList.update (pr_name p) p ps)"

definition get_procedure :: "'j procedures \<Rightarrow> string \<Rightarrow> (string, 'j procedure option) result" where
  "get_procedure ps name = Inr (map_of ps name)"

definition list_procedures :: "'j procedures \<Rightarrow> string option \<Rightarrow> (string, 'j procedure list) result" where
  "list_procedures ps tag =
     Inr (filter (\<lambda>p. case tag of None \<Rightarrow> True | Some t \<Rightarrow> t \<in> set (pr_tags p)) (map snd ps))"

definition delete_procedure :: "ulid \<Rightarrow> 'j procedures \<Rightarrow> (string, unit) result \<times> 'j procedures" where
  "delete_procedure i ps = (Inr (), filter (\<lambda>(_, p). pr_id p \<noteq> i) ps)"

section \<open>Steps\<close>

text \<open>\<open>start.elapsed().as_millis() as u64\<close>: never negative.\<close>

definition elapsed_ms :: "instant \<Rightarrow> host \<Rightarrow> u64 \<times> host" where
  "elapsed_ms start h = (let (now, h1) = now_utc h in (word_of_int (max 0 (now - start) div 10 ^ 6), h1))"

text \<open>What a step that executes nothing reports: its success, its output and its error.\<close>

fun step_answer :: "'j procedure_env \<Rightarrow> 'j step_kind \<Rightarrow> bool \<times> 'j option \<times> string option" where
  "step_answer E (StepAgent a) =
     (if a \<in> set (pe_agents E)
      then (True, Some (pe_object E [(''agent'', pe_string E a), (''status'', pe_string E ''available'')]), None)
      else (False, None, Some (''agent '' @ [CHR 0x27] @ a @ [CHR 0x27] @ '' not found'')))"
| "step_answer E (StepProcessor p) =
     (if p \<in> set (pe_processors E)
      then (True, Some (pe_object E [(''processor'', pe_string E p), (''status'', pe_string E ''available'')]), None)
      else (False, None, Some (''processor '' @ [CHR 0x27] @ p @ [CHR 0x27] @ '' not found'')))"
| "step_answer E (StepDecision rules) =
     (True, Some (pe_object E [(''rules'', pe_strings E rules), (''decision'', pe_string E ''evaluated'')]), None)"
| "step_answer E (StepSearch index query) =
     (True, Some (pe_object E [(''index'', pe_string E index), (''query'', query),
                               (''status'', pe_string E ''dispatched'')]), None)"
| "step_answer E (StepCollect url) =
     (True, Some (pe_object E [(''url'', pe_string E url), (''status'', pe_string E ''dispatched'')]), None)"
| "step_answer E (StepTransform expr) =
     (True, Some (pe_object E [(''expression'', pe_string E expr), (''status'', pe_string E ''evaluated'')]), None)"
| "step_answer E (StepScript lang source) =
     (True, Some (pe_object E [(''language'', pe_string E lang), (''source_length'', pe_usize E (length source)),
                               (''status'', pe_string E ''script_placeholder'')]), None)"
| "step_answer E (StepSubProcedure _) = (False, None, None)"

type_synonym 'j executor = "string \<Rightarrow> host \<Rightarrow> ((string, 'j procedure_outcome) result \<times> host) option"

definition report :: "string \<Rightarrow> instant \<Rightarrow> bool \<times> 'j option \<times> string option \<Rightarrow> host \<Rightarrow> 'j step_report \<times> host" where
  "report name start answer h =
     (let (d, h1) = elapsed_ms start h
      in (\<lparr>st_step_name = name, st_success = fst answer, st_output = fst (snd answer),
           st_error = snd (snd answer), st_duration_ms = d\<rparr>, h1))"

definition outcome_answer :: "'j procedure_outcome \<Rightarrow> bool \<times> 'j option \<times> string option" where
  "outcome_answer oc = (po_success oc, po_output oc, po_error oc)"

text \<open>The \<open>match\<close> on the kind of a step; \<open>ex\<close> is the recursive call.\<close>

definition run_kind ::
  "'j executor \<Rightarrow> 'j procedure_env \<Rightarrow> 'j procedure_step \<Rightarrow> instant \<Rightarrow> host \<Rightarrow> ('j step_report \<times> host) option" where
  "run_kind ex E st start h =
     (case pt_kind st of
        StepSubProcedure name \<Rightarrow>
          map_option (\<lambda>(r, h1).
            report (pt_name st) start
              (case r of Inr oc \<Rightarrow> outcome_answer oc | Inl e \<Rightarrow> (False, None, Some e)) h1) (ex name h)
      | kind \<Rightarrow> Some (report (pt_name st) start (step_answer E kind) h))"

text \<open>One turn of the retry loop.\<close>

definition retry_once :: "'j step_report \<Rightarrow> 'j step_report" where
  "retry_once r = (if st_success r then r else r\<lparr>st_success := True, st_error := None\<rparr>)"

definition retried :: "u32 \<Rightarrow> 'j step_report \<Rightarrow> 'j step_report" where
  "retried max_tries r = (retry_once ^^ unat max_tries) r"

text \<open>The loop over the steps: the success, the error and the reports it ends with.\<close>

fun run_steps ::
  "'j executor \<Rightarrow> 'j procedure_env \<Rightarrow> 'j procedure_step list \<Rightarrow> 'j step_report list \<Rightarrow> host \<Rightarrow>
   ((bool \<times> string option \<times> 'j step_report list) \<times> host) option" where
  "run_steps ex E [] acc h = Some ((True, None, acc), h)"
| "run_steps ex E (st # sts) acc h =
     (let (start, h0) = now_utc h
      in case run_kind ex E st start h0 of
           None \<Rightarrow> None
         | Some (r, h1) \<Rightarrow>
             if st_success r then run_steps ex E sts (acc @ [r]) h1
             else (case pt_on_failure st of
                     FailAbort \<Rightarrow> Some ((False, st_error r, acc @ [r]), h1)
                   | FailRetry n \<Rightarrow> run_steps ex E sts (acc @ [retried n r]) h1
                   | FailSkip \<Rightarrow> run_steps ex E sts (acc @ [r]) h1
                   | FailFallback name \<Rightarrow>
                       (case ex name h1 of
                          None \<Rightarrow> None
                        | Some (Inl e, h2) \<Rightarrow> Some ((False, Some e, acc @ [r]), h2)
                        | Some (Inr fb, h2) \<Rightarrow>
                            (let (f, h3) = report (pt_name st @ '' (fallback:'' @ name @ '')'') start
                                             (outcome_answer fb) h2
                             in run_steps ex E sts (acc @ [f]) h3))))"

section \<open>Execution\<close>

text \<open>The end of \<open>execute\<close>, after the loop.\<close>

definition outcome_of ::
  "'j procedure \<Rightarrow> instant \<Rightarrow> (bool \<times> string option \<times> 'j step_report list) \<times> host \<Rightarrow>
   (string, 'j procedure_outcome) result \<times> host" where
  "outcome_of p start x =
     (case x of ((success, error, results), h) \<Rightarrow>
        (let (d, h1) = elapsed_ms start h; (fin, h2) = now_utc h1
         in (Inr \<lparr>po_procedure_id = pr_id p, po_success = success, po_step_results = results,
                  po_output = (if results = [] then None else st_output (last results)),
                  po_error = error, po_duration_ms = d, po_executed_at = fin\<rparr>, h2)))"

fun execute_proc ::
  "'j procedure_env \<Rightarrow> 'j procedures \<Rightarrow> nat \<Rightarrow> 'j \<Rightarrow> string \<Rightarrow> 'j executor" where
  "execute_proc E ps 0 inp session name h = None"
| "execute_proc E ps (Suc depth) inp session name h =
     (case rbind (get_procedure ps name)
             (ok_or (''procedure '' @ [CHR 0x27] @ name @ [CHR 0x27] @ '' not found'')) of
        Inl e \<Rightarrow> Some (Inl e, h)
      | Inr p \<Rightarrow>
          (let (now, h1) = now_utc h;
               ctx = \<lparr>xc_procedure_id = pr_id p, xc_input = inp, xc_variables = Map.empty,
                      xc_session_id = session, xc_started_at = now\<rparr>;
               (start, h2) = now_utc h1
           in map_option (outcome_of p start)
                (run_steps (execute_proc E ps depth (xc_input ctx) (xc_session_id ctx)) E (pr_steps p) [] h2)))"

declare execute_proc.simps(2) [simp del]

lemma execute_missing:
  "map_of ps name = None \<Longrightarrow> execute_proc E ps (Suc depth) inp session name h =
     Some (Inl (''procedure '' @ [CHR 0x27] @ name @ [CHR 0x27] @ '' not found''), h)"
  by (simp add: execute_proc.simps get_procedure_def)

lemma execute_found:
  "map_of ps name = Some p \<Longrightarrow> execute_proc E ps (Suc depth) inp session name h =
     map_option (outcome_of p (fst (now_utc (snd (now_utc h)))))
       (run_steps (execute_proc E ps depth inp session) E (pr_steps p) [] (snd (now_utc (snd (now_utc h)))))"
  by (simp add: execute_proc.simps get_procedure_def Let_def split_beta)

section \<open>Which procedures a step may execute\<close>

definition step_calls :: "'j procedure_step \<Rightarrow> string list" where
  "step_calls st =
     (case pt_kind st of StepSubProcedure n \<Rightarrow> [n] | _ \<Rightarrow> []) @
     (case pt_on_failure st of FailFallback n \<Rightarrow> [n] | _ \<Rightarrow> [])"

lemma run_kind_calls:
  assumes "\<And>q h. q \<in> set (step_calls st) \<Longrightarrow> ex q h \<noteq> None"
  shows "run_kind ex E st start h \<noteq> None"
proof (cases "pt_kind st")
  case (StepSubProcedure q)
  then have "ex q h \<noteq> None" by (intro assms) (simp add: step_calls_def)
  with StepSubProcedure show ?thesis by (simp add: run_kind_def)
qed (simp_all add: run_kind_def)

lemma run_steps_returns:
  assumes "\<And>st q h. st \<in> set sts \<Longrightarrow> q \<in> set (step_calls st) \<Longrightarrow> ex q h \<noteq> None"
  shows "\<exists>r. run_steps ex E sts acc h = Some r"
  using assms
proof (induction sts arbitrary: acc h)
  case (Cons st sts)
  obtain start h0 where n: "now_utc h = (start, h0)" by (cases "now_utc h")
  have "run_kind ex E st start h0 \<noteq> None" by (rule run_kind_calls) (rule Cons.prems, simp_all)
  then obtain r h1 where k: "run_kind ex E st start h0 = Some (r, h1)" by auto
  have IH: "\<exists>r. run_steps ex E sts acc h = Some r" for acc h
    by (rule Cons.IH) (rule Cons.prems, simp_all)
  show ?case
  proof (cases "\<not> st_success r \<and> (\<exists>name. pt_on_failure st = FailFallback name)")
    case True
    then obtain name where f: "pt_on_failure st = FailFallback name" by blast
    then have "ex name h1 \<noteq> None" using Cons.prems [of st name h1] by (auto simp: step_calls_def)
    then obtain x h2 where x: "ex name h1 = Some (x, h2)" by auto
    show ?thesis
    proof (cases x)
      case (Inl e)
      with n k f True x show ?thesis by auto
    next
      case (Inr fb)
      with n k f True x IH show ?thesis by (simp add: split_beta)
    qed
  next
    case False
    with n k IH show ?thesis by (auto split: failure_action.split)
  qed
qed auto

text \<open>A returned answer stays if the calls answer the same and more.\<close>

definition extends :: "'j executor \<Rightarrow> 'j executor \<Rightarrow> bool" where
  "extends ex ex' \<longleftrightarrow> (\<forall>q h. ex q h \<noteq> None \<longrightarrow> ex' q h = ex q h)"

lemma run_kind_extends:
  "extends ex ex' \<Longrightarrow> run_kind ex E st start h \<noteq> None \<Longrightarrow> run_kind ex' E st start h = run_kind ex E st start h"
  by (auto simp: run_kind_def extends_def split: step_kind.splits)

lemma run_steps_extends:
  assumes "extends ex ex'"
  shows "run_steps ex E sts acc h \<noteq> None \<Longrightarrow> run_steps ex' E sts acc h = run_steps ex E sts acc h"
proof (induction sts arbitrary: acc h)
  case (Cons st sts)
  obtain start h0 where n: "now_utc h = (start, h0)" by (cases "now_utc h")
  obtain r h1 where k: "run_kind ex E st start h0 = Some (r, h1)"
    using Cons.prems n by (cases "run_kind ex E st start h0") auto
  with run_kind_extends [OF assms, of E st start h0] have k': "run_kind ex' E st start h0 = Some (r, h1)"
    by simp
  show ?case
  proof (cases "\<not> st_success r \<and> (\<exists>name. pt_on_failure st = FailFallback name)")
    case True
    then obtain name where f: "pt_on_failure st = FailFallback name" by blast
    then obtain x h2 where x: "ex name h1 = Some (x, h2)"
      using Cons.prems n k True by (cases "ex name h1") auto
    then have "ex' name h1 = Some (x, h2)" using assms by (simp add: extends_def)
    with n k k' f x True Cons show ?thesis by (cases x) (auto simp: split_beta)
  next
    case False
    with n k k' Cons show ?thesis by (auto split: failure_action.split failure_action.splits)
  qed
qed simp

lemma execute_extends: "extends (execute_proc E ps depth inp session) (execute_proc E ps (Suc depth) inp session)"
proof (induction depth)
  case 0
  then show ?case by (simp add: extends_def)
next
  case (Suc depth)
  have "execute_proc E ps (Suc (Suc depth)) inp session name h = execute_proc E ps (Suc depth) inp session name h"
    if "execute_proc E ps (Suc depth) inp session name h \<noteq> None" for name h
  proof (cases "map_of ps name")
    case None
    then show ?thesis by (simp add: execute_missing)
  next
    case (Some p)
    with that have "run_steps (execute_proc E ps depth inp session) E (pr_steps p) []
        (snd (now_utc (snd (now_utc h)))) \<noteq> None"
      by (simp add: execute_found)
    from run_steps_extends [OF Suc.IH this] Some show ?thesis by (simp add: execute_found)
  qed
  then show ?case unfolding extends_def by blast
qed

lemma execute_more_depth:
  assumes "execute_proc E ps depth inp session name h = Some r" and "depth \<le> depth'"
  shows "execute_proc E ps depth' inp session name h = Some r"
  using assms(2,1)
proof (induction rule: dec_induct)
  case (step n)
  then show ?case using execute_extends [of E ps n inp session] by (simp add: extends_def)
qed

lemma ranked_returns:
  assumes ranked: "\<And>name p st q. map_of ps name = Some p \<Longrightarrow> st \<in> set (pr_steps p) \<Longrightarrow>
      q \<in> set (step_calls st) \<Longrightarrow> rank q < (rank name :: nat)"
    and "rank name < depth"
  shows "\<exists>r. execute_proc E ps depth inp session name h = Some r"
  using assms(2)
proof (induction depth arbitrary: name h)
  case (Suc depth)
  show ?case
  proof (cases "map_of ps name")
    case None
    then show ?thesis by (simp add: execute_missing)
  next
    case (Some p)
    have "\<exists>r. run_steps (execute_proc E ps depth inp session) E (pr_steps p) [] h' = Some r" for h'
    proof (rule run_steps_returns)
      fix st q h
      assume "st \<in> set (pr_steps p)" "q \<in> set (step_calls st)"
      from ranked [OF Some this] Suc.prems have "rank q < depth" by simp
      from Suc.IH [OF this] show "execute_proc E ps depth inp session q h \<noteq> None" by auto
    qed
    then obtain r where "run_steps (execute_proc E ps depth inp session) E (pr_steps p) []
        (snd (now_utc (snd (now_utc h)))) = Some r" by blast
    with Some show ?thesis by (simp add: execute_found)
  qed
qed simp

section \<open>What the loop reports\<close>

lemma run_steps_reports:
  assumes "run_steps ex E sts acc h = Some ((ok, err, rs), h')"
  shows "\<exists>new. rs = acc @ new \<and> length new \<le> length sts \<and>
    (ok \<longrightarrow> length new = length sts \<and> err = None) \<and>
    (\<not> ok \<longrightarrow> new \<noteq> [] \<and> \<not> st_success (last new) \<and>
       (pt_on_failure (sts ! (length new - 1)) = FailAbort \<or>
        (\<exists>name. pt_on_failure (sts ! (length new - 1)) = FailFallback name)))"
  using assms
proof (induction sts arbitrary: acc h)
  case (Cons st sts)
  obtain start h0 where n: "now_utc h = (start, h0)" by (cases "now_utc h")
  obtain r h1 where k: "run_kind ex E st start h0 = Some (r, h1)"
    using Cons.prems n by (cases "run_kind ex E st start h0") auto
  have step: ?case if rec: "run_steps ex E sts (acc @ [x]) g = Some ((ok, err, rs), h')" for x g
  proof -
    from Cons.IH [OF rec] obtain new where new: "rs = (acc @ [x]) @ new" "length new \<le> length sts"
      "ok \<longrightarrow> length new = length sts \<and> err = None"
      "\<not> ok \<longrightarrow> new \<noteq> [] \<and> \<not> st_success (last new) \<and>
       (pt_on_failure (sts ! (length new - 1)) = FailAbort \<or>
        (\<exists>name. pt_on_failure (sts ! (length new - 1)) = FailFallback name))" by blast
    then show ?thesis by (intro exI [of _ "x # new"]) (auto simp: nth_Cons')
  qed
  have stop: ?case if "ok = False" "rs = acc @ [r]" "\<not> st_success r"
    "pt_on_failure st = FailAbort \<or> (\<exists>name. pt_on_failure st = FailFallback name)"
    using that by (intro exI [of _ "[r]"]) auto
  show ?case
  proof (cases "st_success r")
    case True
    with n k Cons.prems show ?thesis by (intro step) simp
  next
    case False
    show ?thesis
    proof (cases "pt_on_failure st")
      case FailAbort
      with False n k Cons.prems show ?thesis by (intro stop) simp_all
    next
      case (FailRetry x2)
      with False n k Cons.prems show ?thesis by (intro step) simp
    next
      case FailSkip
      with False n k Cons.prems show ?thesis by (intro step) simp
    next
      case (FailFallback name)
      obtain x h2 where x: "ex name h1 = Some (x, h2)"
        using Cons.prems n k False FailFallback by (cases "ex name h1") auto
      show ?thesis
      proof (cases x)
        case (Inl e)
        with False n k Cons.prems FailFallback x show ?thesis by (intro stop) simp_all
      next
        case (Inr fb)
        with False n k Cons.prems FailFallback x show ?thesis by (intro step) (simp add: split_beta)
      qed
    qed
  qed
qed simp

lemma execute_Some:
  assumes "execute_proc E ps depth inp session name h = Some (Inr oc, h')"
  obtains p d g g' where "depth = Suc d" "map_of ps name = Some p" "po_procedure_id oc = pr_id p"
    "run_steps (execute_proc E ps d inp session) E (pr_steps p) [] g =
       Some ((po_success oc, po_error oc, po_step_results oc), g')"
    "po_output oc = (if po_step_results oc = [] then None else st_output (last (po_step_results oc)))"
proof (cases depth)
  case (Suc d)
  then obtain p where p: "map_of ps name = Some p"
    using assms by (cases "map_of ps name") (simp_all add: execute_missing)
  from assms Suc p show ?thesis
    by (auto simp: execute_found outcome_of_def Let_def split_beta intro!: that [OF Suc p])
qed (use assms in simp)

section \<open>Properties\<close>

text \<open>
  Procedures that do not execute each other in a circle return. If every procedure that a
  step executes, directly or as a fallback, has a smaller rank, \<open>execute\<close> needs no more stack
  than the rank, for every registry, input and clock, and more stack changes nothing.
\<close>

theorem ranked_procedures_return:
  fixes rank :: "string \<Rightarrow> nat"
  assumes "\<And>name p st q. map_of ps name = Some p \<Longrightarrow> st \<in> set (pr_steps p) \<Longrightarrow>
      q \<in> set (step_calls st) \<Longrightarrow> rank q < rank name"
  shows "\<exists>r. \<forall>depth > rank name. execute_proc E ps depth inp session name h = Some r"
proof -
  obtain r where r: "execute_proc E ps (Suc (rank name)) inp session name h = Some r"
    using ranked_returns [of ps rank name "Suc (rank name)"] assms by (metis lessI)
  show ?thesis
    using execute_more_depth [OF r] by (intro exI [of _ r]) (simp add: Suc_le_eq)
qed

definition plain_host :: host where
  "plain_host = \<lparr>clock = (\<lambda>n. int n), millis = (\<lambda>n. of_nat n), ulids = (\<lambda>n. of_nat n), calls = 0\<rparr>"

definition plain_env :: "nat procedure_env" where
  "plain_env = \<lparr>pe_agents = [''scout''], pe_processors = [], pe_object = length, pe_string = length,
     pe_strings = length, pe_usize = id\<rparr>"

definition plain_step :: "nat step_kind \<Rightarrow> failure_action \<Rightarrow> nat procedure_step" where
  "plain_step k f = \<lparr>pt_kind = k, pt_name = ''s'', pt_params = 0, pt_retry_count = 0, pt_timeout_secs = 0,
     pt_on_failure = f\<rparr>"

definition plain_procedure :: "string \<Rightarrow> nat procedure_step list \<Rightarrow> string \<times> nat procedure" where
  "plain_procedure name steps = (name, \<lparr>pr_id = 1, pr_name = name, pr_description = [], pr_steps = steps,
     pr_input_schema = None, pr_output_schema = None, pr_version = [], pr_created_at = 0, pr_tags = []\<rparr>)"

theorem ranked_procedures_return_witness:
  "\<exists>r. \<forall>depth > 1. execute_proc plain_env
     [plain_procedure ''a'' [plain_step (StepSubProcedure ''b'') FailSkip],
      plain_procedure ''b'' [plain_step (StepAgent ''scout'') FailAbort]] depth 0 [] ''a'' plain_host = Some r"
proof -
  let ?ps = "[plain_procedure ''a'' [plain_step (StepSubProcedure ''b'') FailSkip],
      plain_procedure ''b'' [plain_step (StepAgent ''scout'') FailAbort]]"
  let ?rank = "\<lambda>n. if n = ''a'' then 1 else 0 :: nat"
  have "?rank q < ?rank n" if "map_of ?ps n = Some p" "st \<in> set (pr_steps p)" "q \<in> set (step_calls st)" for n p st q
    using that by (auto simp: plain_procedure_def plain_step_def step_calls_def split: if_splits)
  from ranked_procedures_return [of ?ps ?rank "''a''", OF this] show ?thesis by simp
qed

text \<open>
  Nothing guards the recursion: a procedure whose first step executes the procedure itself
  overflows every stack, whatever the step's action on failure is.
\<close>

theorem self_executing_procedure_never_returns:
  assumes "map_of ps name = Some p" and "pr_steps p = st # sts" and "pt_kind st = StepSubProcedure name"
  shows "execute_proc E ps depth inp session name h = None"
proof (induction depth arbitrary: h)
  case (Suc depth)
  have "run_kind (execute_proc E ps depth inp session) E st start g = None" for start g
    by (simp add: run_kind_def assms(3) Suc.IH)
  then show ?case by (simp add: execute_found [OF assms(1)] assms(2) Let_def split_beta)
qed simp

theorem self_executing_procedure_never_returns_witness:
  "execute_proc plain_env [plain_procedure ''a'' [plain_step (StepSubProcedure ''a'') FailSkip]] 1000 0 [] ''a'' plain_host = None"
  using self_executing_procedure_never_returns
    [of "[plain_procedure ''a'' [plain_step (StepSubProcedure ''a'') FailSkip]]" "''a''"]
  by (simp add: plain_procedure_def plain_step_def)

text \<open>
  What an outcome says. A successful execution reports every step, in order, and no error; a
  failed one stopped at its last report, a failed step whose action is to abort or whose
  fallback is missing. The output is that of the last report.
\<close>

theorem outcome_reports_its_steps:
  assumes "execute_proc E ps depth inp session name h = Some (Inr oc, h')"
  obtains p where "map_of ps name = Some p" and "length (po_step_results oc) \<le> length (pr_steps p)"
    and "po_success oc \<Longrightarrow> length (po_step_results oc) = length (pr_steps p) \<and> po_error oc = None"
    and "\<not> po_success oc \<Longrightarrow> po_step_results oc \<noteq> [] \<and> \<not> st_success (last (po_step_results oc)) \<and>
      (pt_on_failure (pr_steps p ! (length (po_step_results oc) - 1)) = FailAbort \<or>
       (\<exists>q. pt_on_failure (pr_steps p ! (length (po_step_results oc) - 1)) = FailFallback q))"
    and "po_output oc = (if po_step_results oc = [] then None else st_output (last (po_step_results oc)))"
proof -
  obtain p d g g' where p: "map_of ps name = Some p"
    and run: "run_steps (execute_proc E ps d inp session) E (pr_steps p) [] g =
       Some ((po_success oc, po_error oc, po_step_results oc), g')"
    and out: "po_output oc = (if po_step_results oc = [] then None else st_output (last (po_step_results oc)))"
    using execute_Some [OF assms] by metis
  from run_steps_reports [OF run] that [OF p] out show ?thesis by auto
qed

text \<open>
  Retrying reports success without running anything again. If every step of a procedure asks
  for at least one retry, an execution that returns is successful, and so are all its
  reports, whatever failed.
\<close>

lemma retry_pow: "(retry_once ^^ Suc n) r = retry_once r"
proof (induction n)
  case (Suc n)
  have "retry_once (retry_once r) = retry_once r" for r :: "'a step_report" by (simp add: retry_once_def)
  with Suc show ?case by simp
qed simp

lemma retried_success: "0 < n \<Longrightarrow> st_success (retried n r)"
proof -
  assume "0 < n"
  then obtain k where "unat n = Suc k" by (metis gr0_implies_Suc unat_gt_0 word_neq_0_conv)
  then show ?thesis unfolding retried_def by (simp only: retry_pow) (simp add: retry_once_def)
qed

lemma run_steps_retried:
  assumes "\<And>st. st \<in> set sts \<Longrightarrow> \<exists>n. 0 < n \<and> pt_on_failure st = FailRetry n"
    and "run_steps ex E sts acc h = Some ((ok, err, rs), h')" and "list_all st_success acc"
  shows "ok \<and> list_all st_success rs"
  using assms
proof (induction sts arbitrary: acc h)
  case (Cons st sts)
  obtain start h0 where n: "now_utc h = (start, h0)" by (cases "now_utc h")
  obtain r h1 where k: "run_kind ex E st start h0 = Some (r, h1)"
    using Cons.prems(2) n by (cases "run_kind ex E st start h0") auto
  obtain m where m: "0 < m" "pt_on_failure st = FailRetry m" using Cons.prems(1) [of st] by auto
  define x where "x = (if st_success r then r else retried m r)"
  have "run_steps ex E sts (acc @ [x]) h1 = Some ((ok, err, rs), h')"
    using Cons.prems(2) n k m(2) by (simp add: x_def split: if_splits)
  moreover have "list_all st_success (acc @ [x])"
    using Cons.prems(3) retried_success [OF m(1), of r] by (simp add: x_def)
  ultimately show ?case using Cons.prems(1) by (intro Cons.IH) auto
qed simp

theorem retry_hides_every_failure:
  assumes "map_of ps name = Some p"
    and "\<And>st. st \<in> set (pr_steps p) \<Longrightarrow> \<exists>n. 0 < n \<and> pt_on_failure st = FailRetry n"
    and "execute_proc E ps depth inp session name h = Some (Inr oc, h')"
  shows "po_success oc \<and> list_all st_success (po_step_results oc)"
proof -
  obtain q d g g' where q: "map_of ps name = Some q"
    and run: "run_steps (execute_proc E ps d inp session) E (pr_steps q) [] g =
       Some ((po_success oc, po_error oc, po_step_results oc), g')"
    using execute_Some [OF assms(3)] by metis
  have "q = p" using q assms(1) by simp
  with run_steps_retried [OF assms(2) run [unfolded \<open>q = p\<close>]] show ?thesis by simp
qed

definition lone_retry :: "nat procedures" where
  "lone_retry = [plain_procedure ''a'' [plain_step (StepAgent ''nobody'') (FailRetry 1)]]"

theorem retry_hides_every_failure_witness:
  "\<exists>oc h'. execute_proc plain_env lone_retry 1 0 [] ''a'' plain_host = Some (Inr oc, h') \<and> po_success oc"
proof -
  obtain p where p: "map_of lone_retry ''a'' = Some p" "pr_steps p = [plain_step (StepAgent ''nobody'') (FailRetry 1)]"
    by (simp add: lone_retry_def plain_procedure_def)
  have "\<exists>oc h'. execute_proc plain_env lone_retry (Suc 0) 0 [] ''a'' plain_host = Some (Inr oc, h')"
    by (simp add: execute_found [OF p(1)] p(2) outcome_of_def run_kind_def report_def plain_step_def
        plain_env_def Let_def split_beta)
  then obtain oc h' where oc: "execute_proc plain_env lone_retry 1 0 [] ''a'' plain_host = Some (Inr oc, h')" by auto
  have "\<exists>n. 0 < n \<and> pt_on_failure st = FailRetry n" if "st \<in> set (pr_steps p)" for st
    using that by (auto simp: p(2) plain_step_def intro!: exI [of _ 1])
  from retry_hides_every_failure [OF p(1) this oc] oc show ?thesis by blast
qed

end
