(* ===== verification/Merkle_Tree.thy ===== *)
theory Merkle_Tree
  imports Prelude
begin

text \<open>
  \<^verbatim>\<open>src/crates/algorithms/src/storage.rs\<close>, the Merkle tree: the hashes of the leaves, the levels
  above them and the root, proofs of membership and their verification. SHA-256 is the
  argument \<open>H\<close>; nothing is assumed of it.
\<close>

type_synonym bytes = "u8 list"
type_synonym hash = "bytes \<Rightarrow> bytes"

record merkle_tree =
  mt_root :: "bytes option"
  mt_leaves :: "bytes list"
  mt_levels :: "bytes list list"

definition mt_new :: merkle_tree where
  "mt_new = \<lparr>mt_root = None, mt_leaves = [], mt_levels = []\<rparr>"

definition add_leaf :: "hash \<Rightarrow> bytes \<Rightarrow> merkle_tree \<Rightarrow> merkle_tree" where
  "add_leaf H data t = t\<lparr>mt_leaves := mt_leaves t @ [H data]\<rparr>"

text \<open>One round over \<open>chunks(2)\<close>: a pair is hashed, a single node is taken up as it is.\<close>

fun next_level :: "hash \<Rightarrow> bytes list \<Rightarrow> bytes list" where
  "next_level H [] = []"
| "next_level H [a] = [a]"
| "next_level H (a # b # xs) = H (a @ b) # next_level H xs"

lemma length_next_level: "length (next_level H xs) = (length xs + 1) div 2"
  by (induction H xs rule: next_level.induct) simp_all

text \<open>The \<open>while\<close> loop of \<open>build\<close>: the levels from a level up to the root.\<close>

function levels_from :: "hash \<Rightarrow> bytes list \<Rightarrow> bytes list list" where
  "levels_from H current =
     (if 1 < length current then current # levels_from H (next_level H current) else [current])"
  by pat_completeness auto
termination
  by (relation "measure (\<lambda>(H, current). length current)") (auto simp: length_next_level)

declare levels_from.simps [simp del]

definition mt_build :: "hash \<Rightarrow> merkle_tree \<Rightarrow> merkle_tree" where
  "mt_build H t =
     (if mt_leaves t = [] then t\<lparr>mt_root := None, mt_levels := []\<rparr>
      else (let levels = levels_from H (mt_leaves t)
            in t\<lparr>mt_levels := levels, mt_root := Some (hd (last levels))\<rparr>))"

definition from_data :: "hash \<Rightarrow> bytes list \<Rightarrow> merkle_tree" where
  "from_data H data = mt_build H (fold (add_leaf H) data mt_new)"

text \<open>One step of \<open>verify\<close>: the sibling is on the right or on the left.\<close>

definition combine :: "hash \<Rightarrow> bytes \<times> bool \<Rightarrow> bytes \<Rightarrow> bytes" where
  "combine H step h = (case step of (sibling, is_right) \<Rightarrow> if is_right then H (h @ sibling) else H (sibling @ h))"

definition mt_verify :: "hash \<Rightarrow> merkle_tree \<Rightarrow> bytes \<Rightarrow> (bytes \<times> bool) list \<Rightarrow> bool" where
  "mt_verify H t data proof_steps \<longleftrightarrow> Some (fold (combine H) proof_steps (H data)) = mt_root t"

definition sibling_index :: "nat \<Rightarrow> nat" where
  "sibling_index i = (if even i then i + 1 else i - 1)"

fun proof_from :: "bytes list list \<Rightarrow> nat \<Rightarrow> (bytes \<times> bool) list" where
  "proof_from [] i = []"
| "proof_from (level # levels) i =
     (if sibling_index i < length level then [(level ! sibling_index i, even i)] else []) @
     proof_from levels (i div 2)"

definition generate_proof :: "merkle_tree \<Rightarrow> nat \<Rightarrow> (bytes \<times> bool) list option" where
  "generate_proof t i =
     (if length (mt_leaves t) \<le> i \<or> mt_levels t = [] then None
      else Some (proof_from (butlast (mt_levels t)) i))"

definition leaf_count :: "merkle_tree \<Rightarrow> nat" where
  "leaf_count t = length (mt_leaves t)"

section \<open>Proofs climb the levels\<close>

lemma levels_from_ne [simp]: "levels_from H xs \<noteq> []"
  by (subst levels_from.simps) simp

lemma leaves_fold [simp]: "mt_leaves (fold (add_leaf H) ds t) = mt_leaves t @ map H ds"
  by (induction ds arbitrary: t) (simp_all add: add_leaf_def)

lemma from_data_levels:
  "ds \<noteq> [] \<Longrightarrow> mt_leaves (from_data H ds) = map H ds \<and> mt_levels (from_data H ds) = levels_from H (map H ds) \<and>
   mt_root (from_data H ds) = Some (hd (last (levels_from H (map H ds))))"
  by (simp add: from_data_def mt_build_def mt_new_def Let_def)

text \<open>The parent of a node: the node combined with its sibling, or the node itself.\<close>

lemma next_level_nth:
  "i < length xs \<Longrightarrow> next_level H xs ! (i div 2) =
   (if sibling_index i < length xs then combine H (xs ! sibling_index i, even i) (xs ! i) else xs ! i)"
proof (induction H xs arbitrary: i rule: next_level.induct)
  case (3 H a b xs)
  show ?case
  proof (cases "i < 2")
    case True
    then have "i = 0 \<or> i = 1" by auto
    then show ?thesis by (auto simp: sibling_index_def combine_def)
  next
    case False
    then obtain j where j: "i = Suc (Suc j)" by (metis add_2_eq_Suc le_Suc_ex not_le)
    have s: "sibling_index i = Suc (Suc (sibling_index j))"
      by (cases "even j") (auto simp: j sibling_index_def elim: oddE)
    show ?thesis using 3 by (simp add: j s [unfolded j])
  qed
qed (simp_all add: sibling_index_def)

lemma proof_climbs:
  "i < length xs \<Longrightarrow>
   fold (combine H) (proof_from (butlast (levels_from H xs)) i) (xs ! i) = hd (last (levels_from H xs))"
proof (induction H xs arbitrary: i rule: levels_from.induct)
  case (1 H xs)
  show ?case
  proof (cases "1 < length xs")
    case True
    have "i div 2 < length (next_level H xs)" using 1(2) by (simp add: length_next_level)
    from 1(1) [OF True this] show ?thesis
      using True 1(2) by (subst (1 2) levels_from.simps) (simp add: next_level_nth split: if_splits)
  next
    case False
    with 1(2) show ?thesis by (subst (1 2) levels_from.simps) (cases xs, auto)
  qed
qed

lemma proof_length: "length (proof_from ls i) \<le> length ls"
  by (induction ls arbitrary: i) (auto simp: le_SucI)

lemma levels_log: "0 < length xs \<Longrightarrow> 2 ^ (length (levels_from H xs) - 1) < 2 * length xs"
proof (induction H xs rule: levels_from.induct)
  case (1 H xs)
  show ?case
  proof (cases "1 < length xs")
    case True
    let ?n = "length (levels_from H (next_level H xs))"
    have "0 < length (next_level H xs)" using True by (simp add: length_next_level)
    from 1(1) [OF True this] have "2 ^ (?n - 1) < 2 * ((length xs + 1) div 2)" by (simp add: length_next_level)
    then have m: "2 ^ (?n - 1) < 2 * ((length xs + 1) div 2)" .
    have "2 ^ (?n - 1) < length xs"
    proof (cases "?n - 1")
      case 0
      with True show ?thesis by simp
    next
      case (Suc k)
      with m have "2 ^ k < (length xs + 1) div 2" by simp
      then have "2 * 2 ^ k < length xs" by (simp add: less_eq_div_iff_mult_less_eq Suc_le_eq [symmetric])
      then show ?thesis unfolding Suc by simp
    qed
    moreover have "(2::nat) ^ ?n = 2 * 2 ^ (?n - 1)" by (metis Suc_diff_1 length_greater_0_conv levels_from_ne power_Suc)
    ultimately show ?thesis using True by (subst levels_from.simps) simp
  next
    case False
    with 1(2) show ?thesis by (cases xs) (simp_all add: levels_from.simps)
  qed
qed

section \<open>Properties\<close>

lemma leaf_proof:
  assumes "i < length ds"
  shows "\<exists>steps. generate_proof (from_data H ds) i = Some steps \<and>
    mt_verify H (from_data H ds) (ds ! i) steps \<and> 2 ^ length steps < 2 * length ds"
proof -
  have ne: "ds \<noteq> []" and i: "i < length (map H ds)" using assms by auto
  let ?levels = "levels_from H (map H ds)"
  let ?steps = "proof_from (butlast ?levels) i"
  have "generate_proof (from_data H ds) i = Some ?steps"
    using assms from_data_levels [OF ne, of H] by (simp add: generate_proof_def)
  moreover have "mt_verify H (from_data H ds) (ds ! i) ?steps"
    using proof_climbs [OF i, of H] from_data_levels [OF ne, of H] assms by (simp add: mt_verify_def)
  moreover have "2 ^ length ?steps < 2 * length ds"
  proof -
    have "(2::nat) ^ length ?steps \<le> 2 ^ (length ?levels - 1)"
      using proof_length [of "butlast ?levels" i] by (intro power_increasing) simp_all
    also have "\<dots> < 2 * length (map H ds)" using ne by (intro levels_log) simp
    finally show ?thesis by simp
  qed
  ultimately show ?thesis by (intro exI [of _ ?steps]) simp
qed

text \<open>
  C25. Proofs of membership verify. For every list of data, whatever the hash function is, each
  element has a proof, the tree accepts it, and it is logarithmic: it has fewer steps than it
  takes to double up to twice the number of leaves.
\<close>

theorem membership_proofs_verify:
  assumes "i < length ds"
  shows "\<exists>steps. generate_proof (from_data H ds) i = Some steps \<and>
    mt_verify H (from_data H ds) (ds ! i) steps \<and> 2 ^ length steps < 2 * length ds"
  by (rule leaf_proof [OF assms])

theorem membership_proofs_verify_witness:
  "\<exists>steps. generate_proof (from_data (\<lambda>x. take 2 x) [[1], [2], [3]]) 2 = Some steps \<and>
    mt_verify (\<lambda>x. take 2 x) (from_data (\<lambda>x. take 2 x) [[1], [2], [3]]) [3] steps"
  using membership_proofs_verify [of 2 "[[1], [2], [3]]" "\<lambda>x. take 2 x"] by auto

text \<open>The inputs of the hash function while a proof is checked, in order.\<close>

fun hash_inputs :: "hash \<Rightarrow> (bytes \<times> bool) list \<Rightarrow> bytes \<Rightarrow> bytes list" where
  "hash_inputs H [] x = [x]"
| "hash_inputs H ((sibling, is_right) # steps) x =
     x # hash_inputs H steps (if is_right then H x @ sibling else sibling @ H x)"

lemma combine_step: "combine H (sibling, is_right) (H x) = H (if is_right then H x @ sibling else sibling @ H x)"
  by (simp add: combine_def)

lemma fold_hash_inputs: "fold (combine H) steps (H x) = H (last (hash_inputs H steps x))"
proof (induction steps arbitrary: x)
  case (Cons st steps)
  obtain sibling is_right where st: "st = (sibling, is_right)" by (cases st)
  have ne: "hash_inputs H steps y \<noteq> []" for y by (cases steps) auto
  show ?case using Cons [of "if is_right then H x @ sibling else sibling @ H x"]
    by (simp only: st fold_simps combine_step hash_inputs.simps last_ConsR [OF ne])
qed simp

lemma inputs_collide:
  assumes "fold (combine H) steps (H x) = fold (combine H) steps (H y)" "x \<noteq> y"
  shows "\<exists>k\<le>length steps. hash_inputs H steps x ! k \<noteq> hash_inputs H steps y ! k
    \<and> H (hash_inputs H steps x ! k) = H (hash_inputs H steps y ! k)"
  using assms
proof (induction steps arbitrary: x y)
  case (Cons st steps)
  obtain sibling is_right where st: "st = (sibling, is_right)" by (cases st)
  show ?case
  proof (cases "H x = H y")
    case True
    with Cons.prems(2) show ?thesis by (intro exI [of _ 0]) (simp add: st)
  next
    case False
    let ?next = "\<lambda>x. if is_right then H x @ sibling else sibling @ H x"
    have "?next x \<noteq> ?next y" using False by simp
    moreover have "fold (combine H) steps (H (?next x)) = fold (combine H) steps (H (?next y))"
      using Cons.prems(1) by (simp only: st fold_simps combine_step)
    ultimately obtain k where "k \<le> length steps"
      "hash_inputs H steps (?next x) ! k \<noteq> hash_inputs H steps (?next y) ! k
       \<and> H (hash_inputs H steps (?next x) ! k) = H (hash_inputs H steps (?next y) ! k)"
      using Cons.IH by blast
    then show ?thesis by (intro exI [of _ "Suc k"]) (simp add: st)
  qed
qed simp

text \<open>
  Data that was changed is refused, or a collision of the hash function is at hand: if the
  proof of an element is accepted for other data, then at one and the same step of the two checks
  two different inputs were given to the hash function and it answered the same.
\<close>

theorem changed_data_needs_a_collision:
  assumes "i < length ds" and "generate_proof (from_data H ds) i = Some steps"
    and "mt_verify H (from_data H ds) data steps" and "data \<noteq> ds ! i"
  shows "\<exists>k\<le>length steps. hash_inputs H steps data ! k \<noteq> hash_inputs H steps (ds ! i) ! k
    \<and> H (hash_inputs H steps data ! k) = H (hash_inputs H steps (ds ! i) ! k)"
proof -
  obtain steps' where s: "generate_proof (from_data H ds) i = Some steps'"
    "mt_verify H (from_data H ds) (ds ! i) steps'"
    using leaf_proof [OF assms(1)] by blast
  then have "steps' = steps" using assms(2) by simp
  with s(2) assms(3) have "fold (combine H) steps (H data) = fold (combine H) steps (H (ds ! i))"
    unfolding mt_verify_def by (metis \<open>steps' = steps\<close> option.inject)
  then show ?thesis using assms(4) by (rule inputs_collide)
qed

theorem changed_data_needs_a_collision_witness:
  "\<exists>k\<le>0. hash_inputs (\<lambda>x. take 1 x) [] [1, 3] ! k \<noteq> hash_inputs (\<lambda>x. take 1 x) [] [1, 2] ! k"
proof -
  let ?t = "from_data (\<lambda>x. take 1 x) [[1, 2]]"
  have "generate_proof ?t 0 = Some []" by code_simp
  moreover have "mt_verify (\<lambda>x. take 1 x) ?t [1, 3] []" by code_simp
  ultimately show ?thesis
    using changed_data_needs_a_collision [of 0 "[[1, 2]]" "\<lambda>x. take 1 x" "[]" "[1, 3]"] by simp
qed

text \<open>
  Leaves and inner nodes are hashed alike, so the tree also accepts what was never put into
  it: the concatenated hashes of the first two leaves pass for a leaf, with the rest of the
  first leaf's proof.
\<close>

theorem inner_node_passes_for_a_leaf:
  assumes "generate_proof (from_data H (a # b # ds)) 0 = Some steps"
  shows "mt_verify H (from_data H (a # b # ds)) (H a @ H b) (tl steps)"
proof -
  have ne: "a # b # ds \<noteq> []" by simp
  note t = from_data_levels [OF ne, of H]
  obtain steps' where s: "generate_proof (from_data H (a # b # ds)) 0 = Some steps'"
    "mt_verify H (from_data H (a # b # ds)) a steps'"
    using leaf_proof [of 0 "a # b # ds" H] by auto
  have eq: "steps' = steps" using s(1) assms by simp
  have "steps = proof_from (butlast (levels_from H (H a # H b # map H ds))) 0"
    using assms t by (simp add: generate_proof_def split: if_splits)
  then have "steps = (H b, True) # tl steps"
    by (subst (asm) levels_from.simps) (simp add: sibling_index_def)
  then obtain rest where rest: "steps = (H b, True) # rest" by blast
  then have "fold (combine H) steps (H a) = fold (combine H) (tl steps) (H (H a @ H b))"
    by (simp add: combine_def)
  with s(2) eq show ?thesis by (simp add: mt_verify_def)
qed

theorem inner_node_passes_for_a_leaf_witness:
  "mt_verify (\<lambda>x. 7 # x) (from_data (\<lambda>x. 7 # x) [[1], [2]]) [7, 1, 7, 2] [] \<and> [7, 1, 7, 2] \<notin> set [[1], [2 :: u8]]"
proof -
  have "generate_proof (from_data (\<lambda>x. 7 # x) [[1], [2]]) 0 = Some [([7, 2], True)]" by code_simp
  from inner_node_passes_for_a_leaf [OF this] show ?thesis by simp
qed

end
