(* ===== verification/Btree_Map.thy ===== *)
theory Btree_Map
  imports Prelude
begin

text \<open>
  The \<open>BTreeMap\<close> of the standard library: an association list in the strict order of its keys.
\<close>

type_synonym ('k, 'v) btree = "('k \<times> 'v) list"

definition bt_ordered :: "('k::linorder, 'v) btree \<Rightarrow> bool" where
  "bt_ordered m \<longleftrightarrow> sorted_wrt (<) (map fst m)"

fun bt_insert :: "'k::linorder \<Rightarrow> 'v \<Rightarrow> ('k, 'v) btree \<Rightarrow> ('k, 'v) btree" where
  "bt_insert k v [] = [(k, v)]"
| "bt_insert k v ((k', v') # m) =
     (if k < k' then (k, v) # (k', v') # m
      else if k = k' then (k, v) # m else (k', v') # bt_insert k v m)"

text \<open>\<open>entry(k).or_insert_with(v)\<close>.\<close>

definition bt_or_insert :: "'k::linorder \<Rightarrow> 'v \<Rightarrow> ('k, 'v) btree \<Rightarrow> ('k, 'v) btree" where
  "bt_or_insert k v m = (if map_of m k = None then bt_insert k v m else m)"

text \<open>\<open>range(start..=stop)\<close> panics if \<open>start\<close> is greater than \<open>stop\<close>.\<close>

definition bt_range :: "'k::linorder \<Rightarrow> 'k \<Rightarrow> ('k, 'v) btree \<Rightarrow> ('k, 'v) btree option" where
  "bt_range start stop m =
     (if stop < start then None else Some (filter (\<lambda>(k, _). start \<le> k \<and> k \<le> stop) m))"

lemma bt_insert_keys [simp]: "fst ` set (bt_insert k v m) = insert k (fst ` set m)"
  by (induction k v m rule: bt_insert.induct) (simp_all add: insert_commute)

lemma bt_insert_get [simp]: "map_of (bt_insert k v m) = (map_of m)(k \<mapsto> v)"
  by (induction m) (auto simp: fun_eq_iff)

lemma bt_insert_ordered: "bt_ordered m \<Longrightarrow> bt_ordered (bt_insert k v m)"
proof (induction m)
  case (Cons x m)
  obtain k' v' where x: "x = (k', v')" by (cases x)
  have "\<forall>y\<in>fst ` set (bt_insert k v m). k' < y" if "k' < k"
    using Cons.prems that by (simp add: x bt_ordered_def)
  with Cons show ?case by (auto simp: x bt_ordered_def)
qed (simp add: bt_ordered_def)

lemma bt_or_insert_get: "map_of (bt_or_insert k v m) = [k \<mapsto> v] ++ map_of m"
  by (auto simp: bt_or_insert_def fun_eq_iff map_add_def split: option.split)

lemma bt_or_insert_ordered: "bt_ordered m \<Longrightarrow> bt_ordered (bt_or_insert k v m)"
  by (simp add: bt_or_insert_def bt_insert_ordered)

lemma bt_ordered_distinct: "bt_ordered m \<Longrightarrow> distinct (map fst m)"
  by (simp add: bt_ordered_def strict_sorted_iff)

definition bt_inserts :: "('k::linorder \<times> 'v) list \<Rightarrow> ('k, 'v) btree \<Rightarrow> ('k, 'v) btree" where
  "bt_inserts xs m = fold (\<lambda>(k, v). bt_insert k v) xs m"

lemma bt_inserts_ordered: "bt_ordered m \<Longrightarrow> bt_ordered (bt_inserts xs m)"
  unfolding bt_inserts_def by (induction xs arbitrary: m) (auto simp: bt_insert_ordered)

lemma bt_inserts_get: "distinct (map fst xs) \<Longrightarrow> map_of (bt_inserts xs m) = map_of m ++ map_of xs"
  unfolding bt_inserts_def
proof (induction xs arbitrary: m)
  case (Cons x xs)
  obtain k v where x: "x = (k, v)" by (cases x)
  have "map_of xs k = None" using Cons.prems by (simp add: x map_of_eq_None_iff)
  with Cons show ?case by (auto simp: x fun_eq_iff map_add_def split: option.split)
qed simp

lemma map_of_filter_key: "map_of (filter (\<lambda>(k, _). P k) m) = (\<lambda>k. if P k then map_of m k else None)"
  by (induction m) (auto simp: fun_eq_iff)

lemma bt_filter_ordered: "bt_ordered m \<Longrightarrow> bt_ordered (filter P m)"
  unfolding bt_ordered_def by (induction m) auto

end
