(* ===== verification/Lsm_Tree.thy ===== *)
theory Lsm_Tree
  imports Btree_Map
begin

text \<open>
  \<^verbatim>\<open>src/crates/algorithms/src/storage.rs\<close>, the log-structured merge tree: a table in memory
  that is frozen when it is full, and frozen tables that are merged when there are four. A panic is
  \<open>None\<close>; the product \<open>max_memtable_size * 2\<close> is taken not to overflow.
\<close>

section \<open>The tree\<close>

record ('k, 'v) lsm_tree =
  lsm_memtable :: "('k, 'v) btree"
  lsm_sstables :: "('k, 'v) btree list"
  lsm_max_memtable_size :: nat
  lsm_compaction_threshold :: nat

definition lsm_new :: "nat \<Rightarrow> ('k, 'v) lsm_tree" where
  "lsm_new max_size = \<lparr>lsm_memtable = [], lsm_sstables = [], lsm_max_memtable_size = max_size,
     lsm_compaction_threshold = 4\<rparr>"

text \<open>\<open>chunks(n)\<close>, for \<open>n\<close> not zero.\<close>

function chunks :: "nat \<Rightarrow> 'a list \<Rightarrow> 'a list list" where
  "chunks n xs = (if n = 0 \<or> xs = [] then [] else take n xs # chunks n (drop n xs))"
  by pat_completeness auto
termination
  by (relation "measure (\<lambda>(n, xs). length xs)") auto

declare chunks.simps [simp del]

text \<open>\<open>compact\<close>: the later table wins; a big result is split again, and \<open>chunks(0)\<close> panics.\<close>

definition lsm_merged :: "('k::linorder, 'v) btree list \<Rightarrow> ('k, 'v) btree" where
  "lsm_merged sstables = fold bt_inserts sstables []"

definition lsm_compact :: "('k::linorder, 'v) lsm_tree \<Rightarrow> ('k, 'v) lsm_tree option" where
  "lsm_compact s =
     (let merged = lsm_merged (lsm_sstables s)
      in if lsm_max_memtable_size s * 2 < length merged
         then (if lsm_max_memtable_size s = 0 then None
               else Some (s\<lparr>lsm_sstables :=
                      map (\<lambda>chunk. bt_inserts chunk []) (chunks (lsm_max_memtable_size s) merged)\<rparr>))
         else Some (s\<lparr>lsm_sstables := [merged]\<rparr>))"

definition lsm_flush :: "('k::linorder, 'v) lsm_tree \<Rightarrow> ('k, 'v) lsm_tree option" where
  "lsm_flush s =
     (if lsm_memtable s = [] then Some s
      else (let s1 = s\<lparr>lsm_memtable := [], lsm_sstables := lsm_sstables s @ [lsm_memtable s]\<rparr>
            in if lsm_compaction_threshold s \<le> length (lsm_sstables s1) then lsm_compact s1 else Some s1))"

definition lsm_insert :: "'k::linorder \<Rightarrow> 'v \<Rightarrow> ('k, 'v) lsm_tree \<Rightarrow> ('k, 'v) lsm_tree option" where
  "lsm_insert k v s =
     (let s1 = s\<lparr>lsm_memtable := bt_insert k v (lsm_memtable s)\<rparr>
      in if lsm_max_memtable_size s \<le> length (lsm_memtable s1) then lsm_flush s1 else Some s1)"

text \<open>The first of the tables, in their order, that knows the key.\<close>

fun first_of :: "('k, 'v) btree list \<Rightarrow> 'k \<Rightarrow> 'v option" where
  "first_of [] k = None"
| "first_of (m # ms) k = (case map_of m k of Some v \<Rightarrow> Some v | None \<Rightarrow> first_of ms k)"

definition lsm_get :: "('k, 'v) lsm_tree \<Rightarrow> 'k \<Rightarrow> 'v option" where
  "lsm_get s k =
     (case map_of (lsm_memtable s) k of Some v \<Rightarrow> Some v | None \<Rightarrow> first_of (rev (lsm_sstables s)) k)"

definition lsm_contains_key :: "('k, 'v) lsm_tree \<Rightarrow> 'k \<Rightarrow> bool" where
  "lsm_contains_key s k \<longleftrightarrow>
     map_of (lsm_memtable s) k \<noteq> None \<or> list_ex (\<lambda>m. map_of m k \<noteq> None) (rev (lsm_sstables s))"

definition lsm_memtable_size :: "('k, 'v) lsm_tree \<Rightarrow> nat" where
  "lsm_memtable_size s = length (lsm_memtable s)"

definition lsm_sstable_count :: "('k, 'v) lsm_tree \<Rightarrow> nat" where
  "lsm_sstable_count s = length (lsm_sstables s)"

definition lsm_total_entries :: "('k, 'v) lsm_tree \<Rightarrow> nat" where
  "lsm_total_entries s = fold (\<lambda>m total_n. total_n + length m) (lsm_sstables s) (length (lsm_memtable s))"

text \<open>The frozen tables, the latest first, add what is not in the result yet.\<close>

fun add_older :: "'k::linorder \<Rightarrow> 'k \<Rightarrow> ('k, 'v) btree list \<Rightarrow> ('k, 'v) btree \<Rightarrow> ('k, 'v) btree option" where
  "add_older start stop [] results = Some results"
| "add_older start stop (m # ms) results =
     (case bt_range start stop m of
        None \<Rightarrow> None
      | Some part \<Rightarrow> add_older start stop ms (fold (\<lambda>(k, v). bt_or_insert k v) part results))"

definition lsm_range_scan :: "('k::linorder, 'v) lsm_tree \<Rightarrow> 'k \<Rightarrow> 'k \<Rightarrow> ('k, 'v) btree option" where
  "lsm_range_scan s start stop =
     (case bt_range start stop (lsm_memtable s) of
        None \<Rightarrow> None
      | Some part \<Rightarrow> add_older start stop (rev (lsm_sstables s)) (bt_inserts part []))"

section \<open>The map a tree stands for\<close>

text \<open>The tables from the oldest to the newest, the later overriding the earlier.\<close>

definition stack_map :: "('k, 'v) btree list \<Rightarrow> ('k \<rightharpoonup> 'v)" where
  "stack_map ms = fold (\<lambda>m acc. acc ++ map_of m) ms Map.empty"

lemma stack_map_simps [simp]:
  "stack_map [] = Map.empty" "stack_map (ms @ [m]) = stack_map ms ++ map_of m"
  by (simp_all add: stack_map_def)

lemma stack_map_Cons: "stack_map (m # ms) = map_of m ++ stack_map ms"
  by (induction ms rule: rev_induct) (simp_all add: stack_map_def map_add_assoc)

lemma stack_map_one [simp]: "stack_map [m] = map_of m"
  by (simp add: stack_map_def)

lemma stack_map_append: "stack_map (ms @ ns) = stack_map ms ++ stack_map ns"
  by (induction ns rule: rev_induct) (simp_all add: append_assoc [symmetric] del: append_assoc)

definition lsm_map :: "('k, 'v) lsm_tree \<Rightarrow> ('k \<rightharpoonup> 'v)" where
  "lsm_map s = stack_map (lsm_sstables s @ [lsm_memtable s])"

definition lsm_inv :: "('k::linorder, 'v) lsm_tree \<Rightarrow> bool" where
  "lsm_inv s \<longleftrightarrow> bt_ordered (lsm_memtable s) \<and> (\<forall>m\<in>set (lsm_sstables s). bt_ordered m)"

lemma first_of_rev: "first_of (rev ms) = stack_map ms"
  by (induction ms rule: rev_induct) (auto simp: fun_eq_iff map_add_def split: option.split)

lemma lsm_get_map: "lsm_get s = lsm_map s"
  by (auto simp: fun_eq_iff lsm_get_def lsm_map_def first_of_rev map_add_def split: option.split)

lemma merged_ordered: "bt_ordered (lsm_merged ms)"
proof -
  have "bt_ordered m \<Longrightarrow> bt_ordered (fold bt_inserts ms m)" for m
    by (induction ms arbitrary: m) (simp_all add: bt_inserts_ordered)
  then show ?thesis by (simp add: lsm_merged_def bt_ordered_def)
qed

lemma merged_get: "\<forall>m\<in>set ms. bt_ordered m \<Longrightarrow> map_of (lsm_merged ms) = stack_map ms"
  unfolding lsm_merged_def
  by (induction ms rule: rev_induct) (simp_all add: bt_inserts_get bt_ordered_distinct)

lemma concat_chunks: "0 < n \<Longrightarrow> concat (chunks n xs) = xs"
  by (induction n xs rule: chunks.induct) (subst chunks.simps, auto)

lemma stack_map_distinct_chunks:
  "distinct (map fst (concat cs)) \<Longrightarrow> stack_map (map (\<lambda>c. bt_inserts c []) cs) = map_of (concat cs)"
proof (induction cs)
  case (Cons c cs)
  then have "fst ` set c \<inter> fst ` set (concat cs) = {}" by auto
  then have "map_of c ++ map_of (concat cs) = map_of (concat cs) ++ map_of c"
    by (intro map_add_comm) (simp add: dom_map_of_conv_image_fst)
  with Cons show ?case by (simp add: stack_map_Cons bt_inserts_get map_of_append)
qed simp


lemma chunks_subset: "c \<in> set (chunks n xs) \<Longrightarrow> set c \<subseteq> set xs"
  by (induction n xs rule: chunks.induct)
     (subst (asm) (2) chunks.simps, auto split: if_splits dest: in_set_takeD in_set_dropD)

text \<open>\<open>compact\<close> and \<open>flush\<close> change the tables and not the map.\<close>

lemma compact_keeps:
  assumes "lsm_inv s" and "0 < lsm_max_memtable_size s"
  obtains s' where "lsm_compact s = Some s'" "lsm_inv s'" "lsm_map s' = lsm_map s"
    "lsm_memtable s' = lsm_memtable s"
    "lsm_max_memtable_size s' = lsm_max_memtable_size s"
proof -
  let ?m = "lsm_merged (lsm_sstables s)" and ?n = "lsm_max_memtable_size s"
  have m: "map_of ?m = stack_map (lsm_sstables s)"
    using assms(1) by (simp add: merged_get lsm_inv_def)
  have c: "stack_map (map (\<lambda>c. bt_inserts c []) (chunks ?n ?m)) = map_of ?m"
    using stack_map_distinct_chunks [of "chunks ?n ?m"] assms(2)
    by (simp add: concat_chunks bt_ordered_distinct merged_ordered)
  show thesis
    by (rule that [of "the (lsm_compact s)"])
       (use assms m c in \<open>auto simp: lsm_compact_def Let_def lsm_inv_def lsm_map_def merged_ordered
          bt_inserts_ordered bt_ordered_def [of "[]"]\<close>)
qed

lemma flush_keeps:
  assumes "lsm_inv s" and "0 < lsm_max_memtable_size s"
  obtains s' where "lsm_flush s = Some s'" "lsm_inv s'" "lsm_map s' = lsm_map s"
    "lsm_max_memtable_size s' = lsm_max_memtable_size s" "lsm_memtable s' = []"
proof -
  let ?s = "s\<lparr>lsm_memtable := [], lsm_sstables := lsm_sstables s @ [lsm_memtable s]\<rparr>"
  have i: "lsm_inv ?s" "lsm_map ?s = lsm_map s" "0 < lsm_max_memtable_size ?s"
    using assms by (auto simp: lsm_inv_def lsm_map_def bt_ordered_def stack_map_append stack_map_Cons)
  obtain s' where "lsm_compact ?s = Some s'" "lsm_inv s'" "lsm_map s' = lsm_map s"
    "lsm_memtable s' = []" "lsm_max_memtable_size s' = lsm_max_memtable_size s"
    using compact_keeps [OF i(1,3)] i(2) by auto
  note c = this
  consider "lsm_flush s = Some s" "lsm_memtable s = []" | "lsm_flush s = Some s'" | "lsm_flush s = Some ?s"
    using c(1) by (cases "lsm_memtable s = []"; cases "lsm_compaction_threshold s \<le> length (lsm_sstables ?s)")
      (simp_all add: lsm_flush_def Let_def)
  then show thesis
    by cases (use that assms(1) i c in auto)
qed

lemma insert_updates:
  assumes "lsm_inv s" and "0 < lsm_max_memtable_size s"
  obtains s' where "lsm_insert k v s = Some s'" "lsm_inv s'" "lsm_map s' = (lsm_map s)(k \<mapsto> v)"
    "lsm_max_memtable_size s' = lsm_max_memtable_size s"
proof -
  let ?s = "s\<lparr>lsm_memtable := bt_insert k v (lsm_memtable s)\<rparr>"
  have i: "lsm_inv ?s" "lsm_map ?s = (lsm_map s)(k \<mapsto> v)" "0 < lsm_max_memtable_size ?s"
    using assms by (auto simp: lsm_inv_def lsm_map_def bt_insert_ordered map_add_upd)
  obtain s' where "lsm_flush ?s = Some s'" "lsm_inv s'" "lsm_map s' = (lsm_map s)(k \<mapsto> v)"
    "lsm_max_memtable_size s' = lsm_max_memtable_size s"
    using flush_keeps [OF i(1,3)] i(2) by auto
  then show thesis
    by (cases "lsm_max_memtable_size s \<le> length (lsm_memtable ?s)")
       (use that [of s'] that [of ?s] i in \<open>simp_all add: lsm_insert_def Let_def\<close>)
qed

section \<open>Range scans\<close>

definition within :: "'k::linorder \<Rightarrow> 'k \<Rightarrow> ('k \<rightharpoonup> 'v) \<Rightarrow> ('k \<rightharpoonup> 'v)" where
  "within start stop m = (\<lambda>k. if start \<le> k \<and> k \<le> stop then m k else None)"

lemma within_add: "within start stop (m ++ n) = within start stop m ++ within start stop n"
  by (auto simp: within_def fun_eq_iff map_add_def split: option.split)

lemma bt_range_get: "bt_range start stop m = Some r \<Longrightarrow> map_of r = within start stop (map_of m)"
  by (auto simp: bt_range_def within_def map_of_filter_key split: if_splits)

lemma bt_range_ordered:
  "start \<le> stop \<Longrightarrow> bt_ordered m \<Longrightarrow> \<exists>r. bt_range start stop m = Some r \<and> bt_ordered r"
  by (auto simp: bt_range_def bt_filter_ordered)

lemma fold_or_insert:
  assumes "bt_ordered r" and "distinct (map fst xs)"
  shows "bt_ordered (fold (\<lambda>(k, v). bt_or_insert k v) xs r)
    \<and> map_of (fold (\<lambda>(k, v). bt_or_insert k v) xs r) = map_of xs ++ map_of r"
  using assms
proof (induction xs arbitrary: r)
  case (Cons x xs)
  obtain k v where x: "x = (k, v)" by (cases x)
  have "map_of xs ++ ([k \<mapsto> v] ++ map_of r) = (map_of xs)(k \<mapsto> v) ++ map_of r"
    by (auto simp: fun_eq_iff map_add_def split: option.split)
  with Cons.IH [of "bt_or_insert k v r"] Cons.prems show ?case
    by (simp add: x bt_or_insert_ordered bt_or_insert_get del: fun_upd_apply)
qed simp

lemma add_older_spec:
  assumes "start \<le> stop" "\<forall>m\<in>set ms. bt_ordered m" "bt_ordered r"
  shows "\<exists>out. add_older start stop ms r = Some out \<and> bt_ordered out
    \<and> map_of out = within start stop (stack_map (rev ms)) ++ map_of r"
  using assms
proof (induction ms arbitrary: r)
  case (Cons m ms)
  obtain part where p: "bt_range start stop m = Some part" "bt_ordered part"
    using Cons.prems bt_range_ordered by (metis list.set_intros(1))
  let ?r = "fold (\<lambda>(k, v). bt_or_insert k v) part r"
  have r: "bt_ordered ?r" "map_of ?r = within start stop (map_of m) ++ map_of r"
    using fold_or_insert [OF Cons.prems(3), of part] p
    by (simp_all add: bt_ordered_distinct bt_range_get [OF p(1)])
  show ?case using Cons.IH [of ?r] Cons.prems r by (simp add: p within_add)
qed (simp add: within_def)

lemma range_scan_spec:
  assumes "start \<le> stop" "lsm_inv s"
  shows "\<exists>out. lsm_range_scan s start stop = Some out \<and> bt_ordered out
    \<and> map_of out = within start stop (lsm_map s)"
proof -
  obtain part where p: "bt_range start stop (lsm_memtable s) = Some part" "bt_ordered part"
    using assms bt_range_ordered by (metis lsm_inv_def)
  have "bt_ordered (bt_inserts part [])"
    by (rule bt_inserts_ordered) (simp add: bt_ordered_def)
  with add_older_spec [OF assms(1), of "rev (lsm_sstables s)" "bt_inserts part []"] assms(2) p
  show ?thesis
    by (simp add: lsm_range_scan_def lsm_inv_def lsm_map_def within_add bt_inserts_get
        bt_ordered_distinct bt_range_get [OF p(1)])
qed


section \<open>The tree is a map\<close>

datatype ('k, 'v) lsm_op = LsmInsert 'k 'v | LsmFlush

fun lsm_run :: "('k::linorder, 'v) lsm_op list \<Rightarrow> ('k, 'v) lsm_tree \<Rightarrow> ('k, 'v) lsm_tree option" where
  "lsm_run [] s = Some s"
| "lsm_run (LsmInsert k v # ops) s = Option.bind (lsm_insert k v s) (lsm_run ops)"
| "lsm_run (LsmFlush # ops) s = Option.bind (lsm_flush s) (lsm_run ops)"

fun spec_map :: "('k, 'v) lsm_op list \<Rightarrow> ('k \<rightharpoonup> 'v) \<Rightarrow> ('k \<rightharpoonup> 'v)" where
  "spec_map [] m = m"
| "spec_map (LsmInsert k v # ops) m = spec_map ops (m(k \<mapsto> v))"
| "spec_map (LsmFlush # ops) m = spec_map ops m"

lemma lsm_run_refines:
  assumes "lsm_inv s" "0 < lsm_max_memtable_size s"
  shows "\<exists>s'. lsm_run ops s = Some s' \<and> lsm_inv s' \<and> lsm_map s' = spec_map ops (lsm_map s)"
  using assms
proof (induction ops arbitrary: s)
  case (Cons op ops)
  show ?case
  proof (cases op)
    case (LsmInsert k v)
    obtain s' where "lsm_insert k v s = Some s'" "lsm_inv s'" "lsm_map s' = (lsm_map s)(k \<mapsto> v)"
      "lsm_max_memtable_size s' = lsm_max_memtable_size s"
      using insert_updates Cons.prems by metis
    with Cons.IH [of s'] Cons.prems show ?thesis by (simp add: LsmInsert del: fun_upd_apply)
  next
    case LsmFlush
    obtain s' where "lsm_flush s = Some s'" "lsm_inv s'" "lsm_map s' = lsm_map s"
      "lsm_max_memtable_size s' = lsm_max_memtable_size s"
      using flush_keeps Cons.prems by metis
    with Cons.IH [of s'] Cons.prems show ?thesis by (simp add: LsmFlush)
  qed
qed simp

lemma lsm_contains_map: "lsm_contains_key s k \<longleftrightarrow> lsm_map s k \<noteq> None"
proof -
  have "list_ex (\<lambda>m. map_of m k \<noteq> None) (rev ms) \<longleftrightarrow> stack_map ms k \<noteq> None" for ms :: "('a, 'b) btree list"
    by (induction ms rule: rev_induct) (auto simp: map_add_def split: option.split)
  then show ?thesis
    by (auto simp: lsm_contains_key_def lsm_map_def map_add_def simp del: list_ex_rev rev_rev_ident split: option.split)
qed

lemma lsm_new_inv: "lsm_inv (lsm_new n)" "lsm_map (lsm_new n) = Map.empty"
  "lsm_max_memtable_size (lsm_new n) = n"
  by (simp_all add: lsm_inv_def lsm_map_def lsm_new_def bt_ordered_def)

text \<open>
  C26. However the inserts fill, freeze and merge the tables, and wherever flushes come in between, a
  tree with room for at least one entry never panics and answers \<open>get\<close> and \<open>contains_key\<close> as the
  plain map of the inserts does; a range scan lists, in strict key order, exactly the entries of
  that map that lie in the range.
\<close>

theorem lsm_tree_is_a_map:
  assumes "0 < n"
  shows "\<exists>s. lsm_run ops (lsm_new n) = Some s
    \<and> (\<forall>k. lsm_get s k = spec_map ops Map.empty k
         \<and> (lsm_contains_key s k \<longleftrightarrow> spec_map ops Map.empty k \<noteq> None))
    \<and> (\<forall>start stop. start \<le> stop \<longrightarrow> (\<exists>out. lsm_range_scan s start stop = Some out
         \<and> sorted_wrt (<) (map fst out)
         \<and> (\<forall>k v. (k, v) \<in> set out \<longleftrightarrow> start \<le> k \<and> k \<le> stop \<and> spec_map ops Map.empty k = Some v)))"
proof -
  obtain s where s: "lsm_run ops (lsm_new n) = Some s" "lsm_inv s" "lsm_map s = spec_map ops Map.empty"
    using lsm_run_refines [of "lsm_new n" ops] assms by (auto simp: lsm_new_inv)
  have "\<exists>out. lsm_range_scan s start stop = Some out \<and> sorted_wrt (<) (map fst out)
      \<and> (\<forall>k v. (k, v) \<in> set out \<longleftrightarrow> start \<le> k \<and> k \<le> stop \<and> spec_map ops Map.empty k = Some v)"
    if "start \<le> stop" for start stop
  proof -
    obtain out where o: "lsm_range_scan s start stop = Some out" "bt_ordered out"
      "map_of out = within start stop (spec_map ops Map.empty)"
      using range_scan_spec [OF \<open>start \<le> stop\<close> s(2)] s(3) by auto
    have "(k, v) \<in> set out \<longleftrightarrow> map_of out k = Some v" for k v
      using o(2) by (simp add: bt_ordered_distinct)
    with o show ?thesis by (auto simp: within_def bt_ordered_def)
  qed
  with s show ?thesis by (auto simp: lsm_get_map lsm_contains_map)
qed

theorem lsm_tree_is_a_map_witness:
  "\<exists>s. lsm_run [LsmInsert 2 1, LsmInsert 1 5, LsmFlush, LsmInsert 2 9] (lsm_new 1) = Some s
     \<and> lsm_get s (2::int) = Some (9::int) \<and> lsm_range_scan s 1 1 = Some [(1, 5)]"
  using lsm_tree_is_a_map [of 1 "[LsmInsert 2 1, LsmInsert 1 5, LsmFlush, LsmInsert 2 (9::int)] :: (int, int) lsm_op list"]
  by (simp add: lsm_new_def lsm_insert_def lsm_flush_def lsm_get_def lsm_range_scan_def bt_range_def
      bt_inserts_def bt_or_insert_def Let_def)

text \<open>
  A tree made with a table size of zero accepts three inserts and panics on the fourth, whatever
  they are: each \<open>insert\<close> freezes the table at once, the fourth freeze merges the tables, and the
  merge cuts its result into pieces of length zero.
\<close>

theorem zero_table_size_panics:
  "lsm_run [LsmInsert k1 v1, LsmInsert k2 v2, LsmInsert k3 v3] (lsm_new 0) \<noteq> None
   \<and> lsm_run [LsmInsert k1 v1, LsmInsert k2 v2, LsmInsert k3 v3, LsmInsert k4 v4] (lsm_new 0) = None"
proof -
  have "map_of (lsm_merged [[(k1, v1)], [(k2, v2)], [(k3, v3)], [(k4, v4)]]) k4 \<noteq> None"
    by (subst merged_get) (auto simp: bt_ordered_def stack_map_Cons)
  then have "lsm_merged [[(k1, v1)], [(k2, v2)], [(k3, v3)], [(k4, v4)]] \<noteq> []"
    by force
  then show ?thesis
    by (simp add: lsm_new_def lsm_insert_def lsm_flush_def lsm_compact_def Let_def)
qed

end
