(* ===== verification/Sketches.thy ===== *)
theory Sketches
  imports Merkle_Tree
begin

text \<open>
  \<^verbatim>\<open>src/crates/algorithms/src/storage.rs\<close>, the Bloom filter and the HyperLogLog sketch. SHA-256
  is the argument \<open>H\<close>, of which nothing is assumed. A panic (a division by zero, a shift by the
  full width in a build with overflow checks, an index out of bounds) is \<open>None\<close>. The estimates
  in floating point are not modelled.
\<close>

unbundle bit_operations_syntax

section \<open>Bytes\<close>

text \<open>\<open>to_le_bytes\<close> of a \<open>usize\<close> and \<open>from_le_bytes\<close> of the first eight bytes.\<close>

definition to_le_bytes :: "u64 \<Rightarrow> bytes" where
  "to_le_bytes w = map (\<lambda>i. ucast (drop_bit (8 * i) w)) [0..<8]"

definition from_le_bytes :: "bytes \<Rightarrow> u64" where
  "from_le_bytes bs = foldr (\<lambda>b acc. push_bit 8 acc OR ucast b) (take 8 bs) 0"

section \<open>The Bloom filter\<close>

record bloom_filter =
  bf_bits :: "u64 list"
  bf_num_hashes :: nat
  bf_size :: nat
  bf_inserted :: nat

definition bf_new :: "nat \<Rightarrow> nat \<Rightarrow> bloom_filter" where
  "bf_new size_n num_hashes = \<lparr>bf_bits = replicate ((size_n + 63) div 64) 0,
     bf_num_hashes = num_hashes, bf_size = size_n, bf_inserted = 0\<rparr>"

definition bf_hash :: "hash \<Rightarrow> bytes \<Rightarrow> nat \<Rightarrow> u64" where
  "bf_hash H data seed = from_le_bytes (H (data @ to_le_bytes (of_nat seed)))"

text \<open>The bit of the \<open>i\<close>-th hash: \<open>hash % size\<close> panics for an empty filter.\<close>

definition bf_bit :: "hash \<Rightarrow> bloom_filter \<Rightarrow> bytes \<Rightarrow> nat \<Rightarrow> nat option" where
  "bf_bit H s item i = (if bf_size s = 0 then None else Some (unat (bf_hash H item i) mod bf_size s))"

definition bf_set :: "nat \<Rightarrow> bloom_filter \<Rightarrow> bloom_filter" where
  "bf_set b s = (if b div 64 < length (bf_bits s)
     then s\<lparr>bf_bits := (bf_bits s)[b div 64 := bf_bits s ! (b div 64) OR push_bit (b mod 64) 1]\<rparr> else s)"

fun bf_set_all :: "hash \<Rightarrow> bytes \<Rightarrow> nat list \<Rightarrow> bloom_filter \<Rightarrow> bloom_filter option" where
  "bf_set_all H item [] s = Some s"
| "bf_set_all H item (i # is_n) s =
     (case bf_bit H s item i of None \<Rightarrow> None | Some b \<Rightarrow> bf_set_all H item is_n (bf_set b s))"

definition bf_insert :: "hash \<Rightarrow> bytes \<Rightarrow> bloom_filter \<Rightarrow> bloom_filter option" where
  "bf_insert H item s = map_option (\<lambda>s'. s'\<lparr>bf_inserted := bf_inserted s' + 1\<rparr>)
     (bf_set_all H item [0..<bf_num_hashes s] s)"

definition bf_test :: "nat \<Rightarrow> bloom_filter \<Rightarrow> bool" where
  "bf_test b s \<longleftrightarrow> b div 64 < length (bf_bits s)
     \<and> bf_bits s ! (b div 64) AND push_bit (b mod 64) 1 \<noteq> 0"

fun bf_test_all :: "hash \<Rightarrow> bytes \<Rightarrow> nat list \<Rightarrow> bloom_filter \<Rightarrow> bool option" where
  "bf_test_all H item [] s = Some True"
| "bf_test_all H item (i # is_n) s =
     (case bf_bit H s item i of
        None \<Rightarrow> None
      | Some b \<Rightarrow> if bf_test b s then bf_test_all H item is_n s else Some False)"

definition bf_contains :: "hash \<Rightarrow> bloom_filter \<Rightarrow> bytes \<Rightarrow> bool option" where
  "bf_contains H s item = bf_test_all H item [0..<bf_num_hashes s] s"

definition bf_clear :: "bloom_filter \<Rightarrow> bloom_filter" where
  "bf_clear s = s\<lparr>bf_bits := map (\<lambda>w. 0) (bf_bits s), bf_inserted := 0\<rparr>"

fun bf_inserts :: "hash \<Rightarrow> bytes list \<Rightarrow> bloom_filter \<Rightarrow> bloom_filter option" where
  "bf_inserts H [] s = Some s"
| "bf_inserts H (x # xs) s = Option.bind (bf_insert H x s) (bf_inserts H xs)"

lemma bf_test_set: "bf_test c (bf_set b s) \<longleftrightarrow> bf_test c s \<or> (c = b \<and> b div 64 < length (bf_bits s))"
proof -
  have "c div 64 = b div 64 \<and> c mod 64 = b mod 64 \<longleftrightarrow> c = b"
    by (metis div_mult_mod_eq)
  moreover have "c mod 64 < 64" by simp
  ultimately show ?thesis
    by (auto simp: bf_test_def bf_set_def and_exp_eq_0_iff_not_bit nth_list_update bit_or_iff bit_exp_iff)
qed


text \<open>What an insert leaves: the same shape, every bit that was set, and the bits of the item.\<close>

definition bf_ok :: "bloom_filter \<Rightarrow> bool" where
  "bf_ok s \<longleftrightarrow> 0 < bf_size s \<and> length (bf_bits s) = (bf_size s + 63) div 64"

definition bf_same :: "bloom_filter \<Rightarrow> bloom_filter \<Rightarrow> bool" where
  "bf_same s s' \<longleftrightarrow> bf_size s' = bf_size s \<and> bf_num_hashes s' = bf_num_hashes s
     \<and> length (bf_bits s') = length (bf_bits s)"

lemma bf_set_same: "bf_same s (bf_set b s)"
  by (simp add: bf_same_def bf_set_def)

lemma bf_bit_ok: "bf_ok s \<Longrightarrow> \<exists>b. bf_bit H s item i = Some b \<and> b div 64 < length (bf_bits s)"
proof -
  assume ok: "bf_ok s"
  have "(h mod bf_size s) div 64 < (bf_size s + 63) div 64" for h
  proof -
    have "h mod bf_size s < bf_size s" using ok by (simp add: bf_ok_def)
    then show ?thesis by linarith
  qed
  with ok show ?thesis by (simp add: bf_bit_def bf_ok_def)
qed

lemma bf_bit_same: "bf_same s s' \<Longrightarrow> bf_bit H s' item i = bf_bit H s item i"
  by (simp add: bf_bit_def bf_same_def)

lemma bf_ok_same: "bf_same s s' \<Longrightarrow> bf_ok s' \<longleftrightarrow> bf_ok s"
  by (simp add: bf_ok_def bf_same_def)

lemma bf_same_trans: "bf_same s s' \<Longrightarrow> bf_same s' s'' \<Longrightarrow> bf_same s s''"
  by (simp add: bf_same_def)

lemma bf_set_all_spec:
  assumes "bf_ok s"
  shows "\<exists>s'. bf_set_all H item hs s = Some s' \<and> bf_same s s'
    \<and> (\<forall>c. bf_test c s' \<longleftrightarrow> bf_test c s \<or> (\<exists>i\<in>set hs. bf_bit H s item i = Some c))"
  using assms
proof (induction hs arbitrary: s)
  case (Cons i hs)
  obtain b where b: "bf_bit H s item i = Some b" "b div 64 < length (bf_bits s)"
    using bf_bit_ok [OF Cons.prems] by blast
  note same = bf_set_same [of s b]
  obtain s' where s': "bf_set_all H item hs (bf_set b s) = Some s'" "bf_same (bf_set b s) s'"
    "\<forall>c. bf_test c s' \<longleftrightarrow> bf_test c (bf_set b s) \<or> (\<exists>i\<in>set hs. bf_bit H s item i = Some c)"
    using Cons.IH [of "bf_set b s"] Cons.prems same by (auto simp: bf_ok_same bf_bit_same)
  with b same show ?case
    by (auto simp: bf_test_set intro: bf_same_trans)
qed (simp add: bf_same_def)

lemma bf_test_all_spec:
  assumes "bf_ok s"
  shows "bf_test_all H item hs s = Some (\<forall>i\<in>set hs. \<forall>c. bf_bit H s item i = Some c \<longrightarrow> bf_test c s)"
proof (induction hs)
  case (Cons i hs)
  obtain b where "bf_bit H s item i = Some b" using bf_bit_ok [OF assms] by blast
  with Cons show ?case by simp
qed simp

lemma bf_insert_spec:
  assumes "bf_ok s"
  shows "\<exists>s'. bf_insert H item s = Some s' \<and> bf_same s s'
    \<and> (\<forall>c. bf_test c s' \<longleftrightarrow> bf_test c s \<or> (\<exists>i<bf_num_hashes s. bf_bit H s item i = Some c))"
proof -
  obtain s' where s': "bf_set_all H item [0..<bf_num_hashes s] s = Some s'" "bf_same s s'"
    "\<forall>c. bf_test c s' \<longleftrightarrow> bf_test c s \<or> (\<exists>i\<in>set [0..<bf_num_hashes s]. bf_bit H s item i = Some c)"
    using bf_set_all_spec [OF assms] by blast
  moreover have "bf_test c (s'\<lparr>bf_inserted := n\<rparr>) \<longleftrightarrow> bf_test c s'" "bf_same s (s'\<lparr>bf_inserted := n\<rparr>) \<longleftrightarrow> bf_same s s'" for c n
    by (simp_all add: bf_test_def bf_same_def)
  ultimately show ?thesis
    by (auto simp: bf_insert_def)
qed

lemma bf_inserts_spec:
  assumes "bf_ok s"
  shows "\<exists>s'. bf_inserts H xs s = Some s' \<and> bf_same s s'
    \<and> (\<forall>c. bf_test c s' \<longleftrightarrow> bf_test c s \<or> (\<exists>x\<in>set xs. \<exists>i<bf_num_hashes s. bf_bit H s x i = Some c))"
  using assms
proof (induction xs arbitrary: s)
  case (Cons x xs)
  obtain s1 where s1: "bf_insert H x s = Some s1" "bf_same s s1"
    "\<forall>c. bf_test c s1 \<longleftrightarrow> bf_test c s \<or> (\<exists>i<bf_num_hashes s. bf_bit H s x i = Some c)"
    using bf_insert_spec [OF Cons.prems] by blast
  have n: "bf_num_hashes s1 = bf_num_hashes s" using s1(2) by (simp add: bf_same_def)
  obtain s' where s': "bf_inserts H xs s1 = Some s'" "bf_same s1 s'"
    "\<forall>c. bf_test c s' \<longleftrightarrow> bf_test c s1 \<or> (\<exists>x\<in>set xs. \<exists>i<bf_num_hashes s1. bf_bit H s1 x i = Some c)"
    using Cons.IH [of s1] Cons.prems s1(2) by (auto simp: bf_ok_same)
  have "bf_test c s' \<longleftrightarrow> bf_test c s \<or> (\<exists>y\<in>set (x # xs). \<exists>i<bf_num_hashes s. bf_bit H s y i = Some c)" for c
    using s1(3) s'(3) unfolding n bf_bit_same [OF s1(2)] by auto
  with s1(1) s'(1) bf_same_trans [OF s1(2) s'(2)] show ?case by simp
qed (simp add: bf_same_def)

lemma bf_new_ok: "0 < size_n \<Longrightarrow> bf_ok (bf_new size_n k)" "\<not> bf_test c (bf_new size_n k)"
  by (simp_all add: bf_ok_def bf_new_def bf_test_def)

lemma bf_new_hashes: "bf_num_hashes (bf_new size_n k) = k"
  by (simp add: bf_new_def)

text \<open>
  A Bloom filter of at least one bit never panics and never denies an item that was inserted;
  it answers true exactly when every bit of the item is a bit of some inserted item, and after
  \<open>clear\<close> a filter with at least one hash denies everything.
\<close>

theorem bloom_filter_has_no_false_negatives:
  assumes "0 < size_n"
  shows "\<exists>s. bf_inserts H xs (bf_new size_n k) = Some s
    \<and> (\<forall>x\<in>set xs. bf_contains H s x = Some True)
    \<and> (\<forall>y. bf_contains H s y = Some (\<forall>i<k. \<exists>x\<in>set xs. \<exists>j<k.
          unat (bf_hash H y i) mod size_n = unat (bf_hash H x j) mod size_n))
    \<and> (\<forall>y. bf_contains H (bf_clear s) y = Some (k = 0))"
proof -
  obtain s where s: "bf_inserts H xs (bf_new size_n k) = Some s" "bf_same (bf_new size_n k) s"
    "\<forall>c. bf_test c s \<longleftrightarrow> (\<exists>x\<in>set xs. \<exists>i<k. bf_bit H (bf_new size_n k) x i = Some c)"
    using bf_inserts_spec [OF bf_new_ok(1) [OF assms], of H xs k] by (auto simp: bf_new_ok bf_new_hashes)
  have f: "bf_size s = size_n" "bf_num_hashes s = k" "bf_ok s"
    using s(2) bf_ok_same [OF s(2)] bf_new_ok(1) [OF assms] by (auto simp: bf_same_def bf_new_def)
  have t: "bf_test c s \<longleftrightarrow> (\<exists>x\<in>set xs. \<exists>j<k. c = unat (bf_hash H x j) mod size_n)" for c
    using s(3) assms by (auto simp: bf_bit_def bf_new_def)
  have c: "bf_contains H s y = Some (\<forall>i<k. \<exists>x\<in>set xs. \<exists>j<k.
      unat (bf_hash H y i) mod size_n = unat (bf_hash H x j) mod size_n)" for y
    using assms by (simp add: bf_contains_def bf_test_all_spec f bf_bit_def t) (auto simp: atLeast0LessThan)
  have d: "bf_ok (bf_clear s)" "\<not> bf_test c (bf_clear s)" for c
    using f by (auto simp: bf_ok_def bf_clear_def bf_test_def)
  have "bf_contains H (bf_clear s) y = Some (k = 0)" for y
    using assms by (simp add: bf_contains_def bf_test_all_spec d bf_bit_def) (auto simp: bf_clear_def f)
  with s(1) c show ?thesis by auto
qed


theorem bloom_filter_has_no_false_negatives_witness:
  "\<exists>s. bf_inserts (\<lambda>bs. bs @ replicate 32 0) [[3], [4]] (bf_new 100 2) = Some s
     \<and> bf_contains (\<lambda>bs. bs @ replicate 32 0) s [4] = Some True"
  using bloom_filter_has_no_false_negatives [of 100 "\<lambda>bs. bs @ replicate 32 0" "[[3], [4]]" 2] by auto

text \<open>A filter of no bits with at least one hash panics on its first use.\<close>

lemma bloom_filter_of_size_zero_panics:
  "bf_insert H item (bf_new 0 (Suc k)) = None \<and> bf_contains H (bf_new 0 (Suc k)) item = None"
  by (simp add: bf_insert_def bf_contains_def bf_new_def bf_bit_def upt_conv_Cons del: upt_Suc)

section \<open>HyperLogLog\<close>

record hyper_log_log =
  hll_registers :: "u8 list"
  hll_precision :: u8

definition hll_new :: "u8 \<Rightarrow> hyper_log_log option" where
  "hll_new p = (if 64 \<le> unat p then None
     else Some \<lparr>hll_registers = replicate (2 ^ unat p) 0, hll_precision = p\<rparr>)"

definition leading_zeros :: "u64 \<Rightarrow> nat" where
  "leading_zeros w = length (takeWhile (\<lambda>i. \<not> bit w i) (rev [0..<64]))"

text \<open>
  The register and the rank of an element. The shift by \<open>64 - precision\<close> overflows for
  precision 0, the shift by \<open>precision\<close> for 64 and more.
\<close>

definition hll_index :: "u8 \<Rightarrow> u64 \<Rightarrow> nat" where
  "hll_index p h = unat (drop_bit (64 - unat p) h)"

definition hll_rank :: "u8 \<Rightarrow> u64 \<Rightarrow> u8" where
  "hll_rank p h = of_nat (leading_zeros (push_bit (unat p) h)) + 1"

definition hll_insert :: "hash \<Rightarrow> bytes \<Rightarrow> hyper_log_log \<Rightarrow> hyper_log_log option" where
  "hll_insert H data s =
     (let full_hash = from_le_bytes (H data); p = hll_precision s
      in if unat p = 0 \<or> 64 \<le> unat p then None
         else (let index = hll_index p full_hash; rank = hll_rank p full_hash
               in if length (hll_registers s) \<le> index then None
                  else if rank > hll_registers s ! index
                  then Some (s\<lparr>hll_registers := (hll_registers s)[index := rank]\<rparr>) else Some s))"

definition hll_merge :: "hyper_log_log \<Rightarrow> hyper_log_log \<Rightarrow> hyper_log_log" where
  "hll_merge s other =
     (if length (hll_registers s) \<noteq> length (hll_registers other) then s
      else s\<lparr>hll_registers := map (\<lambda>(a, b). if b > a then b else a) (zip (hll_registers s) (hll_registers other))\<rparr>)"

fun hll_inserts :: "hash \<Rightarrow> bytes list \<Rightarrow> hyper_log_log \<Rightarrow> hyper_log_log option" where
  "hll_inserts H [] s = Some s"
| "hll_inserts H (x # xs) s = Option.bind (hll_insert H x s) (hll_inserts H xs)"

lemma hll_index_less:
  assumes "0 < unat p" "unat p < 64"
  shows "hll_index p h < 2 ^ unat p"
proof -
  have "unat h < 2 ^ (64 - unat p + unat p)"
    using assms unsigned_less [of h, where ?'a = nat] by simp
  then have "unat h div 2 ^ (64 - unat p) < 2 ^ unat p"
    by (simp add: less_mult_imp_div_less power_add mult.commute)
  then show ?thesis unfolding hll_index_def unat_drop_bit_eq by (simp add: drop_bit_eq_div)
qed

text \<open>The register a list of elements leaves: the greatest rank of those that go there.\<close>

definition hll_max :: "hash \<Rightarrow> u8 \<Rightarrow> bytes list \<Rightarrow> nat \<Rightarrow> u8" where
  "hll_max H p xs i = fold (\<lambda>x acc. if hll_index p (from_le_bytes (H x)) = i
     then max acc (hll_rank p (from_le_bytes (H x))) else acc) xs 0"

lemma max_out: "Max (insert a A) = (if A = {} then a else max a (Max A))" for A :: "u8 set"
  by simp

lemma hll_max_Max:
  "fold (\<lambda>x acc. if P x then max acc (r x) else acc) xs a = Max (insert a (r ` {x \<in> set xs. P x}))"
  for a :: u8
proof (induction xs arbitrary: a)
  case (Cons x xs)
  have "{y \<in> set (x # xs). P y} = (if P x then insert x {y \<in> set xs. P y} else {y \<in> set xs. P y})"
    by auto
  with Cons show ?case by (auto simp: max_out max.assoc)
qed simp

lemma hll_inserts_spec:
  assumes "0 < unat p" "unat p < 64"
  shows "\<exists>s. Option.bind (hll_new p) (hll_inserts H xs) = Some s \<and> hll_precision s = p
    \<and> hll_registers s = map (hll_max H p xs) [0..<2 ^ unat p]"
proof (induction xs rule: rev_induct)
  case Nil
  then show ?case using assms by (auto simp: hll_new_def hll_max_def map_replicate_const)
next
  case (snoc x xs)
  have app: "hll_inserts H (xs @ ys) s = Option.bind (hll_inserts H xs s) (hll_inserts H ys)" for xs ys s
    by (induction xs arbitrary: s) (auto split: Option.bind_split)
  obtain s where s: "Option.bind (hll_new p) (hll_inserts H xs) = Some s" "hll_precision s = p"
    "hll_registers s = map (hll_max H p xs) [0..<2 ^ unat p]"
    using snoc by blast
  note i = hll_index_less [OF assms, of "from_le_bytes (H x)"]
  have "Option.bind (hll_new p) (hll_inserts H (xs @ [x])) = hll_insert H x s"
    using s(1) by (auto simp: app bind_eq_Some_conv) (cases "hll_insert H x s"; simp)
  moreover have "(map (hll_max H p xs) [0..<2 ^ unat p])[hll_index p (from_le_bytes (H x)) := hll_rank p (from_le_bytes (H x))]
      = map (hll_max H p (xs @ [x])) [0..<2 ^ unat p]"
    if "hll_max H p xs (hll_index p (from_le_bytes (H x))) < hll_rank p (from_le_bytes (H x))"
    by (rule nth_equalityI) (use that i in \<open>auto simp: nth_list_update hll_max_def\<close>)
  moreover have "map (hll_max H p xs) [0..<2 ^ unat p] = map (hll_max H p (xs @ [x])) [0..<2 ^ unat p]"
    if "\<not> hll_max H p xs (hll_index p (from_le_bytes (H x))) < hll_rank p (from_le_bytes (H x))"
    using that by (auto simp: hll_max_def max_def)
  ultimately show ?case
    using assms i s(2,3) by (auto simp: hll_insert_def Let_def)
qed

text \<open>
  For every precision from 1 to 63 a sketch never panics and its registers depend only on the
  set of the inserted elements, not on their order or repetitions; merging the sketch of one list
  with the sketch of another gives the sketch of both.
\<close>

theorem sketches_merge_as_unions:
  assumes "0 < unat p" "unat p < 64" "set xs \<union> set ys = set zs"
  shows "\<exists>s t u. Option.bind (hll_new p) (hll_inserts H xs) = Some s
    \<and> Option.bind (hll_new p) (hll_inserts H ys) = Some t
    \<and> Option.bind (hll_new p) (hll_inserts H zs) = Some u \<and> hll_merge s t = u"
proof -
  obtain s where s: "Option.bind (hll_new p) (hll_inserts H xs) = Some s" "hll_precision s = p"
    "hll_registers s = map (hll_max H p xs) [0..<2 ^ unat p]"
    using hll_inserts_spec [OF assms(1,2)] by blast
  obtain t where t: "Option.bind (hll_new p) (hll_inserts H ys) = Some t" "hll_precision t = p"
    "hll_registers t = map (hll_max H p ys) [0..<2 ^ unat p]"
    using hll_inserts_spec [OF assms(1,2)] by blast
  obtain u where u: "Option.bind (hll_new p) (hll_inserts H zs) = Some u" "hll_precision u = p"
    "hll_registers u = map (hll_max H p zs) [0..<2 ^ unat p]"
    using hll_inserts_spec [OF assms(1,2)] by blast
  have m: "max (hll_max H p xs i) (hll_max H p ys i) = hll_max H p zs i" for i
  proof -
    let ?A = "\<lambda>xs. insert 0 ((\<lambda>x. hll_rank p (from_le_bytes (H x))) ` {x \<in> set xs. hll_index p (from_le_bytes (H x)) = i})"
    have "?A zs = ?A xs \<union> ?A ys" using assms(3) by blast
    then show ?thesis unfolding hll_max_def hll_max_Max by (simp add: Max_Un del: Un_insert_left Un_insert_right)
  qed
  have "hll_registers (hll_merge s t) = hll_registers u"
    by (rule nth_equalityI) (auto simp: hll_merge_def s(3) t(3) u(3) max_def simp flip: m)
  moreover have "hll_precision (hll_merge s t) = p" by (simp add: hll_merge_def s(2))
  ultimately have "hll_merge s t = u" using u(2) by simp
  with s(1) t(1) u(1) show ?thesis by blast
qed

theorem sketches_merge_as_unions_witness:
  "\<exists>s t u. Option.bind (hll_new 4) (hll_inserts (\<lambda>bs. bs @ replicate 32 7) [[3]]) = Some s
    \<and> Option.bind (hll_new 4) (hll_inserts (\<lambda>bs. bs @ replicate 32 7) [[4], [3]]) = Some t
    \<and> Option.bind (hll_new 4) (hll_inserts (\<lambda>bs. bs @ replicate 32 7) [[3], [4]]) = Some u
    \<and> hll_merge s t = u"
  using sketches_merge_as_unions [of 4 "[[3]]" "[[4], [3]]" "[[3], [4]]" "\<lambda>bs. bs @ replicate 32 7"]
  by auto

text \<open>A sketch of precision 0 can be made, and every insert into it panics.\<close>

lemma sketch_of_precision_zero_panics:
  "\<exists>s. hll_new 0 = Some s \<and> hll_insert H data s = None"
  by (simp add: hll_new_def hll_insert_def Let_def)

end
