(* ===== verification/Sorted_Table.thy ===== *)
theory Sorted_Table
  imports Prelude "HOL-Library.Multiset"
begin

text \<open>
  \<^verbatim>\<open>src/crates/algorithms/src/storage.rs\<close>, the type called a B+ tree: two parallel vectors in
  the order of the keys, with \<open>binary_search\<close> of the standard library. The tree relies only on
  the contract of that search, the locale \<open>searcher\<close>; the loop of the library meets it. An index
  out of bounds is \<open>None\<close>.
\<close>

section \<open>Binary search\<close>

fun bs_loop :: "'k::linorder list \<Rightarrow> 'k \<Rightarrow> nat \<Rightarrow> nat \<Rightarrow> nat" where
  "bs_loop xs k size_n base =
     (if size_n \<le> 1 then base
      else (let half = size_n div 2; mid = base + half
            in bs_loop xs k (size_n - half) (if k < xs ! mid then base else mid)))"

declare bs_loop.simps [simp del]

definition binary_search :: "'k::linorder list \<Rightarrow> 'k \<Rightarrow> (nat, nat) result" where
  "binary_search xs k =
     (if xs = [] then Inl 0
      else (let b = bs_loop xs k (length xs) 0
            in if xs ! b = k then Inr b else Inl (if xs ! b < k then b + 1 else b)))"

lemma bs_loop_spec:
  assumes "sorted xs" "0 < n" "base + n \<le> length xs" "base = 0 \<or> xs ! base \<le> k"
    "\<forall>j<length xs. base + n \<le> j \<longrightarrow> k < xs ! j"
  shows "bs_loop xs k n base < length xs
    \<and> (bs_loop xs k n base = 0 \<or> xs ! bs_loop xs k n base \<le> k)
    \<and> (\<forall>j<length xs. bs_loop xs k n base < j \<longrightarrow> k < xs ! j)"
  using assms
proof (induction xs k n base rule: bs_loop.induct)
  case (1 xs k n base)
  show ?case
  proof (cases "n \<le> 1")
    case True
    with 1 show ?thesis by (auto simp: bs_loop.simps [of xs k n base])
  next
    case False
    let ?mid = "base + n div 2"
    have mid: "?mid < length xs" using 1 False by linarith
    have up: "\<forall>j<length xs. base + (n - n div 2) \<le> j \<longrightarrow> k < xs ! j" if "k < xs ! ?mid"
    proof (intro allI impI)
      fix j assume "j < length xs" "base + (n - n div 2) \<le> j"
      then have "?mid \<le> j" by linarith
      with that \<open>j < length xs\<close> 1(2) show "k < xs ! j"
        by (meson less_le_trans sorted_nth_mono)
    qed
    have eq: "bs_loop xs k n base = bs_loop xs k (n - n div 2) (if k < xs ! ?mid then base else ?mid)"
      using False by (simp add: bs_loop.simps [of xs k n base] Let_def)
    have half: "0 < n - n div 2" "?mid + (n - n div 2) = base + n" "base + (n - n div 2) \<le> base + n"
      using False by auto
    show ?thesis unfolding eq
    proof (rule 1(1) [OF False refl refl 1(2) half(1)])
      show "(if k < xs ! ?mid then base else ?mid) + (n - n div 2) \<le> length xs"
        using half(2,3) 1(4) by (simp split: if_split) linarith
      show "(if k < xs ! ?mid then base else ?mid) = 0 \<or> xs ! (if k < xs ! ?mid then base else ?mid) \<le> k"
        using 1(5) by (cases "k < xs ! ?mid") (simp_all add: not_less)
      show "\<forall>j<length xs. (if k < xs ! ?mid then base else ?mid) + (n - n div 2) \<le> j \<longrightarrow> k < xs ! j"
        using up half(2) 1(6) by (cases "k < xs ! ?mid") simp_all
    qed
  qed
qed

text \<open>What the documentation of \<open>binary_search\<close> promises on a sorted slice.\<close>

definition found_at :: "'k::linorder list \<Rightarrow> 'k \<Rightarrow> (nat, nat) result \<Rightarrow> bool" where
  "found_at xs k r = (case r of
     Inr i \<Rightarrow> i < length xs \<and> xs ! i = k
   | Inl e \<Rightarrow> e \<le> length xs \<and> (\<forall>j<length xs. if j < e then xs ! j < k else k < xs ! j))"

locale searcher =
  fixes search :: "'k::linorder list \<Rightarrow> 'k \<Rightarrow> (nat, nat) result"
  assumes search_found: "sorted xs \<Longrightarrow> found_at xs k (search xs k)"
begin

lemma search_Inr: "sorted xs \<Longrightarrow> search xs k = Inr i \<Longrightarrow> i < length xs \<and> xs ! i = k"
  using search_found [of xs k] by (simp add: found_at_def)

lemma search_Inl:
  "sorted xs \<Longrightarrow> search xs k = Inl e \<Longrightarrow>
     e \<le> length xs \<and> (\<forall>j<length xs. if j < e then xs ! j < k else k < xs ! j)"
  using search_found [of xs k] by (simp add: found_at_def)

lemma search_hit_iff: "sorted xs \<Longrightarrow> (\<exists>i. search xs k = Inr i) \<longleftrightarrow> k \<in> set xs"
  using search_found [of xs k]
  by (cases "search xs k") (auto simp: found_at_def in_set_conv_nth split: if_splits)

text \<open>Inserting at the place of the search keeps the order.\<close>

lemma insert_at_sorted:
  assumes "sorted xs" "search xs k = r" "pos = (case r of Inl e \<Rightarrow> e | Inr i \<Rightarrow> i)"
  shows "sorted (take pos xs @ k # drop pos xs)" "pos \<le> length xs"
proof -
  have f: "found_at xs k r" using search_found [OF assms(1), of k] assms(2) by simp
  then show "pos \<le> length xs" by (auto simp: assms(3) found_at_def split: sum.splits)
  have lo: "x \<le> k" if x: "x \<in> set (take pos xs)" for x
  proof -
    obtain j where "j < pos" "j < length xs" "x = xs ! j" using x by (auto simp: in_set_conv_nth)
    then show ?thesis using f assms(1) sorted_nth_mono [of xs j pos]
      by (auto simp: assms(3) found_at_def less_imp_le split: sum.splits if_splits)
  qed
  have hi: "k \<le> x" if x: "x \<in> set (drop pos xs)" for x
  proof -
    obtain j where "pos \<le> j" "j < length xs" "x = xs ! j"
      using x by (auto simp: in_set_conv_nth) (metis le_add1 less_diff_conv add.commute)
    then show ?thesis using f assms(1) sorted_nth_mono [of xs pos j]
      by (auto simp: assms(3) found_at_def less_imp_le split: sum.splits if_splits)
  qed
  have "sorted (take pos xs @ drop pos xs)" using assms(1) by simp
  with lo hi show "sorted (take pos xs @ k # drop pos xs)"
    unfolding sorted_append by (auto intro: order_trans)
qed

end

interpretation std: searcher binary_search
proof unfold_locales
  fix xs :: "'k::linorder list" and k
  assume s: "sorted xs"
  show "found_at xs k (binary_search xs k)"
  proof (cases "xs = []")
    case False
    let ?b = "bs_loop xs k (length xs) 0"
    have b: "?b < length xs" "?b = 0 \<or> xs ! ?b \<le> k" "\<forall>j<length xs. ?b < j \<longrightarrow> k < xs ! j"
      using bs_loop_spec [OF s, of "length xs" 0 k] False by auto
    have below: "xs ! j \<le> xs ! ?b" if "j \<le> ?b" for j
      using s b(1) that by (simp add: sorted_nth_mono)
    consider "xs ! ?b = k" | "xs ! ?b < k" | "k < xs ! ?b" "?b = 0" using b(2) by fastforce
    then show ?thesis
      by cases (use False b below in \<open>auto simp: found_at_def binary_search_def Let_def less_Suc_eq_le
          not_less intro: le_less_trans\<close>)
  qed (simp add: found_at_def binary_search_def)
qed


section \<open>The tree\<close>

record ('k, 'v) bplus_tree =
  bp_keys :: "'k list"
  bp_values :: "'v list"
  bp_order :: nat

definition bp_new :: "nat \<Rightarrow> ('k, 'v) bplus_tree" where
  "bp_new order_n = \<lparr>bp_keys = [], bp_values = [], bp_order = order_n\<rparr>"

text \<open>\<open>Vec::insert\<close>.\<close>

definition vec_insert :: "nat \<Rightarrow> 'a \<Rightarrow> 'a list \<Rightarrow> 'a list option" where
  "vec_insert i x xs = (if length xs < i then None else Some (take i xs @ x # drop i xs))"

definition bp_insert :: "'k::linorder \<Rightarrow> 'v \<Rightarrow> ('k, 'v) bplus_tree \<Rightarrow> ('k, 'v) bplus_tree option" where
  "bp_insert k v t =
     (let pos = (case binary_search (bp_keys t) k of Inr i \<Rightarrow> i | Inl e \<Rightarrow> e)
      in Option.bind (vec_insert pos k (bp_keys t)) (\<lambda>ks.
         map_option (\<lambda>vs. t\<lparr>bp_keys := ks, bp_values := vs\<rparr>) (vec_insert pos v (bp_values t))))"

definition vec_get :: "'a list \<Rightarrow> nat \<Rightarrow> 'a option" where
  "vec_get xs i = (if i < length xs then Some (xs ! i) else None)"

text \<open>The outer \<open>option\<close> is the panic.\<close>

definition bp_search :: "('k::linorder, 'v) bplus_tree \<Rightarrow> 'k \<Rightarrow> 'v option option" where
  "bp_search t k =
     (case binary_search (bp_keys t) k of
        Inl e \<Rightarrow> Some None
      | Inr i \<Rightarrow> map_option Some (vec_get (bp_values t) i))"

fun bp_collect :: "('k, 'v) bplus_tree \<Rightarrow> nat list \<Rightarrow> ('k \<times> 'v) list option" where
  "bp_collect t [] = Some []"
| "bp_collect t (i # is_n) =
     Option.bind (vec_get (bp_keys t) i) (\<lambda>k. Option.bind (vec_get (bp_values t) i) (\<lambda>v.
       map_option ((#) (k, v)) (bp_collect t is_n)))"

definition bp_range_scan :: "('k::linorder, 'v) bplus_tree \<Rightarrow> 'k \<Rightarrow> 'k \<Rightarrow> ('k \<times> 'v) list option" where
  "bp_range_scan t start stop =
     (let start_pos = (case binary_search (bp_keys t) start of Inr i \<Rightarrow> i | Inl e \<Rightarrow> e);
          end_pos = (case binary_search (bp_keys t) stop of Inr i \<Rightarrow> i | Inl e \<Rightarrow> e - 1)
      in bp_collect t [start_pos..<Suc (min end_pos (length (bp_keys t) - 1))])"

definition bp_len :: "('k, 'v) bplus_tree \<Rightarrow> nat" where
  "bp_len t = length (bp_keys t)"

fun bp_inserts :: "('k::linorder \<times> 'v) list \<Rightarrow> ('k, 'v) bplus_tree \<Rightarrow> ('k, 'v) bplus_tree option" where
  "bp_inserts [] t = Some t"
| "bp_inserts ((k, v) # xs) t = Option.bind (bp_insert k v t) (bp_inserts xs)"

definition bp_inv :: "('k::linorder, 'v) bplus_tree \<Rightarrow> bool" where
  "bp_inv t \<longleftrightarrow> sorted (bp_keys t) \<and> length (bp_values t) = length (bp_keys t)"

definition bp_entries :: "('k, 'v) bplus_tree \<Rightarrow> ('k \<times> 'v) list" where
  "bp_entries t = zip (bp_keys t) (bp_values t)"

lemma bp_insert_spec:
  assumes "bp_inv t"
  shows "\<exists>t'. bp_insert k v t = Some t' \<and> bp_inv t' \<and> mset (bp_entries t') = add_mset (k, v) (mset (bp_entries t))"
proof -
  define pos where "pos = (case binary_search (bp_keys t) k of Inl e \<Rightarrow> e | Inr i \<Rightarrow> i)"
  have s: "sorted (bp_keys t)" and len: "length (bp_values t) = length (bp_keys t)"
    using assms by (auto simp: bp_inv_def)
  note i = std.insert_at_sorted [OF s refl pos_def]
  have "mset (zip (take pos ks @ k # drop pos ks) (take pos vs @ v # drop pos vs))
      = add_mset (k, v) (mset (zip ks vs))" if "length vs = length ks" for ks :: "'a list" and vs :: "'b list"
  proof -
    have "zip ks vs = zip (take pos ks) (take pos vs) @ zip (drop pos ks) (drop pos vs)"
      using that by (simp flip: zip_append)
    then show ?thesis using that by (simp add: zip_append)
  qed
  note entries = this
  have "bp_insert k v t = Option.bind (vec_insert pos k (bp_keys t)) (\<lambda>ks.
      map_option (\<lambda>vs. t\<lparr>bp_keys := ks, bp_values := vs\<rparr>) (vec_insert pos v (bp_values t)))"
    by (simp add: bp_insert_def pos_def Let_def)
  with i len entries [OF len] show ?thesis
    by (simp add: vec_insert_def bp_inv_def bp_entries_def)
qed

lemma bp_inserts_spec:
  assumes "bp_inv t"
  shows "\<exists>t'. bp_inserts xs t = Some t' \<and> bp_inv t' \<and> mset (bp_entries t') = mset xs + mset (bp_entries t)"
  using assms
proof (induction xs arbitrary: t)
  case (Cons x xs)
  obtain k v where x: "x = (k, v)" by (cases x)
  obtain t1 where "bp_insert k v t = Some t1" "bp_inv t1"
    "mset (bp_entries t1) = add_mset (k, v) (mset (bp_entries t))"
    using bp_insert_spec [OF Cons.prems] by blast
  with Cons.IH [of t1] show ?case by (auto simp: x)
qed simp

lemma bp_new_inv: "bp_inv (bp_new n)" "bp_entries (bp_new n) = []"
  by (simp_all add: bp_inv_def bp_entries_def bp_new_def)

lemma bp_search_spec:
  assumes "bp_inv t"
  shows "\<exists>r. bp_search t k = Some r \<and> (case r of None \<Rightarrow> k \<notin> fst ` set (bp_entries t) | Some v \<Rightarrow> (k, v) \<in> set (bp_entries t))"
proof -
  have s: "sorted (bp_keys t)" and len: "length (bp_values t) = length (bp_keys t)"
    using assms by (auto simp: bp_inv_def)
  have keys: "fst ` set (bp_entries t) = set (bp_keys t)"
    using len by (simp add: bp_entries_def flip: set_map)
  show ?thesis
  proof (cases "binary_search (bp_keys t) k")
    case (Inl e)
    then have "k \<notin> set (bp_keys t)" using std.search_hit_iff [OF s, of k] by auto
    then show ?thesis by (simp add: bp_search_def Inl keys)
  next
    case (Inr i)
    with std.search_Inr [OF s] have "i < length (bp_keys t)" "bp_keys t ! i = k" by auto
    then show ?thesis by (auto simp: bp_search_def Inr vec_get_def len bp_entries_def in_set_zip)
  qed
qed


lemma bp_collect_upt:
  assumes "b \<le> length (bp_keys t)" "length (bp_values t) = length (bp_keys t)"
  shows "bp_collect t [a..<b] = Some (map (\<lambda>i. bp_entries t ! i) [a..<b])"
proof -
  have "bp_collect t is_n = Some (map (\<lambda>i. bp_entries t ! i) is_n)"
    if "\<forall>i\<in>set is_n. i < length (bp_keys t)" for is_n
    using that by (induction is_n) (simp_all add: vec_get_def assms(2) bp_entries_def)
  then show ?thesis using assms(1) by simp
qed

lemma start_pos_spec:
  assumes "sorted_wrt (<) ks" "j < length ks"
  shows "(case binary_search ks k of Inr i \<Rightarrow> i | Inl e \<Rightarrow> e) \<le> j \<longleftrightarrow> k \<le> ks ! j"
proof (cases "binary_search ks k")
  case (Inl e)
  with std.search_Inl [of ks k e] assms show ?thesis
    by (simp add: strict_sorted_iff) (metis leD le_less_linear less_imp_le not_le)
next
  case (Inr i)
  then have i: "i < length ks" "ks ! i = k" using std.search_Inr [of ks k i] assms by (simp_all add: strict_sorted_iff)
  have "ks ! j < k" if "j < i" using sorted_wrt_nth_less [OF assms(1) that i(1)] i(2) by simp
  moreover have "k \<le> ks ! j" if "i \<le> j"
    using sorted_wrt_nth_less [OF assms(1), of i j] assms(2) that i(2) by (cases "i = j") auto
  ultimately show ?thesis by (simp add: Inr) (meson leD linorder_not_le)
qed

lemma end_pos_spec:
  assumes "sorted_wrt (<) ks" "j < length ks" "ks ! 0 \<le> k"
  shows "j \<le> (case binary_search ks k of Inr i \<Rightarrow> i | Inl e \<Rightarrow> e - 1) \<longleftrightarrow> ks ! j \<le> k"
proof (cases "binary_search ks k")
  case (Inl e)
  with std.search_Inl [of ks k e] assms have e: "\<forall>j<length ks. if j < e then ks ! j < k else k < ks ! j"
    by (simp add: strict_sorted_iff)
  have "0 < e" using e assms by (cases e) (auto dest!: spec [of _ 0])
  with e assms(2) show ?thesis by (auto simp: Inl split: if_splits dest: leD less_imp_le)
next
  case (Inr i)
  then have i: "i < length ks" "ks ! i = k" using std.search_Inr [of ks k i] assms by (simp_all add: strict_sorted_iff)
  have "k < ks ! j" if "i < j" using sorted_wrt_nth_less [OF assms(1) that assms(2)] i(2) by simp
  moreover have "ks ! j \<le> k" if "j \<le> i"
    using sorted_wrt_nth_less [OF assms(1), of j i] i that by (cases "i = j") auto
  ultimately show ?thesis by (simp add: Inr) (meson leD linorder_not_le)
qed

lemma bp_keys_of:
  assumes "bp_inv t" "mset (bp_entries t) = mset xs" "distinct (map fst xs)"
  shows "sorted_wrt (<) (bp_keys t)"
proof -
  have "map fst (bp_entries t) = bp_keys t" using assms(1) by (simp add: bp_inv_def bp_entries_def)
  moreover have "mset (map fst (bp_entries t)) = mset (map fst xs)" using assms(2) by (metis mset_map)
  ultimately have "distinct (bp_keys t)" using assms(3) by (metis mset_eq_imp_distinct_iff)
  with assms(1) show ?thesis by (simp add: bp_inv_def strict_sorted_iff)
qed

lemma nth_image_range:
  assumes "b \<le> length es" "\<And>i. i < length es \<Longrightarrow> a \<le> i \<and> i < b \<longleftrightarrow> P (es ! i)"
  shows "(!) es ` {a..<b} = {p \<in> set es. P p}"
proof (intro set_eqI iffI)
  fix p assume "p \<in> (!) es ` {a..<b}"
  then obtain i where "p = es ! i" "a \<le> i" "i < b" by auto
  with assms(1) assms(2) [of i] show "p \<in> {p \<in> set es. P p}" by auto
next
  fix p assume "p \<in> {p \<in> set es. P p}"
  then obtain i where "i < length es" "p = es ! i" "P (es ! i)" by (auto simp: in_set_conv_nth)
  with assms(2) [of i] show "p \<in> (!) es ` {a..<b}" by auto
qed

lemma bp_range_scan_spec:
  assumes "bp_inv t" "mset (bp_entries t) = mset xs"
    and d: "distinct (map fst xs)" and ex: "\<exists>k\<in>fst ` set xs. k \<le> stop"
  shows "\<exists>out. bp_range_scan t start stop = Some out \<and> sorted_wrt (<) (map fst out)
    \<and> set out = {(k, v). (k, v) \<in> set xs \<and> start \<le> k \<and> k \<le> stop}"
proof -
  note t = assms(1,1,2)
  have set_eq: "set (bp_entries t) = set xs" using t(3) by (rule mset_eq_setD)
  let ?ks = "bp_keys t" and ?es = "bp_entries t"
  define a where "a = (case binary_search ?ks start of Inr i \<Rightarrow> i | Inl e \<Rightarrow> e)"
  define e where "e = (case binary_search ?ks stop of Inr i \<Rightarrow> i | Inl e \<Rightarrow> e - 1)"
  let ?b = "Suc (min e (length ?ks - 1))"
  have len: "length (bp_values t) = length ?ks" "length ?es = length ?ks"
    using t(2) by (auto simp: bp_inv_def bp_entries_def)
  have srt: "sorted_wrt (<) ?ks" by (rule bp_keys_of [OF t(2,3) d])
  have key: "fst (?es ! j) = ?ks ! j" if "j < length ?ks" for j
    using that len by (simp add: bp_entries_def)
  obtain j where j: "j < length ?ks" "?ks ! j \<le> stop"
    using ex unfolding set_eq [symmetric] by (auto simp: in_set_conv_nth len key) (metis fst_conv key)
  have "?ks ! 0 \<le> stop"
    using sorted_wrt_nth_less [OF srt, of 0 j] j by (cases "j = 0") auto
  then have in_range: "a \<le> i \<and> i < ?b \<longleftrightarrow> start \<le> ?ks ! i \<and> ?ks ! i \<le> stop" if "i < length ?ks" for i
    using start_pos_spec [OF srt that, of start] end_pos_spec [OF srt that, of stop] that
    by (auto simp: a_def [symmetric] e_def [symmetric] less_Suc_eq_le)
  have b: "?b \<le> length ?ks" using j(1) by linarith
  let ?out = "map (\<lambda>i. ?es ! i) [a..<?b]"
  have "bp_range_scan t start stop = Some ?out"
    unfolding bp_range_scan_def Let_def a_def [symmetric] e_def [symmetric]
    by (rule bp_collect_upt [OF b len(1)])
  moreover have "sorted_wrt (<) (map fst ?out)"
  proof -
    have "sorted_wrt (\<lambda>i j. fst (?es ! i) < fst (?es ! j)) [a..<?b]"
      by (rule sorted_wrt_mono_rel [OF _ sorted_wrt_upt])
         (use b key in \<open>auto intro!: sorted_wrt_nth_less [OF srt]\<close>)
    then show ?thesis by (simp add: sorted_wrt_map del: upt_Suc)
  qed
  moreover have "set ?out = {(k, v). (k, v) \<in> set xs \<and> start \<le> k \<and> k \<le> stop}"
  proof -
    have out: "set ?out = {p \<in> set ?es. start \<le> fst p \<and> fst p \<le> stop}"
      unfolding set_map set_upt
      by (rule nth_image_range) (use in_range b key len(2) in \<open>simp_all del: less_Suc_eq_le\<close>)
    show ?thesis unfolding out set_eq by auto
  qed
  ultimately show ?thesis by blast
qed

text \<open>
  Whatever entries are inserted, in whatever order, the tree holds exactly these, by ascending
  key, and a search finds an entry of the key exactly if there is one. With distinct keys, of
  which one is not above \<open>stop\<close>, a range scan returns exactly the entries of the range, in the
  order of the keys.
\<close>

theorem bplus_tree_searches_and_scans:
  fixes xs :: "('k::linorder \<times> 'v) list"
  shows "\<exists>t. bp_inserts xs (bp_new n) = Some t \<and> sorted (bp_keys t) \<and> mset (bp_entries t) = mset xs
    \<and> (\<forall>k. \<exists>r. bp_search t k = Some r
          \<and> (case r of None \<Rightarrow> k \<notin> fst ` set xs | Some v \<Rightarrow> (k, v) \<in> set xs))
    \<and> (\<forall>start stop. distinct (map fst xs) \<and> (\<exists>k\<in>fst ` set xs. k \<le> stop) \<longrightarrow>
          (\<exists>out. bp_range_scan t start stop = Some out \<and> sorted_wrt (<) (map fst out)
             \<and> set out = {(k, v). (k, v) \<in> set xs \<and> start \<le> k \<and> k \<le> stop}))"
proof -
  obtain t where t: "bp_inserts xs (bp_new n) = Some t" "bp_inv t" "mset (bp_entries t) = mset xs"
    using bp_inserts_spec [OF bp_new_inv(1), of xs n] by (auto simp: bp_new_inv)
  have set_eq: "set (bp_entries t) = set xs" using t(3) by (rule mset_eq_setD)
  note scan = bp_range_scan_spec [OF t(2,3)]
  show ?thesis
    using t(1,3) bp_search_spec [OF t(2), unfolded set_eq] scan t(2) [unfolded bp_inv_def] by blast
qed

theorem bplus_tree_searches_and_scans_witness:
  "\<exists>t out. bp_inserts [(3, 30), (1, 10), (2, 20)] (bp_new 4) = Some t
     \<and> bp_range_scan t (2::int) 9 = Some out \<and> set out = {(2, 20::int), (3, 30)}"
proof -
  let ?xs = "[(3, 30), (1, 10), (2, 20)] :: (int \<times> int) list"
  have in_range: "{(k, v). (k, v) \<in> set ?xs \<and> 2 \<le> k \<and> k \<le> 9} = {(2, 20), (3, 30)}" by auto
  have ok: "distinct (map fst ?xs) \<and> (\<exists>k\<in>fst ` set ?xs. k \<le> 9)" by simp
  obtain t where t: "bp_inserts ?xs (bp_new 4) = Some t"
    "\<forall>start stop. distinct (map fst ?xs) \<and> (\<exists>k\<in>fst ` set ?xs. k \<le> stop) \<longrightarrow>
      (\<exists>out. bp_range_scan t start stop = Some out \<and> sorted_wrt (<) (map fst out)
         \<and> set out = {(k, v). (k, v) \<in> set ?xs \<and> start \<le> k \<and> k \<le> stop})"
    using bplus_tree_searches_and_scans [of ?xs 4] by (elim exE conjE)
  obtain out where "bp_range_scan t 2 9 = Some out"
    "set out = {(k, v). (k, v) \<in> set ?xs \<and> 2 \<le> k \<and> k \<le> 9}"
    using t(2) [THEN spec, THEN spec, THEN mp, OF ok, of 2] by (elim exE conjE)
  with t(1) show ?thesis unfolding in_range by blast
qed

text \<open>
  A range scan of an empty tree panics, and a scan whose upper bound lies below every key
  returns the entry of the smallest key, which is outside the range.
\<close>

theorem range_scan_boundary_faults:
  "bp_range_scan (bp_new n) start stop = None
   \<and> (\<forall>k v. stop < k \<and> start < k \<longrightarrow>
        Option.bind (bp_insert k v (bp_new n)) (\<lambda>t. bp_range_scan t start stop) = Some [(k, v)])"
  by (auto simp: bp_range_scan_def bp_new_def binary_search_def vec_get_def bp_insert_def vec_insert_def
      bs_loop.simps Let_def)

theorem range_scan_boundary_faults_witness:
  "Option.bind (bp_insert (5::int) () (bp_new 4)) (\<lambda>t. bp_range_scan t 1 2) = Some [(5, ())]"
proof -
  have "\<forall>k v. 2 < k \<and> 1 < k \<longrightarrow>
      Option.bind (bp_insert (k::int) (v::unit) (bp_new 4)) (\<lambda>t. bp_range_scan t 1 2) = Some [(k, v)]"
    by (rule range_scan_boundary_faults [THEN conjunct2])
  then show ?thesis by simp
qed

end
