(* ===== verification/Prefix_Tree.thy ===== *)
theory Prefix_Tree
  imports Prelude
begin

text \<open>
  \<^verbatim>\<open>src/crates/algorithms/src/searching.rs\<close>, the trie: a node per byte, insertion, lookup,
  prefix queries, the listing of the keys below a prefix and the longest prefix of a text. The
  children of a node are an association list, whose order stands for the iteration order of the
  \<open>HashMap\<close>.
\<close>

datatype trie = Trie (trie_children: "(char \<times> trie) list") (trie_is_end: bool) (trie_value: "string option")

definition trie_new :: trie where
  "trie_new = Trie [] False None"

text \<open>The loop of \<open>insert\<close>: down the path, adding what is missing, then the mark and the value.\<close>

fun trie_insert :: "string \<Rightarrow> string option \<Rightarrow> trie \<Rightarrow> trie" where
  "trie_insert [] value (Trie ch e v) = Trie ch True (if value = None then v else value)"
| "trie_insert (b # key) value (Trie ch e v) =
     Trie (AList.update b (trie_insert key value
             (case map_of ch b of Some child \<Rightarrow> child | None \<Rightarrow> trie_new)) ch) e v"

fun find_node :: "trie \<Rightarrow> string \<Rightarrow> trie option" where
  "find_node node [] = Some node"
| "find_node node (b # key) =
     (case map_of (trie_children node) b of None \<Rightarrow> None | Some child \<Rightarrow> find_node child key)"

definition trie_search :: "trie \<Rightarrow> string \<Rightarrow> bool" where
  "trie_search t key = (case find_node t key of None \<Rightarrow> False | Some n \<Rightarrow> trie_is_end n)"

definition trie_starts_with :: "trie \<Rightarrow> string \<Rightarrow> bool" where
  "trie_starts_with t prefix_s = (find_node t prefix_s \<noteq> None)"

definition trie_get :: "trie \<Rightarrow> string \<Rightarrow> string option" where
  "trie_get t key = Option.bind (find_node t key) trie_value"

text \<open>\<open>push(byte as char)\<close>: a byte above 127 becomes the two bytes of its code point.\<close>

definition push_byte :: "char \<Rightarrow> string" where
  "push_byte b = (let n = (of_char b :: nat)
     in if n < 128 then [b] else [char_of (0xC0 + n div 64), char_of (0x80 + n mod 64)])"

fun collect_keys :: "string \<Rightarrow> trie \<Rightarrow> string list"
and collect_children :: "string \<Rightarrow> (char \<times> trie) list \<Rightarrow> string list" where
  "collect_keys prefix_s (Trie ch e v) = (if e then [prefix_s] else []) @ collect_children prefix_s ch"
| "collect_children prefix_s [] = []"
| "collect_children prefix_s ((b, child) # ch) =
     collect_keys (prefix_s @ push_byte b) child @ collect_children prefix_s ch"

definition keys_with_prefix :: "trie \<Rightarrow> string \<Rightarrow> string list" where
  "keys_with_prefix t prefix_s =
     (case find_node t prefix_s of None \<Rightarrow> [] | Some node \<Rightarrow> collect_keys prefix_s node)"

text \<open>
  \<open>longest_prefix\<close>: at the end of a key, the text up to and with the first occurrence of the byte
  read last.
\<close>

fun byte_position :: "char \<Rightarrow> string \<Rightarrow> nat" where
  "byte_position b [] = 0"
| "byte_position b (c # s) = (if c = b then 0 else if b \<in> set s then Suc (byte_position b s) else 0)"

fun longest_from :: "string \<Rightarrow> trie \<Rightarrow> string \<Rightarrow> string option \<Rightarrow> string option" where
  "longest_from s node [] last_match = last_match"
| "longest_from s node (b # rest) last_match =
     (case map_of (trie_children node) b of
        None \<Rightarrow> last_match
      | Some child \<Rightarrow> longest_from s child rest
          (if trie_is_end child then Some (concat (map push_byte (take (Suc (byte_position b s)) s)))
           else last_match))"

definition trie_longest_prefix :: "trie \<Rightarrow> string \<Rightarrow> string option" where
  "trie_longest_prefix t s = longest_from s t s None"

section \<open>Insertion and lookup\<close>

lemma trie_new_simps [simp]:
  "trie_children trie_new = []" "\<not> trie_is_end trie_new" "trie_value trie_new = None"
  by (simp_all add: trie_new_def)

lemma lookups_step:
  "trie_search t (b # key) = (case map_of (trie_children t) b of None \<Rightarrow> False | Some c \<Rightarrow> trie_search c key)"
  "trie_starts_with t (b # key) = (case map_of (trie_children t) b of None \<Rightarrow> False | Some c \<Rightarrow> trie_starts_with c key)"
  "trie_get t (b # key) = (case map_of (trie_children t) b of None \<Rightarrow> None | Some c \<Rightarrow> trie_get c key)"
  "trie_search t [] = trie_is_end t" "trie_starts_with t []" "trie_get t [] = trie_value t"
  by (auto simp: trie_search_def trie_starts_with_def trie_get_def split: option.splits)

lemma lookups_new [simp]:
  "\<not> trie_search trie_new key" "trie_starts_with trie_new key \<longleftrightarrow> key = []" "trie_get trie_new key = None"
  by (cases key; simp add: lookups_step)+

lemma search_insert: "trie_search (trie_insert k v t) key \<longleftrightarrow> key = k \<or> trie_search t key"
proof (induction k arbitrary: t key)
  case Nil
  then show ?case by (cases t; cases key) (auto simp: lookups_step)
next
  case (Cons b k)
  then show ?case by (cases t; cases key) (auto simp: lookups_step update_conv' split: option.splits)
qed

lemma starts_insert: "trie_starts_with (trie_insert k v t) key \<longleftrightarrow> prefix key k \<or> trie_starts_with t key"
proof (induction k arbitrary: t key)
  case Nil
  then show ?case by (cases t; cases key) (auto simp: lookups_step)
next
  case (Cons b k)
  then show ?case by (cases t; cases key) (auto simp: lookups_step update_conv' split: option.splits)
qed

lemma get_insert:
  "trie_get (trie_insert k v t) key = (if key = k \<and> v \<noteq> None then v else trie_get t key)"
proof (induction k arbitrary: t key)
  case Nil
  then show ?case by (cases t; cases key) (auto simp: lookups_step)
next
  case (Cons b k)
  then show ?case by (cases t; cases key) (auto simp: lookups_step update_conv' split: option.splits)
qed

definition trie_of :: "(string \<times> string option) list \<Rightarrow> trie" where
  "trie_of kvs = fold (\<lambda>(k, v). trie_insert k v) kvs trie_new"

text \<open>The last value given with a key; an insert without a value leaves the value alone.\<close>

definition last_value :: "(string \<times> string option) list \<Rightarrow> string \<Rightarrow> string option" where
  "last_value kvs key = fold (\<lambda>(k, v) acc. if key = k \<and> v \<noteq> None then v else acc) kvs None"

lemma trie_of_snoc [simp]: "trie_of (kvs @ [(k, v)]) = trie_insert k v (trie_of kvs)"
  by (simp add: trie_of_def)

text \<open>
  After any sequence of insertions a search finds exactly the inserted keys, \<open>get\<close> returns the
  last value given with a key, and \<open>starts_with\<close> holds exactly for the prefixes of inserted keys
  (and for the empty string).
\<close>

theorem trie_is_a_map_with_prefixes:
  "(trie_search (trie_of kvs) key \<longleftrightarrow> key \<in> fst ` set kvs)
   \<and> trie_get (trie_of kvs) key = last_value kvs key
   \<and> (trie_starts_with (trie_of kvs) key \<longleftrightarrow> key = [] \<or> (\<exists>k\<in>fst ` set kvs. prefix key k))"
proof (induction kvs rule: rev_induct)
  case Nil
  then show ?case by (simp add: trie_of_def last_value_def)
next
  case (snoc x kvs)
  obtain k v where x: "x = (k, v)" by (cases x)
  from snoc show ?case
    by (auto simp: x search_insert get_insert starts_insert last_value_def)
qed

section \<open>Listing the keys\<close>

text \<open>No byte twice among the children of a node.\<close>

fun trie_ok :: "trie \<Rightarrow> bool" and children_ok :: "(char \<times> trie) list \<Rightarrow> bool" where
  "trie_ok (Trie ch e v) \<longleftrightarrow> distinct (map fst ch) \<and> children_ok ch"
| "children_ok [] \<longleftrightarrow> True"
| "children_ok ((b, c) # ch) \<longleftrightarrow> trie_ok c \<and> children_ok ch"

lemma children_ok_iff: "children_ok ch \<longleftrightarrow> (\<forall>(b, c)\<in>set ch. trie_ok c)"
  by (induction ch) auto

lemma trie_new_ok: "trie_ok trie_new"
  by (simp add: trie_new_def)

lemma set_AList_update: "set (AList.update k v al) \<subseteq> insert (k, v) (set al)"
  by (induction al) auto

lemma trie_insert_ok: "trie_ok t \<Longrightarrow> trie_ok (trie_insert k v t)"
proof (induction k v t rule: trie_insert.induct)
  case (2 b key val ch e v)
  have "trie_ok (case map_of ch b of Some child \<Rightarrow> child | None \<Rightarrow> trie_new)"
    using 2(2) by (auto simp: children_ok_iff trie_new_ok split: option.split dest: map_of_SomeD)
  with 2 show ?case
    using set_AList_update by (fastforce simp: distinct_update children_ok_iff)
qed simp

lemma find_node_ok: "trie_ok t \<Longrightarrow> find_node t key = Some n \<Longrightarrow> trie_ok n"
proof (induction key arbitrary: t)
  case (Cons b key)
  then show ?case
    by (cases t) (auto simp: children_ok_iff split: option.splits dest!: map_of_SomeD)
qed simp

lemma trie_of_ok: "trie_ok (trie_of kvs)"
  by (induction kvs rule: rev_induct) (auto simp: trie_insert_ok, simp add: trie_of_def trie_new_ok)

definition ascii :: "string \<Rightarrow> bool" where
  "ascii s \<longleftrightarrow> (\<forall>b\<in>set s. (of_char b :: nat) < 128)"

text \<open>The bytes of every path of a node are ASCII.\<close>

fun trie_ascii :: "trie \<Rightarrow> bool" and children_ascii :: "(char \<times> trie) list \<Rightarrow> bool" where
  "trie_ascii (Trie ch e v) \<longleftrightarrow> children_ascii ch"
| "children_ascii [] \<longleftrightarrow> True"
| "children_ascii ((b, c) # ch) \<longleftrightarrow> (of_char b :: nat) < 128 \<and> trie_ascii c \<and> children_ascii ch"

lemma children_ascii_iff: "children_ascii ch \<longleftrightarrow> (\<forall>(b, c)\<in>set ch. (of_char b :: nat) < 128 \<and> trie_ascii c)"
  by (induction ch) auto

lemma trie_insert_ascii: "trie_ascii t \<Longrightarrow> ascii k \<Longrightarrow> trie_ascii (trie_insert k v t)"
proof (induction k v t rule: trie_insert.induct)
  case (2 b key val ch e v)
  have "trie_ascii (case map_of ch b of Some child \<Rightarrow> child | None \<Rightarrow> trie_new)"
    using 2(2) by (auto simp: children_ascii_iff trie_new_def split: option.split dest: map_of_SomeD)
  with 2 show ?case
    using set_AList_update by (fastforce simp: children_ascii_iff ascii_def)
qed simp

lemma find_node_ascii: "trie_ascii t \<Longrightarrow> find_node t key = Some n \<Longrightarrow> trie_ascii n"
proof (induction key arbitrary: t)
  case (Cons b key)
  then show ?case
    by (cases t) (auto simp: children_ascii_iff split: option.splits dest!: map_of_SomeD)
qed simp

lemma push_ascii: "(of_char b :: nat) < 128 \<Longrightarrow> push_byte b = [b]"
  by (simp add: push_byte_def)

lemma collect_spec:
  "trie_ok t \<Longrightarrow> trie_ascii t \<Longrightarrow>
     distinct (collect_keys p t) \<and> (\<forall>k. k \<in> set (collect_keys p t) \<longleftrightarrow> (\<exists>r. k = p @ r \<and> trie_search t r))"
  "distinct (map fst ch) \<Longrightarrow> children_ok ch \<Longrightarrow> children_ascii ch \<Longrightarrow>
     distinct (collect_children p ch) \<and> (\<forall>k. k \<in> set (collect_children p ch) \<longleftrightarrow>
       (\<exists>b c r. map_of ch b = Some c \<and> k = p @ b # r \<and> trie_search c r))"
proof (induction p t and p ch rule: collect_keys_collect_children.induct)
  case (1 p ch e v)
  have "(\<exists>r. k = p @ r \<and> trie_search (Trie ch e v) r) \<longleftrightarrow>
      k = p \<and> e \<or> (\<exists>b c r. map_of ch b = Some c \<and> k = p @ b # r \<and> trie_search c r)" for k
  proof -
    have "trie_search (Trie ch e v) r \<longleftrightarrow> r = [] \<and> e \<or> (\<exists>b c r'. r = b # r' \<and> map_of ch b = Some c \<and> trie_search c r')" for r
      by (cases r) (auto simp: lookups_step split: option.splits)
    then show ?thesis by auto
  qed
  with 1 show ?case by auto
next
  case (3 p b c ch)
  have other: "(b, c') \<notin> set ch" for c'
    using 3(3) by force
  have "(\<exists>b' c' r. map_of ((b, c) # ch) b' = Some c' \<and> k = p @ b' # r \<and> trie_search c' r) \<longleftrightarrow>
      (\<exists>r. k = p @ b # r \<and> trie_search c r) \<or> (\<exists>b' c' r. map_of ch b' = Some c' \<and> k = p @ b' # r \<and> trie_search c' r)" for k
  proof -
    have other': "map_of ch b = None" using 3(3) by (simp add: map_of_eq_None_iff)
    have "(\<exists>b' c' r. map_of ((b, c) # ch) b' = Some c' \<and> k = p @ b' # r \<and> trie_search c' r) \<longleftrightarrow>
      (\<exists>b'. b' = b \<and> (\<exists>r. k = p @ b # r \<and> trie_search c r) \<or>
         b' \<noteq> b \<and> (\<exists>c' r. map_of ch b' = Some c' \<and> k = p @ b' # r \<and> trie_search c' r))"
      by (intro iff_exI) auto
    with other' show ?thesis by (metis option.distinct(1))
  qed
  with 3 other show ?case by (auto simp: push_ascii)
qed simp

text \<open>
  If the inserted keys are ASCII, the listing below a prefix holds each inserted key with that
  prefix exactly once, and nothing else.
\<close>

theorem trie_lists_the_keys_below_a_prefix:
  assumes "\<forall>(k, v)\<in>set kvs. ascii k"
  shows "distinct (keys_with_prefix (trie_of kvs) p)
    \<and> set (keys_with_prefix (trie_of kvs) p) = {k \<in> fst ` set kvs. prefix p k}"
proof -
  have a: "trie_ascii (trie_of kvs)"
    using assms by (induction kvs rule: rev_induct)
      (auto simp: trie_insert_ascii, simp add: trie_of_def trie_new_def)
  have mem: "trie_search (trie_of kvs) k \<longleftrightarrow> k \<in> fst ` set kvs" for k
    by (induction kvs rule: rev_induct) (auto simp: search_insert, simp add: trie_of_def)
  have path: "trie_search (t :: trie) (p @ r) \<longleftrightarrow> (\<exists>n. find_node t p = Some n \<and> trie_search n r)" for t p r
    by (induction p arbitrary: t) (auto simp: lookups_step split: option.split)
  show ?thesis
  proof (cases "find_node (trie_of kvs) p")
    case None
    then have "p @ r \<notin> fst ` set kvs" for r using path [of "trie_of kvs" p r] by (simp add: mem)
    then have "\<not> prefix p k" if "k \<in> fst ` set kvs" for k using that by (metis prefixE)
    then have "{k \<in> fst ` set kvs. prefix p k} = {}" by blast
    with None show ?thesis by (simp add: keys_with_prefix_def)
  next
    case (Some n)
    note c = collect_spec(1) [OF find_node_ok [OF trie_of_ok Some] find_node_ascii [OF a Some], of p]
    have "trie_search n r \<longleftrightarrow> p @ r \<in> fst ` set kvs" for r
      using path [of "trie_of kvs" p r] by (simp add: Some mem)
    with c have "k \<in> set (collect_keys p n) \<longleftrightarrow> k \<in> fst ` set kvs \<and> prefix p k" for k
      unfolding prefix_def by metis
    with c show ?thesis by (auto simp: keys_with_prefix_def Some simp del: Set.image_iff)
  qed
qed

theorem trie_lists_the_keys_below_a_prefix_witness:
  "set (keys_with_prefix (trie_of [(''app'', None), (''apple'', None), (''bee'', None)]) ''ap'')
     = {''app'', ''apple''}"
  using trie_lists_the_keys_below_a_prefix [of "[(''app'', None), (''apple'', None), (''bee'', None)]" "''ap''"]
  by (auto simp: ascii_def prefix_def)

section \<open>The longest prefix\<close>

text \<open>The length of the longest nonempty key a text begins with.\<close>

fun longest_key :: "trie \<Rightarrow> string \<Rightarrow> nat option" where
  "longest_key node [] = None"
| "longest_key node (b # rest) =
     (case map_of (trie_children node) b of
        None \<Rightarrow> None
      | Some child \<Rightarrow> (case longest_key child rest of
            Some n \<Rightarrow> Some (Suc n)
          | None \<Rightarrow> if trie_is_end child then Some 1 else None))"

lemma longest_key_spec:
  "case longest_key t s of
     None \<Rightarrow> \<forall>q. prefix q s \<and> q \<noteq> [] \<longrightarrow> \<not> trie_search t q
   | Some n \<Rightarrow> 0 < n \<and> n \<le> length s \<and> trie_search t (take n s)
       \<and> (\<forall>q. prefix q s \<and> trie_search t q \<longrightarrow> length q \<le> n)"
proof (induction t s rule: longest_key.induct)
  case (2 node b rest)
  have step: "prefix q (b # rest) \<longleftrightarrow> q = [] \<or> (\<exists>q'. q = b # q' \<and> prefix q' rest)" for q
    by (cases q) auto
  show ?case
  proof (cases "map_of (trie_children node) b")
    case None
    then show ?thesis by (auto simp: step lookups_step)
  next
    case (Some child)
    then show ?thesis
      using 2(1) [OF Some]
      by (auto simp: step lookups_step Suc_le_eq split: option.splits)
  qed
qed simp

lemma concat_push_ascii: "ascii s \<Longrightarrow> concat (map push_byte s) = s"
  by (induction s) (auto simp: ascii_def push_ascii)

lemma byte_position_distinct: "distinct (u @ b # rest) \<Longrightarrow> byte_position b (u @ b # rest) = length u"
  by (induction u) auto

lemma longest_from_distinct:
  assumes "distinct s" "ascii s" "s = u @ rest"
  shows "longest_from s t rest last_match =
    (case longest_key t rest of None \<Rightarrow> last_match | Some n \<Rightarrow> Some (u @ take n rest))"
  using assms
proof (induction rest arbitrary: t u last_match)
  case (Cons b rest)
  have "ascii (u @ [b])" using Cons.prems by (auto simp: ascii_def)
  then have cut: "concat (map push_byte (take (Suc (byte_position b s)) s)) = u @ [b]"
    using Cons.prems byte_position_distinct [of u b rest] concat_push_ascii [of "u @ [b]"] by simp
  have ih: "longest_from s c rest lm =
      (case longest_key c rest of None \<Rightarrow> lm | Some n \<Rightarrow> Some ((u @ [b]) @ take n rest))" for c lm
    by (rule Cons.IH [OF Cons.prems(1,2)]) (simp add: Cons.prems(3))
  show ?case
    by (simp add: ih cut split: option.split)
qed simp

text \<open>
  \<open>longest_prefix\<close> cuts the text after the first occurrence of the last byte it matched and not
  at the place it has reached: with the keys \<open>ab\<close> and \<open>aba\<close> the longest prefix of \<open>aba\<close> is
  reported as \<open>a\<close>, which is no key at all. For a text whose bytes are ASCII and all different it
  returns the longest nonempty key that is a prefix of the text, and nothing if there is none.
\<close>

theorem longest_prefix_needs_distinct_bytes:
  "trie_longest_prefix (trie_of [(''ab'', None), (''aba'', None)]) ''aba'' = Some ''a''
   \<and> \<not> trie_search (trie_of [(''ab'', None), (''aba'', None)]) ''a''
   \<and> (\<forall>t s. distinct s \<and> ascii s \<longrightarrow> (case trie_longest_prefix t s of
        None \<Rightarrow> \<forall>q. prefix q s \<and> q \<noteq> [] \<longrightarrow> \<not> trie_search t q
      | Some r \<Rightarrow> r \<noteq> [] \<and> prefix r s \<and> trie_search t r
          \<and> (\<forall>q. prefix q s \<and> trie_search t q \<longrightarrow> length q \<le> length r)))"
proof (intro conjI allI impI)
  fix t s assume s: "distinct s \<and> ascii s"
  have "trie_longest_prefix t s = map_option (\<lambda>n. take n s) (longest_key t s)"
    using longest_from_distinct [of s "[]" s t None] s
    by (simp add: trie_longest_prefix_def map_option_case split: option.split)
  with longest_key_spec [where t = t and s = s]
  show "case trie_longest_prefix t s of
        None \<Rightarrow> \<forall>q. prefix q s \<and> q \<noteq> [] \<longrightarrow> \<not> trie_search t q
      | Some r \<Rightarrow> r \<noteq> [] \<and> prefix r s \<and> trie_search t r
          \<and> (\<forall>q. prefix q s \<and> trie_search t q \<longrightarrow> length q \<le> length r)"
    by (auto simp: take_is_prefix split: option.splits)
qed code_simp+

theorem longest_prefix_needs_distinct_bytes_witness:
  "\<exists>r. trie_longest_prefix (trie_of [(''a'', None), (''abc'', None)]) ''abcd'' = Some r
     \<and> prefix r ''abcd'' \<and> r \<noteq> []"
proof -
  have "distinct ''abcd'' \<and> ascii ''abcd''" by (simp add: ascii_def)
  then have "case trie_longest_prefix (trie_of [(''a'', None), (''abc'', None)]) ''abcd'' of
        None \<Rightarrow> \<forall>q. prefix q ''abcd'' \<and> q \<noteq> [] \<longrightarrow> \<not> trie_search (trie_of [(''a'', None), (''abc'', None)]) q
      | Some r \<Rightarrow> r \<noteq> [] \<and> prefix r ''abcd'' \<and> trie_search (trie_of [(''a'', None), (''abc'', None)]) r
          \<and> (\<forall>q. prefix q ''abcd'' \<and> trie_search (trie_of [(''a'', None), (''abc'', None)]) q \<longrightarrow> length q \<le> length r)"
    by (rule longest_prefix_needs_distinct_bytes [THEN conjunct2, THEN conjunct2, rule_format])
  moreover have "trie_search (trie_of [(''a'', None), (''abc'', None)]) ''a''" by code_simp
  ultimately show ?thesis by (force split: option.splits)
qed

end
