(* ===== verification/Radix_Tree.thy ===== *)
theory Radix_Tree
  imports Prelude
begin

text \<open>
  \<^verbatim>\<open>src/crates/algorithms/src/searching.rs\<close>, the radix tree: nodes whose prefixes are strings,
  split when a key leaves a prefix in its middle. Slicing a string at a byte that is not the start of a
  character panics, which is \<open>None\<close>.
\<close>

datatype radix_node =
  RNode (rx_prefix: string) (rx_children: "radix_node list") (rx_is_end: bool) (rx_value: "string option")

definition rx_new :: radix_node where
  "rx_new = RNode [] [] False None"

definition common_prefix_len :: "string \<Rightarrow> string \<Rightarrow> nat" where
  "common_prefix_len a b = length (takeWhile (\<lambda>(x, y). x = y) (zip a b))"

text \<open>\<open>is_char_boundary\<close>: the ends, and every byte that is not a continuation byte.\<close>

definition char_boundary :: "string \<Rightarrow> nat \<Rightarrow> bool" where
  "char_boundary s i \<longleftrightarrow> i = 0 \<or> i = length s
     \<or> i < length s \<and> (of_char (s ! i) :: nat) div 64 \<noteq> 2"

definition new_value :: "string option \<Rightarrow> string option \<Rightarrow> string option" where
  "new_value v old = (if v = None then old else v)"

fun rx_insert :: "string \<Rightarrow> string option \<Rightarrow> radix_node \<Rightarrow> radix_node option"
and rx_insert_child :: "string \<Rightarrow> string option \<Rightarrow> radix_node list \<Rightarrow> radix_node list option" where
  "rx_insert key v (RNode p ch e old) =
     (if key = [] then Some (RNode p ch True (new_value v old))
      else let common = common_prefix_len p key; rest = drop common key
        in if 0 < common \<and> common < length p
           then if char_boundary p common \<and> char_boundary key common
                then Some (RNode (take common p)
                       [RNode (drop common p) ch e old, RNode rest [] True v] False None)
                else None
           else if 0 < common
           then if \<not> char_boundary key common then None
                else if rest = [] then Some (RNode p ch True (new_value v old))
                else map_option (\<lambda>ch'. RNode p ch' e old) (rx_insert_child rest v ch)
           else map_option (\<lambda>ch'. RNode p ch' e old) (rx_insert_child key v ch))"
| "rx_insert_child key v [] = Some [RNode key [] True v]"
| "rx_insert_child key v (c # cs) =
     (if rx_prefix c \<noteq> [] \<and> hd (rx_prefix c) = hd key
      then map_option (\<lambda>c'. c' # cs) (rx_insert key v c)
      else map_option ((#) c) (rx_insert_child key v cs))"

fun rx_search :: "radix_node \<Rightarrow> string \<Rightarrow> bool"
and rx_search_children :: "radix_node list \<Rightarrow> string \<Rightarrow> bool" where
  "rx_search (RNode p ch e old) key =
     (if key = [] then e
      else if prefix p key
      then (let rest = drop (length p) key in if rest = [] then e else rx_search_children ch rest)
      else False)"
| "rx_search_children [] rest = False"
| "rx_search_children (c # cs) rest =
     (if rx_prefix c \<noteq> [] \<and> hd (rx_prefix c) = hd rest then rx_search c rest else rx_search_children cs rest)"

fun rx_starts_with :: "radix_node \<Rightarrow> string \<Rightarrow> bool"
and rx_starts_children :: "radix_node list \<Rightarrow> string \<Rightarrow> bool" where
  "rx_starts_with (RNode p ch e old) q =
     (if q = [] then True
      else if prefix p q
      then (let rest = drop (length p) q in if rest = [] then True else rx_starts_children ch rest)
      else prefix q p)"
| "rx_starts_children [] rest = False"
| "rx_starts_children (c # cs) rest =
     (if rx_prefix c \<noteq> [] \<and> hd (rx_prefix c) = hd rest then rx_starts_with c rest
      else rx_starts_children cs rest)"

fun rx_longest_prefix :: "radix_node \<Rightarrow> string \<Rightarrow> string option"
and rx_longest_child :: "radix_node list \<Rightarrow> string \<Rightarrow> string option" where
  "rx_longest_prefix (RNode p ch e old) s =
     (if s = [] then (if e then Some p else None)
      else if prefix p s
      then (case rx_longest_child ch (drop (length p) s) of
              Some r \<Rightarrow> Some (p @ r)
            | None \<Rightarrow> if e then Some p else None)
      else None)"
| "rx_longest_child [] rest = None"
| "rx_longest_child (c # cs) rest =
     (case rx_longest_prefix c rest of Some r \<Rightarrow> Some r | None \<Rightarrow> rx_longest_child cs rest)"

fun rx_inserts :: "string list \<Rightarrow> radix_node \<Rightarrow> radix_node option" where
  "rx_inserts [] t = Some t"
| "rx_inserts (k # ks) t = Option.bind (rx_insert k None t) (rx_inserts ks)"

section \<open>Common prefixes\<close>

lemma common_prefix_len_simps [simp]:
  "common_prefix_len [] b = 0" "common_prefix_len a [] = 0"
  "common_prefix_len (x # a) (y # b) = (if x = y then Suc (common_prefix_len a b) else 0)"
  by (simp_all add: common_prefix_len_def)

lemma common_prefix_spec:
  obtains u a' b' where "a = u @ a'" "b = u @ b'" "common_prefix_len a b = length u"
    "a' = [] \<or> b' = [] \<or> hd a' \<noteq> hd b'"
proof -
  have "\<exists>u a' b'. a = u @ a' \<and> b = u @ b' \<and> common_prefix_len a b = length u
      \<and> (a' = [] \<or> b' = [] \<or> hd a' \<noteq> hd b')"
  proof (induction a arbitrary: b)
    case (Cons x a)
    show ?case
    proof (cases b)
      case (Cons y b')
      show ?thesis
      proof (cases "x = y")
        case True
        obtain u a1 b1 where "a = u @ a1" "b' = u @ b1" "common_prefix_len a b' = length u"
          "a1 = [] \<or> b1 = [] \<or> hd a1 \<noteq> hd b1"
          using Cons.IH [of b'] by blast
        then show ?thesis
          by (intro exI [of _ "x # u"] exI [of _ a1] exI [of _ b1]) (simp add: Cons True)
      qed (auto simp: Cons intro: exI [of _ "[]"])
    qed simp
  qed simp
  then show thesis using that by blast
qed

section \<open>What an insertion adds\<close>

text \<open>The keys that end inside a prefix: their node gets an empty prefix, which no lookup enters.\<close>

fun ends_inside :: "radix_node \<Rightarrow> string \<Rightarrow> bool"
and ends_inside_child :: "radix_node list \<Rightarrow> string \<Rightarrow> bool" where
  "ends_inside (RNode p ch e old) key \<longleftrightarrow>
     key \<noteq> [] \<and> (strict_prefix key p \<or> prefix p key \<and> key \<noteq> p \<and> ends_inside_child ch (drop (length p) key))"
| "ends_inside_child [] key \<longleftrightarrow> False"
| "ends_inside_child (c # cs) key \<longleftrightarrow>
     (if rx_prefix c \<noteq> [] \<and> hd (rx_prefix c) = hd key then ends_inside c key else ends_inside_child cs key)"

text \<open>Every node that is not empty leads to a key.\<close>

fun rx_live :: "radix_node \<Rightarrow> bool" and rx_live_children :: "radix_node list \<Rightarrow> bool" where
  "rx_live (RNode p ch e old) \<longleftrightarrow>
     (p \<noteq> [] \<longrightarrow> e \<or> (\<exists>c\<in>set ch. rx_prefix c \<noteq> [])) \<and> rx_live_children ch"
| "rx_live_children [] \<longleftrightarrow> True"
| "rx_live_children (c # cs) \<longleftrightarrow> rx_live c \<and> rx_live_children cs"

definition ascii_bytes :: "string \<Rightarrow> bool" where
  "ascii_bytes s \<longleftrightarrow> (\<forall>b\<in>set s. (of_char b :: nat) < 128)"

lemma ascii_boundary: "ascii_bytes s \<Longrightarrow> i \<le> length s \<Longrightarrow> char_boundary s i"
proof -
  assume s: "ascii_bytes s" "i \<le> length s"
  have "(of_char (s ! i) :: nat) div 64 \<noteq> 2" if "i < length s"
    using s that by (auto simp: ascii_bytes_def dest!: bspec [of _ _ "s ! i"])
  with s show ?thesis by (auto simp: char_boundary_def)
qed

fun rx_ascii :: "radix_node \<Rightarrow> bool" and rx_ascii_children :: "radix_node list \<Rightarrow> bool" where
  "rx_ascii (RNode p ch e old) \<longleftrightarrow> ascii_bytes p \<and> rx_ascii_children ch"
| "rx_ascii_children [] \<longleftrightarrow> True"
| "rx_ascii_children (c # cs) \<longleftrightarrow> rx_ascii c \<and> rx_ascii_children cs"


lemma split_search:
  assumes "u \<noteq> []" "a \<noteq> []" "b = [] \<or> hd a \<noteq> hd b" "k \<noteq> []"
  shows "rx_search (RNode u [RNode a ch e old, RNode b [] True v] False None) k
    \<longleftrightarrow> rx_search (RNode (u @ a) ch e old) k \<or> (k = u @ b \<and> b \<noteq> [])"
proof (cases "prefix u k")
  case True
  then obtain r where k: "k = u @ r" by (auto simp: prefix_def)
  have leaf: "rx_search (RNode b [] True v) r \<longleftrightarrow> r = b" if "r \<noteq> []"
    using that by (auto simp: prefix_def)
  have below: "rx_search (RNode u [RNode a ch e old, RNode b [] True v] False None) (u @ r) \<longleftrightarrow>
      rx_search_children [RNode a ch e old, RNode b [] True v] r" if "r \<noteq> []"
    using that by simp
  show ?thesis
  proof (cases "r = []")
    case True
    with assms show ?thesis by (simp add: k)
  next
    case r: False
    show ?thesis
    proof (cases "hd a = hd r")
      case True
      with r assms show ?thesis unfolding k below [OF r] by auto
    next
      case False
      then have "\<not> prefix a r" using assms(2) r by (cases a; cases r) auto
      then have "\<not> rx_search (RNode (u @ a) ch e old) (u @ r)" using assms r by simp
      with r assms False leaf [OF r] show ?thesis
        unfolding k below [OF r] by (auto simp del: rx_search.simps)
    qed
  qed
next
  case False
  then show ?thesis using assms by (auto simp: prefix_def)
qed

lemma ascii_append [simp]: "ascii_bytes (a @ b) \<longleftrightarrow> ascii_bytes a \<and> ascii_bytes b"
  by (auto simp: ascii_bytes_def)

lemma ascii_Nil [simp]: "ascii_bytes []"
  by (simp add: ascii_bytes_def)

text \<open>The effect of an insertion on a node that the key belongs to.\<close>

definition adds_key :: "radix_node \<Rightarrow> string \<Rightarrow> radix_node \<Rightarrow> bool" where
  "adds_key n key n' \<longleftrightarrow> rx_ascii n' \<and> (rx_live n \<longrightarrow> rx_live n')
     \<and> (rx_prefix n' = [] \<longleftrightarrow> rx_prefix n = []) \<and> (rx_prefix n \<noteq> [] \<longrightarrow> hd (rx_prefix n') = hd (rx_prefix n))
     \<and> (\<forall>k. k \<noteq> [] \<or> rx_prefix n = [] \<longrightarrow>
          (rx_search n' k \<longleftrightarrow> rx_search n k \<or> (k = key \<and> \<not> ends_inside n key)))"

definition adds_child_key :: "radix_node list \<Rightarrow> string \<Rightarrow> radix_node list \<Rightarrow> bool" where
  "adds_child_key cs key cs' \<longleftrightarrow> rx_ascii_children cs' \<and> (rx_live_children cs \<longrightarrow> rx_live_children cs')
     \<and> (\<exists>c\<in>set cs'. rx_prefix c \<noteq> [])
     \<and> (\<forall>k. k \<noteq> [] \<longrightarrow>
          (rx_search_children cs' k \<longleftrightarrow> rx_search_children cs k \<or> (k = key \<and> \<not> ends_inside_child cs key)))"

lemma adds_below:
  assumes "adds_child_key ch r ch'" "rx_ascii (RNode p ch e old)" "r \<noteq> []"
  shows "adds_key (RNode p ch e old) (p @ r) (RNode p ch' e old)"
proof -
  have "rx_search (RNode p ch' e old) k \<longleftrightarrow>
      rx_search (RNode p ch e old) k \<or> (k = p @ r \<and> \<not> ends_inside (RNode p ch e old) (p @ r))" for k
  proof (cases "prefix p k")
    case True
    then obtain s where "k = p @ s" by (auto simp: prefix_def)
    moreover have "\<not> strict_prefix (p @ r) p" by (auto simp: strict_prefix_def)
    ultimately show ?thesis using assms by (cases "s = []") (auto simp: adds_child_key_def)
  qed (use assms in \<open>auto simp: prefix_def\<close>)
  with assms show ?thesis by (auto simp: adds_key_def adds_child_key_def)
qed

lemma insert_adds:
  "rx_ascii n \<Longrightarrow> ascii_bytes key \<Longrightarrow> rx_prefix n = [] \<or> key \<noteq> [] \<and> hd (rx_prefix n) = hd key \<Longrightarrow>
     \<exists>n'. rx_insert key v n = Some n' \<and> adds_key n key n'"
  "rx_ascii_children cs \<Longrightarrow> ascii_bytes key \<Longrightarrow> key \<noteq> [] \<Longrightarrow>
     \<exists>cs'. rx_insert_child key v cs = Some cs' \<and> adds_child_key cs key cs'"
proof (induction key v n and key v cs rule: rx_insert_rx_insert_child.induct)
  case (1 key v p ch e old)
  show ?case
  proof (cases "key = []")
    case True
    with 1(5) show ?thesis using 1(3) by (auto simp: adds_key_def)
  next
    case key: False
    obtain u a b where d: "p = u @ a" "key = u @ b" "common_prefix_len p key = length u"
      "a = [] \<or> b = [] \<or> hd a \<noteq> hd b"
      by (rule common_prefix_spec)
    have bd: "char_boundary p (length u)" "char_boundary key (length u)"
      using 1(3,4) d by (auto intro!: ascii_boundary)
    consider "u = []" "p = []" | "u \<noteq> []" "a \<noteq> []" | "u \<noteq> []" "a = []" "b = []" | "u \<noteq> []" "a = []" "b \<noteq> []"
      using 1(5) d key by (cases "u = []") auto
    then show ?thesis
    proof cases
      case 1
      obtain ch' where "rx_insert_child key v ch = Some ch'" "adds_child_key ch key ch'"
        using "1.IH"(2) [OF key refl refl] "1.prems" key d 1 by auto
      moreover have "rx_insert key v (RNode p ch e old) = Some (RNode p ch' e old)"
        using key d 1 calculation by simp
      ultimately show ?thesis using adds_below [of ch key ch' p e old] "1.prems" key 1 by auto
    next
      case 2
      have r: "rx_insert key v (RNode p ch e old) = Some (RNode u [RNode a ch e old, RNode b [] True v] False None)"
        using key 2 d bd by (simp add: Let_def)
      have i: "ends_inside (RNode p ch e old) key \<longleftrightarrow> b = []"
      proof -
        have "\<not> prefix a b \<and> \<not> prefix b a" if "b \<noteq> []" using that 2 d(4) by (cases a; cases b) auto
        then show ?thesis using key 2 d by (auto simp: strict_prefix_def)
      qed
      have "adds_key (RNode p ch e old) key (RNode u [RNode a ch e old, RNode b [] True v] False None)"
        unfolding adds_key_def i using "1.prems" 2 d split_search [of u a b _ ch e old v]
        by (auto simp: d(1,2) simp del: rx_search.simps)
      with r show ?thesis by blast
    next
      case 3
      then have "rx_insert key v (RNode p ch e old) = Some (RNode p ch True (new_value v old))"
        using key d bd by (simp add: Let_def)
      moreover have "adds_key (RNode p ch e old) key (RNode p ch True (new_value v old))"
        using "1.prems" 3 d key by (auto simp: adds_key_def prefix_def)
      ultimately show ?thesis by blast
    next
      case 4
      obtain ch' where ch': "rx_insert_child b v ch = Some ch'" "adds_child_key ch b ch'"
        using "1.IH"(1) [OF key refl refl] "1.prems" key d bd 4 by auto
      have "rx_insert key v (RNode p ch e old) = Some (RNode p ch' e old)"
        using key d bd 4 ch' by (simp add: Let_def)
      with adds_below [OF ch'(2) "1.prems"(1) 4(3)] 4 d show ?thesis by simp
    qed
  qed
next
  case (2 key v)
  then show ?case by (auto simp: adds_child_key_def prefix_def)
next
  case (3 key v c cs)
  show ?case
  proof (cases "rx_prefix c \<noteq> [] \<and> hd (rx_prefix c) = hd key")
    case True
    with 3 obtain c' where "rx_insert key v c = Some c'" "adds_key c key c'" by auto
    with 3(3) True show ?thesis by (auto simp: adds_child_key_def adds_key_def)
  next
    case False
    with 3 obtain cs' where "rx_insert_child key v cs = Some cs'" "adds_child_key cs key cs'" by auto
    with 3(3) False show ?thesis by (auto simp: adds_child_key_def)
  qed
qed


section \<open>Sequences of insertions\<close>

lemma live_word:
  "rx_live n \<Longrightarrow> rx_prefix n \<noteq> [] \<Longrightarrow> \<exists>w. rx_search n (rx_prefix n @ w)"
  "rx_live_children cs \<Longrightarrow> \<exists>c\<in>set cs. rx_prefix c \<noteq> [] \<Longrightarrow> \<exists>w. w \<noteq> [] \<and> rx_search_children cs w"
proof (induction n and cs rule: rx_live_rx_live_children.induct)
  case (1 p ch e old)
  show ?case
  proof (cases e)
    case True
    with 1 show ?thesis by (intro exI [of _ "[]"]) simp
  next
    case False
    with 1 obtain w where "w \<noteq> []" "rx_search_children ch w" by auto
    with 1 show ?thesis by (intro exI [of _ w]) simp
  qed
next
  case (3 c cs)
  show ?case
  proof (cases "rx_prefix c = []")
    case True
    with 3 show ?thesis by auto
  next
    case False
    with 3 obtain w where "rx_search c (rx_prefix c @ w)" by auto
    with False show ?thesis by (intro exI [of _ "rx_prefix c @ w"]) simp
  qed
qed simp

text \<open>A key that ends inside a prefix is a proper prefix of a key that is found.\<close>

lemma ends_inside_extended:
  "rx_live n \<Longrightarrow> ends_inside n key \<Longrightarrow> \<exists>k. strict_prefix key k \<and> rx_search n k"
  "rx_live_children cs \<Longrightarrow> key \<noteq> [] \<Longrightarrow> ends_inside_child cs key \<Longrightarrow>
     \<exists>k. strict_prefix key k \<and> rx_search_children cs k"
proof (induction n key and cs key rule: ends_inside_ends_inside_child.induct)
  case (1 p ch e old key)
  show ?case
  proof (cases "strict_prefix key p")
    case True
    then have "p \<noteq> []" by auto
    then obtain w where "rx_search (RNode p ch e old) (p @ w)"
      using live_word(1) [OF 1(2)] by (auto simp del: rx_search.simps)
    moreover have "strict_prefix key (p @ w)"
      using True by (meson prefixI prefix_order.less_le_trans)
    ultimately show ?thesis by blast
  next
    case False
    then obtain r where r: "key = p @ r" "r \<noteq> []" "ends_inside_child ch r"
      using 1(3) by (auto simp: prefix_def)
    with 1 obtain k where "strict_prefix r k" "rx_search_children ch k" by auto
    with r show ?thesis by (intro exI [of _ "p @ k"]) (auto simp: strict_prefix_def prefix_def)
  qed
next
  case (3 c cs key)
  have hd_same: "hd k = hd key" if "strict_prefix key k" for k
    using that 3(4) by (cases key; cases k) auto
  show ?case
  proof (cases "rx_prefix c \<noteq> [] \<and> hd (rx_prefix c) = hd key")
    case True
    with 3 obtain k where "strict_prefix key k" "rx_search c k" by auto
    with True hd_same show ?thesis by (intro exI [of _ k]) auto
  next
    case False
    with 3 obtain k where "strict_prefix key k" "rx_search_children cs k" by auto
    with False hd_same show ?thesis by (intro exI [of _ k]) auto
  qed
qed simp

lemma inserts_spec:
  assumes "\<forall>k\<in>set ks. ascii_bytes k"
  shows "\<exists>t. rx_inserts ks rx_new = Some t \<and> rx_ascii t \<and> rx_live t \<and> rx_prefix t = []
    \<and> (\<forall>k. rx_search t k \<longrightarrow> k \<in> set ks)
    \<and> (sorted_wrt (\<lambda>a b. \<not> strict_prefix b a) ks \<longrightarrow> (\<forall>k\<in>set ks. rx_search t k))"
  using assms
proof (induction ks rule: rev_induct)
  case Nil
  then show ?case by (simp add: rx_new_def)
next
  case (snoc x ks)
  have app: "rx_inserts (ks @ [x]) t = Option.bind (rx_inserts ks t) (rx_insert x None)" for ks t
    by (induction ks arbitrary: t) (auto split: Option.bind_split)
  obtain t where t: "rx_inserts ks rx_new = Some t" "rx_ascii t" "rx_live t" "rx_prefix t = []"
    "\<forall>k. rx_search t k \<longrightarrow> k \<in> set ks"
    "sorted_wrt (\<lambda>a b. \<not> strict_prefix b a) ks \<longrightarrow> (\<forall>k\<in>set ks. rx_search t k)"
    using snoc by auto
  obtain t' where t': "rx_insert x None t = Some t'" "adds_key t x t'"
    using insert_adds(1) [of t x None] t snoc.prems by auto
  have search: "rx_search t' k \<longleftrightarrow> rx_search t k \<or> (k = x \<and> \<not> ends_inside t x)" for k
    using t'(2) t(4) by (simp add: adds_key_def)
  have "\<not> ends_inside t x" if "\<forall>k\<in>set ks. \<not> strict_prefix x k"
    using ends_inside_extended(1) [OF t(3), of x] t(5) that by blast
  then have found: "\<forall>k\<in>set (ks @ [x]). rx_search t' k" if "sorted_wrt (\<lambda>a b. \<not> strict_prefix b a) (ks @ [x])"
    using that t(6) search by (auto simp: sorted_wrt_append)
  have "rx_inserts (ks @ [x]) rx_new = Some t'" by (simp add: app t(1) t'(1))
  moreover have "rx_ascii t' \<and> rx_live t' \<and> rx_prefix t' = []"
    using t'(2) t(3,4) by (simp add: adds_key_def)
  moreover have "\<forall>k. rx_search t' k \<longrightarrow> k \<in> set (ks @ [x])" using search t(5) by auto
  ultimately show ?case using found by blast
qed

text \<open>
  Inserting ASCII keys never panics and no search finds a key that was not inserted. If no key is
  inserted after one that extends it, the search finds exactly the inserted keys.
\<close>

theorem radix_tree_finds_the_inserted_keys:
  assumes "\<forall>k\<in>set ks. ascii_bytes k"
  shows "\<exists>t. rx_inserts ks rx_new = Some t
    \<and> (\<forall>k. rx_search t k \<longrightarrow> k \<in> set ks)
    \<and> (sorted_wrt (\<lambda>a b. \<not> strict_prefix b a) ks \<longrightarrow> (\<forall>k. rx_search t k \<longleftrightarrow> k \<in> set ks))"
  using inserts_spec [OF assms] by blast

theorem radix_tree_finds_the_inserted_keys_witness:
  "\<exists>t. rx_inserts [''rom'', ''romane'', ''rob''] rx_new = Some t \<and> rx_search t ''rom''"
proof -
  let ?ks = "[''rom'', ''romane'', ''rob'']"
  have "\<forall>k\<in>set ?ks. ascii_bytes k" by (simp add: ascii_bytes_def)
  moreover have "sorted_wrt (\<lambda>a b. \<not> strict_prefix b a) ?ks" by (simp add: strict_prefix_def)
  ultimately show ?thesis using radix_tree_finds_the_inserted_keys [of ?ks] by auto
qed

text \<open>
  A key inserted after a longer key that extends it is lost until it is inserted once more; the
  longest prefix of a text can be longer than the text; and two keys that differ inside a
  character, which share its first byte, make the insertion panic.
\<close>

theorem radix_tree_faults:
  "(\<exists>t. rx_inserts [''romane'', ''rom''] rx_new = Some t \<and> \<not> rx_search t ''rom'')
   \<and> (\<exists>t. rx_inserts [''romane'', ''rom'', ''rom''] rx_new = Some t \<and> rx_search t ''rom'')
   \<and> (\<exists>t. rx_inserts [''ab'', ''abc''] rx_new = Some t \<and> rx_longest_prefix t ''ab'' = Some ''abc'')
   \<and> rx_inserts [[CHR 0xC3, CHR 0xA9], [CHR 0xC3, CHR 0xA8]] rx_new = None"
  by (intro conjI; simp add: rx_new_def Let_def char_boundary_def new_value_def)

end
