(* ===== verification/Fm_Index.thy ===== *)
theory Fm_Index
  imports Prelude "HOL-Library.List_Lexorder" "HOL-Library.Char_ord" "HOL-Library.Multiset"
begin

text \<open>
  \<^verbatim>\<open>src/crates/algorithms/src/searching.rs\<close>, the FM index: the sorted suffixes of a text with a
  NUL byte at its end, the Burrows-Wheeler transform, the table of counts, and the backward search
  that counts and lists the occurrences of a pattern. An index out of bounds is \<open>None\<close>.
\<close>

section \<open>The index\<close>

record fm_index =
  fm_bwt :: string
  fm_suffix_array :: "nat list"
  fm_first_occurrence :: "char \<rightharpoonup> nat"
  fm_count :: "(char \<Rightarrow> nat) list"
  fm_text_len :: nat

text \<open>\<open>suffixes.sort_by(|a, b| a.1.cmp(&b.1))\<close>: the suffixes with their positions, by their bytes.\<close>

definition sorted_suffixes :: "string \<Rightarrow> (nat \<times> string) list" where
  "sorted_suffixes extended = sort_key snd (map (\<lambda>i. (i, drop i extended)) [0..<length extended])"

definition bwt_char :: "string \<Rightarrow> nat \<Rightarrow> char" where
  "bwt_char extended i = (if i = 0 then CHR 0x00 else extended ! (i - 1))"

text \<open>\<open>entry(c).or_insert(i)\<close> over the first bytes.\<close>

fun first_occurrences :: "nat \<Rightarrow> string \<Rightarrow> (char \<rightharpoonup> nat) \<Rightarrow> (char \<rightharpoonup> nat)" where
  "first_occurrences i [] m = m"
| "first_occurrences i (c # cs) m = first_occurrences (Suc i) cs (if m c = None then m(c \<mapsto> i) else m)"

text \<open>The rows of \<open>count\<close>: how often each byte occurs among the first \<open>i\<close> of the transform.\<close>

fun count_rows :: "(char \<Rightarrow> nat) \<Rightarrow> string \<Rightarrow> (char \<Rightarrow> nat) list" where
  "count_rows row [] = [row]"
| "count_rows row (c # cs) = row # count_rows (row(c := row c + 1)) cs"

definition fm_new :: "string \<Rightarrow> fm_index" where
  "fm_new text_s =
     (let extended = text_s @ [CHR 0x00];
          suffixes = sorted_suffixes extended;
          bwt = map (\<lambda>(i, s). bwt_char extended i) suffixes
      in \<lparr>fm_bwt = bwt, fm_suffix_array = map fst suffixes,
          fm_first_occurrence = first_occurrences 0 (map (\<lambda>(i, s). hd s) suffixes) Map.empty,
          fm_count = count_rows (\<lambda>c. 0) bwt, fm_text_len = length text_s + 1\<rparr>)"

text \<open>One step of the backward search.\<close>

definition fm_bound :: "fm_index \<Rightarrow> char \<Rightarrow> nat \<Rightarrow> nat option" where
  "fm_bound fm c i =
     (if i < length (fm_count fm)
      then Some ((case fm_first_occurrence fm c of None \<Rightarrow> 0 | Some f \<Rightarrow> f) + (fm_count fm ! i) c)
      else None)"

fun fm_count_loop :: "fm_index \<Rightarrow> string \<Rightarrow> nat \<Rightarrow> nat \<Rightarrow> nat option" where
  "fm_count_loop fm [] l r = Some (r - l)"
| "fm_count_loop fm (c # cs) l r =
     Option.bind (fm_bound fm c l) (\<lambda>l'. Option.bind (fm_bound fm c r) (\<lambda>r'.
       if r' \<le> l' then Some 0 else fm_count_loop fm cs l' r'))"

definition count_occurrences :: "fm_index \<Rightarrow> string \<Rightarrow> nat option" where
  "count_occurrences fm pattern_s =
     (if pattern_s = [] then Some 0 else fm_count_loop fm (rev pattern_s) 0 (fm_text_len fm))"

fun fm_range_loop :: "fm_index \<Rightarrow> string \<Rightarrow> nat \<Rightarrow> nat \<Rightarrow> (nat \<times> nat) option" where
  "fm_range_loop fm [] l r = Some (l, r)"
| "fm_range_loop fm (c # cs) l r =
     Option.bind (fm_bound fm c l) (\<lambda>l'. Option.bind (fm_bound fm c r) (\<lambda>r'. fm_range_loop fm cs l' r'))"

definition fm_search :: "fm_index \<Rightarrow> string \<Rightarrow> nat list option" where
  "fm_search fm pattern_s =
     Option.bind (count_occurrences fm pattern_s) (\<lambda>n.
       if n = 0 then Some []
       else Option.bind (fm_range_loop fm (rev pattern_s) 0 (fm_text_len fm)) (\<lambda>(l, r).
              if l \<le> r \<and> r \<le> length (fm_suffix_array fm)
              then Some (drop l (take r (fm_suffix_array fm))) else None))"

section \<open>Cuts of the sorted suffixes\<close>

text \<open>
  The strings before a pattern, and with \<open>b\<close> also those that begin with it: the two ends of the
  rows a pattern occupies.
\<close>

definition below :: "bool \<Rightarrow> string \<Rightarrow> string \<Rightarrow> bool" where
  "below b p s \<longleftrightarrow> s < p \<or> (b \<and> prefix p s)"

lemma below_Cons: "below b (c # p) (x # s) \<longleftrightarrow> x < c \<or> (x = c \<and> below b p s)"
  by (auto simp: below_def)

lemma below_Nil: "below b [] s \<longleftrightarrow> b"
  by (simp add: below_def)

lemma below_down: "below b p s \<Longrightarrow> t \<le> s \<Longrightarrow> below b p t"
proof (induction p arbitrary: s t)
  case Nil
  then show ?case by (simp add: below_Nil)
next
  case (Cons c p)
  show ?case
  proof (cases t)
    case (Cons y t')
    with \<open>t \<le> s\<close> obtain x s' where s: "s = x # s'" by (cases s) auto
    with Cons Cons.prems have "y < x \<or> y = x \<and> t' \<le> s'" "x < c \<or> x = c \<and> below b p s'"
      by (auto simp: below_Cons)
    with Cons.IH [of s' t'] show ?thesis by (auto simp: Cons below_Cons)
  qed (simp add: below_def)
qed

lemma below_between: "below True p s \<and> \<not> below False p s \<longleftrightarrow> prefix p s"
proof -
  have "\<not> s < p" if "prefix p s"
    using that by (auto simp: prefix_def list_less_def lexord_def) 
  then show ?thesis by (auto simp: below_def)
qed

lemma filter_down_closed:
  assumes "sorted (map f xs)" "\<And>x y. P x \<Longrightarrow> f y \<le> f x \<Longrightarrow> P y"
  shows "filter P xs = take (length (filter P xs)) xs"
  using assms(1)
proof (induction xs)
  case (Cons x xs)
  show ?case
  proof (cases "P x")
    case True
    with Cons show ?thesis by simp
  next
    case False
    then have "filter P xs = []" using Cons.prems assms(2) by (fastforce simp: filter_empty_conv)
    with False show ?thesis by simp
  qed
qed simp

lemma suffixes_mset: "mset (sorted_suffixes e) = mset (map (\<lambda>i. (i, drop i e)) [0..<length e])"
  by (simp add: sorted_suffixes_def)

lemma suffixes_length [simp]: "length (sorted_suffixes e) = length e"
  by (simp add: sorted_suffixes_def)

lemma suffixes_set: "set (sorted_suffixes e) = (\<lambda>i. (i, drop i e)) ` {..<length e}"
  by (auto simp: sorted_suffixes_def)

lemma suffixes_sorted: "sorted (map snd (sorted_suffixes e))"
  by (simp add: sorted_suffixes_def)

lemma filter_suffixes_card:
  "length (filter P (sorted_suffixes e)) = card {i. i < length e \<and> P (i, drop i e)}"
proof -
  have "length (filter P (sorted_suffixes e)) = length (filter P (map (\<lambda>i. (i, drop i e)) [0..<length e]))"
    by (metis mset_filter size_mset suffixes_mset)
  also have "\<dots> = card {i. i < length e \<and> P (i, drop i e)}"
    by (simp add: filter_map o_def) (simp add: distinct_card [symmetric] conj_commute)
  finally show ?thesis .
qed

definition rank :: "string \<Rightarrow> bool \<Rightarrow> string \<Rightarrow> nat" where
  "rank e b p = card {i. i < length e \<and> below b p (drop i e)}"

lemma rank_le: "rank e b p \<le> length e"
proof -
  have "rank e b p \<le> card {..<length e}" unfolding rank_def by (rule card_mono) auto
  then show ?thesis by simp
qed

lemma rows_below: "take (rank e b p) (sorted_suffixes e) = filter (\<lambda>(i, s). below b p s) (sorted_suffixes e)"
proof -
  have "filter (\<lambda>(i, s). below b p s) (sorted_suffixes e) =
      take (length (filter (\<lambda>(i, s). below b p s) (sorted_suffixes e))) (sorted_suffixes e)"
    by (rule filter_down_closed [where f = snd, OF suffixes_sorted]) (auto intro: below_down)
  then show ?thesis by (simp add: filter_suffixes_card rank_def)
qed


section \<open>One step of the search\<close>

lemma length_count_rows [simp]: "length (count_rows row cs) = Suc (length cs)"
  by (induction cs arbitrary: row) simp_all

lemma count_rows_nth: "i \<le> length cs \<Longrightarrow> (count_rows row cs ! i) c = row c + count_list (take i cs) c"
proof (induction cs arbitrary: row i)
  case (Cons d cs)
  then show ?case by (cases i) auto
qed simp

lemma count_list_map_eq: "count_list (map f xs) c = length (filter (\<lambda>x. f x = c) xs)"
  by (induction xs) auto

lemma first_occurrences_get:
  "first_occurrences i cs m c =
     (case m c of Some j \<Rightarrow> Some j
      | None \<Rightarrow> if c \<in> set cs then Some (i + length (takeWhile (\<lambda>x. x \<noteq> c) cs)) else None)"
  by (induction i cs m rule: first_occurrences.induct) (auto split: option.splits)

lemma takeWhile_sorted:
  "sorted cs \<Longrightarrow> c \<in> set cs \<Longrightarrow> takeWhile (\<lambda>x. x \<noteq> c) cs = filter (\<lambda>x. x < c) cs"
proof (induction cs)
  case (Cons x cs)
  then show ?case by (cases "x = c") (auto simp: filter_empty_conv not_less)
qed simp

lemma suffix_heads:
  assumes "(i, s) \<in> set (sorted_suffixes e)"
  shows "s = e ! i # drop (Suc i) e" "i < length e"
  using assms by (auto simp: suffixes_set Cons_nth_drop_Suc)

lemma suffix_nonempty: "(i, s) \<in> set (sorted_suffixes e) \<Longrightarrow> s \<noteq> []"
  using suffix_heads by fastforce

lemma heads_set: "set (map (\<lambda>(i, s). hd s) (sorted_suffixes e)) = set e"
  by (auto simp: suffixes_set hd_drop_conv_nth in_set_conv_nth image_iff)

lemma heads_sorted: "sorted (map (\<lambda>(i, s). hd s) (sorted_suffixes e))"
proof -
  have hd_le: "hd s \<le> hd t" if "s \<le> t" "s \<noteq> []" "t \<noteq> []" for s t :: string
    using that by (cases s; cases t) auto
  then have "sorted_wrt (\<lambda>x y. hd (snd x) \<le> hd (snd y)) (sorted_suffixes e)"
    using suffixes_sorted [of e] unfolding sorted_map
    by (rule_tac sorted_wrt_mono_rel [where P = "\<lambda>x y. snd x \<le> snd y"]) (auto intro!: hd_le dest: suffix_nonempty)
  then show ?thesis by (simp add: sorted_map split_beta)
qed

lemma heads_less:
  "length (filter (\<lambda>x. x < c) (map (\<lambda>(i, s). hd s) (sorted_suffixes e))) = card {i. i < length e \<and> e ! i < c}"
proof -
  have "length (filter (\<lambda>x. x < c) (map (\<lambda>(i, s). hd s) (sorted_suffixes e)))
      = length (filter (\<lambda>(i, s). hd s < c) (sorted_suffixes e))"
    by (simp add: filter_map o_def case_prod_unfold)
  also have "\<dots> = card {i. i < length e \<and> e ! i < c}"
    unfolding filter_suffixes_card by (rule arg_cong [where f = card]) (auto simp: hd_drop_conv_nth)
  finally show ?thesis .
qed

lemma first_occurrence_get:
  "fm_first_occurrence (fm_new t) c =
     (if c \<in> set (t @ [CHR 0x00]) then Some (card {i. i < Suc (length t) \<and> (t @ [CHR 0x00]) ! i < c}) else None)"
proof -
  let ?e = "t @ [CHR 0x00]"
  let ?hs = "map (\<lambda>(i, s). hd s) (sorted_suffixes ?e)"
  have set_eq: "set ?hs = set ?e" by (rule heads_set)
  have "length (filter (\<lambda>x. x < c) ?hs) = card {i. i < Suc (length t) \<and> ?e ! i < c}"
    using heads_less [of c ?e] by simp
  then show ?thesis
    using takeWhile_sorted [OF heads_sorted, of c ?e]
    by (simp add: fm_new_def Let_def first_occurrences_get set_eq del: set_map)
qed

lemma count_below:
  assumes "c \<noteq> CHR 0x00"
  shows "(fm_count (fm_new t) ! rank (t @ [CHR 0x00]) b p) c =
    card {i. i < Suc (length t) \<and> (t @ [CHR 0x00]) ! i = c \<and> below b p (drop (Suc i) (t @ [CHR 0x00]))}"
proof -
  let ?e = "t @ [CHR 0x00]"
  let ?bwt = "map (\<lambda>(i, s). bwt_char ?e i) (sorted_suffixes ?e)"
  have "(fm_count (fm_new t) ! rank ?e b p) c = count_list (take (rank ?e b p) ?bwt) c"
    using rank_le [of ?e b p] by (simp add: fm_new_def Let_def count_rows_nth)
  also have "\<dots> = length (filter (\<lambda>(i, s). bwt_char ?e i = c) (filter (\<lambda>(i, s). below b p s) (sorted_suffixes ?e)))"
    by (simp add: take_map rows_below count_list_map_eq split_beta)
  also have "\<dots> = card {i. i < length ?e \<and> below b p (drop i ?e) \<and> bwt_char ?e i = c}"
    unfolding filter_filter by (simp add: split_beta filter_suffixes_card conj_commute)
  also have "{i. i < length ?e \<and> below b p (drop i ?e) \<and> bwt_char ?e i = c} =
      Suc ` {i. i < Suc (length t) \<and> ?e ! i = c \<and> below b p (drop (Suc i) ?e)}"
  proof (intro set_eqI iffI)
    fix i assume "i \<in> {i. i < length ?e \<and> below b p (drop i ?e) \<and> bwt_char ?e i = c}"
    with assms show "i \<in> Suc ` {i. i < Suc (length t) \<and> ?e ! i = c \<and> below b p (drop (Suc i) ?e)}"
      by (cases i) (auto simp: bwt_char_def)
  next
    fix i assume "i \<in> Suc ` {i. i < Suc (length t) \<and> ?e ! i = c \<and> below b p (drop (Suc i) ?e)}"
    then obtain j where j: "i = Suc j" "j < Suc (length t)" "?e ! j = c" "below b p (drop (Suc j) ?e)" by auto
    with assms have "j \<noteq> length t" by auto
    with j show "i \<in> {i. i < length ?e \<and> below b p (drop i ?e) \<and> bwt_char ?e i = c}"
      by (auto simp: bwt_char_def)
  qed
  finally show ?thesis by (simp add: card_image)
qed

lemma rank_Cons:
  "rank e b (c # p) = card {i. i < length e \<and> e ! i < c}
     + card {i. i < length e \<and> e ! i = c \<and> below b p (drop (Suc i) e)}"
proof -
  have "{i. i < length e \<and> below b (c # p) (drop i e)} =
      {i. i < length e \<and> e ! i < c} \<union> {i. i < length e \<and> e ! i = c \<and> below b p (drop (Suc i) e)}"
    by (auto simp: Cons_nth_drop_Suc [symmetric] below_Cons)
  then show ?thesis unfolding rank_def by (simp only:) (subst card_Un_disjoint, auto)
qed

text \<open>A byte that occurs moves the bound of a pattern to the bound of the longer pattern.\<close>

lemma bound_step:
  assumes "c \<noteq> CHR 0x00"
  shows "fm_bound (fm_new t) c (rank (t @ [CHR 0x00]) b p) =
    Some (if c \<in> set t then rank (t @ [CHR 0x00]) b (c # p) else 0)"
proof -
  let ?e = "t @ [CHR 0x00]"
  have "rank ?e b p < length (fm_count (fm_new t))"
    using rank_le [of ?e b p] by (simp add: fm_new_def Let_def)
  moreover have "{i. i < Suc (length t) \<and> ?e ! i = c \<and> below b p (drop (Suc i) ?e)} = {}" if "c \<notin> set t"
    using that assms by (auto simp: nth_append split: if_splits)
  ultimately show ?thesis
    using assms by (auto simp: fm_bound_def first_occurrence_get count_below rank_Cons)
qed

section \<open>Counting and listing the occurrences\<close>

definition occurrences :: "string \<Rightarrow> string \<Rightarrow> nat set" where
  "occurrences t p = {i. i < length t \<and> prefix p (drop i t)}"

lemma rank_difference: "rank e True p - rank e False p = card {i. i < length e \<and> prefix p (drop i e)}"
  "rank e False p \<le> rank e True p"
proof -
  have "{i. i < length e \<and> prefix p (drop i e)} =
      {i. i < length e \<and> below True p (drop i e)} - {i. i < length e \<and> below False p (drop i e)}"
    using below_between by auto
  moreover have sub: "{i. i < length e \<and> below False p (drop i e)} \<subseteq> {i. i < length e \<and> below True p (drop i e)}"
    by (auto simp: below_def)
  ultimately show "rank e True p - rank e False p = card {i. i < length e \<and> prefix p (drop i e)}"
    unfolding rank_def by (simp add: card_Diff_subset)
  show "rank e False p \<le> rank e True p" unfolding rank_def by (rule card_mono [OF _ sub]) simp
qed

lemma prefix_without_nul: "CHR 0x00 \<notin> set p \<Longrightarrow> prefix p (s @ [CHR 0x00]) \<longleftrightarrow> prefix p s"
  by (auto simp: prefix_snoc)

lemma occurrences_extended:
  assumes "CHR 0x00 \<notin> set p" "p \<noteq> []"
  shows "{i. i < length (t @ [CHR 0x00]) \<and> prefix p (drop i (t @ [CHR 0x00]))} = occurrences t p"
proof -
  have "\<not> prefix p [CHR 0x00]" using assms by (cases p) auto
  with assms show ?thesis by (auto simp: occurrences_def prefix_without_nul less_Suc_eq)
qed

lemma no_longer_occurrence:
  assumes "occurrences t p = {}" "p \<noteq> []"
  shows "occurrences t (q @ p) = {}"
proof -
  have "i + length q \<in> occurrences t p" if "i \<in> occurrences t (q @ p)" for i
  proof -
    have "prefix (q @ p) (drop i t)" using that by (simp add: occurrences_def)
    then obtain r where "drop i t = (q @ p) @ r" by (rule prefixE)
    then have "drop (length q) (drop i t) = p @ r" by simp
    then have later: "drop (i + length q) t = p @ r" by (simp add: add.commute)
    have "i + length q < length t"
    proof (rule ccontr)
      assume "\<not> i + length q < length t"
      then have "drop (i + length q) t = []" by simp
      with later assms(2) show False by simp
    qed
    with later show ?thesis unfolding occurrences_def by simp
  qed
  with assms(1) show ?thesis by auto
qed


lemma finite_occurrences: "finite (occurrences t p)"
  by (simp add: occurrences_def)

lemma occurrence_chars: "occurrences t p \<noteq> {} \<Longrightarrow> set p \<subseteq> set t"
  by (auto simp: occurrences_def dest!: set_mono_prefix in_set_dropD)

lemma rank_empty: "rank e False [] = 0" "rank e True [] = length e"
  by (simp_all add: rank_def below_Nil)

lemmas bound_step' = bound_step [OF not_sym]

lemma rank_occurrences:
  assumes "CHR 0x00 \<notin> set p" "p \<noteq> []"
  shows "rank (t @ [CHR 0x00]) True p - rank (t @ [CHR 0x00]) False p = card (occurrences t p)"
  unfolding rank_difference(1) occurrences_extended [OF assms] ..

lemma count_loop_spec:
  assumes "CHR 0x00 \<notin> set cs" "CHR 0x00 \<notin> set p" "rev cs @ p \<noteq> []"
  shows "fm_count_loop (fm_new t) cs (rank (t @ [CHR 0x00]) False p) (rank (t @ [CHR 0x00]) True p)
    = Some (card (occurrences t (rev cs @ p)))"
  using assms
proof (induction cs arbitrary: p)
  case Nil
  then show ?case by (simp add: rank_occurrences)
next
  case (Cons c cs)
  let ?e = "t @ [CHR 0x00]"
  show ?case
  proof (cases "c \<in> set t")
    case False
    then have "occurrences t (rev (c # cs) @ p) = {}"
      using occurrence_chars [of t "rev (c # cs) @ p"] by auto
    with False Cons.prems show ?thesis by (simp add: bound_step')
  next
    case True
    have diff: "rank ?e True (c # p) - rank ?e False (c # p) = card (occurrences t (c # p))"
      using Cons.prems by (intro rank_occurrences) auto
    show ?thesis
    proof (cases "rank ?e True (c # p) \<le> rank ?e False (c # p)")
      case le: True
      then have "occurrences t (c # p) = {}" using diff finite_occurrences by (metis card_0_eq diff_is_0_eq)
      with no_longer_occurrence [of t "c # p" "rev cs"] le True Cons.prems show ?thesis
        by (simp add: bound_step')
    next
      case False
      with True Cons show ?thesis by (simp add: bound_step')
    qed
  qed
qed

lemma range_loop_spec:
  assumes "CHR 0x00 \<notin> set cs" "set cs \<subseteq> set t"
  shows "fm_range_loop (fm_new t) cs (rank (t @ [CHR 0x00]) False p) (rank (t @ [CHR 0x00]) True p)
    = Some (rank (t @ [CHR 0x00]) False (rev cs @ p), rank (t @ [CHR 0x00]) True (rev cs @ p))"
  using assms by (induction cs arbitrary: p) (simp_all add: bound_step')

lemma set_drop_distinct: "distinct xs \<Longrightarrow> set (drop n xs) = set xs - set (take n xs)"
  by (metis Diff_Int_distrib2 Un_Diff Diff_cancel Diff_triv append_take_drop_id distinct_append
      inf_commute set_append sup_bot_left)

lemma rows_between:
  assumes "l = rank e False p" "r = rank e True p"
  shows "distinct (drop l (take r (map fst (sorted_suffixes e))))"
    and "set (drop l (take r (map fst (sorted_suffixes e)))) = {i. i < length e \<and> prefix p (drop i e)}"
proof -
  let ?sa = "map fst (sorted_suffixes e)"
  have "mset ?sa = mset [0..<length e]"
    using arg_cong [OF suffixes_mset [of e], of "image_mset fst"]
    by (simp add: image_mset.compositionality comp_def)
  then have d: "distinct ?sa" by (metis distinct_upt mset_eq_imp_distinct_iff)
  then show "distinct (drop l (take r ?sa))" by simp
  have rows: "set (take (rank e b p) ?sa) = {i. i < length e \<and> below b p (drop i e)}" for b
    by (auto simp: take_map rows_below suffixes_set image_iff)
  have "set (drop l (take r ?sa)) = set (take r ?sa) - set (take l (take r ?sa))"
    using d by (intro set_drop_distinct) simp
  also have "take l (take r ?sa) = take l ?sa"
    using rank_difference(2) [of e p] by (simp add: assms min_def)
  finally show "set (drop l (take r ?sa)) = {i. i < length e \<and> prefix p (drop i e)}"
    using below_between [of p] unfolding assms rows by blast
qed

text \<open>
  C27. For a pattern that is not empty and has no NUL byte, the backward search counts the positions
  of the text at which the pattern occurs, and the listing returns each of these positions exactly
  once. Neither ever reads outside its tables.
\<close>

theorem fm_index_finds_every_occurrence:
  assumes "p \<noteq> []" "CHR 0x00 \<notin> set p"
  shows "count_occurrences (fm_new t) p = Some (card (occurrences t p))
    \<and> (\<exists>found. fm_search (fm_new t) p = Some found \<and> distinct found \<and> set found = occurrences t p)"
proof -
  let ?e = "t @ [CHR 0x00]"
  have len: "fm_text_len (fm_new t) = length ?e" "fm_suffix_array (fm_new t) = map fst (sorted_suffixes ?e)"
    by (simp_all add: fm_new_def Let_def)
  have c: "count_occurrences (fm_new t) p = Some (card (occurrences t p))"
    using count_loop_spec [of "rev p" "[]" t] assms
    by (simp add: count_occurrences_def len rank_empty del: length_append)
  moreover have "\<exists>found. fm_search (fm_new t) p = Some found \<and> distinct found \<and> set found = occurrences t p"
  proof (cases "occurrences t p = {}")
    case True
    then show ?thesis by (simp add: fm_search_def c)
  next
    case False
    then have n: "card (occurrences t p) \<noteq> 0" using finite_occurrences by simp
    have "fm_range_loop (fm_new t) (rev p) 0 (length ?e) = Some (rank ?e False p, rank ?e True p)"
      using range_loop_spec [of "rev p" t "[]"] occurrence_chars [OF False] assms(2)
      by (simp add: rank_empty del: length_append)
    then have "fm_search (fm_new t) p =
        Some (drop (rank ?e False p) (take (rank ?e True p) (map fst (sorted_suffixes ?e))))"
      using n rank_le [of ?e True p] rank_difference(2) [of ?e p]
      by (simp add: fm_search_def c len del: length_append)
    moreover have "{i. i < length ?e \<and> prefix p (drop i ?e)} = occurrences t p"
      by (rule occurrences_extended [OF assms(2,1)])
    ultimately show ?thesis using rows_between [OF refl refl, of ?e p] by auto
  qed
  ultimately show ?thesis by blast
qed

theorem fm_index_finds_every_occurrence_witness:
  "count_occurrences (fm_new ''banana'') ''ana'' = Some 2"
proof -
  have code: "occurrences t p = set (filter (\<lambda>i. prefix p (drop i t)) [0..<length t])" for t p
    by (auto simp: occurrences_def)
  have "card (occurrences ''banana'' ''ana'') = 2" unfolding code by code_simp
  with fm_index_finds_every_occurrence [of "''ana''" "''banana''"] show ?thesis by simp
qed

text \<open>A pattern of one NUL byte is found in the empty text: it is the mark at the end.\<close>

lemma nul_pattern_is_found_in_the_end_mark:
  "count_occurrences (fm_new []) [CHR 0x00] = Some 1 \<and> occurrences [] [CHR 0x00] = {}"
  by (simp add: count_occurrences_def fm_new_def sorted_suffixes_def bwt_char_def fm_bound_def
      occurrences_def Let_def)

end
