(* ===== verification/Schedulers.thy ===== *)
theory Schedulers
  imports Heap_Order
begin

text \<open>
  \<^verbatim>\<open>src/crates/algorithms/src/scheduling.rs\<close>: the priority queue, the binary heap and the
  work-stealing scheduler. The standard library's heap under \<open>PriorityQueue\<close> is the sorted list of
  its items, which is all its interface shows.
\<close>

section \<open>The priority queue\<close>

record 'a prio_heap =
  ph_heap :: "'a list"

definition ph_new :: "'a prio_heap" where
  "ph_new = \<lparr>ph_heap = []\<rparr>"

definition ph_push :: "'a::linorder \<Rightarrow> 'a prio_heap \<Rightarrow> 'a prio_heap" where
  "ph_push x q = q\<lparr>ph_heap := insort x (ph_heap q)\<rparr>"

definition ph_pop :: "'a prio_heap \<Rightarrow> 'a option \<times> 'a prio_heap" where
  "ph_pop q = (case ph_heap q of [] \<Rightarrow> (None, q) | x # xs \<Rightarrow> (Some x, q\<lparr>ph_heap := xs\<rparr>))"

definition ph_peek :: "'a prio_heap \<Rightarrow> 'a option" where
  "ph_peek q = (case ph_heap q of [] \<Rightarrow> None | x # _ \<Rightarrow> Some x)"

definition ph_len :: "'a prio_heap \<Rightarrow> nat" where
  "ph_len q = length (ph_heap q)"

definition ph_is_empty :: "'a prio_heap \<Rightarrow> bool" where
  "ph_is_empty q \<longleftrightarrow> ph_heap q = []"

definition ph_clear :: "'a prio_heap \<Rightarrow> 'a prio_heap" where
  "ph_clear q = q\<lparr>ph_heap := []\<rparr>"

function ph_drain :: "'a prio_heap \<Rightarrow> 'a list \<times> 'a prio_heap" where
  "ph_drain q = (case ph_pop q of
     (None, q') \<Rightarrow> ([], q')
   | (Some x, q') \<Rightarrow> (case ph_drain q' of (xs, q'') \<Rightarrow> (x # xs, q'')))"
  by pat_completeness auto
termination
  by (relation "measure ph_len") (auto simp: ph_pop_def ph_len_def split: list.splits)

declare ph_drain.simps [simp del]

section \<open>The binary heap\<close>

record 'a bheap =
  bh_data :: "'a list"

definition bh_new :: "'a bheap" where
  "bh_new = \<lparr>bh_data = []\<rparr>"

fun sift_up :: "'a::linorder list \<Rightarrow> nat \<Rightarrow> 'a list" where
  "sift_up xs i =
     (if i > 0 then
        (let parent = (i - 1) div 2 in
         if xs ! i \<le> xs ! parent then xs else sift_up (swap_at i parent xs) parent)
      else xs)"

declare sift_up.simps [simp del]

definition bh_push :: "'a::linorder \<Rightarrow> 'a bheap \<Rightarrow> 'a bheap" where
  "bh_push x h = h\<lparr>bh_data := sift_up (bh_data h @ [x]) (length (bh_data h))\<rparr>"

definition largest_of :: "'a::linorder list \<Rightarrow> nat \<Rightarrow> nat" where
  "largest_of xs i =
     (let left = 2 * i + 1; right = 2 * i + 2;
          largest = (if left < length xs \<and> xs ! left > xs ! i then left else i)
      in if right < length xs \<and> xs ! right > xs ! largest then right else largest)"

lemma largest_of_cases:
  "largest_of xs i = i \<or> largest_of xs i = 2 * i + 1 \<and> 2 * i + 1 < length xs \<or>
   largest_of xs i = 2 * i + 2 \<and> 2 * i + 2 < length xs"
  by (simp add: largest_of_def Let_def)

function sift_down :: "'a::linorder list \<Rightarrow> nat \<Rightarrow> 'a list" where
  "sift_down xs i =
     (let largest = largest_of xs i in
      if largest = i then xs else sift_down (swap_at i largest xs) largest)"
  by pat_completeness auto
termination
proof (relation "measure (\<lambda>(xs, i). length xs - i)")
  fix xs :: "'a list" and i x
  assume "x = largest_of xs i" "x \<noteq> i"
  then show "((swap_at i x xs, x), xs, i) \<in> measure (\<lambda>(xs, i). length xs - i)"
    using largest_of_cases [of xs i] by auto
qed simp

declare sift_down.simps [simp del]

definition bh_pop :: "'a::linorder bheap \<Rightarrow> 'a option \<times> 'a bheap" where
  "bh_pop h =
     (if bh_data h = [] then (None, h)
      else (let swapped = swap_at 0 (length (bh_data h) - 1) (bh_data h)
            in (Some (last swapped), h\<lparr>bh_data := sift_down (butlast swapped) 0\<rparr>)))"

definition bh_peek :: "'a bheap \<Rightarrow> 'a option" where
  "bh_peek h = (case bh_data h of [] \<Rightarrow> None | x # _ \<Rightarrow> Some x)"

definition bh_len :: "'a bheap \<Rightarrow> nat" where
  "bh_len h = length (bh_data h)"

definition bh_is_empty :: "'a bheap \<Rightarrow> bool" where
  "bh_is_empty h \<longleftrightarrow> bh_data h = []"

section \<open>The work-stealing scheduler\<close>

text \<open>
  A task is a value; running it is answering it, so \<open>try_execute_next\<close> gives the task it ran
  (\<open>true\<close>) or \<open>None\<close> (\<open>false\<close>). A task owns nothing of the scheduler while it runs, and one that panics
  is not modelled.
\<close>

record 't ws_scheduler =
  ws_queues :: "'t list list"
  ws_steal_attempts :: u64
  ws_successes :: u64

definition ws_new :: "nat \<Rightarrow> 't ws_scheduler" where
  "ws_new n = \<lparr>ws_queues = replicate n [], ws_steal_attempts = 0, ws_successes = 0\<rparr>"

definition ws_submit :: "nat \<Rightarrow> 't \<Rightarrow> 't ws_scheduler \<Rightarrow> 't ws_scheduler" where
  "ws_submit w t s =
     (if w < length (ws_queues s)
      then s\<lparr>ws_queues := (ws_queues s)[w := ws_queues s ! w @ [t]]\<rparr> else s)"

fun steal_loop :: "nat \<Rightarrow> nat list \<Rightarrow> 't ws_scheduler \<Rightarrow> 't option \<times> 't ws_scheduler" where
  "steal_loop w [] s = (None, s)"
| "steal_loop w (i # js) s =
     (let target = (w + i) mod length (ws_queues s) in
      if target \<noteq> w then
        (if ws_queues s ! target = [] then steal_loop w js s
         else (Some (last (ws_queues s ! target)),
               s\<lparr>ws_queues := (ws_queues s)[target := butlast (ws_queues s ! target)],
                 ws_successes := ws_successes s + 1\<rparr>))
      else steal_loop w js s)"

definition try_execute_next :: "nat \<Rightarrow> 't ws_scheduler \<Rightarrow> 't option \<times> 't ws_scheduler" where
  "try_execute_next w s =
     (if w \<ge> length (ws_queues s) then (None, s)
      else (case ws_queues s ! w of
              t # rest \<Rightarrow> (Some t, s\<lparr>ws_queues := (ws_queues s)[w := rest]\<rparr>)
            | [] \<Rightarrow> steal_loop w [1..<length (ws_queues s)]
                     (s\<lparr>ws_steal_attempts := ws_steal_attempts s + 1\<rparr>)))"

definition queue_len :: "nat \<Rightarrow> 't ws_scheduler \<Rightarrow> nat" where
  "queue_len w s = (if w < length (ws_queues s) then length (ws_queues s ! w) else 0)"

definition total_pending :: "'t ws_scheduler \<Rightarrow> nat" where
  "total_pending s = sum_list (map length (ws_queues s))"

section \<open>Both heaps answer the items in order\<close>

lemma ph_pop_interface: "sorted (ph_heap q) \<Longrightarrow> ph_heap q \<noteq> [] \<Longrightarrow>
    \<exists>q'. ph_pop q = (Some (hd (ph_heap q)), q') \<and> sorted (ph_heap q') \<and> mset (ph_heap q) = add_mset (hd (ph_heap q)) (mset (ph_heap q'))
      \<and> (\<forall>x\<in>set (ph_heap q). hd (ph_heap q) \<le> x)"
  by (cases "ph_heap q") (auto simp: ph_pop_def)

interpretation std: pqueue "\<lambda>q. sorted (ph_heap q)" "\<lambda>q. mset (ph_heap q)" "(\<le>)" "ph_pop :: 'a::linorder prio_heap \<Rightarrow> _"
proof
  fix q :: "'a prio_heap"
  assume "mset (ph_heap q) = {#}"
  then show "ph_pop q = (None, q)" by (simp add: ph_pop_def)
next
  fix q :: "'a prio_heap"
  assume "sorted (ph_heap q)" and "mset (ph_heap q) \<noteq> {#}"
  with ph_pop_interface [of q] show "\<exists>e q'. ph_pop q = (Some e, q') \<and> sorted (ph_heap q') \<and> e \<in># mset (ph_heap q)
      \<and> mset (ph_heap q') = mset (ph_heap q) - {#e#} \<and> (\<forall>x\<in>#mset (ph_heap q). e \<le> x)"
    by (metis add_mset_remove_trivial mset_zero_iff set_mset_mset union_single_eq_member)
qed

interpretation desc: heap_order "(\<ge>) :: 'a::linorder \<Rightarrow> _"
  by unfold_locales auto

lemma sift_up_order: "order_up (\<ge>) i xs \<Longrightarrow> i < length xs \<Longrightarrow> in_order (\<ge>) (sift_up xs i)"
proof (induction xs i rule: sift_up.induct)
  case (1 xs i)
  have l: "par i < length xs" if "0 < i" using that 1(3) par_less [of i] by auto
  show ?case
  proof (cases "0 < i \<and> \<not> xs ! i \<le> xs ! par i")
    case True
    then have "xs ! i \<ge> xs ! par i" by auto
    with True desc.up_step [OF 1(2)] 1 l show ?thesis
      by (simp add: sift_up.simps [of xs i] par_def Let_def)
  next
    case False
    with desc.up_done [OF 1(2)] show ?thesis
      by (auto simp: sift_up.simps [of xs i] par_def Let_def)
  qed
qed

lemma mset_sift_up: "i < length xs \<Longrightarrow> mset (sift_up xs i) = mset xs"
proof (induction xs i rule: sift_up.induct)
  case (1 xs i)
  have "(i - 1) div 2 < length xs" using 1(2) by linarith
  with 1 show ?case by (simp add: sift_up.simps [of xs i] Let_def mset_swap_at)
qed

lemma largest_of_child:
  assumes "largest_of xs i \<noteq> i"
  shows "largest_of xs i < length xs" "par (largest_of xs i) = i" "i < largest_of xs i"
    "xs ! largest_of xs i \<ge> xs ! i"
proof -
  show "largest_of xs i < length xs" "par (largest_of xs i) = i" "i < largest_of xs i"
    using assms largest_of_cases [of xs i] par_child [of "largest_of xs i" i] by auto
  show "xs ! largest_of xs i \<ge> xs ! i" by (auto simp: largest_of_def Let_def)
qed

lemma largest_of_ge: "k < length xs \<Longrightarrow> 0 < k \<Longrightarrow> par k = i \<Longrightarrow> xs ! largest_of xs i \<ge> xs ! k"
  using par_child [of k i] by (auto simp: largest_of_def Let_def)

lemma sift_down_order: "order_down (\<ge>) i xs \<Longrightarrow> i < length xs \<Longrightarrow> in_order (\<ge>) (sift_down xs i)"
proof (induction xs i rule: sift_down.induct)
  case (1 xs i)
  show ?case
  proof (cases "largest_of xs i = i")
    case True
    with desc.down_done [OF 1(2)] largest_of_ge [of _ xs i] show ?thesis
      by (simp add: sift_down.simps [of xs i] Let_def)
  next
    case False
    from desc.down_step [OF 1(2,3) largest_of_child [OF False] largest_of_ge]
    have "order_down (\<ge>) (largest_of xs i) (swap_at i (largest_of xs i) xs)" .
    with 1(1) [OF refl False] largest_of_child(1) [OF False] False show ?thesis
      by (simp add: sift_down.simps [of xs i] Let_def)
  qed
qed

lemma mset_sift_down: "i < length xs \<Longrightarrow> mset (sift_down xs i) = mset xs"
proof (induction xs i rule: sift_down.induct)
  case (1 xs i)
  with largest_of_child(1) [of xs i] show ?case
    by (simp add: sift_down.simps [of xs i] Let_def mset_swap_at)
qed

definition bh_inv :: "'a::linorder bheap \<Rightarrow> bool" where
  "bh_inv h \<longleftrightarrow> in_order (\<ge>) (bh_data h)"

lemma bh_push_step: "bh_inv h \<Longrightarrow> bh_inv (bh_push x h) \<and> mset (bh_data (bh_push x h)) = add_mset x (mset (bh_data h))"
  by (simp add: bh_inv_def bh_push_def sift_up_order up_snoc mset_sift_up)

lemma bh_pop_step:
  assumes "bh_inv h" and ne: "bh_data h \<noteq> []"
  shows "\<exists>h'. bh_pop h = (Some (hd (bh_data h)), h') \<and> bh_inv h' \<and>
    mset (bh_data h) = add_mset (hd (bh_data h)) (mset (bh_data h'))"
proof -
  let ?ys = "butlast (swap_at 0 (length (bh_data h) - 1) (bh_data h))"
  have d: "order_down (\<ge>) 0 ?ys" using assms(1) down_swapped unfolding bh_inv_def by blast
  have "in_order (\<ge>) (sift_down ?ys 0) \<and> mset (sift_down ?ys 0) = mset ?ys"
  proof (cases "?ys = []")
    case True
    then show ?thesis by (simp add: sift_down.simps [of "[]"] largest_of_def)
  next
    case False
    then have "0 < length ?ys" by blast
    with sift_down_order [OF d] mset_sift_down show ?thesis by blast
  qed
  with mset_swapped [OF ne] last_swapped [OF ne] ne show ?thesis
    by (simp add: bh_pop_def Let_def bh_inv_def)
qed

interpretation bh: pqueue bh_inv "\<lambda>h. mset (bh_data h)" "(\<ge>)" "bh_pop :: 'a::linorder bheap \<Rightarrow> _"
proof
  fix h :: "'a bheap"
  assume "mset (bh_data h) = {#}"
  then show "bh_pop h = (None, h)" by (simp add: bh_pop_def)
next
  fix h :: "'a bheap"
  assume inv: "bh_inv h" and "mset (bh_data h) \<noteq> {#}"
  then have ne: "bh_data h \<noteq> []" by simp
  have "\<forall>x\<in>#mset (bh_data h). hd (bh_data h) \<ge> x"
    using desc.root_least_mem inv by (auto simp: bh_inv_def)
  with bh_pop_step [OF inv ne] ne show "\<exists>e h'. bh_pop h = (Some e, h') \<and> bh_inv h' \<and> e \<in># mset (bh_data h)
      \<and> mset (bh_data h') = mset (bh_data h) - {#e#} \<and> (\<forall>x\<in>#mset (bh_data h). e \<ge> x)"
    by (intro exI [of _ "hd (bh_data h)"]) auto
qed

text \<open>
  The specification of both: a bag, from which a pop takes the extreme item, the greatest of the
  binary heap and the least of the priority queue.
\<close>

datatype 'a heap_op = HPush 'a | HPop

fun bag_step :: "('a multiset \<Rightarrow> 'a) \<Rightarrow> 'a heap_op \<Rightarrow> 'a multiset \<Rightarrow> 'a option \<times> 'a multiset" where
  "bag_step best (HPush x) b = (None, add_mset x b)"
| "bag_step best HPop b = (if b = {#} then (None, b) else (Some (best b), b - {#best b#}))"

fun bh_step :: "'a::linorder heap_op \<Rightarrow> 'a bheap \<Rightarrow> 'a option \<times> 'a bheap" where
  "bh_step (HPush x) h = (None, bh_push x h)"
| "bh_step HPop h = bh_pop h"

fun ph_step :: "'a::linorder heap_op \<Rightarrow> 'a prio_heap \<Rightarrow> 'a option \<times> 'a prio_heap" where
  "ph_step (HPush x) q = (None, ph_push x q)"
| "ph_step HPop q = ph_pop q"

lemma run_outputs_simulation:
  assumes "R s t" and "\<And>x s t. R s t \<Longrightarrow> fst (f x s) = fst (g x t) \<and> R (snd (f x s)) (snd (g x t))"
  shows "fst (run_outputs f xs s) = fst (run_outputs g xs t) \<and> R (snd (run_outputs f xs s)) (snd (run_outputs g xs t))"
  using assms(1)
proof (induction xs arbitrary: s t)
  case (Cons x xs)
  from assms(2) [OF Cons.prems] have "fst (f x s) = fst (g x t)" "R (snd (f x s)) (snd (g x t))" by blast+
  with Cons.IH [OF this(2)] show ?case by (simp add: split_beta)
qed simp

definition greatest :: "'a::linorder multiset \<Rightarrow> 'a" where
  "greatest b = Max (set_mset b)"

definition least :: "'a::linorder multiset \<Rightarrow> 'a" where
  "least b = Min (set_mset b)"

lemma bh_step_bag:
  assumes "bh_inv h"
  shows "fst (bh_step x h) = fst (bag_step greatest x (mset (bh_data h))) \<and> bh_inv (snd (bh_step x h)) \<and>
    mset (bh_data (snd (bh_step x h))) = snd (bag_step greatest x (mset (bh_data h)))"
proof (cases x)
  case (HPush y)
  with bh_push_step [OF assms] show ?thesis by simp
next
  case HPop
  show ?thesis
  proof (cases "bh_data h = []")
    case True
    with assms HPop show ?thesis by (simp add: bh_pop_def)
  next
    case False
    then have "mset (bh_data h) \<noteq> {#}" by simp
    from bh.pop_least [OF assms this] obtain e h' where e: "bh_pop h = (Some e, h')" "bh_inv h'" "e \<in># mset (bh_data h)"
      "mset (bh_data h') = mset (bh_data h) - {#e#}" "\<forall>x\<in>#mset (bh_data h). x \<le> e" by auto
    then have "greatest (mset (bh_data h)) = e" unfolding greatest_def by (intro Max_eqI) auto
    with e HPop False show ?thesis by simp
  qed
qed

lemma ph_step_bag:
  assumes "sorted (ph_heap q)"
  shows "fst (ph_step x q) = fst (bag_step least x (mset (ph_heap q))) \<and> sorted (ph_heap (snd (ph_step x q))) \<and>
    mset (ph_heap (snd (ph_step x q))) = snd (bag_step least x (mset (ph_heap q)))"
proof (cases x)
  case (HPush y)
  with assms show ?thesis by (simp add: ph_push_def sorted_insort)
next
  case HPop
  show ?thesis
  proof (cases "ph_heap q")
    case Nil
    with HPop show ?thesis by (simp add: ph_pop_def)
  next
    case (Cons y ys)
    with assms have "least (mset (ph_heap q)) = y" unfolding least_def by (intro Min_eqI) auto
    with assms HPop Cons show ?thesis by (simp add: ph_pop_def)
  qed
qed

text \<open>
  Both heaps are a bag. Whatever is pushed and popped, each pop of the binary heap answers the
  greatest item that is in it and each pop of the priority queue the least, as a pop of a bag does,
  and each takes that one item out.
\<close>

theorem heaps_refine_bags:
  "fst (run_outputs bh_step ops bh_new) = fst (run_outputs (bag_step greatest) ops {#})
   \<and> mset (bh_data (snd (run_outputs bh_step ops bh_new))) = snd (run_outputs (bag_step greatest) ops {#})
   \<and> fst (run_outputs ph_step ops ph_new) = fst (run_outputs (bag_step least) ops {#})
   \<and> mset (ph_heap (snd (run_outputs ph_step ops ph_new))) = snd (run_outputs (bag_step least) ops {#})"
proof -
  have "bh_inv bh_new \<and> mset (bh_data bh_new) = {#}" by (simp add: bh_inv_def bh_new_def)
  from run_outputs_simulation [of "\<lambda>h b. bh_inv h \<and> mset (bh_data h) = b", OF this, of bh_step "bag_step greatest" ops]
  have b: "fst (run_outputs bh_step ops bh_new) = fst (run_outputs (bag_step greatest) ops {#})"
    "mset (bh_data (snd (run_outputs bh_step ops bh_new))) = snd (run_outputs (bag_step greatest) ops {#})"
    using bh_step_bag by blast+
  have "sorted (ph_heap ph_new) \<and> mset (ph_heap ph_new) = {#}" by (simp add: ph_new_def)
  from run_outputs_simulation [of "\<lambda>h b. sorted (ph_heap h) \<and> mset (ph_heap h) = b", OF this, of ph_step "bag_step least" ops]
  have "fst (run_outputs ph_step ops ph_new) = fst (run_outputs (bag_step least) ops {#})"
    "mset (ph_heap (snd (run_outputs ph_step ops ph_new))) = snd (run_outputs (bag_step least) ops {#})"
    using ph_step_bag by blast+
  with b show ?thesis by blast
qed

lemma ph_drain_all: "ph_drain q = (ph_heap q, q\<lparr>ph_heap := []\<rparr>)"
proof (induction q rule: ph_drain.induct)
  case (1 q)
  then show ?case
    by (cases "ph_heap q") (simp_all add: ph_drain.simps [of q] ph_pop_def)
qed

lemma bh_pop_peek: "bh_inv h \<Longrightarrow> fst (bh_pop h) = bh_peek h"
  using bh_pop_step [of h] by (cases "bh_data h") (auto simp: bh_peek_def bh_pop_def)

text \<open>
  Peeking at either heap shows what the next pop answers, and draining the priority queue gives all
  its items in ascending order and leaves it empty.
\<close>

theorem peek_and_drain:
  "bh_peek (snd (run_outputs bh_step ops bh_new)) = fst (bh_pop (snd (run_outputs bh_step ops bh_new)))
   \<and> ph_peek (snd (run_outputs ph_step ops ph_new)) = fst (ph_pop (snd (run_outputs ph_step ops ph_new)))
   \<and> fst (ph_drain (snd (run_outputs ph_step ops ph_new))) = sorted_list_of_multiset (snd (run_outputs (bag_step least) ops {#}))
   \<and> ph_is_empty (snd (ph_drain (snd (run_outputs ph_step ops ph_new))))"
proof -
  have "bh_inv (snd (run_outputs bh_step ops bh_new))"
    by (rule run_outputs_invariant) (use bh_step_bag in \<open>auto simp: bh_inv_def bh_new_def\<close>)
  then have "bh_peek (snd (run_outputs bh_step ops bh_new)) = fst (bh_pop (snd (run_outputs bh_step ops bh_new)))"
    by (rule bh_pop_peek [symmetric])
  moreover have "sorted (ph_heap (snd (run_outputs ph_step ops ph_new)))
      \<and> mset (ph_heap (snd (run_outputs ph_step ops ph_new))) = snd (run_outputs (bag_step least) ops {#})"
    using run_outputs_simulation [of "\<lambda>h b. sorted (ph_heap h) \<and> mset (ph_heap h) = b" ph_new "{#}" ph_step "bag_step least" ops]
      ph_step_bag by (auto simp: ph_new_def)
  then have "ph_heap (snd (run_outputs ph_step ops ph_new)) = sorted_list_of_multiset (snd (run_outputs (bag_step least) ops {#}))"
    by (metis sorted_list_of_multiset_mset sorted_sort_id)
  moreover have "ph_peek q = fst (ph_pop q)" for q :: "'a prio_heap"
    by (simp add: ph_peek_def ph_pop_def split: list.split)
  ultimately show ?thesis by (simp add: ph_drain_all ph_is_empty_def)
qed

section \<open>No task is lost\<close>

datatype 't ws_op = Submit nat 't | Execute nat

fun ws_step :: "'t ws_op \<Rightarrow> 't ws_scheduler \<Rightarrow> 't option \<times> 't ws_scheduler" where
  "ws_step (Submit w t) s = (None, ws_submit w t s)"
| "ws_step (Execute w) s = try_execute_next w s"

definition waiting :: "'t ws_scheduler \<Rightarrow> 't multiset" where
  "waiting s = mset (concat (ws_queues s))"

fun accepted_tasks :: "nat \<Rightarrow> 't ws_op list \<Rightarrow> 't list" where
  "accepted_tasks n [] = []"
| "accepted_tasks n (Submit w t # ops) = (if w < n then t # accepted_tasks n ops else accepted_tasks n ops)"
| "accepted_tasks n (Execute w # ops) = accepted_tasks n ops"

definition ran_tasks :: "'t option list \<Rightarrow> 't list" where
  "ran_tasks outs = concat (map (\<lambda>x. case x of None \<Rightarrow> [] | Some t \<Rightarrow> [t]) outs)"

lemma ran_tasks_simps [simp]: "ran_tasks [] = []" "ran_tasks (None # xs) = ran_tasks xs" "ran_tasks (Some t # xs) = t # ran_tasks xs"
  by (simp_all add: ran_tasks_def)

lemma concat_list_update:
  "i < length xss \<Longrightarrow> mset (concat (xss[i := ys])) + mset (xss ! i) = mset (concat xss) + mset ys"
  by (induction xss arbitrary: i) (auto simp: nth_Cons' split: nat.split)

lemma mset_last: "xs \<noteq> [] \<Longrightarrow> mset xs = add_mset (last xs) (mset (butlast xs))"
  by (induction xs) auto

text \<open>The state with as many workers, without the task that ran.\<close>

definition runs :: "'t option \<times> 't ws_scheduler \<Rightarrow> 't ws_scheduler \<Rightarrow> bool" where
  "runs r s \<longleftrightarrow> length (ws_queues (snd r)) = length (ws_queues s) \<and>
     (case fst r of None \<Rightarrow> waiting (snd r) = waiting s | Some t \<Rightarrow> waiting s = add_mset t (waiting (snd r)))"

lemma taken:
  assumes "i < length (ws_queues s)" "mset (ws_queues s ! i) = add_mset t (mset ys)"
  shows "waiting s = add_mset t (mset (concat ((ws_queues s)[i := ys])))"
  using concat_list_update [OF assms(1), of ys] assms(2) by (simp add: waiting_def)

lemma steal_loop_runs: "w < length (ws_queues s) \<Longrightarrow> runs (steal_loop w js s) s"
proof (induction js)
  case (Cons i js)
  let ?t = "(w + i) mod length (ws_queues s)"
  show ?case
  proof (cases "?t \<noteq> w \<and> ws_queues s ! ?t \<noteq> []")
    case True
    have "?t < length (ws_queues s)" using Cons.prems by (intro mod_less_divisor) auto
    from taken [OF this mset_last] True show ?thesis by (simp add: Let_def runs_def waiting_def)
  qed (use Cons in \<open>auto simp: Let_def\<close>)
qed (simp add: runs_def)

lemma try_execute_next_runs: "runs (try_execute_next w s) s"
proof (cases "w < length (ws_queues s)")
  case True
  show ?thesis
  proof (cases "ws_queues s ! w")
    case Nil
    have "runs (steal_loop w [1..<length (ws_queues s)] (s\<lparr>ws_steal_attempts := ws_steal_attempts s + 1\<rparr>))
        (s\<lparr>ws_steal_attempts := ws_steal_attempts s + 1\<rparr>)"
      using True by (intro steal_loop_runs) simp
    then show ?thesis using True Nil by (simp add: try_execute_next_def runs_def waiting_def cong: option.case_cong)
  next
    case (Cons t rest)
    with taken [OF True, of t rest] True show ?thesis by (simp add: try_execute_next_def runs_def waiting_def)
  qed
qed (simp add: try_execute_next_def runs_def)

text \<open>A worker comes back empty only if every queue is.\<close>

lemma steal_loop_None: "fst (steal_loop w js s) = None \<longleftrightarrow>
    (\<forall>i\<in>set js. (w + i) mod length (ws_queues s) = w \<or> ws_queues s ! ((w + i) mod length (ws_queues s)) = [])"
  by (induction js) (auto simp: Let_def)

lemma round_the_workers:
  assumes "w < n" "t < (n::nat)" "t \<noteq> w"
  shows "\<exists>i\<in>{1..<n}. (w + i) mod n = t"
proof (cases "w < t")
  case True
  with assms show ?thesis by (intro bexI [of _ "t - w"]) auto
next
  case False
  with assms have "(w + (n - w + t)) mod n = t" "n - w + t \<in> {1..<n}" by auto
  then show ?thesis by blast
qed

lemma try_execute_next_None:
  assumes "w < length (ws_queues s)"
  shows "fst (try_execute_next w s) = None \<longleftrightarrow> waiting s = {#}"
proof -
  have "(\<forall>i\<in>set [1..<length (ws_queues s)]. (w + i) mod length (ws_queues s) = w
      \<or> ws_queues s ! ((w + i) mod length (ws_queues s)) = []) \<longleftrightarrow>
    (\<forall>t<length (ws_queues s). t = w \<or> ws_queues s ! t = [])" (is "?steal \<longleftrightarrow> ?all")
  proof
    assume ?steal
    with round_the_workers [OF assms] show ?all by (metis set_upt)
  next
    assume ?all
    then show ?steal using assms by (metis gr_implies_not_zero mod_less_divisor neq0_conv)
  qed
  moreover have "waiting s = {#} \<longleftrightarrow> (\<forall>t<length (ws_queues s). ws_queues s ! t = [])"
    by (auto simp: waiting_def all_set_conv_all_nth)
  ultimately show ?thesis using assms
    by (auto simp: try_execute_next_def steal_loop_None split: list.split)
qed

lemma total_pending_waiting: "total_pending s = size (waiting s)"
  by (simp add: total_pending_def waiting_def length_concat)

lemma ws_run_waiting:
  "length (ws_queues s) = n \<Longrightarrow> run_outputs ws_step ops s = (outs, s') \<Longrightarrow>
   mset (ran_tasks outs) + waiting s' = mset (accepted_tasks n ops) + waiting s \<and> length (ws_queues s') = n"
proof (induction ops arbitrary: s outs)
  case Nil
  then show ?case by simp
next
  case (Cons x ops)
  define outs' where "outs' = fst (run_outputs ws_step ops (snd (ws_step x s)))"
  then have outs: "run_outputs ws_step ops (snd (ws_step x s)) = (outs', s')" "outs = fst (ws_step x s) # outs'"
    using Cons.prems(2) by (auto simp: split_beta)
  show ?case
  proof (cases x)
    case (Submit w t)
    let ?s = "ws_submit w t s"
    have l: "length (ws_queues ?s) = n" using Cons.prems(1) by (simp add: ws_submit_def)
    have "waiting ?s = (if w < n then add_mset t (waiting s) else waiting s)"
      using concat_list_update [of w "ws_queues s" "ws_queues s ! w @ [t]"] Cons.prems(1)
      by (simp add: ws_submit_def waiting_def)
    with Cons.IH [OF l] outs Submit show ?thesis by simp
  next
    case (Execute w)
    with try_execute_next_runs [of w s] Cons.prems(1)
    have r: "runs (ws_step x s) s" and l: "length (ws_queues (snd (ws_step x s))) = n" by (simp_all add: runs_def)
    from Cons.IH [OF l outs(1)] r Execute outs(2) show ?thesis
      by (cases "fst (ws_step x s)") (auto simp: runs_def)
  qed
qed

lemma executes_accept_nothing: "accepted_tasks n (replicate k (Execute w)) = []"
  by (induction k) simp_all

lemma one_worker_drains:
  assumes "w < length (ws_queues s)" "size (waiting s) = k"
  shows "waiting (snd (run_outputs ws_step (replicate k (Execute w)) s)) = {#}"
  using assms
proof (induction k arbitrary: s)
  case 0
  then show ?case by simp
next
  case (Suc k)
  then have "fst (try_execute_next w s) \<noteq> None" using try_execute_next_None by fastforce
  with try_execute_next_runs [of w s] Suc.prems
  have "length (ws_queues (snd (try_execute_next w s))) = length (ws_queues s)" "size (waiting (snd (try_execute_next w s))) = k"
    by (auto simp: runs_def)
  with Suc.IH [of "snd (try_execute_next w s)"] Suc.prems show ?case by (simp add: split_beta)
qed

text \<open>
  The work-stealing scheduler runs every task it accepted once. After any submissions and steps of
  its workers, what ran and what waits are together what was submitted to a worker there is; a worker
  finds nothing to run exactly when nothing is pending; and any one worker that goes on alone runs
  all that is pending, its own and what it steals.
\<close>

theorem work_stealing_runs_every_task_once:
  assumes "run_outputs ws_step ops (ws_new n) = (outs, s)" and "w < n"
  shows "mset (ran_tasks outs) + waiting s = mset (accepted_tasks n ops)
    \<and> (fst (try_execute_next w s) = None \<longleftrightarrow> total_pending s = 0)
    \<and> (case run_outputs ws_step (replicate (total_pending s) (Execute w)) s of
         (outs', s') \<Rightarrow> mset (ran_tasks outs') = waiting s \<and> total_pending s' = 0)"
proof -
  have "length (ws_queues (ws_new n :: 'a ws_scheduler)) = n" "waiting (ws_new n :: 'a ws_scheduler) = {#}"
    by (simp_all add: ws_new_def waiting_def)
  from ws_run_waiting [OF this(1) assms(1)] this(2)
  have s: "mset (ran_tasks outs) + waiting s = mset (accepted_tasks n ops)" "length (ws_queues s) = n" by auto
  obtain outs' s' where r: "run_outputs ws_step (replicate (total_pending s) (Execute w)) s = (outs', s')" by fastforce
  have w: "w < length (ws_queues s)" using s(2) assms(2) by simp
  have "waiting s' = {#}" using one_worker_drains [OF w refl] r by (simp add: total_pending_waiting)
  with ws_run_waiting [OF s(2) r] have "mset (ran_tasks outs') = waiting s" "total_pending s' = 0"
    by (simp_all add: executes_accept_nothing total_pending_waiting)
  with s r try_execute_next_None [OF w] show ?thesis by (simp add: total_pending_waiting)
qed

theorem work_stealing_runs_every_task_once_witness:
  "\<exists>outs s. run_outputs ws_step [Submit 0 ''a'', Submit 0 ''b'', Submit 5 ''c'', Execute 1] (ws_new 2) = (outs, s)
     \<and> ran_tasks outs = [''b''] \<and> waiting s = {#''a''#}"
proof -
  obtain outs s where r: "run_outputs ws_step [Submit 0 ''a'', Submit 0 ''b'', Submit 5 ''c'', Execute 1] (ws_new 2) = (outs, s)"
    by fastforce
  then have "ran_tasks outs = [''b'']"
    by (auto simp: ws_new_def ws_submit_def try_execute_next_def numeral_2_eq_2)
  with work_stealing_runs_every_task_once [OF r, of 1] r show ?thesis by auto
qed

end
