(* ===== verification/Task_Graph.thy ===== *)
theory Task_Graph
  imports Prelude "HOL-Library.Multiset"
begin

text \<open>
  \<^verbatim>\<open>src/crates/algorithms/src/scheduling.rs\<close>, \<open>TaskGraph\<close>: tasks with dependencies, the check for
  cycles, the tasks that are ready and the topological order. A hash table is an association list;
  where the code walks one, the order of the walk is an argument. The costs are not modelled beyond
  their being kept.
\<close>

declare keys_update [simp]

section \<open>The graph\<close>

record dag_task =
  dt_id :: nat
  dt_name :: string
  dt_cost :: f64
  dt_completed :: bool

type_synonym links = "(nat \<times> nat list) list"

record task_graph =
  dg_tasks :: "(nat \<times> dag_task) list"
  dg_dependencies :: links
  dg_dependents :: links
  dg_next_id :: nat

definition dg_new :: task_graph where
  "dg_new = \<lparr>dg_tasks = [], dg_dependencies = [], dg_dependents = [], dg_next_id = 0\<rparr>"

text \<open>\<open>entry(k).or_default()\<close> and what is in an entry.\<close>

definition links_of :: "links \<Rightarrow> nat \<Rightarrow> nat list" where
  "links_of m k = (case map_of m k of None \<Rightarrow> [] | Some xs \<Rightarrow> xs)"

definition touch :: "nat \<Rightarrow> links \<Rightarrow> links" where
  "touch k m = (if map_of m k = None then AList.update k [] m else m)"

definition push_link :: "nat \<Rightarrow> nat \<Rightarrow> links \<Rightarrow> links" where
  "push_link k v m = AList.update k (links_of m k @ [v]) m"

definition add_task :: "string \<Rightarrow> f64 \<Rightarrow> task_graph \<Rightarrow> nat \<times> task_graph" where
  "add_task name cost g =
     (let i = dg_next_id g
      in (i, g\<lparr>dg_next_id := i + 1,
              dg_tasks := AList.update i \<lparr>dt_id = i, dt_name = name, dt_cost = cost, dt_completed = False\<rparr> (dg_tasks g),
              dg_dependencies := touch i (dg_dependencies g),
              dg_dependents := touch i (dg_dependents g)\<rparr>))"

text \<open>The stack is a list from its top.\<close>

function cycle_loop :: "links \<Rightarrow> nat \<Rightarrow> nat list \<Rightarrow> nat list \<Rightarrow> bool" where
  "cycle_loop m to visited [] = False"
| "cycle_loop m to visited (node # stack) =
     (if node = to then True
      else if node \<in> set visited then cycle_loop m to visited stack
      else cycle_loop m to (node # visited) (rev (links_of m node) @ stack))"
  by pat_completeness auto
termination
proof (relation "measures [\<lambda>(m, to, visited, stack). card (fst ` set m - set visited),
    \<lambda>(m, to, visited, stack). length stack]", simp, simp, goal_cases)
  case (1 m to visited node stack)
  show ?case
  proof (cases "node \<in> fst ` set m")
    case True
    then have "fst ` set m - set (node # visited) \<subset> fst ` set m - set visited" using 1 by auto
    then have "card (fst ` set m - set (node # visited)) < card (fst ` set m - set visited)"
      by (rule psubset_card_mono [rotated]) simp
    then show ?thesis by simp
  next
    case False
    then have "links_of m node = []" by (simp add: links_of_def map_of_eq_None_iff [THEN iffD2])
    moreover have "fst ` set m - set (node # visited) = fst ` set m - set visited" using False by auto
    ultimately show ?thesis by simp
  qed
qed

definition creates_cycle :: "task_graph \<Rightarrow> nat \<Rightarrow> nat \<Rightarrow> bool" where
  "creates_cycle g from_t to \<longleftrightarrow> cycle_loop (dg_dependents g) to [] [from_t]"

definition add_dependency :: "nat \<Rightarrow> nat \<Rightarrow> task_graph \<Rightarrow> (string, unit) result \<times> task_graph" where
  "add_dependency t dep g =
     (if map_of (dg_tasks g) t = None \<or> map_of (dg_tasks g) dep = None then (Inl ''task not found'', g)
      else if creates_cycle g t dep then (Inl ''dependency would create a cycle'', g)
      else (Inr (), g\<lparr>dg_dependencies := push_link t dep (dg_dependencies g),
                      dg_dependents := push_link dep t (dg_dependents g)\<rparr>))"

definition mark_completed :: "nat \<Rightarrow> task_graph \<Rightarrow> task_graph" where
  "mark_completed t g = (case map_of (dg_tasks g) t of
     None \<Rightarrow> g
   | Some x \<Rightarrow> g\<lparr>dg_tasks := AList.update t (x\<lparr>dt_completed := True\<rparr>) (dg_tasks g)\<rparr>)"

definition is_completed :: "task_graph \<Rightarrow> nat \<Rightarrow> bool" where
  "is_completed g t \<longleftrightarrow> (case map_of (dg_tasks g) t of None \<Rightarrow> True | Some x \<Rightarrow> dt_completed x)"

definition ready_tasks :: "task_graph \<Rightarrow> nat list" where
  "ready_tasks g = map fst (filter (\<lambda>(i, t). \<not> dt_completed t
     \<and> list_all (is_completed g) (links_of (dg_dependencies g) i)) (dg_tasks g))"

text \<open>
  One edge of the sort: the count of a dependent goes down, saturating at 0, and at 0 the dependent
  is pushed. The queue is a vector that is popped at its end, here a list from that end.
\<close>

definition release :: "nat \<Rightarrow> (nat \<times> nat) list \<times> nat list \<Rightarrow> (nat \<times> nat) list \<times> nat list" where
  "release t s = (case s of (deg, queue) \<Rightarrow>
     (case map_of deg t of
        None \<Rightarrow> (deg, queue)
      | Some d \<Rightarrow> (AList.update t (d - 1) deg, if d - 1 = 0 then t # queue else queue)))"

partial_function (option) topo_loop ::
  "links \<Rightarrow> (nat \<times> nat) list \<Rightarrow> nat list \<Rightarrow> nat list \<Rightarrow> nat list option" where
  "topo_loop m deg queue sorted_ts =
     (case queue of
        [] \<Rightarrow> Some sorted_ts
      | t # rest \<Rightarrow>
          (case fold release (links_of m t) (deg, rest) of
             (deg', queue') \<Rightarrow> topo_loop m deg' queue' (sorted_ts @ [t])))"

definition topological_sort :: "((nat \<times> nat) list \<Rightarrow> (nat \<times> nat) list) \<Rightarrow> task_graph \<Rightarrow> nat list option" where
  "topological_sort walk g =
     (let deg = map (\<lambda>(i, t). (i, length (links_of (dg_dependencies g) i))) (dg_tasks g)
      in topo_loop (dg_dependents g) deg
           (rev (map fst (filter (\<lambda>(i, d). d = 0) (walk deg)))) [])"

definition task_count :: "task_graph \<Rightarrow> nat" where
  "task_count g = length (dg_tasks g)"

section \<open>The check for cycles\<close>

definition edges :: "links \<Rightarrow> (nat \<times> nat) set" where
  "edges m = {(a, b). b \<in> set (links_of m a)}"

lemma leaves_visited:
  assumes "(v, to) \<in> (edges m)\<^sup>*" "v \<in> V" "to \<notin> V" "\<And>v. v \<in> V \<Longrightarrow> set (links_of m v) \<subseteq> V \<union> S"
  shows "\<exists>s\<in>S. (s, to) \<in> (edges m)\<^sup>*"
  using assms(1,2)
proof (induction rule: converse_rtrancl_induct)
  case base
  with assms(3) show ?case by simp
next
  case (step y z)
  then have "z \<in> V \<union> S" using assms(4) [of y] by (auto simp: edges_def)
  with step show ?case by blast
qed

lemma cycle_loop_finds:
  "to \<notin> set visited \<Longrightarrow> (\<And>v. v \<in> set visited \<Longrightarrow> set (links_of m v) \<subseteq> set visited \<union> set stack) \<Longrightarrow>
   cycle_loop m to visited stack \<longleftrightarrow> (\<exists>s\<in>set stack. (s, to) \<in> (edges m)\<^sup>*)"
proof (induction m to visited stack rule: cycle_loop.induct)
  case (2 m to visited node stack)
  show ?case
  proof (cases "node = to")
    case ne: False
    show ?thesis
    proof (cases "node \<in> set visited")
      case True
      have closed: "set (links_of m v) \<subseteq> set visited \<union> set stack" if "v \<in> set visited" for v
        using "2.prems"(2) [OF that] True by auto
      have "cycle_loop m to visited stack \<longleftrightarrow> (\<exists>s\<in>set stack. (s, to) \<in> (edges m)\<^sup>*)"
        by (rule "2.IH"(1) [OF ne True "2.prems"(1) closed])
      moreover have "\<exists>s\<in>set stack. (s, to) \<in> (edges m)\<^sup>*" if "(node, to) \<in> (edges m)\<^sup>*"
        by (rule leaves_visited [OF that True "2.prems"(1) closed])
      ultimately show ?thesis using ne True by auto
    next
      case False
      have to_new: "to \<notin> set (node # visited)" using ne "2.prems"(1) by simp
      have closed: "set (links_of m v) \<subseteq> set (node # visited) \<union> set (rev (links_of m node) @ stack)"
        if "v \<in> set (node # visited)" for v
        using "2.prems"(2) [of v] that by auto
      have "cycle_loop m to (node # visited) (rev (links_of m node) @ stack)
          \<longleftrightarrow> (\<exists>s\<in>set (rev (links_of m node) @ stack). (s, to) \<in> (edges m)\<^sup>*)"
        by (rule "2.IH"(2) [OF ne False to_new closed])
      moreover have "(node, to) \<in> (edges m)\<^sup>* \<longleftrightarrow> (\<exists>s\<in>set (links_of m node). (s, to) \<in> (edges m)\<^sup>*)"
        using ne by (auto simp: edges_def elim: converse_rtranclE intro: converse_rtrancl_into_rtrancl)
      ultimately show ?thesis using ne False by auto
    qed
  qed simp
qed simp

lemma creates_cycle_iff: "creates_cycle g a b \<longleftrightarrow> (a, b) \<in> (edges (dg_dependents g))\<^sup>*"
  using cycle_loop_finds [of b "[]" "dg_dependents g" "[a]"] by (simp add: creates_cycle_def del: cycle_loop.simps)

section \<open>What the operations keep\<close>

definition ids :: "task_graph \<Rightarrow> nat set" where
  "ids g = fst ` set (dg_tasks g)"

definition dag_ok :: "task_graph \<Rightarrow> bool" where
  "dag_ok g \<longleftrightarrow> distinct (map fst (dg_tasks g)) \<and> (\<forall>i\<in>ids g. i < dg_next_id g)
     \<and> edges (dg_dependents g) \<subseteq> ids g \<times> ids g \<and> acyclic (edges (dg_dependents g))
     \<and> (\<forall>a b. count (mset (links_of (dg_dependencies g) a)) b = count (mset (links_of (dg_dependents g) b)) a)"

lemma links_of_touch [simp]: "links_of (touch k m) = links_of m"
  by (auto simp: links_of_def touch_def fun_eq_iff)

lemma links_of_push [simp]: "links_of (push_link k v m) = (links_of m)(k := links_of m k @ [v])"
  by (auto simp: links_of_def push_link_def fun_eq_iff)

lemma edges_touch [simp]: "edges (touch k m) = edges m"
  by (simp add: edges_def)

lemma edges_push [simp]: "edges (push_link k v m) = insert (k, v) (edges m)"
  by (auto simp: edges_def split: if_splits)


lemma known_iff: "map_of (dg_tasks g) t = None \<longleftrightarrow> t \<notin> ids g"
  by (simp add: ids_def map_of_eq_None_iff)

datatype dag_op = AddTask string f64 | AddDependency nat nat | MarkCompleted nat

fun dag_step :: "dag_op \<Rightarrow> task_graph \<Rightarrow> task_graph" where
  "dag_step (AddTask name cost) g = snd (add_task name cost g)"
| "dag_step (AddDependency t dep) g = snd (add_dependency t dep g)"
| "dag_step (MarkCompleted t) g = mark_completed t g"

definition dag_run :: "dag_op list \<Rightarrow> task_graph" where
  "dag_run ops = fold dag_step ops dg_new"

lemma add_task_ok: "dag_ok g \<Longrightarrow> dag_ok (snd (add_task name cost g))"
  by (auto simp: dag_ok_def add_task_def ids_def Let_def distinct_update less_SucI)

lemma add_dependency_ok: "dag_ok g \<Longrightarrow> dag_ok (snd (add_dependency t dep g))"
  by (auto simp: dag_ok_def add_dependency_def ids_def [symmetric] known_iff creates_cycle_iff acyclic_insert)
     (auto simp: ids_def)

lemma mark_completed_ok: "dag_ok g \<Longrightarrow> dag_ok (mark_completed t g)"
proof (cases "map_of (dg_tasks g) t")
  case (Some x)
  then have "t \<in> ids g" by (force simp: ids_def dest: map_of_SomeD)
  moreover assume "dag_ok g"
  ultimately show ?thesis
    by (simp add: dag_ok_def mark_completed_def Some ids_def insert_absorb distinct_update)
qed (simp add: mark_completed_def)

lemma dag_run_ok: "dag_ok (dag_run ops)"
proof -
  have "dag_ok (dag_step op g)" if "dag_ok g" for op g
    using that by (cases op) (simp_all add: add_task_ok add_dependency_ok mark_completed_ok)
  then have "dag_ok g \<Longrightarrow> dag_ok (fold dag_step ops g)" for g
    by (induction ops arbitrary: g) simp_all
  moreover have "dag_ok dg_new"
    by (simp add: dag_ok_def dg_new_def ids_def edges_def links_of_def acyclic_def)
  ultimately show ?thesis by (simp add: dag_run_def)
qed

lemma dependency_edge: "dag_ok g \<Longrightarrow> d \<in> set (links_of (dg_dependencies g) t) \<longleftrightarrow> (d, t) \<in> edges (dg_dependents g)"
proof -
  assume "dag_ok g"
  then have "count (mset (links_of (dg_dependencies g) t)) d = count (mset (links_of (dg_dependents g) d)) t"
    by (simp add: dag_ok_def)
  then show ?thesis by (metis (no_types, lifting) case_prod_conv count_eq_zero_iff edges_def mem_Collect_eq set_mset_mset)
qed

lemma map_of_keyed:
  "map_of (map (\<lambda>(i, t). (i, f i)) al) k = (if k \<in> fst ` set al then Some (f k) else None)"
  by (induction al) auto

lemma zero_keys:
  assumes "set ws = set (map (\<lambda>(i, t). (i, f i)) al)"
  shows "set (rev (map fst (filter (\<lambda>(i, d). d = 0) ws))) = {k\<in>fst ` set al. f k = (0 :: nat)}"
proof -
  have "set (rev (map fst (filter (\<lambda>(i, d). d = 0) ws))) = {k. (k, 0) \<in> set ws}" by force
  also have "\<dots> = {k\<in>fst ` set al. f k = 0}" unfolding assms by force
  finally show ?thesis .
qed

lemma some_minimal:
  assumes "dag_ok g" "U \<subseteq> ids g" "U \<noteq> {}"
  shows "\<exists>t\<in>U. \<forall>d\<in>set (links_of (dg_dependencies g) t). d \<notin> U"
proof -
  have "finite (edges (dg_dependents g))"
  proof (rule finite_subset)
    show "edges (dg_dependents g) \<subseteq> ids g \<times> ids g" using assms(1) by (simp only: dag_ok_def)
  qed (simp add: ids_def)
  moreover have "acyclic (edges (dg_dependents g))" using assms(1) by (simp only: dag_ok_def)
  ultimately have "wf (edges (dg_dependents g))" by (rule finite_acyclic_wf)
  then obtain t where "t \<in> U" "\<And>d. (d, t) \<in> edges (dg_dependents g) \<Longrightarrow> d \<notin> U"
    using assms(3) by (metis wfE_min ex_in_conv)
  then show ?thesis using dependency_edge [OF assms(1)] by blast
qed

section \<open>The sort\<close>

lemma open_dependencies:
  "x \<notin> D \<Longrightarrow> length (filter (\<lambda>d. d \<notin> D) ds) = length (filter (\<lambda>d. d \<notin> insert x D) ds) + count (mset ds) x"
  by (induction ds) auto

lemma release_all:
  assumes "\<And>t. map_of deg t = (if t \<in> I then Some (n t) else None)" "\<And>t. count (mset ts) t \<le> n t" "set ts \<subseteq> I"
  shows "\<exists>deg' ps. fold release ts (deg, q) = (deg', ps @ q)
    \<and> (\<forall>t. map_of deg' t = (if t \<in> I then Some (n t - count (mset ts) t) else None))
    \<and> distinct ps \<and> set ps = {t\<in>set ts. n t = count (mset ts) t}"
  using assms
proof (induction ts arbitrary: deg n q)
  case (Cons t ts)
  let ?n = "n(t := n t - 1)" and ?q = "if n t - 1 = 0 then t # q else q"
  have one: "release t (deg, q) = (AList.update t (n t - 1) deg, ?q)"
    using Cons.prems(1,3) by (simp add: release_def)
  have "\<exists>deg' ps. fold release ts (AList.update t (n t - 1) deg, ?q) = (deg', ps @ ?q)
    \<and> (\<forall>x. map_of deg' x = (if x \<in> I then Some (?n x - count (mset ts) x) else None))
    \<and> distinct ps \<and> set ps = {x\<in>set ts. ?n x = count (mset ts) x}"
  proof (rule Cons.IH)
    show "map_of (AList.update t (n t - 1) deg) x = (if x \<in> I then Some (?n x) else None)" for x
      using Cons.prems(1,3) by (simp add: update_conv')
    show "count (mset ts) x \<le> ?n x" for x using Cons.prems(2) [of x] by (auto split: if_splits)
  qed (use Cons.prems(3) in simp)
  then obtain deg' ps where ps: "fold release ts (AList.update t (n t - 1) deg, ?q) = (deg', ps @ ?q)"
    "\<And>x. map_of deg' x = (if x \<in> I then Some (?n x - count (mset ts) x) else None)"
    "distinct ps" "set ps = {x\<in>set ts. ?n x = count (mset ts) x}" by blast
  have t: "1 + count (mset ts) t \<le> n t" using Cons.prems(2) [of t] by simp
  let ?ps = "if n t = 1 then ps @ [t] else ps"
  have zero: "t \<notin> set ts" if "n t = 1" using t that by (simp add: count_eq_zero_iff)
  have none: "count (mset ts) t = 0 \<longleftrightarrow> t \<notin> set ts" by (simp add: count_eq_zero_iff)
  have "fold release (t # ts) (deg, q) = (deg', ps @ ?q)"
    by (simp only: fold_simps one ps(1))
  moreover have "ps @ ?q = ?ps @ q" using t by auto
  ultimately have "fold release (t # ts) (deg, q) = (deg', ?ps @ q)" by (simp only:)
  moreover have "map_of deg' x = (if x \<in> I then Some (n x - count (mset (t # ts)) x) else None)" for x
    using ps(2) by simp
  moreover have "distinct ?ps" using ps(3,4) zero by auto
  moreover have "x \<in> set ?ps \<longleftrightarrow> x \<in> set (t # ts) \<and> n x = count (mset (t # ts)) x" for x
  proof (cases "x = t")
    case True
    have "t \<in> set ps \<longleftrightarrow> t \<in> set ts \<and> n t - 1 = count (mset ts) t" using ps(4) by simp
    with True t zero none show ?thesis by auto
  next
    case False
    then have "x \<in> set ps \<longleftrightarrow> x \<in> set ts \<and> n x = count (mset ts) x" using ps(4) by simp
    with False show ?thesis by simp
  qed
  then have "set ?ps = {x\<in>set (t # ts). n x = count (mset (t # ts)) x}" by blast
  ultimately show ?case by blast
qed simp

definition topo_inv :: "task_graph \<Rightarrow> (nat \<times> nat) list \<Rightarrow> nat list \<Rightarrow> nat list \<Rightarrow> bool" where
  "topo_inv g deg queue sorted_ts \<longleftrightarrow>
     (\<forall>t. map_of deg t = (if t \<in> ids g
        then Some (length (filter (\<lambda>d. d \<notin> set sorted_ts) (links_of (dg_dependencies g) t))) else None))
   \<and> distinct (sorted_ts @ queue) \<and> set (sorted_ts @ queue) \<subseteq> ids g
   \<and> (\<forall>t\<in>ids g. t \<in> set (sorted_ts @ queue) \<longleftrightarrow> set (links_of (dg_dependencies g) t) \<subseteq> set sorted_ts)
   \<and> (\<forall>i<length sorted_ts. set (links_of (dg_dependencies g) (sorted_ts ! i)) \<subseteq> set (take i sorted_ts))"

lemma topo_step:
  assumes ok: "dag_ok g" and inv: "topo_inv g deg (t # rest) sorted_ts"
  shows "\<exists>deg' queue'. fold release (links_of (dg_dependents g) t) (deg, rest) = (deg', queue')
    \<and> topo_inv g deg' queue' (sorted_ts @ [t])"
proof -
  let ?deps = "links_of (dg_dependencies g)" and ?ts = "links_of (dg_dependents g) t"
  let ?n = "\<lambda>x. length (filter (\<lambda>d. d \<notin> set sorted_ts) (?deps x))"
  let ?n' = "\<lambda>x. length (filter (\<lambda>d. d \<notin> insert t (set sorted_ts)) (?deps x))"
  have new: "t \<notin> set sorted_ts" using inv by (simp add: topo_inv_def)
  have cnt: "count (mset ?ts) x = count (mset (?deps x)) t" for x using ok by (simp add: dag_ok_def)
  have n: "?n x = ?n' x + count (mset ?ts) x" for x unfolding cnt by (rule open_dependencies [OF new])
  have deg: "\<And>x. map_of deg x = (if x \<in> ids g then Some (?n x) else None)"
    using inv by (simp only: topo_inv_def)
  have "set ?ts \<subseteq> ids g" using ok by (auto simp: dag_ok_def edges_def)
  with release_all [OF deg, of ?ts rest] n obtain deg' ps where ps:
    "fold release ?ts (deg, rest) = (deg', ps @ rest)" "distinct ps" "set ps = {x\<in>set ?ts. ?n x = count (mset ?ts) x}"
    "\<And>x. map_of deg' x = (if x \<in> ids g then Some (?n x - count (mset ?ts) x) else None)"
    by (metis (no_types, lifting) le_add2)
  have mem: "x \<in> set ?ts \<longleftrightarrow> t \<in> set (?deps x)" for x
    using cnt [of x] by (metis count_eq_zero_iff set_mset_mset)
  have zero: "?n' x = 0 \<longleftrightarrow> set (?deps x) \<subseteq> insert t (set sorted_ts)" for x by (auto simp: filter_empty_conv)
  have "x \<in> set ps \<longleftrightarrow> t \<in> set (?deps x) \<and> set (?deps x) \<subseteq> insert t (set sorted_ts)" for x
    unfolding ps(3) zero [symmetric] mem [symmetric] using n [of x] by auto
  note in_ps = this
  have old: "\<And>x. x \<in> ids g \<Longrightarrow> x \<in> set (sorted_ts @ t # rest) \<longleftrightarrow> set (?deps x) \<subseteq> set sorted_ts"
    using inv by (simp only: topo_inv_def)
  have ps_ids: "set ps \<subseteq> ids g" using \<open>set ?ts \<subseteq> ids g\<close> ps(3) by auto
  have "x \<notin> set (sorted_ts @ t # rest)" if "x \<in> set ps" for x
    using that ps_ids old [of x] in_ps [of x] new by blast
  moreover have "distinct (sorted_ts @ t # rest)" "set (sorted_ts @ t # rest) \<subseteq> ids g"
    using inv by (simp_all only: topo_inv_def)
  ultimately have dist: "distinct ((sorted_ts @ [t]) @ ps @ rest)" "set ((sorted_ts @ [t]) @ ps @ rest) \<subseteq> ids g"
    using ps(2) ps_ids by auto
  have "x \<in> set ((sorted_ts @ [t]) @ ps @ rest) \<longleftrightarrow> set (?deps x) \<subseteq> set (sorted_ts @ [t])" if "x \<in> ids g" for x
    using old [OF that] in_ps [of x] by auto
  moreover have "set (?deps ((sorted_ts @ [t]) ! i)) \<subseteq> set (take i (sorted_ts @ [t]))" if "i < length (sorted_ts @ [t])" for i
  proof (cases "i < length sorted_ts")
    case True
    with inv show ?thesis by (simp add: topo_inv_def nth_append)
  next
    case False
    with that have "i = length sorted_ts" by simp
    moreover have "set (?deps t) \<subseteq> set sorted_ts" using old [of t] dist(2) by auto
    ultimately show ?thesis by simp
  qed
  moreover have "map_of deg' x = (if x \<in> ids g
      then Some (length (filter (\<lambda>d. d \<notin> set (sorted_ts @ [t])) (?deps x))) else None)" for x
    using ps(4) [of x] n [of x] by (simp add: insert_commute)
  ultimately have "topo_inv g deg' (ps @ rest) (sorted_ts @ [t])" using dist by (simp only: topo_inv_def) blast
  with ps(1) show ?thesis by blast
qed
lemma topo_loop_sorts:
  assumes ok: "dag_ok g"
  shows "topo_inv g deg queue sorted_ts \<Longrightarrow>
    \<exists>xs deg'. topo_loop (dg_dependents g) deg queue sorted_ts = Some xs \<and> topo_inv g deg' [] xs"
proof (induction "card (ids g) - length sorted_ts" arbitrary: deg queue sorted_ts rule: less_induct)
  case less
  show ?case
  proof (cases queue)
    case Nil
    with less.prems show ?thesis by (subst topo_loop.simps) auto
  next
    case (Cons t rest)
    obtain deg1 queue1 where one: "fold release (links_of (dg_dependents g) t) (deg, rest) = (deg1, queue1)"
      "topo_inv g deg1 queue1 (sorted_ts @ [t])"
      using topo_step [OF ok] less.prems Cons by blast
    have "distinct (sorted_ts @ [t])" "set (sorted_ts @ [t]) \<subseteq> ids g" using one(2) by (auto simp: topo_inv_def)
    then have "length (sorted_ts @ [t]) \<le> card (ids g)"
      by (metis distinct_card card_mono finite_imageI finite_set ids_def)
    then have "card (ids g) - length (sorted_ts @ [t]) < card (ids g) - length sorted_ts" by simp
    from less.hyps [OF this one(2)] show ?thesis unfolding Cons
      by (subst topo_loop.simps) (simp add: one(1))
  qed
qed

text \<open>
  C32. The topological sort is one. On every graph that calls built, in whatever order the code walks its
  table, it ends, gives every task once, and each task stands behind all it depends on.
\<close>

theorem topological_sort_orders_the_tasks:
  assumes "\<And>xs. mset (walk xs) = mset xs"
  shows "\<exists>xs. topological_sort walk (dag_run ops) = Some xs \<and> mset xs = mset (map fst (dg_tasks (dag_run ops)))
    \<and> (\<forall>i<length xs. set (links_of (dg_dependencies (dag_run ops)) (xs ! i)) \<subseteq> set (take i xs))"
proof -
  let ?g = "dag_run ops"
  let ?deg = "map (\<lambda>(i, t). (i, length (links_of (dg_dependencies ?g) i))) (dg_tasks ?g)"
  let ?queue = "rev (map fst (filter (\<lambda>(i, d). d = 0) (walk ?deg)))"
  have ok: "dag_ok ?g" by (rule dag_run_ok)
  have keys: "map fst ?deg = map fst (dg_tasks ?g)" by (simp add: comp_def split_beta)
  have deg: "map_of ?deg t = (if t \<in> ids ?g then Some (length (links_of (dg_dependencies ?g) t)) else None)" for t
    unfolding ids_def by (rule map_of_keyed)
  have "distinct (map fst (dg_tasks ?g))" using ok by (simp only: dag_ok_def)
  then have d: "distinct (map fst ?deg)" by (simp only: keys)
  have "mset (map fst (walk ?deg)) = mset (map fst ?deg)" by (simp only: mset_map assms)
  from d mset_eq_imp_distinct_iff [OF this] have "distinct (map fst (walk ?deg))" by blast
  then have dist: "distinct ?queue" by (simp add: distinct_map_filter)
  have "set_mset (mset (walk ?deg)) = set_mset (mset ?deg)" by (simp only: assms)
  then have "set (walk ?deg) = set ?deg" by (simp only: set_mset_mset)
  from zero_keys [OF this] have zero: "set ?queue = {t\<in>ids ?g. links_of (dg_dependencies ?g) t = []}"
    by (simp only: ids_def length_0_conv)
  have "topo_inv ?g ?deg ?queue []"
    unfolding topo_inv_def using deg dist zero by auto
  from topo_loop_sorts [OF ok this] obtain xs deg' where xs:
    "topo_loop (dg_dependents ?g) ?deg ?queue [] = Some xs" "topo_inv ?g deg' [] xs" by blast
  have "ids ?g - set xs = {}"
  proof (rule ccontr)
    assume "ids ?g - set xs \<noteq> {}"
    then obtain t where t: "t \<in> ids ?g - set xs"
      and free: "\<forall>d\<in>set (links_of (dg_dependencies ?g) t). d \<notin> ids ?g - set xs"
      using some_minimal [OF ok, of "ids ?g - set xs"] by blast
    have "set (links_of (dg_dependencies ?g) t) \<subseteq> ids ?g"
      using ok dependency_edge [OF ok] unfolding dag_ok_def by blast
    with free have "set (links_of (dg_dependencies ?g) t) \<subseteq> set xs" by blast
    moreover have "t \<in> set (xs @ []) \<longleftrightarrow> set (links_of (dg_dependencies ?g) t) \<subseteq> set xs"
      using xs(2) t unfolding topo_inv_def by blast
    ultimately show False using t by simp
  qed
  then have "set xs = set (map fst (dg_tasks ?g))" using xs(2) by (auto simp: topo_inv_def ids_def)
  moreover have "distinct xs" "distinct (map fst (dg_tasks ?g))" using xs(2) ok by (simp_all add: topo_inv_def dag_ok_def)
  ultimately have "mset xs = mset (map fst (dg_tasks ?g))" by (simp only: set_eq_iff_mset_eq_distinct)
  with xs show ?thesis by (auto simp: topological_sort_def Let_def topo_inv_def)
qed

definition sample_dag :: "dag_op list" where
  "sample_dag = [AddTask ''build'' 0, AddTask ''test'' 0, AddTask ''fetch'' 0, AddDependency 1 0, AddDependency 0 2]"

theorem topological_sort_orders_the_tasks_witness:
  "\<exists>xs. topological_sort rev (dag_run sample_dag) = Some xs \<and> mset xs = {#0, 1, 2#}"
proof -
  have "map fst (dg_tasks (dag_run sample_dag)) = [0, 1, 2]" by code_simp
  with topological_sort_orders_the_tasks [of rev sample_dag] show ?thesis by auto
qed

definition needs :: "task_graph \<Rightarrow> (nat \<times> nat) set" where
  "needs g = {(t, d). d \<in> set (links_of (dg_dependencies g) t)}"

lemma needs_edges: "dag_ok g \<Longrightarrow> needs g = (edges (dg_dependents g))\<inverse>"
  by (auto simp: needs_def dependency_edge)

text \<open>
  C31. A dependency between two tasks is refused exactly if the one already needs the other, directly or
  through others. And the graph never blocks: as long as a task is not completed some task is ready,
  one that is not completed and whose dependencies are.
\<close>

theorem task_graph_never_blocks:
  assumes "i \<in> ids (dag_run ops)" "dep \<in> ids (dag_run ops)"
  shows "(is_ok (fst (add_dependency i dep (dag_run ops))) \<longleftrightarrow> (dep, i) \<notin> (needs (dag_run ops))\<^sup>*)
    \<and> (\<not> is_completed (dag_run ops) i \<longrightarrow>
        (\<exists>t\<in>set (ready_tasks (dag_run ops)). \<not> is_completed (dag_run ops) t
          \<and> list_all (is_completed (dag_run ops)) (links_of (dg_dependencies (dag_run ops)) t)))"
proof -
  let ?g = "dag_run ops"
  have ok: "dag_ok ?g" by (rule dag_run_ok)
  have "(dep, i) \<in> (needs ?g)\<^sup>* \<longleftrightarrow> creates_cycle ?g i dep"
    by (simp add: creates_cycle_iff needs_edges [OF ok] rtrancl_converse)
  then have dep: "is_ok (fst (add_dependency i dep ?g)) \<longleftrightarrow> (dep, i) \<notin> (needs ?g)\<^sup>*"
    using assms by (simp add: add_dependency_def known_iff)
  have "\<exists>t\<in>set (ready_tasks ?g). \<not> is_completed ?g t \<and> list_all (is_completed ?g) (links_of (dg_dependencies ?g) t)"
    if "\<not> is_completed ?g i"
  proof -
    let ?U = "{t\<in>ids ?g. \<not> is_completed ?g t}"
    have "?U \<subseteq> ids ?g" "?U \<noteq> {}" using assms(1) that by auto
    from some_minimal [OF ok this] obtain t where t: "t \<in> ?U" "\<forall>d\<in>set (links_of (dg_dependencies ?g) t). d \<notin> ?U" by blast
    have "is_completed ?g d" if "d \<in> set (links_of (dg_dependencies ?g) t)" for d
      using t(2) that by (cases "d \<in> ids ?g") (auto simp: is_completed_def simp flip: known_iff)
    then have all: "list_all (is_completed ?g) (links_of (dg_dependencies ?g) t)" by (simp add: list_all_iff)
    from t(1) obtain x where x: "map_of (dg_tasks ?g) t = Some x" "\<not> dt_completed x"
      by (auto simp: is_completed_def split: option.splits)
    with all have "t \<in> set (ready_tasks ?g)" by (force simp: ready_tasks_def dest: map_of_SomeD)
    with t(1) all show ?thesis by blast
  qed
  with dep show ?thesis by blast
qed

theorem task_graph_never_blocks_witness:
  "\<exists>t\<in>set (ready_tasks (dag_run sample_dag)). \<not> is_completed (dag_run sample_dag) t"
proof -
  have "0 \<in> ids (dag_run sample_dag)" "\<not> is_completed (dag_run sample_dag) 0" by code_simp+
  with task_graph_never_blocks [of 0 sample_dag 0] show ?thesis by blast
qed

end
