(* ===== verification/Text_Chars.thy ===== *)
theory Text_Chars
  imports Prelude
begin

text \<open>
  The operations of the standard library on characters that the sources use, on the code points
  below 256: lower case and white space.
\<close>

text \<open>\<open>to_lowercase\<close> on the code points below 256: the ASCII and the Latin-1 capitals.\<close>

definition lower_char :: "char \<Rightarrow> char" where
  "lower_char c = (let n = (of_char c :: nat)
     in if 65 \<le> n \<and> n \<le> 90 \<or> 192 \<le> n \<and> n \<le> 222 \<and> n \<noteq> 215 then char_of (n + 32) else c)"

definition to_lowercase :: "string \<Rightarrow> string" where
  "to_lowercase = map lower_char"

text \<open>\<open>char::is_whitespace\<close>.\<close>

definition is_whitespace :: "char \<Rightarrow> bool" where
  "is_whitespace c = (let n = (of_char c :: nat) in 9 \<le> n \<and> n \<le> 13 \<or> n = 32 \<or> n = 133 \<or> n = 160)"

definition strip_spaces :: "string \<Rightarrow> string" where
  "strip_spaces = filter (\<lambda>c. \<not> is_whitespace c)"

lemma lower_char_idem [simp]: "lower_char (lower_char c) = lower_char c"
proof -
  have "(of_char c :: nat) < 256" by simp
  then show ?thesis by (auto simp: lower_char_def Let_def of_char_of)
qed

lemma to_lowercase_idem [simp]: "to_lowercase (to_lowercase s) = to_lowercase s"
  by (simp add: to_lowercase_def)

lemma strip_spaces_idem [simp]: "strip_spaces (strip_spaces s) = strip_spaces s"
  by (simp add: strip_spaces_def)

lemma lower_strip_lower [simp]:
  "to_lowercase (strip_spaces (to_lowercase s)) = strip_spaces (to_lowercase s)"
  by (induction s) (simp_all add: to_lowercase_def strip_spaces_def)

end
