(* ===== verification/Str_Ops.thy ===== *)
theory Str_Ops
  imports Text_Chars
begin

text \<open>
  The operations of \<open>str\<close> of the standard library that the sources use: search, trimming, splitting,
  lines, joining and the parsing of a \<open>usize\<close>. A position is a count of characters; the sources only cut
  at positions that a search gave.
\<close>

section \<open>Search\<close>

definition starts_with :: "string \<Rightarrow> string \<Rightarrow> bool" where
  "starts_with s p \<longleftrightarrow> take (length p) s = p"

definition ends_with :: "string \<Rightarrow> string \<Rightarrow> bool" where
  "ends_with s p \<longleftrightarrow> length p \<le> length s \<and> drop (length s - length p) s = p"

fun str_find :: "string \<Rightarrow> string \<Rightarrow> nat option" where
  "str_find [] p = (if p = [] then Some 0 else None)"
| "str_find (c # s) p = (if starts_with (c # s) p then Some 0 else map_option Suc (str_find s p))"

definition str_contains :: "string \<Rightarrow> string \<Rightarrow> bool" where
  "str_contains s p \<longleftrightarrow> str_find s p \<noteq> None"

text \<open>\<open>matches(p).count()\<close>: occurrences that do not overlap, from the left; the empty text occurs at every boundary.\<close>

function count_from :: "string \<Rightarrow> string \<Rightarrow> nat" where
  "count_from p s =
     (if s = [] then 0
      else if starts_with s p then Suc (count_from p (drop (max 1 (length p)) s))
      else count_from p (tl s))"
  by pat_completeness auto
termination
  by (relation "measure (\<lambda>(p, s). length s)") auto

declare count_from.simps [simp del]

definition match_count :: "string \<Rightarrow> string \<Rightarrow> nat" where
  "match_count s p = (if p = [] then Suc (length s) else count_from p s)"

section \<open>Trimming\<close>

definition trim_start :: "string \<Rightarrow> string" where
  "trim_start = dropWhile is_whitespace"

definition trim_end :: "string \<Rightarrow> string" where
  "trim_end s = rev (dropWhile is_whitespace (rev s))"

definition trim :: "string \<Rightarrow> string" where
  "trim s = trim_end (trim_start s)"

definition trim_matches :: "(char \<Rightarrow> bool) \<Rightarrow> string \<Rightarrow> string" where
  "trim_matches f s = rev (dropWhile f (rev (dropWhile f s)))"

section \<open>Splitting\<close>

text \<open>\<open>split(f)\<close> for a test on characters, and \<open>split_whitespace\<close>, which leaves the empty pieces out.\<close>

fun split_where :: "(char \<Rightarrow> bool) \<Rightarrow> string \<Rightarrow> string list" where
  "split_where p [] = [[]]"
| "split_where p (c # s) =
     (if p c then [] # split_where p s
      else (case split_where p s of [] \<Rightarrow> [[c]] | w # ws \<Rightarrow> (c # w) # ws))"

definition split_whitespace :: "string \<Rightarrow> string list" where
  "split_whitespace s = filter (\<lambda>w. w \<noteq> []) (split_where is_whitespace s)"

definition split_once :: "string \<Rightarrow> string \<Rightarrow> (string \<times> string) option" where
  "split_once s p = map_option (\<lambda>i. (take i s, drop (i + length p) s)) (str_find s p)"

text \<open>\<open>split(p)\<close> for a text \<open>p\<close> that is not empty.\<close>

function split_str :: "string \<Rightarrow> string \<Rightarrow> string list" where
  "split_str p s =
     (case str_find s p of
        None \<Rightarrow> [s]
      | Some i \<Rightarrow> if p = [] then [s] else take i s # split_str p (drop (i + length p) s))"
  by pat_completeness auto
termination
proof (relation "measure (\<lambda>(p, s). length s)", simp)
  fix p s :: string and i
  have find: "str_find s p = Some i \<Longrightarrow> i + length p \<le> length s" for i
    by (induction s arbitrary: i) (auto simp: starts_with_def split: if_splits dest: arg_cong [where f = length])
  assume "str_find s p = Some i" "p \<noteq> []"
  with find [of i] show "((p, drop (i + length p) s), p, s) \<in> measure (\<lambda>(p, s). length s)"
    by (cases p) auto
qed

declare split_str.simps [simp del]

text \<open>\<open>lines\<close>: the pieces between line feeds, the carriage return before one cut, no last empty piece.\<close>

definition cut_return :: "string \<Rightarrow> string" where
  "cut_return l = (case strip_suffix [CHR 13] l of None \<Rightarrow> l | Some l' \<Rightarrow> l')"

definition str_lines :: "string \<Rightarrow> string list" where
  "str_lines s = (let ls = split_where (\<lambda>c. c = CHR 10) s
     in map cut_return (butlast ls) @ (if last ls = [] then [] else [last ls]))"

definition str_join :: "string \<Rightarrow> string list \<Rightarrow> string" where
  "str_join sep ws = (case ws of [] \<Rightarrow> [] | w # vs \<Rightarrow> w @ concat (map (\<lambda>v. sep @ v) vs))"

definition str_replace :: "string \<Rightarrow> string \<Rightarrow> string \<Rightarrow> string" where
  "str_replace p r s = str_join r (split_str p s)"

section \<open>Numbers\<close>

definition is_digit :: "char \<Rightarrow> bool" where
  "is_digit c \<longleftrightarrow> 48 \<le> (of_char c :: nat) \<and> (of_char c :: nat) \<le> 57"

definition usize_parse :: "string \<Rightarrow> nat option" where
  "usize_parse s =
     (let ds = (case s of CHR ''+'' # r \<Rightarrow> r | _ \<Rightarrow> s);
          v = fold (\<lambda>c v. v * 10 + (of_char c - 48)) ds (0 :: nat)
      in if ds \<noteq> [] \<and> list_all is_digit ds \<and> v < 2 ^ 64 then Some v else None)"

section \<open>What they answer\<close>

lemma starts_with_iff: "starts_with s p \<longleftrightarrow> (\<exists>r. s = p @ r)"
  unfolding starts_with_def by (metis append_eq_conv_conj append_take_drop_id)

lemma starts_with_Nil [simp]: "starts_with s []"
  by (simp add: starts_with_def)

lemma ends_with_iff: "ends_with s p \<longleftrightarrow> (\<exists>r. s = r @ p)"
proof
  assume "ends_with s p"
  then have "s = take (length s - length p) s @ p" unfolding ends_with_def by (metis append_take_drop_id)
  then show "\<exists>r. s = r @ p" by blast
qed (auto simp: ends_with_def)

lemma str_find_Some: "str_find s p = Some i \<Longrightarrow> \<exists>as bs. s = as @ p @ bs \<and> length as = i"
proof (induction s arbitrary: i)
  case (Cons c s)
  show ?case
  proof (cases "starts_with (c # s) p")
    case True
    with Cons.prems show ?thesis by (auto simp: starts_with_iff)
  next
    case False
    with Cons.prems obtain j where j: "i = Suc j" "str_find s p = Some j" by auto
    with Cons.IH [of j] obtain as bs where "s = as @ p @ bs" "length as = j" by blast
    with j have "c # s = (c # as) @ p @ bs \<and> length (c # as) = i" by simp
    then show ?thesis by blast
  qed
qed (auto split: if_splits)

lemma str_find_None: "str_find s p = None \<Longrightarrow> s \<noteq> as @ p @ bs"
proof (induction s arbitrary: as)
  case (Cons c s)
  have "\<not> starts_with (c # s) p" "str_find s p = None" using Cons.prems by (auto split: if_splits)
  with Cons.IH show ?case by (cases as) (auto simp: starts_with_iff)
qed (auto split: if_splits)

lemma str_contains_iff: "str_contains s p \<longleftrightarrow> (\<exists>as bs. s = as @ p @ bs)"
  unfolding str_contains_def using str_find_Some str_find_None by (metis not_Some_eq)

lemma str_contains_Nil [simp]: "str_contains s []"
  by (auto simp: str_contains_iff)

lemma str_contains_Cons: "str_contains (c # s) p \<longleftrightarrow> starts_with (c # s) p \<or> str_contains s p"
  by (simp add: str_contains_def)

lemma str_contains_trans: "str_contains s p \<Longrightarrow> str_contains p q \<Longrightarrow> str_contains s q"
  unfolding str_contains_iff by (metis append.assoc)

lemma count_from_pos: "p \<noteq> [] \<Longrightarrow> 0 < count_from p s \<longleftrightarrow> str_contains s p"
proof (induction p s rule: count_from.induct)
  case (1 p s)
  show ?case
  proof (cases s)
    case Nil
    with 1(3) show ?thesis by (simp add: count_from.simps str_contains_def)
  next
    case (Cons c s')
    with 1 show ?thesis by (auto simp: count_from.simps [of p "c # s'"] str_contains_Cons)
  qed
qed

lemma match_count_pos: "0 < match_count s p \<longleftrightarrow> str_contains s p"
  by (simp add: match_count_def count_from_pos)

lemma split_where_ne [simp]: "split_where f s \<noteq> []"
  by (induction s) (auto split: list.splits)

text \<open>Splitting at a text and joining with it gives the text back.\<close>

lemma str_join_Cons: "ws \<noteq> [] \<Longrightarrow> str_join p (w # ws) = w @ p @ str_join p ws"
  by (cases ws) (simp_all add: str_join_def)

lemma split_str_ne: "split_str p s \<noteq> []"
  by (simp add: split_str.simps [of p s] split: option.split)

lemma join_split: "str_join p (split_str p s) = s"
proof (induction p s rule: split_str.induct)
  case (1 p s)
  show ?case
  proof (cases "str_find s p")
    case (Some i)
    then obtain as bs where "s = as @ p @ bs" "length as = i" using str_find_Some by blast
    moreover have "split_str p s = (if p = [] then [s] else take i s # split_str p (drop (i + length p) s))"
      using Some by (simp add: split_str.simps [of p s])
    ultimately show ?thesis using 1 [OF Some]
      by (cases "p = []") (simp add: str_join_def, simp add: str_join_Cons split_str_ne)
  qed (simp add: split_str.simps [of p s] str_join_def)
qed

end
