(* ===== verification/Search.thy ===== *)
theory Search
  imports Str_Ops Float_Arith "HOL-Library.Multiset"
begin

text \<open>
  \<^verbatim>\<open>src/crates/search/src/lib.rs\<close> and \<^verbatim>\<open>index.rs\<close>: the index, the atomic searches, the query algebra and
  the engine. Text is read as code points below 256. The time a search took is an argument; the
  conversion of an observation, lossy UTF-8, is not modelled.
\<close>

section \<open>Documents and queries\<close>

record document =
  doc_id :: string
  doc_title :: string
  doc_body :: string
  doc_kind :: string
  doc_source :: string
  doc_timestamp :: "instant option"
  doc_metadata :: metadata

record scored_result =
  sr_document :: document
  sr_score :: f64
  sr_matched_on :: "string list"

record time_range =
  tr_start :: "instant option"
  tr_end :: "instant option"

datatype struct_pattern =
    FunctionPattern "string option"
  | ClassPattern "string option"
  | InterfacePattern "string option"
  | SymbolPattern string "string option"
  | CallPattern "string option"
  | ImportPattern "string option"

datatype graph_pattern =
    NodePattern string "string option"
  | EdgePattern graph_pattern graph_pattern "string option"
  | PathPattern graph_pattern graph_pattern nat
  | NeighborsPattern graph_pattern nat
  | SubgraphPattern "graph_pattern list"

datatype dependency_query =
    Dependents string "string option"
  | Dependencies string "string option"
  | Transitive string "string option" nat
  | EcosystemOf string

datatype arch_query =
    ModuleAt string
  | PackageNamed string
  | WorkspaceNamed string
  | DirectoryAt string

datatype filter_spec =
    KindIs string
  | SourceIs string
  | TimeBefore instant
  | TimeAfter instant
  | MetadataIs string string
  | ScoreAbove f64
  | ScoreBelow f64

datatype query_expr =
    Keyword string
  | PrefixOf string
  | Phrase "string list"
  | Semantic string "f64 list"
  | Temporal time_range
  | Structural struct_pattern
  | GraphQuery graph_pattern
  | DependencyQuery dependency_query
  | Architecture arch_query
  | Similarity query_expr f64 nat
  | AndAll "query_expr list"
  | OrAny "query_expr list"
  | NotQuery query_expr
  | FilterBy query_expr filter_spec

record query_result =
  qr_results :: "scored_result list"
  qr_total_count :: nat
  qr_took_ns :: nat

section \<open>The index\<close>

record search_index =
  si_documents :: "document list"
  si_embeddings :: "string \<rightharpoonup> f64 list"

definition si_new :: search_index where
  "si_new = \<lparr>si_documents = [], si_embeddings = Map.empty\<rparr>"

definition si_add_document :: "document \<Rightarrow> search_index \<Rightarrow> search_index" where
  "si_add_document d ix = ix\<lparr>si_documents := si_documents ix @ [d]\<rparr>"

definition get_embedding :: "search_index \<Rightarrow> string \<Rightarrow> f64 list option" where
  "get_embedding ix i = si_embeddings ix i"

definition set_embedding :: "string \<Rightarrow> f64 list \<Rightarrow> search_index \<Rightarrow> search_index" where
  "set_embedding i e ix = ix\<lparr>si_embeddings := (si_embeddings ix)(i \<mapsto> e)\<rparr>"

definition si_len :: "search_index \<Rightarrow> nat" where
  "si_len ix = length (si_documents ix)"

definition si_is_empty :: "search_index \<Rightarrow> bool" where
  "si_is_empty ix \<longleftrightarrow> si_documents ix = []"

definition si_clear :: "search_index \<Rightarrow> search_index" where
  "si_clear ix = ix\<lparr>si_documents := [], si_embeddings := Map.empty\<rparr>"

section \<open>Similarity of vectors and texts\<close>

definition cosine_similarity :: "f64 list \<Rightarrow> f64 list \<Rightarrow> f64 option" where
  "cosine_similarity a b =
     (if length a \<noteq> length b \<or> a = [] then None
      else (let dot = f64_sum (map2 f64_mul a b);
                mag_a = f64_sum (map (\<lambda>x. f64_mul x x) a);
                mag_b = f64_sum (map (\<lambda>x. f64_mul x x) b);
                denom = f64_mul (f64_sqrt mag_a) (f64_sqrt mag_b)
            in if f64_is_zero denom then None else Some (f64_div dot denom)))"

definition add_vocab :: "string \<Rightarrow> string list \<Rightarrow> string list" where
  "add_vocab t vocab = (if t \<in> set vocab then vocab else vocab @ [t])"

definition text_cosine_similarity :: "string \<Rightarrow> string \<Rightarrow> f64" where
  "text_cosine_similarity a b =
     (let tokens_a = split_whitespace (to_lowercase a);
          tokens_b = split_whitespace (to_lowercase b);
          vocab = fold add_vocab tokens_b (fold add_vocab tokens_a []);
          vec_a = map (\<lambda>v. f64_of_nat (length (filter (\<lambda>t. t = v) tokens_a))) vocab;
          vec_b = map (\<lambda>v. f64_of_nat (length (filter (\<lambda>t. t = v) tokens_b))) vocab
      in case cosine_similarity vec_a vec_b of None \<Rightarrow> 0 | Some x \<Rightarrow> x)"

section \<open>The atomic searches\<close>

text \<open>
  \<open>sort_by(|a, b| b.score.partial_cmp(&a.score).unwrap_or(Equal))\<close>: stable, greatest score first.
  With a NaN among the scores that is no order and the result of the sort is unspecified.
\<close>

definition sort_results :: "scored_result list \<Rightarrow> scored_result list" where
  "sort_results = sort_key (\<lambda>r. - f64_key (sr_score r))"

definition result_of :: "f64 \<Rightarrow> string \<Rightarrow> document \<Rightarrow> scored_result" where
  "result_of score why d = \<lparr>sr_document = d, sr_score = score, sr_matched_on = [why]\<rparr>"

text \<open>\<open>map_or(default, f)\<close>.\<close>

definition map_or :: "'b \<Rightarrow> ('a \<Rightarrow> 'b) \<Rightarrow> 'a option \<Rightarrow> 'b" where
  "map_or d f x = (case x of None \<Rightarrow> d | Some y \<Rightarrow> f y)"

lemma map_or_simps [simp]: "map_or d f None = d" "map_or d f (Some y) = f y"
  by (simp_all add: map_or_def)

definition keyword_result :: "string \<Rightarrow> document \<Rightarrow> scored_result option" where
  "keyword_result term_lower d =
     (let body_count = match_count (to_lowercase (doc_body d)) term_lower;
          title_count = match_count (to_lowercase (doc_title d)) term_lower
      in if body_count > 0 \<or> title_count > 0
         then Some (result_of (f64_of_nat (title_count * 3 + body_count))
                      (if title_count > 0 then ''title'' else ''body'') d)
         else None)"

definition eval_keyword :: "search_index \<Rightarrow> string \<Rightarrow> nat \<Rightarrow> scored_result list" where
  "eval_keyword ix word max_results =
     take max_results (sort_results (List.map_filter (keyword_result (to_lowercase word)) (si_documents ix)))"

definition holds_text :: "string \<Rightarrow> document \<Rightarrow> bool" where
  "holds_text t d \<longleftrightarrow> str_contains (to_lowercase (doc_body d)) t \<or> str_contains (to_lowercase (doc_title d)) t"

definition eval_prefix :: "search_index \<Rightarrow> string \<Rightarrow> nat \<Rightarrow> scored_result list" where
  "eval_prefix ix prefix_text max_results =
     take max_results (map (result_of (f64_of_nat 1) ''prefix'')
       (filter (holds_text (to_lowercase prefix_text)) (si_documents ix)))"

definition eval_phrase :: "search_index \<Rightarrow> string list \<Rightarrow> nat \<Rightarrow> scored_result list" where
  "eval_phrase ix words max_results =
     take max_results (map (result_of (f64_of_nat (length words)) ''phrase'')
       (filter (holds_text (to_lowercase (str_join '' '' words))) (si_documents ix)))"

definition eval_semantic :: "search_index \<Rightarrow> f64 list \<Rightarrow> nat \<Rightarrow> scored_result list" where
  "eval_semantic ix embedding max_results =
     take max_results (sort_results (List.map_filter (\<lambda>d.
       (case get_embedding ix (doc_id d) of
          None \<Rightarrow> None
        | Some e \<Rightarrow> map_option (\<lambda>sim. result_of sim ''semantic'' d) (cosine_similarity embedding e)))
       (si_documents ix)))"

definition in_range :: "time_range \<Rightarrow> document \<Rightarrow> bool" where
  "in_range tr d =
     (case doc_timestamp d of
        None \<Rightarrow> tr_start tr = None \<and> tr_end tr = None
      | Some ts \<Rightarrow> map_or True (\<lambda>s. ts \<ge> s) (tr_start tr) \<and> map_or True (\<lambda>e. ts \<le> e) (tr_end tr))"

definition eval_temporal :: "search_index \<Rightarrow> time_range \<Rightarrow> nat \<Rightarrow> scored_result list" where
  "eval_temporal ix tr max_results =
     take max_results (map (result_of (f64_of_nat 1) ''temporal'') (filter (in_range tr) (si_documents ix)))"

fun has_structure :: "document \<Rightarrow> struct_pattern \<Rightarrow> bool" where
  "has_structure d (FunctionPattern name) =
     (let body = to_lowercase (doc_body d);
          has_fn = str_contains body ''fn '' \<or> str_contains body ''function ''
            \<or> str_contains body ''def '' \<or> str_contains body ''func ''
      in map_or has_fn (\<lambda>n. has_fn \<and> str_contains body (to_lowercase n)) name)"
| "has_structure d (ClassPattern name) =
     (let body = to_lowercase (doc_body d);
          has_class = str_contains body ''class '' \<or> str_contains body ''struct ''
      in map_or has_class (\<lambda>n. has_class \<and> str_contains body (to_lowercase n)) name)"
| "has_structure d (InterfacePattern name) =
     (let body = to_lowercase (doc_body d);
          has_iface = str_contains body ''interface '' \<or> str_contains body ''trait '' \<or> str_contains body ''protocol ''
      in map_or has_iface (\<lambda>n. has_iface \<and> str_contains body (to_lowercase n)) name)"
| "has_structure d (SymbolPattern kind name) =
     (let body = to_lowercase (doc_body d);
          kind_match = map_or (str_contains body kind) (\<lambda>k. k = kind) (doc_metadata d ''symbol_kind'')
      in map_or kind_match (\<lambda>n. kind_match \<and> str_contains body (to_lowercase n)) name)"
| "has_structure d (CallPattern name) =
     (let body = to_lowercase (doc_body d) in map_or True (\<lambda>n. str_contains body (n @ ''('')) name)"
| "has_structure d (ImportPattern source) =
     (let body = to_lowercase (doc_body d);
          has_import = str_contains body ''import '' \<or> str_contains body ''use ''
            \<or> str_contains body ''#include'' \<or> str_contains body ''require(''
      in map_or has_import (\<lambda>s. has_import \<and> str_contains body (to_lowercase s)) source)"

definition eval_structural :: "search_index \<Rightarrow> struct_pattern \<Rightarrow> nat \<Rightarrow> scored_result list" where
  "eval_structural ix pattern max_results =
     take max_results (map (result_of (f64_of_nat 1) ''structural'')
       (filter (\<lambda>d. has_structure d pattern) (si_documents ix)))"

text \<open>
  A graph pattern is looked for in every document anew; a pattern within it is asked for its first
  result only, except the node of \<open>Neighbors\<close>.
\<close>

definition hits :: "scored_result list \<Rightarrow> string \<Rightarrow> bool" where
  "hits rs i \<longleftrightarrow> list_ex (\<lambda>r. doc_id (sr_document r) = i) rs"

definition parsed :: "document \<Rightarrow> string \<Rightarrow> nat option" where
  "parsed d key = Option.bind (doc_metadata d key) usize_parse"

fun eval_graph :: "search_index \<Rightarrow> graph_pattern \<Rightarrow> nat \<Rightarrow> scored_result list" where
  "eval_graph ix (NodePattern name kind) max_results =
     take max_results (map (result_of (f64_of_nat 1) ''graph'')
       (filter (\<lambda>d. (str_contains (doc_title d) name \<or> str_contains (doc_body d) name)
          \<and> map_or True (\<lambda>k. doc_kind d = k) kind) (si_documents ix)))"
| "eval_graph ix (EdgePattern source target kind) max_results =
     take max_results (map (result_of (f64_of_nat 1) ''graph'')
       (filter (\<lambda>d. hits (eval_graph ix source 1) (doc_id d) \<and> hits (eval_graph ix target 1) (doc_id d)
          \<and> map_or True (\<lambda>k. map_or False (\<lambda>v. v = k) (doc_metadata d ''edge_kind'')) kind) (si_documents ix)))"
| "eval_graph ix (PathPattern from_node to_node max_depth) max_results =
     take max_results (map (result_of (f64_of_nat 1) ''graph'')
       (filter (\<lambda>d. hits (eval_graph ix from_node 1) (doc_id d) \<or> hits (eval_graph ix to_node 1) (doc_id d)
          \<or> map_or True (\<lambda>n. n \<le> max_depth) (parsed d ''path_depth'')) (si_documents ix)))"
| "eval_graph ix (NeighborsPattern node depth) max_results =
     take max_results (map (result_of (f64_of_nat 1) ''graph'')
       (filter (\<lambda>d. eval_graph ix node max_results \<noteq> []
          \<and> map_or (2 ^ 64 - 1) (\<lambda>n. n) (parsed d ''graph_distance'') \<le> depth) (si_documents ix)))"
| "eval_graph ix (SubgraphPattern patterns) max_results =
     take max_results (map (result_of (f64_of_nat 1) ''graph'')
       (filter (\<lambda>d. list_ex (\<lambda>p. hits (eval_graph ix p 1) (doc_id d)) patterns) (si_documents ix)))"

fun has_dependency :: "document \<Rightarrow> dependency_query \<Rightarrow> bool" where
  "has_dependency d (Dependents name eco) \<longleftrightarrow>
     map_or False (\<lambda>v. v = name) (doc_metadata d ''depends_on'') \<and> map_or True (str_contains (doc_source d)) eco"
| "has_dependency d (Dependencies name eco) \<longleftrightarrow>
     map_or False (\<lambda>v. v = name) (doc_metadata d ''package_name'') \<and> map_or True (str_contains (doc_source d)) eco"
| "has_dependency d (Transitive name eco max_depth) \<longleftrightarrow>
     map_or False (\<lambda>c. str_contains c name) (doc_metadata d ''dep_chain'') \<and> map_or True (str_contains (doc_source d)) eco
       \<and> map_or (2 ^ 64 - 1) (\<lambda>n. n) (parsed d ''dep_depth'') \<le> max_depth"
| "has_dependency d (EcosystemOf eco) \<longleftrightarrow> str_contains (doc_source d) eco"

definition eval_dependency :: "search_index \<Rightarrow> dependency_query \<Rightarrow> nat \<Rightarrow> scored_result list" where
  "eval_dependency ix query max_results =
     take max_results (map (result_of (f64_of_nat 1) ''dependency'')
       (filter (\<lambda>d. has_dependency d query) (si_documents ix)))"

fun has_place :: "document \<Rightarrow> arch_query \<Rightarrow> bool" where
  "has_place d (ModuleAt path) \<longleftrightarrow> str_contains (doc_source d) path \<or> str_contains (doc_title d) path"
| "has_place d (PackageNamed name) \<longleftrightarrow> map_or False (\<lambda>p. p = name) (doc_metadata d ''package'') \<or> doc_title d = name"
| "has_place d (WorkspaceNamed name) \<longleftrightarrow>
     map_or False (\<lambda>w. w = name) (doc_metadata d ''workspace'') \<or> str_contains (doc_source d) name"
| "has_place d (DirectoryAt path) \<longleftrightarrow> str_contains (doc_source d) path"

definition eval_architecture :: "search_index \<Rightarrow> arch_query \<Rightarrow> nat \<Rightarrow> scored_result list" where
  "eval_architecture ix query max_results =
     take max_results (map (result_of (f64_of_nat 1) ''architecture'')
       (filter (\<lambda>d. has_place d query) (si_documents ix)))"

text \<open>\<open>eval_similarity\<close> after the results of the inner query: the first of their texts that is close enough counts.\<close>

definition full_text :: "document \<Rightarrow> string" where
  "full_text d = doc_title d @ '' '' @ doc_body d"

definition similar_result :: "f64 \<Rightarrow> string list \<Rightarrow> document \<Rightarrow> scored_result option" where
  "similar_result threshold targets d =
     map_option (\<lambda>sim. result_of sim ''similarity'' d)
       (List.find (\<lambda>sim. f64_le threshold sim) (map (\<lambda>t. text_cosine_similarity t (full_text d)) targets))"

definition eval_similarity :: "search_index \<Rightarrow> scored_result list \<Rightarrow> f64 \<Rightarrow> nat \<Rightarrow> scored_result list" where
  "eval_similarity ix base_results threshold max_results =
     (if base_results = [] then []
      else take max_results (sort_results (List.map_filter
             (similar_result threshold (map (\<lambda>r. full_text (sr_document r)) base_results)) (si_documents ix))))"

section \<open>The query algebra\<close>

fun admits_result :: "filter_spec \<Rightarrow> scored_result \<Rightarrow> bool" where
  "admits_result (KindIs k) r \<longleftrightarrow> doc_kind (sr_document r) = k"
| "admits_result (SourceIs s) r \<longleftrightarrow> doc_source (sr_document r) = s"
| "admits_result (TimeBefore t) r \<longleftrightarrow> map_or True (\<lambda>ts. ts < t) (doc_timestamp (sr_document r))"
| "admits_result (TimeAfter t) r \<longleftrightarrow> map_or True (\<lambda>ts. ts > t) (doc_timestamp (sr_document r))"
| "admits_result (MetadataIs key v) r \<longleftrightarrow> map_or False (\<lambda>w. w = v) (doc_metadata (sr_document r) key)"
| "admits_result (ScoreAbove s) r \<longleftrightarrow> f64_le s (sr_score r)"
| "admits_result (ScoreBelow s) r \<longleftrightarrow> f64_le (sr_score r) s"

definition retain_hits :: "scored_result list \<Rightarrow> scored_result list \<Rightarrow> scored_result list" where
  "retain_hits other rs = filter (\<lambda>r. hits other (doc_id (sr_document r))) rs"

fun first_hits :: "string set \<Rightarrow> scored_result list \<Rightarrow> scored_result list" where
  "first_hits seen [] = []"
| "first_hits seen (r # rs) =
     (if doc_id (sr_document r) \<in> seen then first_hits seen rs
      else r # first_hits (insert (doc_id (sr_document r)) seen) rs)"

fun evaluate :: "search_index \<Rightarrow> query_expr \<Rightarrow> nat \<Rightarrow> scored_result list" where
  "evaluate ix (Keyword w) max_results = eval_keyword ix w max_results"
| "evaluate ix (PrefixOf p) max_results = eval_prefix ix p max_results"
| "evaluate ix (Phrase ws) max_results = eval_phrase ix ws max_results"
| "evaluate ix (Semantic _ embedding) max_results = eval_semantic ix embedding max_results"
| "evaluate ix (Temporal tr) max_results = eval_temporal ix tr max_results"
| "evaluate ix (Structural p) max_results = eval_structural ix p max_results"
| "evaluate ix (GraphQuery p) max_results = eval_graph ix p max_results"
| "evaluate ix (DependencyQuery q) max_results = eval_dependency ix q max_results"
| "evaluate ix (Architecture q) max_results = eval_architecture ix q max_results"
| "evaluate ix (Similarity q threshold sim_max) max_results =
     eval_similarity ix (evaluate ix q sim_max) threshold max_results"
| "evaluate ix (AndAll qs) max_results =
     (case map (\<lambda>q. evaluate ix q max_results) qs of
        [] \<Rightarrow> []
      | rs # others \<Rightarrow> take max_results (sort_results (fold retain_hits others rs)))"
| "evaluate ix (OrAny qs) max_results =
     take max_results (sort_results (first_hits {} (concat (map (\<lambda>q. evaluate ix q max_results) qs))))"
| "evaluate ix (NotQuery q) max_results =
     take max_results (map (result_of (f64_of_nat 1) ''not'')
       (filter (\<lambda>d. \<not> hits (evaluate ix q (2 ^ 64 - 1)) (doc_id d)) (si_documents ix)))"
| "evaluate ix (FilterBy q spec) max_results = filter (admits_result spec) (evaluate ix q max_results)"

section \<open>The engine\<close>

record search_engine =
  se_index :: search_index

definition se_new :: search_engine where
  "se_new = \<lparr>se_index = si_new\<rparr>"

definition index_document :: "document \<Rightarrow> search_engine \<Rightarrow> search_engine" where
  "index_document d s = s\<lparr>se_index := si_add_document d (se_index s)\<rparr>"

definition index_documents :: "document list \<Rightarrow> search_engine \<Rightarrow> search_engine" where
  "index_documents ds s = fold index_document ds s"

definition search :: "nat \<Rightarrow> search_engine \<Rightarrow> query_expr \<Rightarrow> nat \<Rightarrow> query_result" where
  "search took s q max_results =
     (let rs = evaluate (se_index s) q max_results
      in \<lparr>qr_results = rs, qr_total_count = length rs, qr_took_ns = took\<rparr>)"

definition document_count :: "search_engine \<Rightarrow> nat" where
  "document_count s = si_len (se_index s)"

definition se_clear :: "search_engine \<Rightarrow> search_engine" where
  "se_clear s = s\<lparr>se_index := si_clear (se_index s)\<rparr>"

definition document_from_text :: "string \<Rightarrow> string \<Rightarrow> string \<Rightarrow> string \<Rightarrow> string \<Rightarrow> document" where
  "document_from_text i title body kind source =
     \<lparr>doc_id = i, doc_title = title, doc_body = body, doc_kind = kind, doc_source = source,
      doc_timestamp = None, doc_metadata = Map.empty\<rparr>"

section \<open>What a search answers\<close>

definition id_of :: "scored_result \<Rightarrow> string" where
  "id_of r = doc_id (sr_document r)"

definition answers :: "search_index \<Rightarrow> query_expr \<Rightarrow> nat \<Rightarrow> string set" where
  "answers ix q m = id_of ` set (evaluate ix q m)"

definition all_ids :: "search_index \<Rightarrow> string set" where
  "all_ids ix = doc_id ` set (si_documents ix)"

lemma sort_results_simps [simp]: "set (sort_results rs) = set rs" "length (sort_results rs) = length rs"
  "sort_results rs = [] \<longleftrightarrow> rs = []"
  by (simp_all add: sort_results_def flip: length_0_conv)

lemma distinct_sort_results [simp]: "distinct (map f (sort_results rs)) \<longleftrightarrow> distinct (map f rs)"
proof -
  have "mset (map f (sort_results rs)) = mset (map f rs)" by (simp add: sort_results_def)
  then show ?thesis by (rule mset_eq_imp_distinct_iff)
qed

lemma result_of_simps [simp]: "sr_document (result_of s w d) = d" "id_of (result_of s w d) = doc_id d"
  by (simp_all add: result_of_def id_of_def)

lemma hits_iff: "hits rs i \<longleftrightarrow> i \<in> id_of ` set rs"
  by (auto simp: hits_def list_ex_iff id_of_def)

lemma retain_hits_fold: "fold retain_hits others rs = filter (\<lambda>r. \<forall>p\<in>set others. hits p (id_of r)) rs"
  by (induction others arbitrary: rs) (simp_all add: retain_hits_def id_of_def conj_commute)

lemma first_hits_ids: "id_of ` set (first_hits seen rs) = id_of ` set rs - seen"
  by (induction rs arbitrary: seen) (auto simp: id_of_def)

lemma first_hits_subset: "set (first_hits seen rs) \<subseteq> set rs"
  by (induction rs arbitrary: seen) auto

lemma first_hits_distinct: "distinct (map id_of (first_hits seen rs))"
proof (induction rs arbitrary: seen)
  case (Cons r rs)
  have "id_of r \<notin> id_of ` set (first_hits (insert (id_of r) seen) rs)" by (simp add: first_hits_ids)
  with Cons show ?case by (auto simp: id_of_def)
qed simp

text \<open>
  A search picks documents: its results are a part of the documents, none more often than it is in
  the index, in some order. So there are no more results than documents and a limit of as many cuts
  nothing.
\<close>

definition picks :: "search_index \<Rightarrow> scored_result list \<Rightarrow> bool" where
  "picks ix rs \<longleftrightarrow> mset (map sr_document rs) \<subseteq># mset (si_documents ix)"

lemma picks_length: "picks ix rs \<Longrightarrow> length rs \<le> length (si_documents ix)"
  unfolding picks_def by (metis length_map size_mset size_mset_mono)

lemma picks_documents: "picks ix rs \<Longrightarrow> sr_document ` set rs \<subseteq> set (si_documents ix)"
  unfolding picks_def by (metis list.set_map set_mset_mono set_mset_mset)

lemma picks_distinct:
  assumes "picks ix rs" and "distinct (map doc_id (si_documents ix))"
  shows "distinct (map id_of rs)"
proof -
  have ids: "map id_of rs = map doc_id (map sr_document rs)" by (simp add: id_of_def)
  have "mset (map id_of rs) \<subseteq># mset (map doc_id (si_documents ix))"
    using image_mset_subseteq_mono [OF assms(1) [unfolded picks_def], of doc_id] unfolding ids mset_map .
  then obtain rest where "mset (map doc_id (si_documents ix)) = mset (map id_of rs) + rest"
    by (auto simp: subset_mset.le_iff_add)
  moreover obtain ys where "rest = mset ys" by (metis ex_mset)
  ultimately have "mset (map doc_id (si_documents ix)) = mset (map id_of rs @ ys)" by simp
  from mset_eq_imp_distinct_iff [OF this] assms(2) show ?thesis by simp
qed

lemma picks_take [intro]: "picks ix rs \<Longrightarrow> picks ix (take m rs)"
proof -
  have "map sr_document rs = map sr_document (take m rs) @ map sr_document (drop m rs)"
    by (simp flip: map_append)
  from arg_cong [OF this, of mset] have "mset (map sr_document (take m rs)) \<subseteq># mset (map sr_document rs)" by simp
  then show "picks ix rs \<Longrightarrow> ?thesis" unfolding picks_def by (rule subset_mset.trans)
qed

lemma picks_sort [simp]: "picks ix (sort_results rs) \<longleftrightarrow> picks ix rs"
  by (simp add: picks_def sort_results_def)

lemma picks_filter [intro]: "picks ix rs \<Longrightarrow> picks ix (filter f rs)"
proof -
  have "mset (map sr_document (filter f rs)) \<subseteq># mset (map sr_document rs)"
    by (simp add: image_mset_subseteq_mono)
  then show "picks ix rs \<Longrightarrow> ?thesis" unfolding picks_def by (rule subset_mset.trans)
qed

lemma picks_map: "picks ix (map (result_of s w) (filter f (si_documents ix)))"
  by (simp add: picks_def comp_def)

lemma picks_map_filter:
  assumes "\<And>d r. f d = Some r \<Longrightarrow> sr_document r = d"
  shows "picks ix (List.map_filter f (si_documents ix))"
proof -
  have "map sr_document (List.map_filter f ds) = filter (\<lambda>d. f d \<noteq> None) ds" for ds
    using assms by (induction ds) (auto simp: List.map_filter_simps split: option.split)
  then show ?thesis by (simp add: picks_def)
qed

lemma picks_graph: "picks ix (eval_graph ix p m)"
  by (cases p) (auto intro!: picks_take picks_map)

lemma picks_Nil [simp]: "picks ix []"
  by (simp add: picks_def)

lemma picks_union:
  assumes "\<forall>rs\<in>set rss. picks ix rs"
  shows "picks ix (first_hits {} (concat rss))"
proof -
  let ?ds = "map sr_document (first_hits {} (concat rss))"
  have docs: "set ?ds \<subseteq> set (si_documents ix)"
  proof -
    have "sr_document r \<in> set (si_documents ix)" if r: "r \<in> set (first_hits {} (concat rss))" for r
    proof -
      have "r \<in> set (concat rss)" using r first_hits_subset by (rule set_mp [rotated])
      then obtain rs where rs: "rs \<in> set rss" "r \<in> set rs" by auto
      with assms have "picks ix rs" by blast
      from picks_documents [OF this] rs(2) show ?thesis by blast
    qed
    then show ?thesis unfolding list.set_map by blast
  qed
  have "map doc_id ?ds = map id_of (first_hits {} (concat rss))" by (simp add: id_of_def)
  then have "distinct (map doc_id ?ds)" using first_hits_distinct by metis
  then have "distinct ?ds" by (rule distinct_map [THEN iffD1, THEN conjunct1])
  have "count (mset ?ds) d \<le> count (mset (si_documents ix)) d" for d
  proof (cases "d \<in> set ?ds")
    case True
    then have "count (mset ?ds) d = 1" using \<open>distinct ?ds\<close> by (simp only: distinct_count_atmost_1 if_True)
    moreover have "0 < count (mset (si_documents ix)) d" using docs True by (simp only: count_greater_zero_iff set_mset_mset) blast
    ultimately show ?thesis by linarith
  next
    case False
    then have "count (mset ?ds) d = 0" by (simp only: count_eq_zero_iff set_mset_mset not_False_eq_True)
    then show ?thesis by linarith
  qed
  then show ?thesis unfolding picks_def by (rule mset_subset_eqI)
qed

lemma picks_evaluate: "picks ix (evaluate ix q m)"
proof (induction ix q m rule: evaluate.induct)
  case (11 ix qs m)
  show ?case
  proof (cases qs)
    case (Cons q qs')
    with 11 have "picks ix (evaluate ix q m)" by simp
    with Cons show ?thesis by (simp add: retain_hits_fold picks_take picks_filter)
  qed simp
next
  case (12 ix qs m)
  then have "\<forall>rs\<in>set (map (\<lambda>q. evaluate ix q m) qs). picks ix rs" by auto
  from picks_union [OF this] show ?case by auto
qed (auto simp: eval_keyword_def eval_prefix_def eval_phrase_def eval_semantic_def eval_temporal_def eval_structural_def
    eval_dependency_def eval_architecture_def eval_similarity_def keyword_result_def similar_result_def Let_def
    intro!: picks_take picks_map picks_map_filter picks_graph split: if_splits option.splits)

lemma evaluate_length: "length (evaluate ix q m) \<le> length (si_documents ix)"
  by (rule picks_length [OF picks_evaluate])

text \<open>With a limit of at least the number of documents the limit does not matter.\<close>

lemma take_all_found: "length ds \<le> m \<Longrightarrow> take m (map g (filter f ds)) = map g (filter f ds)"
  by (simp add: order_trans [OF length_filter_le])

lemma length_map_filter: "length (List.map_filter f xs) \<le> length xs"
  by (induction xs) (auto simp: List.map_filter_simps split: option.split)

lemma take_all_scored: "length ds \<le> m \<Longrightarrow> take m (sort_results (List.map_filter f ds)) = sort_results (List.map_filter f ds)"
  by (simp add: order_trans [OF length_map_filter])

lemma eval_graph_limit:
  "length (si_documents ix) \<le> m \<Longrightarrow> length (si_documents ix) \<le> n \<Longrightarrow> eval_graph ix p m = eval_graph ix p n"
  by (induction p) (simp_all add: take_all_found)

lemma take_all_picked: "picks ix rs \<Longrightarrow> length (si_documents ix) \<le> m \<Longrightarrow> take m rs = rs"
  using picks_length [of ix rs] by simp

lemma evaluate_limit:
  "length (si_documents ix) \<le> m \<Longrightarrow> length (si_documents ix) \<le> n \<Longrightarrow> evaluate ix q m = evaluate ix q n"
proof (induction q)
  case (AndAll qs)
  then have eq: "map (\<lambda>q. evaluate ix q m) qs = map (\<lambda>q. evaluate ix q n) qs" by simp
  show ?case
  proof (cases qs)
    case (Cons q qs')
    have "picks ix (sort_results (fold retain_hits others (evaluate ix q n)))" for others
      using picks_evaluate by (simp add: retain_hits_fold picks_filter)
    from take_all_picked [OF this] AndAll.prems eq Cons show ?thesis by (simp cong: map_cong)
  qed simp
next
  case (OrAny qs)
  then have eq: "map (\<lambda>q. evaluate ix q m) qs = map (\<lambda>q. evaluate ix q n) qs" by simp
  have "picks ix (sort_results (first_hits {} (concat (map (\<lambda>q. evaluate ix q n) qs))))"
    using picks_union [of "map (\<lambda>q. evaluate ix q n) qs" ix] picks_evaluate by auto
  from take_all_picked [OF this] OrAny.prems eq show ?case by (simp cong: map_cong)
qed (simp_all add: take_all_found take_all_scored eval_prefix_def eval_phrase_def eval_temporal_def eval_structural_def
    eval_dependency_def eval_architecture_def eval_graph_limit [of ix m n]
    eval_keyword_def eval_semantic_def eval_similarity_def)

lemma keep_answers:
  "picks ix rs \<Longrightarrow> length (si_documents ix) \<le> m \<Longrightarrow> id_of ` set (take m (sort_results rs)) = id_of ` set rs"
  using picks_length [of ix rs] by simp

lemma answers_and:
  assumes "length (si_documents ix) \<le> m"
  shows "answers ix (AndAll (q # qs)) m = (\<Inter>p\<in>set (q # qs). answers ix p m)"
proof -
  have "picks ix (fold retain_hits (map (\<lambda>q. evaluate ix q m) qs) (evaluate ix q m))"
    using picks_evaluate by (simp add: retain_hits_fold picks_filter)
  from keep_answers [OF this assms] show ?thesis
    by (auto simp: answers_def retain_hits_fold hits_iff)
qed

lemma answers_or:
  assumes "length (si_documents ix) \<le> m"
  shows "answers ix (OrAny qs) m = (\<Union>p\<in>set qs. answers ix p m)"
proof -
  have "picks ix (first_hits {} (concat (map (\<lambda>q. evaluate ix q m) qs)))"
    using picks_union [of "map (\<lambda>q. evaluate ix q m) qs" ix] picks_evaluate by auto
  from keep_answers [OF this assms] show ?thesis
    by (auto simp: answers_def first_hits_ids)
qed

lemma answers_not:
  assumes "length (si_documents ix) \<le> m" "length (si_documents ix) < 2 ^ 64"
  shows "answers ix (NotQuery q) m = all_ids ix - answers ix q m"
proof -
  have "evaluate ix q (2 ^ 64 - 1) = evaluate ix q m" by (rule evaluate_limit) (use assms in simp_all)
  with assms(1) show ?thesis
    by (auto simp: answers_def all_ids_def take_all_found hits_iff image_image)
qed

lemma answers_all: "answers ix q m \<subseteq> all_ids ix"
  using picks_documents [OF picks_evaluate [of ix q m]] by (auto simp: answers_def all_ids_def id_of_def)

text \<open>
  C33. The query algebra is the algebra of sets. With a limit of at least the number of documents the
  answer to a conjunction is the intersection of the answers to its parts, the answer to a disjunction
  the union, the answer to a negation the complement within the index, and so de Morgan's law holds
  for queries of every kind.
\<close>

theorem query_algebra_is_the_algebra_of_sets:
  assumes "length (si_documents ix) \<le> m" "length (si_documents ix) < 2 ^ 64"
  shows "answers ix (AndAll (q # qs)) m = (\<Inter>p\<in>set (q # qs). answers ix p m)
    \<and> answers ix (OrAny qs) m = (\<Union>p\<in>set qs. answers ix p m)
    \<and> answers ix (NotQuery q) m = all_ids ix - answers ix q m
    \<and> answers ix (NotQuery (AndAll (q # qs))) m = answers ix (OrAny (map NotQuery (q # qs))) m"
  unfolding answers_and [OF assms(1)] answers_or [OF assms(1)] answers_not [OF assms]
  by (auto simp: answers_not [OF assms])

definition sample_index :: search_index where
  "sample_index = si_add_document (document_from_text ''b'' ''Python'' ''rust and python'' ''article'' ''docs'')
     (si_add_document (document_from_text ''a'' ''Rust'' ''ownership'' ''note'' ''docs'') si_new)"

theorem query_algebra_is_the_algebra_of_sets_witness:
  "answers sample_index (NotQuery (AndAll [Keyword ''Rust'', PrefixOf ''pyt''])) 2 =
   answers sample_index (OrAny (map NotQuery [Keyword ''Rust'', PrefixOf ''pyt''])) 2"
proof -
  have n: "length (si_documents sample_index) \<le> 2" "length (si_documents sample_index) < 2 ^ 64"
    by (simp_all add: sample_index_def si_add_document_def si_new_def)
  show ?thesis using query_algebra_is_the_algebra_of_sets [OF n, of "Keyword ''Rust''" "[PrefixOf ''pyt'']"] by blast
qed

text \<open>
  The limit is applied to the parts of a query before they are combined. A conjunction of searches
  that the second document answers, and a filter that it passes, answer nothing with a limit of one,
  though one answer would do.
\<close>

theorem limits_cut_before_combining:
  "answers sample_index (AndAll [PrefixOf ''rust'', PrefixOf ''python'']) 1 = {}
   \<and> answers sample_index (AndAll [PrefixOf ''rust'', PrefixOf ''python'']) 2 = {''b''}
   \<and> answers sample_index (FilterBy (PrefixOf ''rust'') (KindIs ''article'')) 1 = {}
   \<and> answers sample_index (FilterBy (PrefixOf ''rust'') (KindIs ''article'')) 2 = {''b''}"
  by code_simp

text \<open>Scores that never rise, in the order of \<open>sort_results\<close>.\<close>

definition falling :: "scored_result list \<Rightarrow> bool" where
  "falling rs \<longleftrightarrow> sorted_wrt (\<lambda>r s. f64_key (sr_score s) \<le> f64_key (sr_score r)) rs"

lemma falling_Nil [simp]: "falling []"
  by (simp add: falling_def)

lemma falling_sort [simp]: "falling (sort_results rs)"
proof -
  have "sorted (map (\<lambda>r. - f64_key (sr_score r)) (sort_results rs))" unfolding sort_results_def by (rule sorted_sort_key)
  then show ?thesis by (simp add: sorted_map falling_def)
qed

lemma falling_take [intro]: "falling rs \<Longrightarrow> falling (take m rs)"
  by (simp add: falling_def sorted_wrt_take)

lemma falling_filter: "falling rs \<Longrightarrow> falling (filter f rs)"
  by (simp add: falling_def sorted_wrt_filter)

lemma falling_equal [simp]: "falling (map (result_of w why) ds)"
  by (simp add: falling_def sorted_wrt_map result_of_def sorted_wrt_iff_nth_less)

lemma falling_evaluate: "falling (evaluate ix q m)"
proof (induction ix q m rule: evaluate.induct)
  case (7 ix p m)
  show ?case by (cases p) (simp_all add: falling_take)
next
  case (14 ix q spec m)
  then show ?case by (simp add: falling_filter)
qed (simp_all add: falling_take eval_keyword_def eval_prefix_def eval_phrase_def eval_semantic_def eval_temporal_def
    eval_structural_def eval_dependency_def eval_architecture_def eval_similarity_def split: list.split)

lemma evaluate_within: "length (evaluate ix q m) \<le> m"
proof (induction ix q m rule: evaluate.induct)
  case (7 ix p m)
  show ?case by (cases p) simp_all
next
  case (14 ix q spec m)
  then show ?case by (auto intro: order_trans [OF length_filter_le])
qed (simp_all add: eval_keyword_def eval_prefix_def eval_phrase_def eval_semantic_def eval_temporal_def eval_structural_def
    eval_dependency_def eval_architecture_def eval_similarity_def split: list.split)

text \<open>
  C34. Whatever is asked, the answer is made of documents of the index, each at most as often as it was indexed
  (a document indexed twice may come twice), so if the identifiers in the index differ none is answered twice;
  there are no more results than the limit, \<open>total_count\<close> counts those that are answered, and their scores never rise (in the order of \<open>f64_key\<close>, which is that
  of the numbers; with a NaN among the scores the source leaves the order open).
\<close>

theorem search_results_are_documents:
  "let r = search took s q m in
     qr_total_count r = length (qr_results r) \<and> qr_total_count r \<le> m
   \<and> mset (map sr_document (qr_results r)) \<subseteq># mset (si_documents (se_index s))
   \<and> (distinct (map doc_id (si_documents (se_index s))) \<longrightarrow> distinct (map id_of (qr_results r)))
   \<and> sorted_wrt (\<lambda>r s. f64_key (sr_score s) \<le> f64_key (sr_score r)) (qr_results r)"
proof -
  let ?rs = "evaluate (se_index s) q m"
  have r: "qr_results (search took s q m) = ?rs" "qr_total_count (search took s q m) = length ?rs"
    by (simp_all add: search_def Let_def)
  show ?thesis
    using picks_evaluate [of "se_index s" q m, unfolded picks_def] picks_distinct [OF picks_evaluate [of "se_index s" q m]]
      evaluate_within [of "se_index s" q m] falling_evaluate [of "se_index s" q m, unfolded falling_def]
    by (simp add: r Let_def)
qed

definition sample_engine :: search_engine where
  "sample_engine = \<lparr>se_index = sample_index\<rparr>"

theorem search_results_are_documents_witness:
  "distinct (map id_of (qr_results (search 7 sample_engine (OrAny [Keyword ''rust'', PrefixOf ''py'']) 2)))
   \<and> map id_of (qr_results (search 7 sample_engine (OrAny [Keyword ''rust'', PrefixOf ''py'']) 2)) = [''a'', ''b'']"
proof -
  have "distinct (map doc_id (si_documents (se_index sample_engine)))" by code_simp
  moreover have "map id_of (qr_results (search 7 sample_engine (OrAny [Keyword ''rust'', PrefixOf ''py'']) 2)) = [''a'', ''b'']"
    by code_simp
  ultimately show ?thesis
    using search_results_are_documents [of 7 sample_engine "OrAny [Keyword ''rust'', PrefixOf ''py'']" 2] by simp
qed

section \<open>Searches that cannot answer what they promise\<close>

datatype engine_op = IndexDocument document | IndexDocuments "document list" | ClearEngine

fun engine_step :: "engine_op \<Rightarrow> search_engine \<Rightarrow> search_engine" where
  "engine_step (IndexDocument d) s = index_document d s"
| "engine_step (IndexDocuments ds) s = index_documents ds s"
| "engine_step ClearEngine s = se_clear s"

lemma index_documents_embeddings: "si_embeddings (se_index (index_documents ds s)) = si_embeddings (se_index s)"
  unfolding index_documents_def
  by (induction ds arbitrary: s) (simp_all add: index_document_def si_add_document_def)

lemma engine_has_no_embeddings: "si_embeddings (se_index (fold engine_step ops se_new)) = Map.empty"
proof -
  have "si_embeddings (se_index (engine_step x s)) = Map.empty" if "si_embeddings (se_index s) = Map.empty" for x s
    using that by (cases x) (simp_all add: index_documents_embeddings index_document_def si_add_document_def se_clear_def si_clear_def)
  then have "si_embeddings (se_index (fold engine_step ops s)) = Map.empty" if "si_embeddings (se_index s) = Map.empty" for s
    using that by (induction ops arbitrary: s) simp_all
  then show ?thesis by (simp add: se_new_def si_new_def)
qed

lemma map_filter_none: "List.map_filter (\<lambda>x. None) xs = []"
  by (induction xs) (simp_all add: List.map_filter_simps)

text \<open>A text in lower case holds none with a capital.\<close>

lemma lower_text_has_no_capital: "str_contains (to_lowercase s) (n @ t) \<Longrightarrow> to_lowercase n = n"
proof -
  assume "str_contains (to_lowercase s) (n @ t)"
  then obtain as bs where "to_lowercase s = as @ n @ t @ bs" by (auto simp: str_contains_iff)
  then have "set n \<subseteq> set (to_lowercase s)" by auto
  then have "\<forall>c\<in>set n. lower_char c = c" by (auto simp: to_lowercase_def)
  then show ?thesis by (simp add: to_lowercase_def map_idI)
qed

text \<open>
  Three searches that cannot answer. The engine stores no embedding, so a semantic search on any engine
  that its operations built finds nothing; a call is looked for in the body in lower case under a name that
  is not, so a name with a capital is never found; and an edge asks for one document that is the first hit
  of both its ends, so an edge between patterns with different first hits has none.
\<close>

theorem searches_that_find_nothing:
  assumes "to_lowercase name \<noteq> name"
    and "id_of ` set (eval_graph ix source 1) \<inter> id_of ` set (eval_graph ix target 1) = {}"
  shows "evaluate (se_index (fold engine_step ops se_new)) (Semantic t embedding) m = []
    \<and> evaluate ix (Structural (CallPattern (Some name))) m = []
    \<and> evaluate ix (GraphQuery (EdgePattern source target kind)) m = []"
proof -
  have "evaluate (se_index (fold engine_step ops se_new)) (Semantic t embedding) m = []"
    by (simp add: eval_semantic_def get_embedding_def engine_has_no_embeddings map_filter_none)
  moreover have "evaluate ix (Structural (CallPattern (Some name))) m = []"
    using assms(1) lower_text_has_no_capital [of _ name "''(''"] by (auto simp: eval_structural_def Let_def filter_empty_conv)
  moreover have "evaluate ix (GraphQuery (EdgePattern source target kind)) m = []"
    using assms(2) by (auto simp: hits_iff filter_empty_conv)
  ultimately show ?thesis by blast
qed

theorem searches_that_find_nothing_witness:
  "evaluate sample_index (Structural (CallPattern (Some ''Open''))) 5 = []
   \<and> evaluate sample_index (GraphQuery (EdgePattern (NodePattern ''Rust'' None) (NodePattern ''Python'' None) None)) 5 = []"
proof -
  have a: "to_lowercase ''Open'' \<noteq> ''Open''" by code_simp
  have b: "id_of ` set (eval_graph sample_index (NodePattern ''Rust'' None) 1)
      \<inter> id_of ` set (eval_graph sample_index (NodePattern ''Python'' None) 1) = {}" by code_simp
  from searches_that_find_nothing [OF a b, of "[]" "[]" "[]" 5 None] show ?thesis by blast
qed

text \<open>
  A path query without a recorded depth matches everything: each document that has no \<open>path_depth\<close> is
  on every path, whatever its ends.
\<close>

theorem path_pattern_matches_unrelated_documents:
  assumes "d \<in> set (si_documents ix)" and "doc_metadata d ''path_depth'' = None"
  shows "doc_id d \<in> answers ix (GraphQuery (PathPattern source target depth)) (length (si_documents ix))"
  using assms by (auto simp: answers_def parsed_def take_all_found image_image)

theorem path_pattern_matches_unrelated_documents_witness:
  "''a'' \<in> answers sample_index (GraphQuery (PathPattern (NodePattern ''nothing'' None) (NodePattern ''nowhere'' None) 0)) 2"
  using path_pattern_matches_unrelated_documents
    [of "document_from_text ''a'' ''Rust'' ''ownership'' ''note'' ''docs''" sample_index]
  by (simp add: sample_index_def si_add_document_def si_new_def document_from_text_def numeral_2_eq_2)

section \<open>Word counts\<close>

text \<open>\<^verbatim>\<open>src/crates/search/src/strategies.rs\<close>; the order in which the code walks a hash table is an argument.\<close>

definition count_words :: "nat \<Rightarrow> string \<Rightarrow> (string \<times> nat) list \<Rightarrow> (string \<times> nat) list" where
  "count_words weight text freq =
     fold (\<lambda>w f. AList.update w (unwrap_or 0 (map_of f w) + weight) f) (split_whitespace (to_lowercase text)) freq"

definition build_word_frequencies ::
  "((string \<times> nat) list \<Rightarrow> (string \<times> nat) list) \<Rightarrow> document list \<Rightarrow> (string \<rightharpoonup> (string \<times> nat) list)" where
  "build_word_frequencies walk docs =
     fold (\<lambda>d m. m(doc_id d \<mapsto> sort_key (\<lambda>p. - int (snd p)) (walk (count_words 3 (doc_title d) (count_words 1 (doc_body d) [])))))
       docs Map.empty"

definition keyword_score :: "document \<Rightarrow> string \<Rightarrow> nat" where
  "keyword_score d word =
     (let term_lower = to_lowercase word
      in match_count (to_lowercase (doc_title d)) term_lower * 3 + match_count (to_lowercase (doc_body d)) term_lower)"

lemma keyword_score_ranks: "keyword_result (to_lowercase word) d =
    (if keyword_score d word = 0 then None
     else Some (result_of (f64_of_nat (keyword_score d word))
       (if str_contains (to_lowercase (doc_title d)) (to_lowercase word) then ''title'' else ''body'') d))"
  by (simp add: keyword_result_def keyword_score_def Let_def flip: match_count_pos)

lemma counted_words:
  "unwrap_or 0 (map_of (count_words k t f) w) = unwrap_or 0 (map_of f w) + k * count_list (split_whitespace (to_lowercase t)) w"
proof -
  have "unwrap_or 0 (map_of (fold (\<lambda>w f. AList.update w (unwrap_or 0 (map_of f w) + k) f) ws f) w)
      = unwrap_or 0 (map_of f w) + k * count_list ws w" for ws
    by (induction ws arbitrary: f) (simp_all add: update_conv')
  then show ?thesis by (simp add: count_words_def)
qed

end
