(* ===== verification/Repo_Parser.thy ===== *)
theory Repo_Parser
  imports Str_Ops
begin

text \<open>
  \<^verbatim>\<open>src/crates/repo-intel/src/language.rs\<close> and \<^verbatim>\<open>parser.rs\<close>: the language of a file and the symbols and
  imports that each of the fourteen parsers finds in its lines. Text is read as code points below 256.
\<close>

section \<open>Pieces of a line\<close>

text \<open>\<open>split(f).next()\<close>, which always has a first piece, and \<open>rsplit(p).next()\<close>, the piece after the last \<open>p\<close>.\<close>

definition before :: "(char \<Rightarrow> bool) \<Rightarrow> string \<Rightarrow> string" where
  "before f s = takeWhile (\<lambda>c. \<not> f c) s"

definition after_last :: "string \<Rightarrow> string \<Rightarrow> string" where
  "after_last p s = (case str_find (rev s) (rev p) of None \<Rightarrow> s | Some i \<Rightarrow> rev (take i (rev s)))"

definition trim_end_matches :: "char \<Rightarrow> string \<Rightarrow> string" where
  "trim_end_matches c s = rev (dropWhile (\<lambda>d. d = c) (rev s))"

definition trim_start_matches :: "char \<Rightarrow> string \<Rightarrow> string" where
  "trim_start_matches c s = dropWhile (\<lambda>d. d = c) s"

definition trim_char :: "char \<Rightarrow> string \<Rightarrow> string" where
  "trim_char c s = trim_matches (\<lambda>d. d = c) s"

abbreviation quote_char :: char where
  "quote_char \<equiv> CHR 0x22"

abbreviation tick_char :: char where
  "tick_char \<equiv> CHR 0x27"

lemma before_split: "before f s = hd (split_where f s)"
  by (induction s) (auto simp: before_def split: list.splits)

section \<open>Languages\<close>

datatype language =
    Rust | Python | Go | Java | C | Cpp | CSharp | JavaScript | TypeScript
  | PHP | Kotlin | Swift | Zig | Lua | Wasm

definition from_filename :: "string \<Rightarrow> language option" where
  "from_filename path =
     (let lower = to_lowercase path in
      if ends_with lower ''.rs'' then Some Rust
      else if ends_with lower ''.py'' \<or> ends_with lower ''.pyw'' then Some Python
      else if ends_with lower ''.go'' then Some Go
      else if ends_with lower ''.java'' then Some Java
      else if ends_with lower ''.c'' \<or> ends_with lower ''.h'' then Some C
      else if ends_with lower ''.cpp'' \<or> ends_with lower ''.cxx'' \<or> ends_with lower ''.cc''
          \<or> ends_with lower ''.hpp'' \<or> ends_with lower ''.hxx'' then Some Cpp
      else if ends_with lower ''.cs'' then Some CSharp
      else if ends_with lower ''.js'' \<or> ends_with lower ''.mjs'' then Some JavaScript
      else if ends_with lower ''.ts'' \<or> ends_with lower ''.tsx'' then Some TypeScript
      else if ends_with lower ''.php'' then Some PHP
      else if ends_with lower ''.kt'' \<or> ends_with lower ''.kts'' then Some Kotlin
      else if ends_with lower ''.swift'' then Some Swift
      else if ends_with lower ''.zig'' then Some Zig
      else if ends_with lower ''.lua'' then Some Lua
      else if ends_with lower ''.wasm'' then Some Wasm
      else None)"

definition from_content :: "string \<Rightarrow> language option" where
  "from_content content =
     (let shebang = (case str_lines content of [] \<Rightarrow> [] | l # _ \<Rightarrow> l) in
      if starts_with shebang ''#!/usr/bin/env python'' \<or> starts_with shebang ''#!/usr/bin/python''
         \<or> str_contains shebang ''python'' then Some Python
      else if starts_with shebang ''#!/usr/bin/env node'' \<or> str_contains shebang ''node'' then Some JavaScript
      else if starts_with shebang ''#!/usr/bin/env lua'' \<or> str_contains shebang ''lua'' then Some Lua
      else if str_contains content ''fn main('' \<or> str_contains content ''let mut '' then Some Rust
      else if str_contains content ''package main'' \<and> str_contains content ''func main('' then Some Go
      else if str_contains content ''def '' \<or> str_contains content ''import '' then Some Python
      else if str_contains content ''public class '' \<or> str_contains content ''public static void main'' then Some Java
      else if str_contains content ''function '' \<and> str_contains content ''end'' then Some Lua
      else if (str_contains content '': string'' \<or> str_contains content '': number'' \<or> str_contains content ''interface '')
         \<and> (str_contains content ''const '' \<or> str_contains content ''let '') then Some TypeScript
      else None)"

fun language_name :: "language \<Rightarrow> string" where
  "language_name Rust = ''Rust''"
| "language_name Python = ''Python''"
| "language_name Go = ''Go''"
| "language_name Java = ''Java''"
| "language_name C = ''C''"
| "language_name Cpp = ''C++''"
| "language_name CSharp = ''C#''"
| "language_name JavaScript = ''JavaScript''"
| "language_name TypeScript = ''TypeScript''"
| "language_name PHP = ''PHP''"
| "language_name Kotlin = ''Kotlin''"
| "language_name Swift = ''Swift''"
| "language_name Zig = ''Zig''"
| "language_name Lua = ''Lua''"
| "language_name Wasm = ''WASM''"

fun extensions :: "language \<Rightarrow> string list" where
  "extensions Rust = [''rs'']"
| "extensions Python = [''py'', ''pyw'']"
| "extensions Go = [''go'']"
| "extensions Java = [''java'']"
| "extensions C = [''c'', ''h'']"
| "extensions Cpp = [''cpp'', ''cxx'', ''cc'', ''hpp'', ''hxx'']"
| "extensions CSharp = [''cs'']"
| "extensions JavaScript = [''js'', ''mjs'']"
| "extensions TypeScript = [''ts'', ''tsx'']"
| "extensions PHP = [''php'']"
| "extensions Kotlin = [''kt'', ''kts'']"
| "extensions Swift = [''swift'']"
| "extensions Zig = [''zig'']"
| "extensions Lua = [''lua'']"
| "extensions Wasm = [''wasm'']"

section \<open>Symbols and imports\<close>

record code_location =
  cl_file :: string
  cl_line :: nat
  cl_column :: nat

datatype visibility = Public | Private | Protected | Internal

datatype symbol_kind =
    Function | Method | Class | Struct | Interface | Trait | Enum | Module | Namespace
  | Variable | Constant | Macro | Type

record code_symbol =
  cs_name :: string
  cs_kind :: symbol_kind
  cs_location :: code_location
  cs_visibility :: visibility
  cs_signature :: string

record import_stmt =
  im_source :: string
  im_names :: "string list"
  im_location :: code_location

record source_module =
  sm_path :: string
  sm_language :: language
  sm_symbols :: "code_symbol list"
  sm_imports :: "import_stmt list"
  sm_line_count :: nat

record package =
  pk_name :: string
  pk_language :: language
  pk_modules :: "source_module list"
  pk_total_lines :: nat

record workspace =
  wk_root :: string
  wk_packages :: "package list"

definition loc :: "nat \<Rightarrow> string \<Rightarrow> code_location" where
  "loc line file = \<lparr>cl_file = file, cl_line = line, cl_column = 0\<rparr>"

text \<open>
  A parser reads the lines of a file from the first, each trimmed and with its number. A \<open>line_parser\<close> is
  the body of its loop.
\<close>

type_synonym 'r line_parser = "string \<Rightarrow> nat \<Rightarrow> string \<Rightarrow> 'r list"

definition each_line :: "'r line_parser \<Rightarrow> string \<Rightarrow> string \<Rightarrow> 'r list" where
  "each_line f content file = concat (map (\<lambda>(i, line). f (trim line) (i + 1) file) (enumerate 0 (str_lines content)))"

definition symbol :: "string \<Rightarrow> symbol_kind \<Rightarrow> visibility \<Rightarrow> string \<Rightarrow> nat \<Rightarrow> string \<Rightarrow> code_symbol" where
  "symbol name kind vis line ln file =
     \<lparr>cs_name = name, cs_kind = kind, cs_location = loc ln file, cs_visibility = vis, cs_signature = line\<rparr>"

definition import_of :: "string \<Rightarrow> string list \<Rightarrow> nat \<Rightarrow> string \<Rightarrow> import_stmt" where
  "import_of source names ln file = \<lparr>im_source = source, im_names = names, im_location = loc ln file\<rparr>"

section \<open>The parsers of the languages\<close>

subsection \<open>Rust\<close>

definition rust_name :: "string \<Rightarrow> string" where
  "rust_name s = trim (before (\<lambda>c. c \<in> {CHR ''<'', CHR ''{'', CHR '' '', CHR 9}) s)"

definition rust_symbol :: "code_symbol line_parser" where
  "rust_symbol line ln file =
     (case strip_prefix ''pub fn '' line of
        Some s \<Rightarrow> [symbol (trim (before (\<lambda>c. c = CHR ''('') s)) Function Public line ln file]
      | None \<Rightarrow> (case strip_prefix ''fn '' line of
        Some s \<Rightarrow> (let name = trim (before (\<lambda>c. c = CHR ''('') s) in
            if starts_with name ''fn '' then [] else [symbol name Function Private line ln file])
      | None \<Rightarrow> (case strip_prefix ''pub struct '' line of
        Some s \<Rightarrow> [symbol (rust_name s) Struct Public line ln file]
      | None \<Rightarrow> (case strip_prefix ''pub enum '' line of
        Some s \<Rightarrow> [symbol (rust_name s) Enum Public line ln file]
      | None \<Rightarrow> (case strip_prefix ''pub trait '' line of
        Some s \<Rightarrow> [symbol (rust_name s) Trait Public line ln file]
      | None \<Rightarrow> (case strip_prefix ''pub type '' line of
        Some s \<Rightarrow> [symbol (trim (before (\<lambda>c. c = CHR ''='') s)) Type Public line ln file]
      | None \<Rightarrow> []))))))"

definition rust_import :: "import_stmt line_parser" where
  "rust_import line ln file =
     (case strip_prefix ''use '' line of
        None \<Rightarrow> []
      | Some use_path \<Rightarrow>
          (let path = trim (trim_end_matches (CHR '';'') use_path) in
           if \<not> starts_with path ''crate::'' \<and> \<not> starts_with path ''self::'' \<and> \<not> starts_with path ''super::''
           then [import_of path [after_last ''::'' path] ln file] else []))"

subsection \<open>Python\<close>

definition python_symbol :: "code_symbol line_parser" where
  "python_symbol line ln file =
     (case strip_prefix ''def '' line of
        Some s \<Rightarrow> [symbol (trim (before (\<lambda>c. c = CHR ''('') s)) Function Public line ln file]
      | None \<Rightarrow> (case strip_prefix ''class '' line of
        Some s \<Rightarrow> [symbol (trim (before (\<lambda>c. c = CHR ''('') (before (\<lambda>c. c = CHR '':'') s))) Class Public line ln file]
      | None \<Rightarrow> []))"

definition python_import :: "import_stmt line_parser" where
  "python_import line ln file =
     (case strip_prefix ''import '' line of
        Some s \<Rightarrow> map (\<lambda>name. import_of (trim name) [] ln file) (split_where (\<lambda>c. c = CHR '','') s)
      | None \<Rightarrow> (case strip_prefix ''from '' line of
        Some from_part \<Rightarrow> (case split_once from_part '' import '' of
            Some (source, names) \<Rightarrow>
              [import_of (trim source) (map trim (split_where (\<lambda>c. c = CHR '','') names)) ln file]
          | None \<Rightarrow> [])
      | None \<Rightarrow> []))"

subsection \<open>Go\<close>

definition starts_upper :: "string \<Rightarrow> bool" where
  "starts_upper s = (case s of [] \<Rightarrow> False | c # _ \<Rightarrow> 65 \<le> (of_char c :: nat) \<and> (of_char c :: nat) \<le> 90)"

definition go_symbol :: "code_symbol line_parser" where
  "go_symbol line ln file =
     (case strip_prefix ''func '' line of
        Some s \<Rightarrow> (let name = trim (before (\<lambda>c. c = CHR ''('') s); is_method = CHR '')'' \<in> set name in
            [symbol name (if is_method then Method else Function) (if starts_upper name then Public else Private) line ln file])
      | None \<Rightarrow> (case strip_prefix ''type '' line of
        Some s \<Rightarrow> (if str_contains s ''struct'' \<or> str_contains s ''interface''
            then [symbol (trim (before (\<lambda>c. c = CHR '' '') s)) Struct Public line ln file] else [])
      | None \<Rightarrow> []))"

text \<open>The loop over the imports keeps whether it is in a block of them.\<close>

fun go_imports :: "bool \<Rightarrow> nat \<Rightarrow> string \<Rightarrow> string list \<Rightarrow> import_stmt list" where
  "go_imports in_block ln file [] = []"
| "go_imports in_block ln file (raw # ls) =
     (let line = trim raw in
      if line = ''import ('' then go_imports True (ln + 1) file ls
      else if in_block \<and> line = '')'' then go_imports False (ln + 1) file ls
      else (let path = trim_char quote_char line
            in if in_block \<and> path \<noteq> [] then [import_of path [] ln file] else []) @
           (case strip_prefix ''import '' line of
              Some path \<Rightarrow> [import_of (trim_char quote_char path) [] ln file]
            | None \<Rightarrow> []) @
           go_imports in_block (ln + 1) file ls)"

subsection \<open>Java\<close>

definition java_name :: "string \<Rightarrow> string" where
  "java_name s = trim (before (\<lambda>c. c = CHR '' '') (before (\<lambda>c. c = CHR ''<'') s))"

definition either :: "'a option \<Rightarrow> 'a option \<Rightarrow> 'a option" where
  "either x y = (case x of None \<Rightarrow> y | Some _ \<Rightarrow> x)"

definition java_symbol :: "code_symbol line_parser" where
  "java_symbol line ln file =
     (case either (strip_prefix ''public class '' line) (strip_prefix ''class '' line) of
        Some s \<Rightarrow> [symbol (java_name s) Class Public line ln file]
      | None \<Rightarrow> (case strip_prefix ''public interface '' line of
        Some s \<Rightarrow> [symbol (java_name s) Interface Public line ln file]
      | None \<Rightarrow> (case strip_prefix ''public enum '' line of
        Some s \<Rightarrow> [symbol (java_name s) Enum Public line ln file]
      | None \<Rightarrow> []))) @
     (if CHR ''('' \<in> set line \<and> CHR '')'' \<in> set line \<and> CHR '';'' \<notin> set line
         \<and> (starts_with line ''public '' \<or> starts_with line ''private '' \<or> starts_with line ''protected '')
      then (let name = after_last '' '' (before (\<lambda>c. c = CHR ''('') line) in
            if name \<noteq> [] \<and> name \<noteq> ''class'' \<and> name \<noteq> ''interface''
            then [symbol name Method (if starts_with line ''public'' then Public
                    else if starts_with line ''private'' then Private else Protected) line ln file]
            else [])
      else [])"

definition java_import :: "import_stmt line_parser" where
  "java_import line ln file =
     (case strip_prefix ''import '' line of
        None \<Rightarrow> []
      | Some s \<Rightarrow> (let path = trim (trim_end_matches (CHR '';'') s) in
          if \<not> starts_with path ''java.'' \<and> \<not> starts_with path ''javax.''
          then [import_of path [after_last ''.'' path] ln file] else []))"

subsection \<open>JavaScript and TypeScript\<close>

definition js_class_name :: "string \<Rightarrow> string" where
  "js_class_name s = trim (before (\<lambda>c. c = CHR '' '') (before (\<lambda>c. c = CHR ''{'') s))"

definition js_symbol :: "code_symbol line_parser" where
  "js_symbol line ln file =
     (case strip_prefix ''function '' line of
        Some s \<Rightarrow> [symbol (trim (before (\<lambda>c. c = CHR ''('') s)) Function Public line ln file]
      | None \<Rightarrow> (case strip_prefix ''export function '' line of
        Some s \<Rightarrow> [symbol (trim (before (\<lambda>c. c = CHR ''('') s)) Function Public line ln file]
      | None \<Rightarrow> (case strip_prefix ''class '' line of
        Some s \<Rightarrow> [symbol (js_class_name s) Class Public line ln file]
      | None \<Rightarrow> (case strip_prefix ''interface '' line of
        Some s \<Rightarrow> [symbol (js_class_name s) Interface Public line ln file]
      | None \<Rightarrow> (case strip_prefix ''const '' line of
        Some _ \<Rightarrow> (let piece = before (\<lambda>c. c = CHR ''='') line;
                       name = trim (unwrap_or piece (strip_prefix ''const '' piece))
            in if starts_with name ''{'' then [] else [symbol name Variable Private line ln file])
      | None \<Rightarrow> [])))))"

definition unquote :: "string \<Rightarrow> string" where
  "unquote s = trim_char tick_char (trim_char quote_char (trim s))"

definition js_import :: "import_stmt line_parser" where
  "js_import line ln file =
     (case strip_prefix ''import '' line of
        None \<Rightarrow> []
      | Some s \<Rightarrow> (let trimmed = trim_end_matches (CHR '';'') s in
          case str_find trimmed '' from '' of
            Some from_pos \<Rightarrow> [import_of (unquote (drop (from_pos + 6) trimmed)) [] ln file]
          | None \<Rightarrow> (let source = unquote trimmed in if source \<noteq> [] then [import_of source [] ln file] else []))) @
     (case str_find line ''require('' of
        None \<Rightarrow> []
      | Some pos \<Rightarrow> (let s = drop (pos + 8) line in
          case str_find s '')'' of
            Some end_pos \<Rightarrow> [import_of (unquote (take end_pos s)) [] ln file]
          | None \<Rightarrow> []))"

subsection \<open>C and C++\<close>

definition c_symbol :: "code_symbol line_parser" where
  "c_symbol line ln file =
     (if ends_with line ''{'' \<and> \<not> starts_with line ''if '' \<and> \<not> starts_with line ''while '' \<and> \<not> starts_with line ''for ''
         \<and> \<not> starts_with line ''switch '' \<and> \<not> starts_with line ''struct ''
      then (let name = trim (after_last '' '' (before (\<lambda>c. c = CHR ''('') line)) in
            if name \<noteq> [] \<and> \<not> starts_with name ''*'' \<and> \<not> str_contains name ''if'' \<and> \<not> str_contains name ''return''
            then [symbol name Function Public line ln file] else [])
      else []) @
     (if starts_with line ''struct '' \<and> CHR ''{'' \<in> set line
      then [symbol (trim (before (\<lambda>c. c = CHR ''{'') (unwrap_or [] (strip_prefix ''struct '' line)))) Struct Public line ln file]
      else [])"

definition c_import :: "import_stmt line_parser" where
  "c_import line ln file =
     (case strip_prefix ''#include '' line of
        None \<Rightarrow> []
      | Some header \<Rightarrow> [import_of (trim_char (CHR ''>'') (trim_char (CHR ''<'') (trim_char quote_char (trim header)))) [] ln file])"

subsection \<open>C#\<close>

definition base_name :: "string \<Rightarrow> string" where
  "base_name s = trim (before (\<lambda>c. c = CHR ''{'') (before (\<lambda>c. c = CHR '':'') s))"

definition csharp_symbol :: "code_symbol line_parser" where
  "csharp_symbol line ln file =
     (case either (strip_prefix ''public class '' line) (strip_prefix ''class '' line) of
        Some s \<Rightarrow> [symbol (base_name s) Class Public line ln file]
      | None \<Rightarrow> (case either (strip_prefix ''public interface '' line) (strip_prefix ''interface '' line) of
        Some s \<Rightarrow> [symbol (base_name s) Interface Public line ln file]
      | None \<Rightarrow> [])) @
     (if CHR ''('' \<in> set line \<and> CHR '')'' \<in> set line
      then (let is_public = starts_with line ''public '' \<or> starts_with line ''private '' \<or> starts_with line ''protected '' in
            if is_public \<or> starts_with line ''void '' \<or> starts_with line ''int '' \<or> starts_with line ''string ''
               \<or> starts_with line ''bool '' \<or> starts_with line ''Task<'' \<or> starts_with line ''async ''
            then (let name = after_last '' '' (before (\<lambda>c. c = CHR ''('') line) in
                  if name \<noteq> [] \<and> name \<noteq> ''class'' \<and> name \<noteq> ''interface''
                  then [symbol name Method Public line ln file] else [])
            else [])
      else [])"

definition csharp_import :: "import_stmt line_parser" where
  "csharp_import line ln file =
     (case strip_prefix ''using '' line of
        None \<Rightarrow> [] | Some ns \<Rightarrow> [import_of (trim (trim_end_matches (CHR '';'') ns)) [] ln file])"

subsection \<open>PHP\<close>

definition php_symbol :: "code_symbol line_parser" where
  "php_symbol line ln file =
     (case strip_prefix ''function '' line of
        Some s \<Rightarrow> [symbol (trim (before (\<lambda>c. c = CHR ''('') s)) Function Public line ln file]
      | None \<Rightarrow> (case strip_prefix ''class '' line of
        Some s \<Rightarrow> [symbol (js_class_name s) Class Public line ln file]
      | None \<Rightarrow> (case strip_prefix ''interface '' line of
        Some s \<Rightarrow> [symbol (js_class_name s) Interface Public line ln file]
      | None \<Rightarrow> [])))"

definition php_import :: "import_stmt line_parser" where
  "php_import line ln file =
     (case strip_prefix ''use '' line of
        None \<Rightarrow> [] | Some ns \<Rightarrow> [import_of (trim (trim_end_matches (CHR '';'') ns)) [] ln file])"

subsection \<open>Kotlin\<close>

definition kotlin_symbol :: "code_symbol line_parser" where
  "kotlin_symbol line ln file =
     (case strip_prefix ''fun '' line of
        Some s \<Rightarrow> [symbol (trim (before (\<lambda>c. c = CHR ''('') s)) Function Public line ln file]
      | None \<Rightarrow> (case strip_prefix ''class '' line of
        Some s \<Rightarrow> [symbol (trim (before (\<lambda>c. c = CHR '':'') (before (\<lambda>c. c = CHR ''('') s))) Class Public line ln file]
      | None \<Rightarrow> (case strip_prefix ''interface '' line of
        Some s \<Rightarrow> [symbol (trim (before (\<lambda>c. c = CHR '':'') s)) Interface Public line ln file]
      | None \<Rightarrow> [])))"

definition kotlin_import :: "import_stmt line_parser" where
  "kotlin_import line ln file =
     (case strip_prefix ''import '' line of None \<Rightarrow> [] | Some path \<Rightarrow> [import_of path [] ln file])"

subsection \<open>Swift\<close>

definition swift_symbol :: "code_symbol line_parser" where
  "swift_symbol line ln file =
     (case strip_prefix ''func '' line of
        Some s \<Rightarrow> [symbol (trim (before (\<lambda>c. c = CHR ''('') s)) Function
            (if starts_with line ''public '' then Public else if starts_with line ''private '' then Private else Internal)
            line ln file]
      | None \<Rightarrow> (case strip_prefix ''class '' line of
        Some s \<Rightarrow> [symbol (base_name s) Class Public line ln file]
      | None \<Rightarrow> (case strip_prefix ''struct '' line of
        Some s \<Rightarrow> [symbol (base_name s) Struct Public line ln file]
      | None \<Rightarrow> (case strip_prefix ''enum '' line of
        Some s \<Rightarrow> [symbol (base_name s) Enum Public line ln file]
      | None \<Rightarrow> (case strip_prefix ''protocol '' line of
        Some s \<Rightarrow> [symbol (base_name s) Interface Public line ln file]
      | None \<Rightarrow> [])))))"

definition swift_import :: "import_stmt line_parser" where
  "swift_import line ln file =
     (case strip_prefix ''import '' line of None \<Rightarrow> [] | Some path \<Rightarrow> [import_of (trim path) [] ln file])"

subsection \<open>Zig\<close>

definition zig_symbol :: "code_symbol line_parser" where
  "zig_symbol line ln file =
     (case strip_prefix ''fn '' line of
        Some s \<Rightarrow> [symbol (trim (before (\<lambda>c. c = CHR ''('') s)) Function Public line ln file]
      | None \<Rightarrow> (case strip_prefix ''const '' line of
        Some s \<Rightarrow> (case str_find s '' = '' of
            Some eq_pos \<Rightarrow> [symbol (trim (take eq_pos s)) Variable Public line ln file]
          | None \<Rightarrow> [])
      | None \<Rightarrow> []))"

definition zig_import :: "import_stmt line_parser" where
  "zig_import line ln file =
     (case strip_prefix ''const '' line of
        None \<Rightarrow> []
      | Some s \<Rightarrow> (case str_find s (''@import('' @ [quote_char]) of
            None \<Rightarrow> []
          | Some path_start \<Rightarrow> (let rest_text = drop (path_start + 9) s in
              case str_find rest_text [quote_char] of
                None \<Rightarrow> []
              | Some end_pos \<Rightarrow> [import_of (take end_pos rest_text) [] ln file])))"

subsection \<open>Lua\<close>

definition lua_symbol :: "code_symbol line_parser" where
  "lua_symbol line ln file =
     (case strip_prefix ''function '' line of
        Some s \<Rightarrow> [symbol (trim (before (\<lambda>c. c = CHR ''('') s)) Function Public line ln file]
      | None \<Rightarrow> (case strip_prefix ''local function '' line of
        Some s \<Rightarrow> [symbol (trim (before (\<lambda>c. c = CHR ''('') s)) Function Private line ln file]
      | None \<Rightarrow> []))"

definition lua_import :: "import_stmt line_parser" where
  "lua_import line ln file =
     (case strip_prefix (''require '' @ [quote_char]) line of
        Some s \<Rightarrow> (case str_find s [quote_char] of
            Some end_pos \<Rightarrow> [import_of (take end_pos s) [] ln file]
          | None \<Rightarrow> [])
      | None \<Rightarrow> (case strip_prefix ''require('' line of
        Some s \<Rightarrow> (let rest_text = trim_start_matches tick_char (trim_start_matches quote_char (trim_start s));
                       source = trim (before (\<lambda>c. c = tick_char) (before (\<lambda>c. c = quote_char) rest_text))
            in if source \<noteq> [] then [import_of source [] ln file] else [])
      | None \<Rightarrow> []))"

section \<open>A file\<close>

fun symbol_parser :: "language \<Rightarrow> code_symbol line_parser" where
  "symbol_parser Rust = rust_symbol"
| "symbol_parser Python = python_symbol"
| "symbol_parser Go = go_symbol"
| "symbol_parser Java = java_symbol"
| "symbol_parser JavaScript = js_symbol"
| "symbol_parser TypeScript = js_symbol"
| "symbol_parser C = c_symbol"
| "symbol_parser Cpp = c_symbol"
| "symbol_parser CSharp = csharp_symbol"
| "symbol_parser PHP = php_symbol"
| "symbol_parser Kotlin = kotlin_symbol"
| "symbol_parser Swift = swift_symbol"
| "symbol_parser Zig = zig_symbol"
| "symbol_parser Lua = lua_symbol"
| "symbol_parser Wasm = (\<lambda>line ln file. [])"

definition extract_symbols :: "string \<Rightarrow> language \<Rightarrow> string \<Rightarrow> code_symbol list" where
  "extract_symbols content lang file = each_line (symbol_parser lang) content file"

fun extract_imports :: "string \<Rightarrow> language \<Rightarrow> string \<Rightarrow> import_stmt list" where
  "extract_imports content Rust file = each_line rust_import content file"
| "extract_imports content Python file = each_line python_import content file"
| "extract_imports content Go file = go_imports False 1 file (str_lines content)"
| "extract_imports content Java file = each_line java_import content file"
| "extract_imports content JavaScript file = each_line js_import content file"
| "extract_imports content TypeScript file = each_line js_import content file"
| "extract_imports content C file = each_line c_import content file"
| "extract_imports content Cpp file = each_line c_import content file"
| "extract_imports content CSharp file = each_line csharp_import content file"
| "extract_imports content PHP file = each_line php_import content file"
| "extract_imports content Kotlin file = each_line kotlin_import content file"
| "extract_imports content Swift file = each_line swift_import content file"
| "extract_imports content Zig file = each_line zig_import content file"
| "extract_imports content Lua file = each_line lua_import content file"
| "extract_imports content Wasm file = []"

definition analyze_file :: "string \<Rightarrow> string \<Rightarrow> source_module option" where
  "analyze_file path content =
     (case either (from_filename path) (from_content content) of
        None \<Rightarrow> None
      | Some lang \<Rightarrow> Some \<lparr>sm_path = path, sm_language = lang, sm_symbols = extract_symbols content lang path,
          sm_imports = extract_imports content lang path, sm_line_count = length (str_lines content)\<rparr>)"

section \<open>Where symbols and imports come from\<close>

text \<open>What a line gives carries the line's number, and a symbol its text.\<close>

definition at_line :: "code_symbol line_parser \<Rightarrow> bool" where
  "at_line f \<longleftrightarrow> (\<forall>line ln file. \<forall>s\<in>set (f line ln file). cs_location s = loc ln file \<and> cs_signature s = line)"

definition import_at_line :: "import_stmt line_parser \<Rightarrow> bool" where
  "import_at_line f \<longleftrightarrow> (\<forall>line ln file. \<forall>i\<in>set (f line ln file). im_location i = loc ln file)"

named_theorems parser_defs

declare rust_symbol_def [parser_defs] python_symbol_def [parser_defs] go_symbol_def [parser_defs]
  java_symbol_def [parser_defs] js_symbol_def [parser_defs] c_symbol_def [parser_defs] csharp_symbol_def [parser_defs]
  php_symbol_def [parser_defs] kotlin_symbol_def [parser_defs] swift_symbol_def [parser_defs] zig_symbol_def [parser_defs]
  lua_symbol_def [parser_defs]

lemma symbol_simps [simp]:
  "cs_location (symbol n k v line ln file) = loc ln file" "cs_signature (symbol n k v line ln file) = line"
  "cs_kind (symbol n k v line ln file) = k" "cs_visibility (symbol n k v line ln file) = v"
  "cs_name (symbol n k v line ln file) = n" "im_location (import_of s ns ln file) = loc ln file"
  by (simp_all add: symbol_def import_of_def)

lemma symbols_at_line: "at_line (symbol_parser lang)"
  unfolding at_line_def
  by (cases lang; simp only: symbol_parser.simps parser_defs Let_def; auto split: option.splits if_splits)

lemma each_line_at:
  assumes "s \<in> set (each_line f content file)"
  obtains i where "i < length (str_lines content)" "s \<in> set (f (trim (str_lines content ! i)) (i + 1) file)"
  using assms by (auto simp: each_line_def in_set_enumerate_eq)

lemma go_imports_at:
  "i \<in> set (go_imports b ln fl ls) \<Longrightarrow> ln \<le> cl_line (im_location i) \<and> cl_line (im_location i) < ln + length ls
     \<and> cl_file (im_location i) = fl"
proof (induction b ln fl ls rule: go_imports.induct)
  case (2 b ln fl raw ls)
  have loc: "cl_line (loc n f) = n" "cl_file (loc n f) = f" for n f by (simp_all add: loc_def)
  show ?case using 2 by (auto simp: Let_def loc split: if_splits option.splits)
qed simp

lemma imports_at_line:
  "import_at_line rust_import" "import_at_line python_import" "import_at_line java_import" "import_at_line js_import"
  "import_at_line c_import" "import_at_line csharp_import" "import_at_line php_import" "import_at_line kotlin_import"
  "import_at_line swift_import" "import_at_line zig_import" "import_at_line lua_import"
  by (auto simp: import_at_line_def rust_import_def python_import_def java_import_def js_import_def c_import_def
      csharp_import_def php_import_def kotlin_import_def swift_import_def zig_import_def lua_import_def Let_def
      split: option.splits if_splits)

lemma each_import_at:
  assumes "import_at_line f" "i \<in> set (each_line f content file)"
  shows "1 \<le> cl_line (im_location i) \<and> cl_line (im_location i) \<le> length (str_lines content) \<and> cl_file (im_location i) = file"
proof -
  obtain k where "k < length (str_lines content)" "i \<in> set (f (trim (str_lines content ! k)) (k + 1) file)"
    using assms(2) by (rule each_line_at)
  with assms(1) show ?thesis by (simp add: import_at_line_def loc_def)
qed

lemma extract_imports_at:
  "i \<in> set (extract_imports content lang file) \<Longrightarrow>
   1 \<le> cl_line (im_location i) \<and> cl_line (im_location i) \<le> length (str_lines content) \<and> cl_file (im_location i) = file"
  using imports_at_line [THEN each_import_at] go_imports_at [of i False 1 "file" "str_lines content"]
  by (cases lang) auto

text \<open>
  C36. Everything a file analysis reports is in the file: each symbol has the number of a line and as its signature
  the text of that line, trimmed; each import has the number of a line; and both name the file.
\<close>

theorem analysis_is_located:
  assumes "analyze_file path content = Some m"
  shows "(\<forall>s\<in>set (sm_symbols m). cl_file (cs_location s) = path
      \<and> (\<exists>i < sm_line_count m. cl_line (cs_location s) = i + 1 \<and> cs_signature s = trim (str_lines content ! i)))
    \<and> (\<forall>i\<in>set (sm_imports m). cl_file (im_location i) = path
      \<and> 1 \<le> cl_line (im_location i) \<and> cl_line (im_location i) \<le> sm_line_count m)"
proof -
  obtain lang where m: "sm_symbols m = each_line (symbol_parser lang) content path"
    "sm_imports m = extract_imports content lang path" "sm_line_count m = length (str_lines content)"
    using assms by (auto simp: analyze_file_def extract_symbols_def split: option.splits)
  have "cl_file (cs_location s) = path
      \<and> (\<exists>i < sm_line_count m. cl_line (cs_location s) = i + 1 \<and> cs_signature s = trim (str_lines content ! i))"
    if s: "s \<in> set (sm_symbols m)" for s
  proof -
    obtain i where i: "i < length (str_lines content)" "s \<in> set (symbol_parser lang (trim (str_lines content ! i)) (i + 1) path)"
      using s unfolding m by (rule each_line_at)
    with symbols_at_line [of lang] have "cs_location s = loc (i + 1) path" "cs_signature s = trim (str_lines content ! i)"
      unfolding at_line_def by blast+
    with i m show ?thesis by (auto simp: loc_def)
  qed
  with extract_imports_at m show ?thesis by auto
qed

definition sample_source :: string where
  "sample_source = ''use std::fmt;'' @ [CHR 10] @ ''  pub fn greet(name: &str) {'' @ [CHR 10] @ ''}'' @ [CHR 10]"

theorem analysis_is_located_witness:
  "\<exists>m. analyze_file ''a/Lib.RS'' sample_source = Some m \<and> map cs_name (sm_symbols m) = [''greet'']
     \<and> map im_names (sm_imports m) = [[''fmt'']]
     \<and> (\<forall>i\<in>set (sm_imports m). cl_line (im_location i) \<le> sm_line_count m)"
proof -
  have "analyze_file ''a/Lib.RS'' sample_source \<noteq> None"
    "map_option (\<lambda>m. map cs_name (sm_symbols m)) (analyze_file ''a/Lib.RS'' sample_source) = Some [''greet'']"
    "map_option (\<lambda>m. map im_names (sm_imports m)) (analyze_file ''a/Lib.RS'' sample_source) = Some [[''fmt'']]"
    by code_simp+
  then obtain m where m: "analyze_file ''a/Lib.RS'' sample_source = Some m" "map cs_name (sm_symbols m) = [''greet'']"
    "map im_names (sm_imports m) = [[''fmt'']]" by auto
  from analysis_is_located [OF m(1)] have "\<forall>i\<in>set (sm_imports m). cl_line (im_location i) \<le> sm_line_count m" by blast
  with m show ?thesis by (intro exI [of _ m] conjI)
qed

section \<open>Languages and extensions\<close>

lemma ends_with_rev: "ends_with s p \<longleftrightarrow> take (length p) (rev s) = rev p"
proof -
  have "ends_with s p \<longleftrightarrow> starts_with (rev s) (rev p)"
    unfolding ends_with_iff starts_with_iff by (metis rev_append rev_rev_ident)
  then show ?thesis by (simp add: starts_with_def)
qed

lemma to_lowercase_append: "to_lowercase (s @ t) = to_lowercase s @ to_lowercase t"
  by (simp add: to_lowercase_def)

text \<open>
  A file name is read by the table of extensions: with an extension of a language at its end, in whatever
  letters, it is a file of that language, and only with one of them.
\<close>

theorem filenames_follow_the_extensions:
  "(to_lowercase e \<in> set (extensions lang) \<longrightarrow> from_filename (stem @ ''.'' @ e) = Some lang)
   \<and> (from_filename path = Some lang \<longrightarrow> (\<exists>e\<in>set (extensions lang). ends_with (to_lowercase path) (''.'' @ e)))"
proof
  have dot: "to_lowercase (stem @ ''.'' @ e) = to_lowercase stem @ ''.'' @ to_lowercase e"
    by (simp add: to_lowercase_append) (simp add: to_lowercase_def lower_char_def)
  show "to_lowercase e \<in> set (extensions lang) \<longrightarrow> from_filename (stem @ ''.'' @ e) = Some lang"
    unfolding from_filename_def dot by (cases lang) (auto simp: ends_with_rev)
  show "from_filename path = Some lang \<longrightarrow> (\<exists>e\<in>set (extensions lang). ends_with (to_lowercase path) (''.'' @ e))"
    unfolding from_filename_def Let_def by (cases lang) (auto split: if_splits)
qed

theorem filenames_follow_the_extensions_witness:
  "from_filename (''src/Main'' @ ''.'' @ ''HPP'') = Some Cpp"
proof -
  have "to_lowercase ''HPP'' \<in> set (extensions Cpp)" by code_simp
  with filenames_follow_the_extensions [of "''HPP''" Cpp "''src/Main''" "[]"] show ?thesis by blast
qed

section \<open>Declarations that the parsers miss\<close>

lemma trim_Nil [simp]: "trim [] = []"
  by (simp add: trim_def trim_start_def trim_end_def)

text \<open>
  What the parsers make of common declarations. A Go method, whose line begins with its receiver, is reported as a
  private function without a name; a Swift function is always internal, since one with \<open>public\<close> in front
  is not seen at all; and a C function whose name holds the letters \<open>if\<close> or \<open>return\<close> is not reported.
\<close>

theorem declarations_misread:
  "go_symbol (''func ('' @ r) ln path = [symbol [] Function Private (''func ('' @ r) ln path]
   \<and> (\<forall>s\<in>set (swift_symbol line ln path). cs_kind s = Function \<longrightarrow> cs_visibility s = Internal)
   \<and> swift_symbol (''public func '' @ r) ln path = []
   \<and> c_symbol ''void notify(int x) {'' ln path = []"
proof (intro conjI)
  show "go_symbol (''func ('' @ r) ln path = [symbol [] Function Private (''func ('' @ r) ln path]"
    by (simp add: go_symbol_def strip_prefix_def before_def starts_upper_def)
  have "starts_with line ''public '' \<or> starts_with line ''private '' \<Longrightarrow> strip_prefix ''func '' line = None"
    by (auto simp: starts_with_iff strip_prefix_def)
  then show "\<forall>s\<in>set (swift_symbol line ln path). cs_kind s = Function \<longrightarrow> cs_visibility s = Internal"
    by (auto simp: swift_symbol_def split: option.splits)
  show "swift_symbol (''public func '' @ r) ln path = []"
    by (simp add: swift_symbol_def strip_prefix_def)
  show "c_symbol ''void notify(int x) {'' ln path = []"
    by (simp add: c_symbol_def ends_with_def starts_with_def before_def after_last_def trim_def trim_start_def trim_end_def
        is_whitespace_def str_contains_def)
qed

theorem declarations_misread_witness:
  "\<forall>s\<in>set (swift_symbol ''func login() {}'' 4 ''app.swift''). cs_kind s = Function \<longrightarrow> cs_visibility s = Internal"
  using declarations_misread by blast

end
