(* ===== verification/Repo_Analysis.thy ===== *)
theory Repo_Analysis
  imports Repo_Parser "HOL-Library.Multiset"
begin

text \<open>
  \<^verbatim>\<open>src/crates/repo-intel/src/analysis.rs\<close> and \<^verbatim>\<open>lib.rs\<close>: the call graph, the control flow graph of a body and
  the engine. The order in which the code walks its table of languages is an argument.
\<close>

section \<open>The call graph\<close>

record call_node =
  cn_name :: string
  cn_file :: string
  cn_line :: nat

record call_graph =
  cg_nodes :: "call_node list"
  cg_edges :: "(nat \<times> nat) list"

definition cg_build :: "source_module list \<Rightarrow> call_graph" where
  "cg_build ms =
     \<lparr>cg_nodes = concat (map (\<lambda>m. map (\<lambda>s.
        \<lparr>cn_name = cs_name s, cn_file = sm_path m, cn_line = cl_line (cs_location s)\<rparr>) (sm_symbols m)) ms),
      cg_edges = []\<rparr>"

fun node_position :: "string \<Rightarrow> call_node list \<Rightarrow> nat option" where
  "node_position name [] = None"
| "node_position name (n # ns) = (if cn_name n = name then Some 0 else map_option Suc (node_position name ns))"

definition add_call :: "string \<Rightarrow> string \<Rightarrow> call_graph \<Rightarrow> call_graph" where
  "add_call caller callee g =
     (case (node_position caller (cg_nodes g), node_position callee (cg_nodes g)) of
        (Some c, Some d) \<Rightarrow> if (c, d) \<in> set (cg_edges g) then g else g\<lparr>cg_edges := cg_edges g @ [(c, d)]\<rparr>
      | _ \<Rightarrow> g)"

definition cg_node_count :: "call_graph \<Rightarrow> nat" where
  "cg_node_count g = length (cg_nodes g)"

definition cg_edge_count :: "call_graph \<Rightarrow> nat" where
  "cg_edge_count g = length (cg_edges g)"

definition named :: "call_graph \<Rightarrow> string \<Rightarrow> nat \<Rightarrow> bool" where
  "named g name i \<longleftrightarrow> i < length (cg_nodes g) \<and> cn_name (cg_nodes g ! i) = name"

definition node_at :: "call_graph \<Rightarrow> nat \<Rightarrow> call_node option" where
  "node_at g i = (if i < length (cg_nodes g) then Some (cg_nodes g ! i) else None)"

definition callers_of :: "call_graph \<Rightarrow> string \<Rightarrow> call_node list" where
  "callers_of g name = List.map_filter (\<lambda>(a, b). node_at g a) (filter (\<lambda>(a, b). named g name b) (cg_edges g))"

definition callees_of :: "call_graph \<Rightarrow> string \<Rightarrow> call_node list" where
  "callees_of g name = List.map_filter (\<lambda>(a, b). node_at g b) (filter (\<lambda>(a, b). named g name a) (cg_edges g))"

section \<open>The control flow graph\<close>

datatype block_kind = Entry | Exit | Statement | Conditional | Loop | Branch

record basic_block =
  bb_id :: nat
  bb_label :: string
  bb_start_line :: nat
  bb_end_line :: nat
  bb_kind :: block_kind

record control_flow_graph =
  cf_function_name :: string
  cf_blocks :: "basic_block list"
  cf_jumps :: "(nat \<times> nat) list"

definition block :: "nat \<Rightarrow> string \<Rightarrow> nat \<Rightarrow> block_kind \<Rightarrow> basic_block" where
  "block i label ln kind = \<lparr>bb_id = i, bb_label = label, bb_start_line = ln, bb_end_line = ln, bb_kind = kind\<rparr>"

text \<open>The state of the loop over the lines: blocks, jumps, the next block and the block before.\<close>

record cfg_state =
  st_blocks :: "basic_block list"
  st_jumps :: "(nat \<times> nat) list"
  st_next :: nat
  st_prev :: nat

definition push_block :: "string \<Rightarrow> nat \<Rightarrow> block_kind \<Rightarrow> cfg_state \<Rightarrow> cfg_state" where
  "push_block prefix_text ln kind s =
     s\<lparr>st_blocks := st_blocks s @ [block (st_next s) (prefix_text @ show_nat (st_next s)) ln kind],
       st_jumps := st_jumps s @ [(st_prev s, st_next s)],
       st_prev := st_next s, st_next := st_next s + 1\<rparr>"

definition cfg_line :: "nat \<Rightarrow> string \<Rightarrow> cfg_state \<Rightarrow> cfg_state" where
  "cfg_line ln raw s =
     (let line = trim raw in
      if starts_with line ''if '' \<or> starts_with line ''else if ''
      then push_block ''then_'' ln Branch (push_block ''if_'' ln Conditional s)
      else if starts_with line ''else'' then push_block ''else_'' ln Branch s
      else if starts_with line ''for '' \<or> starts_with line ''while '' \<or> starts_with line ''loop''
      then (let s' = push_block ''loop_'' ln Loop s
            in s'\<lparr>st_jumps := st_jumps s' @ [(st_prev s', st_prev s')]\<rparr>)
      else if starts_with line ''return'' \<or> starts_with line ''break'' \<or> starts_with line ''continue''
      then push_block ''exit_'' ln Exit s
      else s)"

definition cfg_build :: "string \<Rightarrow> string \<Rightarrow> nat \<Rightarrow> control_flow_graph" where
  "cfg_build function_name body start_line =
     (let entry = \<lparr>st_blocks = [block 0 ''entry'' start_line Entry], st_jumps = [], st_next = 1, st_prev = 0\<rparr>;
          s = fold (\<lambda>(i, line). cfg_line (start_line + i) line) (enumerate 0 (str_lines body)) entry
      in \<lparr>cf_function_name = function_name,
          cf_blocks = st_blocks s @ [block (st_next s) ''exit'' (start_line + length (str_lines body)) Exit],
          cf_jumps = st_jumps s @ [(st_prev s, st_next s)]\<rparr>)"

definition block_count :: "control_flow_graph \<Rightarrow> nat" where
  "block_count g = length (cf_blocks g)"

definition jump_count :: "control_flow_graph \<Rightarrow> nat" where
  "jump_count g = length (cf_jumps g)"

definition cyclomatic_complexity :: "control_flow_graph \<Rightarrow> nat" where
  "cyclomatic_complexity g =
     (if block_count g = 0 then 1 else max 1 (jump_count g + 2 - block_count g))"

section \<open>The engine\<close>

record file_analysis =
  fa_module :: source_module
  fa_cfg :: "control_flow_graph option"

record repository_analysis =
  ra_workspace :: workspace
  ra_cfgs :: "control_flow_graph list"
  ra_call_graph :: call_graph
  ra_total_lines :: nat
  ra_file_count :: nat

record repo_intel =
  ri_workspace :: workspace
  ri_call_graph :: call_graph
  ri_cfgs :: "control_flow_graph list"

definition ri_new :: repo_intel where
  "ri_new = \<lparr>ri_workspace = \<lparr>wk_root = [], wk_packages = []\<rparr>,
     ri_call_graph = \<lparr>cg_nodes = [], cg_edges = []\<rparr>, ri_cfgs = []\<rparr>"

definition ri_analyze_file :: "string \<Rightarrow> string \<Rightarrow> repo_intel \<Rightarrow> file_analysis option \<times> repo_intel" where
  "ri_analyze_file path content r =
     (case analyze_file path content of
        None \<Rightarrow> (None, r)
      | Some m \<Rightarrow>
          (let packages = wk_packages (ri_workspace r) @
                 [\<lparr>pk_name = after_last ''/'' (sm_path m), pk_language = sm_language m, pk_modules = [m],
                   pk_total_lines = sm_line_count m\<rparr>]
           in (Some \<lparr>fa_module = m, fa_cfg = None\<rparr>,
               r\<lparr>ri_workspace := (ri_workspace r)\<lparr>wk_packages := packages\<rparr>,
                 ri_call_graph := cg_build (concat (map pk_modules packages))\<rparr>)))"

definition group_modules :: "source_module list \<Rightarrow> (language \<times> source_module list) list" where
  "group_modules ms =
     fold (\<lambda>m t. AList.update (sm_language m) (unwrap_or [] (map_of t (sm_language m)) @ [m]) t) ms []"

definition ri_analyze_package ::
  "((language \<times> source_module list) list \<Rightarrow> (language \<times> source_module list) list) \<Rightarrow>
   (string \<times> string) list \<Rightarrow> repo_intel \<Rightarrow> repo_intel" where
  "ri_analyze_package walk files r =
     (let ms = List.map_filter (\<lambda>(path, content). analyze_file path content) files
      in r\<lparr>ri_call_graph := cg_build ms,
           ri_workspace := \<lparr>wk_root = ''workspace'',
             wk_packages = map (\<lambda>(lang, mods).
               \<lparr>pk_name = to_lowercase (language_name lang) @ ''-package'', pk_language = lang, pk_modules = mods,
                 pk_total_lines = sum_list (map sm_line_count mods)\<rparr>) (walk (group_modules ms))\<rparr>\<rparr>)"

definition ri_report :: "repo_intel \<Rightarrow> repository_analysis" where
  "ri_report r =
     \<lparr>ra_workspace = ri_workspace r, ra_cfgs = ri_cfgs r, ra_call_graph = ri_call_graph r,
      ra_total_lines = sum_list (map pk_total_lines (wk_packages (ri_workspace r))),
      ra_file_count = sum_list (map (\<lambda>p. length (pk_modules p)) (wk_packages (ri_workspace r)))\<rparr>"

section \<open>The control flow graph is a line\<close>

text \<open>Blocks numbered in order, a jump from each to the next, and a jump to itself at each loop.\<close>

definition is_line :: "basic_block list \<Rightarrow> (nat \<times> nat) list \<Rightarrow> bool" where
  "is_line bs js \<longleftrightarrow> bs \<noteq> [] \<and> map bb_id bs = [0..<length bs]
     \<and> set js = {(i, Suc i) |i. Suc i < length bs} \<union> {(i, i) |i. i < length bs \<and> bb_kind (bs ! i) = Loop}
     \<and> length js = length bs - 1 + length (filter (\<lambda>b. bb_kind b = Loop) bs)"

definition line_state :: "cfg_state \<Rightarrow> bool" where
  "line_state s \<longleftrightarrow> is_line (st_blocks s) (st_jumps s) \<and> st_next s = length (st_blocks s)
     \<and> st_prev s = length (st_blocks s) - 1"

lemma is_line_step:
  assumes "is_line bs js" "kind \<noteq> Loop"
  shows "is_line (bs @ [block (length bs) l ln kind]) (js @ [(length bs - 1, length bs)])"
  using assms unfolding is_line_def
  by (auto simp: nth_append block_def less_Suc_eq)

lemma is_line_loop:
  assumes "is_line bs js"
  shows "is_line (bs @ [block (length bs) l ln Loop]) (js @ [(length bs - 1, length bs), (length bs, length bs)])"
  using assms unfolding is_line_def
  by (auto simp: nth_append block_def less_Suc_eq)

lemma push_block_line: "line_state s \<Longrightarrow> kind \<noteq> Loop \<Longrightarrow> line_state (push_block l ln kind s)"
  using is_line_step [of "st_blocks s" "st_jumps s" kind] by (simp add: line_state_def push_block_def)

lemma cfg_line_line:
  assumes "line_state s"
  shows "line_state (cfg_line ln raw s)"
proof -
  have "line_state ((push_block l ln Loop s)\<lparr>st_jumps := st_jumps (push_block l ln Loop s)
      @ [(st_prev (push_block l ln Loop s), st_prev (push_block l ln Loop s))]\<rparr>)" for l
    using assms is_line_loop [of "st_blocks s" "st_jumps s"] by (simp add: line_state_def push_block_def)
  with assms push_block_line show ?thesis unfolding cfg_line_def Let_def
    by (auto split: if_splits)
qed

lemma cfg_lines_line: "line_state s \<Longrightarrow> line_state (fold (\<lambda>(i, line). cfg_line (n + i) line) xs s)"
  by (induction xs arbitrary: s) (auto intro: cfg_line_line)

lemma line_end:
  "line_state s \<Longrightarrow> is_line (st_blocks s @ [block (st_next s) l ln Exit]) (st_jumps s @ [(st_prev s, st_next s)])"
  using is_line_step [of "st_blocks s" "st_jumps s" Exit l ln] by (simp add: line_state_def)

lemma cfg_build_line: "is_line (cf_blocks (cfg_build name body n)) (cf_jumps (cfg_build name body n))"
proof -
  have "line_state \<lparr>st_blocks = [block 0 ''entry'' n Entry], st_jumps = [], st_next = 1, st_prev = 0\<rparr>"
    by (simp add: line_state_def is_line_def block_def)
  from line_end [OF cfg_lines_line [OF this, of n "enumerate 0 (str_lines body)"]] show ?thesis
    unfolding cfg_build_def Let_def by simp
qed

text \<open>
  C35. The control flow graph of a function is a line. Its blocks are numbered in the order of the text and jump
  each to the next, a loop also to itself, and there is no other jump: no condition is ever jumped over, an
  \<open>else\<close> follows the branch it excludes, a \<open>return\<close> goes on. So the cyclomatic complexity is one more
  than the number of loops, whatever the conditions.
\<close>

theorem control_flow_graph_is_a_line:
  "map bb_id (cf_blocks (cfg_build name body n)) = [0..<block_count (cfg_build name body n)]
   \<and> set (cf_jumps (cfg_build name body n)) = {(i, Suc i) |i. Suc i < block_count (cfg_build name body n)}
        \<union> {(i, i) |i. i < block_count (cfg_build name body n) \<and> bb_kind (cf_blocks (cfg_build name body n) ! i) = Loop}
   \<and> cyclomatic_complexity (cfg_build name body n) =
        1 + length (filter (\<lambda>b. bb_kind b = Loop) (cf_blocks (cfg_build name body n)))"
proof -
  have l: "is_line (cf_blocks (cfg_build name body n)) (cf_jumps (cfg_build name body n))" by (rule cfg_build_line)
  let ?b = "block_count (cfg_build name body n)" and ?l = "length (filter (\<lambda>b. bb_kind b = Loop) (cf_blocks (cfg_build name body n)))"
  have pos: "0 < ?b" and jumps: "jump_count (cfg_build name body n) = ?b - 1 + ?l"
    using l by (simp_all add: is_line_def block_count_def jump_count_def)
  then have "cyclomatic_complexity (cfg_build name body n) = 1 + ?l" by (simp add: cyclomatic_complexity_def)
  with l show ?thesis unfolding is_line_def block_count_def by blast
qed

text \<open>Two conditions, each with an \<open>else\<close>, and a return: complexity one.\<close>

lemma conditions_do_not_count:
  "cyclomatic_complexity (cfg_build ''f'' (''if a {'' @ [CHR 10] @ ''else {'' @ [CHR 10] @ ''if b {'' @ [CHR 10] @ ''return'') 1) = 1"
  by code_simp

section \<open>The report of the engine\<close>

datatype repo_op = AnalyzeFile string string | AnalyzePackage "(string \<times> string) list"

fun repo_step :: "((language \<times> source_module list) list \<Rightarrow> (language \<times> source_module list) list) \<Rightarrow>
    repo_op \<Rightarrow> repo_intel \<Rightarrow> repo_intel" where
  "repo_step walk (AnalyzeFile path content) r = snd (ri_analyze_file path content r)"
| "repo_step walk (AnalyzePackage files) r = ri_analyze_package walk files r"

text \<open>The modules that the workspace holds after the operations: a package replaces what was there, a file is added.\<close>

fun modules_after :: "repo_op list \<Rightarrow> source_module list \<Rightarrow> source_module list" where
  "modules_after [] ms = ms"
| "modules_after (AnalyzeFile path content # ops) ms =
     modules_after ops (ms @ (case analyze_file path content of None \<Rightarrow> [] | Some m \<Rightarrow> [m]))"
| "modules_after (AnalyzePackage files # ops) ms =
     modules_after ops (List.map_filter (\<lambda>(path, content). analyze_file path content) files)"

definition workspace_modules :: "repo_intel \<Rightarrow> source_module list" where
  "workspace_modules r = concat (map pk_modules (wk_packages (ri_workspace r)))"

definition repo_ok :: "repo_intel \<Rightarrow> bool" where
  "repo_ok r \<longleftrightarrow> ri_cfgs r = [] \<and> cg_edges (ri_call_graph r) = []
     \<and> (\<forall>p\<in>set (wk_packages (ri_workspace r)). pk_total_lines p = sum_list (map sm_line_count (pk_modules p)))
     \<and> mset (cg_nodes (ri_call_graph r)) = mset (cg_nodes (cg_build (workspace_modules r)))"

lemma grouped_modules: "mset (concat (map snd (group_modules ms))) = mset ms"
proof -
  have upd: "mset (concat (map snd (AList.update k (unwrap_or [] (map_of t k) @ [m]) t)))
      = add_mset m (mset (concat (map snd t)))" for k t and m :: source_module
    by (induction t) auto
  have "mset (concat (map snd (fold (\<lambda>m t. AList.update (sm_language m) (unwrap_or [] (map_of t (sm_language m)) @ [m]) t) ms t)))
      = mset ms + mset (concat (map snd t))" for t
    by (induction ms arbitrary: t) (simp_all add: upd)
  then show ?thesis by (simp add: group_modules_def)
qed

lemma mset_concat_perm: "mset xs = mset ys \<Longrightarrow> mset (concat (map f xs)) = mset (concat (map f ys))"
proof -
  assume "mset xs = mset ys"
  then have "sum_mset (image_mset (\<lambda>x. mset (f x)) (mset xs)) = sum_mset (image_mset (\<lambda>x. mset (f x)) (mset ys))" by simp
  moreover have "mset (concat (map f zs)) = sum_mset (image_mset (\<lambda>x. mset (f x)) (mset zs))" for zs
    by (induction zs) simp_all
  ultimately show ?thesis by simp
qed

lemma cg_nodes_mset: "mset ms = mset ms' \<Longrightarrow> mset (cg_nodes (cg_build ms)) = mset (cg_nodes (cg_build ms'))"
  unfolding cg_build_def call_graph.simps by (rule mset_concat_perm)

lemma package_modules:
  assumes "\<And>xs. mset (walk xs) = mset xs"
  shows "mset (workspace_modules (ri_analyze_package walk files r))
    = mset (List.map_filter (\<lambda>(path, content). analyze_file path content) files)"
proof -
  let ?ms = "List.map_filter (\<lambda>(path, content). analyze_file path content) files"
  have "workspace_modules (ri_analyze_package walk files r) = concat (map snd (walk (group_modules ?ms)))"
    by (simp add: workspace_modules_def ri_analyze_package_def Let_def comp_def split_beta)
  also have "mset \<dots> = mset (concat (map snd (group_modules ?ms)))" by (rule mset_concat_perm [OF assms])
  finally show ?thesis by (simp only: grouped_modules)
qed

lemma file_modules:
  "workspace_modules (snd (ri_analyze_file path content r)) =
   workspace_modules r @ (case analyze_file path content of None \<Rightarrow> [] | Some m \<Rightarrow> [m])"
  by (simp add: workspace_modules_def ri_analyze_file_def Let_def split: option.split)

lemma repo_step_ok:
  assumes "\<And>xs. mset (walk xs) = mset xs" and "repo_ok r"
  shows "repo_ok (repo_step walk op r)"
proof (cases op)
  case (AnalyzeFile path content)
  with assms(2) show ?thesis
    by (auto simp: repo_ok_def ri_analyze_file_def Let_def workspace_modules_def cg_build_def split: option.splits)
next
  case (AnalyzePackage files)
  have "mset (cg_nodes (cg_build (List.map_filter (\<lambda>(path, content). analyze_file path content) files)))
      = mset (cg_nodes (cg_build (workspace_modules (ri_analyze_package walk files r))))"
    by (rule cg_nodes_mset) (simp only: package_modules [OF assms(1)])
  with assms(2) AnalyzePackage show ?thesis
    by (auto simp: repo_ok_def) (auto simp: ri_analyze_package_def Let_def cg_build_def)
qed

lemma repo_run_ok:
  "(\<And>xs. mset (walk xs) = mset xs) \<Longrightarrow> repo_ok r \<Longrightarrow> repo_ok (fold (repo_step walk) ops r)"
  by (induction ops arbitrary: r) (simp_all add: repo_step_ok)

lemma repo_run_modules:
  assumes "\<And>xs. mset (walk xs) = mset xs"
  shows "mset (workspace_modules r) = mset ms \<Longrightarrow>
    mset (workspace_modules (fold (repo_step walk) ops r)) = mset (modules_after ops ms)"
proof (induction ops arbitrary: r ms)
  case (Cons op ops)
  show ?case
  proof (cases op)
    case (AnalyzeFile path content)
    with Cons show ?thesis by (simp add: file_modules)
  next
    case (AnalyzePackage files)
    have "mset (workspace_modules (ri_analyze_package walk files r)) = mset (List.map_filter (\<lambda>(path, content). analyze_file path content) files)"
      by (rule package_modules [OF assms])
    from Cons.IH [OF this] AnalyzePackage show ?thesis by simp
  qed
qed simp

text \<open>
  What a report says. After any analyses of files and packages, in whatever order the code walks its table, the
  report counts the files that were recognised since the last package, that package included, and their lines; the call
  graph has one node for each symbol of them. But the call graph has no edge, nobody calls or is called, and there
  are no control flow graphs.
\<close>

theorem report_counts_the_modules:
  assumes "\<And>xs. mset (walk xs) = mset xs"
  shows "case ri_report (fold (repo_step walk) ops ri_new) of r \<Rightarrow>
    ra_file_count r = length (modules_after ops [])
    \<and> ra_total_lines r = sum_list (map sm_line_count (modules_after ops []))
    \<and> cg_node_count (ra_call_graph r) = sum_list (map (\<lambda>m. length (sm_symbols m)) (modules_after ops []))
    \<and> cg_edge_count (ra_call_graph r) = 0 \<and> callers_of (ra_call_graph r) name = [] \<and> callees_of (ra_call_graph r) name = []
    \<and> ra_cfgs r = []"
proof -
  let ?r = "fold (repo_step walk) ops ri_new" and ?ms = "modules_after ops []"
  have "repo_ok ri_new" by (simp add: repo_ok_def ri_new_def workspace_modules_def cg_build_def)
  then have ok: "repo_ok ?r" by (rule repo_run_ok [OF assms])
  have "mset (workspace_modules ri_new) = mset []" by (simp add: workspace_modules_def ri_new_def)
  from repo_run_modules [OF assms this] have ms: "mset (workspace_modules ?r) = mset ?ms" .
  have sums: "sum_list (map f (workspace_modules ?r)) = sum_list (map f ?ms)" for f :: "source_module \<Rightarrow> nat"
    using arg_cong [OF ms, of "\<lambda>M. sum_mset (image_mset f M)"] by (simp flip: mset_map add: sum_mset_sum_list)
  have nodes: "length (cg_nodes (cg_build xs)) = sum_list (map (\<lambda>m. length (sm_symbols m)) xs)" for xs
    by (induction xs) (simp_all add: cg_build_def)
  have total: "sum_list (map pk_total_lines ps) = sum_list (map sm_line_count (concat (map pk_modules ps)))"
    if "\<forall>p\<in>set ps. pk_total_lines p = sum_list (map sm_line_count (pk_modules p))" for ps
    using that by (induction ps) simp_all
  have counted: "\<forall>p\<in>set (wk_packages (ri_workspace ?r)). pk_total_lines p = sum_list (map sm_line_count (pk_modules p))"
    and edges: "cg_edges (ri_call_graph ?r) = []" and cfgs: "ri_cfgs ?r = []"
    and nodes_eq: "mset (cg_nodes (ri_call_graph ?r)) = mset (cg_nodes (cg_build (workspace_modules ?r)))"
    using ok unfolding repo_ok_def by blast+
  have lines: "ra_total_lines (ri_report ?r) = sum_list (map sm_line_count (workspace_modules ?r))"
    using total [OF counted] by (simp only: ri_report_def workspace_modules_def repository_analysis.simps)
  have files: "ra_file_count (ri_report ?r) = length (workspace_modules ?r)"
    by (simp add: ri_report_def workspace_modules_def length_concat comp_def)
  have count: "cg_node_count (ri_call_graph ?r) = length (cg_nodes (cg_build (workspace_modules ?r)))"
    using mset_eq_length [OF nodes_eq] by (simp only: cg_node_count_def)
  have len: "length (workspace_modules ?r) = length ?ms" using ms by (rule mset_eq_length)
  have rep: "ra_call_graph (ri_report ?r) = ri_call_graph ?r" "ra_cfgs (ri_report ?r) = ri_cfgs ?r"
    by (simp_all only: ri_report_def repository_analysis.simps)
  have "cg_edge_count (ri_call_graph ?r) = 0" "callers_of (ri_call_graph ?r) name = []" "callees_of (ri_call_graph ?r) name = []"
    by (simp_all only: edges cg_edge_count_def callers_of_def callees_of_def filter.simps List.map_filter_simps list.size)
  then show ?thesis by (simp only: rep files len lines sums count nodes cfgs)
qed

definition sample_repo :: "repo_op list" where
  "sample_repo = [AnalyzeFile ''a.lua'' ''function f()'', AnalyzePackage [(''b.py'', ''def g():''), (''README'', [])], AnalyzeFile ''b.py'' ''def g():'']"

theorem report_counts_the_modules_witness:
  "ra_file_count (ri_report (fold (repo_step rev) sample_repo ri_new)) = 2
   \<and> cg_edge_count (ra_call_graph (ri_report (fold (repo_step rev) sample_repo ri_new))) = 0"
proof -
  have "length (modules_after sample_repo []) = 2" by code_simp
  with report_counts_the_modules [of rev sample_repo "[]"] show ?thesis by simp
qed

end
