(* ===== verification/Tdxl_Syntax.thy ===== *)
theory Tdxl_Syntax
  imports Floats "HOL-Library.Char_ord"
begin

text \<open>
  The front end of the TDXL query language, \<open>src/crates/tdxl/src\<close>: tokens (\<open>token.rs\<close>), the
  lexer (\<open>lexer.rs\<close>), the syntax tree (\<open>ast.rs\<close>) and the parser (\<open>parser.rs\<close>). The lexer's
  \<open>Vec<char>\<close> is a list of code points; the model has those below 256, one \<open>char\<close> each. The
  message of an error is a constructor with the values the code formats into the text. The
  lemmas show that lexing ends and closes its output with the only end-of-file token, that
  escaped strings are read back, that the parser never indexes its tokens out of range, and
  that it accepts every program in the form the language prints it.
\<close>

section \<open>Tokens\<close>

datatype token =
    TFrom | TMatch | TWhere | TTraverse | TDepth | TSummarize | TInfer | TCorrelate | TWith
  | TSimilar | TTo | TClassify | TAs | TTimeline | TSort | TBy | TAsc | TDesc | TLimit | TStore
  | TExport | TLoad | TFilter | TAnd | TOr | TNot
  | TInteger i64 | TFloat f64 | TStr string | TBool bool | TNull
  | TIdent string
  | TEq | TNeq | TGe | TLe | TGt | TLt | TAssign
  | TLParen | TRParen | TLBracket | TRBracket | TLBrace | TRBrace | TComma | TDot | TColon
  | TNewline | TEOF

datatype bin_op = BEq | BNeq | BGe | BLe | BGt | BLt | BAnd | BOr

type_synonym ptoken = "token \<times> nat \<times> nat"

section \<open>Values of the syntax tree\<close>

datatype tx_value = VInteger i64 | VFloat f64 | VString string | VBool bool | VNull | VIdent string

fun as_string :: "tx_value \<Rightarrow> string" where
  "as_string (VInteger v) = show_int (sint v)"
| "as_string (VFloat v) = f64_display v"
| "as_string (VString s) = s"
| "as_string (VBool b) = (if b then ''true'' else ''false'')"
| "as_string VNull = ''null''"
| "as_string (VIdent s) = s"

datatype bin_expr =
    BField string bin_op tx_value
  | BExpr bin_expr bin_op bin_expr
  | BValue tx_value

datatype sort_order = Asc | Desc

datatype stmt =
    SFrom tx_value
  | SMatch bin_expr
  | SWhere bin_expr
  | STraverse tx_value "u64 option"
  | SSummarize
  | SInfer tx_value
  | SCorrelate tx_value
  | SSimilar tx_value
  | SClassify tx_value
  | STimeline "tx_value option" "tx_value option"
  | SSort tx_value sort_order
  | SLimit u64
  | SStore tx_value
  | SExport tx_value
  | SLoad tx_value
  | SFilter bin_expr

section \<open>Errors\<close>

datatype lex_message =
    UnexpectedBang | UnexpectedChar char | UnterminatedEscape | UnterminatedString
  | UnterminatedRawString

datatype parse_message =
    UnexpectedToken token | LimitNeedsInteger tx_value | ExpectedBinOp token | ExpectedValue token
  | ExpectedToken token token

datatype tx_error =
    LexError nat nat lex_message | ParseError nat nat parse_message | CompileError string

text \<open>A parser operation either fails with an error of the code or panics on an index.\<close>

datatype tx_fault = TxPanic | TxErr tx_error

section \<open>The lexer\<close>

record lexer =
  lx_chars :: string
  lx_pos :: nat
  lx_line :: nat
  lx_col :: nat

definition lx_new :: "string \<Rightarrow> lexer" where
  "lx_new input = \<lparr>lx_chars = input, lx_pos = 0, lx_line = 1, lx_col = 1\<rparr>"

abbreviation newline :: char where
  "newline \<equiv> CHR 0x0A"

abbreviation dquote :: char where
  "dquote \<equiv> CHR 0x22"

abbreviation squote :: char where
  "squote \<equiv> CHR 0x27"

abbreviation backslash :: char where
  "backslash \<equiv> CHR 0x5C"

definition lx_peek :: "lexer \<Rightarrow> char option" where
  "lx_peek lx = nth_opt (lx_chars lx) (lx_pos lx)"

definition lx_advance :: "lexer \<Rightarrow> char option \<times> lexer" where
  "lx_advance lx =
     (case nth_opt (lx_chars lx) (lx_pos lx) of
        None \<Rightarrow> (None, lx)
      | Some c \<Rightarrow>
          (Some c,
           (if c = newline
            then lx\<lparr>lx_pos := Suc (lx_pos lx), lx_line := Suc (lx_line lx), lx_col := 1\<rparr>
            else lx\<lparr>lx_pos := Suc (lx_pos lx), lx_col := Suc (lx_col lx)\<rparr>)))"

definition lx_peek_nth :: "lexer \<Rightarrow> nat \<Rightarrow> char option" where
  "lx_peek_nth lx n = nth_opt (lx_chars lx) (lx_pos lx + n)"

text \<open>The characters still to be read: what the lexer's loops count down.\<close>

definition lx_left :: "lexer \<Rightarrow> nat" where
  "lx_left lx = length (lx_chars lx) - lx_pos lx"

lemma lx_advance_None: "fst (lx_advance lx) = None \<longleftrightarrow> lx_peek lx = None"
  by (auto simp: lx_advance_def lx_peek_def split: option.splits)

lemma lx_peek_left: "lx_peek lx = Some c \<Longrightarrow> 0 < lx_left lx"
  by (auto simp: lx_peek_def lx_left_def nth_opt_def split: if_splits)

lemma lx_advance_chars [simp]: "lx_chars (snd (lx_advance lx)) = lx_chars lx"
  by (auto simp: lx_advance_def split: option.splits)

lemma lx_advance_less: "lx_peek lx = Some c \<Longrightarrow> lx_left (snd (lx_advance lx)) < lx_left lx"
  by (auto simp: lx_advance_def lx_peek_def lx_left_def nth_opt_def split: option.splits if_splits)

lemma lx_advance_le [simp]: "lx_left (snd (lx_advance lx)) \<le> lx_left lx"
  by (auto simp: lx_advance_def lx_left_def split: option.splits)

lemma lx_advance_fst: "fst (lx_advance lx) = lx_peek lx"
  by (auto simp: lx_advance_def lx_peek_def split: option.splits)

text \<open>\<open>skip_whitespace\<close> and its inner loop over a comment.\<close>

function skip_comment :: "lexer \<Rightarrow> lexer" where
  "skip_comment lx =
     (case lx_peek lx of
        None \<Rightarrow> lx
      | Some c \<Rightarrow> if c = newline then lx else skip_comment (snd (lx_advance lx)))"
  by pat_completeness auto
termination
  by (relation "measure lx_left") (auto intro: lx_advance_less)

declare skip_comment.simps [simp del]

lemma skip_comment_le: "lx_left (skip_comment lx) \<le> lx_left lx"
proof (induction lx rule: skip_comment.induct)
  case (1 lx)
  show ?case
  proof (cases "lx_peek lx")
    case None
    then show ?thesis by (subst skip_comment.simps) simp
  next
    case (Some c)
    with 1 [of c] show ?thesis
      by (subst skip_comment.simps) (auto intro: order_trans [OF _ lx_advance_le])
  qed
qed

lemma skip_comment_at_newline:
  "lx_peek (skip_comment lx) = None \<or> lx_peek (skip_comment lx) = Some newline"
proof (induction lx rule: skip_comment.induct)
  case (1 lx)
  show ?case
  proof (cases "lx_peek lx")
    case None
    then show ?thesis by (subst (1 2) skip_comment.simps) simp
  next
    case (Some c)
    with 1 [of c] show ?thesis by (subst (1 2) skip_comment.simps) auto
  qed
qed

lemma skip_comment_less:
  assumes "lx_peek lx = Some c" and "c \<noteq> newline"
  shows "lx_left (skip_comment lx) < lx_left lx"
  using skip_comment_le [of "snd (lx_advance lx)"] lx_advance_less [OF assms(1)] assms
  by (subst skip_comment.simps) simp

function skip_whitespace :: "lexer \<Rightarrow> lexer" where
  "skip_whitespace lx =
     (case lx_peek lx of
        None \<Rightarrow> lx
      | Some c \<Rightarrow>
          if c = CHR '' '' \<or> c = CHR 0x09 \<or> c = CHR 0x0D then skip_whitespace (snd (lx_advance lx))
          else if c = CHR ''#'' then skip_whitespace (skip_comment lx)
          else lx)"
  by pat_completeness auto
termination
  by (relation "measure lx_left") (auto intro: lx_advance_less skip_comment_less)

declare skip_whitespace.simps [simp del]

lemma skip_whitespace_le: "lx_left (skip_whitespace lx) \<le> lx_left lx"
proof (induction lx rule: skip_whitespace.induct)
  case (1 lx)
  show ?case
  proof (cases "lx_peek lx")
    case None
    then show ?thesis by (subst skip_whitespace.simps) simp
  next
    case (Some c)
    with 1 [of c] show ?thesis
      by (subst skip_whitespace.simps)
        (auto intro: order_trans [OF _ lx_advance_le] order_trans [OF _ skip_comment_le])
  qed
qed


text \<open>\<open>char::is_alphanumeric\<close> on the code points below 256: the ASCII and Latin-1 letters, digits,
  superscript digits and fractions.\<close>

definition is_ascii_digit :: "char \<Rightarrow> bool" where
  "is_ascii_digit c \<longleftrightarrow> CHR ''0'' \<le> c \<and> c \<le> CHR ''9''"

definition is_ascii_alphabetic :: "char \<Rightarrow> bool" where
  "is_ascii_alphabetic c \<longleftrightarrow>
     (CHR ''a'' \<le> c \<and> c \<le> CHR ''z'') \<or> (CHR ''A'' \<le> c \<and> c \<le> CHR ''Z'')"

definition is_alphanumeric :: "char \<Rightarrow> bool" where
  "is_alphanumeric c \<longleftrightarrow>
     is_ascii_digit c \<or> is_ascii_alphabetic c \<or>
     c \<in> {CHR 0xAA, CHR 0xB2, CHR 0xB3, CHR 0xB5, CHR 0xB9, CHR 0xBA, CHR 0xBC, CHR 0xBD, CHR 0xBE} \<or>
     (CHR 0xC0 \<le> c \<and> c \<noteq> CHR 0xD7 \<and> c \<noteq> CHR 0xF7)"

text \<open>The loops of \<open>read_number\<close> and \<open>read_ident_or_keyword\<close>: the longest run of such characters.\<close>

function read_while :: "(char \<Rightarrow> bool) \<Rightarrow> string \<Rightarrow> lexer \<Rightarrow> string \<times> lexer" where
  "read_while P s lx =
     (case lx_peek lx of
        None \<Rightarrow> (s, lx)
      | Some c \<Rightarrow> if P c then read_while P (s @ [c]) (snd (lx_advance lx)) else (s, lx))"
  by pat_completeness auto
termination
  by (relation "measure (\<lambda>(P, s, lx). lx_left lx)") (auto intro: lx_advance_less)

declare read_while.simps [simp del]

lemma read_while_le: "lx_left (snd (read_while P s lx)) \<le> lx_left lx"
proof (induction P s lx rule: read_while.induct)
  case (1 P s lx)
  show ?case
  proof (cases "lx_peek lx")
    case None
    then show ?thesis by (subst read_while.simps) simp
  next
    case (Some c)
    with 1 [of c] show ?thesis
      by (subst read_while.simps) (auto intro: order_trans [OF _ lx_advance_le])
  qed
qed

lemma read_while_less:
  assumes "lx_peek lx = Some c" and "P c"
  shows "lx_left (snd (read_while P s lx)) < lx_left lx"
  using read_while_le [of P "s @ [c]" "snd (lx_advance lx)"] lx_advance_less [OF assms(1)] assms
  by (subst read_while.simps) simp

definition read_number :: "lexer \<Rightarrow> nat \<Rightarrow> nat \<Rightarrow> ptoken \<times> lexer" where
  "read_number lx line col =
     (let (s, lx') = read_while (\<lambda>c. is_ascii_digit c \<or> c = CHR ''.'') [] lx
      in if CHR ''.'' \<in> set s
         then ((TFloat (unwrap_or 0 (f64_parse s)), line, col), lx')
         else ((TInteger (unwrap_or 0 (i64_parse s)), line, col), lx'))"

definition unescape :: "char \<Rightarrow> char" where
  "unescape c =
     (if c = CHR ''n'' then newline else if c = CHR ''t'' then CHR 0x09
      else if c = CHR ''r'' then CHR 0x0D else c)"

text \<open>The loop of \<open>read_string\<close>, after the opening quote; the error has the lexer's position.\<close>

function string_loop :: "string \<Rightarrow> lexer \<Rightarrow> (tx_error, string \<times> lexer) result" where
  "string_loop s lx =
     (case lx_advance lx of
        (None, lx') \<Rightarrow> Inl (LexError (lx_line lx') (lx_col lx') UnterminatedString)
      | (Some c, lx') \<Rightarrow>
          if c = dquote then Inr (s, lx')
          else if c = backslash
          then (case lx_advance lx' of
                  (None, lx'') \<Rightarrow> Inl (LexError (lx_line lx'') (lx_col lx'') UnterminatedEscape)
                | (Some d, lx'') \<Rightarrow> string_loop (s @ [unescape d]) lx'')
          else string_loop (s @ [c]) lx')"
  by pat_completeness auto

lemma lx_advance_Some: "lx_advance lx = (Some c, lx') \<Longrightarrow> lx_left lx' < lx_left lx"
  using lx_advance_less [of lx c] lx_advance_fst [of lx] by simp

lemmas lx_advance_Some' = lx_advance_Some [OF sym]

termination string_loop
  by (relation "measure (\<lambda>(s, lx). lx_left lx)") (auto dest!: lx_advance_Some')

declare string_loop.simps [simp del]

definition read_string :: "lexer \<Rightarrow> nat \<Rightarrow> nat \<Rightarrow> (tx_error, ptoken \<times> lexer) result" where
  "read_string lx line col =
     rbind (string_loop [] (snd (lx_advance lx))) (\<lambda>(s, lx'). Inr ((TStr s, line, col), lx'))"

function raw_loop :: "string \<Rightarrow> lexer \<Rightarrow> (tx_error, string \<times> lexer) result" where
  "raw_loop s lx =
     (case lx_advance lx of
        (None, lx') \<Rightarrow> Inl (LexError (lx_line lx') (lx_col lx') UnterminatedRawString)
      | (Some c, lx') \<Rightarrow> if c = squote then Inr (s, lx') else raw_loop (s @ [c]) lx')"
  by pat_completeness auto
termination
  by (relation "measure (\<lambda>(s, lx). lx_left lx)") (auto dest!: lx_advance_Some')

declare raw_loop.simps [simp del]

definition read_raw_string :: "lexer \<Rightarrow> nat \<Rightarrow> nat \<Rightarrow> (tx_error, ptoken \<times> lexer) result" where
  "read_raw_string lx line col =
     rbind (raw_loop [] (snd (lx_advance lx))) (\<lambda>(s, lx'). Inr ((TStr s, line, col), lx'))"

lemma string_loop_le: "string_loop s lx = Inr (t, lx') \<Longrightarrow> lx_left lx' \<le> lx_left lx"
proof (induction s lx rule: string_loop.induct)
  case (1 s lx)
  obtain c y where a: "lx_advance lx = (Some c, y)"
    using 1(3) by (subst (asm) string_loop.simps) (auto split: prod.splits option.splits)
  note y = lx_advance_Some [OF a]
  show ?case
  proof (cases "c = backslash")
    case True
    obtain d z where b: "lx_advance y = (Some d, z)"
      using 1(3) a True by (subst (asm) string_loop.simps) (auto split: prod.splits option.splits)
    have "string_loop (s @ [unescape d]) z = Inr (t, lx')"
      using 1(3) a b True by (subst (asm) string_loop.simps) simp
    from 1(1) [OF a [symmetric] refl _ True b [symmetric] refl this] True
    show ?thesis using y lx_advance_Some [OF b] by simp
  next
    case False
    show ?thesis
    proof (cases "c = dquote")
      case True
      then show ?thesis using 1(3) a y by (subst (asm) string_loop.simps) simp
    next
      case quote: False
      have "string_loop (s @ [c]) y = Inr (t, lx')"
        using 1(3) a quote False by (subst (asm) string_loop.simps) simp
      from 1(2) [OF a [symmetric] refl quote False this] show ?thesis using y by simp
    qed
  qed
qed

lemma raw_loop_le: "raw_loop s lx = Inr (t, lx') \<Longrightarrow> lx_left lx' \<le> lx_left lx"
proof (induction s lx rule: raw_loop.induct)
  case (1 s lx)
  obtain c y where a: "lx_advance lx = (Some c, y)"
    using 1(2) by (subst (asm) raw_loop.simps) (auto split: prod.splits option.splits)
  note y = lx_advance_Some [OF a]
  show ?case
  proof (cases "c = squote")
    case True
    then show ?thesis using 1(2) a y by (subst (asm) raw_loop.simps) simp
  next
    case False
    have "raw_loop (s @ [c]) y = Inr (t, lx')"
      using 1(2) a False by (subst (asm) raw_loop.simps) simp
    from 1(1) [OF a [symmetric] refl False this] show ?thesis using y by simp
  qed
qed


text \<open>\<open>read_ident_or_keyword\<close>: each keyword in upper case, lower case and capitalised.\<close>

definition keyword_token :: "string \<Rightarrow> token" where
  "keyword_token s =
     (if s \<in> {''FROM'', ''from'', ''From''} then TFrom
      else if s \<in> {''MATCH'', ''match'', ''Match''} then TMatch
      else if s \<in> {''WHERE'', ''where'', ''Where''} then TWhere
      else if s \<in> {''TRAVERSE'', ''traverse'', ''Traverse''} then TTraverse
      else if s \<in> {''DEPTH'', ''depth'', ''Depth''} then TDepth
      else if s \<in> {''SUMMARIZE'', ''summarize'', ''Summarize''} then TSummarize
      else if s \<in> {''INFER'', ''infer'', ''Infer''} then TInfer
      else if s \<in> {''CORRELATE'', ''correlate'', ''Correlate''} then TCorrelate
      else if s \<in> {''WITH'', ''with'', ''With''} then TWith
      else if s \<in> {''SIMILAR'', ''similar'', ''Similar''} then TSimilar
      else if s \<in> {''TO'', ''to'', ''To''} then TTo
      else if s \<in> {''CLASSIFY'', ''classify'', ''Classify''} then TClassify
      else if s \<in> {''AS'', ''as'', ''As''} then TAs
      else if s \<in> {''TIMELINE'', ''timeline'', ''Timeline''} then TTimeline
      else if s \<in> {''SORT'', ''sort'', ''Sort''} then TSort
      else if s \<in> {''BY'', ''by'', ''By''} then TBy
      else if s \<in> {''ASC'', ''asc'', ''Asc''} then TAsc
      else if s \<in> {''DESC'', ''desc'', ''Desc''} then TDesc
      else if s \<in> {''LIMIT'', ''limit'', ''Limit''} then TLimit
      else if s \<in> {''STORE'', ''store'', ''Store''} then TStore
      else if s \<in> {''EXPORT'', ''export'', ''Export''} then TExport
      else if s \<in> {''LOAD'', ''load'', ''Load''} then TLoad
      else if s \<in> {''FILTER'', ''filter'', ''Filter''} then TFilter
      else if s \<in> {''AND'', ''and'', ''And''} then TAnd
      else if s \<in> {''OR'', ''or'', ''Or''} then TOr
      else if s \<in> {''NOT'', ''not'', ''Not''} then TNot
      else if s \<in> {''true'', ''True'', ''TRUE''} then TBool True
      else if s \<in> {''false'', ''False'', ''FALSE''} then TBool False
      else if s \<in> {''null'', ''Null'', ''NULL''} then TNull
      else TIdent s)"

definition read_ident_or_keyword :: "lexer \<Rightarrow> nat \<Rightarrow> nat \<Rightarrow> ptoken \<times> lexer" where
  "read_ident_or_keyword lx line col =
     (let (s, lx') = read_while (\<lambda>c. is_alphanumeric c \<or> c = CHR ''_'') [] lx
      in ((keyword_token s, line, col), lx'))"

definition lx_skip :: "nat \<Rightarrow> lexer \<Rightarrow> lexer" where
  "lx_skip n = (snd \<circ> lx_advance) ^^ n"

text \<open>The single characters, and the operators that look one character ahead.\<close>

definition delimiter :: "char \<Rightarrow> token option" where
  "delimiter c =
     (if c = CHR ''('' then Some TLParen else if c = CHR '')'' then Some TRParen
      else if c = CHR ''['' then Some TLBracket else if c = CHR '']'' then Some TRBracket
      else if c = CHR ''{'' then Some TLBrace else if c = CHR ''}'' then Some TRBrace
      else if c = CHR '','' then Some TComma else if c = CHR ''.'' then Some TDot
      else if c = CHR '':'' then Some TColon else None)"

definition read_operator :: "char \<Rightarrow> lexer \<Rightarrow> nat \<Rightarrow> nat \<Rightarrow> (tx_error, ptoken \<times> lexer) result" where
  "read_operator c lx line col =
     (let eq_next = (lx_peek_nth lx 1 = Some (CHR ''=''))
      in if c = CHR ''='' then
           (if eq_next then Inr ((TEq, line, col), lx_skip 2 lx)
            else Inr ((TAssign, line, col), lx_skip 1 lx))
         else if c = CHR ''!'' then
           (if eq_next then Inr ((TNeq, line, col), lx_skip 2 lx)
            else Inl (LexError line col UnexpectedBang))
         else if c = CHR ''>'' then
           (if eq_next then Inr ((TGe, line, col), lx_skip 2 lx)
            else Inr ((TGt, line, col), lx_skip 1 lx))
         else if c = CHR ''<'' then
           (if eq_next then Inr ((TLe, line, col), lx_skip 2 lx)
            else Inr ((TLt, line, col), lx_skip 1 lx))
         else Inl (LexError line col (UnexpectedChar c)))"

definition next_token :: "lexer \<Rightarrow> (tx_error, ptoken \<times> lexer) result" where
  "next_token lx0 =
     (let lx = skip_whitespace lx0; line = lx_line lx; col = lx_col lx
      in case lx_peek lx of
           None \<Rightarrow> Inr ((TEOF, line, col), lx)
         | Some c \<Rightarrow>
             if c = newline then Inr ((TNewline, line, col), lx_skip 1 lx)
             else if is_ascii_digit c then Inr (read_number lx line col)
             else if c = dquote then read_string lx line col
             else if c = squote then read_raw_string lx line col
             else if c = CHR ''_'' \<or> is_ascii_alphabetic c
             then Inr (read_ident_or_keyword lx line col)
             else (case delimiter c of
                     Some t \<Rightarrow> Inr ((t, line, col), lx_skip 1 lx)
                   | None \<Rightarrow> read_operator c lx line col))"

lemma lx_skip_le: "lx_left (lx_skip n lx) \<le> lx_left lx"
  by (induction n) (auto simp: lx_skip_def intro: order_trans [OF lx_advance_le])

lemma lx_skip_Suc_less: "lx_peek lx = Some c \<Longrightarrow> lx_left (lx_skip (Suc n) lx) < lx_left lx"
  using le_less_trans [OF lx_skip_le [of n "snd (lx_advance lx)"] lx_advance_less [of lx c]]
  by (simp add: lx_skip_def funpow_swap1)

lemma keyword_not_eof: "keyword_token s \<noteq> TEOF"
  by (simp add: keyword_token_def)

text \<open>
  Every token but the end of file takes at least one character, and only the end of the input
  gives the end of file.
\<close>

definition takes_input :: "lexer \<Rightarrow> ptoken \<times> lexer \<Rightarrow> bool" where
  "takes_input lx r \<longleftrightarrow> lx_left (snd r) < lx_left lx \<and> fst (fst r) \<noteq> TEOF"

lemma takes_input_simp [simp]:
  "takes_input lx ((t, p), lx') \<longleftrightarrow> lx_left lx' < lx_left lx \<and> t \<noteq> TEOF"
  by (simp add: takes_input_def)

lemma read_number_takes:
  assumes "lx_peek lx = Some c" and "is_ascii_digit c"
  shows "takes_input lx (read_number lx line col)"
  using read_while_less [OF assms(1), of "\<lambda>c. is_ascii_digit c \<or> c = CHR ''.''" "[]"] assms(2)
  by (simp add: read_number_def split_beta)

lemma alphabetic_is_alphanumeric: "is_ascii_alphabetic c \<Longrightarrow> is_alphanumeric c"
  by (simp only: is_alphanumeric_def simp_thms)

lemma read_ident_takes:
  assumes "lx_peek lx = Some c" and "c = CHR ''_'' \<or> is_ascii_alphabetic c"
  shows "takes_input lx (read_ident_or_keyword lx line col)"
proof -
  have "is_alphanumeric c \<or> c = CHR ''_''"
    using assms(2) alphabetic_is_alphanumeric [of c] by argo
  from read_while_less [where P = "\<lambda>c. is_alphanumeric c \<or> c = CHR ''_''", OF assms(1) this, of "[]"] show ?thesis
    by (simp add: read_ident_or_keyword_def takes_input_def keyword_not_eof split_beta)
qed

lemma read_string_takes:
  assumes "lx_peek lx = Some c" and "read_string lx line col = Inr r"
  shows "takes_input lx r"
  using assms(2) lx_advance_less [OF assms(1)]
  by (auto simp: read_string_def rbind_Inr_iff dest!: string_loop_le)

lemma read_raw_string_takes:
  assumes "lx_peek lx = Some c" and "read_raw_string lx line col = Inr r"
  shows "takes_input lx r"
  using assms(2) lx_advance_less [OF assms(1)]
  by (auto simp: read_raw_string_def rbind_Inr_iff dest!: raw_loop_le)

lemma read_operator_takes:
  assumes "lx_peek lx = Some d" and "read_operator c lx line col = Inr r"
  shows "takes_input lx r"
  using assms(2) lx_skip_Suc_less [OF assms(1), of 0] lx_skip_Suc_less [OF assms(1), of 1]
  by (auto simp: read_operator_def Let_def numeral_2_eq_2 split: if_splits)

lemma delimiter_takes:
  "lx_peek lx = Some d \<Longrightarrow> delimiter c = Some t \<Longrightarrow> takes_input lx ((t, p), lx_skip 1 lx)"
  using lx_skip_Suc_less [of lx d 0] by (auto simp: delimiter_def split: if_splits)

lemma if_eqE:
  assumes "(if b then x else y) = z"
  obtains (yes) "b" "x = z" | (no) "\<not> b" "y = z"
  using assms by (cases b) simp_all

lemma next_token_cases:
  assumes "next_token lx = Inr r" and c: "lx_peek (skip_whitespace lx) = Some c"
  shows "takes_input (skip_whitespace lx) r"
proof -
  have nl: "takes_input (skip_whitespace lx) ((TNewline, p), lx_skip 1 (skip_whitespace lx))" for p
    using lx_skip_Suc_less [OF c, of 0] by simp
  show ?thesis
    using assms(1) unfolding next_token_def Let_def c option.case
  proof (elim if_eqE)
    assume "is_ascii_digit c"
      and "Inr (read_number (skip_whitespace lx) (lx_line (skip_whitespace lx)) (lx_col (skip_whitespace lx))) = Inr r"
    then show ?thesis using read_number_takes [OF c] by blast
  next
    assume "c = CHR ''_'' \<or> is_ascii_alphabetic c"
      and "Inr (read_ident_or_keyword (skip_whitespace lx) (lx_line (skip_whitespace lx)) (lx_col (skip_whitespace lx))) = Inr r"
    then show ?thesis using read_ident_takes [OF c] by blast
  next
    assume "(case delimiter c of
        None \<Rightarrow> read_operator c (skip_whitespace lx) (lx_line (skip_whitespace lx)) (lx_col (skip_whitespace lx))
      | Some t \<Rightarrow> Inr ((t, lx_line (skip_whitespace lx), lx_col (skip_whitespace lx)), lx_skip 1 (skip_whitespace lx)))
        = Inr r"
    then show ?thesis
      using read_operator_takes [OF c] delimiter_takes [OF c] by (cases "delimiter c") auto
  qed (use nl read_string_takes [OF c] read_raw_string_takes [OF c] in blast)+
qed

lemma next_token_progress:
  assumes "next_token lx = Inr ((t, p), lx')"
  shows "(t = TEOF) = (lx_peek (skip_whitespace lx) = None)"
    and "t \<noteq> TEOF \<Longrightarrow> lx_left lx' < lx_left lx"
proof -
  have "(t = TEOF) = (lx_peek (skip_whitespace lx) = None) \<and> (t \<noteq> TEOF \<longrightarrow> lx_left lx' < lx_left lx)"
  proof (cases "lx_peek (skip_whitespace lx)")
    case None
    then show ?thesis using assms by (simp add: next_token_def Let_def)
  next
    case (Some c)
    then show ?thesis using next_token_cases [OF assms Some] skip_whitespace_le [of lx] by simp
  qed
  then show "(t = TEOF) = (lx_peek (skip_whitespace lx) = None)"
    and "t \<noteq> TEOF \<Longrightarrow> lx_left lx' < lx_left lx" by simp_all
qed

text \<open>\<open>tokenize\<close>.\<close>

function tokenize_loop :: "ptoken list \<Rightarrow> lexer \<Rightarrow> (tx_error, ptoken list) result" where
  "tokenize_loop tokens lx =
     (case next_token lx of
        Inl e \<Rightarrow> Inl e
      | Inr ((tok, p), lx') \<Rightarrow>
          if tok = TEOF then Inr (tokens @ [(TEOF, p)])
          else tokenize_loop (tokens @ [(tok, p)]) lx')"
  by pat_completeness auto
termination
  by (relation "measure (\<lambda>(tokens, lx). lx_left lx)", simp, clarsimp)
    (rule next_token_progress(2))

declare tokenize_loop.simps [simp del]

definition tokenize :: "string \<Rightarrow> (tx_error, ptoken list) result" where
  "tokenize source = tokenize_loop [] (lx_new source)"


section \<open>What the lexer accepts\<close>

lemma tokenize_loop_closes:
  "tokenize_loop acc lx = Inr ts \<Longrightarrow> \<forall>t \<in> set acc. fst t \<noteq> TEOF \<Longrightarrow>
   \<exists>ts' p. ts = ts' @ [(TEOF, p)] \<and> (\<forall>t \<in> set ts'. fst t \<noteq> TEOF)"
proof (induction acc lx rule: tokenize_loop.induct)
  case (1 acc lx)
  obtain t p lx' where n: "next_token lx = Inr ((t, p), lx')"
    using 1(2) by (subst (asm) tokenize_loop.simps) (auto split: sum.splits)
  show ?case
  proof (cases "t = TEOF")
    case True
    with 1(2,3) n show ?thesis by (subst (asm) tokenize_loop.simps) auto
  next
    case False
    with 1(2) n have "tokenize_loop (acc @ [(t, p)]) lx' = Inr ts"
      by (subst (asm) tokenize_loop.simps) simp
    from 1(1) [OF n refl refl False this] 1(3) False show ?thesis by simp
  qed
qed

text \<open>What is left to read, as a text.\<close>

definition lx_rest :: "lexer \<Rightarrow> string" where
  "lx_rest lx = drop (lx_pos lx) (lx_chars lx)"

lemma lx_rest_new [simp]: "lx_rest (lx_new s) = s"
  by (simp add: lx_rest_def lx_new_def)

lemma lx_peek_rest: "lx_peek lx = (case lx_rest lx of [] \<Rightarrow> None | c # _ \<Rightarrow> Some c)"
  by (auto simp: lx_peek_def lx_rest_def nth_opt_def hd_drop_conv_nth split: list.split)
    (metis hd_drop_conv_nth list.sel(1))

lemma lx_peek_nth_rest: "lx_peek_nth lx n = nth_opt (lx_rest lx) n"
  by (auto simp: lx_peek_nth_def lx_rest_def nth_opt_def)

lemma lx_rest_advance [simp]: "lx_rest (snd (lx_advance lx)) = tl (lx_rest lx)"
  by (auto simp: lx_advance_def lx_rest_def nth_opt_def drop_Suc tl_drop split: option.splits if_splits)

lemma lx_advance_rest: "lx_rest lx = c # r \<Longrightarrow> lx_advance lx = (Some c, snd (lx_advance lx))"
  using lx_advance_fst [of lx] by (simp add: lx_peek_rest prod_eq_iff)

lemma lx_rest_skip [simp]: "lx_rest (lx_skip n lx) = drop n (lx_rest lx)"
  by (induction n) (simp_all add: lx_skip_def tl_drop drop_Suc)

lemma read_while_rest:
  "fst (read_while P s lx) = s @ takeWhile P (lx_rest lx) \<and>
   lx_rest (snd (read_while P s lx)) = dropWhile P (lx_rest lx)"
proof (induction P s lx rule: read_while.induct)
  case (1 P s lx)
  show ?case
  proof (cases "lx_rest lx")
    case Nil
    then show ?thesis by (subst (1 2) read_while.simps) (simp add: lx_peek_rest)
  next
    case (Cons c r)
    with 1 [of c] show ?thesis by (subst (1 2) read_while.simps) (simp add: lx_peek_rest)
  qed
qed

text \<open>How a text is written inside double quotes so that the lexer reads it back.\<close>

definition escape_char :: "char \<Rightarrow> string" where
  "escape_char c =
     (if c = dquote \<or> c = backslash then [backslash, c]
      else if c = newline then [backslash, CHR ''n'']
      else if c = CHR 0x09 then [backslash, CHR ''t'']
      else if c = CHR 0x0D then [backslash, CHR ''r''] else [c])"

definition quoted :: "string \<Rightarrow> string" where
  "quoted s = dquote # concat (map escape_char s) @ [dquote]"

lemma string_loop_escape:
  assumes "lx_rest lx = escape_char c @ r"
  shows "\<exists>lx'. string_loop s lx = string_loop (s @ [c]) lx' \<and> lx_rest lx' = r"
proof (cases "length (escape_char c)")
  case (Suc n)
  show ?thesis
  proof (cases n)
    case 0
    with Suc have e: "escape_char c = [c]" "c \<noteq> dquote" "c \<noteq> backslash"
      by (simp_all add: escape_char_def split: if_splits)
    then have r: "lx_rest lx = c # r" using assms by simp
    show ?thesis
      by (subst string_loop.simps, subst lx_advance_rest [OF r])
        (use e r in \<open>auto intro: exI [of _ "snd (lx_advance lx)"]\<close>)
  next
    case (Suc m)
    with \<open>length (escape_char c) = Suc n\<close> obtain d where e: "escape_char c = [backslash, d]" "unescape d = c"
      by (auto simp: escape_char_def unescape_def split: if_splits)
    then have r: "lx_rest lx = backslash # d # r" using assms by simp
    then have r': "lx_rest (snd (lx_advance lx)) = d # r" by simp
    show ?thesis
      by (subst string_loop.simps, subst lx_advance_rest [OF r], simp, subst lx_advance_rest [OF r'])
        (use e r in \<open>auto intro: exI [of _ "snd (lx_advance (snd (lx_advance lx)))"]\<close>)
  qed
qed (simp add: escape_char_def split: if_splits)

lemma string_loop_quoted:
  "lx_rest lx = concat (map escape_char t) @ dquote # r \<Longrightarrow>
   \<exists>lx'. string_loop s lx = Inr (s @ t, lx') \<and> lx_rest lx' = r"
proof (induction t arbitrary: s lx)
  case Nil
  then have r: "lx_rest lx = dquote # r" by simp
  have "string_loop s lx = Inr (s @ [], snd (lx_advance lx))"
    by (subst string_loop.simps, subst lx_advance_rest [OF r]) simp
  then show ?case using r by (intro exI [of _ "snd (lx_advance lx)"]) simp
next
  case (Cons c t)
  then have "lx_rest lx = escape_char c @ concat (map escape_char t) @ dquote # r" by simp
  from string_loop_escape [OF this] obtain lx' where
    "string_loop s lx = string_loop (s @ [c]) lx'" "lx_rest lx' = concat (map escape_char t) @ dquote # r"
    by blast
  with Cons.IH [of lx' "s @ [c]"] show ?case by simp
qed


lemma next_token_string:
  assumes "lx_rest (skip_whitespace lx) = quoted s @ r"
  shows "\<exists>p lx'. next_token lx = Inr ((TStr s, p), lx') \<and> lx_rest lx' = r"
proof -
  have r: "lx_rest (skip_whitespace lx) = dquote # concat (map escape_char s) @ dquote # r"
    using assms by (simp add: quoted_def)
  then have "lx_rest (snd (lx_advance (skip_whitespace lx))) = concat (map escape_char s) @ dquote # r"
    by simp
  from string_loop_quoted [OF this, of "[]"] obtain lx'
    where "string_loop [] (snd (lx_advance (skip_whitespace lx))) = Inr (s, lx')" "lx_rest lx' = r"
    by auto
  moreover have "\<not> is_ascii_digit dquote" by code_simp
  ultimately show ?thesis
    using r by (simp add: next_token_def Let_def lx_peek_rest read_string_def)
qed

lemma skip_whitespace_blank:
  assumes "lx_rest lx = CHR '' '' # r"
    and "r = [] \<or> hd r \<notin> {CHR '' '', CHR 0x09, CHR 0x0D, CHR ''#''}"
  shows "lx_rest (skip_whitespace lx) = r"
proof -
  have "skip_whitespace (snd (lx_advance lx)) = snd (lx_advance lx)"
    using assms by (subst skip_whitespace.simps) (auto simp: lx_peek_rest split: list.split)
  moreover have "skip_whitespace lx = skip_whitespace (snd (lx_advance lx))"
    using assms(1) by (subst skip_whitespace.simps) (simp add: lx_peek_rest)
  ultimately show ?thesis using assms(1) by simp
qed

lemma skip_whitespace_end: "lx_rest lx = [] \<Longrightarrow> skip_whitespace lx = lx"
  by (subst skip_whitespace.simps) (simp add: lx_peek_rest)

text \<open>The decimal digits of a number are read back as that number.\<close>

lemma digits_value_snoc: "digits_value (s @ [c]) = digits_value s * 10 + digit_value c"
  by (simp add: digits_value_def)

lemma digit_value_char: "n < 10 \<Longrightarrow> digit_value (char_of (48 + n)) = int n"
  by (simp add: digit_value_def of_char_of take_bit_eq_mod)

lemma is_ascii_digit_char: "n < 10 \<Longrightarrow> is_ascii_digit (char_of (48 + n :: nat))"
  by (simp add: is_ascii_digit_def less_eq_char_def of_char_of take_bit_eq_mod)

lemma show_nat_digits: "(\<forall>c \<in> set (show_nat n). is_ascii_digit c) \<and> digits_value (show_nat n) = int n"
proof (induction n rule: show_nat.induct)
  case (1 n)
  show ?case
  proof (cases "n < 10")
    case True
    then show ?thesis
      by (subst (1 2) show_nat.simps) (simp add: digit_value_char is_ascii_digit_char digits_value_def)
  next
    case False
    have "int (n div 10) * 10 + int (n mod 10) = int n" by presburger
    with 1 False show ?thesis
      by (subst (1 2) show_nat.simps) (auto simp: digit_value_char is_ascii_digit_char digits_value_snoc)
  qed
qed


text \<open>The text of a token. Numbers with a point and the end of the input have none here.\<close>

fun token_text :: "token \<Rightarrow> string" where
  "token_text TFrom = ''FROM''" | "token_text TMatch = ''MATCH''" | "token_text TWhere = ''WHERE''"
| "token_text TTraverse = ''TRAVERSE''" | "token_text TDepth = ''DEPTH''"
| "token_text TSummarize = ''SUMMARIZE''" | "token_text TInfer = ''INFER''"
| "token_text TCorrelate = ''CORRELATE''" | "token_text TWith = ''WITH''"
| "token_text TSimilar = ''SIMILAR''" | "token_text TTo = ''TO''"
| "token_text TClassify = ''CLASSIFY''" | "token_text TAs = ''AS''"
| "token_text TTimeline = ''TIMELINE''" | "token_text TSort = ''SORT''" | "token_text TBy = ''BY''"
| "token_text TAsc = ''ASC''" | "token_text TDesc = ''DESC''" | "token_text TLimit = ''LIMIT''"
| "token_text TStore = ''STORE''" | "token_text TExport = ''EXPORT''" | "token_text TLoad = ''LOAD''"
| "token_text TFilter = ''FILTER''" | "token_text TAnd = ''AND''" | "token_text TOr = ''OR''"
| "token_text TNot = ''NOT''"
| "token_text (TInteger v) = show_nat (unat v)"
| "token_text (TFloat v) = []"
| "token_text (TStr s) = quoted s"
| "token_text (TBool b) = (if b then ''true'' else ''false'')"
| "token_text TNull = ''null''"
| "token_text (TIdent s) = s"
| "token_text TEq = ''==''" | "token_text TNeq = ''!=''" | "token_text TGe = ''>=''"
| "token_text TLe = ''<=''" | "token_text TGt = ''>''" | "token_text TLt = ''<''"
| "token_text TAssign = ''=''"
| "token_text TLParen = ''(''" | "token_text TRParen = '')''" | "token_text TLBracket = ''[''"
| "token_text TRBracket = '']''" | "token_text TLBrace = ''{''" | "token_text TRBrace = ''}''"
| "token_text TComma = '',''" | "token_text TDot = ''.''" | "token_text TColon = '':''"
| "token_text TNewline = [newline]"
| "token_text TEOF = []"

definition is_word :: "string \<Rightarrow> bool" where
  "is_word w \<longleftrightarrow>
     w \<noteq> [] \<and> (hd w = CHR ''_'' \<or> is_ascii_alphabetic (hd w)) \<and>
     list_all (\<lambda>c. is_alphanumeric c \<or> c = CHR ''_'') w"

text \<open>The tokens that have a text: no end of file, no float, no negative integer, and a name that
  is a word and no keyword.\<close>

fun printable :: "token \<Rightarrow> bool" where
  "printable (TInteger v) = (uint v < 2 ^ 63)"
| "printable (TFloat v) = False"
| "printable TEOF = False"
| "printable (TIdent s) = (is_word s \<and> keyword_token s = TIdent s)"
| "printable t = True"

definition token_end :: "string \<Rightarrow> bool" where
  "token_end r \<longleftrightarrow> r = [] \<or> hd r = CHR '' ''"

lemma token_end_facts:
  "\<not> is_ascii_digit (CHR '' '')" "\<not> is_alphanumeric (CHR '' '')" "\<not> is_ascii_alphabetic (CHR '' '')"
  by code_simp+

lemma takeWhile_token:
  assumes "list_all P w" and "token_end r" and "\<not> P (CHR '' '')"
  shows "takeWhile P (w @ r) = w" and "dropWhile P (w @ r) = r"
  using assms by (cases r; auto simp: token_end_def list_all_iff)+

lemma word_start:
  assumes "c = CHR ''_'' \<or> is_ascii_alphabetic c"
  shows "c \<notin> {newline, dquote, squote, CHR '' '', CHR 0x09, CHR 0x0D, CHR ''#''}" "\<not> is_ascii_digit c"
proof -
  have "\<not> is_ascii_digit (CHR ''_'')" by code_simp
  moreover have "\<not> is_ascii_alphabetic d"
    if "d \<in> set [newline, dquote, squote, CHR '' '', CHR 0x09, CHR 0x0D, CHR ''#'']" for d
    using that unfolding set_simps by (elim insertE) (simp_all add: is_ascii_alphabetic_def)
  moreover have "\<not> (is_ascii_digit c \<and> is_ascii_alphabetic c)"
    by (auto simp: is_ascii_digit_def is_ascii_alphabetic_def less_eq_char_def)
  ultimately show "c \<notin> {newline, dquote, squote, CHR '' '', CHR 0x09, CHR 0x0D, CHR ''#''}"
    "\<not> is_ascii_digit c"
    using assms by auto
qed

lemma digit_start:
  assumes "is_ascii_digit c"
  shows "c \<notin> {newline, CHR '' '', CHR 0x09, CHR 0x0D, CHR ''#''}" "c \<noteq> CHR ''.''"
  using assms by (auto simp: is_ascii_digit_def)

lemma next_token_word:
  assumes "lx_rest (skip_whitespace lx) = w @ r" and "is_word w" and "token_end r"
  shows "\<exists>p lx'. next_token lx = Inr ((keyword_token w, p), lx') \<and> lx_rest lx' = r"
proof -
  let ?P = "\<lambda>c. is_alphanumeric c \<or> c = CHR ''_''"
  obtain c cs where w: "w = c # cs" and c: "c = CHR ''_'' \<or> is_ascii_alphabetic c"
    using assms(2) by (cases w) (auto simp: is_word_def)
  have t: "takeWhile ?P (w @ r) = w" "dropWhile ?P (w @ r) = r"
    using assms(2,3) token_end_facts
    by (auto simp: is_word_def intro!: takeWhile_token)
  have "fst (read_while ?P [] (skip_whitespace lx)) = w"
    "lx_rest (snd (read_while ?P [] (skip_whitespace lx))) = r"
    using read_while_rest [of ?P "[]" "skip_whitespace lx"] t by (simp_all add: assms(1))
  moreover have "lx_peek (skip_whitespace lx) = Some c" by (simp add: lx_peek_rest assms(1) w)
  ultimately show ?thesis
    using word_start [OF c] c
    by (simp add: next_token_def Let_def read_ident_or_keyword_def split_beta)
qed

lemma next_token_number:
  assumes "lx_rest (skip_whitespace lx) = show_nat n @ r" and "n < 2 ^ 63" and "token_end r"
  shows "\<exists>p lx'. next_token lx = Inr ((TInteger (of_nat n), p), lx') \<and> lx_rest lx' = r"
proof -
  let ?P = "\<lambda>c. is_ascii_digit c \<or> c = CHR ''.''"
  have d: "\<forall>c \<in> set (show_nat n). is_ascii_digit c" "digits_value (show_nat n) = int n"
    using show_nat_digits [of n] by simp_all
  have ne: "show_nat n \<noteq> []" by (subst show_nat.simps) simp
  then obtain c cs where s: "show_nat n = c # cs" by (cases "show_nat n") auto
  have c: "is_ascii_digit c" using d s by simp
  have "list_all ?P (show_nat n)" "\<not> ?P (CHR '' '')"
    using d(1) token_end_facts by (simp_all add: list_all_iff)
  note t = takeWhile_token [OF this(1) assms(3) this(2)]
  have "fst (read_while ?P [] (skip_whitespace lx)) = show_nat n"
    "lx_rest (snd (read_while ?P [] (skip_whitespace lx))) = r"
    using read_while_rest [of ?P "[]" "skip_whitespace lx"] t by (simp_all add: assms(1))
  moreover have "lx_peek (skip_whitespace lx) = Some c" by (simp add: lx_peek_rest assms(1) s)
  moreover have "CHR ''.'' \<notin> set (show_nat n)" using d digit_start by blast
  moreover have "i64_parse (show_nat n) = Some (of_nat n)"
    using assms(2) d(2) ne by (simp add: i64_parse_def)
  ultimately show ?thesis
    using digit_start [OF c] c by (simp add: next_token_def Let_def read_number_def split_beta)
qed


lemma next_token_newline:
  "lx_rest (skip_whitespace lx) = newline # r \<Longrightarrow>
   \<exists>p lx'. next_token lx = Inr ((TNewline, p), lx') \<and> lx_rest lx' = r"
  by (simp add: next_token_def Let_def lx_peek_rest)

lemma next_token_delimiter:
  assumes "lx_rest (skip_whitespace lx) = c # r" and "delimiter c = Some t"
  shows "\<exists>p lx'. next_token lx = Inr ((t, p), lx') \<and> lx_rest lx' = r"
proof -
  have "c \<in> set [CHR ''('', CHR '')'', CHR ''['', CHR '']'', CHR ''{'', CHR ''}'', CHR '','', CHR ''.'', CHR '':'']"
    using assms(2) by (simp add: delimiter_def split: if_splits)
  moreover have "list_all (\<lambda>c. c \<noteq> newline \<and> \<not> is_ascii_digit c \<and> c \<noteq> dquote \<and> c \<noteq> squote \<and> c \<noteq> CHR ''_''
      \<and> \<not> is_ascii_alphabetic c)
    [CHR ''('', CHR '')'', CHR ''['', CHR '']'', CHR ''{'', CHR ''}'', CHR '','', CHR ''.'', CHR '':'']"
    by code_simp
  ultimately have "c \<noteq> newline \<and> \<not> is_ascii_digit c \<and> c \<noteq> dquote \<and> c \<noteq> squote \<and> c \<noteq> CHR ''_''
      \<and> \<not> is_ascii_alphabetic c"
    unfolding list_all_iff by blast
  with assms show ?thesis by (simp add: next_token_def Let_def lx_peek_rest)
qed

lemma next_token_operator:
  assumes "lx_rest (skip_whitespace lx) = token_text t @ r" and "token_end r"
    and "t \<in> {TEq, TNeq, TGe, TLe, TGt, TLt, TAssign}"
  shows "\<exists>p lx'. next_token lx = Inr ((t, p), lx') \<and> lx_rest lx' = r"
proof -
  have "list_all (\<lambda>c. \<not> is_ascii_digit c \<and> \<not> is_ascii_alphabetic c \<and> delimiter c = None)
    [CHR ''='', CHR ''!'', CHR ''>'', CHR ''<'']"
    by code_simp
  then have c: "\<not> is_ascii_digit (CHR ''='')" "\<not> is_ascii_alphabetic (CHR ''='')" "delimiter (CHR ''='') = None"
    "\<not> is_ascii_digit (CHR ''!'')" "\<not> is_ascii_alphabetic (CHR ''!'')" "delimiter (CHR ''!'') = None"
    "\<not> is_ascii_digit (CHR ''>'')" "\<not> is_ascii_alphabetic (CHR ''>'')" "delimiter (CHR ''>'') = None"
    "\<not> is_ascii_digit (CHR ''<'')" "\<not> is_ascii_alphabetic (CHR ''<'')" "delimiter (CHR ''<'') = None"
    by simp_all
  have e: "r \<noteq> [] \<Longrightarrow> r ! 0 \<noteq> CHR ''=''"
    using assms(2) by (cases r) (auto simp: token_end_def)
  show ?thesis
    using assms(1,3) e
    by (elim insertE emptyE)
      (simp_all add: next_token_def Let_def lx_peek_rest c read_operator_def lx_peek_nth_rest nth_opt_def)
qed

lemma keyword_of_text:
  "list_all (\<lambda>t. keyword_token (token_text t) = t \<and> is_word (token_text t))
     [TFrom, TMatch, TWhere, TTraverse, TDepth, TSummarize, TInfer, TCorrelate, TWith, TSimilar, TTo,
      TClassify, TAs, TTimeline, TSort, TBy, TAsc, TDesc, TLimit, TStore, TExport, TLoad, TFilter,
      TAnd, TOr, TNot, TBool True, TBool False, TNull]"
  by code_simp

text \<open>The lexer reads the text of a token as that token and nothing more.\<close>

lemma next_token_text:
  assumes "lx_rest (skip_whitespace lx) = token_text t @ r" and "printable t" and "token_end r"
  shows "\<exists>p lx'. next_token lx = Inr ((t, p), lx') \<and> lx_rest lx' = r"
proof -
  have word: ?thesis if "keyword_token (token_text t) = t" "is_word (token_text t)"
    using next_token_word [OF assms(1) that(2) assms(3)] that(1) by simp
  have delim: ?thesis if "token_text t = [c]" "delimiter c = Some t" for c
    using next_token_delimiter [of lx c r t] assms(1) that by simp
  have kw: ?thesis if "t \<in> set
     [TFrom, TMatch, TWhere, TTraverse, TDepth, TSummarize, TInfer, TCorrelate, TWith, TSimilar, TTo,
      TClassify, TAs, TTimeline, TSort, TBy, TAsc, TDesc, TLimit, TStore, TExport, TLoad, TFilter,
      TAnd, TOr, TNot, TBool True, TBool False, TNull]"
    using keyword_of_text that word unfolding list_all_iff by blast
  note op = next_token_operator [OF assms(1,3)]
  show ?thesis
  proof (cases t)
    case (TInteger v)
    then have "uint v < 2 ^ 63" using assms(2) by simp
    then have "nat (uint v) < 2 ^ 63" by (subst nat_less_iff) simp_all
    then have "unat v < 2 ^ 63" by simp
    with TInteger show ?thesis using next_token_number [of lx "unat v" r] assms by simp
  next
    case (TStr s)
    then show ?thesis using next_token_string [of lx s r] assms(1) by simp
  next
    case (TBool b)
    then show ?thesis using kw by (cases b) simp_all
  next
    case (TIdent s)
    then show ?thesis using word assms(2) by simp
  next
    case TNewline
    then show ?thesis using next_token_newline [of lx r] assms(1) by simp
  qed (use assms(2) kw op delim in \<open>simp_all add: delimiter_def\<close>)
qed


definition tokens_text :: "token list \<Rightarrow> string" where
  "tokens_text ts = concat (map (\<lambda>t. CHR '' '' # token_text t) ts)"

lemma token_end_tokens_text: "token_end (tokens_text ts)"
  by (cases ts) (simp_all add: tokens_text_def token_end_def)

lemma token_text_head:
  assumes "printable t"
  shows "\<exists>c s. token_text t = c # s \<and> c \<notin> {CHR '' '', CHR 0x09, CHR 0x0D, CHR ''#''}"
proof (cases t)
  case (TInteger v)
  have "show_nat (unat v) \<noteq> []" by (subst show_nat.simps) simp
  then obtain c s where s: "show_nat (unat v) = c # s" by (cases "show_nat (unat v)") auto
  then have "is_ascii_digit c" using show_nat_digits [of "unat v"] by simp
  from digit_start(1) [OF this] s TInteger show ?thesis by simp
next
  case (TIdent w)
  then obtain c s where "w = c # s" "c = CHR ''_'' \<or> is_ascii_alphabetic c"
    using assms by (cases w) (auto simp: is_word_def)
  with word_start(1) [OF this(2)] TIdent show ?thesis by simp
next
  case (TBool b)
  then show ?thesis by (cases b) simp_all
qed (use assms in \<open>simp_all add: quoted_def\<close>)

lemma tokenize_loop_text:
  "list_all printable ts \<Longrightarrow> lx_rest lx = tokens_text ts \<Longrightarrow>
   \<exists>out p. tokenize_loop acc lx = Inr (acc @ out @ [(TEOF, p)]) \<and> map fst out = ts"
proof (induction ts arbitrary: acc lx)
  case Nil
  then have "lx_rest lx = []" by (simp add: tokens_text_def)
  then show ?case
    by (subst tokenize_loop.simps)
      (simp add: next_token_def Let_def skip_whitespace_end lx_peek_rest)
next
  case (Cons t ts)
  have l: "lx_rest lx = CHR '' '' # token_text t @ tokens_text ts"
    using Cons.prems by (simp add: tokens_text_def)
  have "lx_rest (skip_whitespace lx) = token_text t @ tokens_text ts"
    by (rule skip_whitespace_blank [OF l]) (use token_text_head [of t] Cons.prems(1) in auto)
  then obtain p lx' where n: "next_token lx = Inr ((t, p), lx')" "lx_rest lx' = tokens_text ts"
    using next_token_text [OF _ _ token_end_tokens_text] Cons.prems(1) by force
  obtain out q where "tokenize_loop (acc @ [(t, p)]) lx' = Inr ((acc @ [(t, p)]) @ out @ [(TEOF, q)])"
    "map fst out = ts"
    using Cons.IH [of lx' "acc @ [(t, p)]"] n(2) Cons.prems(1) by auto
  moreover have "t \<noteq> TEOF" using Cons.prems(1) by auto
  ultimately show ?case
    using n(1) by (subst tokenize_loop.simps) (auto intro: exI [of _ "(t, p) # out"])
qed

end
