(* ===== verification/Inverted_Index.thy ===== *)
theory Inverted_Index
  imports Tdxl_Syntax Str_Ops "HOL-Library.List_Lexorder" "HOL-Library.Char_ord"
begin

text \<open>
  \<^verbatim>\<open>src/crates/algorithms/src/searching.rs\<close>, the inverted index: the terms of a document with their
  positions, the postings of a term, and the counts. Text is read as code points below 256, as in
  the lexer. The hash maps are association lists, whose order stands for the iteration order;
  the inverse document frequency, a logarithm, is not modelled.
\<close>

section \<open>Terms\<close>

definition terms_of :: "string \<Rightarrow> string list" where
  "terms_of s = filter (\<lambda>w. w \<noteq> []) (split_where (\<lambda>c. \<not> is_alphanumeric c) (to_lowercase s))"

section \<open>The index\<close>

type_synonym postings = "(string \<times> nat list) list"

record inverted_index =
  ii_index :: "(string \<times> postings) list"
  ii_doc_count :: nat

definition ii_new :: inverted_index where
  "ii_new = \<lparr>ii_index = [], ii_doc_count = 0\<rparr>"

text \<open>\<open>entry(k).or_default().push(v)\<close>.\<close>

definition push_entry :: "'k \<Rightarrow> 'v \<Rightarrow> ('k \<times> 'v list) list \<Rightarrow> ('k \<times> 'v list) list" where
  "push_entry k v m = AList.update k ((case map_of m k of None \<Rightarrow> [] | Some vs \<Rightarrow> vs) @ [v]) m"

definition term_positions :: "string list \<Rightarrow> (string \<times> nat list) list" where
  "term_positions terms = fold (\<lambda>(pos, t). push_entry t pos) (enumerate 0 terms) []"

definition add_document :: "string \<Rightarrow> string \<Rightarrow> inverted_index \<Rightarrow> inverted_index" where
  "add_document doc_id text_s idx =
     idx\<lparr>ii_doc_count := ii_doc_count idx + 1,
         ii_index := fold (\<lambda>(t, positions). push_entry t (doc_id, positions))
           (term_positions (terms_of text_s)) (ii_index idx)\<rparr>"

definition ii_postings :: "inverted_index \<Rightarrow> string \<Rightarrow> postings" where
  "ii_postings idx t = (case map_of (ii_index idx) t of None \<Rightarrow> [] | Some ps \<Rightarrow> ps)"

definition ii_search :: "inverted_index \<Rightarrow> string \<Rightarrow> postings" where
  "ii_search idx query = ii_postings idx (to_lowercase query)"

definition ii_search_multi :: "inverted_index \<Rightarrow> string \<Rightarrow> (string \<times> postings) list" where
  "ii_search_multi idx query =
     fold (\<lambda>t results. case map_of (ii_index idx) t of None \<Rightarrow> results | Some ps \<Rightarrow> AList.update t ps results)
       (terms_of query) []"

definition term_frequency :: "inverted_index \<Rightarrow> string \<Rightarrow> string \<Rightarrow> nat" where
  "term_frequency idx t doc_id =
     sum_list (map (\<lambda>(d, positions). length positions)
       (filter (\<lambda>(d, positions). d = doc_id) (ii_postings idx (to_lowercase t))))"

definition document_frequency :: "inverted_index \<Rightarrow> string \<Rightarrow> nat" where
  "document_frequency idx t = length (ii_postings idx (to_lowercase t))"

definition ii_terms :: "inverted_index \<Rightarrow> string list" where
  "ii_terms idx = sort (map fst (ii_index idx))"

section \<open>What an index knows\<close>

lemma push_entry_get:
  "map_of (push_entry k v m) j = (if j = k then Some ((case map_of m k of None \<Rightarrow> [] | Some vs \<Rightarrow> vs) @ [v]) else map_of m j)"
  by (simp add: push_entry_def update_conv')

lemma push_entry_keys: "fst ` set (push_entry k v m) = insert k (fst ` set m)"
  by (simp add: push_entry_def dom_update)

lemma push_entry_distinct: "distinct (map fst m) \<Longrightarrow> distinct (map fst (push_entry k v m))"
  by (simp add: push_entry_def distinct_update)

definition positions_of :: "string \<Rightarrow> string list \<Rightarrow> nat list" where
  "positions_of t terms = filter (\<lambda>i. terms ! i = t) [0..<length terms]"


lemma positions_of_snoc: "positions_of t (xs @ [x]) = positions_of t xs @ (if x = t then [length xs] else [])"
  by (auto simp: positions_of_def nth_append intro: filter_cong)

lemma positions_of_empty: "positions_of t xs = [] \<longleftrightarrow> t \<notin> set xs"
  by (auto simp: positions_of_def filter_empty_conv in_set_conv_nth)

lemma length_positions_of: "length (positions_of t xs) = count_list xs t"
proof (induction xs rule: rev_induct)
  case Nil
  show ?case by (simp add: positions_of_def)
qed (simp add: positions_of_snoc)

lemma term_positions_snoc: "term_positions (xs @ [x]) = push_entry x (length xs) (term_positions xs)"
  by (simp add: term_positions_def enumerate_append_eq)

lemma term_positions_distinct: "distinct (map fst (term_positions xs))"
  by (induction xs rule: rev_induct) (simp_all add: term_positions_snoc push_entry_distinct, simp add: term_positions_def)

lemma term_positions_get:
  "map_of (term_positions xs) t = (if t \<in> set xs then Some (positions_of t xs) else None)"
proof (induction xs arbitrary: t rule: rev_induct)
  case Nil
  then show ?case by (simp add: term_positions_def)
next
  case (snoc x xs)
  then show ?case
    by (cases "x \<in> set xs"; cases "t = x")
       (simp_all add: term_positions_snoc push_entry_get positions_of_snoc, simp_all add: positions_of_empty)
qed

lemma term_positions_keys: "fst ` set (term_positions xs) = set xs"
proof -
  have "dom (map_of (term_positions xs)) = set xs"
    by (auto simp: dom_def term_positions_get split: if_splits)
  then show ?thesis by (simp add: dom_map_of_conv_image_fst)
qed

lemma push_all_get:
  assumes "distinct (map fst tp)"
  shows "map_of (fold (\<lambda>(t, positions). push_entry t (d, positions)) tp m) t =
    (case map_of tp t of None \<Rightarrow> map_of m t
     | Some p \<Rightarrow> Some ((case map_of m t of None \<Rightarrow> [] | Some ps \<Rightarrow> ps) @ [(d, p)]))"
  using assms
proof (induction tp arbitrary: m)
  case (Cons x tp)
  obtain k v where x: "x = (k, v)" by (cases x)
  have "map_of tp k = None" using Cons.prems by (simp add: x map_of_eq_None_iff)
  with Cons show ?case by (auto simp: x push_entry_get split: option.splits)
qed simp

lemma push_all_keys:
  "fst ` set (fold (\<lambda>(t, positions). push_entry t (d, positions)) tp m) = fst ` set tp \<union> fst ` set m"
  "distinct (map fst m) \<Longrightarrow> distinct (map fst (fold (\<lambda>(t, positions). push_entry t (d, positions)) tp m))"
proof (induction tp arbitrary: m)
  case (Cons x tp)
  {
    case 1
    show ?case using Cons.IH(1) by (cases x) (auto simp: push_entry_keys)
  next
    case 2
    then show ?case using Cons.IH(2) by (cases x) (simp add: push_entry_distinct)
  }
qed simp_all

definition index_of :: "(string \<times> string) list \<Rightarrow> inverted_index" where
  "index_of docs = fold (\<lambda>(d, s). add_document d s) docs ii_new"

definition spec_postings :: "(string \<times> string) list \<Rightarrow> string \<Rightarrow> postings" where
  "spec_postings docs t =
     filter (\<lambda>(d, ps). ps \<noteq> []) (map (\<lambda>(d, s). (d, positions_of t (terms_of s))) docs)"

lemma index_of_spec:
  "ii_postings (index_of docs) t = spec_postings docs t
   \<and> ii_doc_count (index_of docs) = length docs
   \<and> fst ` set (ii_index (index_of docs)) = (\<Union>(d, s)\<in>set docs. set (terms_of s))
   \<and> distinct (map fst (ii_index (index_of docs)))"
proof (induction docs rule: rev_induct)
  case Nil
  then show ?case by (simp add: index_of_def ii_new_def ii_postings_def spec_postings_def)
next
  case (snoc x docs)
  obtain d s where x: "x = (d, s)" by (cases x)
  let ?tp = "term_positions (terms_of s)"
  have step: "index_of (docs @ [x]) = add_document d s (index_of docs)"
    by (simp add: index_of_def x)
  have "ii_postings (index_of (docs @ [x])) t = ii_postings (index_of docs) t
      @ (if t \<in> set (terms_of s) then [(d, positions_of t (terms_of s))] else [])"
    using push_all_get [OF term_positions_distinct, of d "terms_of s" "ii_index (index_of docs)" t]
    by (auto simp: term_positions_get step ii_postings_def add_document_def split: option.splits)
  moreover have "spec_postings (docs @ [x]) t = spec_postings docs t
      @ (if t \<in> set (terms_of s) then [(d, positions_of t (terms_of s))] else [])"
    by (simp add: spec_postings_def x positions_of_empty)
  moreover have "fst ` set (ii_index (index_of (docs @ [x]))) = (\<Union>(d, s)\<in>set (docs @ [x]). set (terms_of s))"
    unfolding step using snoc by (simp add: add_document_def push_all_keys(1) term_positions_keys x)
  moreover have "distinct (map fst (ii_index (index_of (docs @ [x]))))"
    using snoc by (simp add: step add_document_def push_all_keys(2))
  moreover have "ii_doc_count (index_of (docs @ [x])) = length (docs @ [x])"
    using snoc by (simp add: step add_document_def)
  ultimately show ?case using snoc by simp
qed

text \<open>
  An index of any documents answers a search with exactly the documents that contain the term, in
  the order they were added, each with the ascending positions of the term; the frequencies count
  the occurrences and the documents, and the term list is the sorted set of all terms.
\<close>

theorem inverted_index_answers_exactly:
  "ii_search (index_of docs) q = spec_postings docs (to_lowercase q)
   \<and> document_frequency (index_of docs) q
       = length (filter (\<lambda>(d, s). to_lowercase q \<in> set (terms_of s)) docs)
   \<and> term_frequency (index_of docs) q doc_id
       = sum_list (map (\<lambda>(d, s). count_list (terms_of s) (to_lowercase q)) (filter (\<lambda>(d, s). d = doc_id) docs))
   \<and> ii_doc_count (index_of docs) = length docs
   \<and> sorted (ii_terms (index_of docs)) \<and> distinct (ii_terms (index_of docs))
   \<and> set (ii_terms (index_of docs)) = (\<Union>(d, s)\<in>set docs. set (terms_of s))"
proof -
  note i = index_of_spec [of docs "to_lowercase q"]
  have df: "length (spec_postings docs t) = length (filter (\<lambda>(d, s). t \<in> set (terms_of s)) docs)" for t
    by (induction docs) (auto simp: spec_postings_def positions_of_empty)
  have tf: "sum_list (map (\<lambda>(d, positions). length positions) (filter (\<lambda>(d, positions). d = doc_id) (spec_postings docs t)))
      = sum_list (map (\<lambda>(d, s). count_list (terms_of s) t) (filter (\<lambda>(d, s). d = doc_id) docs))" for t
    by (induction docs) (auto simp: spec_postings_def positions_of_empty length_positions_of)
  show ?thesis
    using i by (simp add: ii_search_def document_frequency_def term_frequency_def ii_terms_def df tf)
qed

end
