(* ===== verification/Temporal_Graph.thy ===== *)
theory Temporal_Graph
  imports Object_Model "HOL-Library.List_Lexorder" "HOL-Library.Char_ord"
begin

text \<open>
  \<^verbatim>\<open>src/crates/temporal-graph/src\<close>: time intervals, the graph state with its snapshots, the history,
  the differences between snapshots, the counts of the evolution analysis and of the predictor, and
  the engine that composes them. Hash maps are association lists, whose order stands for the
  iteration order; an instant is a number of nanoseconds. The rates, trends and confidences,
  which are float arithmetic on these counts, are not modelled.
\<close>

section \<open>Intervals\<close>

record time_interval =
  iv_start :: instant
  iv_end :: "instant option"

definition FAR_FUTURE :: int where
  "FAR_FUTURE = 365000 * 86400 * 1000000000"

definition starting_at :: "instant \<Rightarrow> time_interval" where
  "starting_at start = \<lparr>iv_start = start, iv_end = None\<rparr>"

definition bounded :: "instant \<Rightarrow> instant \<Rightarrow> time_interval" where
  "bounded start end_t = \<lparr>iv_start = start, iv_end = Some end_t\<rparr>"

definition iv_contains :: "time_interval \<Rightarrow> instant \<Rightarrow> bool" where
  "iv_contains a t \<longleftrightarrow> iv_start a \<le> t \<and> (case iv_end a of None \<Rightarrow> True | Some e \<Rightarrow> t < e)"

text \<open>The clock is read when the interval has no end.\<close>

definition end_or_far :: "instant \<Rightarrow> time_interval \<Rightarrow> instant" where
  "end_or_far now a = (case iv_end a of None \<Rightarrow> now + FAR_FUTURE | Some e \<Rightarrow> e)"

definition iv_overlaps :: "instant \<Rightarrow> instant \<Rightarrow> time_interval \<Rightarrow> time_interval \<Rightarrow> bool" where
  "iv_overlaps now1 now2 a b \<longleftrightarrow> iv_start a < end_or_far now2 b \<and> iv_start b < end_or_far now1 a"

definition iv_duration :: "time_interval \<Rightarrow> int option" where
  "iv_duration a = map_option (\<lambda>e. e - iv_start a) (iv_end a)"

definition iv_intersection :: "instant \<Rightarrow> instant \<Rightarrow> instant \<Rightarrow> time_interval \<Rightarrow> time_interval \<Rightarrow> time_interval option" where
  "iv_intersection now1 now2 now3 a b =
     (let start = max (iv_start a) (iv_start b);
          end_t = min (end_or_far now1 a) (end_or_far now2 b);
          far = now3 + FAR_FUTURE
      in if start < end_t
         then Some \<lparr>iv_start = start, iv_end = (if far \<le> end_t then None else Some end_t)\<rparr> else None)"

definition iv_before :: "time_interval \<Rightarrow> time_interval \<Rightarrow> bool" where
  "iv_before a b \<longleftrightarrow> (case iv_end a of None \<Rightarrow> False | Some e \<Rightarrow> e \<le> iv_start b)"

definition iv_after :: "time_interval \<Rightarrow> time_interval \<Rightarrow> bool" where
  "iv_after a b \<longleftrightarrow> (case iv_end b of None \<Rightarrow> False | Some e \<Rightarrow> e \<le> iv_start a)"

definition contains_interval :: "time_interval \<Rightarrow> time_interval \<Rightarrow> bool" where
  "contains_interval a b \<longleftrightarrow> iv_start a \<le> iv_start b \<and>
     (case iv_end a of None \<Rightarrow> True
      | Some e \<Rightarrow> (case iv_end b of None \<Rightarrow> False | Some e' \<Rightarrow> e' \<le> e))"

definition iv_nonempty :: "time_interval \<Rightarrow> bool" where
  "iv_nonempty a \<longleftrightarrow> (case iv_end a of None \<Rightarrow> True | Some e \<Rightarrow> iv_start a < e)"

lemma FAR_pos: "0 < FAR_FUTURE"
  by (simp add: FAR_FUTURE_def)

lemma overlaps_common:
  assumes "iv_nonempty a" "iv_nonempty b"
    and "iv_start a < now2 + FAR_FUTURE" "iv_start b < now1 + FAR_FUTURE"
  shows "iv_overlaps now1 now2 a b \<longleftrightarrow> (\<exists>t. iv_contains a t \<and> iv_contains b t)"
proof
  assume o: "iv_overlaps now1 now2 a b"
  have "iv_contains a (max (iv_start a) (iv_start b)) \<and> iv_contains b (max (iv_start a) (iv_start b))"
    using o assms by (auto simp: iv_overlaps_def iv_contains_def iv_nonempty_def end_or_far_def
        split: option.splits)
  then show "\<exists>t. iv_contains a t \<and> iv_contains b t" by blast
next
  assume "\<exists>t. iv_contains a t \<and> iv_contains b t"
  with assms show "iv_overlaps now1 now2 a b"
    by (auto simp: iv_overlaps_def iv_contains_def end_or_far_def split: option.splits)
qed

lemma intersection_common:
  assumes "now1 \<le> now2" "now2 \<le> now3" "t < now1 + FAR_FUTURE"
  shows "(case iv_intersection now1 now2 now3 a b of None \<Rightarrow> False | Some c \<Rightarrow> iv_contains c t)
    \<longleftrightarrow> iv_contains a t \<and> iv_contains b t"
  using assms
  by (auto simp: iv_intersection_def Let_def iv_contains_def end_or_far_def split: option.splits)

text \<open>
  Intervals are sets of instants: two intervals that are not empty overlap exactly if they share an
  instant, the intersection contains exactly the shared ones, containment and order say the same
  of their instants (instants more than 365000 days after the clock aside, which the code takes for
  the end of an unbounded interval).
\<close>

theorem intervals_are_sets_of_instants:
  assumes "iv_nonempty a" "iv_nonempty b" "now1 \<le> now2" "now2 \<le> now3"
    and "iv_start a < now1 + FAR_FUTURE" "iv_start b < now1 + FAR_FUTURE"
  shows "(iv_overlaps now1 now2 a b \<longleftrightarrow> (\<exists>t. iv_contains a t \<and> iv_contains b t))
    \<and> (\<forall>t < now1 + FAR_FUTURE.
         (case iv_intersection now1 now2 now3 a b of None \<Rightarrow> False | Some c \<Rightarrow> iv_contains c t)
           \<longleftrightarrow> iv_contains a t \<and> iv_contains b t)
    \<and> (contains_interval a b \<longleftrightarrow> (\<forall>t. iv_contains b t \<longrightarrow> iv_contains a t))
    \<and> (iv_before a b \<longleftrightarrow> (\<forall>t u. iv_contains a t \<and> iv_contains b u \<longrightarrow> t < u))
    \<and> (iv_after a b \<longleftrightarrow> iv_before b a)"
proof -
  have far: "\<exists>t. iv_contains a t \<and> m \<le> t" if "iv_end a = None" for a m
    by (rule exI [of _ "max m (iv_start a)"]) (simp add: iv_contains_def that)
  have start: "iv_contains a (iv_start a)" if "iv_nonempty a" for a
    using that by (auto simp: iv_contains_def iv_nonempty_def split: option.splits)
  have final: "\<exists>t. iv_contains a t \<and> t = e - 1" if "iv_end a = Some e" "iv_nonempty a" for a e
    using that by (simp add: iv_contains_def iv_nonempty_def)
  have "contains_interval a b" if sub: "\<forall>t. iv_contains b t \<longrightarrow> iv_contains a t"
  proof (cases "iv_end a")
    case None
    with sub start [OF assms(2)] show ?thesis by (simp add: contains_interval_def iv_contains_def)
  next
    case (Some e)
    show ?thesis
    proof (cases "iv_end b")
      case None
      from far [OF None, of e] sub Some show ?thesis by (fastforce simp: iv_contains_def)
    next
      case (Some e')
      have "iv_contains a (e' - 1)" "iv_contains a (iv_start b)"
        using final [OF Some assms(2)] start [OF assms(2)] sub by blast+
      with \<open>iv_end a = Some e\<close> Some show ?thesis by (simp add: contains_interval_def iv_contains_def)
    qed
  qed
  moreover have "iv_contains a t" if "contains_interval a b" "iv_contains b t" for t
    using that by (auto simp: contains_interval_def iv_contains_def split: option.splits)
  ultimately have c: "contains_interval a b \<longleftrightarrow> (\<forall>t. iv_contains b t \<longrightarrow> iv_contains a t)" by blast
  have "iv_before a b" if lt: "\<forall>t u. iv_contains a t \<and> iv_contains b u \<longrightarrow> t < u"
  proof (cases "iv_end a")
    case None
    from far [OF None, of "iv_start b"] lt start [OF assms(2)] show ?thesis by fastforce
  next
    case (Some e)
    from final [OF Some assms(1)] lt start [OF assms(2)] Some show ?thesis
      by (fastforce simp: iv_before_def)
  qed
  moreover have "t < u" if "iv_before a b" "iv_contains a t" "iv_contains b u" for t u
    using that by (auto simp: iv_before_def iv_contains_def split: option.splits)
  ultimately have b: "iv_before a b \<longleftrightarrow> (\<forall>t u. iv_contains a t \<and> iv_contains b u \<longrightarrow> t < u)" by blast
  have "iv_start a < now2 + FAR_FUTURE" using assms by simp
  with overlaps_common [of a b now2 now1] intersection_common [OF assms(3,4)] c b assms show ?thesis
    by (simp add: iv_after_def iv_before_def)
qed

theorem intervals_are_sets_of_instants_witness:
  "iv_overlaps 0 1 (bounded 0 10) (starting_at 4) \<longleftrightarrow>
     (\<exists>t. iv_contains (bounded 0 10) t \<and> iv_contains (starting_at 4) t)"
  using intervals_are_sets_of_instants [of "bounded 0 10" "starting_at 4" 0 1 2]
  by (simp add: bounded_def starting_at_def iv_nonempty_def FAR_FUTURE_def)

text \<open>
  The intersection of two unbounded intervals is unbounded only if the clock did not move between
  its readings: otherwise it ends 365000 days after the first.
\<close>

lemma unbounded_intersection_is_bounded:
  assumes "now1 \<le> now2" "now2 < now3" "x < now1 + FAR_FUTURE" "y < now1 + FAR_FUTURE"
  shows "iv_intersection now1 now2 now3 (starting_at x) (starting_at y)
    = Some (bounded (max x y) (now1 + FAR_FUTURE))"
  using assms by (simp add: iv_intersection_def starting_at_def bounded_def end_or_far_def Let_def)


section \<open>The state and its snapshots\<close>

type_synonym attrs = "(string \<times> string) list"

record temporal_node =
  tn_id :: string
  tn_kind :: string
  tn_label :: string
  tn_interval :: time_interval
  tn_attributes :: attrs

record temporal_edge =
  te_id :: string
  te_kind :: string
  te_source_id :: string
  te_target_id :: string
  te_interval :: time_interval
  te_properties :: attrs

record graph_snapshot =
  sn_timestamp :: instant
  sn_nodes :: "temporal_node list"
  sn_edges :: "temporal_edge list"

definition node_count :: "graph_snapshot \<Rightarrow> nat" where
  "node_count s = length (sn_nodes s)"

definition edge_count :: "graph_snapshot \<Rightarrow> nat" where
  "edge_count s = length (sn_edges s)"

record graph_state =
  gs_nodes :: "(string \<times> temporal_node) list"
  gs_edges :: "(string \<times> temporal_edge) list"

definition gs_new :: graph_state where
  "gs_new = \<lparr>gs_nodes = [], gs_edges = []\<rparr>"

definition add_node :: "temporal_node \<Rightarrow> graph_state \<Rightarrow> graph_state" where
  "add_node n g = g\<lparr>gs_nodes := AList.update (tn_id n) n (gs_nodes g)\<rparr>"

definition remove_node :: "string \<Rightarrow> graph_state \<Rightarrow> graph_state" where
  "remove_node i g = g\<lparr>gs_nodes := AList.delete i (gs_nodes g),
     gs_edges := filter (\<lambda>(k, e). te_source_id e \<noteq> i \<and> te_target_id e \<noteq> i) (gs_edges g)\<rparr>"

definition add_edge :: "temporal_edge \<Rightarrow> graph_state \<Rightarrow> graph_state" where
  "add_edge e g = g\<lparr>gs_edges := AList.update (te_id e) e (gs_edges g)\<rparr>"

definition remove_edge :: "string \<Rightarrow> graph_state \<Rightarrow> graph_state" where
  "remove_edge i g = g\<lparr>gs_edges := AList.delete i (gs_edges g)\<rparr>"

definition gs_snapshot :: "instant \<Rightarrow> graph_state \<Rightarrow> graph_snapshot" where
  "gs_snapshot t g = \<lparr>sn_timestamp = t,
     sn_nodes = filter (\<lambda>n. iv_contains (tn_interval n) t) (map snd (gs_nodes g)),
     sn_edges = filter (\<lambda>e. iv_contains (te_interval e) t) (map snd (gs_edges g))\<rparr>"

definition active_node_count :: "instant \<Rightarrow> graph_state \<Rightarrow> nat" where
  "active_node_count t g = length (filter (\<lambda>n. iv_contains (tn_interval n) t) (map snd (gs_nodes g)))"

definition active_edge_count :: "instant \<Rightarrow> graph_state \<Rightarrow> nat" where
  "active_edge_count t g = length (filter (\<lambda>e. iv_contains (te_interval e) t) (map snd (gs_edges g)))"

section \<open>Differences\<close>

record attribute_delta =
  ad_key :: string
  ad_old_value :: "string option"
  ad_new_value :: "string option"

record node_change =
  nc_id :: string
  nc_attribute_changes :: "attribute_delta list"
  nc_interval_changed :: bool

record edge_change =
  ec_id :: string
  ec_property_changes :: "attribute_delta list"
  ec_interval_changed :: bool

record graph_diff =
  gd_from :: instant
  gd_to :: instant
  gd_added_nodes :: "temporal_node list"
  gd_removed_nodes :: "string list"
  gd_added_edges :: "temporal_edge list"
  gd_removed_edges :: "string list"
  gd_modified_nodes :: "node_change list"
  gd_modified_edges :: "edge_change list"

text \<open>The keys of both maps in a \<open>BTreeSet\<close>, and the values that differ.\<close>

definition diff_attributes :: "attrs \<Rightarrow> attrs \<Rightarrow> attribute_delta list" where
  "diff_attributes before after =
     map (\<lambda>k. \<lparr>ad_key = k, ad_old_value = map_of before k, ad_new_value = map_of after k\<rparr>)
       (filter (\<lambda>k. map_of before k \<noteq> map_of after k)
         (sorted_list_of_set (set (map fst before) \<union> set (map fst after))))"

definition diff_node_attributes :: "temporal_node \<Rightarrow> temporal_node \<Rightarrow> attribute_delta list" where
  "diff_node_attributes before after = diff_attributes (tn_attributes before) (tn_attributes after)"

definition diff_edge_properties :: "temporal_edge \<Rightarrow> temporal_edge \<Rightarrow> attribute_delta list" where
  "diff_edge_properties before after = diff_attributes (te_properties before) (te_properties after)"

text \<open>\<open>map(|n| (n.id, n)).collect()\<close>: a later element with the same identifier wins.\<close>

definition by_id :: "('a \<Rightarrow> string) \<Rightarrow> 'a list \<Rightarrow> (string \<times> 'a) list" where
  "by_id f xs = fold (\<lambda>x. AList.update (f x) x) xs []"

definition node_changes :: "(string \<times> temporal_node) list \<Rightarrow> (string \<times> temporal_node) list \<Rightarrow> node_change list" where
  "node_changes before after = concat (map (\<lambda>(i, n).
     case map_of before i of
       None \<Rightarrow> []
     | Some b \<Rightarrow> (let changes = diff_node_attributes b n; moved = (tn_interval b \<noteq> tn_interval n)
         in if changes \<noteq> [] \<or> moved
            then [\<lparr>nc_id = i, nc_attribute_changes = changes, nc_interval_changed = moved\<rparr>] else [])) after)"

definition edge_changes :: "(string \<times> temporal_edge) list \<Rightarrow> (string \<times> temporal_edge) list \<Rightarrow> edge_change list" where
  "edge_changes before after = concat (map (\<lambda>(i, e).
     case map_of before i of
       None \<Rightarrow> []
     | Some b \<Rightarrow> (let changes = diff_edge_properties b e; moved = (te_interval b \<noteq> te_interval e)
         in if changes \<noteq> [] \<or> moved
            then [\<lparr>ec_id = i, ec_property_changes = changes, ec_interval_changed = moved\<rparr>] else [])) after)"

definition added_items :: "(string \<times> 'a) list \<Rightarrow> (string \<times> 'a) list \<Rightarrow> 'a list" where
  "added_items before after = map snd (filter (\<lambda>(i, x). map_of before i = None) after)"

definition removed_ids :: "(string \<times> 'a) list \<Rightarrow> (string \<times> 'a) list \<Rightarrow> string list" where
  "removed_ids before after = map fst (filter (\<lambda>(i, x). map_of after i = None) before)"

definition diff_between :: "graph_snapshot \<Rightarrow> graph_snapshot \<Rightarrow> graph_diff" where
  "diff_between before after =
     (let bn = by_id tn_id (sn_nodes before); an = by_id tn_id (sn_nodes after);
          be = by_id te_id (sn_edges before); ae = by_id te_id (sn_edges after)
      in \<lparr>gd_from = sn_timestamp before, gd_to = sn_timestamp after,
          gd_added_nodes = added_items bn an, gd_removed_nodes = removed_ids bn an,
          gd_added_edges = added_items be ae, gd_removed_edges = removed_ids be ae,
          gd_modified_nodes = node_changes bn an, gd_modified_edges = edge_changes be ae\<rparr>)"

definition change_count :: "graph_diff \<Rightarrow> nat" where
  "change_count d = length (gd_added_nodes d) + length (gd_removed_nodes d) + length (gd_added_edges d)
     + length (gd_removed_edges d) + length (gd_modified_nodes d) + length (gd_modified_edges d)"

definition has_changes :: "graph_diff \<Rightarrow> bool" where
  "has_changes d \<longleftrightarrow> 0 < change_count d"

section \<open>History\<close>

type_synonym history = "graph_snapshot list"

definition history_state_at :: "instant \<Rightarrow> history \<Rightarrow> graph_snapshot option" where
  "history_state_at t h = List.find (\<lambda>s. sn_timestamp s \<le> t) (rev h)"

definition history_diff_between :: "nat \<Rightarrow> nat \<Rightarrow> history \<Rightarrow> graph_diff option" where
  "history_diff_between i j h =
     (if length h \<le> i \<or> length h \<le> j then None else Some (diff_between (h ! i) (h ! j)))"

definition diff_at :: "nat \<Rightarrow> history \<Rightarrow> graph_diff option" where
  "diff_at i h = (if i = 0 \<or> length h \<le> i then None else Some (diff_between (h ! (i - 1)) (h ! i)))"

fun all_diffs :: "history \<Rightarrow> graph_diff list" where
  "all_diffs (a # b # h) = diff_between a b # all_diffs (b # h)"
| "all_diffs h = []"

section \<open>Evolution counts\<close>

text \<open>\<open>symmetric_difference\<close> and \<open>intersection\<close> of the sets of identifiers.\<close>

definition churn :: "('a \<Rightarrow> string) \<Rightarrow> 'a list \<Rightarrow> 'a list \<Rightarrow> nat" where
  "churn f before after = card (set (map f before) - set (map f after)) + card (set (map f after) - set (map f before))"

fun total_churn :: "('a \<Rightarrow> string) \<Rightarrow> (graph_snapshot \<Rightarrow> 'a list) \<Rightarrow> history \<Rightarrow> nat" where
  "total_churn f items (a # b # h) = churn f (items a) (items b) + total_churn f items (b # h)"
| "total_churn f items h = 0"

definition survivors :: "('a \<Rightarrow> string) \<Rightarrow> 'a list \<Rightarrow> 'a list \<Rightarrow> nat" where
  "survivors f start_items end_items = card (set (map f start_items) \<inter> set (map f end_items))"

section \<open>The engine\<close>

record graph_predictor =
  gp_node_type_frequencies :: "(string \<times> nat) list"
  gp_edge_type_frequencies :: "(string \<times> nat) list"
  gp_total_observations :: nat

definition count_kind :: "string \<Rightarrow> (string \<times> nat) list \<Rightarrow> (string \<times> nat) list" where
  "count_kind k m = AList.update k ((case map_of m k of None \<Rightarrow> 0 | Some c \<Rightarrow> c) + 1) m"

definition observe :: "graph_snapshot \<Rightarrow> graph_predictor \<Rightarrow> graph_predictor" where
  "observe s p = \<lparr>
     gp_node_type_frequencies = fold (\<lambda>n. count_kind (tn_kind n)) (sn_nodes s) (gp_node_type_frequencies p),
     gp_edge_type_frequencies = fold (\<lambda>e. count_kind (te_kind e)) (sn_edges s) (gp_edge_type_frequencies p),
     gp_total_observations = gp_total_observations p + (length (sn_nodes s) + length (sn_edges s))\<rparr>"

record temporal_graph =
  tg_state :: graph_state
  tg_history :: history
  tg_predictor :: graph_predictor

definition tg_new :: temporal_graph where
  "tg_new = \<lparr>tg_state = gs_new, tg_history = [],
     tg_predictor = \<lparr>gp_node_type_frequencies = [], gp_edge_type_frequencies = [], gp_total_observations = 0\<rparr>\<rparr>"

text \<open>The text of an identifier and the order in which a map is copied are arguments.\<close>

definition ingest_relationship ::
  "(ulid \<Rightarrow> string) \<Rightarrow> (metadata \<Rightarrow> attrs) \<Rightarrow> relationship \<Rightarrow> temporal_graph \<Rightarrow> temporal_graph" where
  "ingest_relationship show_id entries rel g =
     g\<lparr>tg_state := add_edge \<lparr>te_id = show_id (rel_id rel), te_kind = rel_kind rel,
         te_source_id = rel_source_id rel, te_target_id = rel_target_id rel,
         te_interval = bounded (rel_first_seen rel) (rel_last_seen rel),
         te_properties = entries (rel_properties rel)\<rparr> (tg_state g)\<rparr>"

definition tg_snapshot :: "instant \<Rightarrow> temporal_graph \<Rightarrow> temporal_graph" where
  "tg_snapshot t g =
     (let g1 = g\<lparr>tg_history := tg_history g @ [gs_snapshot t (tg_state g)]\<rparr>
      in g1\<lparr>tg_predictor := observe (last (tg_history g1)) (tg_predictor g1)\<rparr>)"

definition tg_state_at :: "instant \<Rightarrow> temporal_graph \<Rightarrow> graph_snapshot option" where
  "tg_state_at t g = history_state_at t (tg_history g)"

definition snapshot_count :: "temporal_graph \<Rightarrow> nat" where
  "snapshot_count g = length (tg_history g)"


section \<open>Runs of the engine\<close>

datatype graph_op = OpAddNode temporal_node | OpRemoveNode string | OpAddEdge temporal_edge
  | OpRemoveEdge string | OpIngest relationship | OpSnapshot instant

fun graph_step :: "(ulid \<Rightarrow> string) \<Rightarrow> (metadata \<Rightarrow> attrs) \<Rightarrow> graph_op \<Rightarrow> temporal_graph \<Rightarrow> temporal_graph" where
  "graph_step show_id entries (OpAddNode n) g = g\<lparr>tg_state := add_node n (tg_state g)\<rparr>"
| "graph_step show_id entries (OpRemoveNode i) g = g\<lparr>tg_state := remove_node i (tg_state g)\<rparr>"
| "graph_step show_id entries (OpAddEdge e) g = g\<lparr>tg_state := add_edge e (tg_state g)\<rparr>"
| "graph_step show_id entries (OpRemoveEdge i) g = g\<lparr>tg_state := remove_edge i (tg_state g)\<rparr>"
| "graph_step show_id entries (OpIngest rel) g = ingest_relationship show_id entries rel g"
| "graph_step show_id entries (OpSnapshot t) g = tg_snapshot t g"

definition graph_run ::
  "(ulid \<Rightarrow> string) \<Rightarrow> (metadata \<Rightarrow> attrs) \<Rightarrow> graph_op list \<Rightarrow> temporal_graph \<Rightarrow> temporal_graph" where
  "graph_run show_id entries ops g = fold (graph_step show_id entries) ops g"

lemma graph_run_simps [simp]:
  "graph_run show_id entries [] g = g"
  "graph_run show_id entries (op # ops) g = graph_run show_id entries ops (graph_step show_id entries op g)"
  "graph_run show_id entries (ops @ ops') g = graph_run show_id entries ops' (graph_run show_id entries ops g)"
  by (simp_all add: graph_run_def)

lemma step_history:
  "tg_history (graph_step show_id entries op g) =
     tg_history g @ (case op of OpSnapshot t \<Rightarrow> [gs_snapshot t (tg_state g)] | _ \<Rightarrow> [])"
  by (cases op) (simp_all add: ingest_relationship_def tg_snapshot_def Let_def)

text \<open>The history only grows, by the snapshots of the operations.\<close>

lemma run_history:
  "\<exists>new. tg_history (graph_run show_id entries ops g) = tg_history g @ new
     \<and> (\<forall>s\<in>set new. OpSnapshot (sn_timestamp s) \<in> set ops)"
proof (induction ops arbitrary: g)
  case (Cons op ops)
  obtain new where new: "tg_history (graph_run show_id entries ops (graph_step show_id entries op g))
      = tg_history (graph_step show_id entries op g) @ new" "\<forall>s\<in>set new. OpSnapshot (sn_timestamp s) \<in> set ops"
    using Cons by blast
  then show ?case
    by (intro exI [of _ "(case op of OpSnapshot t \<Rightarrow> [gs_snapshot t (tg_state g)] | _ \<Rightarrow> []) @ new"])
       (auto simp: step_history gs_snapshot_def split: graph_op.splits)
qed simp

text \<open>
  C28. The state of the graph at a past time is what the graph was when the last snapshot that is not
  later than that time was recorded, whatever the graph went through afterwards; without
  such a snapshot there is none.
\<close>

theorem past_state_is_the_last_snapshot:
  assumes "t \<le> time_q" "\<forall>t'. OpSnapshot t' \<in> set later \<longrightarrow> time_q < t'"
  shows "tg_state_at time_q (graph_run show_id entries (ops @ OpSnapshot t # later) tg_new)
        = Some (gs_snapshot t (tg_state (graph_run show_id entries ops tg_new)))
    \<and> tg_state_at time_q (graph_run show_id entries later tg_new) = None"
proof -
  have none: "List.find (\<lambda>s. sn_timestamp s \<le> time_q) (rev new @ old) = List.find (\<lambda>s. sn_timestamp s \<le> time_q) old"
    if "\<forall>s\<in>set new. time_q < sn_timestamp s" for new old
    using that by (induction new rule: rev_induct) auto
  have late: "\<exists>new. tg_history (graph_run show_id entries later g) = tg_history g @ new
      \<and> (\<forall>s\<in>set new. time_q < sn_timestamp s)" for g
    using run_history [of show_id entries later g] assms by blast
  have "tg_state_at time_q (graph_run show_id entries later tg_new) = None"
    using late [of tg_new] none [of _ "[]"] by (auto simp: tg_state_at_def history_state_at_def tg_new_def)
  let ?g = "graph_run show_id entries ops tg_new"
  have "tg_history (tg_snapshot t ?g) = tg_history ?g @ [gs_snapshot t (tg_state ?g)]"
    by (simp add: tg_snapshot_def Let_def)
  then obtain new where new: "tg_history (graph_run show_id entries later (tg_snapshot t ?g))
      = tg_history ?g @ gs_snapshot t (tg_state ?g) # new" "\<forall>s\<in>set new. time_q < sn_timestamp s"
    using late [of "tg_snapshot t ?g"] by auto
  have "tg_state_at time_q (graph_run show_id entries (ops @ OpSnapshot t # later) tg_new)
      = Some (gs_snapshot t (tg_state ?g))"
    using none [OF new(2), of "gs_snapshot t (tg_state ?g) # rev (tg_history ?g)"] assms(1)
    by (simp add: tg_state_at_def history_state_at_def new(1)) (simp add: gs_snapshot_def)
  with \<open>tg_state_at time_q (graph_run show_id entries later tg_new) = None\<close> show ?thesis by blast
qed

theorem past_state_is_the_last_snapshot_witness:
  "tg_state_at 7 (graph_run (\<lambda>_. []) (\<lambda>_. []) ([] @ OpSnapshot 5 # [OpRemoveNode ''a'', OpSnapshot 9]) tg_new)
     = Some (gs_snapshot 5 (tg_state tg_new))"
  using past_state_is_the_last_snapshot [of 5 7 "[OpRemoveNode ''a'', OpSnapshot 9]" "\<lambda>_. []" "\<lambda>_. []" "[]"]
  by simp

text \<open>A removed node takes its edges with it.\<close>

definition gs_wf :: "graph_state \<Rightarrow> bool" where
  "gs_wf g \<longleftrightarrow> distinct (map fst (gs_nodes g)) \<and> distinct (map fst (gs_edges g))
     \<and> (\<forall>(i, n)\<in>set (gs_nodes g). tn_id n = i) \<and> (\<forall>(i, e)\<in>set (gs_edges g). te_id e = i)"

lemma distinct_filter_keys: "distinct (map fst al) \<Longrightarrow> distinct (map fst (filter P al))"
  by (induction al) auto

lemma graph_step_wf: "gs_wf (tg_state g) \<Longrightarrow> gs_wf (tg_state (graph_step show_id entries op g))"
proof (cases op)
  case (OpAddNode n)
  assume "gs_wf (tg_state g)"
  with OpAddNode set_update_subset [of "tn_id n" n "gs_nodes (tg_state g)"] show ?thesis
    by (auto simp: gs_wf_def add_node_def distinct_update)
next
  case (OpAddEdge e)
  assume "gs_wf (tg_state g)"
  with OpAddEdge set_update_subset [of "te_id e" e "gs_edges (tg_state g)"] show ?thesis
    by (auto simp: gs_wf_def add_edge_def distinct_update)
next
  case (OpIngest rel)
  assume "gs_wf (tg_state g)"
  then show ?thesis unfolding OpIngest graph_step.simps ingest_relationship_def add_edge_def gs_wf_def
    using set_update_subset by (fastforce simp: distinct_update)
qed (auto simp: gs_wf_def remove_node_def remove_edge_def AList.delete_eq distinct_filter_keys
      tg_snapshot_def Let_def)

text \<open>An operation that brings a node back, as a node or as the end of an edge.\<close>

fun mentions :: "string \<Rightarrow> graph_op \<Rightarrow> bool" where
  "mentions i (OpAddNode n) \<longleftrightarrow> tn_id n = i"
| "mentions i (OpAddEdge e) \<longleftrightarrow> te_source_id e = i \<or> te_target_id e = i"
| "mentions i (OpIngest rel) \<longleftrightarrow> rel_source_id rel = i \<or> rel_target_id rel = i"
| "mentions i op \<longleftrightarrow> False"

definition free_of :: "string \<Rightarrow> temporal_node list \<Rightarrow> temporal_edge list \<Rightarrow> bool" where
  "free_of i ns es \<longleftrightarrow> (\<forall>n\<in>set ns. tn_id n \<noteq> i) \<and> (\<forall>e\<in>set es. te_source_id e \<noteq> i \<and> te_target_id e \<noteq> i)"

definition state_free :: "string \<Rightarrow> graph_state \<Rightarrow> bool" where
  "state_free i g \<longleftrightarrow> free_of i (map snd (gs_nodes g)) (map snd (gs_edges g))"

lemma step_free:
  assumes "state_free i (tg_state g)" "\<not> mentions i op"
  shows "state_free i (tg_state (graph_step show_id entries op g))"
proof -
  have upd: "x \<in> snd ` set (AList.update k v al) \<Longrightarrow> x = v \<or> x \<in> snd ` set al" for x k v and al :: "('k \<times> 'v) list"
    using set_update_subset [of k v al] by force
  have del: "x \<in> snd ` set (AList.delete k al) \<Longrightarrow> x \<in> snd ` set al" for x k and al :: "('k \<times> 'v) list"
    using set_delete_subset [of k al] by force
  show ?thesis
    using assms
    by (cases op) (auto simp: state_free_def free_of_def add_node_def add_edge_def remove_node_def remove_edge_def
        ingest_relationship_def tg_snapshot_def Let_def AList.delete_eq dest!: upd del
        dest: subsetD [OF set_update_subset])
qed

lemma run_free:
  assumes "gs_wf (tg_state g)" "state_free i (tg_state g)" "\<forall>op\<in>set later. \<not> mentions i op"
  shows "gs_wf (tg_state (graph_run show_id entries later g))
      \<and> state_free i (tg_state (graph_run show_id entries later g))
      \<and> (\<exists>new. tg_history (graph_run show_id entries later g) = tg_history g @ new
          \<and> (\<forall>s\<in>set new. free_of i (sn_nodes s) (sn_edges s)))"
  using assms
proof (induction later arbitrary: g)
  case (Cons op later)
  let ?g = "graph_step show_id entries op g"
  have g: "gs_wf (tg_state ?g)" "state_free i (tg_state ?g)"
    using Cons.prems graph_step_wf step_free by auto
  have snap: "free_of i (sn_nodes (gs_snapshot t (tg_state g))) (sn_edges (gs_snapshot t (tg_state g)))" for t
    using Cons.prems(2) by (auto simp: state_free_def free_of_def gs_snapshot_def)
  obtain new where "tg_history (graph_run show_id entries later ?g) = tg_history ?g @ new"
    "\<forall>s\<in>set new. free_of i (sn_nodes s) (sn_edges s)"
    using Cons.IH [OF g] Cons.prems(3) by auto
  then have "tg_history (graph_run show_id entries (op # later) g) = tg_history g
        @ ((case op of OpSnapshot t \<Rightarrow> [gs_snapshot t (tg_state g)] | _ \<Rightarrow> []) @ new)"
    "\<forall>s\<in>set ((case op of OpSnapshot t \<Rightarrow> [gs_snapshot t (tg_state g)] | _ \<Rightarrow> []) @ new).
        free_of i (sn_nodes s) (sn_edges s)"
    using snap by (auto simp: step_history split: graph_op.splits)
  with Cons.IH [OF g] Cons.prems(3) show ?case by (metis graph_run_simps(2) list.set_intros(2))
qed simp

text \<open>
  Once a node is removed, neither the state nor any later snapshot has the node or an edge from or
  to it, until an operation names it again.
\<close>

theorem removed_node_leaves_no_edges:
  assumes "gs_wf (tg_state g)" "\<forall>op\<in>set later. \<not> mentions i op"
  shows "let g' = graph_run show_id entries (OpRemoveNode i # later) g
    in gs_wf (tg_state g') \<and> state_free i (tg_state g')
       \<and> (\<forall>s\<in>set (drop (length (tg_history g)) (tg_history g')). free_of i (sn_nodes s) (sn_edges s))"
proof -
  let ?g = "graph_step show_id entries (OpRemoveNode i) g"
  have wf: "gs_wf (tg_state ?g)" by (rule graph_step_wf [OF assms(1)])
  have "state_free i (tg_state ?g)"
    using assms(1) by (auto simp: state_free_def free_of_def remove_node_def AList.delete_eq gs_wf_def)
  with run_free [OF wf _ assms(2), of show_id entries] show ?thesis
    by (auto simp: Let_def)
qed


theorem removed_node_leaves_no_edges_witness:
  "state_free ''a'' (tg_state (graph_run (\<lambda>_. []) (\<lambda>_. [])
     (OpRemoveNode ''a'' # [OpRemoveEdge ''e'', OpSnapshot 3]) tg_new))"
proof -
  have "gs_wf (tg_state tg_new)" by (simp add: gs_wf_def tg_new_def gs_new_def)
  moreover have "\<forall>op\<in>set [OpRemoveEdge ''e'', OpSnapshot 3]. \<not> mentions ''a'' op" by simp
  ultimately show ?thesis
    using removed_node_leaves_no_edges [of tg_new "[OpRemoveEdge ''e'', OpSnapshot 3]" "''a''" "\<lambda>_. []" "\<lambda>_. []"]
    unfolding Let_def by blast
qed

section \<open>What a difference records\<close>

definition apply_deltas :: "attribute_delta list \<Rightarrow> (string \<rightharpoonup> string) \<Rightarrow> (string \<rightharpoonup> string)" where
  "apply_deltas ds m = fold (\<lambda>d m. m(ad_key d := ad_new_value d)) ds m"

definition undo_deltas :: "attribute_delta list \<Rightarrow> (string \<rightharpoonup> string) \<Rightarrow> (string \<rightharpoonup> string)" where
  "undo_deltas ds m = fold (\<lambda>d m. m(ad_key d := ad_old_value d)) ds m"

lemma fold_upd:
  "fold (\<lambda>d m. m(f d := g (f d))) ds m = (\<lambda>k. if k \<in> f ` set ds then g k else m k)"
  by (induction ds arbitrary: m) (auto simp: fun_eq_iff)

lemma diff_attributes_values:
  assumes "d \<in> set (diff_attributes before after)"
  shows "ad_old_value d = map_of before (ad_key d)" "ad_new_value d = map_of after (ad_key d)"
    "map_of before (ad_key d) \<noteq> map_of after (ad_key d)"
  using assms by (auto simp: diff_attributes_def)

lemma diff_attributes_keys:
  "ad_key ` set (diff_attributes before after) = {k. map_of before k \<noteq> map_of after k}"
proof -
  have "k \<in> set (map fst before) \<union> set (map fst after)" if "map_of before k \<noteq> map_of after k" for k
    using that by (cases "map_of before k"; cases "map_of after k")
      (auto dest!: map_of_SomeD intro: rev_image_eqI)
  then show ?thesis by (auto simp: diff_attributes_def image_image)
qed

text \<open>
  The deltas of a node or an edge are complete and minimal: they name exactly the attributes that
  differ, in ascending order and once each; writing their new values into the old attributes gives
  the new attributes, and writing their old values into the new attributes gives the old.
\<close>

theorem deltas_replay_and_undo:
  "apply_deltas (diff_attributes before after) (map_of before) = map_of after
   \<and> undo_deltas (diff_attributes before after) (map_of after) = map_of before
   \<and> ad_key ` set (diff_attributes before after) = {k. map_of before k \<noteq> map_of after k}
   \<and> sorted_wrt (<) (map ad_key (diff_attributes before after))"
proof -
  let ?ds = "diff_attributes before after"
  have "apply_deltas ?ds m = fold (\<lambda>d m. m(ad_key d := map_of after (ad_key d))) ?ds m" for m
    unfolding apply_deltas_def by (rule fold_cong) (simp_all add: diff_attributes_values(2))
  moreover have "undo_deltas ?ds m = fold (\<lambda>d m. m(ad_key d := map_of before (ad_key d))) ?ds m" for m
    unfolding undo_deltas_def by (rule fold_cong) (simp_all add: diff_attributes_values(1))
  moreover have "sorted_wrt (<) (map ad_key ?ds)"
    by (simp add: diff_attributes_def comp_def sorted_wrt_filter)
  ultimately show ?thesis
    unfolding fold_upd diff_attributes_keys by (auto simp: fun_eq_iff diff_attributes_keys)
qed

lemma by_id_distinct:
  assumes "distinct (map f xs)"
  shows "by_id f xs = map (\<lambda>x. (f x, x)) xs"
proof -
  have upd: "k \<notin> fst ` set al \<Longrightarrow> AList.update k v al = al @ [(k, v)]" for k v and al :: "(string \<times> 'b) list"
    by (induction al) auto
  show ?thesis
    using assms unfolding by_id_def
    by (induction xs rule: rev_induct) (auto simp: upd image_image)
qed

lemma map_of_by_id:
  assumes "distinct (map f xs)"
  shows "map_of (by_id f xs) i = Some x \<longleftrightarrow> x \<in> set xs \<and> f x = i"
    and "map_of (by_id f xs) i = None \<longleftrightarrow> i \<notin> f ` set xs"
proof -
  have "distinct (map fst (by_id f xs))" using assms by (simp add: by_id_distinct comp_def)
  then show "map_of (by_id f xs) i = Some x \<longleftrightarrow> x \<in> set xs \<and> f x = i"
    using assms by (auto simp: by_id_distinct)
  show "map_of (by_id f xs) i = None \<longleftrightarrow> i \<notin> f ` set xs"
    using assms by (simp add: by_id_distinct map_of_eq_None_iff image_image)
qed

lemma all_by_id:
  assumes "distinct (map f xs)"
  shows "(\<forall>m\<in>set xs. f m = i \<longrightarrow> P m) \<longleftrightarrow> (case map_of (by_id f xs) i of None \<Rightarrow> True | Some a \<Rightarrow> P a)"
proof (cases "map_of (by_id f xs) i")
  case None
  with map_of_by_id(2) [OF assms] have "i \<notin> f ` set xs" by simp
  with None show ?thesis by auto
next
  case (Some a)
  then have "m \<in> set xs \<and> f m = i \<longleftrightarrow> m = a" for m using map_of_by_id(1) [OF assms, of i m] by auto
  with Some show ?thesis by (metis option.simps(5))
qed

definition same_node :: "temporal_node \<Rightarrow> temporal_node \<Rightarrow> bool" where
  "same_node m n \<longleftrightarrow> map_of (tn_attributes m) = map_of (tn_attributes n) \<and> tn_interval m = tn_interval n"

definition same_edge :: "temporal_edge \<Rightarrow> temporal_edge \<Rightarrow> bool" where
  "same_edge m n \<longleftrightarrow> map_of (te_properties m) = map_of (te_properties n) \<and> te_interval m = te_interval n"

lemma diff_attributes_empty: "diff_attributes before after = [] \<longleftrightarrow> map_of before = map_of after"
proof -
  have "diff_attributes before after = [] \<longleftrightarrow> ad_key ` set (diff_attributes before after) = {}" by simp
  also have "\<dots> \<longleftrightarrow> map_of before = map_of after" unfolding diff_attributes_keys by (auto simp: fun_eq_iff)
  finally show ?thesis .
qed

lemma node_changes_empty:
  assumes "distinct (map tn_id xs)" "distinct (map tn_id ys)"
  shows "node_changes (by_id tn_id xs) (by_id tn_id ys) = [] \<longleftrightarrow>
    (\<forall>m\<in>set xs. \<forall>n\<in>set ys. tn_id m = tn_id n \<longrightarrow> same_node m n)"
proof -
  have "(case map_of (by_id tn_id xs) (tn_id n) of None \<Rightarrow> [] | Some b \<Rightarrow>
      (let changes = diff_node_attributes b n; moved = (tn_interval b \<noteq> tn_interval n)
         in if changes \<noteq> [] \<or> moved then [\<lparr>nc_id = i, nc_attribute_changes = changes, nc_interval_changed = moved\<rparr>] else []))
      = [] \<longleftrightarrow> (\<forall>m\<in>set xs. tn_id m = tn_id n \<longrightarrow> same_node m n)" for n i
    unfolding all_by_id [OF assms(1), where P = "\<lambda>m. same_node m n"]
    by (auto simp: Let_def diff_node_attributes_def diff_attributes_empty same_node_def split: option.split)
  then show ?thesis
    unfolding node_changes_def by (subst by_id_distinct [OF assms(2)]) (auto simp: concat_eq_Nil_conv)
qed

lemma edge_changes_empty:
  assumes "distinct (map te_id xs)" "distinct (map te_id ys)"
  shows "edge_changes (by_id te_id xs) (by_id te_id ys) = [] \<longleftrightarrow>
    (\<forall>m\<in>set xs. \<forall>n\<in>set ys. te_id m = te_id n \<longrightarrow> same_edge m n)"
proof -
  have "(case map_of (by_id te_id xs) (te_id n) of None \<Rightarrow> [] | Some b \<Rightarrow>
      (let changes = diff_edge_properties b n; moved = (te_interval b \<noteq> te_interval n)
         in if changes \<noteq> [] \<or> moved then [\<lparr>ec_id = i, ec_property_changes = changes, ec_interval_changed = moved\<rparr>] else []))
      = [] \<longleftrightarrow> (\<forall>m\<in>set xs. te_id m = te_id n \<longrightarrow> same_edge m n)" for n i
    unfolding all_by_id [OF assms(1), where P = "\<lambda>m. same_edge m n"]
    by (auto simp: Let_def diff_edge_properties_def diff_attributes_empty same_edge_def split: option.split)
  then show ?thesis
    unfolding edge_changes_def by (subst by_id_distinct [OF assms(2)]) (auto simp: concat_eq_Nil_conv)
qed

lemma added_removed:
  assumes "distinct (map f xs)" "distinct (map f ys)"
  shows "added_items (by_id f xs) (by_id f ys) = filter (\<lambda>y. f y \<notin> f ` set xs) ys"
    and "removed_ids (by_id f xs) (by_id f ys) = filter (\<lambda>i. i \<notin> f ` set ys) (map f xs)"
proof -
  show "added_items (by_id f xs) (by_id f ys) = filter (\<lambda>y. f y \<notin> f ` set xs) ys"
    unfolding added_items_def map_of_by_id(2) [OF assms(1)]
    by (subst by_id_distinct [OF assms(2)]) (simp add: filter_map comp_def)
  show "removed_ids (by_id f xs) (by_id f ys) = filter (\<lambda>i. i \<notin> f ` set ys) (map f xs)"
    unfolding removed_ids_def map_of_by_id(2) [OF assms(2)]
    by (subst by_id_distinct [OF assms(1)]) (simp add: filter_map comp_def)
qed

definition snapshot_ok :: "graph_snapshot \<Rightarrow> bool" where
  "snapshot_ok s \<longleftrightarrow> distinct (map tn_id (sn_nodes s)) \<and> distinct (map te_id (sn_edges s))"

text \<open>
  The difference of two snapshots reports a change exactly if an identifier appeared or disappeared
  or an attribute or an interval differs. So a node with another kind or label and an edge with
  another kind, source or target are reported as unchanged.
\<close>

theorem diff_sees_attributes_and_intervals_only:
  assumes "snapshot_ok a" "snapshot_ok b"
  shows "has_changes (diff_between a b) \<longleftrightarrow>
    \<not> (tn_id ` set (sn_nodes a) = tn_id ` set (sn_nodes b) \<and> te_id ` set (sn_edges a) = te_id ` set (sn_edges b)
       \<and> (\<forall>m\<in>set (sn_nodes a). \<forall>n\<in>set (sn_nodes b). tn_id m = tn_id n \<longrightarrow> same_node m n)
       \<and> (\<forall>m\<in>set (sn_edges a). \<forall>n\<in>set (sn_edges b). te_id m = te_id n \<longrightarrow> same_edge m n))"
proof -
  have d: "distinct (map tn_id (sn_nodes a))" "distinct (map tn_id (sn_nodes b))"
    "distinct (map te_id (sn_edges a))" "distinct (map te_id (sn_edges b))"
    using assms by (auto simp: snapshot_ok_def)
  have "has_changes (diff_between a b) \<longleftrightarrow> \<not> (gd_added_nodes (diff_between a b) = [] \<and> gd_removed_nodes (diff_between a b) = []
      \<and> gd_added_edges (diff_between a b) = [] \<and> gd_removed_edges (diff_between a b) = []
      \<and> gd_modified_nodes (diff_between a b) = [] \<and> gd_modified_edges (diff_between a b) = [])"
    by (auto simp: has_changes_def change_count_def)
  then show ?thesis
    by (simp add: diff_between_def Let_def added_removed d node_changes_empty edge_changes_empty
        filter_empty_conv) blast
qed

definition edge_example :: "string \<Rightarrow> temporal_edge" where
  "edge_example target = \<lparr>te_id = ''e'', te_kind = ''links'', te_source_id = ''a'', te_target_id = target,
     te_interval = starting_at 0, te_properties = []\<rparr>"

theorem diff_sees_attributes_and_intervals_only_witness:
  "\<not> has_changes (diff_between \<lparr>sn_timestamp = 1, sn_nodes = [], sn_edges = [edge_example ''b'']\<rparr>
       \<lparr>sn_timestamp = 2, sn_nodes = [], sn_edges = [edge_example ''c'']\<rparr>)
   \<and> edge_example ''b'' \<noteq> edge_example ''c''"
  by (subst diff_sees_attributes_and_intervals_only)
     (simp_all add: snapshot_ok_def same_edge_def edge_example_def)

text \<open>The churn of the evolution analysis counts what the difference adds and removes.\<close>

lemma churn_counts_the_diff:
  assumes "snapshot_ok a" "snapshot_ok b"
  shows "churn tn_id (sn_nodes a) (sn_nodes b)
      = length (gd_added_nodes (diff_between a b)) + length (gd_removed_nodes (diff_between a b))"
proof -
  have d: "distinct (map tn_id (sn_nodes a))" "distinct (map tn_id (sn_nodes b))"
    using assms by (auto simp: snapshot_ok_def)
  have "length (filter (\<lambda>y. tn_id y \<notin> tn_id ` set (sn_nodes a)) (sn_nodes b))
      = length (filter (\<lambda>i. i \<notin> tn_id ` set (sn_nodes a)) (map tn_id (sn_nodes b)))"
    by (simp add: filter_map comp_def)
  also have "\<dots> = card (set (filter (\<lambda>i. i \<notin> tn_id ` set (sn_nodes a)) (map tn_id (sn_nodes b))))"
    using d(2) by (simp only: distinct_card distinct_filter)
  also have "set (filter (\<lambda>i. i \<notin> tn_id ` set (sn_nodes a)) (map tn_id (sn_nodes b)))
      = set (map tn_id (sn_nodes b)) - set (map tn_id (sn_nodes a))" by auto
  finally have "length (filter (\<lambda>y. tn_id y \<notin> tn_id ` set (sn_nodes a)) (sn_nodes b))
      = card (set (map tn_id (sn_nodes b)) - set (map tn_id (sn_nodes a)))" .
  moreover have "length (filter (\<lambda>i. i \<notin> tn_id ` set (sn_nodes b)) (map tn_id (sn_nodes a)))
      = card (set (map tn_id (sn_nodes a)) - set (map tn_id (sn_nodes b)))"
    using d(1) by (simp only: distinct_card [symmetric] distinct_filter) (rule arg_cong [where f = card], auto)
  ultimately show ?thesis
    by (simp add: churn_def diff_between_def Let_def added_removed d)
qed

section \<open>The predictor\<close>

lemma count_kinds:
  "(case map_of (fold (\<lambda>x. count_kind (f x)) xs m) k of None \<Rightarrow> 0 | Some c \<Rightarrow> c)
     = (case map_of m k of None \<Rightarrow> 0 | Some c \<Rightarrow> c) + length (filter (\<lambda>x. f x = k) xs)"
  by (induction xs arbitrary: m) (auto simp: count_kind_def update_conv' split: option.split)

text \<open>
  The frequencies of the predictor count, for each kind, the nodes and edges of that kind over all
  snapshots of the history, and the total counts them all.
\<close>

theorem predictor_counts_the_history:
  "let g = graph_run show_id entries ops tg_new
   in (case map_of (gp_node_type_frequencies (tg_predictor g)) k of None \<Rightarrow> 0 | Some c \<Rightarrow> c)
        = sum_list (map (\<lambda>s. length (filter (\<lambda>n. tn_kind n = k) (sn_nodes s))) (tg_history g))
      \<and> (case map_of (gp_edge_type_frequencies (tg_predictor g)) k of None \<Rightarrow> 0 | Some c \<Rightarrow> c)
        = sum_list (map (\<lambda>s. length (filter (\<lambda>e. te_kind e = k) (sn_edges s))) (tg_history g))
      \<and> gp_total_observations (tg_predictor g) = sum_list (map (\<lambda>s. node_count s + edge_count s) (tg_history g))"
proof (induction ops rule: rev_induct)
  case Nil
  show ?case by (simp add: tg_new_def)
next
  case (snoc op ops)
  then show ?case
    by (cases op) (simp_all add: Let_def ingest_relationship_def tg_snapshot_def observe_def count_kinds
        node_count_def edge_count_def)
qed

end
