(* ===== verification/Identity.thy ===== *)
theory Identity
  imports Prelude
begin

text \<open>
  \<^verbatim>\<open>src/crates/knowledge/src/identity.rs\<close>: the registry of resolved identities with its alias
  index, and the edit distance behind the fuzzy lookup. The hash maps that are iterated are
  association lists, whose order stands for the iteration order. Distances are naturals: the
  \<open>u32\<close> of the code would wrap only on texts of 2^32 bytes.
\<close>

section \<open>The edit distance\<close>

text \<open>
  One row of the table: \<open>left\<close> is the entry before, \<open>diag\<close> and \<open>up\<close> are the two entries of the
  previous row over it.
\<close>

fun lev_row :: "char \<Rightarrow> nat \<Rightarrow> nat list \<Rightarrow> string \<Rightarrow> nat list" where
  "lev_row c left (diag # up # prev) (y # b) =
     (let v = min (min (left + 1) (up + 1)) (diag + (if c = y then 0 else 1))
      in v # lev_row c v (up # prev) b)"
| "lev_row c left prev b = []"

definition lev_step :: "string \<Rightarrow> char \<Rightarrow> nat \<times> nat list \<Rightarrow> nat \<times> nat list" where
  "lev_step b c s = (case s of (i, prev) \<Rightarrow> (i + 1, (i + 1) # lev_row c (i + 1) prev b))"

definition levenshtein_distance :: "string \<Rightarrow> string \<Rightarrow> nat" where
  "levenshtein_distance a b =
     snd (fold (lev_step b) a (0, [0..<Suc (length b)])) ! length b"

text \<open>The reference: the recursion on the last characters.\<close>

fun lev :: "string \<Rightarrow> string \<Rightarrow> nat" where
  "lev [] b = length b"
| "lev a [] = length a"
| "lev (x # a) (y # b) =
     min (min (lev (x # a) b + 1) (lev a (y # b) + 1)) (lev a b + (if x = y then 0 else 1))"

text \<open>A text is turned into another by keeping, replacing, deleting and inserting characters.\<close>

inductive edits :: "nat \<Rightarrow> string \<Rightarrow> string \<Rightarrow> bool" where
  stop: "edits 0 [] []"
| keep: "edits k a b \<Longrightarrow> edits k (x # a) (x # b)"
| replace: "edits k a b \<Longrightarrow> edits (Suc k) (x # a) (y # b)"
| delete: "edits k a b \<Longrightarrow> edits (Suc k) (x # a) b"
| insert: "edits k a b \<Longrightarrow> edits (Suc k) a (y # b)"

lemma lev_Nil2 [simp]: "lev a [] = length a"
  by (cases a) simp_all

lemma edits_delete_all: "edits (length a) a []"
  by (induction a) (auto intro: edits.intros)

lemma edits_insert_all: "edits (length b) [] b"
  by (induction b) (auto intro: edits.intros)

lemma edits_lev: "edits (lev a b) a b"
proof (induction a b rule: lev.induct)
  case (3 x a y b)
  then show ?case
    by (auto simp: min_def intro: edits.intros)
qed (auto intro: edits_insert_all edits_delete_all edits.intros)

lemma lev_step_le:
  "lev (x # a) b \<le> Suc (lev a b)" "lev a (y # b) \<le> Suc (lev a b)"
  "lev (x # a) (x # b) \<le> lev a b" "lev (x # a) (y # b) \<le> Suc (lev a b)"
proof -
  show "lev (x # a) b \<le> Suc (lev a b)" by (cases b) simp_all
  show "lev a (y # b) \<le> Suc (lev a b)" by (cases a) simp_all
  show "lev (x # a) (x # b) \<le> lev a b" by simp
  show "lev (x # a) (y # b) \<le> Suc (lev a b)" by (simp add: min_le_iff_disj)
qed

lemma lev_least: "edits k a b \<Longrightarrow> lev a b \<le> k"
proof (induction rule: edits.induct)
  case (keep k a b x)
  with lev_step_le(3) [of x a b] show ?case by linarith
next
  case (replace k a b x y)
  with lev_step_le(4) [of x a y b] show ?case by linarith
next
  case (delete k a b x)
  with lev_step_le(1) [of x a b] show ?case by linarith
next
  case (insert k a b y)
  with lev_step_le(2) [of a y b] show ?case by linarith
qed simp

lemma edits_append: "edits k a b \<Longrightarrow> edits m c d \<Longrightarrow> edits (k + m) (a @ c) (b @ d)"
  by (induction rule: edits.induct) (auto intro: edits.intros)

lemma edits_rev: "edits k a b \<Longrightarrow> edits k (rev a) (rev b)"
proof (induction rule: edits.induct)
  case (keep k a b x)
  have "edits 0 [x] [x]" by (intro edits.intros)
  from edits_append [OF keep.IH this] show ?case by simp
next
  case (replace k a b x y)
  have "edits (Suc 0) [x] [y]" by (intro edits.intros)
  from edits_append [OF replace.IH this] show ?case by simp
next
  case (delete k a b x)
  have "edits (Suc 0) [x] []" by (intro edits.intros)
  from edits_append [OF delete.IH this] show ?case by simp
next
  case (insert k a b y)
  have "edits (Suc 0) [] [y]" by (intro edits.intros)
  from edits_append [OF insert.IH this] show ?case by simp
qed (auto intro: edits.intros)

lemma lev_rev: "lev (rev a) (rev b) = lev a b"
  by (metis antisym edits_lev edits_rev lev_least rev_rev_ident)

lemma lev_snoc:
  "lev (a @ [x]) (b @ [y]) =
     min (min (lev (a @ [x]) b + 1) (lev a (b @ [y]) + 1)) (lev a b + (if x = y then 0 else 1))"
  using lev.simps(3) [of x "rev a" y "rev b"] lev_rev [of "a @ [x]" "b @ [y]"] lev_rev [of "a @ [x]" b]
    lev_rev [of a "b @ [y]"] lev_rev [of a b] by simp

text \<open>The rows of the table hold the distances of the prefixes.\<close>

lemma lev_row_spec:
  "lev_row c (lev (a @ [c]) u) (map (\<lambda>j. lev a (u @ take j b)) [0..<Suc (length b)]) b
     = map (\<lambda>j. lev (a @ [c]) (u @ take j b)) [1..<Suc (length b)]"
proof (induction b arbitrary: u)
  case (Cons y b)
  have tail: "map (\<lambda>j. lev a (u @ take j (y # b))) [1..<Suc (length (y # b))]
      = map (\<lambda>j. lev a ((u @ [y]) @ take j b)) [0..<Suc (length b)]" for a
    by (simp add: map_Suc_upt [symmetric] del: upt_Suc map_Suc_upt)
  have split: "[0..<Suc (length (y # b))] = 0 # [1..<Suc (length (y # b))]"
    by (simp add: upt_conv_Cons del: upt_Suc)
  have split': "[0..<Suc (length b)] = 0 # [1..<Suc (length b)]"
    by (simp add: upt_conv_Cons del: upt_Suc)
  have "lev_row c (lev (a @ [c]) u) (map (\<lambda>j. lev a (u @ take j (y # b))) [0..<Suc (length (y # b))]) (y # b)
      = lev_row c (lev (a @ [c]) u) (lev a u # map (\<lambda>j. lev a ((u @ [y]) @ take j b)) [0..<Suc (length b)]) (y # b)"
    by (subst split) (simp only: list.map tail take_0 append_Nil2)
  also have "\<dots> = lev (a @ [c]) (u @ [y])
      # lev_row c (lev (a @ [c]) (u @ [y])) (map (\<lambda>j. lev a ((u @ [y]) @ take j b)) [0..<Suc (length b)]) b"
    by (subst (1 2) split') (simp add: Let_def lev_snoc del: upt_Suc)
  also have "\<dots> = map (\<lambda>j. lev (a @ [c]) ((u @ [y]) @ take j b)) [0..<Suc (length b)]"
    unfolding Cons.IH by (subst split') (simp del: upt_Suc)
  finally show ?case by (simp only: tail)
qed simp

lemma lev_rows:
  "fold (lev_step b) a (0, [0..<Suc (length b)])
     = (length a, map (\<lambda>j. lev a (take j b)) [0..<Suc (length b)])"
proof (induction a rule: rev_induct)
  case Nil
  have "map (\<lambda>j. lev [] (take j b)) [0..<Suc (length b)] = [0..<Suc (length b)]"
    by (rule map_idI) (auto simp: min_def)
  then show ?case by (simp del: upt_Suc)
next
  case (snoc c a)
  have "[0..<Suc (length b)] = 0 # [1..<Suc (length b)]"
    by (simp add: upt_conv_Cons del: upt_Suc)
  then have "map (\<lambda>j. lev (a @ [c]) (take j b)) [0..<Suc (length b)]
      = Suc (length a) # map (\<lambda>j. lev (a @ [c]) (take j b)) [1..<Suc (length b)]"
    by simp
  with lev_row_spec [of c a "[]" b] snoc show ?case
    by (simp add: lev_step_def del: upt_Suc)
qed

text \<open>
  C29. The table of the edit distance computes the least number of replacements, deletions and
  insertions that turn one text into the other.
\<close>

theorem edit_distance_is_least:
  "edits (levenshtein_distance a b) a b \<and> (edits k a b \<longrightarrow> levenshtein_distance a b \<le> k)"
proof -
  have "levenshtein_distance a b = lev a b"
    by (simp add: levenshtein_distance_def lev_rows del: upt_Suc)
  then show ?thesis using edits_lev lev_least by simp
qed


theorem edit_distance_is_least_witness:
  "levenshtein_distance ''kitten'' ''sitting'' \<le> 7"
proof -
  have "edits (length ''kitten'') ''kitten'' []" by (rule edits_delete_all)
  have "edits 6 (''kitten'' @ []) (''sittin'' @ [])"
    unfolding append_Nil2 by (simp add: numeral_eq_Suc) (intro edits.replace edits.stop)
  then have "edits (6 + 1) (''kitten'' @ []) (''sittin'' @ ''g'')"
    by (intro edits_append) (simp_all add: edits_insert_all [of "''g''", simplified])
  then show ?thesis using edit_distance_is_least [of "''kitten''" "''sitting''" 7] by simp
qed

section \<open>The resolver\<close>

record resolved_identity =
  ri_canonical_id :: string
  ri_aliases :: "(string \<times> string) list"
  ri_created_at :: instant

record identity_resolver =
  ir_resolved :: "(string \<times> resolved_identity) list"
  ir_alias_index :: "((string \<times> string) \<times> string) list"

definition ir_new :: identity_resolver where
  "ir_new = \<lparr>ir_resolved = [], ir_alias_index = []\<rparr>"

definition ir_register :: "resolved_identity \<Rightarrow> identity_resolver \<Rightarrow> identity_resolver" where
  "ir_register ident s = s\<lparr>
     ir_alias_index := fold (\<lambda>a. AList.update a (ri_canonical_id ident)) (ri_aliases ident) (ir_alias_index s),
     ir_resolved := AList.update (ri_canonical_id ident) ident (ir_resolved s)\<rparr>"

definition ir_resolve :: "identity_resolver \<Rightarrow> string \<Rightarrow> string \<Rightarrow> string option" where
  "ir_resolve s namespace val = map_of (ir_alias_index s) (namespace, val)"

definition resolve_by_fingerprint :: "identity_resolver \<Rightarrow> string \<Rightarrow> string option" where
  "resolve_by_fingerprint s fp = ir_resolve s ''fingerprint'' fp"

definition fuzzy_resolve :: "identity_resolver \<Rightarrow> string \<Rightarrow> string \<Rightarrow> nat \<Rightarrow> (string \<times> nat) list" where
  "fuzzy_resolve s namespace val threshold =
     sort_key snd (concat (map (\<lambda>((ns, alias), cid).
        (let dist = levenshtein_distance val alias
         in if dist \<le> threshold then [(ns @ '':'' @ alias @ '':'' @ cid, dist)] else [])) (ir_alias_index s)))"

definition ir_count :: "identity_resolver \<Rightarrow> nat" where
  "ir_count s = length (ir_resolved s)"

lemma update_all_get:
  "map_of (fold (\<lambda>a. AList.update a v) xs m) k = (if k \<in> set xs then Some v else map_of m k)"
  by (induction xs arbitrary: m) (auto simp: update_conv')

definition resolver_of :: "resolved_identity list \<Rightarrow> identity_resolver" where
  "resolver_of idents = fold ir_register idents ir_new"

lemma resolver_of_snoc: "resolver_of (xs @ [x]) = ir_register x (resolver_of xs)"
  by (simp add: resolver_of_def)

text \<open>
  An alias resolves to the identity that was registered with it last, and to nothing if no identity
  has it; the fuzzy lookup returns exactly the aliases within the distance, the nearest first, from
  every namespace, whichever namespace it is asked for.
\<close>

theorem resolver_answers:
  "ir_resolve (resolver_of idents) ns val
     = map_option ri_canonical_id (List.find (\<lambda>i. (ns, val) \<in> set (ri_aliases i)) (rev idents))
   \<and> sorted (map snd (fuzzy_resolve (resolver_of idents) other val threshold))
   \<and> set (fuzzy_resolve (resolver_of idents) other val threshold)
     = {(ns @ '':'' @ alias @ '':'' @ cid, lev val alias) | ns alias cid.
          ((ns, alias), cid) \<in> set (ir_alias_index (resolver_of idents)) \<and> lev val alias \<le> threshold}"
proof -
  have d: "levenshtein_distance a b = lev a b" for a b
    by (simp add: levenshtein_distance_def lev_rows del: upt_Suc)
  have "ir_resolve (resolver_of idents) ns val
     = map_option ri_canonical_id (List.find (\<lambda>i. (ns, val) \<in> set (ri_aliases i)) (rev idents))"
  proof (induction idents rule: rev_induct)
    case Nil
    show ?case by (simp add: resolver_of_def ir_new_def ir_resolve_def)
  next
    case (snoc x idents)
    then show ?case by (simp add: resolver_of_snoc ir_resolve_def ir_register_def update_all_get)
  qed
  moreover have "set (fuzzy_resolve s other val threshold)
     = {(ns @ '':'' @ alias @ '':'' @ cid, lev val alias) | ns alias cid.
          ((ns, alias), cid) \<in> set (ir_alias_index s) \<and> lev val alias \<le> threshold}" for s
    by (force simp: fuzzy_resolve_def d Let_def split: if_splits)
  ultimately show ?thesis by (simp add: fuzzy_resolve_def)
qed

end
