(* ===== verification/Fingerprint.thy ===== *)
theory Fingerprint
  imports Sketches "HOL-Library.Multiset"
begin

text \<open>
  \<^verbatim>\<open>src/crates/knowledge/src/fingerprint.rs\<close> and \<^verbatim>\<open>dedup.rs\<close>: fingerprints of content, their
  text and their distance, and the engine that finds duplicates by them. SHA-256 is the argument
  \<open>H\<close> and the bytes of a JSON value are the argument \<open>json_bytes\<close>; native byte order is little-endian.
\<close>

unbundle bit_operations_syntax

section \<open>Fingerprints\<close>

datatype fingerprint = Sha256 bytes | SimHash u64 | ContentHash bytes

definition fp_sha256 :: "hash \<Rightarrow> ('j \<Rightarrow> bytes) \<Rightarrow> 'j \<Rightarrow> fingerprint" where
  "fp_sha256 H json_bytes content = Sha256 (H (json_bytes content))"

definition fp_content_hash :: "hash \<Rightarrow> bytes \<Rightarrow> fingerprint" where
  "fp_content_hash H data = ContentHash (take 16 (H data))"

definition sha2token :: "hash \<Rightarrow> bytes \<Rightarrow> u64" where
  "sha2token H data = from_le_bytes (H data)"

text \<open>The 64 counters: up for a bit that is set, down for one that is not.\<close>

definition simhash_count :: "hash \<Rightarrow> bytes \<Rightarrow> int list \<Rightarrow> int list" where
  "simhash_count H token v =
     map (\<lambda>i. if bit (sha2token H token) i then v ! i + 1 else v ! i - 1) [0..<64]"

definition simhash :: "hash \<Rightarrow> bytes list \<Rightarrow> fingerprint" where
  "simhash H tokens =
     (let v = fold (simhash_count H) tokens (replicate 64 0)
      in SimHash (fold (\<lambda>i fp. if v ! i > 0 then fp OR push_bit i 1 else fp) [0..<64] 0))"

definition hex_digit :: "nat \<Rightarrow> char" where
  "hex_digit n = char_of (if n < 10 then 48 + n else 87 + n)"

definition hex_encode :: "bytes \<Rightarrow> string" where
  "hex_encode bs = concat (map (\<lambda>b. [hex_digit (unat b div 16), hex_digit (unat b mod 16)]) bs)"

definition fp_hex :: "fingerprint \<Rightarrow> string" where
  "fp_hex f = (case f of
     Sha256 b \<Rightarrow> hex_encode b
   | SimHash h \<Rightarrow> map (\<lambda>i. hex_digit (unat (drop_bit (4 * i) h AND 15))) (rev [0..<16])
   | ContentHash b \<Rightarrow> hex_encode b)"

definition count_ones :: "'a::len word \<Rightarrow> nat" where
  "count_ones w = length (filter (bit w) [0..<LENGTH('a)])"

definition bytes_distance :: "bytes \<Rightarrow> bytes \<Rightarrow> nat" where
  "bytes_distance a b = sum_list (map (\<lambda>(x, y). count_ones (x XOR y)) (zip a b))"

fun hamming_distance :: "fingerprint \<Rightarrow> fingerprint \<Rightarrow> nat option" where
  "hamming_distance (Sha256 a) (Sha256 b) = Some (bytes_distance a b)"
| "hamming_distance (SimHash a) (SimHash b) = Some (count_ones (a XOR b))"
| "hamming_distance (ContentHash a) (ContentHash b) = Some (bytes_distance a b)"
| "hamming_distance a b = None"

lemma simhash_counters:
  "fold (simhash_count H) tokens (replicate 64 0) =
     map (\<lambda>i. int (length (filter (\<lambda>t. bit (sha2token H t) i) tokens))
            - int (length (filter (\<lambda>t. \<not> bit (sha2token H t) i) tokens))) [0..<64]"
proof (induction tokens rule: rev_induct)
  case Nil
  show ?case by (simp add: map_replicate_const)
qed (simp add: simhash_count_def)

lemma fold_bits:
  "i < 64 \<Longrightarrow> bit (fold (\<lambda>i fp. if P i then fp OR push_bit i 1 else fp) is_n (w :: u64)) i
     \<longleftrightarrow> bit w i \<or> (i \<in> set is_n \<and> P i)"
  by (induction is_n arbitrary: w) (auto simp: bit_or_iff bit_exp_iff)

text \<open>
  A SimHash takes the majority: a bit is set exactly if more tokens have it set in their hash than
  not. So it does not depend on the order of the tokens, and a token that is added changes
  only bits at which the counts are within one of each other.
\<close>

theorem simhash_takes_the_majority:
  "\<exists>h. simhash H tokens = SimHash h
     \<and> (\<forall>i<64. bit h i \<longleftrightarrow> length tokens < 2 * length (filter (\<lambda>t. bit (sha2token H t) i) tokens))
     \<and> (\<forall>tokens'. mset tokens' = mset tokens \<longrightarrow> simhash H tokens' = simhash H tokens)"
proof -
  define h where "h tokens = fold (\<lambda>i fp. if fold (simhash_count H) tokens (replicate 64 0) ! i > 0
    then fp OR push_bit i 1 else fp) [0..<64] (0 :: u64)" for tokens
  have s: "simhash H tokens = SimHash (h tokens)" for tokens
    by (simp add: simhash_def h_def Let_def)
  have b: "bit (h tokens) i \<longleftrightarrow> length tokens < 2 * length (filter (\<lambda>t. bit (sha2token H t) i) tokens)"
    if "i < 64" for i tokens
  proof -
    have "length (filter (\<lambda>t. bit (sha2token H t) i) tokens) + length (filter (\<lambda>t. \<not> bit (sha2token H t) i) tokens)
        = length tokens" by (rule sum_length_filter_compl)
    then show ?thesis
      using that by (simp add: h_def fold_bits simhash_counters) linarith
  qed
  have same: "h tokens' = h tokens" if "mset tokens' = mset tokens" for tokens'
  proof (rule bit_word_eqI)
    fix i assume "i < LENGTH(64)"
    have "length (filter P tokens') = length (filter P tokens)" for P
      using that by (metis mset_filter size_mset)
    moreover have "length tokens' = length tokens" using that by (metis size_mset)
    ultimately show "bit (h tokens') i \<longleftrightarrow> bit (h tokens) i"
      using b [of i tokens] b [of i tokens'] \<open>i < LENGTH(64)\<close> by simp
  qed
  have "simhash H tokens' = simhash H tokens" if "mset tokens' = mset tokens" for tokens'
    unfolding s same [OF that] ..
  with s b show ?thesis by blast
qed

theorem simhash_takes_the_majority_witness:
  "simhash (\<lambda>bs. bs @ replicate 32 0) [[1], [2], [2]] = simhash (\<lambda>bs. bs @ replicate 32 0) [[2], [1], [2]]"
proof -
  have m: "mset [x, y, y] = mset [y, x, y]" for x y :: bytes by (simp add: add_mset_commute)
  have all: "\<forall>tokens'. mset tokens' = mset [[2], [1], [2]] \<longrightarrow>
      simhash (\<lambda>bs. bs @ replicate 32 0) tokens' = simhash (\<lambda>bs. bs @ replicate 32 0) [[2], [1], [2]]"
    using simhash_takes_the_majority [of "\<lambda>bs. bs @ replicate 32 0" "[[2], [1], [2]]"] by (elim exE conjE)
  show ?thesis by (rule all [THEN spec, THEN mp, OF m])
qed

section \<open>The distance\<close>

lemma count_ones_card: "count_ones w = card {i. bit w i}" for w :: "'a::len word"
proof -
  have "{i. bit w i} = set (filter (bit w) [0..<LENGTH('a)])"
    by (auto dest: bit_imp_le_length)
  then show ?thesis by (simp add: count_ones_def distinct_card del: set_filter)
qed

lemma xor_distance:
  fixes a b c :: "'a::len word"
  shows "count_ones (a XOR b) = count_ones (b XOR a)" "count_ones (a XOR b) = 0 \<longleftrightarrow> a = b"
    "count_ones (a XOR c) \<le> count_ones (a XOR b) + count_ones (b XOR c)"
proof -
  have f: "finite {i. bit w i}" for w :: "'a word"
    by (rule finite_subset [of _ "{..<LENGTH('a)}"]) (auto dest: bit_imp_le_length)
  show "count_ones (a XOR b) = count_ones (b XOR a)" by (simp add: xor.commute)
  have "count_ones w = 0 \<longleftrightarrow> w = 0" for w :: "'a word"
  proof -
    have "count_ones w = 0 \<longleftrightarrow> {i. bit w i} = {}" using f [of w] by (simp only: count_ones_card card_0_eq)
    also have "\<dots> \<longleftrightarrow> w = 0" by (auto intro: bit_word_eqI)
    finally show ?thesis .
  qed
  moreover have "a XOR b = 0 \<longleftrightarrow> a = b" by (metis xor.assoc xor.right_neutral xor_self_eq xor.left_neutral)
  ultimately show "count_ones (a XOR b) = 0 \<longleftrightarrow> a = b" by simp
  have "{i. bit (a XOR c) i} \<subseteq> {i. bit (a XOR b) i} \<union> {i. bit (b XOR c) i}"
    by (auto simp: bit_xor_iff)
  then have "card {i. bit (a XOR c) i} \<le> card ({i. bit (a XOR b) i} \<union> {i. bit (b XOR c) i})"
    by (intro card_mono) (simp_all add: f)
  also have "\<dots> \<le> card {i. bit (a XOR b) i} + card {i. bit (b XOR c) i}" by (rule card_Un_le)
  finally show "count_ones (a XOR c) \<le> count_ones (a XOR b) + count_ones (b XOR c)"
    by (simp add: count_ones_card)
qed


section \<open>Texts of fingerprints\<close>

definition fp_ok :: "fingerprint \<Rightarrow> bool" where
  "fp_ok f = (case f of Sha256 b \<Rightarrow> length b = 32 | SimHash h \<Rightarrow> True | ContentHash b \<Rightarrow> length b = 16)"

lemma of_char_hex_digit: "k < 16 \<Longrightarrow> (of_char (hex_digit k) :: nat) = (if k < 10 then 48 + k else 87 + k)"
  by (simp add: hex_digit_def of_char_of)

lemma hex_digit_inj: "m < 16 \<Longrightarrow> n < 16 \<Longrightarrow> hex_digit m = hex_digit n \<longleftrightarrow> m = n"
proof
  assume mn: "m < 16" "n < 16" and "hex_digit m = hex_digit n"
  then have "(if m < 10 then 48 + m else 87 + m) = (if n < 10 then 48 + n else 87 + n)"
    using of_char_hex_digit [of m] of_char_hex_digit [of n] by simp
  with mn show "m = n" by (simp split: if_splits)
qed simp

lemma hex_encode_length: "length (hex_encode bs) = 2 * length bs"
  by (induction bs) (simp_all add: hex_encode_def)

lemma hex_encode_inj: "hex_encode a = hex_encode b \<longleftrightarrow> a = b"
proof (induction a arbitrary: b)
  case Nil
  show ?case by (cases b) (simp_all add: hex_encode_def)
next
  case (Cons x a)
  show ?case
  proof (cases b)
    case (Cons y b')
    have "unat w < 256" for w :: u8 using unsigned_less [of w, where ?'a = nat] by simp
    then have "unat w div 16 < 16" for w :: u8 by (simp add: less_mult_imp_div_less)
    moreover have "unat x = unat y" if "unat x div 16 = unat y div 16" "unat x mod 16 = unat y mod 16"
      using that by (metis div_mult_mod_eq)
    ultimately show ?thesis
      using Cons.IH [of b'] by (auto simp: Cons hex_encode_def hex_digit_inj word_unat_eq_iff)
  qed (simp add: hex_encode_def)
qed

lemma nibble_bit: "j < 4 \<Longrightarrow> bit (drop_bit (4 * i) w AND 15) j \<longleftrightarrow> bit w (4 * i + j)" for w :: u64
proof -
  assume j: "j < 4"
  have "bit (15 :: u64) j" using bit_mask_iff [of 4 j, where ?'a = u64] j by (simp add: mask_eq_exp_minus_1)
  with j show ?thesis by (simp add: bit_and_iff bit_drop_bit_eq)
qed

lemma simhash_hex_inj:
  assumes "fp_hex (SimHash a) = fp_hex (SimHash b)"
  shows "a = b"
proof (rule bit_word_eqI)
  fix i assume "i < LENGTH(64)"
  then have i: "i div 4 < 16" "i = 4 * (i div 4) + i mod 4" "i mod 4 < 4" by auto
  have small: "unat (drop_bit k w AND 15) < 16" for k and w :: u64
    using word_and_le1 [of "drop_bit k w" 15] by (simp add: word_le_nat_alt)
  have "\<forall>k\<in>set (rev [0..<16]). hex_digit (unat (drop_bit (4 * k) a AND 15)) = hex_digit (unat (drop_bit (4 * k) b AND 15))"
    using assms unfolding fp_hex_def fingerprint.case map_eq_conv .
  then have "hex_digit (unat (drop_bit (4 * (i div 4)) a AND 15)) = hex_digit (unat (drop_bit (4 * (i div 4)) b AND 15))"
    using i(1) by (elim bspec) simp
  then have "unat (drop_bit (4 * (i div 4)) a AND 15) = unat (drop_bit (4 * (i div 4)) b AND 15)"
    by (simp only: hex_digit_inj [OF small small])
  then have "drop_bit (4 * (i div 4)) a AND 15 = drop_bit (4 * (i div 4)) b AND 15"
    by (simp only: word_unat_eq_iff)
  with nibble_bit [OF i(3), of "i div 4" a] nibble_bit [OF i(3), of "i div 4" b] i(2)
  show "bit a i \<longleftrightarrow> bit b i" by metis
qed

text \<open>The text of a fingerprint determines it, its variant included.\<close>

lemma fp_hex_inj:
  assumes "fp_ok f" "fp_ok g"
  shows "fp_hex f = fp_hex g \<longleftrightarrow> f = g"
proof
  assume eq: "fp_hex f = fp_hex g"
  have len: "length (fp_hex f) = (case f of Sha256 _ \<Rightarrow> 64 | SimHash _ \<Rightarrow> 16 | ContentHash _ \<Rightarrow> 32)" if "fp_ok f" for f
    using that by (cases f) (simp_all add: fp_hex_def fp_ok_def hex_encode_length)
  from len [OF assms(1)] len [OF assms(2)] eq show "f = g"
    using simhash_hex_inj by (cases f; cases g) (auto simp: fp_hex_def hex_encode_inj)
qed simp

section \<open>The duplicate engine\<close>

datatype dedup_strategy = Discard | KeepLinked | ReplaceIfHigher | MergeMetadata

text \<open>The similarity \<open>distance / 64\<close> is given by the distance.\<close>

record dedup_result =
  dr_is_duplicate :: bool
  dr_existing_id :: "string option"
  dr_distance :: nat
  dr_strategy :: dedup_strategy

record dedup_engine =
  de_exact_index :: "(string \<times> string) list"
  de_reverse_index :: "string \<rightharpoonup> string"
  de_simhashes :: "(string \<times> u64) list"

definition de_new :: dedup_engine where
  "de_new = \<lparr>de_exact_index = [], de_reverse_index = Map.empty, de_simhashes = []\<rparr>"

definition de_register :: "string \<Rightarrow> fingerprint \<Rightarrow> dedup_engine \<Rightarrow> dedup_engine" where
  "de_register kid f e = \<lparr>
     de_exact_index = AList.update (fp_hex f) kid (de_exact_index e),
     de_reverse_index = (de_reverse_index e)(kid \<mapsto> fp_hex f),
     de_simhashes = de_simhashes e @ (case f of SimHash h \<Rightarrow> [(kid, h)] | _ \<Rightarrow> [])\<rparr>"

definition check_exact :: "dedup_engine \<Rightarrow> fingerprint \<Rightarrow> dedup_result option" where
  "check_exact e f = map_option
     (\<lambda>kid. \<lparr>dr_is_duplicate = True, dr_existing_id = Some kid, dr_distance = 0, dr_strategy = Discard\<rparr>)
     (map_of (de_exact_index e) (fp_hex f))"

definition closer :: "nat \<Rightarrow> u64 \<Rightarrow> string \<times> u64 \<Rightarrow> (string \<times> nat) option \<Rightarrow> (string \<times> nat) option" where
  "closer threshold fp entry best =
     (case entry of (kid, h) \<Rightarrow>
        (let dist = count_ones (fp XOR h)
         in if dist \<le> threshold
            then (case best of
                    None \<Rightarrow> Some (kid, dist)
                  | Some (_, best_dist) \<Rightarrow> if dist < best_dist then Some (kid, dist) else best)
            else best))"

definition check_simhash :: "dedup_engine \<Rightarrow> fingerprint \<Rightarrow> nat \<Rightarrow> dedup_result option" where
  "check_simhash e f threshold =
     (case f of
        SimHash fp \<Rightarrow> map_option
          (\<lambda>(kid, dist). \<lparr>dr_is_duplicate = True, dr_existing_id = Some kid, dr_distance = dist,
             dr_strategy = KeepLinked\<rparr>)
          (fold (closer threshold fp) (de_simhashes e) None)
      | _ \<Rightarrow> None)"

definition de_unregister :: "string \<Rightarrow> dedup_engine \<Rightarrow> dedup_engine" where
  "de_unregister kid e =
     (let e1 = (case de_reverse_index e kid of
                  None \<Rightarrow> e
                | Some hex \<Rightarrow> e\<lparr>de_reverse_index := (de_reverse_index e)(kid := None),
                    de_exact_index := AList.delete hex (de_exact_index e)\<rparr>)
      in e1\<lparr>de_simhashes := filter (\<lambda>(k, h). k \<noteq> kid) (de_simhashes e1)\<rparr>)"

definition de_count :: "dedup_engine \<Rightarrow> nat" where
  "de_count e = length (de_exact_index e)"

definition registered :: "(string \<times> fingerprint) list \<Rightarrow> dedup_engine" where
  "registered xs = fold (\<lambda>(kid, f). de_register kid f) xs de_new"

lemma registered_snoc: "registered (xs @ [(k, f)]) = de_register k f (registered xs)"
  by (simp add: registered_def)

lemma exact_lookup:
  assumes "\<forall>(k, g)\<in>set xs. fp_ok g" "fp_ok f"
  shows "map_of (de_exact_index (registered xs)) (fp_hex f) = map_option fst (List.find (\<lambda>(k, g). g = f) (rev xs))"
  using assms(1)
proof (induction xs rule: rev_induct)
  case Nil
  show ?case by (simp add: registered_def de_new_def)
next
  case (snoc x xs)
  obtain k g where x: "x = (k, g)" by (cases x)
  from snoc show ?case
    by (auto simp: x registered_snoc de_register_def update_conv' fp_hex_inj assms(2))
qed

lemma check_exact_registered:
  assumes "\<forall>(k, g)\<in>set xs. fp_ok g" "fp_ok f"
  shows "map_option dr_existing_id (check_exact (registered xs) f)
      = map_option (Some \<circ> fst) (List.find (\<lambda>(k, g). g = f) (rev xs))"
  by (simp add: check_exact_def exact_lookup [OF assms] option.map_comp comp_def)

lemma closer_simps:
  "closer threshold fp (kid, h) None =
     (if count_ones (fp XOR h) \<le> threshold then Some (kid, count_ones (fp XOR h)) else None)"
  "closer threshold fp (kid, h) (Some (k, d)) =
     (if count_ones (fp XOR h) \<le> threshold \<and> count_ones (fp XOR h) < d
      then Some (kid, count_ones (fp XOR h)) else Some (k, d))"
  by (auto simp: closer_def Let_def)

lemma best_spec:
  "case fold (closer threshold fp) es None of
     None \<Rightarrow> \<forall>(k, h)\<in>set es. threshold < count_ones (fp XOR h)
   | Some (kid, dist) \<Rightarrow> dist \<le> threshold \<and> (\<exists>h. (kid, h) \<in> set es \<and> dist = count_ones (fp XOR h))
       \<and> (\<forall>(k, h)\<in>set es. dist \<le> count_ones (fp XOR h))"
proof (induction es rule: rev_induct)
  case (snoc x es)
  obtain kid h where x: "x = (kid, h)" by (cases x)
  show ?case
  proof (cases "fold (closer threshold fp) es None")
    case None
    with snoc show ?thesis by (auto simp: x closer_simps)
  next
    case (Some b)
    obtain k d where b: "b = (k, d)" by (cases b)
    with snoc Some show ?thesis by (auto simp: x closer_simps)
  qed
qed simp

text \<open>
  The exact check finds a fingerprint exactly if it was registered, and names the record that
  registered it last; the near check returns a nearest of the registered SimHashes if one is within
  the threshold, the threshold included, and nothing otherwise.
\<close>

theorem duplicates_are_found:
  assumes "\<forall>(k, g)\<in>set xs. fp_ok g" "fp_ok f"
  shows "map_option dr_existing_id (check_exact (registered xs) f)
      = map_option (Some \<circ> fst) (List.find (\<lambda>(k, g). g = f) (rev xs))
    \<and> (\<forall>fp threshold. case check_simhash (registered xs) (SimHash fp) threshold of
         None \<Rightarrow> \<forall>k h. (k, SimHash h) \<in> set xs \<longrightarrow> threshold < count_ones (fp XOR h)
       | Some r \<Rightarrow> dr_distance r \<le> threshold
           \<and> (\<exists>k h. dr_existing_id r = Some k \<and> (k, SimHash h) \<in> set xs \<and> dr_distance r = count_ones (fp XOR h))
           \<and> (\<forall>k h. (k, SimHash h) \<in> set xs \<longrightarrow> dr_distance r \<le> count_ones (fp XOR h)))"
proof -
  have sims: "(k, h) \<in> set (de_simhashes (registered xs)) \<longleftrightarrow> (k, SimHash h) \<in> set xs" for k h
  proof (induction xs rule: rev_induct)
    case Nil
    show ?case by (simp add: registered_def de_new_def)
  next
    case (snoc x xs)
    obtain k g where x: "x = (k, g)" by (cases x)
    from snoc show ?case by (auto simp: x registered_snoc de_register_def split: fingerprint.splits)
  qed
  have "case check_simhash (registered xs) (SimHash fp) threshold of
         None \<Rightarrow> \<forall>k h. (k, SimHash h) \<in> set xs \<longrightarrow> threshold < count_ones (fp XOR h)
       | Some r \<Rightarrow> dr_distance r \<le> threshold
           \<and> (\<exists>k h. dr_existing_id r = Some k \<and> (k, SimHash h) \<in> set xs \<and> dr_distance r = count_ones (fp XOR h))
           \<and> (\<forall>k h. (k, SimHash h) \<in> set xs \<longrightarrow> dr_distance r \<le> count_ones (fp XOR h))" for fp threshold
    using best_spec [where threshold = threshold and fp = fp and es = "de_simhashes (registered xs)"]
    by (cases "fold (closer threshold fp) (de_simhashes (registered xs)) None")
       (auto simp: check_simhash_def sims [symmetric] split_beta)
  with check_exact_registered [OF assms] show ?thesis by simp
qed

theorem duplicates_are_found_witness:
  "map_option dr_existing_id (check_exact (registered [(''a'', SimHash 7), (''b'', SimHash 7)]) (SimHash 7))
     = Some (Some ''b'')"
  using duplicates_are_found [of "[(''a'', SimHash 7), (''b'', SimHash 7)]" "SimHash 7"]
  by (simp add: fp_ok_def)

text \<open>
  The engine keeps one record per fingerprint. When two records have the same fingerprint and one
  of them is unregistered, the other is no longer found; and when a record is registered
  again with another fingerprint, unregistering it leaves its old fingerprint behind.
\<close>

theorem unregister_forgets_the_wrong_entry:
  assumes "k1 \<noteq> k2" "fp_hex f \<noteq> fp_hex g"
  shows "check_exact (de_unregister k1 (registered [(k1, f), (k2, f)])) f = None
    \<and> de_reverse_index (de_unregister k1 (registered [(k1, f), (k2, f)])) k2 = Some (fp_hex f)
    \<and> map_option dr_existing_id (check_exact (de_unregister k1 (registered [(k1, f), (k1, g)])) f) = Some (Some k1)
    \<and> de_count (registered [(k1, f), (k2, f)]) = 1"
  using assms by (simp add: registered_def de_register_def de_unregister_def de_new_def check_exact_def
      de_count_def Let_def)

theorem unregister_forgets_the_wrong_entry_witness:
  "check_exact (de_unregister ''a'' (registered [(''a'', SimHash 1), (''b'', SimHash 1)])) (SimHash 1) = None"
proof -
  have "fp_hex (SimHash 1) \<noteq> fp_hex (SimHash 2)" using simhash_hex_inj [of 1 2] by auto
  with unregister_forgets_the_wrong_entry [of "''a''" "''b''" "SimHash 1" "SimHash 2"] show ?thesis by simp
qed

end
