(* ===== verification/Knowledge.thy ===== *)
theory Knowledge
  imports Fingerprint Btree_Map Text_Chars Object_Model Floats Identity "HOL-Library.List_Lexorder" "HOL-Library.Char_ord"
begin

text \<open>
  \<^verbatim>\<open>src/crates/knowledge/src\<close>: \<open>canonical.rs\<close>, \<open>versioning.rs\<close>, \<open>provenance.rs\<close>, \<open>record.rs\<close> and
  \<open>lib.rs\<close>. JSON values have an arbitrary type of numbers; an object is a \<open>BTreeMap\<close>, as in
  \<open>serde_json\<close> without its option to keep the order of keys. The text of a value is the argument
  \<open>show_json\<close>, its bytes are \<open>json_bytes\<close> and SHA-256 is \<open>H\<close>.
\<close>

section \<open>JSON values and their normal forms\<close>

datatype 'n json =
    JNull
  | JBool bool
  | JNumber 'n
  | JString string
  | JArray "'n json list"
  | JObject "(string, 'n json) btree"

datatype normalization = SortedKeys | Lowercase | StripWhitespace | FullNormalization

record canonical_form =
  cf_normalized :: string
  cf_schema :: string

fun sort_keys :: "'n json \<Rightarrow> 'n json" where
  "sort_keys (JObject m) = JObject (bt_inserts (sort_key fst (map (\<lambda>(k, v). (k, sort_keys v)) m)) [])"
| "sort_keys (JArray xs) = JArray (map sort_keys xs)"
| "sort_keys v = v"

fun lowercase :: "'n json \<Rightarrow> 'n json" where
  "lowercase (JString s) = JString (to_lowercase s)"
| "lowercase (JObject m) = JObject (bt_inserts (map (\<lambda>(k, v). (to_lowercase k, lowercase v)) m) [])"
| "lowercase (JArray xs) = JArray (map lowercase xs)"
| "lowercase v = v"

fun strip_whitespace :: "'n json \<Rightarrow> 'n json" where
  "strip_whitespace (JString s) = JString (strip_spaces s)"
| "strip_whitespace (JObject m) = JObject (bt_inserts (map (\<lambda>(k, v). (k, strip_whitespace v)) m) [])"
| "strip_whitespace (JArray xs) = JArray (map strip_whitespace xs)"
| "strip_whitespace v = v"

definition normalize_json :: "normalization \<Rightarrow> 'n json \<Rightarrow> 'n json" where
  "normalize_json strategy v = (case strategy of
     SortedKeys \<Rightarrow> sort_keys v
   | Lowercase \<Rightarrow> lowercase v
   | StripWhitespace \<Rightarrow> strip_whitespace v
   | FullNormalization \<Rightarrow> strip_whitespace (lowercase (sort_keys v)))"

definition show_normalization :: "normalization \<Rightarrow> string" where
  "show_normalization s = (case s of SortedKeys \<Rightarrow> ''SortedKeys'' | Lowercase \<Rightarrow> ''Lowercase''
     | StripWhitespace \<Rightarrow> ''StripWhitespace'' | FullNormalization \<Rightarrow> ''Full'')"

definition canonicalize :: "('n json \<Rightarrow> string) \<Rightarrow> normalization \<Rightarrow> 'n json \<Rightarrow> canonical_form" where
  "canonicalize show_json strategy v =
     \<lparr>cf_normalized = show_json (normalize_json strategy v), cf_schema = show_normalization strategy\<rparr>"

text \<open>A value as \<open>serde_json\<close> builds it, and a value whose strings and keys two functions leave alone.\<close>

fun json_ok :: "'n json \<Rightarrow> bool" where
  "json_ok (JObject m) \<longleftrightarrow> bt_ordered m \<and> (\<forall>(k, v)\<in>set m. json_ok v)"
| "json_ok (JArray xs) \<longleftrightarrow> (\<forall>v\<in>set xs. json_ok v)"
| "json_ok v \<longleftrightarrow> True"

fun settled :: "(string \<Rightarrow> string) \<Rightarrow> (string \<Rightarrow> string) \<Rightarrow> 'n json \<Rightarrow> bool" where
  "settled f g (JString s) \<longleftrightarrow> f s = s"
| "settled f g (JObject m) \<longleftrightarrow> (\<forall>(k, v)\<in>set m. g k = k \<and> settled f g v)"
| "settled f g (JArray xs) \<longleftrightarrow> (\<forall>v\<in>set xs. settled f g v)"
| "settled f g v \<longleftrightarrow> True"

lemma bt_insert_last: "(\<forall>(k', v')\<in>set m. k' < k) \<Longrightarrow> bt_insert k v m = m @ [(k, v)]"
  by (induction m) auto

lemma bt_inserts_sorted: "bt_ordered (m @ xs) \<Longrightarrow> bt_inserts xs m = m @ xs"
proof (induction xs arbitrary: m)
  case (Cons x xs)
  obtain k v where x: "x = (k, v)" by (cases x)
  from Cons.prems have "\<forall>(k', v')\<in>set m. k' < k"
    by (auto simp: x bt_ordered_def sorted_wrt_append)
  with Cons show ?case by (simp add: x bt_inserts_def bt_insert_last)
qed (simp add: bt_inserts_def)

lemma bt_inserts_ordered_id: "bt_ordered xs \<Longrightarrow> bt_inserts xs [] = xs"
  using bt_inserts_sorted [of "[]" xs] by simp

lemma bt_insert_mem: "x \<in> set (bt_insert k v m) \<Longrightarrow> x = (k, v) \<or> x \<in> set m"
  by (induction m) (auto split: if_splits)

lemma bt_inserts_mem: "x \<in> set (bt_inserts xs m) \<Longrightarrow> x \<in> set xs \<or> x \<in> set m"
proof (induction xs arbitrary: m)
  case (Cons y xs)
  obtain k v where y: "y = (k, v)" by (cases y)
  from Cons.prems have "x \<in> set (bt_inserts xs (bt_insert k v m))" by (simp add: y bt_inserts_def)
  from Cons.IH [OF this] bt_insert_mem [of x k v m] show ?case by (auto simp: y)
qed (simp add: bt_inserts_def)

lemma bt_ordered_inserts [simp]: "bt_ordered (bt_inserts xs [])"
  by (rule bt_inserts_ordered) (simp add: bt_ordered_def)

lemma bt_ordered_map: "bt_ordered (map (\<lambda>(k, v). (k, f v)) m) \<longleftrightarrow> bt_ordered m"
  by (simp add: bt_ordered_def comp_def split_beta)

lemma sort_key_ordered: "bt_ordered m \<Longrightarrow> sort_key fst m = m"
  by (intro sort_key_id_if_sorted) (simp add: bt_ordered_def strict_sorted_iff)

lemma sort_keys_id: "json_ok v \<Longrightarrow> sort_keys v = v"
proof (induction v rule: sort_keys.induct)
  case (1 m)
  have "map (\<lambda>(k, v). (k, sort_keys v)) m = m" using 1 by (auto intro!: map_idI)
  with 1(2) show ?case by (simp add: sort_key_ordered bt_inserts_ordered_id)
qed (auto intro!: map_idI)

lemma json_ok_results [simp]: "json_ok (sort_keys v)" "json_ok (lowercase v)" "json_ok (strip_whitespace v)"
proof -
  show "json_ok (sort_keys v)"
    by (induction v rule: sort_keys.induct) (auto dest!: bt_inserts_mem)
  show "json_ok (lowercase v)"
    by (induction v rule: lowercase.induct) (auto dest!: bt_inserts_mem)
  show "json_ok (strip_whitespace v)"
    by (induction v rule: strip_whitespace.induct) (auto dest!: bt_inserts_mem)
qed

lemma lowercase_settled [simp]: "settled to_lowercase to_lowercase (lowercase v)"
  by (induction v rule: lowercase.induct) (auto dest!: bt_inserts_mem)

lemma strip_settled [simp]: "settled strip_spaces (\<lambda>k. k) (strip_whitespace v)"
  by (induction v rule: strip_whitespace.induct) (auto dest!: bt_inserts_mem)

lemma lower_strip: "to_lowercase s = s \<Longrightarrow> to_lowercase (strip_spaces s) = strip_spaces s"
  using lower_strip_lower [of s] by simp

lemma strip_keeps_lowercase:
  "settled to_lowercase to_lowercase v \<Longrightarrow> settled to_lowercase to_lowercase (strip_whitespace v)"
proof (induction v rule: strip_whitespace.induct)
  case (2 m)
  have "to_lowercase k = k \<and> settled to_lowercase to_lowercase (strip_whitespace v)" if "(k, v) \<in> set m" for k v
    using 2 that by fastforce
  then show ?case by (auto dest!: bt_inserts_mem)
qed (auto simp: lower_strip)

lemma lowercase_id: "json_ok v \<Longrightarrow> settled to_lowercase to_lowercase v \<Longrightarrow> lowercase v = v"
proof (induction v rule: lowercase.induct)
  case (2 m)
  have "(case x of (k, v) \<Rightarrow> (to_lowercase k, lowercase v)) = x" if "x \<in> set m" for x
    using 2 that by (cases x) fastforce
  then have "map (\<lambda>(k, v). (to_lowercase k, lowercase v)) m = m" by (intro map_idI)
  with 2(2) show ?case by (simp add: bt_inserts_ordered_id)
qed (auto intro!: map_idI)

lemma strip_id: "json_ok v \<Longrightarrow> settled strip_spaces (\<lambda>k. k) v \<Longrightarrow> strip_whitespace v = v"
proof (induction v rule: strip_whitespace.induct)
  case (2 m)
  have "(case x of (k, v) \<Rightarrow> (k, strip_whitespace v)) = x" if "x \<in> set m" for x
    using 2 that by (cases x) fastforce
  then have "map (\<lambda>(k, v). (k, strip_whitespace v)) m = m" by (intro map_idI)
  with 2(2) show ?case by (simp add: bt_inserts_ordered_id)
qed (auto intro!: map_idI)

text \<open>
  A canonical form is canonical: each of the four normalizations, applied to its own result,
  changes nothing, and the full one gives a value that the three others leave alone too.
\<close>

theorem canonical_form_is_stable:
  "normalize_json strategy (normalize_json strategy v) = normalize_json strategy v
    \<and> normalize_json strategy (normalize_json FullNormalization v) = normalize_json FullNormalization v"
proof -
  let ?full = "strip_whitespace (lowercase (sort_keys v))"
  have full: "sort_keys ?full = ?full" "lowercase ?full = ?full" "strip_whitespace ?full = ?full"
    by (simp_all add: sort_keys_id lowercase_id strip_id strip_keeps_lowercase)
  then show ?thesis
    by (cases strategy) (simp_all add: normalize_json_def sort_keys_id lowercase_id strip_id)
qed

text \<open>
  What the normalizations do to values as \<open>serde_json\<close> builds them: sorting the keys changes
  nothing, because they are sorted already. Two keys that differ in case only become one, and the
  entry of the first is lost from the canonical form; strings that differ in white space only, which
  is part of their content, get the same form.
\<close>

theorem canonical_form_loses_content:
  fixes v v1 v2 :: "'n json"
  assumes "json_ok v" "k1 < k2" "to_lowercase k1 = to_lowercase k2" "strip_spaces s1 = strip_spaces s2"
  shows "normalize_json SortedKeys v = v
    \<and> normalize_json Lowercase (JObject [(k1, v1), (k2, v2)]) = normalize_json Lowercase (JObject [(k2, v2)])
    \<and> normalize_json FullNormalization (JObject [(k1, v1), (k2, v2)]) = normalize_json FullNormalization (JObject [(k2, v2)])
    \<and> normalize_json StripWhitespace (JString s1 :: 'n json) = normalize_json StripWhitespace (JString s2)"
proof -
  have l: "lowercase (JObject [(k1, a), (k2, b)]) = lowercase (JObject [(k2, b)])" for a b :: "'n json"
    using assms(3) by (simp add: bt_inserts_def)
  have s: "sort_keys (JObject [(k1, a), (k2, b)]) = JObject [(k1, sort_keys a), (k2, sort_keys b)]"
    "sort_keys (JObject [(k2, b)]) = JObject [(k2, sort_keys b)]" for a b :: "'n json"
    using assms(2) by (simp_all add: bt_inserts_def less_imp_le order.strict_implies_not_eq [symmetric] not_less_iff_gr_or_eq)
  show ?thesis
    unfolding normalize_json_def normalization.case
    using assms(1,4) l s by (simp add: sort_keys_id del: lowercase.simps(2) sort_keys.simps(1) strip_whitespace.simps(2))
qed

theorem canonical_form_loses_content_witness:
  "normalize_json FullNormalization (JObject [(''A'', JNumber 1), (''a'', JNumber (2 :: nat))])
     = normalize_json FullNormalization (JObject [(''a'', JNumber 2)])"
proof -
  have "''A'' < ''a''" "to_lowercase ''A'' = to_lowercase ''a''" "strip_spaces ''x y'' = strip_spaces ''xy''"
    by code_simp+
  from canonical_form_loses_content [of JNull, OF _ this, of "JNumber 1" "JNumber (2 :: nat)"] show ?thesis by simp
qed

section \<open>Versions\<close>

record version_chain =
  vc_version :: u64
  vc_previous_id :: "string option"
  vc_next_id :: "string option"
  vc_created_at :: instant
  vc_reason :: string

type_synonym version_manager = "version_chain list"

definition vm_initial :: "host \<Rightarrow> version_chain \<times> host" where
  "vm_initial h = (let (now, h1) = now_utc h
     in (\<lparr>vc_version = 1, vc_previous_id = None, vc_next_id = None, vc_created_at = now,
          vc_reason = ''initial''\<rparr>, h1))"

definition next_version :: "version_chain \<Rightarrow> string \<Rightarrow> string \<Rightarrow> host \<Rightarrow> version_chain \<times> host" where
  "next_version previous knowledge_id reason h = (let (now, h1) = now_utc h
     in (\<lparr>vc_version = vc_version previous + 1, vc_previous_id = vc_next_id previous,
          vc_next_id = Some knowledge_id, vc_created_at = now, vc_reason = reason\<rparr>, h1))"

definition vm_record :: "version_chain \<Rightarrow> version_manager \<Rightarrow> version_manager" where
  "vm_record c vm = vm @ [c]"

definition vm_find :: "version_manager \<Rightarrow> string \<Rightarrow> version_chain option" where
  "vm_find vm knowledge_id = List.find (\<lambda>c. vc_next_id c = Some knowledge_id) vm"

text \<open>The walk ends if it meets no identifier twice; otherwise it does not, which is \<open>None\<close> here.\<close>

partial_function (option) history_loop ::
  "version_manager \<Rightarrow> version_chain list \<Rightarrow> string option \<Rightarrow> version_chain list option" where
  "history_loop vm acc current =
     (case current of
        None \<Rightarrow> Some acc
      | Some cid \<Rightarrow>
          (case List.find (\<lambda>c. vc_next_id c = Some cid) vm of
             Some c \<Rightarrow> history_loop vm (acc @ [c]) (vc_previous_id c)
           | None \<Rightarrow>
               (case List.find (\<lambda>c. vc_version c = 1 \<and> vc_next_id c = Some cid) vm of
                  Some c \<Rightarrow> Some (acc @ [c])
                | None \<Rightarrow> Some acc)))"

definition vm_history :: "version_manager \<Rightarrow> string \<Rightarrow> version_chain list option" where
  "vm_history vm knowledge_id = history_loop vm [] (Some knowledge_id)"

definition vm_count :: "version_manager \<Rightarrow> nat" where
  "vm_count vm = length vm"

section \<open>Provenance and confidence\<close>

record 'n provenance_step =
  ps_action :: string
  ps_actor :: string
  ps_inputs :: "string list"
  ps_params :: "'n json"
  ps_timestamp :: instant

record 'n provenance =
  pv_source_ids :: "string list"
  pv_producer :: string
  pv_chain :: "'n provenance_step list"
  pv_recorded_at :: instant

definition pv_new :: "string list \<Rightarrow> string \<Rightarrow> host \<Rightarrow> 'n provenance \<times> host" where
  "pv_new source_ids producer h = (let (now, h1) = now_utc h
     in (\<lparr>pv_source_ids = source_ids, pv_producer = producer, pv_chain = [], pv_recorded_at = now\<rparr>, h1))"

definition with_step :: "'n provenance_step \<Rightarrow> 'n provenance \<Rightarrow> 'n provenance" where
  "with_step st p = p\<lparr>pv_chain := pv_chain p @ [st]\<rparr>"

definition ps_new :: "string \<Rightarrow> string \<Rightarrow> string list \<Rightarrow> host \<Rightarrow> 'n provenance_step \<times> host" where
  "ps_new action actor inputs h = (let (now, h1) = now_utc h
     in (\<lparr>ps_action = action, ps_actor = actor, ps_inputs = inputs, ps_params = JNull, ps_timestamp = now\<rparr>, h1))"

definition with_params :: "'n json \<Rightarrow> 'n provenance_step \<Rightarrow> 'n provenance_step" where
  "with_params params st = st\<lparr>ps_params := params\<rparr>"

text \<open>\<open>clamp(0.0, 1.0)\<close>: a NaN stays a NaN.\<close>

definition confidence_new :: "f64 \<Rightarrow> f64" where
  "confidence_new raw = (if f64_less raw 0 then 0 else if f64_less 0x3FF0000000000000 raw then 0x3FF0000000000000 else raw)"

section \<open>Records and the core\<close>

record 'n knowledge_record =
  kr_id :: string
  kr_fingerprint :: fingerprint
  kr_kind :: string
  kr_content :: "'n json"
  kr_canonical_form :: canonical_form
  kr_confidence :: f64
  kr_version :: version_chain
  kr_provenance :: "'n provenance"
  kr_source_ids :: "string list"
  kr_metadata :: metadata
  kr_created_at :: instant

text \<open>What the code calls: SHA-256, the text and the bytes of a value, the text of an identifier.\<close>

record 'n knowledge_lib =
  kl_sha256 :: hash
  kl_show_json :: "'n json \<Rightarrow> string"
  kl_json_bytes :: "'n json \<Rightarrow> bytes"
  kl_show_id :: "ulid \<Rightarrow> string"

definition kr_new ::
  "'n knowledge_lib \<Rightarrow> string \<Rightarrow> string \<Rightarrow> 'n json \<Rightarrow> canonical_form \<Rightarrow> f64 \<Rightarrow> 'n provenance \<Rightarrow> host \<Rightarrow>
   'n knowledge_record \<times> host" where
  "kr_new L kid kind content canonical confidence prov h =
     (let (version, h1) = vm_initial h; (now, h2) = now_utc h1
      in (\<lparr>kr_id = kid, kr_fingerprint = fp_sha256 (kl_sha256 L) (kl_json_bytes L) content, kr_kind = kind,
           kr_content = content, kr_canonical_form = canonical, kr_confidence = confidence,
           kr_version = version, kr_provenance = prov, kr_source_ids = pv_source_ids prov,
           kr_metadata = Map.empty, kr_created_at = now\<rparr>, h2))"

definition with_metadata :: "string \<Rightarrow> string \<Rightarrow> 'n knowledge_record \<Rightarrow> 'n knowledge_record" where
  "with_metadata key v r = r\<lparr>kr_metadata := (kr_metadata r)(key \<mapsto> v)\<rparr>"

definition is_duplicate_of :: "'n knowledge_record \<Rightarrow> 'n knowledge_record \<Rightarrow> bool" where
  "is_duplicate_of a b \<longleftrightarrow> kr_fingerprint a = kr_fingerprint b"

definition fingerprint_distance :: "'n knowledge_record \<Rightarrow> 'n knowledge_record \<Rightarrow> nat option" where
  "fingerprint_distance a b = hamming_distance (kr_fingerprint a) (kr_fingerprint b)"

record knowledge_core =
  kc_identity :: identity_resolver
  kc_canonicalizer :: normalization
  kc_dedup :: dedup_engine
  kc_versions :: version_manager

definition kc_new :: knowledge_core where
  "kc_new = \<lparr>kc_identity = ir_new, kc_canonicalizer = FullNormalization, kc_dedup = de_new, kc_versions = []\<rparr>"

definition kc_ingest ::
  "'n knowledge_lib \<Rightarrow> 'n json knowledge \<Rightarrow> knowledge_core \<times> host \<Rightarrow> 'n knowledge_record \<times> knowledge_core \<times> host" where
  "kc_ingest L k s =
     (let (core, h) = s;
          kid = kl_show_id L (kn_id k);
          canonical = canonicalize (kl_show_json L) (kc_canonicalizer core) (kn_content k);
          (prov, h1) = pv_new (kn_source_ids k) ''knowledge_core'' h;
          fp = fp_sha256 (kl_sha256 L) (kl_json_bytes L) (kn_content k);
          (version, h2) = vm_initial h1;
          (now, h3) = now_utc h2;
          (recorded, h4) = vm_initial h3
      in (\<lparr>kr_id = kid, kr_fingerprint = fp, kr_kind = kn_kind k, kr_content = kn_content k,
           kr_canonical_form = canonical, kr_confidence = confidence_new (kn_confidence k),
           kr_version = version, kr_provenance = prov, kr_source_ids = kn_source_ids k,
           kr_metadata = kn_metadata k, kr_created_at = now\<rparr>,
          core\<lparr>kc_dedup := de_register kid fp (kc_dedup core),
               kc_versions := vm_record recorded (kc_versions core)\<rparr>, h4))"

definition revision_id :: "'n knowledge_record \<Rightarrow> string" where
  "revision_id previous = kr_id previous @ ''-v'' @ show_nat (unat (vc_version (kr_version previous) + 1))"

definition kc_revise ::
  "'n knowledge_lib \<Rightarrow> 'n knowledge_record \<Rightarrow> 'n json \<Rightarrow> string \<Rightarrow> knowledge_core \<times> host \<Rightarrow>
   'n knowledge_record \<times> knowledge_core \<times> host" where
  "kc_revise L previous content reason s =
     (let (core, h) = s;
          kid = revision_id previous;
          canonical = canonicalize (kl_show_json L) (kc_canonicalizer core) content;
          fp = fp_sha256 (kl_sha256 L) (kl_json_bytes L) content;
          (st, h1) = ps_new ''revised'' ''knowledge_core'' [kr_id previous] h;
          (version, h2) = next_version (kr_version previous) kid reason h1;
          (now, h3) = now_utc h2
      in (\<lparr>kr_id = kid, kr_fingerprint = fp, kr_kind = kr_kind previous, kr_content = content,
           kr_canonical_form = canonical, kr_confidence = kr_confidence previous, kr_version = version,
           kr_provenance = with_step st (kr_provenance previous), kr_source_ids = kr_source_ids previous,
           kr_metadata = kr_metadata previous, kr_created_at = now\<rparr>,
          core\<lparr>kc_dedup := de_register kid fp (kc_dedup core),
               kc_versions := vm_record version (kc_versions core)\<rparr>, h3))"

definition check_duplicate :: "'n knowledge_lib \<Rightarrow> knowledge_core \<Rightarrow> 'n json \<Rightarrow> dedup_result option" where
  "check_duplicate L core content = check_exact (kc_dedup core) (fp_sha256 (kl_sha256 L) (kl_json_bytes L) content)"

section \<open>What a history holds\<close>

declare history_loop.simps [simp del]

lemma history_found:
  "List.find (\<lambda>c. vc_next_id c = Some cid) vm = Some c
   \<Longrightarrow> history_loop vm acc (Some cid) = history_loop vm (acc @ [c]) (vc_previous_id c)"
  by (subst history_loop.simps) simp

lemma history_end [simp]: "history_loop vm acc None = Some acc"
  by (subst history_loop.simps) simp

lemma history_unknown:
  assumes "List.find (\<lambda>c. vc_next_id c = Some cid) vm = None"
  shows "history_loop vm acc (Some cid) = Some acc"
proof -
  have "List.find (\<lambda>c. vc_version c = 1 \<and> vc_next_id c = Some cid) vm = None"
    using assms by (simp add: find_None_iff)
  then show ?thesis using assms by (subst history_loop.simps) simp
qed

lemma find_someD: "List.find P xs = Some x \<Longrightarrow> x \<in> set xs \<and> P x"
  by (induction xs) (auto split: if_splits)

text \<open>Identifiers of successors are longer, by a suffix of three characters at least.\<close>

definition growing :: "version_manager \<Rightarrow> bool" where
  "growing vm \<longleftrightarrow> (\<forall>c\<in>set vm. \<forall>i. vc_next_id c = Some i \<longrightarrow>
     3 \<le> length i \<and> (\<forall>p. vc_previous_id c = Some p \<longrightarrow> length p + 3 \<le> length i))"

lemma growing_history:
  "growing vm \<Longrightarrow> \<exists>r. history_loop vm acc (Some cid) = Some (acc @ r) \<and> 3 * length r \<le> length cid"
proof (induction "length cid" arbitrary: cid acc rule: less_induct)
  case less
  show ?case
  proof (cases "List.find (\<lambda>c. vc_next_id c = Some cid) vm")
    case None
    then show ?thesis by (intro exI [of _ "[]"]) (simp add: history_unknown)
  next
    case (Some c)
    then have c: "3 \<le> length cid" "\<And>p. vc_previous_id c = Some p \<Longrightarrow> length p + 3 \<le> length cid"
      using less.prems find_someD [OF Some] unfolding growing_def by blast+
    show ?thesis
    proof (cases "vc_previous_id c")
      case None
      with c(1) show ?thesis by (intro exI [of _ "[c]"]) (simp add: history_found [OF Some])
    next
      case (Some p)
      with c(2) have len: "length p + 3 \<le> length cid" by blast
      then obtain r where "history_loop vm (acc @ [c]) (Some p) = Some ((acc @ [c]) @ r)" "3 * length r \<le> length p"
        using less.hyps [of p "acc @ [c]"] less.prems by auto
      with len show ?thesis
        by (intro exI [of _ "c # r"])
           (simp add: history_found [OF \<open>List.find (\<lambda>c. vc_next_id c = Some cid) vm = Some c\<close>] Some)
    qed
  qed
qed

datatype 'n knowledge_op = OpIngestKnowledge "'n json knowledge" | OpRevise nat "'n json" string

text \<open>Calls of a core; the records it returned are numbered and may be revised in any order.\<close>

fun kc_step ::
  "'n knowledge_lib \<Rightarrow> 'n knowledge_op \<Rightarrow> 'n knowledge_record list \<times> knowledge_core \<times> host \<Rightarrow>
   'n knowledge_record list \<times> knowledge_core \<times> host" where
  "kc_step L (OpIngestKnowledge k) (rs, s) = (let (r, s') = kc_ingest L k s in (rs @ [r], s'))"
| "kc_step L (OpRevise i content reason) (rs, s) =
     (if i < length rs then let (r, s') = kc_revise L (rs ! i) content reason s in (rs @ [r], s') else (rs, s))"

definition kc_run ::
  "'n knowledge_lib \<Rightarrow> 'n knowledge_op list \<Rightarrow> host \<Rightarrow> 'n knowledge_record list \<times> knowledge_core \<times> host" where
  "kc_run L ops h = fold (kc_step L) ops ([], kc_new, h)"

definition made_by :: "'n knowledge_lib \<Rightarrow> 'n knowledge_record \<Rightarrow> bool" where
  "made_by L r \<longleftrightarrow> vc_next_id (kr_version r) \<in> {None, Some (kr_id r)}
     \<and> kr_fingerprint r = fp_sha256 (kl_sha256 L) (kl_json_bytes L) (kr_content r)
     \<and> kr_canonical_form r = canonicalize (kl_show_json L) FullNormalization (kr_content r)"

definition kc_ok :: "'n knowledge_lib \<Rightarrow> 'n knowledge_record list \<times> knowledge_core \<times> host \<Rightarrow> bool" where
  "kc_ok L st = (case st of (rs, core, h) \<Rightarrow>
     kc_canonicalizer core = FullNormalization \<and> growing (kc_versions core)
     \<and> list_all (made_by L) rs \<and> length (kc_versions core) = length rs
     \<and> kc_dedup core = registered (map (\<lambda>r. (kr_id r, kr_fingerprint r)) rs))"

lemma revision_longer: "length (kr_id r) + 3 \<le> length (revision_id r)"
proof -
  have "show_nat n \<noteq> []" for n by (subst show_nat.simps) simp
  then show ?thesis by (simp add: revision_id_def Suc_le_eq)
qed

lemma kc_step_ok: "kc_ok L st \<Longrightarrow> kc_ok L (kc_step L op st)"
proof (cases op)
  case (OpIngestKnowledge k)
  obtain rs core h where st: "st = (rs, core, h)" by (cases st)
  assume "kc_ok L st"
  then show ?thesis
    by (auto simp: OpIngestKnowledge st kc_ok_def kc_ingest_def Let_def split_beta growing_def vm_record_def
        vm_initial_def made_by_def registered_snoc)
next
  case (OpRevise i content reason)
  obtain rs core h where st: "st = (rs, core, h)" by (cases st)
  assume ok: "kc_ok L st"
  show ?thesis
  proof (cases "i < length rs")
    case True
    then have "made_by L (rs ! i)" using ok by (simp add: st kc_ok_def list_all_length)
    then have "length p + 3 \<le> length (revision_id (rs ! i))" if "vc_next_id (kr_version (rs ! i)) = Some p" for p
      using revision_longer [of "rs ! i"] that by (auto simp: made_by_def)
    with ok True revision_longer [of "rs ! i"] show ?thesis
      by (auto simp: OpRevise st kc_ok_def kc_revise_def Let_def split_beta growing_def vm_record_def
          next_version_def made_by_def registered_snoc)
  qed (use ok in \<open>simp add: OpRevise st\<close>)
qed

lemma kc_run_ok: "kc_ok L (kc_run L ops h)"
proof -
  have "kc_ok L st \<Longrightarrow> kc_ok L (fold (kc_step L) ops st)" for st
    by (induction ops arbitrary: st) (simp_all add: kc_step_ok)
  moreover have "kc_ok L ([], kc_new, h)"
    by (simp add: kc_ok_def kc_new_def growing_def registered_def)
  ultimately show ?thesis by (simp add: kc_run_def)
qed

text \<open>
  Histories end. However records were ingested and revised, also a record several times or an old
  one after a newer one, the walk from any identifier ends, and its versions are at most a
  third as many as the identifier has characters.
\<close>

theorem knowledge_histories_end:
  "\<exists>r. vm_history (kc_versions (fst (snd (kc_run L ops h)))) cid = Some r \<and> 3 * length r \<le> length cid"
  using kc_run_ok [of L ops h] growing_history [of "kc_versions (fst (snd (kc_run L ops h)))" "[]" cid]
  by (auto simp: kc_ok_def vm_history_def split_beta)

text \<open>
  The record is public, and so is \<open>record\<close>: a chain whose predecessor is itself is accepted,
  and the walk over it never ends.
\<close>

lemma loop_never_ends:
  assumes "history_loop vm acc current = Some r"
  shows "\<not> (current = Some cid \<and> List.find (\<lambda>c. vc_next_id c = Some cid) vm = Some c \<and> vc_previous_id c = Some cid)"
  by (rule history_loop.raw_induct [where P = "\<lambda>vm acc current r.
        \<not> (current = Some cid \<and> List.find (\<lambda>c. vc_next_id c = Some cid) vm = Some c \<and> vc_previous_id c = Some cid)",
      OF _ assms]) (auto, blast)

lemma self_linked_history_never_ends:
  assumes "vc_next_id c = Some cid" "vc_previous_id c = Some cid"
  shows "vm_history (vm_record c []) cid = None"
proof (rule ccontr)
  assume "vm_history (vm_record c []) cid \<noteq> None"
  then obtain r where "history_loop [c] [] (Some cid) = Some r" by (auto simp: vm_history_def vm_record_def)
  from loop_never_ends [OF this, of cid c] assms show False by simp
qed

section \<open>Revisions of one record\<close>

fun revise_all ::
  "'n knowledge_lib \<Rightarrow> 'n knowledge_record \<Rightarrow> ('n json \<times> string) list \<Rightarrow> knowledge_core \<times> host \<Rightarrow>
   'n knowledge_record list \<times> knowledge_core \<times> host" where
  "revise_all L r [] s = ([], s)"
| "revise_all L r ((content, reason) # es) s =
     (let (r', s1) = kc_revise L r content reason s; (rs, s2) = revise_all L r' es s1 in (r' # rs, s2))"

lemma revise_result:
  "kr_id (fst (kc_revise L r content reason s)) = revision_id r"
  "vc_next_id (kr_version (fst (kc_revise L r content reason s))) = Some (revision_id r)"
  "vc_previous_id (kr_version (fst (kc_revise L r content reason s))) = vc_next_id (kr_version r)"
  "vc_version (kr_version (fst (kc_revise L r content reason s))) = vc_version (kr_version r) + 1"
  "kc_versions (fst (snd (kc_revise L r content reason s)))
     = kc_versions (fst s) @ [kr_version (fst (kc_revise L r content reason s))]"
  by (simp_all add: kc_revise_def next_version_def vm_record_def Let_def split_beta)

lemma revise_all_versions:
  "kc_versions (fst (snd (revise_all L r es s))) = kc_versions (fst s) @ map kr_version (fst (revise_all L r es s))"
proof (induction es arbitrary: r s)
  case (Cons e es)
  then show ?case by (cases e) (simp add: Let_def split_beta revise_result)
qed simp

lemma revise_all_length: "length (fst (revise_all L r es s)) = length es"
proof (induction es arbitrary: r s)
  case (Cons e es)
  then show ?case by (cases e) (simp add: Let_def split_beta)
qed simp

text \<open>Each revision is linked to the one before.\<close>

lemma revise_all_links:
  "j < length es \<Longrightarrow>
     vc_next_id (kr_version (fst (revise_all L r es s) ! j)) = Some (kr_id (fst (revise_all L r es s) ! j))
   \<and> vc_previous_id (kr_version (fst (revise_all L r es s) ! j)) = vc_next_id (kr_version ((r # fst (revise_all L r es s)) ! j))
   \<and> vc_version (kr_version (fst (revise_all L r es s) ! j)) = vc_version (kr_version r) + of_nat (Suc j)
   \<and> prefix (kr_id r @ ''-v'') (kr_id (fst (revise_all L r es s) ! j))
   \<and> length (kr_id r) + j < length (kr_id (fst (revise_all L r es s) ! j))"
proof (induction es arbitrary: r s j)
  case (Cons e es)
  obtain content reason where e: "e = (content, reason)" by (cases e)
  let ?r' = "fst (kc_revise L r content reason s)" and ?s1 = "snd (kc_revise L r content reason s)"
  have all: "fst (revise_all L r (e # es) s) = ?r' # fst (revise_all L ?r' es ?s1)"
    by (simp add: e Let_def split_beta)
  have p: "prefix (kr_id r @ ''-v'') (kr_id ?r')"
    by (simp add: revise_result revision_id_def)
  have l: "length (kr_id r) < length (kr_id ?r')"
    using revision_longer [of r] by (simp add: revise_result)
  show ?case
  proof (cases j)
    case 0
    with p l show ?thesis unfolding all by (simp add: revise_result)
  next
    case (Suc i)
    with Cons.prems have "i < length es" by simp
    from Cons.IH [OF this, of ?r' ?s1] p l Suc show ?thesis unfolding all
      by (auto simp: revise_result algebra_simps prefix_def)
  qed
qed simp

lemma revisions_distinct:
  "i < j \<Longrightarrow> j < length es \<Longrightarrow>
   length (kr_id (fst (revise_all L r es s) ! i)) < length (kr_id (fst (revise_all L r es s) ! j))"
proof (induction es arbitrary: r s i j)
  case (Cons e es)
  obtain content reason where e: "e = (content, reason)" by (cases e)
  let ?r' = "fst (kc_revise L r content reason s)" and ?s1 = "snd (kc_revise L r content reason s)"
  have all: "fst (revise_all L r (e # es) s) = ?r' # fst (revise_all L ?r' es ?s1)"
    by (simp add: e Let_def split_beta)
  from Cons.prems obtain k where k: "j = Suc k" "k < length es" by (cases j) auto
  show ?case
  proof (cases i)
    case 0
    with k revise_all_links [OF k(2), of L ?r' ?s1] show ?thesis unfolding all by simp
  next
    case (Suc m)
    with k Cons.prems Cons.IH [of m k ?r' ?s1] show ?thesis unfolding all by simp
  qed
qed simp

lemma find_append: "List.find P (xs @ ys) = (case List.find P xs of None \<Rightarrow> List.find P ys | Some x \<Rightarrow> Some x)"
  by (induction xs) auto

lemma find_mapped:
  "(\<And>x. x \<in> set xs \<Longrightarrow> P (f x) \<longleftrightarrow> Q x) \<Longrightarrow>
     map_option g (List.find P (map f xs)) = map_option (g \<circ> f) (List.find Q xs)"
  by (induction xs) auto

lemma find_nth:
  "j < length xs \<Longrightarrow> P (xs ! j) \<Longrightarrow> (\<And>i. i < j \<Longrightarrow> \<not> P (xs ! i)) \<Longrightarrow> List.find P xs = Some (xs ! j)"
proof (induction xs arbitrary: j)
  case (Cons x xs)
  show ?case
  proof (cases j)
    case (Suc k)
    with Cons.prems(3) [of 0] have "\<not> P x" by simp
    moreover have "List.find P xs = Some (xs ! k)"
      using Cons.prems Suc by (intro Cons.IH) force+
    ultimately show ?thesis using Suc by simp
  qed (use Cons.prems in simp)
qed simp

lemma history_walk:
  assumes "\<And>j. j < n \<Longrightarrow> List.find (\<lambda>c. vc_next_id c = Some (ids j)) vm = Some (cs j)
      \<and> vc_previous_id (cs j) = (if j = 0 then None else Some (ids (j - 1)))"
  shows "j < n \<Longrightarrow> history_loop vm acc (Some (ids j)) = Some (acc @ rev (map cs [0..<Suc j]))"
proof (induction j arbitrary: acc)
  case 0
  with assms [of 0] show ?case by (simp add: history_found)
next
  case (Suc j)
  with assms [of "Suc j"] Suc.IH [of "acc @ [cs (Suc j)]"] show ?case by (simp add: history_found)
qed

lemma revised_history:
  assumes fresh: "\<And>c i. c \<in> set (kc_versions (fst s)) \<Longrightarrow> vc_next_id c = Some i \<Longrightarrow> \<not> prefix (kr_id r @ ''-v'') i"
    and first: "vc_next_id (kr_version r) = None" and j: "j < length es"
  shows "vm_history (kc_versions (fst (snd (revise_all L r es s)))) (kr_id (fst (revise_all L r es s) ! j))
    = Some (rev (map kr_version (take (Suc j) (fst (revise_all L r es s)))))"
proof -
  let ?rs = "fst (revise_all L r es s)" and ?vm = "kc_versions (fst (snd (revise_all L r es s)))"
  note links = revise_all_links [of _ es L r s]
  have len: "length ?rs = length es" by (rule revise_all_length)
  have found: "List.find (\<lambda>c. vc_next_id c = Some (kr_id (?rs ! i))) ?vm = Some (kr_version (?rs ! i))"
    if i: "i < length es" for i
  proof -
    have old: "List.find (\<lambda>c. vc_next_id c = Some (kr_id (?rs ! i))) (kc_versions (fst s)) = None"
      using fresh links [OF i] by (auto simp: find_None_iff)
    have "List.find (\<lambda>c. vc_next_id c = Some (kr_id (?rs ! i))) (map kr_version ?rs) = Some (map kr_version ?rs ! i)"
    proof (rule find_nth)
      fix k assume k: "k < i"
      with i have "vc_next_id (kr_version (?rs ! k)) = Some (kr_id (?rs ! k))" using links [of k] by simp
      moreover have "kr_id (?rs ! k) \<noteq> kr_id (?rs ! i)" using revisions_distinct [OF k i, of L r s] by auto
      ultimately show "vc_next_id (map kr_version ?rs ! k) \<noteq> Some (kr_id (?rs ! i))" using k i len by simp
    qed (use i links len in simp_all)
    with i len show ?thesis by (simp add: revise_all_versions find_append old)
  qed
  have prev: "vc_previous_id (kr_version (?rs ! i)) = (if i = 0 then None else Some (kr_id (?rs ! (i - 1))))"
    if i: "i < length es" for i
    using links [OF i] links [of "i - 1"] i first by (cases i) simp_all
  have "history_loop ?vm [] (Some (kr_id (?rs ! j))) = Some ([] @ rev (map (\<lambda>i. kr_version (?rs ! i)) [0..<Suc j]))"
    using found prev by (intro history_walk [where n = "length es"] conjI j) simp_all
  moreover have "map (\<lambda>i. kr_version (?rs ! i)) [0..<Suc j] = map kr_version (take (Suc j) ?rs)"
    using j len by (intro nth_equalityI) (simp_all del: upt_Suc)
  ultimately show ?thesis by (simp only: vm_history_def append_Nil)
qed

text \<open>
  C30. The history of a record that was revised again and again: from the \<open>j\<close>-th revision the walk gives
  the versions of the revisions from that one back to the first, numbered downwards, each with its
  reason. The version of the record itself, which the documentation says the walk ends with,
  is not among them, and from the record itself the walk gives nothing: the first version
  carries no identifier.
\<close>

theorem history_is_the_revisions:
  assumes "kc_ingest L k s = (r, s1)" and "revise_all L r es s1 = (rs, core, h)" and "j < length es"
    and "\<And>c i. c \<in> set (kc_versions (fst s)) \<Longrightarrow> vc_next_id c = Some i \<Longrightarrow> \<not> prefix (kr_id r) i"
  shows "vm_history (kc_versions core) (kr_id (rs ! j)) = Some (rev (map kr_version (take (Suc j) rs)))
    \<and> map vc_version (rev (map kr_version (take (Suc j) rs))) = rev (map (\<lambda>n. of_nat n + 2) [0..<Suc j])
    \<and> vm_history (kc_versions core) (kr_id r) = Some []"
proof -
  have r: "vc_next_id (kr_version r) = None" "vc_version (kr_version r) = 1"
    and s1: "\<And>c i. c \<in> set (kc_versions (fst s1)) \<Longrightarrow> vc_next_id c = Some i \<Longrightarrow> \<not> prefix (kr_id r) i"
    using assms(1,4) by (auto simp: kc_ingest_def vm_initial_def vm_record_def Let_def split_beta)
  have rs: "rs = fst (revise_all L r es s1)" "core = fst (snd (revise_all L r es s1))" using assms(2) by simp_all
  have len: "length rs = length es" unfolding rs by (rule revise_all_length)
  have fresh: "\<not> prefix (kr_id r @ ''-v'') i" if "c \<in> set (kc_versions (fst s1))" "vc_next_id c = Some i" for c i
    using s1 [OF that] by (auto simp: prefix_def)
  have "vc_version (kr_version (rs ! i)) = of_nat i + 2" if "i < length es" for i
    using revise_all_links [OF that, of L r s1] r(2) unfolding rs by simp
  then have "map vc_version (map kr_version (take (Suc j) rs)) = map (\<lambda>n. of_nat n + 2) [0..<Suc j]"
    using assms(3) len by (intro nth_equalityI) (simp_all del: upt_Suc)
  then have "map vc_version (rev (map kr_version (take (Suc j) rs))) = rev (map (\<lambda>n. of_nat n + 2) [0..<Suc j])"
    by (simp only: rev_map [symmetric])
  moreover have "List.find (\<lambda>c. vc_next_id c = Some (kr_id r)) (kc_versions core) = None"
  proof -
    have "vc_next_id (kr_version x) \<noteq> Some (kr_id r)" if "x \<in> set rs" for x
    proof -
      from that obtain i where i: "i < length es" "x = rs ! i" using len by (auto simp: in_set_conv_nth)
      from revise_all_links [OF i(1), of L r s1] show ?thesis unfolding i(2) rs by auto
    qed
    moreover have "vc_next_id c \<noteq> Some (kr_id r)" if "c \<in> set (kc_versions (fst s1))" for c
      using s1 [OF that] by auto
    ultimately show ?thesis by (auto simp: find_None_iff rs(2) revise_all_versions rs(1) [symmetric])
  qed
  moreover have "vm_history (kc_versions core) (kr_id (rs ! j)) = Some (rev (map kr_version (take (Suc j) rs)))"
    unfolding rs by (rule revised_history [OF _ r(1) assms(3)]) (rule fresh)
  ultimately show ?thesis by (simp only: vm_history_def history_unknown simp_thms)
qed

definition sample_lib :: "nat knowledge_lib" where
  "sample_lib = \<lparr>kl_sha256 = (\<lambda>bs. take 32 (bs @ replicate 32 0)), kl_show_json = (\<lambda>v. ''json''),
     kl_json_bytes = (\<lambda>v. if v = JNull then [0] else [1]), kl_show_id = (\<lambda>i. ''K'')\<rparr>"

definition sample_knowledge :: "nat json knowledge" where
  "sample_knowledge = \<lparr>kn_id = 1, kn_kind = ''test'', kn_content = JNull, kn_confidence = 0,
     kn_source_ids = [], kn_created_at = 0, kn_metadata = Map.empty\<rparr>"

definition sample_host :: host where
  "sample_host = \<lparr>clock = (\<lambda>n. int n), millis = (\<lambda>n. of_nat n), ulids = (\<lambda>n. of_nat n), calls = 0\<rparr>"

theorem history_is_the_revisions_witness:
  "case kc_ingest sample_lib sample_knowledge (kc_new, sample_host) of (r, s1) \<Rightarrow>
   case revise_all sample_lib r [(JNull, ''a''), (JBool True, ''b'')] s1 of (rs, core, h) \<Rightarrow>
     map_option (map vc_version) (vm_history (kc_versions core) (kr_id (rs ! 1))) = Some [3, 2]"
proof -
  obtain r s1 where i: "kc_ingest sample_lib sample_knowledge (kc_new, sample_host) = (r, s1)"
    by (cases "kc_ingest sample_lib sample_knowledge (kc_new, sample_host)")
  obtain rs core h where a: "revise_all sample_lib r [(JNull, ''a''), (JBool True, ''b'')] s1 = (rs, core, h)"
    using prod_cases3 by blast
  from history_is_the_revisions [OF i a, of 1] have
    "vm_history (kc_versions core) (kr_id (rs ! 1)) = Some (rev (map kr_version (take (Suc 1) rs)))
     \<and> map vc_version (rev (map kr_version (take (Suc 1) rs))) = rev (map (\<lambda>n. of_nat n + 2) [0..<Suc 1])"
    by (simp add: kc_new_def)
  moreover have "rev (map (\<lambda>n. of_nat n + 2) [0..<Suc 1]) = [3, 2 :: u64]" by simp
  ultimately show ?thesis unfolding i prod.case a by (elim conjE) (simp only: option.map)
qed

text \<open>
  Two revisions of the same record get the same identifier. Looking it up gives the version of the
  first, so the second is in no history, and the duplicate engine forgets which fingerprint the
  first had.
\<close>

theorem second_revision_is_unreachable:
  assumes "kc_revise L r c1 reason1 s = (a, s1)" and "kc_revise L r c2 reason2 s1 = (b, s2)"
    and "\<And>c. c \<in> set (kc_versions (fst s)) \<Longrightarrow> vc_next_id c \<noteq> Some (revision_id r)"
  shows "kr_id b = kr_id a \<and> vm_find (kc_versions (fst s2)) (kr_id b) = Some (kr_version a)
    \<and> de_reverse_index (kc_dedup (fst s2)) (kr_id a) = Some (fp_hex (kr_fingerprint b))"
proof -
  have a: "a = fst (kc_revise L r c1 reason1 s)" "s1 = snd (kc_revise L r c1 reason1 s)"
    and b: "b = fst (kc_revise L r c2 reason2 s1)" "s2 = snd (kc_revise L r c2 reason2 s1)"
    using assms(1,2) by simp_all
  have ids: "kr_id a = revision_id r" "kr_id b = revision_id r"
    unfolding a(1) b(1) by (rule revise_result)+
  have vs: "kc_versions (fst s2) = kc_versions (fst s) @ [kr_version a, kr_version b]"
    unfolding a(1) b(1) b(2) by (simp only: revise_result a(2) append_assoc append_Cons append_Nil)
  have next_a: "vc_next_id (kr_version a) = Some (revision_id r)" unfolding a(1) by (rule revise_result)
  have old: "List.find (\<lambda>c. vc_next_id c = Some (revision_id r)) (kc_versions (fst s)) = None"
    using assms(3) by (auto simp: find_None_iff)
  have "vm_find (kc_versions (fst s2)) (kr_id b) = Some (kr_version a)"
    by (simp add: vm_find_def ids vs find_append old next_a)
  moreover have "de_reverse_index (kc_dedup (fst s2)) (kr_id b) = Some (fp_hex (kr_fingerprint b))"
    unfolding b by (simp add: kc_revise_def de_register_def Let_def split_beta)
  ultimately show ?thesis using ids by simp
qed

theorem second_revision_is_unreachable_witness:
  "case kc_ingest sample_lib sample_knowledge (kc_new, sample_host) of (r, s) \<Rightarrow>
   case kc_revise sample_lib r JNull ''a'' s of (a, s1) \<Rightarrow>
   case kc_revise sample_lib r (JBool True) ''b'' s1 of (b, s2) \<Rightarrow>
     kr_id b = kr_id a \<and> vm_find (kc_versions (fst s2)) (kr_id b) = Some (kr_version a)"
proof -
  obtain r s where i: "kc_ingest sample_lib sample_knowledge (kc_new, sample_host) = (r, s)"
    by (cases "kc_ingest sample_lib sample_knowledge (kc_new, sample_host)")
  obtain a s1 where a: "kc_revise sample_lib r JNull ''a'' s = (a, s1)"
    by (cases "kc_revise sample_lib r JNull ''a'' s")
  obtain b s2 where b: "kc_revise sample_lib r (JBool True) ''b'' s1 = (b, s2)"
    by (cases "kc_revise sample_lib r (JBool True) ''b'' s1")
  have "vc_next_id c \<noteq> Some (revision_id r)" if "c \<in> set (kc_versions (fst s))" for c
  proof -
    have "kc_versions (fst s) = [fst (vm_initial (snd (now_utc (snd (vm_initial (snd (now_utc sample_host)))))))]"
      using i by (auto simp: kc_ingest_def kc_new_def vm_record_def pv_new_def Let_def split_beta)
    with that show ?thesis by (simp add: vm_initial_def Let_def split_beta)
  qed
  from second_revision_is_unreachable [OF a b this]
  have "kr_id b = kr_id a \<and> vm_find (kc_versions (fst s2)) (kr_id b) = Some (kr_version a)" by blast
  then show ?thesis unfolding i prod.case a b .
qed

text \<open>
  After any calls of the core, a duplicate is a value whose bytes have the same hash as the bytes of
  a record, and the newest such record is named. The canonical form, which every record
  carries and which is the full one, has no part in it: values with the same canonical form but
  different bytes are not duplicates. Nothing is refused: each call adds a record and a version.
\<close>

theorem duplicates_are_judged_by_bytes:
  assumes "\<forall>bs. length (kl_sha256 L bs) = 32"
  shows "case kc_run L ops h of (rs, core, h') \<Rightarrow>
    map_option dr_existing_id (check_duplicate L core v)
      = map_option (Some \<circ> kr_id) (List.find (\<lambda>r. kl_sha256 L (kl_json_bytes L (kr_content r)) = kl_sha256 L (kl_json_bytes L v)) (rev rs))
    \<and> list_all (\<lambda>r. kr_canonical_form r = canonicalize (kl_show_json L) FullNormalization (kr_content r)) rs
    \<and> vm_count (kc_versions core) = length rs"
proof -
  obtain rs core h' where run: "kc_run L ops h = (rs, core, h')" using prod_cases3 by blast
  have ok: "length (kc_versions core) = length rs" "list_all (made_by L) rs"
    "kc_dedup core = registered (map (\<lambda>r. (kr_id r, kr_fingerprint r)) rs)"
    using kc_run_ok [of L ops h] by (simp_all add: run kc_ok_def)
  let ?xs = "map (\<lambda>r. (kr_id r, kr_fingerprint r)) rs" and ?f = "fp_sha256 (kl_sha256 L) (kl_json_bytes L) v"
  have fps: "kr_fingerprint r = Sha256 (kl_sha256 L (kl_json_bytes L (kr_content r)))" if "r \<in> set rs" for r
    using ok(2) that by (auto simp: list_all_iff made_by_def fp_sha256_def)
  have "\<forall>(k, g)\<in>set ?xs. fp_ok g" "fp_ok ?f"
    using assms fps by (auto simp: fp_ok_def fp_sha256_def)
  from check_exact_registered [OF this]
  have "map_option dr_existing_id (check_duplicate L core v)
      = map_option (Some \<circ> fst) (List.find (\<lambda>(k, g). g = ?f) (map (\<lambda>r. (kr_id r, kr_fingerprint r)) (rev rs)))"
    by (simp add: check_duplicate_def ok(3) rev_map)
  also have "\<dots> = map_option (Some \<circ> kr_id)
      (List.find (\<lambda>r. kl_sha256 L (kl_json_bytes L (kr_content r)) = kl_sha256 L (kl_json_bytes L v)) (rev rs))"
    using fps by (subst find_mapped [where Q = "\<lambda>r. kl_sha256 L (kl_json_bytes L (kr_content r)) = kl_sha256 L (kl_json_bytes L v)"])
      (auto simp: fp_sha256_def comp_def)
  finally show ?thesis
    using ok(1,2) by (simp add: run vm_count_def list_all_iff made_by_def)
qed

theorem duplicates_are_judged_by_bytes_witness:
  "case kc_run sample_lib [OpIngestKnowledge sample_knowledge] sample_host of (rs, core, h') \<Rightarrow>
    vm_count (kc_versions core) = length rs"
proof -
  have "\<forall>bs. length (kl_sha256 sample_lib bs) = 32" by (auto simp: sample_lib_def min_def)
  from duplicates_are_judged_by_bytes [where ops = "[OpIngestKnowledge sample_knowledge]" and h = sample_host, OF this]
  show ?thesis by (simp add: split_beta)
qed

end
