(* ===== verification/Tdxl_Positions.thy ===== *)
theory Tdxl_Positions
  imports Tdxl_Syntax
begin

text \<open>
  The positions the lexer of \<open>src/crates/tdxl/src/lexer.rs\<close> reports. The line and the column of
  a place in a text are defined from the text alone; the lemmas show that the lexer's counters
  always describe the place it has reached, so that every token and every lexical error carries
  the position of a place of the source.
\<close>

text \<open>
  The place before the character with index \<open>k\<close>: its line is one more than the newlines before it, its
  column one more than the characters since the last of them.
\<close>

definition text_position :: "string \<Rightarrow> nat \<Rightarrow> nat \<times> nat" where
  "text_position src k =
     (Suc (count_list (take k src) newline),
      Suc (length (takeWhile (\<lambda>c. c \<noteq> newline) (rev (take k src)))))"

definition text_positions :: "string \<Rightarrow> (nat \<times> nat) set" where
  "text_positions src = text_position src ` {..length src}"

definition at_text :: "string \<Rightarrow> lexer \<Rightarrow> bool" where
  "at_text src lx \<longleftrightarrow> lx_chars lx = src \<and> lx_pos lx \<le> length src \<and>
     (lx_line lx, lx_col lx) = text_position src (lx_pos lx)"

lemma at_text_position: "at_text src lx \<Longrightarrow> (lx_line lx, lx_col lx) \<in> text_positions src"
  by (auto simp: at_text_def text_positions_def)

lemma at_text_new: "at_text src (lx_new src)"
  by (simp add: at_text_def lx_new_def text_position_def)

lemma text_position_Suc:
  assumes "k < length src"
  shows "text_position src (Suc k) =
    (if src ! k = newline then (Suc (fst (text_position src k)), 1)
     else (fst (text_position src k), Suc (snd (text_position src k))))"
  using assms by (simp add: text_position_def take_Suc_conv_app_nth)

lemma at_text_advance: "at_text src lx \<Longrightarrow> at_text src (snd (lx_advance lx))"
  using text_position_Suc [of "lx_pos lx" src]
  by (auto simp: at_text_def lx_advance_def nth_opt_def prod_eq_iff split: if_splits)

lemma at_text_skip: "at_text src lx \<Longrightarrow> at_text src (lx_skip n lx)"
  by (induction n) (simp_all add: lx_skip_def at_text_advance)

lemma at_text_comment: "at_text src lx \<Longrightarrow> at_text src (skip_comment lx)"
proof (induction lx rule: skip_comment.induct)
  case (1 lx)
  then show ?case
    by (subst skip_comment.simps) (auto split: option.split intro: at_text_advance)
qed

lemma at_text_whitespace: "at_text src lx \<Longrightarrow> at_text src (skip_whitespace lx)"
proof (induction lx rule: skip_whitespace.induct)
  case (1 lx)
  then show ?case
    by (subst skip_whitespace.simps) (auto split: option.split intro: at_text_advance at_text_comment)
qed

lemma at_text_while: "at_text src lx \<Longrightarrow> at_text src (snd (read_while P s lx))"
proof (induction P s lx rule: read_while.induct)
  case (1 P s lx)
  then show ?case
    by (subst read_while.simps) (auto split: option.split intro: at_text_advance)
qed

text \<open>A reading operation that ends in a lexer of the text, or in an error at a place of it.\<close>

definition lex_located :: "(nat \<times> nat) set \<Rightarrow> tx_error \<Rightarrow> bool" where
  "lex_located ps e \<longleftrightarrow> (\<exists>line col m. e = LexError line col m \<and> (line, col) \<in> ps)"

lemma lex_located_simp [simp]: "lex_located ps (LexError line col m) \<longleftrightarrow> (line, col) \<in> ps"
  by (simp add: lex_located_def)

definition reads :: "string \<Rightarrow> (tx_error, 'a \<times> lexer) result \<Rightarrow> bool" where
  "reads src r \<longleftrightarrow> (case r of Inl e \<Rightarrow> lex_located (text_positions src) e | Inr (x, lx) \<Rightarrow> at_text src lx)"

lemma reads_simps [simp]:
  "reads src (Inl e) \<longleftrightarrow> lex_located (text_positions src) e"
  "reads src (Inr p) \<longleftrightarrow> at_text src (snd p)"
  by (simp_all add: reads_def split_beta)

lemma string_loop_reads: "at_text src lx \<Longrightarrow> reads src (string_loop s lx)"
proof (induction s lx rule: string_loop.induct)
  case (1 s lx)
  obtain c y where a: "lx_advance lx = (c, y)" by (cases "lx_advance lx")
  then have y: "at_text src y" using at_text_advance [OF 1(3)] by simp
  obtain d z where b: "lx_advance y = (d, z)" by (cases "lx_advance y")
  then have z: "at_text src z" using at_text_advance [OF y] by simp
  show ?case
  proof (cases c)
    case None
    then show ?thesis using a at_text_position [OF y] by (subst string_loop.simps) simp
  next
    case (Some c')
    note IH = 1(1) [OF a [symmetric] Some _ _ b [symmetric] _ z] 1(2) [OF a [symmetric] Some _ _ y]
    show ?thesis
    proof (cases d)
      case None
      then show ?thesis using a b Some y IH(2) at_text_position [OF z] by (subst string_loop.simps) simp
    next
      case d: (Some d')
      show ?thesis using a b Some y IH(1) [OF _ _ d] IH(2) d by (subst string_loop.simps) simp
    qed
  qed
qed

lemma raw_loop_reads: "at_text src lx \<Longrightarrow> reads src (raw_loop s lx)"
proof (induction s lx rule: raw_loop.induct)
  case (1 s lx)
  obtain c y where a: "lx_advance lx = (c, y)" by (cases "lx_advance lx")
  then have y: "at_text src y" using at_text_advance [OF 1(2)] by simp
  show ?case
  proof (cases c)
    case None
    then show ?thesis using a at_text_position [OF y] by (subst raw_loop.simps) simp
  next
    case (Some c')
    show ?thesis using a Some y 1(1) [OF a [symmetric] Some _ y] by (subst raw_loop.simps) simp
  qed
qed

text \<open>A token with its position, and the lexer behind it.\<close>

definition reads_token :: "string \<Rightarrow> (tx_error, ptoken \<times> lexer) result \<Rightarrow> bool" where
  "reads_token src r \<longleftrightarrow> reads src r \<and> (case r of Inl _ \<Rightarrow> True | Inr (t, lx) \<Rightarrow> snd t \<in> text_positions src)"

lemma reads_token_simps [simp]:
  "reads_token src (Inl e) \<longleftrightarrow> lex_located (text_positions src) e"
  "reads_token src (Inr p) \<longleftrightarrow> at_text src (snd p) \<and> snd (fst p) \<in> text_positions src"
  by (simp_all add: reads_token_def split_beta)

lemma reads_token_bind:
  "reads src r \<Longrightarrow> pos \<in> text_positions src \<Longrightarrow> reads_token src (rbind r (\<lambda>(s, lx). Inr ((TStr s, pos), lx)))"
  by (cases r) (simp_all add: split_beta)

lemma next_token_reads:
  assumes "at_text src lx"
  shows "reads_token src (next_token lx)"
proof -
  define lx' line col where d: "lx' = skip_whitespace lx" "line = lx_line lx'" "col = lx_col lx'"
  have at: "at_text src lx'" unfolding d by (rule at_text_whitespace [OF assms])
  have p: "(line, col) \<in> text_positions src" using at_text_position [OF at] by (simp add: d)
  have s: "reads_token src (read_string lx' line col)" "reads_token src (read_raw_string lx' line col)"
    unfolding read_string_def read_raw_string_def
    by (intro reads_token_bind [OF _ p] string_loop_reads raw_loop_reads at_text_advance at)+
  have n: "reads_token src (Inr (read_number lx' line col))" "reads_token src (Inr (read_ident_or_keyword lx' line col))"
    using at_text_while [OF at] p by (simp_all add: read_number_def read_ident_or_keyword_def split_beta)
  have o: "reads_token src (read_operator c lx' line col)" for c
    using at_text_skip [OF at] p by (simp add: read_operator_def Let_def)
  have t: "reads_token src (Inr ((t, line, col), lx_skip k lx'))" for t k
    using at_text_skip [OF at] p by simp
  show ?thesis
    unfolding next_token_def Let_def d [symmetric] 
    using s n o t at p by (auto split: option.split)
qed

lemma tokenize_loop_reads:
  "at_text src lx \<Longrightarrow> snd ` set acc \<subseteq> text_positions src \<Longrightarrow>
   (case tokenize_loop acc lx of Inl e \<Rightarrow> lex_located (text_positions src) e | Inr ts \<Rightarrow> snd ` set ts \<subseteq> text_positions src)"
proof (induction acc lx rule: tokenize_loop.induct)
  case (1 acc lx)
  note n = next_token_reads [OF 1(2)]
  show ?case
  proof (cases "next_token lx")
    case (Inl e)
    with n show ?thesis by (subst tokenize_loop.simps) simp
  next
    case (Inr r)
    obtain t p lx' where r: "r = ((t, p), lx')" by (metis prod.exhaust)
    show ?thesis
    proof (cases "t = TEOF")
      case True
      with n Inr r 1(3) show ?thesis by (subst tokenize_loop.simps) simp
    next
      case False
      with n Inr r 1(3) 1(1) [OF Inr r [symmetric] refl False] show ?thesis by (subst tokenize_loop.simps) simp
    qed
  qed
qed

lemma tokenize_positions:
  "tokenize src = Inl e \<Longrightarrow> lex_located (text_positions src) e"
  "tokenize src = Inr ts \<Longrightarrow> snd ` set ts \<subseteq> text_positions src"
  using tokenize_loop_reads [OF at_text_new, of "[]" src] by (auto simp: tokenize_def split: sum.splits)

end
