(* ===== verification/Tdxl_Parser.thy ===== *)
theory Tdxl_Parser
  imports Tdxl_Positions
begin

text \<open>
  The TDXL parser, \<open>src/crates/tdxl/src/parser.rs\<close>: a state with a position in the token vector,
  one operation per method. \<open>advance\<close> indexes the vector, so it can panic; every other failure
  is an error value. The lemmas show that a parser given the lexer's output never panics and
  that it reads back every program from the form \<open>program_tokens\<close> prints it in.
\<close>

section \<open>The parser's state\<close>

record parser =
  ps_tokens :: "ptoken list"
  ps_pos :: nat

type_synonym 'a parse = "(parser, tx_fault, 'a) op"

definition ps_new :: "ptoken list \<Rightarrow> parser" where
  "ps_new tokens = \<lparr>ps_tokens = tokens, ps_pos = 0\<rparr>"

definition p_peek :: "parser \<Rightarrow> token" where
  "p_peek ps = (case nth_opt (ps_tokens ps) (ps_pos ps) of None \<Rightarrow> TEOF | Some (t, _, _) \<Rightarrow> t)"

definition p_peek_linecol :: "parser \<Rightarrow> nat \<times> nat" where
  "p_peek_linecol ps =
     (case nth_opt (ps_tokens ps) (ps_pos ps) of None \<Rightarrow> (0, 0) | Some (_, l, c) \<Rightarrow> (l, c))"

definition p_advance :: "ptoken parse" where
  "p_advance ps =
     (case nth_opt (ps_tokens ps) (ps_pos ps) of
        None \<Rightarrow> (Inl TxPanic, ps)
      | Some t \<Rightarrow> (Inr t, ps\<lparr>ps_pos := Suc (ps_pos ps)\<rparr>))"

text \<open>\<open>std::mem::discriminant\<close>: the constructor without its value.\<close>

fun token_kind :: "token \<Rightarrow> token" where
  "token_kind (TInteger _) = TInteger 0"
| "token_kind (TFloat _) = TFloat 0"
| "token_kind (TStr _) = TStr []"
| "token_kind (TBool _) = TBool False"
| "token_kind (TIdent _) = TIdent []"
| "token_kind t = t"

definition p_check :: "token \<Rightarrow> parser \<Rightarrow> bool" where
  "p_check expected ps \<longleftrightarrow> token_kind (p_peek ps) = token_kind expected"

definition p_expect :: "token \<Rightarrow> ptoken parse" where
  "p_expect expected ps =
     (if token_kind (p_peek ps) = token_kind expected then p_advance ps
      else (let (line, col) = p_peek_linecol ps
            in (Inl (TxErr (ParseError line col (ExpectedToken expected (p_peek ps)))), ps)))"

text \<open>\<open>Result::ok\<close>: an error is dropped, a panic is not.\<close>

definition p_ok :: "'a parse \<Rightarrow> 'a option parse" where
  "p_ok m ps =
     (case m ps of
        (Inr a, ps') \<Rightarrow> (Inr (Some a), ps')
      | (Inl TxPanic, ps') \<Rightarrow> (Inl TxPanic, ps')
      | (Inl (TxErr _), ps') \<Rightarrow> (Inr None, ps'))"

text \<open>\<open>if self.check(t) { self.advance(); yes } else { no }\<close>.\<close>

definition p_if :: "token \<Rightarrow> 'a parse \<Rightarrow> 'a parse \<Rightarrow> 'a parse" where
  "p_if t yes no ps = (if p_check t ps then st_bind p_advance (\<lambda>_. yes) ps else no ps)"

section \<open>Values and expressions\<close>

definition parse_value :: "tx_value parse" where
  "parse_value =
     st_bind p_advance (\<lambda>(t, line, col).
       case t of
         TInteger v \<Rightarrow> st_ok (VInteger v)
       | TFloat v \<Rightarrow> st_ok (VFloat v)
       | TStr s \<Rightarrow> st_ok (VString s)
       | TBool b \<Rightarrow> st_ok (VBool b)
       | TNull \<Rightarrow> st_ok VNull
       | TIdent s \<Rightarrow> st_ok (VIdent s)
       | _ \<Rightarrow> st_err (TxErr (ParseError line col (ExpectedValue t))))"

definition is_bin_op :: "parser \<Rightarrow> bool" where
  "is_bin_op ps \<longleftrightarrow> p_peek ps \<in> {TEq, TNeq, TGe, TLe, TGt, TLt, TAnd, TOr}"

definition parse_bin_op :: "bin_op parse" where
  "parse_bin_op ps =
     (let (line, col) = p_peek_linecol ps
      in st_bind p_advance (\<lambda>(t, _, _).
           case t of
             TEq \<Rightarrow> st_ok BEq | TNeq \<Rightarrow> st_ok BNeq | TGe \<Rightarrow> st_ok BGe | TLe \<Rightarrow> st_ok BLe
           | TGt \<Rightarrow> st_ok BGt | TLt \<Rightarrow> st_ok BLt | TAnd \<Rightarrow> st_ok BAnd | TOr \<Rightarrow> st_ok BOr
           | _ \<Rightarrow> (\<lambda>ps'. (Inl (TxErr (ParseError line col (ExpectedBinOp (p_peek ps')))), ps'))) ps)"

definition parse_bin_expr :: "bin_expr parse" where
  "parse_bin_expr =
     st_bind parse_value (\<lambda>lhs ps.
       if is_bin_op ps
       then st_bind parse_bin_op (\<lambda>op.
            st_bind parse_value (\<lambda>rhs. st_ok (BField (as_string lhs) op rhs))) ps
       else st_ok (BValue lhs) ps)"

section \<open>Statements\<close>

text \<open>Every statement parser starts by taking its keyword.\<close>

definition after_keyword :: "'a parse \<Rightarrow> 'a parse" where
  "after_keyword m = st_bind p_advance (\<lambda>_. m)"

definition parse_from :: "stmt parse" where
  "parse_from = after_keyword (st_bind parse_value (\<lambda>v. st_ok (SFrom v)))"

definition parse_match :: "stmt parse" where
  "parse_match = after_keyword (st_bind parse_bin_expr (\<lambda>e. st_ok (SMatch e)))"

definition parse_where :: "stmt parse" where
  "parse_where = after_keyword (st_bind parse_bin_expr (\<lambda>e. st_ok (SWhere e)))"

definition parse_traverse :: "stmt parse" where
  "parse_traverse =
     after_keyword (st_bind parse_value (\<lambda>relation.
       st_bind (p_if TDepth
                  (st_bind parse_value (\<lambda>d. st_ok (case d of VInteger n \<Rightarrow> Some n | _ \<Rightarrow> Some 1)))
                  (st_ok None))
         (\<lambda>depth. st_ok (STraverse relation depth))))"

definition parse_infer :: "stmt parse" where
  "parse_infer = after_keyword (st_bind parse_value (\<lambda>v. st_ok (SInfer v)))"

definition parse_correlate :: "stmt parse" where
  "parse_correlate =
     after_keyword (st_bind (p_ok (p_expect TWith)) (\<lambda>_.
       st_bind parse_value (\<lambda>v. st_ok (SCorrelate v))))"

definition parse_similar :: "stmt parse" where
  "parse_similar =
     after_keyword (st_bind (p_ok (p_expect TTo)) (\<lambda>_.
       st_bind parse_value (\<lambda>v. st_ok (SSimilar v))))"

definition parse_classify :: "stmt parse" where
  "parse_classify =
     after_keyword (st_bind (p_ok (p_expect TAs)) (\<lambda>_.
       st_bind parse_value (\<lambda>v. st_ok (SClassify v))))"

definition parse_timeline :: "stmt parse" where
  "parse_timeline =
     after_keyword
       (st_bind (p_if TFrom (st_bind parse_value (\<lambda>v. st_ok (Some v))) (st_ok None)) (\<lambda>from_v.
        st_bind (p_if TTo (st_bind parse_value (\<lambda>v. st_ok (Some v))) (st_ok None)) (\<lambda>to_v.
        st_ok (STimeline from_v to_v))))"

definition parse_sort :: "stmt parse" where
  "parse_sort =
     after_keyword (st_bind (p_ok (p_expect TBy)) (\<lambda>_.
       st_bind parse_value (\<lambda>field.
       st_bind (p_if TAsc (st_ok Asc) (p_if TDesc (st_ok Desc) (st_ok Asc))) (\<lambda>order.
       st_ok (SSort field order)))))"

definition parse_limit :: "stmt parse" where
  "parse_limit =
     after_keyword (st_bind parse_value (\<lambda>v ps.
       case v of
         VInteger n \<Rightarrow> st_ok (SLimit n) ps
       | _ \<Rightarrow> (let (_, line, col) =
                  (case nth_opt (ps_tokens ps) (ps_pos ps - 1) of None \<Rightarrow> (TEOF, 0, 0) | Some t \<Rightarrow> t)
               in st_err (TxErr (ParseError line col (LimitNeedsInteger v))) ps)))"

definition parse_store :: "stmt parse" where
  "parse_store =
     after_keyword (st_bind (p_ok (p_expect TAs)) (\<lambda>_.
       st_bind parse_value (\<lambda>v. st_ok (SStore v))))"

definition parse_export :: "stmt parse" where
  "parse_export = after_keyword (st_bind parse_value (\<lambda>v. st_ok (SExport v)))"

definition parse_load :: "stmt parse" where
  "parse_load = after_keyword (st_bind parse_value (\<lambda>v. st_ok (SLoad v)))"

definition parse_filter :: "stmt parse" where
  "parse_filter = after_keyword (st_bind parse_bin_expr (\<lambda>e. st_ok (SFilter e)))"

definition parse_statement :: "stmt parse" where
  "parse_statement ps =
     (let tok = p_peek ps; (line, col) = p_peek_linecol ps
      in (case tok of
            TFrom \<Rightarrow> parse_from
          | TMatch \<Rightarrow> parse_match
          | TWhere \<Rightarrow> parse_where
          | TTraverse \<Rightarrow> parse_traverse
          | TSummarize \<Rightarrow> after_keyword (st_ok SSummarize)
          | TInfer \<Rightarrow> parse_infer
          | TCorrelate \<Rightarrow> parse_correlate
          | TSimilar \<Rightarrow> parse_similar
          | TClassify \<Rightarrow> parse_classify
          | TTimeline \<Rightarrow> parse_timeline
          | TSort \<Rightarrow> parse_sort
          | TLimit \<Rightarrow> parse_limit
          | TStore \<Rightarrow> parse_store
          | TExport \<Rightarrow> parse_export
          | TLoad \<Rightarrow> parse_load
          | TFilter \<Rightarrow> parse_filter
          | TIdent _ \<Rightarrow> st_bind parse_value (\<lambda>v. st_ok (SLoad v))
          | _ \<Rightarrow> st_err (TxErr (ParseError line col (UnexpectedToken tok)))) ps)"

section \<open>Progress\<close>

definition ps_left :: "parser \<Rightarrow> nat" where
  "ps_left ps = length (ps_tokens ps) - ps_pos ps"

text \<open>An operation never moves back; one that starts with \<open>advance\<close> moves forward.\<close>

definition forward :: "'a parse \<Rightarrow> bool" where
  "forward m \<longleftrightarrow> (\<forall>ps. ps_left (snd (m ps)) \<le> ps_left ps)"

lemma forward_ok: "forward (st_ok a)"
  by (simp add: forward_def)

lemma forward_err: "forward (st_err e)"
  by (simp add: forward_def)

lemma forward_advance: "forward p_advance"
  by (auto simp: forward_def p_advance_def ps_left_def split: option.split)

lemma forward_bind:
  assumes "forward m" and "\<And>a. forward (f a)"
  shows "forward (st_bind m f)"
  unfolding forward_def
proof
  fix ps
  obtain r ps1 where m: "m ps = (r, ps1)" by (cases "m ps")
  then have "ps_left ps1 \<le> ps_left ps" using assms(1) unfolding forward_def by (metis snd_conv)
  then show "ps_left (snd (st_bind m f ps)) \<le> ps_left ps"
    using assms(2) m unfolding forward_def by (cases r) (auto simp: st_bind_def intro: order_trans)
qed

lemma forward_after_keyword: "forward m \<Longrightarrow> forward (after_keyword m)"
  unfolding after_keyword_def by (intro forward_bind forward_advance)

lemma forward_if: "forward yes \<Longrightarrow> forward no \<Longrightarrow> forward (p_if t yes no)"
  using forward_bind [OF forward_advance, of "\<lambda>_. yes"] by (simp add: forward_def p_if_def)

lemma forward_expect: "forward (p_expect t)"
  using forward_advance by (simp add: forward_def p_expect_def split_beta)

lemma forward_p_ok:
  assumes "forward m"
  shows "forward (p_ok m)"
  unfolding forward_def
proof
  fix ps
  obtain r ps1 where m: "m ps = (r, ps1)" by (cases "m ps")
  then have "ps_left ps1 \<le> ps_left ps" using assms unfolding forward_def by (metis snd_conv)
  then show "ps_left (snd (p_ok m ps)) \<le> ps_left ps"
    by (auto simp: p_ok_def m split: sum.split tx_fault.split)
qed

lemma forward_value: "forward parse_value"
  unfolding parse_value_def
  by (intro forward_bind forward_advance) (auto intro: forward_ok forward_err split: prod.split token.split)


lemmas forward_rules = forward_bind forward_ok forward_err forward_advance forward_after_keyword
  forward_if forward_expect forward_p_ok forward_value

lemma forward_bin_op: "forward parse_bin_op"
proof -
  have "forward (\<lambda>ps'. (Inl (g ps'), ps'))" for g :: "parser \<Rightarrow> tx_fault"
    by (simp add: forward_def)
  then have "forward (st_bind p_advance (\<lambda>(t, _, _).
           case t of
             TEq \<Rightarrow> st_ok BEq | TNeq \<Rightarrow> st_ok BNeq | TGe \<Rightarrow> st_ok BGe | TLe \<Rightarrow> st_ok BLe
           | TGt \<Rightarrow> st_ok BGt | TLt \<Rightarrow> st_ok BLt | TAnd \<Rightarrow> st_ok BAnd | TOr \<Rightarrow> st_ok BOr
           | _ \<Rightarrow> (\<lambda>ps'. (Inl (TxErr (ParseError l c (ExpectedBinOp (p_peek ps')))), ps'))))" for l c
    by (intro forward_rules) (auto intro: forward_rules split: prod.split token.split)
  then show ?thesis unfolding forward_def parse_bin_op_def by (auto split: prod.split)
qed

lemma forward_bin_expr: "forward parse_bin_expr"
proof -
  have "forward (st_bind parse_bin_op (\<lambda>op. st_bind parse_value (\<lambda>rhs. st_ok (BField f op rhs))))" for f
    by (intro forward_rules forward_bin_op)
  then have "forward (\<lambda>ps. if is_bin_op ps
       then st_bind parse_bin_op (\<lambda>op.
            st_bind parse_value (\<lambda>rhs. st_ok (BField (as_string lhs) op rhs))) ps
       else st_ok (BValue lhs) ps)" for lhs
    by (simp add: forward_def)
  then show ?thesis unfolding parse_bin_expr_def by (intro forward_rules)
qed

lemma forward_limit_end:
  "forward (\<lambda>ps. case v of
         VInteger n \<Rightarrow> st_ok (SLimit n) ps
       | _ \<Rightarrow> (let (_, line, col) =
                  (case nth_opt (ps_tokens ps) (ps_pos ps - 1) of None \<Rightarrow> (TEOF, 0, 0) | Some t \<Rightarrow> t)
               in st_err (TxErr (ParseError line col (LimitNeedsInteger v))) ps))"
  by (auto simp: forward_def split_beta split: tx_value.split)

lemmas statement_defs = parse_from_def parse_match_def parse_where_def parse_traverse_def
  parse_infer_def parse_correlate_def parse_similar_def parse_classify_def parse_timeline_def
  parse_sort_def parse_store_def parse_export_def parse_load_def parse_filter_def

lemma advance_progress:
  assumes "st_bind p_advance f ps = (Inr a, ps')" and "\<And>x. forward (f x)"
  shows "ps_left ps' < ps_left ps"
proof -
  obtain t where t: "nth_opt (ps_tokens ps) (ps_pos ps) = Some t"
    and f: "f t (ps\<lparr>ps_pos := Suc (ps_pos ps)\<rparr>) = (Inr a, ps')"
    using assms(1) by (auto simp: st_bind_def p_advance_def split: option.splits)
  have "ps_left ps' \<le> ps_left (ps\<lparr>ps_pos := Suc (ps_pos ps)\<rparr>)"
    using assms(2) f unfolding forward_def by (metis snd_conv)
  moreover have "ps_pos ps < length (ps_tokens ps)" using t by (auto simp: nth_opt_def split: if_splits)
  ultimately show ?thesis by (simp add: ps_left_def)
qed

lemma keyword_progress:
  "after_keyword m ps = (Inr a, ps') \<Longrightarrow> forward m \<Longrightarrow> ps_left ps' < ps_left ps"
  unfolding after_keyword_def by (rule advance_progress)

lemma value_progress:
  assumes "st_bind parse_value f ps = (Inr a, ps')" and "\<And>x. forward (f x)"
  shows "ps_left ps' < ps_left ps"
proof -
  obtain v ps1 where v: "parse_value ps = (Inr v, ps1)" and f: "f v ps1 = (Inr a, ps')"
    using assms(1) by (auto simp: st_bind_eq_Inr)
  have "ps_left ps1 < ps_left ps"
    using v unfolding parse_value_def
    by (rule advance_progress) (auto intro: forward_rules split: prod.split token.split)
  moreover have "ps_left ps' \<le> ps_left ps1" using assms(2) f unfolding forward_def by (metis snd_conv)
  ultimately show ?thesis by simp
qed

lemma limit_progress: "parse_limit ps = (Inr s, ps') \<Longrightarrow> ps_left ps' < ps_left ps"
  unfolding parse_limit_def by (erule keyword_progress) (intro forward_rules forward_limit_end)+

lemma statement_progress:
  assumes "parse_statement ps = (Inr s, ps')"
  shows "ps_left ps' < ps_left ps"
  using assms unfolding parse_statement_def statement_defs Let_def split_beta
  by (cases "p_peek ps")
    (simp_all add: limit_progress,
      (erule keyword_progress value_progress; intro forward_rules forward_bin_expr)+)

section \<open>Programs\<close>

function skip_newlines :: "unit parse" where
  "skip_newlines ps =
     (if p_check TNewline ps
      then (case p_advance ps of (Inl e, ps') \<Rightarrow> (Inl e, ps') | (Inr _, ps') \<Rightarrow> skip_newlines ps')
      else (Inr (), ps))"
  by pat_completeness auto

lemma p_advance_less: "p_advance ps = (Inr t, ps') \<Longrightarrow> ps_left ps' < ps_left ps"
  using advance_progress [of st_ok ps t ps'] by (simp add: st_bind_def forward_ok)

termination skip_newlines
  by (relation "measure ps_left") (auto dest!: sym [of "(_, _)"] intro: p_advance_less)

declare skip_newlines.simps [simp del]

lemma skip_newlines_le: "ps_left (snd (skip_newlines ps)) \<le> ps_left ps"
proof (induction ps rule: skip_newlines.induct)
  case (1 ps)
  show ?case
  proof (cases "p_check TNewline ps")
    case True
    obtain r ps1 where a: "p_advance ps = (r, ps1)" by (cases "p_advance ps")
    have "ps_left ps1 \<le> ps_left ps" using forward_advance a unfolding forward_def by (metis snd_conv)
    with 1 [OF True a [symmetric]] True a show ?thesis
      by (subst skip_newlines.simps) (cases r; auto intro: order_trans)
  next
    case False
    then show ?thesis by (subst skip_newlines.simps) simp
  qed
qed

function parse_loop :: "stmt list \<Rightarrow> stmt list parse" where
  "parse_loop statements ps =
     (case skip_newlines ps of
        (Inl e, ps1) \<Rightarrow> (Inl e, ps1)
      | (Inr _, ps1) \<Rightarrow>
          if p_check TEOF ps1 then (Inr statements, ps1)
          else (case parse_statement ps1 of
                  (Inl e, ps2) \<Rightarrow> (Inl e, ps2)
                | (Inr s, ps2) \<Rightarrow> parse_loop (statements @ [s]) ps2))"
  by pat_completeness auto

lemma parse_loop_decreases:
  assumes "(Inr u, ps1) = skip_newlines ps" and "(Inr s, ps2) = parse_statement ps1"
  shows "ps_left ps2 < ps_left ps"
  using skip_newlines_le [of ps] statement_progress [of ps1 s ps2] assms
  by (metis order_less_le_trans snd_conv)

termination parse_loop
  by (relation "measure (\<lambda>(statements, ps). ps_left ps)") (auto intro: parse_loop_decreases)

declare parse_loop.simps [simp del]

text \<open>\<open>Parser::parse\<close> on a token vector, and lexer and parser together as \<open>compile\<close> chains them.\<close>

definition parse_tokens :: "ptoken list \<Rightarrow> (tx_fault, stmt list) result" where
  "parse_tokens tokens = fst (parse_loop [] (ps_new tokens))"

definition parse_source :: "string \<Rightarrow> (tx_fault, stmt list) result" where
  "parse_source source = rbind (map_err TxErr (tokenize source)) parse_tokens"


section \<open>No panic on the lexer's output\<close>

text \<open>
  The token vector is closed by its end of file, its tokens carry positions of a set \<open>P\<close>, and the
  parser's position is inside: what holds between any two parser operations that succeed. One that
  fails then answers with an error of the code at a position of \<open>P\<close>.
\<close>

definition in_tokens :: "(nat \<times> nat) set \<Rightarrow> parser \<Rightarrow> bool" where
  "in_tokens P ps \<longleftrightarrow>
     ps_pos ps < length (ps_tokens ps) \<and> fst (last (ps_tokens ps)) = TEOF \<and> snd ` set (ps_tokens ps) \<subseteq> P"

definition parse_located :: "(nat \<times> nat) set \<Rightarrow> tx_fault \<Rightarrow> bool" where
  "parse_located P f \<longleftrightarrow> (\<exists>line col m. f = TxErr (ParseError line col m) \<and> (line, col) \<in> P)"

lemma parse_located_simps [simp]:
  "parse_located P (TxErr (ParseError line col m)) \<longleftrightarrow> (line, col) \<in> P"
  "\<not> parse_located P TxPanic"
  by (simp_all add: parse_located_def)

definition safe_at :: "(nat \<times> nat) set \<Rightarrow> 'a parse \<Rightarrow> parser \<Rightarrow> bool" where
  "safe_at P m ps \<longleftrightarrow>
     (case m ps of (Inr _, ps') \<Rightarrow> in_tokens P ps' | (Inl e, _) \<Rightarrow> parse_located P e)"

definition safe :: "(nat \<times> nat) set \<Rightarrow> 'a parse \<Rightarrow> bool" where
  "safe P m \<longleftrightarrow> (\<forall>ps. in_tokens P ps \<longrightarrow> safe_at P m ps)"

lemma safeD: "safe P m \<Longrightarrow> in_tokens P ps \<Longrightarrow> safe_at P m ps"
  by (simp add: safe_def)

lemma safe_ok: "safe P (st_ok a)"
  by (simp add: safe_def safe_at_def)

lemma safe_err: "(line, col) \<in> P \<Longrightarrow> safe P (st_err (TxErr (ParseError line col m)))"
  by (simp add: safe_def safe_at_def)

lemma safe_at_bind:
  assumes "safe_at P m ps" and "\<And>a. safe P (f a)"
  shows "safe_at P (st_bind m f) ps"
proof -
  obtain r ps1 where m: "m ps = (r, ps1)" by (cases "m ps")
  then show ?thesis
    using assms safeD [OF assms(2)] by (cases r) (auto simp: safe_at_def st_bind_def)
qed

lemma safe_bind: "safe P m \<Longrightarrow> (\<And>a. safe P (f a)) \<Longrightarrow> safe P (st_bind m f)"
  using safe_at_bind by (force simp: safe_def)

lemma peek_in_tokens: "in_tokens P ps \<Longrightarrow> p_peek ps = fst (ps_tokens ps ! ps_pos ps)"
  by (simp add: in_tokens_def p_peek_def nth_opt_def split_beta)

lemma in_tokens_nth: "in_tokens P ps \<Longrightarrow> k \<le> ps_pos ps \<Longrightarrow> snd (ps_tokens ps ! k) \<in> P"
  by (auto simp: in_tokens_def)

lemma peek_linecol_in: "in_tokens P ps \<Longrightarrow> p_peek_linecol ps \<in> P"
  using in_tokens_nth [of P ps "ps_pos ps"] by (simp add: in_tokens_def p_peek_linecol_def nth_opt_def split_beta)

lemma safe_at_advance:
  assumes "in_tokens P ps" and "p_peek ps \<noteq> TEOF"
  shows "safe_at P p_advance ps"
proof -
  have "ps_tokens ps \<noteq> []" using assms(1) by (auto simp: in_tokens_def)
  then have "ps_pos ps \<noteq> length (ps_tokens ps) - 1"
    using assms peek_in_tokens [OF assms(1)] by (auto simp: in_tokens_def last_conv_nth)
  then show ?thesis
    using assms(1) by (auto simp: safe_at_def p_advance_def nth_opt_def in_tokens_def)
qed

lemma safe_at_token:
  assumes i: "in_tokens P ps" and t: "p_peek ps \<noteq> TEOF" and f: "\<And>t. snd t \<in> P \<Longrightarrow> safe P (f t)"
  shows "safe_at P (st_bind p_advance f) ps"
proof -
  let ?t = "ps_tokens ps ! ps_pos ps" and ?ps = "ps\<lparr>ps_pos := Suc (ps_pos ps)\<rparr>"
  have a: "p_advance ps = (Inr ?t, ?ps)" using i by (simp add: in_tokens_def p_advance_def nth_opt_def)
  have "in_tokens P ?ps" using safe_at_advance [OF i t] by (simp add: safe_at_def a)
  with f [OF in_tokens_nth [OF i order_refl]] have "safe_at P (f ?t) ?ps" by (rule safeD)
  then show ?thesis by (simp add: safe_at_def st_bind_def a)
qed

lemma p_advance_not_err: "p_advance ps \<noteq> (Inl (TxErr e), ps')"
  by (simp add: p_advance_def split: option.split)

lemma safe_at_keyword: "in_tokens P ps \<Longrightarrow> p_peek ps \<noteq> TEOF \<Longrightarrow> safe P m \<Longrightarrow> safe_at P (after_keyword m) ps"
  unfolding after_keyword_def by (rule safe_at_bind) (rule safe_at_advance)

lemma token_kind_TEOF: "token_kind t = TEOF \<longleftrightarrow> t = TEOF"
  by (cases t) simp_all

lemma safe_if:
  assumes "safe P yes" and "safe P no" and "token_kind t \<noteq> TEOF"
  shows "safe P (p_if t yes no)"
  unfolding safe_def
proof (intro allI impI)
  fix ps
  assume i: "in_tokens P ps"
  show "safe_at P (p_if t yes no) ps"
  proof (cases "p_check t ps")
    case True
    then have "p_peek ps \<noteq> TEOF" using assms(3) by (auto simp: p_check_def)
    from safe_at_keyword [OF i this assms(1)] True show ?thesis
      by (simp add: safe_at_def p_if_def after_keyword_def)
  next
    case False
    with safeD [OF assms(2) i] show ?thesis by (simp add: safe_at_def p_if_def)
  qed
qed

lemma safe_expect_ok:
  assumes "token_kind t \<noteq> TEOF"
  shows "safe P (p_ok (p_expect t))"
  unfolding safe_def
proof (intro allI impI)
  fix ps
  assume i: "in_tokens P ps"
  show "safe_at P (p_ok (p_expect t)) ps"
  proof (cases "token_kind (p_peek ps) = token_kind t")
    case True
    then have "p_peek ps \<noteq> TEOF" using assms by auto
    from safe_at_advance [OF i this] True show ?thesis
      by (auto simp: safe_at_def p_ok_def p_expect_def p_advance_not_err split: prod.splits sum.splits tx_fault.splits)
  next
    case False
    with i show ?thesis by (simp add: safe_at_def p_ok_def p_expect_def split_beta)
  qed
qed

lemma safe_value: "safe P parse_value"
  unfolding safe_def
proof (intro allI impI)
  fix ps
  assume i: "in_tokens P ps"
  have f: "safe P (case tok of (t, line, col) \<Rightarrow> (case t of
         TInteger v \<Rightarrow> st_ok (VInteger v)
       | TFloat v \<Rightarrow> st_ok (VFloat v)
       | TStr s \<Rightarrow> st_ok (VString s)
       | TBool b \<Rightarrow> st_ok (VBool b)
       | TNull \<Rightarrow> st_ok VNull
       | TIdent s \<Rightarrow> st_ok (VIdent s)
       | _ \<Rightarrow> st_err (TxErr (ParseError line col (ExpectedValue t)))))" if "snd tok \<in> P" for tok :: ptoken
    using that by (auto intro: safe_ok safe_err split: prod.split token.split)
  show "safe_at P parse_value ps"
  proof (cases "p_peek ps = TEOF")
    case False
    show ?thesis
      unfolding parse_value_def by (rule safe_at_token [OF i False f])
  next
    case True
    then show ?thesis
      using i peek_in_tokens [OF i] in_tokens_nth [OF i order_refl]
      by (auto simp: safe_at_def parse_value_def st_bind_def p_advance_def nth_opt_def in_tokens_def
          split: prod.splits)
  qed
qed


lemma safe_bin_op_at:
  assumes "in_tokens P ps" and "is_bin_op ps"
  shows "safe_at P parse_bin_op ps"
proof -
  have "p_peek ps \<noteq> TEOF" using assms(2) by (auto simp: is_bin_op_def)
  from safe_at_advance [OF assms(1) this] obtain t q ps'
    where a: "p_advance ps = (Inr (t, q), ps')" and i: "in_tokens P ps'"
    by (auto simp: safe_at_def p_advance_def split: option.splits)
  have "t = p_peek ps"
    using a by (auto simp: p_advance_def p_peek_def split: option.splits)
  then show ?thesis
    using a i assms(2)
    by (auto simp: safe_at_def parse_bin_op_def st_bind_def is_bin_op_def split_beta)
qed

lemma safe_bin_expr: "safe P parse_bin_expr"
proof -
  have "safe P (\<lambda>ps. if is_bin_op ps
       then st_bind parse_bin_op (\<lambda>op.
            st_bind parse_value (\<lambda>rhs. st_ok (BField (as_string lhs) op rhs))) ps
       else st_ok (BValue lhs) ps)" (is "safe P ?m") for lhs
    unfolding safe_def
  proof (intro allI impI)
    fix ps
    assume i: "in_tokens P ps"
    show "safe_at P ?m ps"
    proof (cases "is_bin_op ps")
      case True
      have "safe P (st_bind parse_value (\<lambda>rhs. st_ok (BField (as_string lhs) op rhs)))" for op
        by (intro safe_bind safe_value safe_ok)
      from safe_at_bind [OF safe_bin_op_at [OF i True] this] True show ?thesis
        by (simp add: safe_at_def)
    next
      case False
      then show ?thesis using i by (simp add: safe_at_def)
    qed
  qed
  then show ?thesis unfolding parse_bin_expr_def by (intro safe_bind safe_value)
qed

lemma safe_limit_end:
  "safe P (\<lambda>ps. case v of
         VInteger n \<Rightarrow> st_ok (SLimit n) ps
       | _ \<Rightarrow> (let (_, line, col) =
                  (case nth_opt (ps_tokens ps) (ps_pos ps - 1) of None \<Rightarrow> (TEOF, 0, 0) | Some t \<Rightarrow> t)
               in st_err (TxErr (ParseError line col (LimitNeedsInteger v))) ps))"
proof -
  have "(case nth_opt (ps_tokens ps) (ps_pos ps - 1) of None \<Rightarrow> (TEOF, 0, 0) | Some t \<Rightarrow> t)
      = ps_tokens ps ! (ps_pos ps - 1)" if "in_tokens P ps" for ps
    using that by (auto simp: in_tokens_def nth_opt_def)
  moreover have "snd (ps_tokens ps ! (ps_pos ps - 1)) \<in> P" if "in_tokens P ps" for ps
    using in_tokens_nth [OF that, of "ps_pos ps - 1"] by simp
  ultimately show ?thesis
    by (simp add: safe_def safe_at_def split_beta split: tx_value.split)
qed

lemmas safe_rules = safe_bind safe_ok safe_err safe_if safe_expect_ok safe_value safe_bin_expr
  safe_limit_end

lemma safe_statement: "safe P parse_statement"
  unfolding safe_def
proof (intro allI impI)
  fix ps
  assume i: "in_tokens P ps"
  show "safe_at P parse_statement ps"
  proof (cases "p_peek ps = TEOF")
    case True
    then show ?thesis using peek_linecol_in [OF i] by (simp add: safe_at_def parse_statement_def split_beta Let_def)
  next
    case False
    note k = safe_at_keyword [OF i False]
    have limit: "safe_at P parse_limit ps"
      unfolding parse_limit_def by (intro k safe_rules)
    have load: "safe_at P (st_bind parse_value (\<lambda>v. st_ok (SLoad v))) ps"
      by (intro safeD [OF _ i] safe_rules)
    have "safe_at P m ps" if "m \<in> {parse_from, parse_match, parse_where, parse_traverse,
        after_keyword (st_ok SSummarize), parse_infer, parse_correlate, parse_similar, parse_classify,
        parse_timeline, parse_sort, parse_store, parse_export, parse_load, parse_filter}" for m
      using that unfolding statement_defs
      by (elim insertE emptyE) (simp_all only:, (intro k safe_rules; simp)+)
    with limit load False peek_linecol_in [OF i] show ?thesis
      unfolding parse_statement_def Let_def split_beta safe_at_def
      by (cases "p_peek ps") (simp_all add: safe_at_def cong del: sum.case_cong_weak)
  qed
qed

lemma skip_newlines_safe: "in_tokens P ps \<Longrightarrow> safe_at P skip_newlines ps"
proof (induction ps rule: skip_newlines.induct)
  case (1 ps)
  show ?case
  proof (cases "p_check TNewline ps")
    case True
    then have "p_peek ps \<noteq> TEOF" by (auto simp: p_check_def)
    from safe_at_advance [OF 1(2) this] obtain t ps1
      where a: "p_advance ps = (Inr t, ps1)" and i: "in_tokens P ps1"
      by (auto simp: safe_at_def p_advance_def split: option.splits)
    from 1(1) [OF True a [symmetric] refl i] True a show ?thesis
      by (simp add: safe_at_def skip_newlines.simps [of ps])
  next
    case False
    then show ?thesis using 1(2) by (simp add: safe_at_def skip_newlines.simps [of ps])
  qed
qed

lemma parse_loop_safe: "in_tokens P ps \<Longrightarrow> safe_at P (parse_loop acc) ps"
proof (induction acc ps rule: parse_loop.induct)
  case (1 acc ps)
  obtain r ps1 where n: "skip_newlines ps = (r, ps1)" by (cases "skip_newlines ps")
  note sn = skip_newlines_safe [OF 1(2), unfolded safe_at_def n]
  show ?case
  proof (cases r)
    case (Inl e)
    with sn n show ?thesis by (simp add: safe_at_def parse_loop.simps [of acc ps])
  next
    case (Inr u)
    with sn have i: "in_tokens P ps1" by simp
    obtain r2 ps2 where p: "parse_statement ps1 = (r2, ps2)" by (cases "parse_statement ps1")
    note sp = safeD [OF safe_statement i, unfolded safe_at_def p]
    show ?thesis
    proof (cases "p_check TEOF ps1")
      case True
      with i n Inr show ?thesis by (simp add: safe_at_def parse_loop.simps [of acc ps])
    next
      case False
      with 1(1) [OF n [symmetric] Inr False p [symmetric]] sp n Inr p show ?thesis
        by (cases r2) (auto simp: safe_at_def parse_loop.simps [of acc ps])
    qed
  qed
qed


section \<open>Printing and reading back\<close>

fun value_token :: "tx_value \<Rightarrow> token" where
  "value_token (VInteger v) = TInteger v"
| "value_token (VFloat v) = TFloat v"
| "value_token (VString s) = TStr s"
| "value_token (VBool b) = TBool b"
| "value_token VNull = TNull"
| "value_token (VIdent s) = TIdent s"

fun bin_op_token :: "bin_op \<Rightarrow> token" where
  "bin_op_token BEq = TEq" | "bin_op_token BNeq = TNeq" | "bin_op_token BGe = TGe"
| "bin_op_token BLe = TLe" | "bin_op_token BGt = TGt" | "bin_op_token BLt = TLt"
| "bin_op_token BAnd = TAnd" | "bin_op_token BOr = TOr"

fun expr_tokens :: "bin_expr \<Rightarrow> token list" where
  "expr_tokens (BField f op v) = [TIdent f, bin_op_token op, value_token v]"
| "expr_tokens (BValue v) = [value_token v]"
| "expr_tokens (BExpr l op r) = expr_tokens l @ bin_op_token op # expr_tokens r"

fun stmt_tokens :: "stmt \<Rightarrow> token list" where
  "stmt_tokens (SFrom v) = [TFrom, value_token v]"
| "stmt_tokens (SMatch e) = TMatch # expr_tokens e"
| "stmt_tokens (SWhere e) = TWhere # expr_tokens e"
| "stmt_tokens (STraverse r d) =
     TTraverse # value_token r # (case d of None \<Rightarrow> [] | Some n \<Rightarrow> [TDepth, TInteger n])"
| "stmt_tokens SSummarize = [TSummarize]"
| "stmt_tokens (SInfer v) = [TInfer, value_token v]"
| "stmt_tokens (SCorrelate v) = [TCorrelate, TWith, value_token v]"
| "stmt_tokens (SSimilar v) = [TSimilar, TTo, value_token v]"
| "stmt_tokens (SClassify v) = [TClassify, TAs, value_token v]"
| "stmt_tokens (STimeline f t) =
     TTimeline # (case f of None \<Rightarrow> [] | Some v \<Rightarrow> [TFrom, value_token v]) @
     (case t of None \<Rightarrow> [] | Some v \<Rightarrow> [TTo, value_token v])"
| "stmt_tokens (SSort v ord) = [TSort, TBy, value_token v, case ord of Asc \<Rightarrow> TAsc | Desc \<Rightarrow> TDesc]"
| "stmt_tokens (SLimit n) = [TLimit, TInteger n]"
| "stmt_tokens (SStore v) = [TStore, TAs, value_token v]"
| "stmt_tokens (SExport v) = [TExport, value_token v]"
| "stmt_tokens (SLoad v) = [TLoad, value_token v]"
| "stmt_tokens (SFilter e) = TFilter # expr_tokens e"

text \<open>A program has one statement a line. The parser makes no nested expressions.\<close>

definition program_tokens :: "stmt list \<Rightarrow> token list" where
  "program_tokens prog = concat (map (\<lambda>s. stmt_tokens s @ [TNewline]) prog)"

fun flat_expr :: "bin_expr \<Rightarrow> bool" where
  "flat_expr (BExpr l op r) = False"
| "flat_expr e = True"

fun flat_stmt :: "stmt \<Rightarrow> bool" where
  "flat_stmt (SMatch e) = flat_expr e"
| "flat_stmt (SWhere e) = flat_expr e"
| "flat_stmt (SFilter e) = flat_expr e"
| "flat_stmt s = True"

text \<open>The tokens still to be read, and the parser after taking some of them.\<close>

definition p_rest :: "parser \<Rightarrow> token list" where
  "p_rest ps = map fst (drop (ps_pos ps) (ps_tokens ps))"

definition p_skip :: "nat \<Rightarrow> parser \<Rightarrow> parser" where
  "p_skip n ps = ps\<lparr>ps_pos := ps_pos ps + n\<rparr>"

lemma p_rest_skip [simp]: "p_rest (p_skip n ps) = drop n (p_rest ps)"
  by (simp add: p_rest_def p_skip_def drop_map add.commute)

lemma p_skip_skip [simp]: "p_skip m (p_skip n ps) = p_skip (n + m) ps"
  by (simp add: p_skip_def add.assoc)

lemma p_skip_0 [simp]: "p_skip 0 ps = ps"
  by (simp add: p_skip_def)

lemma nth_opt_rest:
  assumes "p_rest ps = t # r"
  shows "\<exists>q. nth_opt (ps_tokens ps) (ps_pos ps) = Some (t, q)"
proof -
  have "ps_pos ps < length (ps_tokens ps)"
    using assms by (cases "ps_pos ps < length (ps_tokens ps)") (auto simp: p_rest_def)
  then have "drop (ps_pos ps) (ps_tokens ps) = ps_tokens ps ! ps_pos ps # drop (Suc (ps_pos ps)) (ps_tokens ps)"
    by (simp add: Cons_nth_drop_Suc)
  then have "fst (ps_tokens ps ! ps_pos ps) = t" using assms by (simp add: p_rest_def)
  with \<open>ps_pos ps < length (ps_tokens ps)\<close> show ?thesis
    by (simp add: nth_opt_def) (metis prod.collapse)
qed

lemma p_peek_rest: "p_rest ps = t # r \<Longrightarrow> p_peek ps = t"
  using nth_opt_rest [of ps t r] by (auto simp: p_peek_def)

lemma p_advance_rest:
  "p_rest ps = t # r \<Longrightarrow> \<exists>q. p_advance ps = (Inr (t, q), p_skip 1 ps)"
  using nth_opt_rest [of ps t r] by (auto simp: p_advance_def p_skip_def)

lemma advance_bind:
  "p_rest ps = t # r \<Longrightarrow> st_bind p_advance (\<lambda>_. m) ps = m (p_skip 1 ps)"
  using p_advance_rest [of ps t r] by (auto simp: st_bind_def)

lemma keyword_rest: "p_rest ps = t # r \<Longrightarrow> after_keyword m ps = m (p_skip 1 ps)"
  unfolding after_keyword_def by (rule advance_bind)

lemma if_rest:
  "p_rest ps = t # r \<Longrightarrow>
   p_if u yes no ps = (if token_kind t = token_kind u then yes (p_skip 1 ps) else no ps)"
  using advance_bind [of ps t r yes] p_peek_rest [of ps t r] by (simp add: p_if_def p_check_def)

lemma expect_rest:
  assumes "p_rest ps = t # r"
  shows "st_bind (p_ok (p_expect t)) (\<lambda>_. m) ps = m (p_skip 1 ps)"
  using p_advance_rest [OF assms] p_peek_rest [OF assms]
  by (auto simp: st_bind_def p_ok_def p_expect_def)

lemma value_rest:
  assumes "p_rest ps = value_token v # r"
  shows "parse_value ps = (Inr v, p_skip 1 ps)"
  using p_advance_rest [OF assms] by (cases v) (auto simp: parse_value_def st_bind_def)

lemma bin_op_rest:
  assumes "p_rest ps = bin_op_token op # r"
  shows "parse_bin_op ps = (Inr op, p_skip 1 ps)" "is_bin_op ps"
  using p_advance_rest [OF assms] p_peek_rest [OF assms]
  by (cases op; auto simp: parse_bin_op_def st_bind_def is_bin_op_def split_beta)+

lemma expr_rest:
  assumes "p_rest ps = expr_tokens e @ TNewline # r" and "flat_expr e"
  shows "parse_bin_expr ps = (Inr e, p_skip (length (expr_tokens e)) ps)"
proof (cases e)
  case (BField g op v)
  have r: "p_rest ps = value_token (VIdent g) # bin_op_token op # value_token v # TNewline # r"
    using assms(1) BField by simp
  have o: "p_rest (p_skip (Suc 0) ps) = bin_op_token op # value_token v # TNewline # r"
    and v: "p_rest (p_skip (Suc (Suc 0)) ps) = value_token v # TNewline # r" using r by simp_all
  show ?thesis
    using value_rest [OF r] bin_op_rest [OF o] value_rest [OF v] BField
    by (simp add: st_bind_def parse_bin_expr_def)
next
  case (BValue v)
  then have r: "p_rest ps = value_token v # TNewline # r" using assms(1) by simp
  then have "p_peek (p_skip (Suc 0) ps) = TNewline" by (intro p_peek_rest [of _ _ r]) simp
  with value_rest [OF r] BValue show ?thesis
    by (simp add: st_bind_def parse_bin_expr_def is_bin_op_def)
qed (use assms(2) in simp)

text \<open>Every statement is read back from its tokens, up to the newline that ends it.\<close>

lemma traverse_rest:
  assumes "p_rest ps = stmt_tokens (STraverse v d) @ TNewline # r"
  shows "parse_traverse ps = (Inr (STraverse v d), p_skip (length (stmt_tokens (STraverse v d))) ps)"
proof -
  have k: "p_rest ps = TTraverse # value_token v # (case d of None \<Rightarrow> [] | Some n \<Rightarrow> [TDepth, TInteger n]) @ TNewline # r"
    using assms by simp
  have v: "p_rest (p_skip (Suc 0) ps) = value_token v # (case d of None \<Rightarrow> [] | Some n \<Rightarrow> [TDepth, TInteger n]) @ TNewline # r"
    using k by simp
  show ?thesis
  proof (cases d)
    case None
    then have "p_rest (p_skip (Suc (Suc 0)) ps) = TNewline # r" using k by simp
    with None value_rest [OF v] show ?thesis
      by (simp add: parse_traverse_def keyword_rest [OF k] st_bind_def if_rest)
  next
    case (Some n)
    then have d: "p_rest (p_skip (Suc (Suc 0)) ps) = TDepth # TInteger n # TNewline # r"
      and n: "p_rest (p_skip (Suc (Suc (Suc 0))) ps) = value_token (VInteger n) # TNewline # r"
      using k by simp_all
    from Some value_rest [OF v] value_rest [OF n] show ?thesis
      by (simp add: parse_traverse_def keyword_rest [OF k] st_bind_def if_rest [OF d])
  qed
qed

lemma optional_value_rest:
  assumes "p_rest ps = (case x of None \<Rightarrow> [] | Some v \<Rightarrow> [t, value_token v]) @ u # r"
    and "token_kind u \<noteq> token_kind t"
  shows "p_if t (st_bind parse_value (\<lambda>v. st_ok (Some v))) (st_ok None) ps =
         (Inr x, p_skip (case x of None \<Rightarrow> 0 | Some v \<Rightarrow> 2) ps)"
proof (cases x)
  case None
  then have "p_rest ps = u # r" using assms(1) by simp
  then show ?thesis using None assms(2) by (simp add: if_rest)
next
  case (Some v)
  then have k: "p_rest ps = t # value_token v # u # r" using assms(1) by simp
  then have "p_rest (p_skip (Suc 0) ps) = value_token v # u # r" by simp
  from value_rest [OF this] Some show ?thesis
    by (simp add: if_rest [OF k] st_bind_def numeral_2_eq_2)
qed

lemma timeline_rest:
  assumes "p_rest ps = stmt_tokens (STimeline f t) @ TNewline # r"
  shows "parse_timeline ps = (Inr (STimeline f t), p_skip (length (stmt_tokens (STimeline f t))) ps)"
proof -
  let ?opt = "\<lambda>k x. case x of None \<Rightarrow> [] | Some v \<Rightarrow> [k, value_token v]"
  let ?len = "\<lambda>x. case x of None \<Rightarrow> (0 :: nat) | Some v \<Rightarrow> 2"
  have k: "p_rest ps = TTimeline # ?opt TFrom f @ ?opt TTo t @ TNewline # r" using assms by simp
  then have f: "p_rest (p_skip (Suc 0) ps) = ?opt TFrom f @ ?opt TTo t @ TNewline # r" by simp
  have "p_if TFrom (st_bind parse_value (\<lambda>v. st_ok (Some v))) (st_ok None) (p_skip (Suc 0) ps) =
        (Inr f, p_skip (?len f) (p_skip (Suc 0) ps))"
  proof (cases t)
    case None
    with f show ?thesis by (intro optional_value_rest [of _ _ _ TNewline r]) simp_all
  next
    case (Some w)
    with f show ?thesis
      by (intro optional_value_rest [of _ _ _ TTo "value_token w # TNewline # r"]) simp_all
  qed
  moreover have "p_rest (p_skip (?len f) (p_skip (Suc 0) ps)) = ?opt TTo t @ TNewline # r"
    using k by (cases f) simp_all
  then have "p_if TTo (st_bind parse_value (\<lambda>v. st_ok (Some v))) (st_ok None) (p_skip (?len f) (p_skip (Suc 0) ps)) =
        (Inr t, p_skip (?len t) (p_skip (?len f) (p_skip (Suc 0) ps)))"
    by (intro optional_value_rest [of _ _ _ TNewline r]) simp_all
  ultimately show ?thesis
    by (cases f; cases t) (simp_all add: parse_timeline_def keyword_rest [OF k] st_bind_def)
qed

lemma sort_rest:
  assumes "p_rest ps = stmt_tokens (SSort v ord) @ TNewline # r"
  shows "parse_sort ps = (Inr (SSort v ord), p_skip (length (stmt_tokens (SSort v ord))) ps)"
proof -
  let ?o = "case ord of Asc \<Rightarrow> TAsc | Desc \<Rightarrow> TDesc"
  have k: "p_rest ps = TSort # TBy # value_token v # ?o # TNewline # r" using assms by simp
  have b: "p_rest (p_skip (Suc 0) ps) = TBy # value_token v # ?o # TNewline # r"
    and v: "p_rest (p_skip (Suc (Suc 0)) ps) = value_token v # ?o # TNewline # r"
    and o: "p_rest (p_skip (Suc (Suc (Suc 0))) ps) = ?o # TNewline # r"
    using k by simp_all
  show ?thesis
    using value_rest [OF v]
    by (cases ord) (simp_all add: parse_sort_def keyword_rest [OF k] expect_rest [OF b]
        st_bind_Inr if_rest [OF o])
qed


lemma simple_rest:
  assumes "p_rest ps = k # value_token v # r"
  shows "after_keyword (st_bind parse_value (\<lambda>v. st_ok (C v))) ps = (Inr (C v), p_skip (Suc (Suc 0)) ps)"
proof -
  have "p_rest (p_skip (Suc 0) ps) = value_token v # r" using assms by simp
  from value_rest [OF this] show ?thesis by (simp add: keyword_rest [OF assms] st_bind_def)
qed

lemma linked_rest:
  assumes "p_rest ps = k # l # value_token v # r"
  shows "after_keyword (st_bind (p_ok (p_expect l)) (\<lambda>_. st_bind parse_value (\<lambda>v. st_ok (C v)))) ps =
         (Inr (C v), p_skip (Suc (Suc (Suc 0))) ps)"
proof -
  have l: "p_rest (p_skip (Suc 0) ps) = l # value_token v # r"
    and v: "p_rest (p_skip (Suc (Suc 0)) ps) = value_token v # r" using assms by simp_all
  show ?thesis
    using value_rest [OF v] by (simp add: keyword_rest [OF assms] expect_rest [OF l] st_bind_Inr)
qed

lemma filter_rest:
  assumes "p_rest ps = k # expr_tokens e @ TNewline # r" and "flat_expr e"
  shows "after_keyword (st_bind parse_bin_expr (\<lambda>e. st_ok (C e))) ps =
         (Inr (C e), p_skip (Suc (length (expr_tokens e))) ps)"
proof -
  have "p_rest (p_skip (Suc 0) ps) = expr_tokens e @ TNewline # r" using assms(1) by simp
  from expr_rest [OF this assms(2)] show ?thesis by (simp add: keyword_rest [OF assms(1)] st_bind_def)
qed

lemma limit_rest:
  assumes "p_rest ps = TLimit # TInteger n # r"
  shows "parse_limit ps = (Inr (SLimit n), p_skip (Suc (Suc 0)) ps)"
proof -
  have "p_rest (p_skip (Suc 0) ps) = value_token (VInteger n) # r" using assms by simp
  from value_rest [OF this] show ?thesis
    by (simp add: parse_limit_def keyword_rest [OF assms] st_bind_def)
qed

lemma statement_rest:
  assumes "p_rest ps = stmt_tokens s @ TNewline # r" and "flat_stmt s"
  shows "parse_statement ps = (Inr s, p_skip (length (stmt_tokens s)) ps)"
proof -
  have peek: "p_peek ps = hd (stmt_tokens s)"
    using assms(1) p_peek_rest [of ps "hd (stmt_tokens s)"] by (cases s) auto
  note rest = simple_rest [of ps] linked_rest [of ps] filter_rest [of ps _ _ r]
  show ?thesis
  proof (cases s)
    case (STraverse v d)
    then show ?thesis using traverse_rest [of ps v d r] assms(1) peek by (simp add: parse_statement_def split_beta)
  next
    case (STimeline f t)
    then show ?thesis using timeline_rest [of ps f t r] assms(1) peek by (simp add: parse_statement_def split_beta)
  next
    case (SSort v ord)
    then show ?thesis using sort_rest [of ps v ord r] assms(1) peek by (simp add: parse_statement_def split_beta)
  next
    case (SLimit n)
    then show ?thesis using limit_rest [of ps n] assms(1) peek by (simp add: parse_statement_def split_beta)
  next
    case SSummarize
    then show ?thesis
      using keyword_rest [of ps TSummarize "TNewline # r" "st_ok SSummarize"] assms(1) peek
      by (simp add: parse_statement_def split_beta)
  qed (use assms peek in \<open>simp_all add: parse_statement_def split_beta statement_defs rest\<close>)
qed

lemma skip_newlines_rest:
  "p_rest ps = TNewline # r \<Longrightarrow> skip_newlines ps = skip_newlines (p_skip 1 ps)"
  using p_advance_rest [of ps TNewline r] p_peek_rest [of ps TNewline r]
  by (subst skip_newlines.simps) (auto simp: p_check_def)

lemma skip_newlines_stop:
  "p_rest ps = t # r \<Longrightarrow> t \<noteq> TNewline \<Longrightarrow> skip_newlines ps = (Inr (), ps)"
  using p_peek_rest [of ps t r] by (subst skip_newlines.simps) (cases t; simp add: p_check_def)

lemma stmt_tokens_head: "\<exists>k r. stmt_tokens s = k # r \<and> k \<noteq> TNewline \<and> k \<noteq> TEOF"
  by (cases s) auto

text \<open>Before a statement there may be one newline, the end of the statement before it.\<close>

lemma parse_loop_rest:
  assumes "list_all flat_stmt prog" and "p_rest ps = nl @ program_tokens prog @ [TEOF]"
    and "nl = [] \<or> nl = [TNewline]"
  shows "fst (parse_loop acc ps) = Inr (acc @ prog)"
  using assms
proof (induction prog arbitrary: acc ps nl)
  case Nil
  let ?ps = "p_skip (length nl) ps"
  have r: "p_rest ?ps = [TEOF]" using Nil.prems by (auto simp: program_tokens_def)
  have "skip_newlines ps = (Inr (), ?ps)"
    using Nil.prems(2,3) skip_newlines_stop [OF r] skip_newlines_rest [of ps "[TEOF]"]
    by (auto simp: program_tokens_def)
  then show ?case
    using p_peek_rest [OF r] by (subst parse_loop.simps) (simp add: p_check_def)
next
  case (Cons s prog)
  let ?ps = "p_skip (length nl) ps"
  have r: "p_rest ?ps = stmt_tokens s @ TNewline # program_tokens prog @ [TEOF]"
    using Cons.prems by (auto simp: program_tokens_def)
  obtain k t where k: "stmt_tokens s = k # t" "k \<noteq> TNewline" "k \<noteq> TEOF"
    using stmt_tokens_head by blast
  then have r': "p_rest ?ps = k # t @ TNewline # program_tokens prog @ [TEOF]" using r by simp
  have n: "skip_newlines ps = (Inr (), ?ps)"
    using Cons.prems(2,3) skip_newlines_stop [OF r' k(2)]
      skip_newlines_rest [of ps "k # t @ TNewline # program_tokens prog @ [TEOF]"] k(1)
    by (auto simp: program_tokens_def)
  have e: "\<not> p_check TEOF ?ps"
    using p_peek_rest [OF r'] k(3) by (cases k) (simp_all add: p_check_def)
  have p: "parse_statement ?ps = (Inr s, p_skip (length (stmt_tokens s)) ?ps)"
    using statement_rest [OF r] Cons.prems(1) by simp
  have "p_rest (p_skip (length (stmt_tokens s)) ?ps) = [TNewline] @ program_tokens prog @ [TEOF]"
    using r by (simp only: p_rest_skip) simp
  from Cons.IH [OF _ this, of "acc @ [s]"] Cons.prems(1)
  show ?case by (subst parse_loop.simps) (simp add: n p e)
qed


section \<open>The front end as a whole\<close>

text \<open>
  C17. Lexer and parser never panic, whatever the source text: a source is parsed, or it is refused
  with a lexical or a syntax error whose line and column are those of a place in the source (its
  end included). In particular every index into the token vector is in range, because the lexer closes the
  vector with its only end-of-file token and no parser operation that succeeds takes that
  token; and the position \<open>0:0\<close> that the parser keeps for a missing token is never reported.
\<close>

theorem front_end_never_panics:
  "case parse_source source of
     Inr prog \<Rightarrow> True
   | Inl f \<Rightarrow> \<exists>line col. (line, col) \<in> text_positions source \<and>
       ((\<exists>m. f = TxErr (LexError line col m)) \<or> (\<exists>m. f = TxErr (ParseError line col m)))"
proof (cases "tokenize source")
  case (Inl e)
  from tokenize_positions(1) [OF this] Inl show ?thesis
    by (auto simp: parse_source_def lex_located_def)
next
  case (Inr ts)
  then obtain ts' p where "ts = ts' @ [(TEOF, p)]"
    using tokenize_loop_closes [of "[]" "lx_new source" ts] by (auto simp: tokenize_def)
  then have "in_tokens (text_positions source) (ps_new ts)"
    using tokenize_positions(2) [OF Inr] by (simp add: in_tokens_def ps_new_def)
  from parse_loop_safe [OF this, of "[]"] Inr show ?thesis
    by (auto simp: parse_source_def parse_tokens_def safe_at_def parse_located_def
        split: prod.splits sum.splits)
qed

text \<open>The programs that have a text: flat expressions, tokens that have a text.\<close>

definition printable_program :: "stmt list \<Rightarrow> bool" where
  "printable_program prog \<longleftrightarrow> list_all flat_stmt prog \<and> list_all printable (program_tokens prog)"

definition program_text :: "stmt list \<Rightarrow> string" where
  "program_text prog = tokens_text (program_tokens prog)"

lemma printed_program_parses:
  assumes "printable_program prog"
  shows "parse_source (program_text prog) = Inr prog"
proof -
  obtain out p where t: "tokenize (program_text prog) = Inr (out @ [(TEOF, p)])" "map fst out = program_tokens prog"
    using tokenize_loop_text [of "program_tokens prog" "lx_new (program_text prog)" "[]"] assms
    by (auto simp: tokenize_def printable_program_def program_text_def)
  then have "p_rest (ps_new (out @ [(TEOF, p)])) = [] @ program_tokens prog @ [TEOF]"
    by (simp add: p_rest_def ps_new_def)
  from parse_loop_rest [OF _ this, of "[]"] assms t(1) show ?thesis
    by (simp add: parse_source_def parse_tokens_def printable_program_def)
qed

text \<open>
  C16. Printing and parsing are inverse: the text of a program, one statement a line, its
  strings escaped, is read back as exactly that program. The programs are those whose numbers
  are integers and not negative, whose names are words and no keywords, and whose conditions
  are a value or a comparison of a name with a value.
\<close>

theorem print_parse_roundtrip:
  assumes "printable_program prog"
  shows "parse_source (program_text prog) = Inr prog"
  by (rule printed_program_parses [OF assms])

theorem print_parse_roundtrip_witness:
  "parse_source (program_text
     [SFrom (VIdent ''Sites''), SWhere (BField ''name'' BNeq (VString [dquote, newline, backslash])),
      STraverse (VString ''links'') (Some 3), STimeline None (Some (VInteger 7)),
      SSort (VIdent ''age'') Desc, SLimit 10]) =
   Inr [SFrom (VIdent ''Sites''), SWhere (BField ''name'' BNeq (VString [dquote, newline, backslash])),
      STraverse (VString ''links'') (Some 3), STimeline None (Some (VInteger 7)),
      SSort (VIdent ''age'') Desc, SLimit 10]"
  by (rule print_parse_roundtrip) code_simp

end
