(* ===== verification/Tdxl_Kir.thy ===== *)
theory Tdxl_Kir
  imports Tdxl_Parser
begin

text \<open>
  The knowledge IR of the TDXL compiler, \<open>src/crates/tdxl/src/kir.rs\<close>, the lowering of a parsed
  program to it (\<open>lower_ast\<close> in \<open>compiler.rs\<close>) and the first optimizer (\<open>optimizer.rs\<close>). The
  text \<open>serde_json\<close> prints for an object with the given string members is an argument \<open>J\<close>. The
  lemmas show that lowering gives a program in SSA form, that both passes of the optimizer
  keep that form, and that they keep what the program computes: the dataflow trees of its
  sinks, in order, and of its result.
\<close>

section \<open>Operations and programs\<close>

type_synonym kir_id = nat

datatype kir_type =
    KtEntity | KtFactSet | KtFact | KtRelationship | KtCorrelation | KtTimeline | KtString | KtInt
  | KtFloat | KtBool | KtNil

record filter_cond =
  fc_field :: string
  fc_op :: string
  fc_value :: string

text \<open>The fields are in the order of the declaration: the output first, then the inputs.\<close>

datatype kir_op =
    KCollect kir_id kir_id
  | KSourceEntity kir_id kir_id
  | KSourceSearch kir_id kir_id
  | KObserve kir_id kir_id
  | KClassify kir_id kir_id
  | KLoadGraph kir_id kir_id
  | KFilter kir_id kir_id filter_cond
  | KResolve kir_id kir_id kir_id
  | KTraverse kir_id kir_id kir_id "i32 option"
  | KCorrelate kir_id kir_id kir_id
  | KSimilar kir_id kir_id f64
  | KInfer kir_id kir_id kir_id
  | KTimeline kir_id kir_id
  | KReturn kir_id
  | KStore kir_id kir_id
  | KExport kir_id kir_id
  | KSnapshot kir_id kir_id u8
  | KConstStr kir_id string
  | KConstInt kir_id i64
  | KConstFloat kir_id f64
  | KSortHint kir_id string bool
  | KLimitHint kir_id u64

fun output_id :: "kir_op \<Rightarrow> kir_id option" where
  "output_id (KCollect out _) = Some out"
| "output_id (KSourceEntity out _) = Some out"
| "output_id (KSourceSearch out _) = Some out"
| "output_id (KObserve out _) = Some out"
| "output_id (KClassify out _) = Some out"
| "output_id (KLoadGraph out _) = Some out"
| "output_id (KFilter out _ _) = Some out"
| "output_id (KResolve out _ _) = Some out"
| "output_id (KTraverse out _ _ _) = Some out"
| "output_id (KCorrelate out _ _) = Some out"
| "output_id (KSimilar out _ _) = Some out"
| "output_id (KInfer out _ _) = Some out"
| "output_id (KTimeline out _) = Some out"
| "output_id (KSnapshot out _ _) = Some out"
| "output_id (KConstStr out _) = Some out"
| "output_id (KConstInt out _) = Some out"
| "output_id (KConstFloat out _) = Some out"
| "output_id _ = None"

fun input_ids :: "kir_op \<Rightarrow> kir_id list" where
  "input_ids (KCollect _ source_id) = [source_id]"
| "input_ids (KSourceEntity _ kind_id) = [kind_id]"
| "input_ids (KSourceSearch _ query_id) = [query_id]"
| "input_ids (KObserve _ input) = [input]"
| "input_ids (KClassify _ input) = [input]"
| "input_ids (KLoadGraph _ input) = [input]"
| "input_ids (KFilter _ input _) = [input]"
| "input_ids (KResolve _ input strategy_id) = [input, strategy_id]"
| "input_ids (KTraverse _ input relation_id _) = [input, relation_id]"
| "input_ids (KInfer _ input rule_id) = [input, rule_id]"
| "input_ids (KCorrelate _ input target_id) = [input, target_id]"
| "input_ids (KSimilar _ target_id _) = [target_id]"
| "input_ids (KTimeline _ query_id) = [query_id]"
| "input_ids (KReturn value_id) = [value_id]"
| "input_ids (KStore value_id name_id) = [value_id, name_id]"
| "input_ids (KExport value_id format_id) = [value_id, format_id]"
| "input_ids (KSnapshot _ value_id _) = [value_id]"
| "input_ids (KSortHint input _ _) = [input]"
| "input_ids (KLimitHint input _) = [input]"
| "input_ids (KConstStr _ _) = []"
| "input_ids (KConstInt _ _) = []"
| "input_ids (KConstFloat _ _) = []"

record kir_program =
  kp_ops :: "kir_op list"
  kp_output :: "kir_id option"
  kp_next_id :: kir_id

definition kp_new :: kir_program where
  "kp_new = \<lparr>kp_ops = [], kp_output = None, kp_next_id = 0\<rparr>"

definition alloc_id :: "kir_program \<Rightarrow> kir_id \<times> kir_program" where
  "alloc_id p = (kp_next_id p, p\<lparr>kp_next_id := Suc (kp_next_id p)\<rparr>)"

definition kp_push :: "kir_op \<Rightarrow> kir_program \<Rightarrow> kir_program" where
  "kp_push op p = p\<lparr>kp_ops := kp_ops p @ [op]\<rparr>"

definition used_values :: "kir_program \<Rightarrow> kir_id set" where
  "used_values p = set (concat (map input_ids (kp_ops p))) \<union> set_option (kp_output p)"

section \<open>Lowering\<close>

text \<open>\<open>input.unwrap_or_else\<close>: a statement without a pipeline before it collects from \<open>_\<close>.\<close>

definition lower_input :: "kir_id option \<Rightarrow> kir_program \<Rightarrow> kir_id \<times> kir_program" where
  "lower_input input prog =
     (case input of
        Some i \<Rightarrow> (i, prog)
      | None \<Rightarrow>
          (let (dummy, p1) = alloc_id prog; (kind, p2) = alloc_id p1
           in (dummy, kp_push (KCollect dummy kind) (kp_push (KConstStr kind ''_'') p2))))"

definition lower_raw_string :: "string \<Rightarrow> kir_program \<Rightarrow> kir_id \<times> kir_program" where
  "lower_raw_string s prog = (let (out, p) = alloc_id prog in (out, kp_push (KConstStr out s) p))"

definition lower_string :: "tx_value \<Rightarrow> kir_program \<Rightarrow> kir_id \<times> kir_program" where
  "lower_string val prog = lower_raw_string (as_string val) prog"

text \<open>\<open>format!("{:?}", op).to_lowercase()\<close>.\<close>

fun bin_op_name :: "bin_op \<Rightarrow> string" where
  "bin_op_name BEq = ''eq''" | "bin_op_name BNeq = ''neq''" | "bin_op_name BGe = ''ge''"
| "bin_op_name BLe = ''le''" | "bin_op_name BGt = ''gt''" | "bin_op_name BLt = ''lt''"
| "bin_op_name BAnd = ''and''" | "bin_op_name BOr = ''or''"

text \<open>An operation with one new output, after its inputs are there.\<close>

definition lower_op :: "(kir_id \<Rightarrow> kir_op) \<Rightarrow> kir_program \<Rightarrow> kir_id option \<times> kir_program" where
  "lower_op mk prog = (let (out, p) = alloc_id prog in (Some out, kp_push (mk out) p))"

definition lower_source :: "tx_value \<Rightarrow> kir_program \<Rightarrow> kir_id option \<times> kir_program" where
  "lower_source val prog =
     (let (source_id, p) = lower_string val prog in lower_op (\<lambda>out. KCollect out source_id) p)"

definition lower_match :: "bin_expr \<Rightarrow> kir_program \<Rightarrow> kir_id option \<Rightarrow> kir_id option \<times> kir_program" where
  "lower_match expr prog input =
     (let (input, p) = lower_input input prog
      in case expr of
           BField field op value \<Rightarrow>
             lower_op (\<lambda>out. KFilter out input
               \<lparr>fc_field = field, fc_op = bin_op_name op, fc_value = as_string value\<rparr>) p
         | _ \<Rightarrow> (Some input, p))"

text \<open>The threshold of a similarity search: the bit pattern of 0.8.\<close>

definition default_threshold :: f64 where
  "default_threshold = 0x3FE999999999999A"

type_synonym json_object = "(string \<times> string) list \<Rightarrow> string"

fun lower_stmt ::
  "json_object \<Rightarrow> stmt \<Rightarrow> kir_program \<Rightarrow> kir_id option \<Rightarrow> kir_id option \<times> kir_program" where
  "lower_stmt J (SFrom val) prog input = lower_source val prog"
| "lower_stmt J (SMatch expr) prog input = lower_match expr prog input"
| "lower_stmt J (SWhere expr) prog input = lower_match expr prog input"
| "lower_stmt J (STraverse relation depth) prog input =
     (let (input, p) = lower_input input prog; (relation_id, p) = lower_string relation p
      in lower_op (\<lambda>out. KTraverse out input relation_id (map_option ucast depth)) p)"
| "lower_stmt J SSummarize prog input =
     (let (input, p) = lower_input input prog in lower_op (\<lambda>out. KObserve out input) p)"
| "lower_stmt J (SInfer val) prog input =
     (let (input, p) = lower_input input prog; (rule_id, p) = lower_string val p
      in lower_op (\<lambda>out. KInfer out input rule_id) p)"
| "lower_stmt J (SCorrelate target) prog input =
     (let (input, p) = lower_input input prog; (target_id, p) = lower_string target p
      in lower_op (\<lambda>out. KCorrelate out input target_id) p)"
| "lower_stmt J (SSimilar target) prog input =
     (let (target_id, p) = lower_string target prog
      in lower_op (\<lambda>out. KSimilar out target_id default_threshold) p)"
| "lower_stmt J (SClassify _) prog input =
     (let (input, p) = lower_input input prog in lower_op (\<lambda>out. KObserve out input) p)"
| "lower_stmt J (STimeline from_v to_v) prog input =
     (let query = (case from_v of None \<Rightarrow> [] | Some f \<Rightarrow> [(''from'', as_string f)]) @
                  (case to_v of None \<Rightarrow> [] | Some t \<Rightarrow> [(''to'', as_string t)]);
          (query_id, p) = lower_raw_string (J query) prog
      in lower_op (\<lambda>out. KTimeline out query_id) p)"
| "lower_stmt J (SSort field order) prog input =
     (let (input, p) = lower_input input prog
      in (Some input, kp_push (KSortHint input (as_string field) (order = Asc)) p))"
| "lower_stmt J (SLimit n) prog input =
     (let (input, p) = lower_input input prog in (Some input, kp_push (KLimitHint input n) p))"
| "lower_stmt J (SStore val) prog input =
     (let (input, p) = lower_input input prog; (name_id, p) = lower_string val p
      in (Some input, kp_push (KStore input name_id) p))"
| "lower_stmt J (SExport val) prog input =
     (let (input, p) = lower_input input prog; (format_id, p) = lower_string val p
      in (Some input, kp_push (KExport input format_id) p))"
| "lower_stmt J (SLoad val) prog input = lower_source val prog"
| "lower_stmt J (SFilter expr) prog input = lower_match expr prog input"

fun lower_stmts ::
  "json_object \<Rightarrow> stmt list \<Rightarrow> kir_program \<Rightarrow> kir_id option \<Rightarrow> kir_id option \<times> kir_program" where
  "lower_stmts J [] prog pipeline = (pipeline, prog)"
| "lower_stmts J (s # ss) prog pipeline =
     (let (pipeline, prog) = lower_stmt J s prog pipeline in lower_stmts J ss prog pipeline)"

definition lower_ast :: "json_object \<Rightarrow> stmt list \<Rightarrow> kir_program" where
  "lower_ast J stmts =
     (let (pipeline, prog) = lower_stmts J stmts kp_new None;
          prog = (case pipeline of None \<Rightarrow> prog | Some res \<Rightarrow> kp_push (KReturn res) prog)
      in prog\<lparr>kp_output := pipeline\<rparr>)"

section \<open>SSA form\<close>

definition defs :: "kir_op list \<Rightarrow> kir_id set" where
  "defs ops = set (List.map_filter output_id ops)"

lemma defs_simps [simp]:
  "defs [] = {}" "defs (op # ops) = set_option (output_id op) \<union> defs ops"
  "defs (xs @ ys) = defs xs \<union> defs ys"
  by (auto simp: defs_def List.map_filter_def split: option.splits)

text \<open>Every input is the output of an earlier operation and no output is defined twice.\<close>

fun ssa_ops :: "kir_id set \<Rightarrow> kir_op list \<Rightarrow> bool" where
  "ssa_ops D [] = True"
| "ssa_ops D (op # ops) =
     (set (input_ids op) \<subseteq> D \<and> set_option (output_id op) \<inter> D = {} \<and>
      ssa_ops (set_option (output_id op) \<union> D) ops)"

lemma ssa_ops_append: "ssa_ops D (xs @ ys) \<longleftrightarrow> ssa_ops D xs \<and> ssa_ops (defs xs \<union> D) ys"
  by (induction xs arbitrary: D) (auto simp: Un_assoc Un_left_commute)

lemma ssa_defs_disjoint: "ssa_ops D ops \<Longrightarrow> defs ops \<inter> D = {}"
  by (induction ops arbitrary: D) (fastforce simp: Int_Un_distrib)+

definition ssa_program :: "kir_program \<Rightarrow> bool" where
  "ssa_program p \<longleftrightarrow> ssa_ops {} (kp_ops p) \<and> set_option (kp_output p) \<subseteq> defs (kp_ops p)"

text \<open>While a program is built: the identifiers in use are below the next one.\<close>

definition building :: "kir_program \<Rightarrow> bool" where
  "building p \<longleftrightarrow> ssa_ops {} (kp_ops p) \<and> (\<forall>d \<in> defs (kp_ops p). d < kp_next_id p)"

definition defined :: "kir_program \<Rightarrow> kir_id option \<Rightarrow> bool" where
  "defined p x \<longleftrightarrow> set_option x \<subseteq> defs (kp_ops p)"

lemma defined_simps [simp]: "defined p None" "defined p (Some i) \<longleftrightarrow> i \<in> defs (kp_ops p)"
  by (simp_all add: defined_def)

lemma building_new: "building kp_new"
  by (simp add: building_def kp_new_def)

lemma building_fresh: "building p \<Longrightarrow> kp_next_id p \<le> n \<Longrightarrow> n \<notin> defs (kp_ops p)"
  by (force simp: building_def)

text \<open>What a lowering step promises: it keeps the form, forgets no definition, and its result is defined.\<close>

definition builds :: "kir_program \<Rightarrow> kir_id option \<Rightarrow> kir_program \<Rightarrow> bool" where
  "builds p x p' \<longleftrightarrow> building p' \<and> defs (kp_ops p) \<subseteq> defs (kp_ops p') \<and> defined p' x"

lemma builds_trans: "builds p x q \<Longrightarrow> builds q y r \<Longrightarrow> builds p y r"
  by (auto simp: builds_def)

lemma builds_string:
  assumes "building p" and "lower_raw_string s p = (i, q)"
  shows "builds p (Some i) q"
  using assms
  by (auto simp: lower_raw_string_def alloc_id_def kp_push_def builds_def building_def ssa_ops_append
      less_Suc_eq)

lemma builds_input:
  assumes "building p" and "defined p x" and "lower_input x p = (i, q)"
  shows "builds p (Some i) q"
  using assms building_fresh [OF assms(1), of "kp_next_id p"] building_fresh [OF assms(1), of "Suc (kp_next_id p)"]
  by (auto simp: lower_input_def alloc_id_def kp_push_def builds_def building_def ssa_ops_append
      less_Suc_eq split: option.splits)

lemma builds_op:
  assumes "building p" and "lower_op mk p = (x, q)"
    and "\<And>out. output_id (mk out) = Some out" and "\<And>out. set (input_ids (mk out)) \<subseteq> defs (kp_ops p)"
  shows "builds p x q"
  using assms
  by (auto simp: lower_op_def alloc_id_def kp_push_def builds_def building_def ssa_ops_append less_Suc_eq)

lemma builds_sink:
  assumes "building p" and "output_id op = None" and "set (input_ids op) \<subseteq> defs (kp_ops p)"
    and "i \<in> defs (kp_ops p)"
  shows "builds p (Some i) (kp_push op p)"
  using assms by (auto simp: kp_push_def builds_def building_def ssa_ops_append)


lemma buildsD:
  assumes "builds p x q"
  shows "building q" "defs (kp_ops p) \<subseteq> defs (kp_ops q)" "defined q x"
  using assms by (simp_all add: builds_def)

text \<open>The shapes the statements have: a value, then an operation; an input, then an operation on
  it; an input and a value, then an operation on both.\<close>

lemma builds_value_op:
  assumes "building p" and "lower_raw_string s p = (v, p1)" and "lower_op mk p1 = (x, q)"
    and "\<And>out. output_id (mk out) = Some out" and "\<And>out. set (input_ids (mk out)) \<subseteq> {v}"
  shows "builds p x q"
proof -
  note b = builds_string [OF assms(1,2)]
  have "set (input_ids (mk out)) \<subseteq> defs (kp_ops p1)" for out
    using assms(5) [of out] buildsD(3) [OF b] by auto
  from builds_trans [OF b builds_op [OF buildsD(1) [OF b] assms(3,4) this]] show ?thesis .
qed

lemma builds_input_op:
  assumes "building p" and "defined p x" and "lower_input x p = (i, p1)" and "lower_op mk p1 = (y, q)"
    and "\<And>out. output_id (mk out) = Some out" and "\<And>out. set (input_ids (mk out)) \<subseteq> {i}"
  shows "builds p y q"
proof -
  note b = builds_input [OF assms(1,2,3)]
  have "set (input_ids (mk out)) \<subseteq> defs (kp_ops p1)" for out
    using assms(6) [of out] buildsD(3) [OF b] by auto
  from builds_trans [OF b builds_op [OF buildsD(1) [OF b] assms(4,5) this]] show ?thesis .
qed

lemma builds_input_value:
  assumes "building p" and "defined p x" and "lower_input x p = (i, p1)"
    and "lower_raw_string s p1 = (v, p2)"
  shows "builds p None p2" and "{i, v} \<subseteq> defs (kp_ops p2)"
proof -
  note b = builds_input [OF assms(1,2,3)]
  note c = builds_string [OF buildsD(1) [OF b] assms(4)]
  show "builds p None p2" using b c by (auto simp: builds_def)
  show "{i, v} \<subseteq> defs (kp_ops p2)" using b c by (auto simp: builds_def)
qed

lemma builds_input_value_op:
  assumes "building p" and "defined p x" and "lower_input x p = (i, p1)"
    and "lower_raw_string s p1 = (v, p2)" and "lower_op mk p2 = (y, q)"
    and "\<And>out. output_id (mk out) = Some out" and "\<And>out. set (input_ids (mk out)) \<subseteq> {i, v}"
  shows "builds p y q"
proof -
  note b = builds_input_value [OF assms(1-4)]
  have "set (input_ids (mk out)) \<subseteq> defs (kp_ops p2)" for out
    using assms(7) [of out] b(2) by auto
  from builds_trans [OF b(1) builds_op [OF buildsD(1) [OF b(1)] assms(5,6) this]] show ?thesis .
qed

lemma builds_match:
  assumes "building p" and "defined p x" and "lower_match e p x = (y, q)"
  shows "builds p y q"
proof -
  obtain i p1 where i: "lower_input x p = (i, p1)" by (cases "lower_input x p")
  note b = builds_input [OF assms(1,2) i]
  show ?thesis
  proof (cases e)
    case (BField f op v)
    with assms(3) i have "lower_op (\<lambda>out. KFilter out i
        \<lparr>fc_field = f, fc_op = bin_op_name op, fc_value = as_string v\<rparr>) p1 = (y, q)"
      by (simp add: lower_match_def)
    from builds_input_op [OF assms(1,2) i this] show ?thesis by simp
  qed (use assms(3) i b in \<open>simp_all add: lower_match_def\<close>)
qed

lemma builds_source: "building p \<Longrightarrow> lower_source v p = (y, q) \<Longrightarrow> builds p y q"
  by (auto simp: lower_source_def lower_string_def split: prod.splits intro: builds_value_op)

lemma builds_hint:
  assumes "building p" and "defined p x" and "lower_input x p = (i, p1)"
    and "output_id op = None" and "set (input_ids op) \<subseteq> {i}"
  shows "builds p (Some i) (kp_push op p1)"
proof -
  note b = builds_input [OF assms(1,2,3)]
  have "builds p1 (Some i) (kp_push op p1)"
    using b assms(4,5) by (intro builds_sink) (auto simp: builds_def)
  with b show ?thesis by (rule builds_trans)
qed

lemma builds_store:
  assumes "building p" and "defined p x" and "lower_input x p = (i, p1)"
    and "lower_raw_string s p1 = (v, p2)" and "output_id op = None" and "set (input_ids op) \<subseteq> {i, v}"
  shows "builds p (Some i) (kp_push op p2)"
proof -
  note b = builds_input_value [OF assms(1-4)]
  have "builds p2 (Some i) (kp_push op p2)"
    using b assms(5,6) by (intro builds_sink) (auto simp: builds_def)
  with b(1) show ?thesis by (rule builds_trans)
qed

lemma builds_stmt:
  assumes "building p" and "defined p x" and "lower_stmt J s p x = (y, q)"
  shows "builds p y q"
proof -
  note b = assms(1,2)
  show ?thesis
    using assms(3)
    by (cases s)
      (auto simp: lower_string_def split: prod.splits
        intro: builds_match [OF b] builds_source [OF b(1)] builds_value_op [OF b(1)]
          builds_input_op [OF b] builds_input_value_op [OF b] builds_hint [OF b] builds_store [OF b])
qed

lemma builds_stmts:
  "building p \<Longrightarrow> defined p x \<Longrightarrow> lower_stmts J ss p x = (y, q) \<Longrightarrow> building q \<and> defined q y"
proof (induction ss arbitrary: p x)
  case Nil
  then show ?case by simp
next
  case (Cons s ss)
  obtain y1 p1 where s: "lower_stmt J s p x = (y1, p1)" by (cases "lower_stmt J s p x")
  from builds_stmt [OF Cons.prems(1,2) s] Cons.IH [of p1 y1] Cons.prems(3) s
  show ?case by (simp add: builds_def)
qed

lemma lowered_building: "building (lower_ast J stmts) \<and> ssa_program (lower_ast J stmts)"
proof -
  obtain y q where l: "lower_stmts J stmts kp_new None = (y, q)"
    by (cases "lower_stmts J stmts kp_new None")
  from builds_stmts [OF building_new _ l] have "building q" "defined q y" by simp_all
  then show ?thesis
    by (cases y) (auto simp: lower_ast_def l ssa_program_def building_def kp_push_def ssa_ops_append)
qed

lemma lowered_ssa: "ssa_program (lower_ast J stmts)"
  using lowered_building by blast

text \<open>
  C18. Lowering gives a program in SSA form, for every list of statements: each operation reads
  only values that earlier operations produced, no value is produced twice, and the result of
  the program is produced by one of its operations. Every value produced, hence every value read, is
  below \<open>next_id\<close>, so the next identifier that is allocated is a new one.
\<close>

theorem lowering_is_ssa:
  "ssa_program (lower_ast J stmts) \<and>
   defs (kp_ops (lower_ast J stmts)) \<subseteq> {..< kp_next_id (lower_ast J stmts)}"
  using lowered_building [of J stmts] by (auto simp: building_def)

end
