(* ===== verification/Tdxl_Optimizer.thy ===== *)
theory Tdxl_Optimizer
  imports Tdxl_Kir
begin

text \<open>
  The first optimizer of the TDXL compiler, \<open>src/crates/tdxl/src/optimizer.rs\<close>: merging of equal
  string constants, limit propagation (which does nothing) and dead code elimination. What a
  program computes is a list of trees: one for each operation without an output, in order, and
  one for the result. The lemmas show that both passes keep the SSA form and these trees.
\<close>

section \<open>The passes\<close>

text \<open>
  An operation with its input identifiers replaced: the body of \<open>rewrite_inputs\<close>, and of
  \<open>remap_op_inputs\<close> in the query optimizer.
\<close>

fun map_inputs :: "(kir_id \<Rightarrow> kir_id) \<Rightarrow> kir_op \<Rightarrow> kir_op" where
  "map_inputs r (KCollect out source_id) = KCollect out (r source_id)"
| "map_inputs r (KSourceEntity out kind_id) = KSourceEntity out (r kind_id)"
| "map_inputs r (KSourceSearch out query_id) = KSourceSearch out (r query_id)"
| "map_inputs r (KObserve out input) = KObserve out (r input)"
| "map_inputs r (KClassify out input) = KClassify out (r input)"
| "map_inputs r (KLoadGraph out input) = KLoadGraph out (r input)"
| "map_inputs r (KFilter out input c) = KFilter out (r input) c"
| "map_inputs r (KResolve out input strategy_id) = KResolve out (r input) (r strategy_id)"
| "map_inputs r (KTraverse out input relation_id depth) = KTraverse out (r input) (r relation_id) depth"
| "map_inputs r (KCorrelate out input target_id) = KCorrelate out (r input) (r target_id)"
| "map_inputs r (KSimilar out target_id threshold) = KSimilar out (r target_id) threshold"
| "map_inputs r (KInfer out input rule_id) = KInfer out (r input) (r rule_id)"
| "map_inputs r (KTimeline out query_id) = KTimeline out (r query_id)"
| "map_inputs r (KReturn value_id) = KReturn (r value_id)"
| "map_inputs r (KStore value_id name_id) = KStore (r value_id) (r name_id)"
| "map_inputs r (KExport value_id format_id) = KExport (r value_id) (r format_id)"
| "map_inputs r (KSnapshot out value_id kind) = KSnapshot out (r value_id) kind"
| "map_inputs r (KConstStr out s) = KConstStr out s"
| "map_inputs r (KConstInt out v) = KConstInt out v"
| "map_inputs r (KConstFloat out v) = KConstFloat out v"
| "map_inputs r (KSortHint input field ascending) = KSortHint (r input) field ascending"
| "map_inputs r (KLimitHint input limit) = KLimitHint (r input) limit"

definition replaced :: "(kir_id \<rightharpoonup> kir_id) \<Rightarrow> kir_id \<Rightarrow> kir_id" where
  "replaced repl i = unwrap_or i (repl i)"

definition rewrite_inputs :: "(kir_id \<rightharpoonup> kir_id) \<Rightarrow> kir_op \<Rightarrow> kir_op" where
  "rewrite_inputs repl op = map_inputs (replaced repl) op"

text \<open>The first loop of \<open>eliminate_redundant_strings\<close>: the later of two equal constants is replaced.\<close>

fun find_duplicates :: "(string \<rightharpoonup> kir_id) \<Rightarrow> (kir_id \<rightharpoonup> kir_id) \<Rightarrow> kir_op list \<Rightarrow> (kir_id \<rightharpoonup> kir_id)" where
  "find_duplicates seen repl [] = repl"
| "find_duplicates seen repl (op # ops) =
     (case op of
        KConstStr out value \<Rightarrow>
          (case seen value of
             Some existing \<Rightarrow> find_duplicates seen (repl(out \<mapsto> existing)) ops
           | None \<Rightarrow> find_duplicates (seen(value \<mapsto> out)) repl ops)
      | _ \<Rightarrow> find_duplicates seen repl ops)"

definition is_duplicate :: "(kir_id \<rightharpoonup> kir_id) \<Rightarrow> kir_op \<Rightarrow> bool" where
  "is_duplicate repl op \<longleftrightarrow> (case op of KConstStr out _ \<Rightarrow> repl out \<noteq> None | _ \<Rightarrow> False)"

fun rewrite_ops :: "(kir_id \<rightharpoonup> kir_id) \<Rightarrow> kir_op list \<Rightarrow> kir_op list" where
  "rewrite_ops repl [] = []"
| "rewrite_ops repl (op # ops) =
     (if is_duplicate repl op then rewrite_ops repl ops
      else rewrite_inputs repl op # rewrite_ops repl ops)"

definition eliminate_redundant_strings :: "kir_program \<Rightarrow> kir_program" where
  "eliminate_redundant_strings program =
     (let repl = find_duplicates Map.empty Map.empty (kp_ops program)
      in kp_new\<lparr>kp_ops := rewrite_ops repl (kp_ops program),
                kp_output := map_option (replaced repl) (kp_output program)\<rparr>)"

definition propagate_limits :: "kir_program \<Rightarrow> kir_program" where
  "propagate_limits program = program"

text \<open>What stays: an operation without an output or one whose output is used.\<close>

definition is_live :: "kir_id set \<Rightarrow> kir_op \<Rightarrow> bool" where
  "is_live used op = (case output_id op of None \<Rightarrow> True | Some i \<Rightarrow> i \<in> used)"

definition eliminate_dead_code :: "kir_program \<Rightarrow> kir_program" where
  "eliminate_dead_code program =
     (let used = used_values program
      in kp_new\<lparr>kp_ops := filter (is_live used) (kp_ops program),
                kp_output := kp_output program\<rparr>)"

definition optimize :: "kir_program \<Rightarrow> kir_program" where
  "optimize program = eliminate_dead_code (propagate_limits (eliminate_redundant_strings program))"

section \<open>What a program computes\<close>

datatype kir_tree = Missing | Node kir_op "kir_tree list"

fun with_output :: "kir_id \<Rightarrow> kir_op \<Rightarrow> kir_op" where
  "with_output n (KCollect _ source_id) = KCollect n source_id"
| "with_output n (KSourceEntity _ kind_id) = KSourceEntity n kind_id"
| "with_output n (KSourceSearch _ query_id) = KSourceSearch n query_id"
| "with_output n (KObserve _ input) = KObserve n input"
| "with_output n (KClassify _ input) = KClassify n input"
| "with_output n (KLoadGraph _ input) = KLoadGraph n input"
| "with_output n (KFilter _ input c) = KFilter n input c"
| "with_output n (KResolve _ input strategy_id) = KResolve n input strategy_id"
| "with_output n (KTraverse _ input relation_id depth) = KTraverse n input relation_id depth"
| "with_output n (KCorrelate _ input target_id) = KCorrelate n input target_id"
| "with_output n (KSimilar _ target_id threshold) = KSimilar n target_id threshold"
| "with_output n (KInfer _ input rule_id) = KInfer n input rule_id"
| "with_output n (KTimeline _ query_id) = KTimeline n query_id"
| "with_output n (KSnapshot _ value_id kind) = KSnapshot n value_id kind"
| "with_output n (KConstStr _ s) = KConstStr n s"
| "with_output n (KConstInt _ v) = KConstInt n v"
| "with_output n (KConstFloat _ v) = KConstFloat n v"
| "with_output n op = op"

lemma input_ids_map [simp]: "input_ids (map_inputs r op) = map r (input_ids op)"
  by (cases op) simp_all

lemma output_id_map [simp]: "output_id (map_inputs r op) = output_id op"
  by (cases op) simp_all

lemma input_ids_with_output [simp]: "input_ids (with_output n op) = input_ids op"
  by (cases op) simp_all

lemma output_id_with_output [simp]: "output_id (with_output n op) = map_option (\<lambda>_. n) (output_id op)"
  by (cases op) simp_all

text \<open>An operation without its identifiers, and its tree from the trees of its inputs.\<close>

definition shape :: "kir_op \<Rightarrow> kir_op" where
  "shape op = with_output 0 (map_inputs (\<lambda>_. 0) op)"

lemma shape_map [simp]: "shape (map_inputs r op) = shape op"
  by (cases op) (simp_all add: shape_def)

lemma shape_with_output [simp]: "shape (with_output n op) = shape op"
  by (cases op) (simp_all add: shape_def)

definition value_of :: "(kir_id \<rightharpoonup> kir_tree) \<Rightarrow> kir_id \<Rightarrow> kir_tree" where
  "value_of env i = unwrap_or Missing (env i)"

definition op_tree :: "(kir_id \<rightharpoonup> kir_tree) \<Rightarrow> kir_op \<Rightarrow> kir_tree" where
  "op_tree env op = Node (shape op) (map (value_of env) (input_ids op))"

fun run_kir :: "(kir_id \<rightharpoonup> kir_tree) \<Rightarrow> kir_op list \<Rightarrow> (kir_id \<rightharpoonup> kir_tree) \<times> kir_tree list" where
  "run_kir env [] = (env, [])"
| "run_kir env (op # ops) =
     (case output_id op of
        Some out \<Rightarrow> run_kir (env(out \<mapsto> op_tree env op)) ops
      | None \<Rightarrow> (let (env', sinks) = run_kir env ops in (env', op_tree env op # sinks)))"

definition denote :: "kir_program \<Rightarrow> kir_tree list \<times> kir_tree option" where
  "denote p =
     (let (env, sinks) = run_kir Map.empty (kp_ops p) in (sinks, map_option (value_of env) (kp_output p)))"

lemma op_tree_map:
  assumes "\<And>i. i \<in> set (input_ids op) \<Longrightarrow> env' (r i) = env i"
  shows "op_tree env' (map_inputs r op) = op_tree env op"
  using assms by (simp add: op_tree_def value_of_def)

lemma op_tree_cong:
  assumes "\<And>i. i \<in> set (input_ids op) \<Longrightarrow> env' i = env i"
  shows "op_tree env' op = op_tree env op"
  using assms by (simp add: op_tree_def value_of_def)

section \<open>Dead code elimination\<close>

text \<open>Two runs agree: the same sinks, and environments related by \<open>E\<close>.\<close>

definition agree ::
  "((kir_id \<rightharpoonup> kir_tree) \<Rightarrow> (kir_id \<rightharpoonup> kir_tree) \<Rightarrow> bool) \<Rightarrow>
   (kir_id \<rightharpoonup> kir_tree) \<times> kir_tree list \<Rightarrow> (kir_id \<rightharpoonup> kir_tree) \<times> kir_tree list \<Rightarrow> bool" where
  "agree E r r' \<longleftrightarrow> E (fst r) (fst r') \<and> snd r = snd r'"

lemma run_kir_out: "output_id op = Some d \<Longrightarrow> run_kir env (op # ops) = run_kir (env(d \<mapsto> op_tree env op)) ops"
  by simp

lemma agree_sink:
  assumes "output_id op = None" "output_id op' = None" "op_tree env' op' = op_tree env op"
    and "agree E (run_kir env ops) (run_kir env' ops')"
  shows "agree E (run_kir env (op # ops)) (run_kir env' (op' # ops'))"
  using assms by (simp add: agree_def split_beta)

definition same_on :: "kir_id set \<Rightarrow> (kir_id \<rightharpoonup> kir_tree) \<Rightarrow> (kir_id \<rightharpoonup> kir_tree) \<Rightarrow> bool" where
  "same_on U env env' \<longleftrightarrow> (\<forall>d \<in> U. env d = env' d)"

lemma same_on_insert: "same_on U env env' \<Longrightarrow> same_on U (env(d \<mapsto> t)) (env'(d \<mapsto> t))"
  by (simp add: same_on_def)

lemma same_on_drop: "same_on U env env' \<Longrightarrow> d \<notin> U \<Longrightarrow> same_on U (env(d \<mapsto> t)) env'"
  by (auto simp: same_on_def)

lemma is_live_simps [simp]:
  "output_id op = None \<Longrightarrow> is_live U op" "output_id op = Some d \<Longrightarrow> is_live U op = (d \<in> U)"
  by (simp_all add: is_live_def)

lemma dead_code_run:
  assumes "\<And>op. op \<in> set ops \<Longrightarrow> set (input_ids op) \<subseteq> U" and "same_on U env env'"
  shows "agree (same_on U) (run_kir env ops) (run_kir env' (filter (is_live U) ops))"
  using assms
proof (induction ops arbitrary: env env')
  case Nil
  then show ?case by (simp add: agree_def)
next
  case (Cons op ops)
  have t: "op_tree env' op = op_tree env op"
    using Cons.prems(1) [of op] Cons.prems(2) by (intro op_tree_cong) (auto simp: same_on_def)
  have ih: "same_on U e e' \<Longrightarrow> agree (same_on U) (run_kir e ops) (run_kir e' (filter (is_live U) ops))" for e e'
    using Cons.IH Cons.prems(1) by simp
  show ?case
  proof (cases "output_id op")
    case None
    with agree_sink [OF None None t ih [OF Cons.prems(2)]] None show ?thesis by simp
  next
    case (Some d)
    show ?thesis
    proof (cases "d \<in> U")
      case True
      with ih [OF same_on_insert [OF Cons.prems(2)]] t Some True show ?thesis by simp
    next
      case False
      with ih [OF same_on_drop [OF Cons.prems(2) False]] Some False show ?thesis by simp
    qed
  qed
qed

lemma dead_code_ssa:
  assumes "\<And>op. op \<in> set ops \<Longrightarrow> set (input_ids op) \<subseteq> U" and "ssa_ops D ops" and "D \<inter> U \<subseteq> D'" and "D' \<subseteq> D"
  shows "ssa_ops D' (filter (is_live U) ops)"
  using assms
proof (induction ops arbitrary: D D')
  case (Cons op ops)
  have inp: "set (input_ids op) \<subseteq> D'" using Cons.prems(1) [of op] Cons.prems(2,3) by auto
  have ih: "ssa_ops E' (filter (is_live U) ops)" if "ssa_ops E ops" "E \<inter> U \<subseteq> E'" "E' \<subseteq> E" for E E'
    using Cons.IH [OF _ that] Cons.prems(1) by simp
  show ?case
  proof (cases "output_id op")
    case None
    with Cons.prems(2) ih [OF _ Cons.prems(3,4)] inp show ?thesis by simp
  next
    case (Some d)
    then have d: "d \<notin> D" "ssa_ops (insert d D) ops" using Cons.prems(2) by simp_all
    show ?thesis
    proof (cases "d \<in> U")
      case True
      have "ssa_ops (insert d D') (filter (is_live U) ops)"
        by (rule ih [OF d(2)]) (use Cons.prems(3,4) in auto)
      with True Some inp d(1) Cons.prems(4) show ?thesis by auto
    next
      case False
      have "ssa_ops D' (filter (is_live U) ops)"
        by (rule ih [OF d(2)]) (use False Cons.prems(3,4) in auto)
      with False Some show ?thesis by simp
    qed
  qed
qed simp

lemma used_inputs: "op \<in> set (kp_ops p) \<Longrightarrow> set (input_ids op) \<subseteq> used_values p"
  by (auto simp: used_values_def)

lemma denote_agree:
  assumes "agree E (run_kir Map.empty (kp_ops p)) (run_kir Map.empty (kp_ops q))"
    and "\<And>env env'. E env env' \<Longrightarrow> map_option (value_of env) (kp_output p) = map_option (value_of env') (kp_output q)"
  shows "denote q = denote p"
  using assms(1) assms(2) [of "fst (run_kir Map.empty (kp_ops p))" "fst (run_kir Map.empty (kp_ops q))"]
  by (simp add: denote_def agree_def split_beta)

lemma dead_code_denote: "denote (eliminate_dead_code p) = denote p"
proof (rule denote_agree [where E = "same_on (used_values p)"])
  show "agree (same_on (used_values p)) (run_kir Map.empty (kp_ops p))
    (run_kir Map.empty (kp_ops (eliminate_dead_code p)))"
    using dead_code_run [OF used_inputs, of "kp_ops p" p Map.empty Map.empty]
    by (simp add: eliminate_dead_code_def same_on_def)
next
  fix env env'
  assume "same_on (used_values p) env env'"
  moreover have "kp_output p = Some d \<Longrightarrow> d \<in> used_values p" for d by (simp add: used_values_def)
  ultimately show "map_option (value_of env) (kp_output p) =
      map_option (value_of env') (kp_output (eliminate_dead_code p))"
    by (cases "kp_output p") (auto simp: eliminate_dead_code_def same_on_def value_of_def)
qed

lemma defs_dead_code: "defs (filter (is_live U) ops) = defs ops \<inter> U"
  by (induction ops) (auto simp: is_live_def split: option.splits)

lemma dead_code_program: "ssa_program p \<Longrightarrow> ssa_program (eliminate_dead_code p)"
  using dead_code_ssa [of "kp_ops p" "used_values p" "{}" "{}"] used_inputs [of _ p]
  by (auto simp: ssa_program_def eliminate_dead_code_def Let_def defs_dead_code used_values_def)


section \<open>Merging of equal strings\<close>

text \<open>The replacements found from a point on, which only concern later definitions.\<close>

lemma find_duplicates_outside:
  "d \<notin> defs ops \<Longrightarrow> find_duplicates seen repl ops d = repl d"
  by (induction ops arbitrary: seen repl) (auto split: kir_op.splits option.splits)

text \<open>Before: every value defined so far has the same tree after the merge, under its new name.\<close>

definition renamed :: "(kir_id \<Rightarrow> kir_id) \<Rightarrow> kir_id set \<Rightarrow> (kir_id \<rightharpoonup> kir_tree) \<Rightarrow> (kir_id \<rightharpoonup> kir_tree) \<Rightarrow> bool" where
  "renamed r D env env' \<longleftrightarrow> (\<forall>d \<in> D. r d \<in> D \<and> env d = env' (r d))"

definition seen_ok :: "(kir_id \<Rightarrow> kir_id) \<Rightarrow> kir_id set \<Rightarrow> (string \<rightharpoonup> kir_id) \<Rightarrow> (kir_id \<rightharpoonup> kir_tree) \<Rightarrow> bool" where
  "seen_ok r D seen env' \<longleftrightarrow>
     (\<forall>s e. seen s = Some e \<longrightarrow> e \<in> D \<and> r e = e \<and> env' e = Some (Node (KConstStr 0 s) []))"

lemma renamed_kept:
  "renamed r D env env' \<Longrightarrow> d \<notin> D \<Longrightarrow> r d = d \<Longrightarrow> renamed r (insert d D) (env(d \<mapsto> t)) (env'(d \<mapsto> t))"
  by (auto simp: renamed_def)

lemma renamed_merged:
  "renamed r D env env' \<Longrightarrow> d \<notin> D \<Longrightarrow> r d \<in> D \<Longrightarrow> env' (r d) = Some t \<Longrightarrow>
   renamed r (insert d D) (env(d \<mapsto> t)) env'"
  by (auto simp: renamed_def)

lemma seen_ok_kept: "seen_ok r D seen env' \<Longrightarrow> d \<notin> D \<Longrightarrow> seen_ok r (insert d D) seen (env'(d \<mapsto> t))"
  by (auto simp: seen_ok_def)

lemma seen_ok_merged: "seen_ok r D seen env' \<Longrightarrow> seen_ok r (insert d D) seen env'"
  by (auto simp: seen_ok_def)

lemma seen_ok_new:
  "seen_ok r D seen env' \<Longrightarrow> d \<notin> D \<Longrightarrow> r d = d \<Longrightarrow>
   seen_ok r (insert d D) (seen(s \<mapsto> d)) (env'(d \<mapsto> Node (KConstStr 0 s) []))"
  by (auto simp: seen_ok_def)

lemma is_duplicate_simps [simp]:
  "is_duplicate repl (KConstStr d s) \<longleftrightarrow> repl d \<noteq> None"
  "(\<And>d s. op \<noteq> KConstStr d s) \<Longrightarrow> \<not> is_duplicate repl op"
  by (simp_all add: is_duplicate_def split: kir_op.split)

lemma op_tree_const: "op_tree env (KConstStr d s) = Node (KConstStr 0 s) []"
  by (simp add: op_tree_def shape_def)

lemma find_duplicates_skip:
  "(\<And>d s. op \<noteq> KConstStr d s) \<Longrightarrow> find_duplicates seen repl (op # ops) = find_duplicates seen repl ops"
  by (simp split: kir_op.split)

lemma merge_run:
  assumes "ssa_ops D ops" and "renamed (replaced R) D env env'" and "seen_ok (replaced R) D seen env'"
    and "\<And>d. d \<in> defs ops \<Longrightarrow> R d = find_duplicates seen repl ops d"
    and "\<And>d. d \<in> defs ops \<Longrightarrow> repl d = None"
    and "replaced R ` D \<subseteq> K" and "K \<subseteq> D"
  shows "agree (renamed (replaced R) (defs ops \<union> D)) (run_kir env ops) (run_kir env' (rewrite_ops R ops)) \<and>
         ssa_ops K (rewrite_ops R ops) \<and> replaced R ` (defs ops \<union> D) \<subseteq> defs (rewrite_ops R ops) \<union> K"
  using assms
proof (induction ops arbitrary: D seen repl env env' K)
  case Nil
  then show ?case by (simp add: agree_def)
next
  case (Cons op ops)
  note ssa = Cons.prems(1) and ren = Cons.prems(2) and seen = Cons.prems(3) and R = Cons.prems(4)
    and fresh = Cons.prems(5) and K = Cons.prems(6,7)
  have inp: "set (input_ids op) \<subseteq> D" using ssa by simp
  then have inpK: "set (input_ids (rewrite_inputs R op)) \<subseteq> K"
    using K(1) by (auto simp: rewrite_inputs_def)
  have tree: "op_tree env' (rewrite_inputs R op) = op_tree env op"
    unfolding rewrite_inputs_def using inp ren by (intro op_tree_map) (auto simp: renamed_def)
  show ?case
  proof (cases "output_id op")
    case None
    then have nc: "op \<noteq> KConstStr d s" for d s by auto
    have "agree (renamed (replaced R) (defs ops \<union> D)) (run_kir env ops) (run_kir env' (rewrite_ops R ops)) \<and>
      ssa_ops K (rewrite_ops R ops) \<and> replaced R ` (defs ops \<union> D) \<subseteq> defs (rewrite_ops R ops) \<union> K"
      by (rule Cons.IH [where seen = seen and repl = repl])
        (use ssa ren seen R fresh K None find_duplicates_skip [of op] nc in auto)
    moreover have o: "output_id (rewrite_inputs R op) = None" using None by (simp add: rewrite_inputs_def)
    ultimately show ?thesis
      using agree_sink [OF None o tree] None nc inpK by simp
  next
    case (Some d)
    then have d: "d \<notin> D" "ssa_ops (insert d D) ops" using ssa by simp_all
    have dn: "d \<notin> defs ops" using ssa_defs_disjoint [OF d(2)] by auto
    have o: "output_id (rewrite_inputs R op) = Some d" using Some by (simp add: rewrite_inputs_def)
    have keep: ?thesis
      if r: "replaced R d = d" and "\<not> is_duplicate R op"
        and s: "seen_ok (replaced R) (insert d D) seen2 (env'(d \<mapsto> op_tree env op))"
        and R2: "\<And>i. i \<in> defs ops \<Longrightarrow> R i = find_duplicates seen2 repl ops i" for seen2
    proof -
      have "agree (renamed (replaced R) (defs ops \<union> insert d D)) (run_kir (env(d \<mapsto> op_tree env op)) ops)
          (run_kir (env'(d \<mapsto> op_tree env op)) (rewrite_ops R ops)) \<and>
        ssa_ops (insert d K) (rewrite_ops R ops) \<and>
        replaced R ` (defs ops \<union> insert d D) \<subseteq> defs (rewrite_ops R ops) \<union> insert d K"
        by (rule Cons.IH [OF d(2) renamed_kept [OF ren d(1) r] s R2]) (use fresh K r in auto)
      then show ?thesis
        using that(2) Some o tree inpK d(1) K by auto
    qed
    show ?thesis
    proof (cases "\<exists>s. op = KConstStr d s")
      case False
      then have nc: "op \<noteq> KConstStr i s" for i s using Some by (cases op) auto
      have "R d = repl d" using R [of d] Some dn find_duplicates_skip [OF nc] by (simp add: find_duplicates_outside)
      then have r: "replaced R d = d" using fresh [of d] Some by (simp add: replaced_def)
      show ?thesis
        by (rule keep [OF r _ seen_ok_kept [OF seen d(1)]]) (use R find_duplicates_skip [OF nc] nc in auto)
    next
      case True
      then obtain s where op: "op = KConstStr d s" by blast
      show ?thesis
      proof (cases "seen s")
        case None
        have "R d = repl d" using R [of d] op None dn by (simp add: find_duplicates_outside)
        then have Rd: "R d = None" using fresh [of d] Some by simp
        then have r: "replaced R d = d" by (simp add: replaced_def)
        show ?thesis
          by (rule keep [OF r, of "seen(s \<mapsto> d)"])
            (use Rd op R None seen_ok_new [OF seen d(1) r, of s] in \<open>auto simp: op_tree_const\<close>)
      next
        case (Some e)
        have "R d = Some e" using R [of d] op Some dn by (simp add: find_duplicates_outside)
        then have r: "replaced R d = e" "is_duplicate R op" using op by (simp_all add: replaced_def)
        have e: "e \<in> D" "replaced R e = e" "env' e = Some (op_tree env op)"
          using seen Some op by (simp_all add: seen_ok_def op_tree_const)
        have R2: "R i = find_duplicates seen (repl(d \<mapsto> e)) ops i" if "i \<in> defs ops" for i
          using R [of i] op Some that by simp
        have fresh2: "(repl(d \<mapsto> e)) i = None" if "i \<in> defs ops" for i
          using fresh [of i] dn that by auto
        have ren2: "renamed (replaced R) (insert d D) (env(d \<mapsto> op_tree env op)) env'"
          by (rule renamed_merged [OF ren d(1)]) (use e r in simp_all)
        have "agree (renamed (replaced R) (defs ops \<union> insert d D)) (run_kir (env(d \<mapsto> op_tree env op)) ops)
            (run_kir env' (rewrite_ops R ops)) \<and>
          ssa_ops K (rewrite_ops R ops) \<and> replaced R ` (defs ops \<union> insert d D) \<subseteq> defs (rewrite_ops R ops) \<union> K"
          by (rule Cons.IH [OF d(2) ren2 seen_ok_merged [OF seen] R2 fresh2]) (use e r K in auto)
        with r(2) \<open>output_id op = Some d\<close> show ?thesis by simp
      qed
    qed
  qed
qed


lemma merge_program:
  assumes "ssa_program p"
  shows "ssa_program (eliminate_redundant_strings p)" and "denote (eliminate_redundant_strings p) = denote p"
proof -
  let ?R = "find_duplicates Map.empty Map.empty (kp_ops p)"
  let ?q = "eliminate_redundant_strings p"
  have "agree (renamed (replaced ?R) (defs (kp_ops p) \<union> {})) (run_kir Map.empty (kp_ops p))
      (run_kir Map.empty (rewrite_ops ?R (kp_ops p))) \<and>
    ssa_ops {} (rewrite_ops ?R (kp_ops p)) \<and>
    replaced ?R ` (defs (kp_ops p) \<union> {}) \<subseteq> defs (rewrite_ops ?R (kp_ops p)) \<union> {}"
    by (rule merge_run [where seen = Map.empty and repl = Map.empty])
      (use assms in \<open>auto simp: ssa_program_def renamed_def seen_ok_def\<close>)
  then have m: "agree (renamed (replaced ?R) (defs (kp_ops p))) (run_kir Map.empty (kp_ops p))
      (run_kir Map.empty (kp_ops ?q))" "ssa_ops {} (kp_ops ?q)"
    "replaced ?R ` defs (kp_ops p) \<subseteq> defs (kp_ops ?q)"
    by (simp_all add: eliminate_redundant_strings_def Let_def)
  have out: "kp_output ?q = map_option (replaced ?R) (kp_output p)"
    by (simp add: eliminate_redundant_strings_def Let_def)
  have def: "set_option (kp_output p) \<subseteq> defs (kp_ops p)" using assms by (simp add: ssa_program_def)
  show "ssa_program ?q" using m(2,3) def unfolding ssa_program_def out by (cases "kp_output p") auto
  show "denote ?q = denote p"
    by (rule denote_agree [OF m(1)])
      (use def out in \<open>cases "kp_output p"; auto simp: renamed_def value_of_def\<close>)
qed

text \<open>
  C19. The first optimizer keeps the SSA form and what a program computes: every program in SSA
  form and its optimized form have the same sinks, in the same order, applied to the same
  dataflow trees, and the same tree as their result.
\<close>

theorem optimizer_keeps_dataflow:
  assumes "ssa_program p"
  shows "ssa_program (optimize p) \<and> denote (optimize p) = denote p"
  using merge_program [OF assms] dead_code_program dead_code_denote
  by (simp add: optimize_def propagate_limits_def)

definition sample_program :: kir_program where
  "sample_program =
     lower_ast (\<lambda>_. []) [SFrom (VIdent ''Sites''), SStore (VIdent ''Sites''), SSimilar (VIdent ''x'')]"

theorem optimizer_keeps_dataflow_witness:
  "ssa_program (optimize sample_program) \<and> denote (optimize sample_program) = denote sample_program \<and>
   length (kp_ops (optimize sample_program)) < length (kp_ops sample_program)"
proof -
  have "length (kp_ops (optimize sample_program)) < length (kp_ops sample_program)" by code_simp
  with optimizer_keeps_dataflow [of sample_program] lowered_ssa
  show ?thesis by (simp add: sample_program_def)
qed

end
