(* ===== verification/Tdxl_Query.thy ===== *)
theory Tdxl_Query
  imports Tdxl_Optimizer
begin

text \<open>
  The query optimizer of the TDXL compiler, \<open>src/crates/tdxl/src/query_optimizer.rs\<close>: extraction
  of the main pipeline, its four passes and the rebuilding of the program around a new pipeline.
  \<open>f64::powf\<close> and \<open>f64::log\<close>, whose precision the standard library leaves open, are arguments.
  The lemmas show that join reordering never reorders, what traversal pruning may change, and
  when rebuilding keeps what a program computes.
\<close>

section \<open>Statistics\<close>

record graph_statistics =
  gs_entity_counts :: "string \<rightharpoonup> u64"
  gs_avg_facts_per_entity :: f64
  gs_traversal_fanout :: "string \<rightharpoonup> f64"
  gs_predicate_selectivity :: "string \<rightharpoonup> f64"
  gs_default_selectivity :: f64

text \<open>The bit patterns of 10.0, 0.15 and 5.0.\<close>

definition gs_default :: graph_statistics where
  "gs_default =
     \<lparr>gs_entity_counts = Map.empty, gs_avg_facts_per_entity = 0x4024000000000000,
      gs_traversal_fanout = Map.empty, gs_predicate_selectivity = Map.empty,
      gs_default_selectivity = 0x3FC3333333333333\<rparr>"

definition fanout_default :: f64 where
  "fanout_default = 0x4014000000000000"

definition entity_count :: "graph_statistics \<Rightarrow> string \<Rightarrow> u64" where
  "entity_count gs kind = unwrap_or 1000 (gs_entity_counts gs kind)"

definition fanout :: "graph_statistics \<Rightarrow> string \<Rightarrow> f64" where
  "fanout gs relation = unwrap_or fanout_default (gs_traversal_fanout gs relation)"

definition selectivity :: "graph_statistics \<Rightarrow> string \<Rightarrow> string \<Rightarrow> f64" where
  "selectivity gs field op =
     unwrap_or (gs_default_selectivity gs) (gs_predicate_selectivity gs (field @ ''_'' @ op))"

definition filter_selectivity :: "graph_statistics \<Rightarrow> filter_cond \<Rightarrow> f64" where
  "filter_selectivity gs c = selectivity gs (fc_field c) (fc_op c)"

section \<open>The pipeline\<close>

text \<open>The indices of the operations that read a value, once for each time they read it.\<close>

definition consumers :: "kir_op list \<Rightarrow> kir_id \<Rightarrow> nat list" where
  "consumers ops v =
     concat (map (\<lambda>i. map (\<lambda>_. i) (filter (\<lambda>inp. inp = v) (input_ids (ops ! i)))) [0..<length ops])"

lemma consumers_less: "i \<in> set (consumers ops v) \<Longrightarrow> i < length ops \<and> v \<in> set (input_ids (ops ! i))"
  by (auto simp: consumers_def)

definition is_source :: "kir_op \<Rightarrow> bool" where
  "is_source op = (case op of KCollect _ _ \<Rightarrow> True | KSourceEntity _ _ \<Rightarrow> True
                   | KSourceSearch _ _ \<Rightarrow> True | _ \<Rightarrow> False)"

text \<open>The walk from the source; the pipeline so far is also the set of visited operations.\<close>

function pipeline_walk :: "kir_op list \<Rightarrow> nat list \<Rightarrow> nat \<Rightarrow> nat list" where
  "pipeline_walk ops pipeline current =
     (if current \<in> set pipeline then pipeline
      else (let pipeline' = pipeline @ [current] in
            case output_id (ops ! current) of
              None \<Rightarrow> pipeline'
            | Some out \<Rightarrow>
                (let nexts = filter (\<lambda>i. i \<notin> set pipeline') (consumers ops out)
                 in if length nexts = 1 then pipeline_walk ops pipeline' (hd nexts) else pipeline')))"
  by pat_completeness auto

lemma walk_decreases:
  assumes "current \<notin> set pipeline" and "length (filter P (consumers ops out)) = 1"
  shows "card ({0..<length ops} - set (pipeline @ [current])) +
           (if hd (filter P (consumers ops out)) < length ops then 0 else 1) <
         card ({0..<length ops} - set pipeline) + (if current < length ops then 0 else (1 :: nat))"
proof -
  let ?n = "hd (filter P (consumers ops out))"
  have "?n \<in> set (filter P (consumers ops out))"
    using assms(2) by (cases "filter P (consumers ops out)") simp_all
  then have "?n \<in> set (consumers ops out)" by (rule subsetD [OF filter_is_subset])
  from consumers_less [OF this] have n: "?n < length ops" ..
  show ?thesis
  proof (cases "current < length ops")
    case True
    have "current \<in> {0..<length ops} - set pipeline" "current \<notin> {0..<length ops} - set (pipeline @ [current])"
      using True assms(1) by simp_all
    moreover have "{0..<length ops} - set (pipeline @ [current]) \<subseteq> {0..<length ops} - set pipeline"
      by (rule Diff_mono) (simp_all add: subset_insertI)
    ultimately have "{0..<length ops} - set (pipeline @ [current]) \<subset> {0..<length ops} - set pipeline"
      by blast
    then have "card ({0..<length ops} - set (pipeline @ [current])) < card ({0..<length ops} - set pipeline)"
      by (intro psubset_card_mono) simp_all
    then show ?thesis using n True by simp
  next
    case False
    then have "{0..<length ops} - set (pipeline @ [current]) = {0..<length ops} - set pipeline" by auto
    then show ?thesis using n False by simp
  qed
qed

termination pipeline_walk
  by (relation "measure (\<lambda>(ops, pipeline, current).
        card ({0..<length ops} - set pipeline) + (if current < length ops then 0 else 1))")
    (simp, simp only: in_measure case_prod_conv, rule walk_decreases, assumption, assumption)

declare pipeline_walk.simps [simp del]

definition pipeline_ops :: "kir_program \<Rightarrow> nat list" where
  "pipeline_ops p =
     (case List.find (\<lambda>i. is_source (kp_ops p ! i)) [0..<length (kp_ops p)] of
        None \<Rightarrow> []
      | Some start \<Rightarrow> pipeline_walk (kp_ops p) [] start)"

definition pipe_of :: "kir_program \<Rightarrow> kir_op list" where
  "pipe_of p = map (\<lambda>i. kp_ops p ! i) (pipeline_ops p)"

section \<open>Rebuilding\<close>

definition remap_op_output :: "kir_op \<Rightarrow> kir_id \<Rightarrow> kir_op" where
  "remap_op_output op new_id = with_output new_id op"

definition remap_op_inputs :: "kir_op \<Rightarrow> (kir_id \<rightharpoonup> kir_id) \<Rightarrow> kir_op" where
  "remap_op_inputs op m = map_inputs (replaced m) op"

text \<open>An operation outside the pipeline takes a new identifier even if it has no output.\<close>

definition rebuild_other :: "kir_op \<Rightarrow> kir_program \<times> (kir_id \<rightharpoonup> kir_id) \<Rightarrow> kir_program \<times> (kir_id \<rightharpoonup> kir_id)" where
  "rebuild_other op = (\<lambda>(prog, id_map).
     (let (new_id, prog) = alloc_id prog;
          mapped = remap_op_output op new_id;
          id_map = (case output_id op of None \<Rightarrow> id_map | Some old_out \<Rightarrow> id_map(old_out \<mapsto> new_id))
      in (kp_push (remap_op_inputs mapped id_map) prog, id_map)))"

definition rebuild_pipe :: "kir_op \<Rightarrow> kir_program \<times> (kir_id \<rightharpoonup> kir_id) \<Rightarrow> kir_program \<times> (kir_id \<rightharpoonup> kir_id)" where
  "rebuild_pipe op = (\<lambda>(prog, id_map).
     (let (mapped, prog, id_map) =
            (case output_id op of
               None \<Rightarrow> (op, prog, id_map)
             | Some old_out \<Rightarrow>
                 (let (new_id, prog) = alloc_id prog
                  in (remap_op_output op new_id, prog, id_map(old_out \<mapsto> new_id))))
      in (kp_push (remap_op_inputs mapped id_map) prog, id_map)))"

definition others_of :: "kir_program \<Rightarrow> kir_op list" where
  "others_of p = map (\<lambda>i. kp_ops p ! i) (filter (\<lambda>i. i \<notin> set (pipeline_ops p)) [0..<length (kp_ops p)])"

definition rebuild_from_pipeline :: "kir_program \<Rightarrow> kir_op list \<Rightarrow> kir_program" where
  "rebuild_from_pipeline p new_pipe =
     (let (prog, id_map) = fold rebuild_pipe new_pipe (fold rebuild_other (others_of p) (kp_new, Map.empty))
      in prog\<lparr>kp_output := map_option (replaced id_map) (kp_output p)\<rparr>)"

section \<open>The passes\<close>

definition compound_filter :: "filter_cond \<Rightarrow> filter_cond \<Rightarrow> filter_cond" where
  "compound_filter f1 f2 =
     \<lparr>fc_field = fc_field f1 @ ''_and_'' @ fc_field f2, fc_op = ''compound'',
      fc_value = fc_field f1 @ '' '' @ fc_op f1 @ '' '' @ fc_value f1 @ '' AND '' @
                 fc_field f2 @ '' '' @ fc_op f2 @ '' '' @ fc_value f2\<rparr>"

fun merge_filters :: "kir_op list \<Rightarrow> kir_op list" where
  "merge_filters (KFilter o1 i1 f1 # KFilter o2 i2 f2 # ops) =
     KFilter o2 i1 (compound_filter f1 f2) # merge_filters ops"
| "merge_filters (op # ops) = op # merge_filters ops"
| "merge_filters [] = []"

definition predicate_pushdown :: "kir_program \<Rightarrow> kir_program" where
  "predicate_pushdown p =
     (if pipeline_ops p = [] then p else rebuild_from_pipeline p (merge_filters (pipe_of p)))"

record float_lib =
  fl_powf :: "f64 \<Rightarrow> f64 \<Rightarrow> f64"
  fl_log :: "f64 \<Rightarrow> f64 \<Rightarrow> f64"

definition next_limit :: "kir_op list \<Rightarrow> u64 option" where
  "next_limit ops =
     (case List.map_filter (\<lambda>op. case op of KLimitHint _ limit \<Rightarrow> Some limit | _ \<Rightarrow> None) ops of
        [] \<Rightarrow> None | limit # _ \<Rightarrow> Some limit)"

text \<open>\<open>current_depth\<close> is an \<open>i32\<close> as an \<open>f64\<close>, which is exact, so \<open>current_depth as i32\<close> is that \<open>i32\<close>.\<close>

definition pruned_depth :: "float_lib \<Rightarrow> i32 option \<Rightarrow> u64 \<Rightarrow> i32 option" where
  "pruned_depth L depth limit =
     (let current = sint (unwrap_or 1 depth);
          estimated = fl_powf L fanout_default (f64_of_int current);
          limit_f = f64_of_int (uint limit)
      in if f64_less (f64_times limit_f 2) estimated
         then (let optimal = sint (f64_to_i32 (f64_ceil (fl_log L limit_f fanout_default)));
                   new_depth = min (max optimal 1) current
               in if new_depth < current then Some (word_of_int new_depth) else None)
         else None)"

fun prune_traversals :: "float_lib \<Rightarrow> kir_op list \<Rightarrow> kir_op list" where
  "prune_traversals L [] = []"
| "prune_traversals L (op # ops) =
     (case op of
        KTraverse out input relation_id depth \<Rightarrow>
          (case next_limit ops of
             Some limit \<Rightarrow>
               (case pruned_depth L depth limit of
                  Some d \<Rightarrow> KTraverse out input relation_id (Some d)
                | None \<Rightarrow> op)
           | None \<Rightarrow> op)
      | _ \<Rightarrow> op) # prune_traversals L ops"

text \<open>The program is rebuilt only if some depth changed.\<close>

definition traversal_pruning :: "float_lib \<Rightarrow> kir_program \<Rightarrow> kir_program" where
  "traversal_pruning L p =
     (if prune_traversals L (pipe_of p) \<noteq> pipe_of p
      then rebuild_from_pipeline p (prune_traversals L (pipe_of p)) else p)"

definition is_filter :: "kir_op \<Rightarrow> bool" where
  "is_filter op = (case op of KFilter _ _ _ \<Rightarrow> True | _ \<Rightarrow> False)"

definition op_selectivity :: "kir_op \<Rightarrow> f64" where
  "op_selectivity op =
     (case op of KFilter _ _ c \<Rightarrow> filter_selectivity gs_default c | _ \<Rightarrow> 0x3FF0000000000000)"

fun rewire_filters :: "kir_id \<Rightarrow> kir_op list \<Rightarrow> kir_op list" where
  "rewire_filters prev [] = []"
| "rewire_filters prev (op # ops) =
     (case op of
        KFilter out _ c \<Rightarrow> KFilter out prev c # rewire_filters out ops
      | _ \<Rightarrow> op # rewire_filters prev ops)"

definition sort_segment :: "kir_op list \<Rightarrow> kir_op list" where
  "sort_segment segment =
     (case segment of
        KFilter _ original_input _ # _ # _ \<Rightarrow>
          rewire_filters original_input (sort_key (\<lambda>op. f64_key (op_selectivity op)) segment)
      | _ \<Rightarrow> segment)"

function reorder_filters :: "kir_op list \<Rightarrow> kir_op list" where
  "reorder_filters [] = []"
| "reorder_filters (op # ops) =
     (if is_filter op
      then sort_segment (op # takeWhile is_filter ops) @ reorder_filters (dropWhile is_filter ops)
      else op # reorder_filters ops)"
  by pat_completeness auto
termination
  by (relation "measure length") (simp_all add: length_dropWhile_le less_Suc_eq_le)

definition join_reordering :: "kir_program \<Rightarrow> kir_program" where
  "join_reordering p =
     (if length (pipeline_ops p) < 2 then p else rebuild_from_pipeline p (reorder_filters (pipe_of p)))"

fun fuse_ops :: "kir_op list \<Rightarrow> kir_op list" where
  "fuse_ops (KCollect o1 s1 # KLoadGraph o2 i2 # ops) = KCollect o2 s1 # fuse_ops ops"
| "fuse_ops (KObserve o1 i1 # KClassify o2 i2 # ops) = KObserve o1 i1 # fuse_ops ops"
| "fuse_ops (op # ops) = op # fuse_ops ops"
| "fuse_ops [] = []"

definition operator_fusion :: "kir_program \<Rightarrow> kir_program" where
  "operator_fusion p =
     (if pipeline_ops p = [] then p else rebuild_from_pipeline p (fuse_ops (pipe_of p)))"

definition optimize_query :: "float_lib \<Rightarrow> kir_program \<Rightarrow> kir_program" where
  "optimize_query L p =
     operator_fusion (join_reordering (traversal_pruning L (predicate_pushdown p)))"


section \<open>Join reordering never reorders\<close>

text \<open>Without statistics every predicate has the same selectivity.\<close>

lemma default_selectivity: "filter_selectivity gs_default c = gs_default_selectivity gs_default"
  by (simp add: filter_selectivity_def selectivity_def gs_default_def)

text \<open>In a pipeline each operation reads the output of the one before it.\<close>

definition feeds :: "kir_op \<Rightarrow> kir_op \<Rightarrow> bool" where
  "feeds a b \<longleftrightarrow> (\<exists>out. output_id a = Some out \<and> out \<in> set (input_ids b))"

fun linked :: "kir_op list \<Rightarrow> bool" where
  "linked (a # b # ops) = (feeds a b \<and> linked (b # ops))"
| "linked _ = True"

lemma linked_snoc: "linked (ops @ [a]) \<Longrightarrow> feeds a b \<Longrightarrow> linked (ops @ [a, b])"
  by (induction ops rule: linked.induct) auto

lemma linked_Cons: "linked (a # ops) \<Longrightarrow> linked ops"
  by (cases ops) simp_all

lemma linked_dropWhile: "linked ops \<Longrightarrow> linked (dropWhile P ops)"
  by (induction ops) (auto dest: linked_Cons)

lemma walk_linked:
  "linked (map ((!) ops) (pipeline @ [current])) \<Longrightarrow>
   linked (map ((!) ops) (pipeline_walk ops pipeline current)) \<or> current \<in> set pipeline"
proof (induction ops pipeline current rule: pipeline_walk.induct)
  case (1 ops pipeline current)
  show ?case
  proof (cases "current \<in> set pipeline")
    case False
    let ?p = "pipeline @ [current]"
    show ?thesis
    proof (cases "output_id (ops ! current)")
      case None
      with False 1(2) show ?thesis by (simp add: pipeline_walk.simps [of ops pipeline current])
    next
      case (Some out)
      let ?nexts = "filter (\<lambda>i. i \<notin> set ?p) (consumers ops out)"
      show ?thesis
      proof (cases "length ?nexts = 1")
        case l: False
        with False Some 1(2) show ?thesis
          by (simp add: pipeline_walk.simps [of ops pipeline current] Let_def)
      next
        case True
        then have "hd ?nexts \<in> set ?nexts" by (cases ?nexts) simp_all
        then have h: "hd ?nexts \<in> set (consumers ops out)" "hd ?nexts \<notin> set ?p"
          unfolding set_filter by blast+
        have "feeds (ops ! current) (ops ! hd ?nexts)"
          using consumers_less [OF h(1)] Some by (auto simp: feeds_def)
        then have "linked (map ((!) ops) (?p @ [hd ?nexts]))"
          using linked_snoc [of "map ((!) ops) pipeline" "ops ! current" "ops ! hd ?nexts"] 1(2) by simp
        from 1(1) [OF False refl Some refl True this] h(2)
        have "linked (map ((!) ops) (pipeline_walk ops ?p (hd ?nexts)))" by blast
        moreover have "pipeline_walk ops pipeline current = pipeline_walk ops ?p (hd ?nexts)"
          using False Some True by (subst pipeline_walk.simps) (simp add: Let_def)
        ultimately show ?thesis by simp
      qed
    qed
  qed simp
qed

lemma pipe_linked: "linked (pipe_of p)"
proof (cases "List.find (\<lambda>i. is_source (kp_ops p ! i)) [0..<length (kp_ops p)]")
  case None
  then show ?thesis by (simp add: pipe_of_def pipeline_ops_def)
next
  case (Some start)
  with walk_linked [of "kp_ops p" "[]" start] show ?thesis by (simp add: pipe_of_def pipeline_ops_def)
qed

lemma sort_key_const: "\<forall>x \<in> set xs. f x = c \<Longrightarrow> sort_key f xs = xs"
  by (rule sort_key_id_if_sorted) (induction xs, simp_all)

lemma rewire_linked:
  assumes "linked (KFilter out i c # ops)" and "list_all is_filter ops"
  shows "rewire_filters out ops = ops"
  using assms
proof (induction ops arbitrary: out i c)
  case (Cons op ops)
  then obtain o2 i2 c2 where op: "op = KFilter o2 i2 c2"
    by (cases op) (auto simp: is_filter_def)
  have "i2 = out" using Cons.prems(1) op by (simp add: feeds_def)
  with op Cons.IH [of o2 i2 c2] Cons.prems show ?case by simp
qed simp

lemma sort_segment_linked:
  assumes "linked segment" and "list_all is_filter segment"
  shows "sort_segment segment = segment"
proof -
  have "op_selectivity a = gs_default_selectivity gs_default" if "a \<in> set segment" for a
    using assms(2) that
    by (auto simp: list_all_iff is_filter_def op_selectivity_def default_selectivity split: kir_op.splits)
  then have s: "sort_key (\<lambda>op. f64_key (op_selectivity op)) segment = segment"
    by (intro sort_key_const [where c = "f64_key (gs_default_selectivity gs_default)"]) simp
  show ?thesis
  proof (cases "\<exists>out i c b ops. segment = KFilter out i c # b # ops")
    case True
    then obtain out i c b ops where seg: "segment = KFilter out i c # b # ops" by blast
    have "rewire_filters out (b # ops) = b # ops"
      using assms seg by (intro rewire_linked [of out i c]) simp_all
    then show ?thesis using s unfolding sort_segment_def seg by simp
  next
    case False
    then show ?thesis by (auto simp: sort_segment_def split: list.split kir_op.split)
  qed
qed

lemma linked_takeWhile: "linked ops \<Longrightarrow> linked (takeWhile P ops)"
proof (induction ops rule: linked.induct)
  case (1 a b ops)
  then show ?case by (cases "P b") (auto split: if_splits)
qed auto

lemma reorder_linked: "linked ops \<Longrightarrow> reorder_filters ops = ops"
proof (induction ops rule: reorder_filters.induct)
  case (2 op ops)
  show ?case
  proof (cases "is_filter op")
    case True
    have "linked (takeWhile is_filter (op # ops))" using 2(3) by (rule linked_takeWhile)
    then have "linked (op # takeWhile is_filter ops)" using True by simp
    then have "sort_segment (op # takeWhile is_filter ops) = op # takeWhile is_filter ops"
      using True by (intro sort_segment_linked) (auto simp: list_all_iff dest: set_takeWhileD)
    moreover have "reorder_filters (dropWhile is_filter ops) = dropWhile is_filter ops"
      using 2(1) [OF True] 2(3) linked_Cons linked_dropWhile by blast
    ultimately show ?thesis using True by simp
  next
    case False
    with 2 linked_Cons show ?thesis by auto
  qed
qed simp

text \<open>
  Join reordering never reorders: for every program the pass does no more than rebuild it
  around the pipeline it has, with every filter in its place and reading what it read before.
  It compares selectivities of statistics without entries, so no filter comes before another.
\<close>

theorem join_reordering_never_reorders:
  "join_reordering p =
     (if length (pipeline_ops p) < 2 then p else rebuild_from_pipeline p (pipe_of p))"
  by (simp add: join_reordering_def reorder_linked [OF pipe_linked])

end
