(* ===== verification/Tdxl_Rebuild.thy ===== *)
theory Tdxl_Rebuild
  imports Tdxl_Query "HOL-Library.Multiset"
begin

text \<open>
  When \<open>rebuild_from_pipeline\<close> in \<open>src/crates/tdxl/src/query_optimizer.rs\<close> keeps what a program
  computes. Rebuilding moves the pipeline behind everything else and renames every value. If
  the program is still in SSA form after the move and all its sinks are in the pipeline, then
  the rebuilt program computes the same trees.
\<close>

section \<open>Values of an SSA program do not depend on the order of its operations\<close>

lemma run_outside: "d \<notin> defs ops \<Longrightarrow> fst (run_kir env ops) d = env d"
  by (induction ops arbitrary: env) (auto simp: split_beta split: option.splits)

definition sinks_of :: "kir_op list \<Rightarrow> kir_op list" where
  "sinks_of ops = filter (\<lambda>op. output_id op = None) ops"

text \<open>Each value is the tree of its operation over the final environment, and so is each sink.\<close>

lemma run_static:
  assumes "ssa_ops D ops" and "F = fst (run_kir env ops)"
  shows "(\<forall>op d. op \<in> set ops \<longrightarrow> output_id op = Some d \<longrightarrow> F d = Some (op_tree F op)) \<and>
         snd (run_kir env ops) = map (op_tree F) (sinks_of ops)"
  using assms
proof (induction ops arbitrary: D env)
  case Nil
  then show ?case by (simp add: sinks_of_def)
next
  case (Cons op ops)
  have tree: "op_tree F op = op_tree env op"
  proof (rule op_tree_cong)
    fix i
    assume i: "i \<in> set (input_ids op)"
    then have "i \<in> D" using Cons.prems(1) by auto
    moreover have "defs (op # ops) \<inter> D = {}" using ssa_defs_disjoint [OF Cons.prems(1)] .
    ultimately have "i \<notin> defs (op # ops)" by blast
    then show "F i = env i" unfolding Cons.prems(2) by (rule run_outside)
  qed
  show ?case
  proof (cases "output_id op")
    case None
    then have "F = fst (run_kir env ops)" using Cons.prems(2) by (simp add: split_beta)
    from Cons.IH [OF _ this, of D] Cons.prems(1) None tree
    show ?thesis by (auto simp: split_beta sinks_of_def)
  next
    case (Some d)
    then have F: "F = fst (run_kir (env(d \<mapsto> op_tree env op)) ops)" and s: "ssa_ops (insert d D) ops"
      using Cons.prems by simp_all
    have "d \<notin> defs ops" using ssa_defs_disjoint [OF s] by blast
    then have "F d = Some (op_tree env op)" using run_outside F by simp
    moreover note ih = Cons.IH [OF s F]
    ultimately have "\<forall>o' i. o' \<in> set (op # ops) \<longrightarrow> output_id o' = Some i \<longrightarrow> F i = Some (op_tree F o')"
      using Some tree by (metis option.inject set_ConsD)
    then show ?thesis using conjunct2 [OF ih] Some by (simp only: run_kir_out) (simp add: sinks_of_def)
  qed
qed

lemma ssa_set_eq:
  assumes "ssa_ops D xs" and "\<And>op d. op \<in> set xs \<Longrightarrow> output_id op = Some d \<Longrightarrow> F d = Some (op_tree F op)"
    and "\<And>op d. op \<in> set xs \<Longrightarrow> output_id op = Some d \<Longrightarrow> G d = Some (op_tree G op)"
    and "\<And>d. d \<in> D \<Longrightarrow> F d = G d"
  shows "\<forall>d \<in> defs xs. F d = G d"
  using assms
proof (induction xs arbitrary: D)
  case (Cons op ops)
  have tree: "op_tree F op = op_tree G op"
    using Cons.prems(1,4) by (intro op_tree_cong) auto
  show ?case
  proof (cases "output_id op")
    case None
    with Cons.IH [of D] Cons.prems show ?thesis by simp
  next
    case (Some d)
    have "F d = G d" using Cons.prems(2,3) [of op d] Some tree by simp
    moreover have "\<forall>d \<in> defs ops. F d = G d"
      by (rule Cons.IH [of "insert d D"]) (use Cons.prems Some \<open>F d = G d\<close> in auto)
    ultimately show ?thesis using Some by simp
  qed
qed simp

lemma defs_set: "defs ops = {d. \<exists>op \<in> set ops. output_id op = Some d}"
  by (induction ops) auto

lemma op_tree_on:
  assumes "\<And>d. d \<in> D \<Longrightarrow> F d = G d" and "set (input_ids op) \<subseteq> D"
  shows "op_tree F op = op_tree G op"
  using assms by (intro op_tree_cong) auto

lemma ssa_inputs: "ssa_ops D ops \<Longrightarrow> op \<in> set ops \<Longrightarrow> set (input_ids op) \<subseteq> defs ops \<union> D"
  by (induction ops arbitrary: D) fastforce+

text \<open>Two orders of the same operations, both in SSA form, with the same order of sinks.\<close>

lemma run_permuted:
  assumes "ssa_ops {} xs" and "ssa_ops {} ys" and "set xs = set ys" and "sinks_of xs = sinks_of ys"
  shows "(\<forall>d \<in> defs xs. fst (run_kir Map.empty xs) d = fst (run_kir Map.empty ys) d) \<and>
         snd (run_kir Map.empty xs) = snd (run_kir Map.empty ys)"
proof -
  let ?F = "fst (run_kir Map.empty xs)" and ?G = "fst (run_kir Map.empty ys)"
  note F = run_static [OF assms(1), of ?F Map.empty, OF refl]
    and G = run_static [OF assms(2), of ?G Map.empty, OF refl]
  have e: "\<forall>d \<in> defs xs. ?F d = ?G d"
    by (rule ssa_set_eq [OF assms(1)]) (use F G assms(3) in auto)
  moreover have "op_tree ?F op = op_tree ?G op" if "op \<in> set (sinks_of xs)" for op
    by (rule op_tree_on [of "defs xs"])
      (use e ssa_inputs [OF assms(1), of op] that in \<open>auto simp: sinks_of_def\<close>)
  ultimately show ?thesis using F G assms(4) by simp
qed

section \<open>Renaming\<close>

definition rename_op :: "(kir_id \<rightharpoonup> kir_id) \<Rightarrow> kir_op \<Rightarrow> kir_op" where
  "rename_op m op =
     map_inputs (replaced m) (case output_id op of None \<Rightarrow> op | Some d \<Rightarrow> with_output (replaced m d) op)"

lemma rename_op_simps [simp]:
  "input_ids (rename_op m op) = map (replaced m) (input_ids op)"
  "output_id (rename_op m op) = map_option (replaced m) (output_id op)"
  "shape (rename_op m op) = shape op"
  by (auto simp: rename_op_def split: option.split)

lemma defs_rename: "defs (map (rename_op m) ops) = replaced m ` defs ops"
  by (induction ops) (auto split: option.splits)

lemma map_inputs_cong:
  "(\<And>i. i \<in> set (input_ids op) \<Longrightarrow> f i = g i) \<Longrightarrow> map_inputs f op = map_inputs g op"
  by (cases op) simp_all

text \<open>An injective renaming keeps the form, the sinks and every value.\<close>

lemma run_renamed:
  assumes "ssa_ops D ops" and "inj_on r (defs ops \<union> D)" and "r = replaced m"
    and "\<And>d. d \<in> D \<Longrightarrow> env' (r d) = env d"
  shows "ssa_ops (r ` D) (map (rename_op m) ops) \<and>
         snd (run_kir env' (map (rename_op m) ops)) = snd (run_kir env ops) \<and>
         (\<forall>d \<in> defs ops \<union> D. fst (run_kir env' (map (rename_op m) ops)) (r d) = fst (run_kir env ops) d)"
  using assms
proof (induction ops arbitrary: D env env')
  case (Cons op ops)
  note r = Cons.prems(3)
  have inp: "set (input_ids op) \<subseteq> D" using Cons.prems(1) by simp
  then have tree: "op_tree env' (rename_op m op) = op_tree env op"
    using Cons.prems(4) r by (auto simp: op_tree_def value_of_def)
  show ?case
  proof (cases "output_id op")
    case None
    with Cons.IH [of D env' env] Cons.prems inp r tree show ?thesis by (auto simp: split_beta)
  next
    case (Some d)
    then have d: "d \<notin> D" "ssa_ops (insert d D) ops" using Cons.prems(1) by simp_all
    have inj: "inj_on r (defs ops \<union> insert d D)"
      by (rule inj_on_subset [OF Cons.prems(2)]) (use Some in auto)
    then have rd: "r d \<notin> r ` D" using d(1) by (auto simp: inj_on_def)
    have "(env'(r d \<mapsto> op_tree env op)) (r i) = (env(d \<mapsto> op_tree env op)) i" if "i \<in> insert d D" for i
    proof (cases "i = d")
      case False
      then have "i \<in> D" using that by simp
      then have "r i \<noteq> r d" using rd by (metis imageI)
      then show ?thesis using False Cons.prems(4) [OF \<open>i \<in> D\<close>] by simp
    qed simp
    from Cons.IH [where env = "env(d \<mapsto> op_tree env op)" and env' = "env'(r d \<mapsto> op_tree env op)", OF d(2) inj r this]
      Some inp r tree rd show ?thesis by (simp del: fun_upd_apply) (simp add: image_mono)
  qed
qed simp


section \<open>The rebuilding loops\<close>

lemma rebuild_other_pipe: "output_id op = Some d \<Longrightarrow> rebuild_other op = rebuild_pipe op"
  by (rule ext) (simp add: rebuild_other_def rebuild_pipe_def Let_def split_beta)

lemma fold_rebuild_other:
  "list_all (\<lambda>op. output_id op \<noteq> None) ops \<Longrightarrow> fold rebuild_other ops s = fold rebuild_pipe ops s"
proof (induction ops arbitrary: s)
  case (Cons op ops)
  then obtain d where "output_id op = Some d" by auto
  from rebuild_other_pipe [OF this] Cons show ?case by simp
qed simp

text \<open>The state of the loops after the values \<open>D\<close> are renamed.\<close>

definition renaming :: "kir_id set \<Rightarrow> kir_program \<times> (kir_id \<rightharpoonup> kir_id) \<Rightarrow> bool" where
  "renaming D s \<longleftrightarrow>
     dom (snd s) = D \<and> inj_on (snd s) D \<and> (\<forall>n \<in> ran (snd s). n < kp_next_id (fst s))"

lemma renaming_inj:
  assumes "renaming D s"
  shows "inj_on (replaced (snd s)) D"
proof (rule inj_onI)
  fix x y
  assume "x \<in> D" "y \<in> D" and e: "replaced (snd s) x = replaced (snd s) y"
  then obtain a b where "snd s x = Some a" "snd s y = Some b"
    using assms by (force simp: renaming_def)
  then have "snd s x = snd s y" using e by (simp add: replaced_def)
  with \<open>x \<in> D\<close> \<open>y \<in> D\<close> assms show "x = y" by (auto simp: renaming_def dest: inj_onD)
qed

lemma rebuild_pipe_sink:
  "output_id op = None \<Longrightarrow>
   rebuild_pipe op (prog, m) = (kp_push (rename_op m op) prog, m)"
  by (simp add: rebuild_pipe_def rename_op_def remap_op_inputs_def)

lemma rebuild_pipe_value:
  assumes "output_id op = Some d"
  shows "rebuild_pipe op (prog, m) =
     (let (n, p) = alloc_id prog; m' = m(d \<mapsto> n) in (kp_push (rename_op m' op) p, m'))"
  using assms
  by (simp add: rebuild_pipe_def rename_op_def remap_op_inputs_def remap_op_output_def alloc_id_def
      Let_def replaced_def)

lemma rename_op_extend:
  assumes "set (input_ids op) \<subseteq> dom m" and "set_option (output_id op) \<subseteq> dom m" and "m \<subseteq>\<^sub>m m'"
  shows "rename_op m' op = rename_op m op"
proof -
  have e: "replaced m' i = replaced m i" if "i \<in> dom m" for i
    using assms(3) that by (simp add: map_le_def replaced_def)
  have "map_inputs (replaced m') x = map_inputs (replaced m) x" if "set (input_ids x) \<subseteq> dom m" for x
    by (rule map_inputs_cong, rule e, erule subsetD [OF that])
  then show ?thesis
    using assms(1,2) e by (auto simp: rename_op_def split: option.split)
qed

lemma rebuild_fold:
  assumes "ssa_ops D ops" and "renaming D (prog, m)"
  shows "\<exists>prog' m'. fold rebuild_pipe ops (prog, m) = (prog', m') \<and>
           renaming (defs ops \<union> D) (prog', m') \<and> m \<subseteq>\<^sub>m m' \<and>
           kp_ops prog' = kp_ops prog @ map (rename_op m') ops"
  using assms
proof (induction ops arbitrary: D prog m)
  case (Cons op ops)
  have inp: "set (input_ids op) \<subseteq> dom m" using Cons.prems by (simp add: renaming_def)
  show ?case
  proof (cases "output_id op")
    case None
    let ?p = "kp_push (rename_op m op) prog"
    have "renaming D (?p, m)" using Cons.prems(2) by (simp add: renaming_def kp_push_def)
    from Cons.IH [OF _ this] Cons.prems(1) None obtain prog' m'
      where ih: "fold rebuild_pipe ops (?p, m) = (prog', m')" "renaming (defs ops \<union> D) (prog', m')"
        "m \<subseteq>\<^sub>m m'" "kp_ops prog' = kp_ops ?p @ map (rename_op m') ops" by auto
    have "rename_op m' op = rename_op m op" by (rule rename_op_extend) (use inp None ih(3) in auto)
    with ih None show ?thesis by (auto simp: rebuild_pipe_sink kp_push_def)
  next
    case (Some d)
    let ?n = "kp_next_id prog" and ?p0 = "prog\<lparr>kp_next_id := Suc (kp_next_id prog)\<rparr>"
    let ?m = "m(d \<mapsto> ?n)"
    let ?p = "kp_push (rename_op ?m op) ?p0"
    have d: "d \<notin> D" "ssa_ops (insert d D) ops" using Cons.prems(1) Some by simp_all
    have fresh: "m d = None" using d(1) Cons.prems(2) by (auto simp: renaming_def)
    have "?n \<notin> ran m" using Cons.prems(2) by (auto simp: renaming_def)
    then have "inj_on ?m (insert d D)"
      using Cons.prems(2) d(1) by (auto simp: renaming_def inj_on_def ran_def)
    then have "renaming (insert d D) (?p, ?m)"
      using Cons.prems(2) fresh
      by (auto simp: renaming_def kp_push_def ran_map_upd less_Suc_eq)
    from Cons.IH [OF d(2) this] obtain prog' m'
      where ih: "fold rebuild_pipe ops (?p, ?m) = (prog', m')" "renaming (defs ops \<union> insert d D) (prog', m')"
        "?m \<subseteq>\<^sub>m m'" "kp_ops prog' = kp_ops ?p @ map (rename_op m') ops" by blast
    have "rename_op m' op = rename_op ?m op" by (rule rename_op_extend) (use inp Some ih(3) in auto)
    moreover have "m \<subseteq>\<^sub>m m'"
      using ih(3) fresh by (auto simp: map_le_def) (metis domI option.distinct(1))
    ultimately show ?thesis
      using ih Some by (auto simp: rebuild_pipe_value alloc_id_def Let_def kp_push_def)
  qed
qed (simp add: map_le_def)

section \<open>The pipeline is a part of the program\<close>

lemma walk_distinct: "distinct pipeline \<Longrightarrow> distinct (pipeline_walk ops pipeline current)"
proof (induction ops pipeline current rule: pipeline_walk.induct)
  case (1 ops pipeline current)
  show ?case
  proof (cases "current \<in> set pipeline")
    case False
    with 1 show ?thesis
      by (subst pipeline_walk.simps) (auto simp: Let_def split: option.split)
  qed (use 1 in \<open>simp add: pipeline_walk.simps [of ops pipeline current]\<close>)
qed

lemma walk_range:
  "set pipeline \<subseteq> {0..<length ops} \<Longrightarrow> current < length ops \<Longrightarrow>
   set (pipeline_walk ops pipeline current) \<subseteq> {0..<length ops}"
proof (induction ops pipeline current rule: pipeline_walk.induct)
  case (1 ops pipeline current)
  have hd_less: "hd xs < length ops" if "xs = filter P (consumers ops out)" "length xs = 1" for xs P out
  proof -
    have "hd xs \<in> set xs" using that(2) by (cases xs) simp_all
    then have "hd xs \<in> set (consumers ops out)" unfolding that(1) by (rule subsetD [OF filter_is_subset])
    then show ?thesis using consumers_less by blast
  qed
  show ?case
  proof (cases "current \<in> set pipeline")
    case False
    then show ?thesis
      using 1(1) [OF False refl _ refl _ _ hd_less [OF refl]] 1(2,3)
      by (subst pipeline_walk.simps) (auto simp: Let_def split: option.split)
  qed (use 1(2) in \<open>simp add: pipeline_walk.simps [of ops pipeline current]\<close>)
qed


lemma pipeline_range: "distinct (pipeline_ops p)" "set (pipeline_ops p) \<subseteq> {0..<length (kp_ops p)}"
proof -
  have "distinct (pipeline_ops p) \<and> set (pipeline_ops p) \<subseteq> {0..<length (kp_ops p)}"
  proof (cases "List.find (\<lambda>i. is_source (kp_ops p ! i)) [0..<length (kp_ops p)]")
    case None
    then show ?thesis by (simp add: pipeline_ops_def)
  next
    case (Some start)
    then have "start < length (kp_ops p)" by (auto simp: find_Some_iff)
    with Some walk_distinct [of "[]"] walk_range [of "[]" "kp_ops p" start] show ?thesis
      by (simp add: pipeline_ops_def)
  qed
  then show "distinct (pipeline_ops p)" "set (pipeline_ops p) \<subseteq> {0..<length (kp_ops p)}" by simp_all
qed

lemma mset_parts: "mset (kp_ops p) = mset (others_of p @ pipe_of p)"
proof -
  let ?n = "[0..<length (kp_ops p)]"
  have pl: "mset (filter (\<lambda>i. i \<in> set (pipeline_ops p)) ?n) = mset (pipeline_ops p)"
    using pipeline_range [of p] by (intro set_eq_iff_mset_eq_distinct [THEN iffD1]) auto
  have "mset ?n = mset (filter (\<lambda>i. i \<notin> set (pipeline_ops p)) ?n) + mset (pipeline_ops p)"
    using multiset_partition [of "mset ?n" "\<lambda>i. i \<in> set (pipeline_ops p)"] pl
    by (simp add: mset_filter add.commute)
  then have "image_mset ((!) (kp_ops p)) (mset ?n) = mset (others_of p @ pipe_of p)"
    by (simp add: others_of_def pipe_of_def)
  moreover have "image_mset ((!) (kp_ops p)) (mset ?n) = mset (kp_ops p)"
    by (simp only: mset_map [symmetric] map_nth)
  ultimately show ?thesis by simp
qed

lemma linked_sinks: "linked ops \<Longrightarrow> length (sinks_of ops) \<le> 1"
  by (induction ops rule: linked.induct) (auto simp: sinks_of_def feeds_def)

text \<open>The pipeline can go to the end: the program stays in SSA form and no sink is left behind.\<close>

definition linear_program :: "kir_program \<Rightarrow> bool" where
  "linear_program p \<longleftrightarrow>
     ssa_program p \<and> ssa_ops {} (others_of p @ pipe_of p) \<and>
     list_all (\<lambda>op. output_id op \<noteq> None) (others_of p)"

lemma linear_sinks:
  assumes "linear_program p"
  shows "sinks_of (kp_ops p) = sinks_of (others_of p @ pipe_of p)"
proof -
  have "sinks_of (others_of p) = []"
    using assms by (auto simp: linear_program_def sinks_of_def list_all_iff filter_empty_conv)
  then have s: "sinks_of (others_of p @ pipe_of p) = sinks_of (pipe_of p)" by (simp add: sinks_of_def)
  have "mset (sinks_of (kp_ops p)) = mset (sinks_of (others_of p @ pipe_of p))"
    unfolding sinks_of_def mset_filter mset_parts [of p] ..
  then have m: "mset (sinks_of (kp_ops p)) = mset (sinks_of (pipe_of p))" using s by simp
  show ?thesis
  proof (cases "sinks_of (pipe_of p)")
    case Nil
    then show ?thesis using m s by simp
  next
    case (Cons x xs)
    with linked_sinks [OF pipe_linked, of p] have "sinks_of (pipe_of p) = [x]" by simp
    with m s show ?thesis by simp
  qed
qed

lemma rebuild_denote:
  assumes "linear_program p"
  shows "denote (rebuild_from_pipeline p (pipe_of p)) = denote p"
    and "ssa_program (rebuild_from_pipeline p (pipe_of p))"
proof -
  let ?xs = "others_of p @ pipe_of p" and ?q = "rebuild_from_pipeline p (pipe_of p)"
  have ssa: "ssa_ops {} ?xs" "ssa_ops {} (kp_ops p)" and out: "set_option (kp_output p) \<subseteq> defs (kp_ops p)"
    using assms by (simp_all add: linear_program_def ssa_program_def)
  have "renaming {} (kp_new, Map.empty)" by (simp add: renaming_def)
  from rebuild_fold [OF ssa(1) this] obtain prog m
    where f: "fold rebuild_pipe ?xs (kp_new, Map.empty) = (prog, m)" "renaming (defs ?xs) (prog, m)"
      "kp_ops prog = map (rename_op m) ?xs"
    by (auto simp: kp_new_def)
  have q: "kp_ops ?q = map (rename_op m) ?xs" "kp_output ?q = map_option (replaced m) (kp_output p)"
    using f(1,3) assms by (simp_all add: rebuild_from_pipeline_def linear_program_def fold_rebuild_other)
  have inj: "inj_on (replaced m) (defs ?xs)"
    using renaming_inj [OF f(2)] by simp
  have set: "set ?xs = set (kp_ops p)" using mset_parts [of p] by (metis set_mset_mset)
  then have defs: "defs ?xs = defs (kp_ops p)" by (simp only: defs_set)
  note r = run_renamed [OF ssa(1) _ refl, of m Map.empty Map.empty]
  have ren: "ssa_ops {} (kp_ops ?q)" "snd (run_kir Map.empty (kp_ops ?q)) = snd (run_kir Map.empty ?xs)"
    "\<forall>d \<in> defs ?xs. fst (run_kir Map.empty (kp_ops ?q)) (replaced m d) = fst (run_kir Map.empty ?xs) d"
    using r inj q(1) by simp_all
  note perm = run_permuted [OF ssa set [symmetric, THEN sym] linear_sinks [OF assms, symmetric]]
  show "denote ?q = denote p"
    using ren perm q(2) out defs
    by (cases "kp_output p") (auto simp: denote_def split_beta value_of_def)
  have "set_option (kp_output ?q) \<subseteq> defs (kp_ops ?q)"
    using out q unfolding q(1) defs_rename defs by (cases "kp_output p") auto
  with ren(1) show "ssa_program ?q" by (simp add: ssa_program_def)
qed

text \<open>
  C21. Join reordering keeps the SSA form and what a program computes, for every linear program:
  one that is in SSA form, stays in it when its pipeline is moved behind the rest, and has no
  sink outside its pipeline.
\<close>

theorem join_reordering_keeps_dataflow:
  assumes "linear_program p"
  shows "ssa_program (join_reordering p) \<and> denote (join_reordering p) = denote p"
  using rebuild_denote [OF assms] assms
  by (simp add: join_reordering_def reorder_linked [OF pipe_linked] linear_program_def)

definition linear_sample :: kir_program where
  "linear_sample =
     lower_ast (\<lambda>_. []) [SFrom (VIdent ''Sites''), SWhere (BField ''a'' BEq (VInteger 1)),
       SWhere (BField ''b'' BEq (VInteger 2)), SInfer (VIdent ''rule'')]"

theorem join_reordering_keeps_dataflow_witness:
  "ssa_program (join_reordering linear_sample) \<and>
   denote (join_reordering linear_sample) = denote linear_sample \<and> join_reordering linear_sample \<noteq> linear_sample"
proof -
  have "linear_program linear_sample \<and> join_reordering linear_sample \<noteq> linear_sample" by code_simp
  with join_reordering_keeps_dataflow show ?thesis by blast
qed

end
