(* ===== verification/Tdxl_Codegen.thy ===== *)
theory Tdxl_Codegen
  imports Tdxl_Kir Vm_Instruction
begin

text \<open>
  The code generator of the TDXL compiler: \<open>RegAlloc\<close>, \<open>CodegenEngine\<close> and \<open>codegen_kir\<close> in
  \<open>src/crates/tdxl/src/compiler.rs\<close>, from KIR to a VM program. \<open>serde_json\<close>'s text of an object
  and its string value are arguments. The lemmas show which registers and constants the
  generated instructions use and how they end.
\<close>

section \<open>Registers\<close>

definition ACC :: u8 where "ACC = 0"
definition TMP1 :: u8 where "TMP1 = 1"
definition TMP2 :: u8 where "TMP2 = 2"
definition TMP3 :: u8 where "TMP3 = 3"
definition NUM :: u8 where "NUM = 4"
definition DEPTH :: u8 where "DEPTH = 5"

lemmas register_defs = ACC_def TMP1_def TMP2_def TMP3_def NUM_def DEPTH_def

record reg_alloc =
  ra_map :: "kir_id \<rightharpoonup> u8"
  ra_next_tmp :: u8
  ra_materialized :: "kir_id set"

definition ra_new :: reg_alloc where
  "ra_new = \<lparr>ra_map = Map.empty, ra_next_tmp = TMP1, ra_materialized = {}\<rparr>"

definition ra_alloc :: "kir_id \<Rightarrow> reg_alloc \<Rightarrow> u8 \<times> reg_alloc" where
  "ra_alloc i ra =
     (case ra_map ra i of
        Some reg \<Rightarrow> (reg, ra)
      | None \<Rightarrow>
          (let reg = ra_next_tmp ra
           in (reg, ra\<lparr>ra_map := (ra_map ra)(i \<mapsto> reg),
                       ra_next_tmp := (if reg = TMP1 then TMP2 else if reg = TMP2 then TMP3 else TMP1)\<rparr>)))"

definition mark_materialized :: "kir_id \<Rightarrow> reg_alloc \<Rightarrow> reg_alloc" where
  "mark_materialized i ra = ra\<lparr>ra_materialized := insert i (ra_materialized ra)\<rparr>"

definition is_materialized :: "kir_id \<Rightarrow> reg_alloc \<Rightarrow> bool" where
  "is_materialized i ra \<longleftrightarrow> i \<in> ra_materialized ra"

section \<open>The engine\<close>

record codegen =
  cg_consts :: "string list"
  cg_instrs :: "instruction list"
  cg_regs :: reg_alloc
  cg_pipeline :: "kir_id option"

definition cg_new :: codegen where
  "cg_new = \<lparr>cg_consts = [], cg_instrs = [], cg_regs = ra_new, cg_pipeline = None\<rparr>"

definition cg_alloc :: "kir_id \<Rightarrow> codegen \<Rightarrow> u8 \<times> codegen" where
  "cg_alloc i g = (let (reg, ra) = ra_alloc i (cg_regs g) in (reg, g\<lparr>cg_regs := ra\<rparr>))"

text \<open>\<open>idx as u16\<close> wraps.\<close>

definition add_string :: "string \<Rightarrow> codegen \<Rightarrow> u16 \<times> codegen" where
  "add_string s g =
     (case List.find (\<lambda>i. cg_consts g ! i = s) [0..<length (cg_consts g)] of
        Some idx \<Rightarrow> (of_nat idx, g)
      | None \<Rightarrow> (of_nat (length (cg_consts g)), g\<lparr>cg_consts := cg_consts g @ [s]\<rparr>))"

definition cg_emit :: "instruction \<Rightarrow> codegen \<Rightarrow> codegen" where
  "cg_emit i g = g\<lparr>cg_instrs := cg_instrs g @ [i]\<rparr>"

definition emit_load_str :: "kir_id \<Rightarrow> string \<Rightarrow> codegen \<Rightarrow> u8 \<times> codegen" where
  "emit_load_str i s g =
     (if is_materialized i (cg_regs g) then cg_alloc i g
      else (let (reg, g1) = cg_alloc i g; (idx, g2) = add_string s g1;
                g3 = cg_emit (ins_load_str reg idx) g2
            in (reg, g3\<lparr>cg_regs := mark_materialized i (cg_regs g3)\<rparr>)))"

definition is_pipeline :: "kir_id \<Rightarrow> codegen \<Rightarrow> bool" where
  "is_pipeline i g \<longleftrightarrow> cg_pipeline g = Some i"

definition set_pipeline :: "kir_id \<Rightarrow> codegen \<Rightarrow> codegen" where
  "set_pipeline i g = g\<lparr>cg_pipeline := Some i\<rparr>"

definition emit_mov_to_acc :: "kir_id \<Rightarrow> codegen \<Rightarrow> codegen" where
  "emit_mov_to_acc i g =
     (let (reg, g1) = cg_alloc i g in if reg \<noteq> ACC then cg_emit (ins_mov ACC reg) g1 else g1)"

text \<open>\<open>if !self.is_pipeline(input) { self.emit_mov_to_acc(input) }\<close>.\<close>

definition load_acc :: "kir_id \<Rightarrow> codegen \<Rightarrow> codegen" where
  "load_acc i g = (if \<not> is_pipeline i g then emit_mov_to_acc i g else g)"

fun emit_op :: "json_object \<Rightarrow> kir_op \<Rightarrow> codegen \<Rightarrow> codegen" where
  "emit_op J (KCollect out source_id) g =
     (let (source_reg, g) = cg_alloc source_id g
      in set_pipeline out (cg_emit (ins_load_entity ACC source_reg) g))"
| "emit_op J (KSourceEntity out kind_id) g =
     (let (kind_reg, g) = cg_alloc kind_id g
      in set_pipeline out (cg_emit (ins_load_entity ACC kind_reg) g))"
| "emit_op J (KSourceSearch out query_id) g =
     (let (query_reg, g) = cg_alloc query_id g
      in set_pipeline out (cg_emit (ins_search ACC query_reg) g))"
| "emit_op J (KObserve out input) g =
     set_pipeline out (cg_emit (ins_classify ACC ACC) (load_acc input g))"
| "emit_op J (KClassify out input) g =
     set_pipeline out (cg_emit (ins_classify ACC ACC) (load_acc input g))"
| "emit_op J (KLoadGraph out input) g =
     set_pipeline out (cg_emit (ins_load_graph ACC ACC) (load_acc input g))"
| "emit_op J (KResolve out input strategy_id) g =
     (let (strategy_reg, g) = cg_alloc strategy_id (load_acc input g)
      in set_pipeline out (cg_emit (ins_search ACC strategy_reg) (cg_emit (ins_load_graph TMP1 ACC) g)))"
| "emit_op J (KFilter out input c) g =
     (let g = cg_emit (ins_load_graph TMP1 ACC) (load_acc input g);
          (_, g) = emit_load_str out
            (J [(''field'', fc_field c), (''op'', fc_op c), (''value'', fc_value c)]) g;
          (filter_reg, g) = cg_alloc out g
      in set_pipeline out (cg_emit (ins_search ACC filter_reg) g))"
| "emit_op J (KTraverse out input relation_id depth) g =
     (let (rel_reg, g) = cg_alloc relation_id (load_acc input g);
          g = cg_emit (ins_traverse ACC rel_reg) g;
          g = (case depth of Some d \<Rightarrow> cg_emit (ins_load_imm DEPTH d) g | None \<Rightarrow> g)
      in set_pipeline out g)"
| "emit_op J (KInfer out input rule_id) g =
     (let (rule_reg, g) = cg_alloc rule_id (load_acc input g)
      in set_pipeline out (cg_emit (ins_infer ACC ACC rule_reg) g))"
| "emit_op J (KCorrelate out input target_id) g =
     (let (tgt_reg, g) = cg_alloc target_id (load_acc input g);
          (target_idx, g) = add_string ''_target'' g
      in set_pipeline out
           (cg_emit (ins_correlate ACC TMP3)
             (cg_emit (ins_load_entity TMP3 tgt_reg)
               (cg_emit (ins_load_str TMP2 target_idx) g))))"
| "emit_op J (KSimilar out target_id threshold) g =
     (let (tgt_reg, g) = cg_alloc target_id g
      in set_pipeline out
           (cg_emit (ins_similar ACC tgt_reg NUM)
             (cg_emit (ins_load_imm NUM (f64_to_i32 (f64_times threshold 10))) g)))"
| "emit_op J (KTimeline out query_id) g =
     (let (query_reg, g) = cg_alloc query_id g
      in set_pipeline out (cg_emit (ins_timeline ACC query_reg) g))"
| "emit_op J (KStore value_id name_id) g =
     (let (_, g) = cg_alloc name_id (load_acc value_id g) in cg_emit (ins_store_val ACC) g)"
| "emit_op J (KExport value_id format_id) g =
     (let (fmt_reg, g) = cg_alloc format_id (load_acc value_id g)
      in set_pipeline value_id (cg_emit (ins_snapshot ACC fmt_reg) g))"
| "emit_op J (KSnapshot out value_id kind) g =
     set_pipeline out (cg_emit (ins_snapshot ACC kind) (load_acc value_id g))"
| "emit_op J (KReturn value_id) g = set_pipeline value_id g"
| "emit_op J (KSortHint _ _ _) g = g"
| "emit_op J (KLimitHint _ _) g = g"
| "emit_op J (KConstStr _ _) g = g"
| "emit_op J (KConstInt _ _) g = g"
| "emit_op J (KConstFloat _ _) g = g"

text \<open>The two loops of \<open>emit_all\<close>: first every string constant, then every operation.\<close>

definition materialize :: "kir_op \<Rightarrow> codegen \<Rightarrow> codegen" where
  "materialize op g = (case op of KConstStr out value \<Rightarrow> snd (emit_load_str out value g) | _ \<Rightarrow> g)"

definition emit_all :: "json_object \<Rightarrow> kir_program \<Rightarrow> codegen \<Rightarrow> codegen" where
  "emit_all J program g = fold (emit_op J) (kp_ops program) (fold materialize (kp_ops program) g)"

definition cg_finish :: "(string \<Rightarrow> 'j) \<Rightarrow> codegen \<Rightarrow> 'j program" where
  "cg_finish json_string g =
     (let g = cg_emit ins_halt g;
          program = fold (\<lambda>s p. snd (add_constant (json_string s) p)) (cg_consts g) (pg_new ''tdxl_program'')
      in program\<lparr>pg_instructions := cg_instrs g\<rparr>)"

definition codegen_kir :: "json_object \<Rightarrow> (string \<Rightarrow> 'j) \<Rightarrow> kir_program \<Rightarrow> 'j program" where
  "codegen_kir J json_string program = cg_finish json_string (emit_all J program cg_new)"

section \<open>What the engine emits\<close>

lemma cg_finish_constants: "pg_constants (cg_finish json_string g) = map json_string (cg_consts g)"
proof -
  have "pg_constants (fold (\<lambda>s p. snd (add_constant (json_string s) p)) xs p) =
        pg_constants p @ map json_string xs" for xs and p :: "'a program"
    by (induction xs arbitrary: p) (simp_all add: add_constant_def)
  then show ?thesis by (simp add: cg_finish_def cg_emit_def Let_def pg_new_def)
qed

lemma cg_finish_instructions: "pg_instructions (cg_finish json_string g) = cg_instrs g @ [ins_halt]"
  by (simp add: cg_finish_def cg_emit_def Let_def)

text \<open>
  A step of the engine is well behaved: from a state whose registers are the temporaries and
  whose instructions satisfy \<open>P\<close> for the number of constants there are, it goes to such a
  state, and it never forgets a constant.
\<close>

definition tmp_reg :: "u8 \<Rightarrow> bool" where
  "tmp_reg r \<longleftrightarrow> r \<in> {TMP1, TMP2, TMP3}"

text \<open>The operands of an instruction: registers below 6, constants below \<open>n\<close>. The second operand of
  a snapshot is its kind and no register.\<close>

definition operands_ok :: "nat \<Rightarrow> instruction \<Rightarrow> bool" where
  "operands_ok n i \<longleftrightarrow>
     in_reg_a i \<le> DEPTH \<and> (in_opcode i \<noteq> OpSnapshot \<longrightarrow> in_reg_b i \<le> DEPTH) \<and> in_extra i \<le> DEPTH \<and>
     (in_opcode i = OpLoadStr \<longrightarrow> unat (in_imm i) < min n 65536) \<and>
     in_opcode i \<in> {OpLoadImm, OpLoadStr, OpMov, OpLoadEntity, OpLoadGraph, OpTraverse, OpInfer,
       OpSimilar, OpClassify, OpCorrelate, OpTimeline, OpSearch, OpStore, OpSnapshot}"

definition good_code :: "codegen \<Rightarrow> bool" where
  "good_code g \<longleftrightarrow>
     list_all (operands_ok (length (cg_consts g))) (cg_instrs g) \<and>
     Ball (ran (ra_map (cg_regs g))) tmp_reg \<and> tmp_reg (ra_next_tmp (cg_regs g)) \<and>
     distinct (cg_consts g)"

definition grows :: "codegen \<Rightarrow> codegen \<Rightarrow> bool" where
  "grows g g' \<longleftrightarrow> (good_code g \<longrightarrow> good_code g')"

lemma good_new: "good_code cg_new"
  by (simp add: good_code_def cg_new_def ra_new_def tmp_reg_def)

lemma next_tmp_ok: "tmp_reg (if r = TMP1 then TMP2 else if r = TMP2 then TMP3 else TMP1)"
  by (simp add: tmp_reg_def)

lemma good_alloc:
  assumes "good_code g" and "cg_alloc i g = (r, g')"
  shows "good_code g' \<and> tmp_reg r \<and> cg_consts g' = cg_consts g"
proof (cases "ra_map (cg_regs g) i")
  case None
  with assms show ?thesis
    by (auto simp: good_code_def cg_alloc_def ra_alloc_def Let_def ran_map_upd next_tmp_ok)
next
  case (Some reg)
  then have "tmp_reg reg" using assms(1) by (auto simp: good_code_def dest: ranI)
  with Some assms show ?thesis by (simp add: cg_alloc_def ra_alloc_def)
qed

lemma operands_mono: "operands_ok m i \<Longrightarrow> m \<le> n \<Longrightarrow> operands_ok n i"
  by (auto simp: operands_ok_def)

lemma good_emit: "good_code g \<Longrightarrow> operands_ok (length (cg_consts g)) i \<Longrightarrow> good_code (cg_emit i g)"
  by (simp add: good_code_def cg_emit_def)

lemma good_pipeline: "good_code g \<Longrightarrow> good_code (set_pipeline i g)"
  by (simp add: good_code_def set_pipeline_def)

lemma consts_simps [simp]:
  "cg_consts (cg_emit i g) = cg_consts g" "cg_consts (set_pipeline d g) = cg_consts g"
  by (simp_all add: cg_emit_def set_pipeline_def)

lemma find_index_Some:
  "List.find (\<lambda>i. xs ! i = s) [0..<length xs] = Some k \<Longrightarrow> k < length xs \<and> xs ! k = s"
  by (auto simp: find_Some_iff)

lemma find_index_None: "List.find (\<lambda>i. xs ! i = s) [0..<length xs] = None \<Longrightarrow> s \<notin> set xs"
  by (auto simp: find_None_iff in_set_conv_nth)

text \<open>The string is at the index that is returned, as far as the index fits in 16 bits.\<close>

lemma good_add_string:
  assumes "good_code g" and "add_string s g = (idx, g')"
  shows "good_code g' \<and> (\<exists>k < length (cg_consts g'). idx = of_nat k \<and> cg_consts g' ! k = s)"
proof (cases "List.find (\<lambda>i. cg_consts g ! i = s) [0..<length (cg_consts g)]")
  case None
  with assms have g': "g' = g\<lparr>cg_consts := cg_consts g @ [s]\<rparr>" "idx = of_nat (length (cg_consts g))"
    by (simp_all add: add_string_def)
  have "list_all (operands_ok (length (cg_consts g) + 1)) (cg_instrs g)"
    using assms(1) operands_mono by (auto simp: good_code_def list_all_iff)
  then show ?thesis using g' assms(1) find_index_None [OF None] by (auto simp: good_code_def)
next
  case (Some k)
  with assms find_index_Some [OF Some] show ?thesis by (auto simp: add_string_def)
qed

lemmas ins_defs = ins_load_str_def ins_mov_def ins_load_entity_def ins_search_def ins_classify_def
  ins_load_graph_def ins_traverse_def ins_load_imm_def ins_infer_def ins_correlate_def
  ins_similar_def ins_timeline_def ins_store_val_def ins_snapshot_def instr_new_def with_reg_a_def
  with_reg_b_def with_extra_def with_imm_def

lemma load_str_operands:
  assumes "k < n" and "r \<le> DEPTH"
  shows "operands_ok n (ins_load_str r (of_nat k))"
proof -
  have "unat (ucast (of_nat k :: u16) :: i32) = k mod 65536"
    using unsigned_less [of "of_nat k :: u16"]
    by (simp add: unsigned_ucast_eq unat_of_nat take_bit_nat_eq_self)
  moreover have "k mod 65536 < min n 65536" using assms(1) by (simp add: le_less_trans [OF mod_less_eq_dividend])
  ultimately show ?thesis using assms(2) by (simp add: operands_ok_def ins_defs)
qed

lemma tmp_reg_le: "tmp_reg r \<Longrightarrow> r \<le> DEPTH"
  by (auto simp: tmp_reg_def register_defs)

lemma fixed_reg_le: "ACC \<le> DEPTH" "TMP1 \<le> DEPTH" "TMP2 \<le> DEPTH" "TMP3 \<le> DEPTH" "NUM \<le> DEPTH"
  by (simp_all add: register_defs)

lemma other_operands:
  assumes "r \<le> DEPTH"
  shows "operands_ok n (ins_mov ACC r)" "operands_ok n (ins_load_entity ACC r)"
    "operands_ok n (ins_search ACC r)" "operands_ok n (ins_classify ACC ACC)"
    "operands_ok n (ins_load_graph ACC ACC)" "operands_ok n (ins_load_graph TMP1 ACC)"
    "operands_ok n (ins_traverse ACC r)" "operands_ok n (ins_load_imm DEPTH v)"
    "operands_ok n (ins_load_imm NUM v)" "operands_ok n (ins_infer ACC ACC r)"
    "operands_ok n (ins_correlate ACC TMP3)" "operands_ok n (ins_load_entity TMP3 r)"
    "operands_ok n (ins_similar ACC r NUM)" "operands_ok n (ins_timeline ACC r)"
    "operands_ok n (ins_store_val ACC)" "operands_ok n (ins_snapshot ACC kind)"
  using assms fixed_reg_le by (simp_all add: operands_ok_def ins_defs)

lemma good_load_acc:
  assumes "good_code g"
  shows "good_code (load_acc i g)"
proof -
  obtain r g1 where a: "cg_alloc i g = (r, g1)" by (cases "cg_alloc i g")
  from good_alloc [OF assms a] assms show ?thesis
    by (auto simp: load_acc_def emit_mov_to_acc_def a intro!: good_emit other_operands tmp_reg_le)
qed

lemma good_load_str:
  assumes "good_code g" and "emit_load_str i s g = (r, g')"
  shows "good_code g'"
proof (cases "is_materialized i (cg_regs g)")
  case True
  then show ?thesis using assms good_alloc by (simp add: emit_load_str_def)
next
  case False
  obtain r1 g1 where a: "cg_alloc i g = (r1, g1)" by (cases "cg_alloc i g")
  obtain idx g2 where b: "add_string s g1 = (idx, g2)" by (cases "add_string s g1")
  note ga = good_alloc [OF assms(1) a]
  obtain k where k: "good_code g2" "k < length (cg_consts g2)" "idx = of_nat k"
    using good_add_string [OF _ b] ga by blast
  have "good_code (cg_emit (ins_load_str r1 idx) g2)"
    using k ga by (auto intro!: good_emit load_str_operands tmp_reg_le)
  then have "good_code ((cg_emit (ins_load_str r1 idx) g2)
      \<lparr>cg_regs := mark_materialized i (cg_regs (cg_emit (ins_load_str r1 idx) g2))\<rparr>)"
    by (simp add: good_code_def mark_materialized_def)
  then show ?thesis using assms(2) False a b by (auto simp: emit_load_str_def Let_def)
qed


text \<open>An operation that reads one register: allocate it, then emit with it.\<close>

lemma good_emit_alloc:
  assumes "good_code g" and "cg_alloc i g = (r, g')" and "\<And>n r. r \<le> DEPTH \<Longrightarrow> operands_ok n (f r)"
  shows "good_code (cg_emit (f r) g')"
  using good_alloc [OF assms(1,2)] assms(3) by (auto intro!: good_emit tmp_reg_le)

lemma good_emit_op:
  assumes "good_code g"
  shows "good_code (emit_op J op g)"
proof -
  note la = good_load_acc [OF assms]
  note o = other_operands [of ACC, OF fixed_reg_le(1)]
  have alloc: "good_code g1 \<and> r \<le> DEPTH" if "cg_alloc i h = (r, g1)" "good_code h" for i h r g1
    using good_alloc [OF that(2,1)] by (auto intro: tmp_reg_le)
  show ?thesis
  proof (cases op)
    case (KFilter out input c)
    obtain r1 g1 where a: "emit_load_str out
        (J [(''field'', fc_field c), (''op'', fc_op c), (''value'', fc_value c)])
        (cg_emit (ins_load_graph TMP1 ACC) (load_acc input g)) = (r1, g1)"
      by (meson surj_pair)
    obtain r2 g2 where b: "cg_alloc out g1 = (r2, g2)" by (cases "cg_alloc out g1")
    have "good_code g1" by (rule good_load_str [OF good_emit [OF la o(6)] a])
    with alloc [OF b] KFilter a b show ?thesis
      by (auto intro!: good_pipeline good_emit other_operands)
  next
    case (KCorrelate out input target_id)
    obtain r1 g1 where a: "cg_alloc target_id (load_acc input g) = (r1, g1)"
      by (cases "cg_alloc target_id (load_acc input g)")
    obtain idx g2 where b: "add_string ''_target'' g1 = (idx, g2)" by (cases "add_string ''_target'' g1")
    obtain k where k: "good_code g2" "k < length (cg_consts g2)" "idx = of_nat k"
      using good_add_string [OF _ b] alloc [OF a la] by blast
    then show ?thesis
      using KCorrelate a b alloc [OF a la] fixed_reg_le
      by (auto intro!: good_pipeline good_emit other_operands load_str_operands)
  next
    case (KTraverse out input relation_id depth)
    obtain r1 g1 where a: "cg_alloc relation_id (load_acc input g) = (r1, g1)"
      by (cases "cg_alloc relation_id (load_acc input g)")
    then show ?thesis
      using KTraverse alloc [OF a la] o
      by (auto simp: Let_def intro!: good_pipeline good_emit other_operands split: option.split)
  next
    case (KResolve out input strategy_id)
    obtain r1 g1 where a: "cg_alloc strategy_id (load_acc input g) = (r1, g1)"
      by (cases "cg_alloc strategy_id (load_acc input g)")
    then show ?thesis
      using KResolve alloc [OF a la] o by (auto intro!: good_pipeline good_emit other_operands)
  next
    case (KSimilar out target_id threshold)
    obtain r1 g1 where a: "cg_alloc target_id g = (r1, g1)" by (cases "cg_alloc target_id g")
    then show ?thesis
      using KSimilar alloc [OF a assms] o by (auto intro!: good_pipeline good_emit other_operands)
  next
    case (KStore value_id name_id)
    obtain r1 g1 where a: "cg_alloc name_id (load_acc value_id g) = (r1, g1)"
      by (cases "cg_alloc name_id (load_acc value_id g)")
    then show ?thesis using KStore alloc [OF a la] o by (auto intro!: good_emit)
  next
    case (KExport value_id format_id)
    obtain r1 g1 where a: "cg_alloc format_id (load_acc value_id g) = (r1, g1)"
      by (cases "cg_alloc format_id (load_acc value_id g)")
    then show ?thesis using KExport alloc [OF a la] o by (auto intro!: good_pipeline good_emit)
  next
    case (KInfer out input rule_id)
    obtain r1 g1 where a: "cg_alloc rule_id (load_acc input g) = (r1, g1)"
      by (cases "cg_alloc rule_id (load_acc input g)")
    then show ?thesis using KInfer alloc [OF a la] by (auto intro!: good_pipeline good_emit other_operands)
  qed (use assms la o in \<open>auto split: prod.split dest!: alloc intro!: good_pipeline good_emit other_operands\<close>)
qed

lemma good_materialize: "good_code g \<Longrightarrow> good_code (materialize op g)"
  using good_load_str [of g] by (auto simp: materialize_def split: kir_op.split) (metis prod.collapse)

lemma good_fold: "(\<And>x g. good_code g \<Longrightarrow> good_code (f x g)) \<Longrightarrow> good_code g \<Longrightarrow> good_code (fold f xs g)"
  by (induction xs arbitrary: g) simp_all

text \<open>
  C20. The code generated for a KIR program is well formed, whatever the program: it ends with
  its only \<open>Halt\<close>, every other instruction is one of the fourteen data instructions and has
  registers from R0 to R5, every string it loads is one of the constants of the program, and
  no constant is there twice.
\<close>

theorem generated_code_well_formed:
  "\<exists>body. pg_instructions (codegen_kir J json_string p) = body @ [ins_halt] \<and>
          list_all (operands_ok (length (pg_constants (codegen_kir J json_string p)))) body \<and>
          (\<exists>strings. distinct strings \<and> pg_constants (codegen_kir J json_string p) = map json_string strings)"
proof -
  let ?g = "emit_all J p cg_new"
  have "good_code ?g"
    unfolding emit_all_def
    by (intro good_fold good_emit_op good_materialize good_new)
  then show ?thesis
    unfolding codegen_kir_def cg_finish_constants cg_finish_instructions
    by (auto simp: good_code_def)
qed

end
