(* ===== verification/Tdxl_Compile.thy ===== *)
theory Tdxl_Compile
  imports Tdxl_Rebuild Tdxl_Codegen
begin

text \<open>
  The TDXL compiler as a whole, \<open>compile\<close> in \<open>src/crates/tdxl/src/compiler.rs\<close>: lexer, parser,
  lowering, both optimizers and code generation. The lemmas state what its result looks like,
  what traversal pruning may change, and two behaviours of the composition that no single pass
  shows: a \<open>STORE\<close> that is compiled in front of the \<open>FROM\<close> it follows, and a register that is
  overwritten before it is read.
\<close>

definition compile_ir :: "json_object \<Rightarrow> float_lib \<Rightarrow> stmt list \<Rightarrow> kir_program" where
  "compile_ir J L stmts = optimize_query L (optimize (lower_ast J stmts))"

definition compile ::
  "json_object \<Rightarrow> (string \<Rightarrow> 'j) \<Rightarrow> float_lib \<Rightarrow> string \<Rightarrow> (tx_fault, 'j program) result" where
  "compile J json_string L source =
     rbind (parse_source source) (\<lambda>stmts. Inr (codegen_kir J json_string (compile_ir J L stmts)))"

section \<open>Traversal pruning\<close>

text \<open>What pruning may do to an operation: lower the depth of a traversal, not below one.\<close>

definition pruned_from :: "kir_op \<Rightarrow> kir_op \<Rightarrow> bool" where
  "pruned_from op op' \<longleftrightarrow>
     op' = op \<or>
     (\<exists>out i r depth d. op = KTraverse out i r depth \<and> op' = KTraverse out i r (Some d) \<and>
        1 \<le> sint d \<and> sint d < sint (unwrap_or 1 depth))"

lemma pruned_depth_bounds:
  assumes "pruned_depth L depth limit = Some d"
  shows "1 \<le> sint d \<and> sint d < sint (unwrap_or 1 depth)"
proof -
  let ?c = "sint (unwrap_or (1 :: i32) depth)"
  obtain k where k: "min (max k 1) ?c < ?c" "d = word_of_int (min (max k 1) ?c)"
    using assms by (auto simp: pruned_depth_def Let_def split: if_splits)
  have "?c < 2 ^ 31" using sint_less [of "unwrap_or (1 :: i32) depth"] by simp
  with k have n: "min (max k 1) ?c = max k 1" "1 \<le> max k 1" "max k 1 < 2 ^ 31" "max k 1 < ?c" by auto
  have "sint d = signed_take_bit 31 (max k 1)"
    unfolding k(2) n(1) by (simp add: sint_sbintrunc')
  also have "\<dots> = max k 1" by (rule signed_take_bit_int_eq_self) (use n in simp_all)
  finally show ?thesis using n by simp
qed

text \<open>
  Traversal pruning only ever lowers the depth of a traversal, and never below one: each
  operation of the pruned pipeline is the one it had, or the same traversal with a smaller
  depth of at least one, whatever \<open>powf\<close> and \<open>log\<close> return.
\<close>

theorem pruning_bounds: "list_all2 pruned_from ops (prune_traversals L ops)"
proof (induction ops)
  case (Cons op ops)
  have "pruned_from op (hd (prune_traversals L (op # ops)))"
    by (auto simp: pruned_from_def split: kir_op.split option.split dest!: pruned_depth_bounds)
  with Cons show ?case by simp
qed simp

section \<open>A store in front of its source\<close>

text \<open>The stages of \<open>FROM "a"\<close> and \<open>STORE "b"\<close> on two lines.\<close>

definition from_store :: "string \<Rightarrow> string \<Rightarrow> stmt list" where
  "from_store a b = [SFrom (VString a), SStore (VString b)]"

lemmas lowering_defs = lower_ast_def lower_source_def lower_match_def lower_string_def
  lower_raw_string_def lower_input_def lower_op_def alloc_id_def kp_push_def kp_new_def

lemma from_store_lowered:
  "lower_ast J (from_store a b) =
     \<lparr>kp_ops = [KConstStr 0 a, KCollect 1 0, KConstStr 2 b, KStore 1 2, KReturn 1],
      kp_output = Some 1, kp_next_id = 3\<rparr>"
  by (simp add: from_store_def lowering_defs)

lemma from_store_optimized:
  assumes "a \<noteq> b"
  shows "optimize (lower_ast J (from_store a b)) =
     \<lparr>kp_ops = [KConstStr 0 a, KCollect 1 0, KConstStr 2 b, KStore 1 2, KReturn 1],
      kp_output = Some 1, kp_next_id = 0\<rparr>"
  using assms
  by (simp add: from_store_lowered optimize_def propagate_limits_def eliminate_redundant_strings_def
      eliminate_dead_code_def used_values_def is_live_def kp_new_def rewrite_inputs_def replaced_def)

lemmas pipeline_defs = pipe_of_def others_of_def pipeline_ops_def consumers_def is_source_def upt_rec
  pipeline_walk.simps rebuild_from_pipeline_def rebuild_other_def rebuild_pipe_def alloc_id_def
  kp_push_def kp_new_def remap_op_inputs_def remap_op_output_def replaced_def

lemma from_store_query:
  "optimize_query L
     \<lparr>kp_ops = [KConstStr 0 a, KCollect 1 0, KConstStr 2 b, KStore 1 2, KReturn 1],
      kp_output = Some 1, kp_next_id = 0\<rparr> =
   \<lparr>kp_ops = [KConstStr 0 a, KConstStr 1 b, KStore 1 1, KReturn 1, KCollect 4 0],
      kp_output = Some 4, kp_next_id = 5\<rparr>"
  by (simp add: optimize_query_def predicate_pushdown_def traversal_pruning_def join_reordering_def
      operator_fusion_def pipeline_defs Let_def)


lemmas codegen_defs = codegen_kir_def emit_all_def materialize_def emit_load_str_def is_materialized_def
  cg_alloc_def ra_alloc_def add_string_def cg_emit_def mark_materialized_def load_acc_def is_pipeline_def
  emit_mov_to_acc_def set_pipeline_def cg_new_def ra_new_def

lemma from_store_ir:
  assumes "a \<noteq> b"
  shows "compile_ir J L (from_store a b) =
   \<lparr>kp_ops = [KConstStr 0 a, KConstStr 1 b, KStore 1 1, KReturn 1, KCollect 4 0],
      kp_output = Some 4, kp_next_id = 5\<rparr>"
  unfolding compile_ir_def from_store_optimized [OF assms] by (rule from_store_query)

lemma from_store_code:
  assumes "a \<noteq> b"
  shows "pg_instructions (codegen_kir J json_string (compile_ir J L (from_store a b))) =
     [ins_load_str TMP1 0, ins_load_str TMP2 1, ins_mov ACC TMP2, ins_store_val ACC,
      ins_load_entity ACC TMP1, ins_halt] \<and>
   pg_constants (codegen_kir J json_string (compile_ir J L (from_store a b))) = [json_string a, json_string b]"
  using assms
  by (simp add: from_store_ir codegen_kir_def cg_finish_instructions
      cg_finish_constants codegen_defs upt_rec register_defs)

text \<open>
  A source that loads from one name and stores under another is compiled with the store in
  front of the load: for all different texts \<open>a\<close> and \<open>b\<close>, the code of \<open>FROM "a"\<close> and
  \<open>STORE AS "b"\<close> moves the string \<open>b\<close> to R0, stores that, and only then loads the entity, which
  nothing stores.
\<close>

theorem store_compiled_before_its_source:
  assumes "a \<noteq> b"
  shows "\<exists>pr. compile J json_string L (program_text [SFrom (VString a), SStore (VString b)]) = Inr pr \<and>
     pg_constants pr = [json_string a, json_string b] \<and>
     pg_instructions pr =
       [ins_load_str TMP1 0, ins_load_str TMP2 1, ins_mov ACC TMP2, ins_store_val ACC,
        ins_load_entity ACC TMP1, ins_halt]"
proof -
  have "printable_program (from_store a b)"
    by (simp add: printable_program_def program_tokens_def from_store_def)
  from printed_program_parses [OF this] from_store_code [OF assms, of J json_string L] show ?thesis
    unfolding compile_def by (simp add: from_store_def)
qed


theorem store_compiled_before_its_source_witness:
  "\<exists>pr. compile (\<lambda>_. []) (\<lambda>s. s) \<lparr>fl_powf = \<lambda>x y. x, fl_log = \<lambda>x y. x\<rparr>
       (program_text [SFrom (VString ''Sites''), SStore (VString ''result'')]) = Inr pr \<and>
     pg_constants pr = [''Sites'', ''result''] \<and>
     pg_instructions pr =
       [ins_load_str TMP1 0, ins_load_str TMP2 1, ins_mov ACC TMP2, ins_store_val ACC,
        ins_load_entity ACC TMP1, ins_halt]"
  using store_compiled_before_its_source [of "''Sites''" "''result''" "\<lambda>_. []" "\<lambda>s. s"] by simp

section \<open>A register overwritten before it is read\<close>

definition four_names :: "string \<Rightarrow> string \<Rightarrow> string \<Rightarrow> string \<Rightarrow> stmt list" where
  "four_names a b c d =
     [SFrom (VString a), STraverse (VString b) None, SInfer (VString c), SCorrelate (VString d)]"

lemma four_names_optimized:
  assumes "distinct [a, b, c, d]"
  shows "optimize (lower_ast J (four_names a b c d)) =
     \<lparr>kp_ops = [KConstStr 0 a, KCollect 1 0, KConstStr 2 b, KTraverse 3 1 2 None, KConstStr 4 c,
        KInfer 5 3 4, KConstStr 6 d, KCorrelate 7 5 6, KReturn 7],
      kp_output = Some 7, kp_next_id = 0\<rparr>"
  using assms
  by (simp add: four_names_def lowering_defs optimize_def propagate_limits_def
      eliminate_redundant_strings_def eliminate_dead_code_def used_values_def is_live_def
      rewrite_inputs_def replaced_def numeral_eq_Suc) blast


lemma four_names_query:
  "optimize_query L
     \<lparr>kp_ops = [KConstStr 0 a, KCollect 1 0, KConstStr 2 b, KTraverse 3 1 2 None, KConstStr 4 c,
        KInfer 5 3 4, KConstStr 6 d, KCorrelate 7 5 6, KReturn 7],
      kp_output = Some 7, kp_next_id = 0\<rparr> =
   \<lparr>kp_ops = [KConstStr 0 a, KConstStr 1 b, KConstStr 2 c, KConstStr 3 d, KCollect 4 0,
        KTraverse 5 4 1 None, KInfer 6 5 2, KCorrelate 7 6 3, KReturn 7],
      kp_output = Some 7, kp_next_id = 8\<rparr>"
  by (simp add: optimize_query_def predicate_pushdown_def traversal_pruning_def join_reordering_def
      operator_fusion_def pipeline_defs next_limit_def is_filter_def List.map_filter_def Let_def
      numeral_eq_Suc)

lemma four_names_code:
  assumes "distinct [a, b, c, d]"
  shows "take 5 (pg_instructions (codegen_kir J json_string (compile_ir J L (four_names a b c d)))) =
     [ins_load_str TMP1 0, ins_load_str TMP2 1, ins_load_str TMP3 2, ins_load_str TMP1 3,
      ins_load_entity ACC TMP1] \<and>
   take 4 (pg_constants (codegen_kir J json_string (compile_ir J L (four_names a b c d)))) =
     map json_string [a, b, c, d]"
proof -
  have ir: "compile_ir J L (four_names a b c d) =
   \<lparr>kp_ops = [KConstStr 0 a, KConstStr 1 b, KConstStr 2 c, KConstStr 3 d, KCollect 4 0,
        KTraverse 5 4 1 None, KInfer 6 5 2, KCorrelate 7 6 3, KReturn 7],
      kp_output = Some 7, kp_next_id = 8\<rparr>"
    unfolding compile_ir_def four_names_optimized [OF assms] by (rule four_names_query)
  show ?thesis
    using assms unfolding ir
    by (simp add: codegen_kir_def cg_finish_instructions cg_finish_constants codegen_defs upt_rec
        register_defs)
qed

text \<open>
  Four different names in a program are one too many for the three registers that hold
  strings: the code of \<open>FROM "a"\<close>, \<open>TRAVERSE "b"\<close>, \<open>INFER "c"\<close>, \<open>CORRELATE WITH "d"\<close> loads \<open>a\<close> and
  then \<open>d\<close> into R1, and then loads the entity that R1 names: the program collects from \<open>d\<close>
  instead of \<open>a\<close>.
\<close>

theorem fourth_name_replaces_the_source:
  assumes "distinct [a, b, c, d]"
  shows "\<exists>pr. compile J json_string L (program_text
       [SFrom (VString a), STraverse (VString b) None, SInfer (VString c), SCorrelate (VString d)]) = Inr pr \<and>
     take 4 (pg_constants pr) = map json_string [a, b, c, d] \<and>
     take 5 (pg_instructions pr) =
       [ins_load_str TMP1 0, ins_load_str TMP2 1, ins_load_str TMP3 2, ins_load_str TMP1 3,
        ins_load_entity ACC TMP1]"
proof -
  have "printable_program (four_names a b c d)"
    by (simp add: printable_program_def program_tokens_def four_names_def)
  from printed_program_parses [OF this] four_names_code [OF assms, of J json_string L] show ?thesis
    unfolding compile_def by (simp add: four_names_def)
qed

theorem fourth_name_replaces_the_source_witness:
  "\<exists>pr. compile (\<lambda>_. []) (\<lambda>s. s) \<lparr>fl_powf = \<lambda>x y. x, fl_log = \<lambda>x y. x\<rparr> (program_text
       [SFrom (VString ''a''), STraverse (VString ''b'') None, SInfer (VString ''c''), SCorrelate (VString ''d'')]) = Inr pr \<and>
     take 4 (pg_constants pr) = [''a'', ''b'', ''c'', ''d''] \<and>
     take 5 (pg_instructions pr) =
       [ins_load_str TMP1 0, ins_load_str TMP2 1, ins_load_str TMP3 2, ins_load_str TMP1 3,
        ins_load_entity ACC TMP1]"
  using fourth_name_replaces_the_source [of "''a''" "''b''" "''c''" "''d''" "\<lambda>_. []" "\<lambda>s. s"] by simp

end
