(* ===== verification/Spec2Isabelle.thy ===== *)
theory Spec2Isabelle
  imports Prelude Event_Store Storage Kernel_Objects Kernel_Messaging Kernel_Memory Kernel_Services Kernel Object_Model Vifs Vifs_Projection
    Collection_Queue Session Drivers Fabric
    Floats Float_Arith Gpu Memory_Model Vm_Instruction Vm
    Task_Scheduler Working_Memory Long_Term_Memory Episodic_Memory Procedural_Memory
    Merkle_Tree Btree_Map Lsm_Tree Sketches Sorted_Table Prefix_Tree Radix_Tree Fm_Index
    Heap_Order Schedulers Task_Graph Text_Chars Str_Ops Search Repo_Parser Repo_Analysis Inverted_Index Temporal_Graph Identity Fingerprint Knowledge
    Tdxl_Syntax Tdxl_Positions Tdxl_Parser Tdxl_Kir Tdxl_Optimizer Tdxl_Query Tdxl_Rebuild Tdxl_Codegen Tdxl_Compile
begin

text \<open>
  TORdex is a knowledge operating system written in Rust: collectors gather documents, every
  change is an event, the events are projected to a virtual filesystem of typed objects, and
  programs of a small query language are compiled to bytecode for an intelligence VM. This
  library models its core as HOL functions and proves what makes each part correct. Where the
  code does something else than its comments say, the theorem states what the code does.

  \<^bold>\<open>Parts and theories.\<close> Paths are below \<open>src/crates\<close>.

  \<^item> \<open>Prelude\<close>: the result type (\<open>Inl\<close> an error, \<open>Inr\<close> a value), the state monad with errors, wrap-around
    integers, and the lemmas on lists, maps and words that the others share.
  \<^item> \<open>Event_Store\<close> (\<open>core/src/event_store.rs\<close>): envelopes and the 25 system events, the in-memory log with
    its two indices, the snapshot store and the replay of an aggregate. \<open>es_append\<close>, \<open>es_read\<close> and the
    others are the methods of the same names. The trait \<open>EventStore\<close> is the locale \<open>event_log\<close>, interpreted on
    the in-memory store. The store refines an abstract log (\<open>event_store_refines_log\<close>).
  \<^item> \<open>Storage\<close> (\<open>core/src/storage.rs\<close>): the in-memory key-value store; the trait is the locale \<open>storage_manager\<close>.
  \<^item> \<open>Kernel_Objects\<close> (\<open>core/src/object.rs\<close>), \<open>Kernel_Messaging\<close> (\<open>event.rs\<close>, \<open>ipc.rs\<close>), \<open>Kernel_Memory\<close> (\<open>memory.rs\<close>),
    \<open>Kernel_Services\<close> (policies, plugins, identities, processors, agents), \<open>Kernel\<close> (\<open>lib.rs\<close>): the other modules
    of the kernel and the record that holds one of each. The registries give the locale \<open>keyed_registry\<close>, the objects
    and the links \<open>keyed_store\<close>; the object manager refines a pair of maps. The counters of the allocator are also run as interleaved atomic steps.
  \<^item> \<open>Object_Model\<close> (\<open>types/src/lib.rs\<close>): the object records and status enumerations that the filesystem stores.
  \<^item> \<open>Vifs\<close>, \<open>Vifs_Projection\<close> (\<open>vifs/src/lib.rs\<close>): paths and the six operations of the filesystem over the
    storage; then the typed readers and writers, the projector with its 25 arms and the replay.
    \<open>serde\<close> and the text forms of identifiers and times are the fields of the record \<open>vifs_lib\<close>.
  \<^item> \<open>Collection_Queue\<close> (\<open>fabric/src/queue.rs\<close>): the binary heap over a vector, its identifier index and the
    bounded queue around it. The heap implements the locale \<open>pqueue\<close>; the queue answers like a
    list of waiting tasks. An index out of range is a panic and makes the result \<open>None\<close>.
  \<^item> \<open>Session\<close> (\<open>fabric/src/session.rs\<close>), \<open>Drivers\<close> (\<open>core/src/driver.rs\<close>): the session manager with its
    transition table, and the driver registry. A driver is a function on the outside world.
  \<^item> \<open>Fabric\<close> (\<open>fabric/src/fabric.rs\<close>): the collection fabric over queue, sessions, registry and event store;
    \<open>process_next\<close> and \<open>drain\<close> call the operations of the four theories before it.
  \<^item> \<open>Floats\<close>: the bit patterns of \<open>f32\<close> and \<open>f64\<close> with what the code does to them: comparison, sorting, rounding,
    decimal reading and printing, saturating casts.
  \<^item> \<open>Gpu\<close>, \<open>Memory_Model\<close> (\<open>gpu/src\<close>, \<open>memory/src\<close>): the ranking of the CPU backend and the data of the memory
    queries that the VM uses.
  \<^item> \<open>Task_Scheduler\<close> (\<open>core/src/scheduler.rs\<close>): the status table and the threads of the tasks as a step relation over
    their critical sections, interleaved with the callers in any order.
  \<^item> \<open>Working_Memory\<close>, \<open>Long_Term_Memory\<close>, \<open>Episodic_Memory\<close>, \<open>Procedural_Memory\<close> (\<open>memory/src\<close>): the scratchpad with
    its eviction, the two memories over the event store, and the stored procedures with their executor.
  \<^item> \<open>Merkle_Tree\<close>, \<open>Sketches\<close>, \<open>Sorted_Table\<close>, \<open>Lsm_Tree\<close> (\<open>algorithms/src/storage.rs\<close>): Merkle proofs, Bloom filter
    and HyperLogLog, the B+ tree (two vectors) and the log-structured tree. \<open>Btree_Map\<close> is the ordered map of
    the standard library. The hash is an argument; the binary search implements the locale \<open>searcher\<close>.
  \<^item> \<open>Prefix_Tree\<close>, \<open>Radix_Tree\<close>, \<open>Fm_Index\<close>, \<open>Inverted_Index\<close> (\<open>algorithms/src/searching.rs\<close>): the four text
    indices over the bytes of strings; \<open>Text_Chars\<close> holds lower case and white space below code point 256.
  \<^item> \<open>Heap_Order\<close>: the order of a binary heap in a vector and the interface \<open>pqueue\<close>, locales that the collection
    queue and the heaps interpret. \<open>Schedulers\<close>, \<open>Task_Graph\<close> (\<open>algorithms/src/scheduling.rs\<close>): the two heaps, the
    work-stealing scheduler, and the graph of tasks with its cycle check and topological order.
  \<^item> \<open>Search\<close> (\<open>search/src\<close>): the index, the atomic searches, the query algebra and the engine. \<open>Str_Ops\<close> holds the
    operations of \<open>str\<close>, \<open>Float_Arith\<close> the arithmetic of \<open>f64\<close>, exact on bit patterns.
  \<^item> \<open>Temporal_Graph\<close> (\<open>temporal-graph/src\<close>): intervals, the graph, snapshots, history, diffs and counts.
  \<^item> \<open>Identity\<close>, \<open>Fingerprint\<close>, \<open>Knowledge\<close> (\<open>knowledge/src\<close>): edit distance and name resolution; fingerprints
    and the duplicate engine; canonical forms, versions, provenance and the operations of the core.
  \<^item> \<open>Vm_Instruction\<close>, \<open>Vm\<close> (\<open>vm/src\<close>): opcodes and the eight-byte instruction format; programs, registers,
    stack and the executor with one definition per opcode. The memory stores, the system call handler
    and the JSON texts are fields of an environment record.
  \<^item> \<open>Tdxl_Syntax\<close>, \<open>Tdxl_Parser\<close> (\<open>tdxl/src/lexer.rs\<close>, \<open>parser.rs\<close>): the lexer with positions and escapes, the
    parser with every production. \<open>Tdxl_Positions\<close> defines the places of a text and shows that the lexer reports
    only such. \<open>Tdxl_Kir\<close> (\<open>kir.rs\<close>, \<open>compiler.rs\<close>): the intermediate representation and the
    lowering. \<open>Tdxl_Optimizer\<close>, \<open>Tdxl_Query\<close>, \<open>Tdxl_Rebuild\<close> (\<open>optimizer.rs\<close>, \<open>query_optimizer.rs\<close>): the two
    optimizers. \<open>Tdxl_Codegen\<close>, \<open>Tdxl_Compile\<close> (\<open>compiler.rs\<close>): registers, constants, bytecode, and \<open>compile\<close>.

  \<^item> \<open>Repo_Parser\<close>, \<open>Repo_Analysis\<close> (\<open>repo-intel/src\<close>): languages by file name, the line scanner that finds functions,
    types and imports, and the graphs and the report built on them.

  \<^bold>\<open>Groups of theorems.\<close> Event store: refinement of the log, optimistic concurrency, recovery from
  snapshots. Filesystem: path scheme, write and read, rename, listings, confinement and errors of the
  projection, what a replay projects. Queue: refinement of the line, draining after any run that
  includes cancels, what cancelling does with an index in sync and with a stale one. Sessions and fabric: life
  cycle, final states until the task is created again, termination of
  \<open>drain\<close>, no work without a queued session, one attempt per session, lost retries. VM: round trip of the
  format, runs within the budget, calls that return to themselves, targets of jumps. TDXL: printing
  and parsing, no panic in the front end and errors at places of the text, SSA form of the lowering, dataflow kept by the optimizers,
  well-formed code, and two kinds of programs that are miscompiled. Scheduler: cancelled tasks never
  run, panicked ones stay running. Kernel modules: objects and registries answer
  as the last operation left them, searches find what reads give, messages arrive once and in order, the counters are exact under any interleaving, one failing
  agent ends the round. Memories: what is stored is retrieved, what eviction, update, forget and
  retry do instead of what they say, termination of ranked procedures. Data structures: each index
  answers like the map, set or list of occurrences it stands for, proofs need a collision to lie, and
  the inputs on which the code panics or answers wrongly. Temporal graph: the past is the last snapshot,
  removal reaches the edges, diffs replay. Knowledge: the distance is the least edit script, duplicates
  are found by their fingerprint, histories hold the revisions and end. Search: the query algebra is the
  algebra of sets, results are documents within the limit with falling scores, and the searches that cannot answer.
  Repository analysis: what is found lies in the text, the control flow graph is a line.
  Scheduling: both heaps are bags, no task is lost or run twice, a graph of tasks never blocks and its topological sort is one.

  \<^bold>\<open>Bounds and fuel.\<close> \<open>execute_proc\<close> has the depth of the call stack as its fuel: \<open>ranked_procedures_return\<close> shows
  that the rank of a procedure is enough and a procedure that executes itself returns for no depth. No
  other definition has an artificial fuel. Loops are structural or have a measure; the
  loop of the executor counts the cycles as the code does (one million), \<open>drain\<close> ends by the number of
  \<open>Queued\<close> sessions, the lexer by the characters left, the parser by the tokens left. Sequence numbers
  and versions are \<open>u64\<close> words; theorems on long runs say how many operations they allow.

  \<^bold>\<open>Not modelled.\<close> Services, network and file input and output, the SQL and Redis stores, the drivers
  themselves, model calls, heuristics over text, third-party parsers. Of \<open>gpu\<close> the float sums behind
  similarity, of \<open>tdxl\<close> the cost model, which no caller uses; of \<open>algorithms\<close> graphs,
  similarity, the critical path and the float estimates, of \<open>temporal-graph\<close> the float trends and forecasts. Locks
  and tasks of the runtime: except for the task scheduler and the allocator, the operations of each component run one after the other.
\<close>

end
